(* ===== verification/Prelude.thy ===== *)
theory Prelude
  imports Main "HOL-Library.Word"
begin

text \<open>
  Shared vocabulary of the development: the machine integers of the sources as words,
  the little-endian byte encodings every on-disk and on-wire format of the program uses,
  and the parts of Rust's slice library the sources call (binary search, partition
  point, insertion and removal by index). A Rust panic is the value \<open>None\<close> of an
  option; a \<open>Result\<close> is a sum whose left side is the error.
\<close>

unbundle bit_operations_syntax

type_synonym u8 = "8 word"
type_synonym u16 = "16 word"
type_synonym u32 = "32 word"
type_synonym u64 = "64 word"
type_synonym bytes = "8 word list"

named_theorems codec_simps \<open>round trips and lengths of byte encodings\<close>
named_theorems slice_simps \<open>facts on the slice operations of the Rust library\<close>

section \<open>Little-endian byte strings\<close>

text \<open>
  \<open>nat_le n x\<close> are the \<open>n\<close> low bytes of \<open>x\<close>, least significant first, and
  \<open>le_nat\<close> reads such a string back. \<open>uN::to_le_bytes\<close> and \<open>uN::from_le_bytes\<close>
  are these two at the width of the type.
\<close>

fun nat_le :: "nat \<Rightarrow> nat \<Rightarrow> bytes" where
  "nat_le 0 x = []"
| "nat_le (Suc n) x = word_of_nat (x mod 256) # nat_le n (x div 256)"

fun le_nat :: "bytes \<Rightarrow> nat" where
  "le_nat [] = 0"
| "le_nat (b # bs) = unat b + 256 * le_nat bs"

definition u16_le :: "u16 \<Rightarrow> bytes" where "u16_le w = nat_le 2 (unat w)"
definition u32_le :: "u32 \<Rightarrow> bytes" where "u32_le w = nat_le 4 (unat w)"
definition u64_le :: "u64 \<Rightarrow> bytes" where "u64_le w = nat_le 8 (unat w)"

definition le_u16 :: "bytes \<Rightarrow> u16" where "le_u16 bs = word_of_nat (le_nat bs)"
definition le_u32 :: "bytes \<Rightarrow> u32" where "le_u32 bs = word_of_nat (le_nat bs)"
definition le_u64 :: "bytes \<Rightarrow> u64" where "le_u64 bs = word_of_nat (le_nat bs)"

lemma length_nat_le [simp, codec_simps]: "length (nat_le n x) = n"
  by (induction n arbitrary: x) auto

lemma unat_byte_mod: "unat (word_of_nat (x mod 256) :: u8) = x mod 256"
  by (simp add: unat_of_nat)

lemma le_nat_nat_le [codec_simps]: "le_nat (nat_le n x) = x mod 256 ^ n"
proof (induction n arbitrary: x)
  case 0
  then show ?case by simp
next
  case (Suc n)
  have "le_nat (nat_le (Suc n) x) = x mod 256 + 256 * (x div 256 mod 256 ^ n)"
    by (simp add: Suc.IH unat_byte_mod)
  also have "\<dots> = x mod (256 * 256 ^ n)"
    by (simp add: mod_mult2_eq)
  finally show ?case by simp
qed

lemma le_nat_bound: "le_nat bs < 256 ^ length bs"
proof (induction bs)
  case (Cons b bs)
  have "unat b < 256" using unsigned_less[of b, where ?'a=nat] by simp
  moreover have "256 * le_nat bs + 256 \<le> 256 * 256 ^ length bs"
    using Cons.IH by simp
  ultimately show ?case by simp
qed simp

lemma nat_le_le_nat [codec_simps]: "nat_le (length bs) (le_nat bs) = bs"
proof (induction bs)
  case (Cons b bs)
  have b: "unat b < 256" using unsigned_less[of b, where ?'a=nat] by simp
  then have "(unat b + 256 * le_nat bs) mod 256 = unat b"
    and "(unat b + 256 * le_nat bs) div 256 = le_nat bs" by simp_all
  then show ?case by (simp add: Cons.IH)
qed simp

lemma length_u16_le [simp, codec_simps]: "length (u16_le w) = 2" by (simp add: u16_le_def)
lemma length_u32_le [simp, codec_simps]: "length (u32_le w) = 4" by (simp add: u32_le_def)
lemma length_u64_le [simp, codec_simps]: "length (u64_le w) = 8" by (simp add: u64_le_def)

lemma le_u16_u16_le [simp, codec_simps]: "le_u16 (u16_le w) = w"
  using unsigned_less[of w, where ?'a=nat] by (simp add: le_u16_def u16_le_def le_nat_nat_le)

lemma le_u32_u32_le [simp, codec_simps]: "le_u32 (u32_le w) = w"
  using unsigned_less[of w, where ?'a=nat] by (simp add: le_u32_def u32_le_def le_nat_nat_le)

lemma le_u64_u64_le [simp, codec_simps]: "le_u64 (u64_le w) = w"
  using unsigned_less[of w, where ?'a=nat] by (simp add: le_u64_def u64_le_def le_nat_nat_le)

lemma u16_le_le_u16 [codec_simps]: "length bs = 2 \<Longrightarrow> u16_le (le_u16 bs) = bs"
  using le_nat_bound[of bs] nat_le_le_nat[of bs]
  by (simp add: le_u16_def u16_le_def unat_of_nat)

lemma u32_le_le_u32 [codec_simps]: "length bs = 4 \<Longrightarrow> u32_le (le_u32 bs) = bs"
  using le_nat_bound[of bs] nat_le_le_nat[of bs]
  by (simp add: le_u32_def u32_le_def unat_of_nat)

lemma u64_le_le_u64 [codec_simps]: "length bs = 8 \<Longrightarrow> u64_le (le_u64 bs) = bs"
  using le_nat_bound[of bs] nat_le_le_nat[of bs]
  by (simp add: le_u64_def u64_le_def unat_of_nat)

lemma length_two: "length xs = 2 \<longleftrightarrow> (\<exists>x y. xs = [x, y])"
  by (auto simp: length_Suc_conv numeral_2_eq_2)

lemma length_four: "length xs = 4 \<longleftrightarrow> (\<exists>w x y z. xs = [w, x, y, z])"
  by (auto simp: length_Suc_conv eval_nat_numeral)

lemma le_bytes_eval:
  "u16_le a = [word_of_nat (unat a mod 256), word_of_nat (unat a div 256 mod 256)]"
  "u32_le b = [word_of_nat (unat b mod 256), word_of_nat (unat b div 256 mod 256), word_of_nat (unat b div 65536 mod 256),
               word_of_nat (unat b div 16777216 mod 256)]"
proof -
  have n: "nat_le (Suc (Suc 0)) x = [word_of_nat (x mod 256), word_of_nat (x div 256 mod 256)]"
    "nat_le (Suc (Suc (Suc (Suc 0)))) x =
       [word_of_nat (x mod 256), word_of_nat (x div 256 mod 256), word_of_nat (x div 65536 mod 256), word_of_nat (x div 16777216 mod 256)]" for x
    by (simp_all only: nat_le.simps div_mult2_eq[symmetric]) simp_all
  have "(2::nat) = Suc (Suc 0)" "(4::nat) = Suc (Suc (Suc (Suc 0)))" by simp_all
  then show "u16_le a = [word_of_nat (unat a mod 256), word_of_nat (unat a div 256 mod 256)]"
    "u32_le b = [word_of_nat (unat b mod 256), word_of_nat (unat b div 256 mod 256), word_of_nat (unat b div 65536 mod 256),
               word_of_nat (unat b div 16777216 mod 256)]"
    unfolding u16_le_def u32_le_def using n by metis+
qed

section \<open>Slices\<close>

text \<open>
  \<open>slice::binary_search_by\<close> on the keys of a sorted slice: \<open>Inr i\<close> is \<open>Ok(i)\<close>,
  the position of the key; \<open>Inl i\<close> is \<open>Err(i)\<close>, the position to insert it at.
\<close>

function bsearch_loop :: "('a::linorder) list \<Rightarrow> 'a \<Rightarrow> nat \<Rightarrow> nat \<Rightarrow> nat + nat" where
  "bsearch_loop ks k lo hi =
     (if lo < hi then
        (let mid = lo + (hi - lo) div 2 in
         if ks ! mid = k then Inr mid
         else if ks ! mid < k then bsearch_loop ks k (Suc mid) hi
         else bsearch_loop ks k lo mid)
      else Inl lo)"
  by pat_completeness auto
termination
  by (relation "measure (\<lambda>(ks, k, lo, hi). hi - lo)") auto

declare bsearch_loop.simps [simp del]

definition binary_search :: "('a::linorder) list \<Rightarrow> 'a \<Rightarrow> nat + nat" where
  "binary_search ks k = bsearch_loop ks k 0 (length ks)"

text \<open>\<open>slice::partition_point\<close>: the length of the prefix on which the predicate holds.\<close>

definition partition_point :: "('a \<Rightarrow> bool) \<Rightarrow> 'a list \<Rightarrow> nat" where
  "partition_point P xs = length (takeWhile P xs)"

text \<open>\<open>Vec::insert\<close> and \<open>Vec::remove\<close> at a position.\<close>

definition vec_insert :: "nat \<Rightarrow> 'a \<Rightarrow> 'a list \<Rightarrow> 'a list" where
  "vec_insert i x xs = take i xs @ x # drop i xs"

definition vec_remove :: "nat \<Rightarrow> 'a list \<Rightarrow> 'a list" where
  "vec_remove i xs = take i xs @ drop (Suc i) xs"

lemma size_nth_less [termination_simp]: "i < length xs \<Longrightarrow> f (xs ! i) < Suc (size_list f xs)"
  using size_list_estimation'[of "xs ! i" xs "f (xs ! i)" f] by (simp add: less_Suc_eq_le)

lemma size_nth_less_add [termination_simp]:
  "i < length xs \<Longrightarrow> f (xs ! i) < Suc (n + size_list f xs)"
  using size_nth_less[of i xs f] by simp

lemma bsearch_loop_correct:
  assumes "sorted_wrt (<) ks" and "hi \<le> length ks" and "lo \<le> hi"
    and "\<forall>j<lo. ks ! j < k" and "\<forall>j. hi \<le> j \<and> j < length ks \<longrightarrow> k < ks ! j"
  shows "case bsearch_loop ks k lo hi of
           Inr i \<Rightarrow> i < length ks \<and> ks ! i = k
         | Inl i \<Rightarrow> i \<le> length ks \<and> (\<forall>j<i. ks ! j < k)
                     \<and> (\<forall>j. i \<le> j \<and> j < length ks \<longrightarrow> k < ks ! j)"
  using assms
proof (induction ks k lo hi rule: bsearch_loop.induct)
  case (1 ks k lo hi)
  show ?case
  proof (cases "lo < hi")
    case False
    with 1(3-) show ?thesis unfolding bsearch_loop.simps[of ks k lo hi] by simp
  next
    case True
    define mid where "mid = lo + (hi - lo) div 2"
    have mid: "lo \<le> mid" "mid < hi" using True by (auto simp: mid_def)
    have ml: "mid < length ks" using mid 1(4) by simp
    consider "ks ! mid = k" | "ks ! mid < k" | "k < ks ! mid" by fastforce
    then show ?thesis
    proof cases
      case 1
      then show ?thesis using True ml
        by (simp add: bsearch_loop.simps[of ks k lo hi] mid_def[symmetric] Let_def)
    next
      case 2
      have "\<forall>j<Suc mid. ks ! j < k"
        using 2 ml sorted_wrt_nth_less[OF 1(3)] by (metis less_Suc_eq less_trans)
      then show ?thesis using True 2 mid 1
        by (simp add: bsearch_loop.simps[of ks k lo hi] mid_def[symmetric] Let_def)
    next
      case 3
      have "\<forall>j. mid \<le> j \<and> j < length ks \<longrightarrow> k < ks ! j"
        using 3 sorted_wrt_nth_less[OF 1(3)] by (metis le_neq_implies_less less_trans)
      then show ?thesis using True 3 mid 1
        by (auto simp add: bsearch_loop.simps[of ks k lo hi] mid_def[symmetric] Let_def)
    qed
  qed
qed

lemma binary_search_correct:
  assumes "sorted_wrt (<) ks"
  shows "case binary_search ks k of
           Inr i \<Rightarrow> i < length ks \<and> ks ! i = k
         | Inl i \<Rightarrow> i \<le> length ks \<and> (\<forall>j<i. ks ! j < k)
                     \<and> (\<forall>j. i \<le> j \<and> j < length ks \<longrightarrow> k < ks ! j)"
  unfolding binary_search_def by (rule bsearch_loop_correct) (use assms in auto)

lemma binary_search_Inr:
  "sorted_wrt (<) ks \<Longrightarrow> binary_search ks k = Inr i \<Longrightarrow> i < length ks \<and> ks ! i = k"
  using binary_search_correct[of ks k] by simp

lemma binary_search_Inl:
  assumes "sorted_wrt (<) ks" "binary_search ks k = Inl i"
  shows "i \<le> length ks \<and> (\<forall>j<i. ks ! j < k) \<and> (\<forall>j. i \<le> j \<and> j < length ks \<longrightarrow> k < ks ! j)"
  using binary_search_correct[of ks k] assms by simp

lemma binary_search_found:
  assumes "sorted_wrt (<) ks"
  shows "(\<exists>i. binary_search ks k = Inr i) \<longleftrightarrow> k \<in> set ks"
proof (cases "binary_search ks k")
  case (Inl i)
  with binary_search_Inl[OF assms Inl] have "k \<notin> set ks"
    by (metis in_set_conv_nth less_irrefl not_le)
  with Inl show ?thesis by simp
next
  case (Inr i)
  with binary_search_Inr[OF assms Inr] show ?thesis by auto
qed

lemma partition_point_le [simp, slice_simps]: "partition_point P xs \<le> length xs"
  by (simp add: partition_point_def length_takeWhile_le)

lemma partition_point_below: "j < partition_point P xs \<Longrightarrow> P (xs ! j)"
  by (metis nth_mem partition_point_def set_takeWhileD takeWhile_nth)

lemma partition_point_stop: "partition_point P xs < length xs \<Longrightarrow> \<not> P (xs ! partition_point P xs)"
  unfolding partition_point_def by (rule nth_length_takeWhile)

lemma length_vec_insert [simp, slice_simps]: "i \<le> length xs \<Longrightarrow> length (vec_insert i x xs) = Suc (length xs)"
  by (simp add: vec_insert_def)

lemma length_vec_remove [simp, slice_simps]: "i < length xs \<Longrightarrow> length (vec_remove i xs) = length xs - 1"
  by (simp add: vec_remove_def)

lemma ball_take_nth: "(\<And>j. j < i \<Longrightarrow> j < length xs \<Longrightarrow> P (xs ! j)) \<Longrightarrow> \<forall>x\<in>set (take i xs). P x"
  by (auto simp: in_set_conv_nth)

lemma ball_drop_nth: "(\<And>j. i \<le> j \<Longrightarrow> j < length xs \<Longrightarrow> P (xs ! j)) \<Longrightarrow> \<forall>x\<in>set (drop i xs). P x"
  by (auto simp: in_set_conv_nth)

text \<open>\<open>slice::get\<close> and \<open>PersistentVec::get\<close>: indexing that answers \<open>None\<close> out of range.\<close>

definition slice_get :: "'a list \<Rightarrow> nat \<Rightarrow> 'a option" where
  "slice_get xs i = (if i < length xs then Some (xs ! i) else None)"

section \<open>Results, text and offsets\<close>

text \<open>The question mark operator: continue with the value of a result, or return its error.\<close>

fun and_then :: "'e + 'a \<Rightarrow> ('a \<Rightarrow> 'e + 'b) \<Rightarrow> 'e + 'b" where
  "and_then (Inl e) f = Inl e"
| "and_then (Inr x) f = f x"

lemma and_then_Inr: "and_then r f = Inr y \<longleftrightarrow> (\<exists>x. r = Inr x \<and> f x = Inr y)"
  by (cases r) auto

text \<open>
  \<open>str::from_utf8(..).is_ok()\<close>: well-formed byte sequences, no overlong form, no surrogate, at most
  U+10FFFF.
\<close>

definition is_cont :: "u8 \<Rightarrow> bool" where "is_cont b = (0x80 \<le> b \<and> b \<le> 0xBF)"

fun utf8_valid :: "bytes \<Rightarrow> bool" where
  "utf8_valid [] = True"
| "utf8_valid (a # rest) =
     (if a < 0x80 then utf8_valid rest
      else (case rest of
          [] \<Rightarrow> False
        | b # rest1 \<Rightarrow>
            if 0xC2 \<le> a \<and> a \<le> 0xDF then is_cont b \<and> utf8_valid rest1
            else (case rest1 of
                [] \<Rightarrow> False
              | c # rest2 \<Rightarrow>
                  if a = 0xE0 then 0xA0 \<le> b \<and> b \<le> 0xBF \<and> is_cont c \<and> utf8_valid rest2
                  else if a = 0xED then 0x80 \<le> b \<and> b \<le> 0x9F \<and> is_cont c \<and> utf8_valid rest2
                  else if 0xE1 \<le> a \<and> a \<le> 0xEF then is_cont b \<and> is_cont c \<and> utf8_valid rest2
                  else (case rest2 of
                      [] \<Rightarrow> False
                    | d # rest3 \<Rightarrow>
                        is_cont c \<and> is_cont d
                        \<and> (a = 0xF0 \<and> 0x90 \<le> b \<and> b \<le> 0xBF \<or> 0xF1 \<le> a \<and> a \<le> 0xF3 \<and> is_cont b \<or> a = 0xF4 \<and> 0x80 \<le> b \<and> b \<le> 0x8F)
                        \<and> utf8_valid rest3))))"

text \<open>\<open>usize::checked_add\<close> on a 64-bit machine, and the sub-slice \<open>buf[a..b]\<close>.\<close>

definition checked_add :: "nat \<Rightarrow> nat \<Rightarrow> nat option" where
  "checked_add a b = (if a + b < 2 ^ 64 then Some (a + b) else None)"

definition slice :: "'a list \<Rightarrow> nat \<Rightarrow> nat \<Rightarrow> 'a list" where "slice buf a b = take (b - a) (drop a buf)"

lemma slice_append [slice_simps]: "a = length pre \<Longrightarrow> b = a + length x \<Longrightarrow> slice (pre @ x @ post) a b = x"
  by (simp add: slice_def)

end
