(* ===== verification/Rust_Collections.thy ===== *)
theory Rust_Collections
  imports Prelude
begin

text \<open>
  The ordered containers of \<open>alloc::collections\<close> the sources use. A \<open>BTreeMap\<close> is a
  list of pairs in strictly ascending key order and a \<open>BTreeSet\<close> a strictly ascending
  list, so iteration order, which some results depend on, is part of the model.
\<close>

type_synonym ('k, 'v) btmap = "('k \<times> 'v) list"
type_synonym 'k btset = "'k list"

abbreviation ascending :: "('a::linorder) list \<Rightarrow> bool" where
  "ascending xs \<equiv> sorted_wrt (<) xs"

definition bm_inv :: "('k::linorder, 'v) btmap \<Rightarrow> bool" where
  "bm_inv m = ascending (map fst m)"

definition bm_get :: "('k::linorder, 'v) btmap \<Rightarrow> 'k \<Rightarrow> 'v option" where
  "bm_get m k = map_of m k"

fun bm_insert :: "'k \<Rightarrow> 'v \<Rightarrow> ('k::linorder, 'v) btmap \<Rightarrow> ('k, 'v) btmap" where
  "bm_insert k v [] = [(k, v)]"
| "bm_insert k v ((a, b) # m) =
     (if k < a then (k, v) # (a, b) # m
      else if k = a then (k, v) # m
      else (a, b) # bm_insert k v m)"

definition bm_remove :: "'k \<Rightarrow> ('k::linorder, 'v) btmap \<Rightarrow> ('k, 'v) btmap" where
  "bm_remove k m = filter (\<lambda>e. fst e \<noteq> k) m"

fun bs_insert :: "'k \<Rightarrow> ('k::linorder) btset \<Rightarrow> 'k btset" where
  "bs_insert k [] = [k]"
| "bs_insert k (a # s) = (if k < a then k # a # s else if k = a then a # s else a # bs_insert k s)"

definition bs_remove :: "'k \<Rightarrow> ('k::linorder) btset \<Rightarrow> 'k btset" where
  "bs_remove k s = filter (\<lambda>a. a \<noteq> k) s"

definition bs_contains :: "('k::linorder) btset \<Rightarrow> 'k \<Rightarrow> bool" where
  "bs_contains s k = (k \<in> set s)"

lemma bm_get_insert [simp]: "bm_get (bm_insert k v m) j = (if j = k then Some v else bm_get m j)"
  by (induction k v m rule: bm_insert.induct) (auto simp: bm_get_def)

lemma bm_get_remove [simp]: "bm_get (bm_remove k m) j = (if j = k then None else bm_get m j)"
  by (induction m) (auto simp: bm_get_def bm_remove_def)

lemma fst_set_bm_insert: "fst ` set (bm_insert k v m) = insert k (fst ` set m)"
  by (induction k v m rule: bm_insert.induct) auto

lemma bm_inv_insert [simp, intro]: "bm_inv m \<Longrightarrow> bm_inv (bm_insert k v m)"
  unfolding bm_inv_def
proof (induction k v m rule: bm_insert.induct)
  case (2 k v a b m)
  have "set (map fst (bm_insert k v m)) = insert k (set (map fst m))"
    using fst_set_bm_insert[of k v m] by simp
  with 2 show ?case by fastforce
qed simp

lemma bm_inv_remove [simp, intro]: "bm_inv m \<Longrightarrow> bm_inv (bm_remove k m)"
  by (induction m) (auto simp: bm_inv_def bm_remove_def)

lemma set_bs_insert [simp]: "set (bs_insert k s) = insert k (set s)"
  by (induction k s rule: bs_insert.induct) auto

lemma set_bs_remove [simp]: "set (bs_remove k s) = set s - {k}"
  by (auto simp: bs_remove_def)

lemma ascending_bs_insert [simp, intro]: "ascending s \<Longrightarrow> ascending (bs_insert k s)"
  by (induction k s rule: bs_insert.induct) auto

lemma ascending_bs_remove [simp, intro]: "ascending s \<Longrightarrow> ascending (bs_remove k s)"
  by (simp add: bs_remove_def sorted_wrt_filter)

lemma ascending_hd_le: "ascending s \<Longrightarrow> x \<in> set s \<Longrightarrow> hd s \<le> (x::'a::linorder)"
  by (cases s) auto

lemma bm_get_Some_in: "bm_get m k = Some v \<Longrightarrow> (k, v) \<in> set m"
  by (simp add: bm_get_def map_of_SomeD)

lemma bm_in_get: "bm_inv m \<Longrightarrow> (k, v) \<in> set m \<Longrightarrow> bm_get m k = Some v"
  by (simp add: bm_get_def bm_inv_def strict_sorted_iff map_of_is_SomeI)

lemma length_bm_insert:
  assumes "bm_inv m"
  shows "length (bm_insert k v m) = (if bm_get m k = None then Suc (length m) else length m)"
  using assms
proof (induction k v m rule: bm_insert.induct)
  case (2 k v a b m)
  then have i: "bm_inv m" and a: "\<forall>x\<in>set m. a < fst x" by (auto simp: bm_inv_def)
  have "map_of m k = None" if "k < a"
    using a that by (force simp: map_of_eq_None_iff)
  with 2 i show ?case by (auto simp: bm_get_def)
qed (simp add: bm_get_def)

lemma length_bm_remove:
  assumes "bm_inv m" "bm_get m k \<noteq> None"
  shows "Suc (length (bm_remove k m)) = length m"
  using assms
proof (induction m)
  case (Cons e m)
  show ?case
  proof (cases "fst e = k")
    case True
    have "\<forall>x\<in>set m. k < fst x" using Cons.prems(1) True by (auto simp: bm_inv_def)
    then have "filter (\<lambda>x. fst x \<noteq> k) m = m" by (auto simp: filter_id_conv)
    with True show ?thesis by (simp add: bm_remove_def)
  next
    case False
    with Cons show ?thesis by (auto simp: bm_inv_def bm_get_def bm_remove_def)
  qed
qed (simp add: bm_get_def)

lemma set_bm_insert_subset: "set (bm_insert k v m) \<subseteq> insert (k, v) (set m)"
  by (induction k v m rule: bm_insert.induct) auto

lemma set_fold_bs_insert [simp]: "set (fold bs_insert xs s) = set xs \<union> set s"
  by (induction xs arbitrary: s) auto

lemma bm_inv_map_values: "bm_inv (map (\<lambda>(k, v). (k, f v)) m) = bm_inv m"
  unfolding bm_inv_def by (rule arg_cong[of _ _ ascending]) (auto simp: comp_def)

lemma bm_get_map_values: "bm_get (map (\<lambda>(k, v). (k, f v)) m) k = map_option f (bm_get m k)"
  by (induction m) (auto simp: bm_get_def)

lemma bm_inv_filter: "bm_inv m \<Longrightarrow> bm_inv (filter P m)"
  unfolding bm_inv_def by (metis sorted_wrt_filter sorted_wrt_map)

lemma bm_get_filter:
  assumes "bm_inv m"
  shows "bm_get (filter (\<lambda>(k, v). P k v) m) k = (case bm_get m k of None \<Rightarrow> None | Some v \<Rightarrow> if P k v then Some v else None)"
  using assms
proof (induction m)
  case (Cons e m)
  obtain a b where e: "e = (a, b)" by fastforce
  have "map_of m a = None" using Cons.prems e by (auto simp: bm_inv_def map_of_eq_None_iff)
  with Cons e show ?case by (auto simp: bm_get_def bm_inv_def split: option.splits)
qed (simp add: bm_get_def)

end
