(* ===== verification/Row_Header.thy ===== *)
theory Row_Header
  imports Prelude
begin

text \<open>
  \<^verbatim>\<open>crates/spg-storage/src/row_header.rs\<close>: the per-row visibility header, the flag bits,
  and the process-wide version counter. The atomic counter is a value that the operations
  return updated: \<open>fetch_add\<close> wraps, \<open>fetch_max\<close> keeps the larger value.
\<close>

definition HEAP_XMIN_FROZEN :: u8 where "HEAP_XMIN_FROZEN = push_bit 0 1"
definition HEAP_HOT_UPDATED :: u8 where "HEAP_HOT_UPDATED = push_bit 1 1"
definition HEAP_ONLY_TUPLE :: u8 where "HEAP_ONLY_TUPLE = push_bit 2 1"
definition HEAP_XMAX_FROZEN :: u8 where "HEAP_XMAX_FROZEN = push_bit 3 1"

definition XMAX_ALIVE :: u64 where "XMAX_ALIVE = 0"
definition XMIN_FROZEN :: u64 where "XMIN_FROZEN = 1"

lemmas row_header_consts =
  HEAP_XMIN_FROZEN_def HEAP_HOT_UPDATED_def HEAP_ONLY_TUPLE_def HEAP_XMAX_FROZEN_def
  XMAX_ALIVE_def XMIN_FROZEN_def

record row_header =
  xmin :: u64
  xmax :: u64
  flags :: u8

type_synonym row_id = u64
type_synonym rel_id = u64

definition RowId_UNASSIGNED :: row_id where "RowId_UNASSIGNED = 0"
definition RelId_UNASSIGNED :: rel_id where "RelId_UNASSIGNED = 0"

definition header_frozen :: row_header where
  "header_frozen = \<lparr>xmin = XMIN_FROZEN, xmax = XMAX_ALIVE, flags = HEAP_XMIN_FROZEN\<rparr>"

definition header_alive :: "u64 \<Rightarrow> row_header" where
  "header_alive x = \<lparr>xmin = x, xmax = XMAX_ALIVE, flags = 0\<rparr>"

definition is_all_visible_fast :: "row_header \<Rightarrow> bool" where
  "is_all_visible_fast h =
     (flags h AND HEAP_XMIN_FROZEN = HEAP_XMIN_FROZEN \<and> xmax h = XMAX_ALIVE)"

definition is_deleted :: "row_header \<Rightarrow> bool" where
  "is_deleted h = (xmax h \<noteq> XMAX_ALIVE)"

section \<open>The version counter\<close>

definition GLOBAL_VERSION_INIT :: u64 where "GLOBAL_VERSION_INIT = XMIN_FROZEN + 1"

definition next_version :: "u64 \<Rightarrow> u64 \<times> u64" where
  "next_version g = (g, g + 1)"

definition current_version :: "u64 \<Rightarrow> u64" where
  "current_version g = g"

definition saturating_add1 :: "u64 \<Rightarrow> u64" where
  "saturating_add1 v = (if v = - 1 then - 1 else v + 1)"

definition observe_persisted_version :: "u64 \<Rightarrow> u64 \<Rightarrow> u64" where
  "observe_persisted_version g v = (if v = XMAX_ALIVE then g else max g (saturating_add1 v))"

text \<open>Loading an image observes both stamps of every restored header.\<close>

definition observe_header :: "u64 \<Rightarrow> row_header \<Rightarrow> u64" where
  "observe_header g h = observe_persisted_version (observe_persisted_version g (xmin h)) (xmax h)"

definition observe_headers :: "u64 \<Rightarrow> row_header list \<Rightarrow> u64" where
  "observe_headers g hs = foldl observe_header g hs"

lemma word_less_add1:
  assumes "(v::u64) \<noteq> - 1"
  shows "v < v + 1"
proof (rule ccontr)
  assume "\<not> v < v + 1"
  then have "unat (v + 1) \<le> unat v" by (simp add: not_less word_le_nat_alt)
  moreover have "v + 1 \<noteq> 0"
  proof
    assume "v + 1 = 0"
    then have "v = - 1" by (simp add: eq_neg_iff_add_eq_0)
    with assms show False by simp
  qed
  then have "unat (v + 1) = Suc (unat v)" by (simp add: unatSuc add.commute)
  ultimately show False by simp
qed

lemma saturating_add1_gt: "v \<noteq> - 1 \<Longrightarrow> v < saturating_add1 v"
  by (simp add: saturating_add1_def word_less_add1)

lemma observe_mono: "g \<le> observe_persisted_version g v"
  by (simp add: observe_persisted_version_def)

lemma observe_gt: "v \<noteq> XMAX_ALIVE \<Longrightarrow> v \<noteq> - 1 \<Longrightarrow> v < observe_persisted_version g v"
  by (simp add: observe_persisted_version_def saturating_add1_gt less_max_iff_disj)

lemma observe_header_mono: "g \<le> observe_header g h"
  unfolding observe_header_def by (meson observe_mono order_trans)

lemma observe_headers_mono: "g \<le> observe_headers g hs"
proof (induction hs arbitrary: g)
  case (Cons h hs)
  have "g \<le> observe_header g h" by (rule observe_header_mono)
  also have "\<dots> \<le> observe_headers (observe_header g h) hs" by (rule Cons.IH)
  finally show ?case by (simp add: observe_headers_def)
qed (simp add: observe_headers_def)

lemma observe_headers_gt:
  assumes "h \<in> set hs" and "v = xmin h \<or> v = xmax h" and "v \<noteq> XMAX_ALIVE" and "v \<noteq> - 1"
  shows "v < observe_headers g hs"
  using assms(1)
proof (induction hs arbitrary: g)
  case (Cons a hs)
  show ?case
  proof (cases "h = a")
    case True
    have "v < observe_header g a"
      using assms(2-4) True
      by (auto simp: observe_header_def intro: observe_gt less_le_trans[OF observe_gt observe_mono])
    also have "\<dots> \<le> observe_headers (observe_header g a) hs" by (rule observe_headers_mono)
    finally show ?thesis by (simp add: observe_headers_def)
  next
    case False
    with Cons show ?thesis by (simp add: observe_headers_def)
  qed
qed simp

end
