(* ===== verification/Snapshot.thy ===== *)
theory Snapshot
  imports Row_Header Rust_Collections
begin

text \<open>
  \<^verbatim>\<open>crates/spg-storage/src/snapshot.rs\<close> and \<^verbatim>\<open>vacuum.rs\<close>: the snapshot a reader holds, the
  two visibility rules over a row header, and the vacuum predicate, with the abstract
  reading of visibility they implement: a reader sees a row when it observes the
  transaction that inserted it and does not observe one that deleted it.
\<close>

named_theorems mvcc_simps \<open>visibility and snapshot facts\<close>

datatype xact_status = InProgress | Committed | Aborted

text \<open>An oracle is the lookup of a version's status (the trait \<open>XactStatusOracle\<close>).\<close>

type_synonym xact_oracle = "u64 \<Rightarrow> xact_status"

definition AllCommitted :: xact_oracle where "AllCommitted v = Committed"

section \<open>The in-progress set\<close>

type_synonym in_progress_set = "u64 list"

definition ips_from_sorted :: "u64 list \<Rightarrow> in_progress_set" where "ips_from_sorted xs = xs"
definition ips_empty :: in_progress_set where "ips_empty = []"
definition ips_ids :: "in_progress_set \<Rightarrow> u64 list" where "ips_ids s = s"
definition ips_contains :: "in_progress_set \<Rightarrow> u64 \<Rightarrow> bool" where
  "ips_contains s xid = (case binary_search s xid of Inr _ \<Rightarrow> True | Inl _ \<Rightarrow> False)"
definition ips_len :: "in_progress_set \<Rightarrow> nat" where "ips_len s = length s"
definition ips_is_empty :: "in_progress_set \<Rightarrow> bool" where "ips_is_empty s = (s = [])"

lemma ips_contains_iff [simp, mvcc_simps]: "ascending s \<Longrightarrow> ips_contains s x \<longleftrightarrow> x \<in> set s"
  using binary_search_found[of s x] by (auto simp: ips_contains_def split: sum.splits)

section \<open>Snapshots\<close>

record snapshot =
  version :: u64
  in_progress :: in_progress_set
  oldest_active :: u64
  tx_id :: u64
  locked_out :: "(rel_id \<times> nat btset) option"

definition snapshot_unbounded :: snapshot where
  "snapshot_unbounded =
     \<lparr>version = - 1, in_progress = ips_empty, oldest_active = - 1, tx_id = 0, locked_out = None\<rparr>"

definition snapshot_new :: "u64 \<Rightarrow> in_progress_set \<Rightarrow> u64 \<Rightarrow> u64 \<Rightarrow> snapshot" where
  "snapshot_new v ips oldest tx =
     \<lparr>version = v, in_progress = ips, oldest_active = oldest, tx_id = tx, locked_out = None\<rparr>"

definition visible :: "snapshot \<Rightarrow> row_header \<Rightarrow> bool" where
  "visible s h =
     (if tx_id s \<noteq> 0 \<and> xmax h = tx_id s then False
      else if tx_id s \<noteq> 0 \<and> xmin h = tx_id s then True
      else if xmin h > version s then False
      else if ips_contains (in_progress s) (xmin h) then False
      else if xmax h = XMAX_ALIVE then True
      else if xmax h > version s \<or> ips_contains (in_progress s) (xmax h) then True
      else False)"

definition visible_with_status :: "snapshot \<Rightarrow> row_header \<Rightarrow> xact_oracle \<Rightarrow> bool" where
  "visible_with_status s h xact =
     (if tx_id s \<noteq> 0 \<and> xmax h = tx_id s then False
      else if tx_id s \<noteq> 0 \<and> xmin h = tx_id s then True
      else if flags h AND HEAP_XMIN_FROZEN \<noteq> 0 \<and> xmax h = XMAX_ALIVE then True
      else if xmin h > version s then False
      else if ips_contains (in_progress s) (xmin h) then False
      else if xact (xmin h) = Aborted then False
      else if xmax h = XMAX_ALIVE then True
      else if xmax h > version s \<or> ips_contains (in_progress s) (xmax h) then True
      else if xact (xmax h) = Aborted then True
      else False)"

definition is_reclaimable :: "u64 \<Rightarrow> u64 \<Rightarrow> bool" where
  "is_reclaimable xm oldest = (xm \<noteq> XMAX_ALIVE \<and> xm < oldest)"

record vacuum_report =
  rows_reclaimed :: u64
  rows_examined :: u64
  per_table :: "(string \<times> u64) list"

definition vacuum_report_merge :: "vacuum_report \<Rightarrow> vacuum_report \<Rightarrow> vacuum_report" where
  "vacuum_report_merge a b =
     \<lparr>rows_reclaimed = rows_reclaimed a + rows_reclaimed b,
      rows_examined = rows_examined a + rows_examined b,
      per_table = per_table a @ per_table b\<rparr>"

section \<open>What visibility means\<close>

text \<open>
  A reader observes a version when the version is its own transaction, or when it had
  been allocated and had ended by the time of the snapshot and (for the abort-aware rule)
  did not abort.
\<close>

definition observes :: "snapshot \<Rightarrow> xact_oracle \<Rightarrow> u64 \<Rightarrow> bool" where
  "observes s xact x \<longleftrightarrow>
     tx_id s \<noteq> 0 \<and> x = tx_id s \<or> x \<le> version s \<and> x \<notin> set (in_progress s) \<and> xact x \<noteq> Aborted"

definition sees_row :: "snapshot \<Rightarrow> xact_oracle \<Rightarrow> row_header \<Rightarrow> bool" where
  "sees_row s xact h \<longleftrightarrow> observes s xact (xmin h) \<and> \<not> (is_deleted h \<and> observes s xact (xmax h))"

text \<open>
  The reader's own uncommitted rows carry no other transaction's tombstone: nobody else
  can see them to delete them.
\<close>

definition own_writes_ok :: "snapshot \<Rightarrow> row_header \<Rightarrow> bool" where
  "own_writes_ok s h \<longleftrightarrow>
     (tx_id s \<noteq> 0 \<and> xmin h = tx_id s \<longrightarrow> xmax h = XMAX_ALIVE \<or> xmax h = tx_id s)"

definition frozen_ok :: "snapshot \<Rightarrow> xact_oracle \<Rightarrow> row_header \<Rightarrow> bool" where
  "frozen_ok s xact h \<longleftrightarrow> (flags h AND HEAP_XMIN_FROZEN \<noteq> 0 \<longrightarrow> observes s xact (xmin h))"

lemma visible_sees_row [mvcc_simps]:
  "ascending (in_progress s) \<Longrightarrow> own_writes_ok s h \<Longrightarrow> visible s h \<longleftrightarrow> sees_row s AllCommitted h"
  by (auto simp: visible_def sees_row_def observes_def own_writes_ok_def is_deleted_def
      AllCommitted_def XMAX_ALIVE_def)

lemma visible_with_status_sees_row [mvcc_simps]:
  "ascending (in_progress s) \<Longrightarrow> own_writes_ok s h \<Longrightarrow> frozen_ok s xact h \<Longrightarrow>
   visible_with_status s h xact \<longleftrightarrow> sees_row s xact h"
  by (auto simp: visible_with_status_def sees_row_def observes_def own_writes_ok_def frozen_ok_def
      is_deleted_def XMAX_ALIVE_def)

lemma visible_with_status_cong:
  assumes "ascending (in_progress s)"
    and "xmin h \<le> version s \<Longrightarrow> xmin h \<notin> set (in_progress s) \<Longrightarrow> xact (xmin h) = xact' (xmin h)"
    and "xmax h \<le> version s \<Longrightarrow> xmax h \<notin> set (in_progress s) \<Longrightarrow> xact (xmax h) = xact' (xmax h)"
  shows "visible_with_status s h xact = visible_with_status s h xact'"
proof (cases "xmin h \<le> version s \<and> xmin h \<notin> set (in_progress s)")
  case False
  then show ?thesis using assms(1) by (simp add: visible_with_status_def not_less)
next
  case True
  then have e: "xact (xmin h) = xact' (xmin h)" using assms(2) by blast
  show ?thesis
  proof (cases "xmax h > version s \<or> ips_contains (in_progress s) (xmax h)")
    case True
    show ?thesis unfolding visible_with_status_def e by (simp only: True if_True)
  next
    case False
    then have "xact (xmax h) = xact' (xmax h)" using assms(1,3) by (simp add: not_less)
    with e show ?thesis unfolding visible_with_status_def by (simp only:)
  qed
qed

lemma reclaimable_not_visible:
  assumes "ascending (in_progress s)" and "own_writes_ok s h"
    and "is_reclaimable (xmax h) oldest" and "oldest \<le> version s"
    and "xmax h \<notin> set (in_progress s)"
  shows "\<not> visible s h"
  using assms by (auto simp: visible_def is_reclaimable_def own_writes_ok_def XMAX_ALIVE_def)

text \<open>Every row restored from a durable image that carries no delete stamp is visible to
  a snapshot taken at the recovered version cursor with no writer in flight, and every
  restored deleted row is invisible to it, for images whose stamps are below the top value
  of the version type: the cursor recovery covers both stamps of every header.\<close>

theorem restored_rows_visibility:
  assumes "h \<in> set hs" and "xmin h \<noteq> - 1" and "xmax h \<noteq> - 1"
    and "s = snapshot_new (observe_headers g hs) ips_empty oldest 0"
  shows "visible s h \<longleftrightarrow> \<not> is_deleted h"
proof (cases "is_deleted h")
  case True
  then have "xmax h < observe_headers g hs"
    using assms observe_headers_gt[of h hs "xmax h" g] by (simp add: is_deleted_def)
  with True assms show ?thesis
    by (auto simp: visible_def snapshot_new_def ips_empty_def is_deleted_def not_less)
next
  case False
  have "xmin h \<le> observe_headers g hs"
    using assms observe_headers_gt[of h hs "xmin h" g] by (cases "xmin h = XMAX_ALIVE") (auto simp: XMAX_ALIVE_def)
  with False assms show ?thesis
    by (simp add: visible_def snapshot_new_def ips_empty_def is_deleted_def not_less)
qed

theorem restored_rows_visibility_witness:
  "visible (snapshot_new (observe_headers 2 [header_alive 41]) ips_empty 2 0) (header_alive 41)"
proof -
  have "visible (snapshot_new (observe_headers 2 [header_alive 41]) ips_empty 2 0) (header_alive 41)
      \<longleftrightarrow> \<not> is_deleted (header_alive 41)"
    by (rule restored_rows_visibility[OF _ _ _ refl])
      (simp_all add: header_alive_def XMAX_ALIVE_def)
  then show ?thesis by (simp add: is_deleted_def header_alive_def)
qed

end
