(* ===== verification/Writer_Versions.thy ===== *)
theory Writer_Versions
  imports Snapshot
begin

text \<open>
  The engine's registry of writer versions (\<^verbatim>\<open>crates/spg-engine/src/lib.rs\<close>,
  \<^verbatim>\<open>transaction.rs\<close> and \<^verbatim>\<open>spg_admin.rs\<close>): versions are allocated from the process-wide
  cursor, stay in the in-flight set until commit or abort, and are captured by snapshots.
  Transactions under REPEATABLE READ or SERIALIZABLE hold the snapshot of their BEGIN.
  The registry is a state machine; its invariant carries the meaning of a held snapshot.
\<close>

datatype isolation_level = ReadUncommitted | ReadCommitted | RepeatableRead | Serializable

record writer_registry =
  global_version :: u64
  active_writer_versions :: "u64 btset"
  aborted_versions :: "u64 btset"
  current_tx :: "u64 option"
  tx_writer_versions :: "(u64, u64) btmap"
  tx_catalogs :: "(u64, snapshot option) btmap"
  stmt_writer_version :: "u64 option"

definition registry_init :: writer_registry where
  "registry_init = \<lparr>global_version = GLOBAL_VERSION_INIT, active_writer_versions = [],
     aborted_versions = [], current_tx = None, tx_writer_versions = [], tx_catalogs = [],
     stmt_writer_version = None\<rparr>"

section \<open>Operations\<close>

definition begin_writer_version :: "writer_registry \<Rightarrow> u64 \<times> writer_registry" where
  "begin_writer_version r =
     (let (v, g) = next_version (global_version r)
      in (v, r\<lparr>global_version := g,
               active_writer_versions := bs_insert v (active_writer_versions r)\<rparr>))"

definition commit_writer_version :: "u64 \<Rightarrow> writer_registry \<Rightarrow> writer_registry" where
  "commit_writer_version v r =
     r\<lparr>active_writer_versions := bs_remove v (active_writer_versions r)\<rparr>"

definition abort_writer_version :: "u64 \<Rightarrow> writer_registry \<Rightarrow> writer_registry" where
  "abort_writer_version v r =
     r\<lparr>active_writer_versions := bs_remove v (active_writer_versions r),
       aborted_versions := bs_insert v (aborted_versions r)\<rparr>"

definition xact_status :: "writer_registry \<Rightarrow> xact_oracle" where
  "xact_status r v =
     (if bs_contains (active_writer_versions r) v then InProgress
      else if bs_contains (aborted_versions r) v then Aborted
      else Committed)"

definition reader_tx_id :: "writer_registry \<Rightarrow> u64" where
  "reader_tx_id r =
     (case current_tx r of None \<Rightarrow> 0
      | Some t \<Rightarrow> (case bm_get (tx_writer_versions r) t of None \<Rightarrow> 0 | Some v \<Rightarrow> v))"

definition fresh_snapshot :: "writer_registry \<Rightarrow> snapshot" where
  "fresh_snapshot r =
     (let v = current_version (global_version r) in
      if active_writer_versions r = [] then snapshot_new v ips_empty v (reader_tx_id r)
      else snapshot_new v (ips_from_sorted (active_writer_versions r))
             (hd (active_writer_versions r)) (reader_tx_id r))"

definition cached_snapshot :: "writer_registry \<Rightarrow> snapshot option" where
  "cached_snapshot r =
     (case current_tx r of None \<Rightarrow> None
      | Some t \<Rightarrow> (case bm_get (tx_catalogs r) t of None \<Rightarrow> None | Some c \<Rightarrow> c))"

definition current_snapshot_inner :: "writer_registry \<Rightarrow> snapshot" where
  "current_snapshot_inner r =
     (case cached_snapshot r of Some s \<Rightarrow> s | None \<Rightarrow> fresh_snapshot r)"

definition current_snapshot :: "(rel_id \<times> nat btset) option \<Rightarrow> writer_registry \<Rightarrow> snapshot" where
  "current_snapshot lock_skip_rows r = (current_snapshot_inner r)\<lparr>locked_out := lock_skip_rows\<rparr>"

definition writer_version_for_current_stmt :: "writer_registry \<Rightarrow> u64 \<times> writer_registry" where
  "writer_version_for_current_stmt r =
     (case (case current_tx r of None \<Rightarrow> None | Some t \<Rightarrow> bm_get (tx_writer_versions r) t) of
        Some v \<Rightarrow> (v, r)
      | None \<Rightarrow>
         (case stmt_writer_version r of
            Some v \<Rightarrow> (v, r)
          | None \<Rightarrow>
             (let (v, g) = next_version (global_version r)
              in (v, r\<lparr>global_version := g, stmt_writer_version := Some v\<rparr>))))"

definition vacuum_oldest_active :: "writer_registry \<Rightarrow> u64" where
  "vacuum_oldest_active r =
     (let floor0 = current_version (global_version r);
          floor1 = (case active_writer_versions r of [] \<Rightarrow> floor0 | m # _ \<Rightarrow> min floor0 m)
      in foldl (\<lambda>f e. case snd e of None \<Rightarrow> f | Some s \<Rightarrow> min f (version s)) floor1 (tx_catalogs r))"

text \<open>The version bookkeeping of BEGIN, COMMIT and ROLLBACK of the transaction in the
  current slot; the error branches are the two misuses the statements refuse.\<close>

datatype tx_error = NoActiveTransaction | TransactionAlreadyOpen

definition exec_begin ::
  "isolation_level \<Rightarrow> (rel_id \<times> nat btset) option \<Rightarrow> writer_registry \<Rightarrow> tx_error + writer_registry" where
  "exec_begin lvl lock_skip_rows r =
     (case current_tx r of
        None \<Rightarrow> Inl NoActiveTransaction
      | Some t \<Rightarrow>
         if bm_get (tx_catalogs r) t \<noteq> None then Inl TransactionAlreadyOpen
         else
           (let (v, r1) = begin_writer_version r;
                r2 = r1\<lparr>tx_writer_versions := bm_insert t v (tx_writer_versions r1)\<rparr>;
                c = (case lvl of
                       RepeatableRead \<Rightarrow> Some (current_snapshot lock_skip_rows r2)
                     | Serializable \<Rightarrow> Some (current_snapshot lock_skip_rows r2)
                     | _ \<Rightarrow> None)
            in Inr (r2\<lparr>tx_catalogs := bm_insert t c (tx_catalogs r2)\<rparr>)))"

definition end_tx :: "(u64 \<Rightarrow> writer_registry \<Rightarrow> writer_registry) \<Rightarrow> writer_registry \<Rightarrow> tx_error + writer_registry" where
  "end_tx finish r =
     (case current_tx r of
        None \<Rightarrow> Inl NoActiveTransaction
      | Some t \<Rightarrow>
         if bm_get (tx_catalogs r) t = None then Inl NoActiveTransaction
         else
           (let r1 = r\<lparr>tx_catalogs := bm_remove t (tx_catalogs r)\<rparr> in
            case bm_get (tx_writer_versions r1) t of
              None \<Rightarrow> Inr r1
            | Some v \<Rightarrow>
                Inr (finish v (r1\<lparr>tx_writer_versions := bm_remove t (tx_writer_versions r1)\<rparr>))))"

definition exec_commit :: "writer_registry \<Rightarrow> tx_error + writer_registry" where
  "exec_commit = end_tx commit_writer_version"

definition exec_rollback :: "writer_registry \<Rightarrow> tx_error + writer_registry" where
  "exec_rollback = end_tx abort_writer_version"

lemmas registry_ops =
  begin_writer_version_def commit_writer_version_def abort_writer_version_def
  writer_version_for_current_stmt_def next_version_def

section \<open>Runs of the registry\<close>

text \<open>
  One step is one statement boundary: selecting a transaction slot, opening a transaction,
  ending it, or an autocommit write. Allocation steps require the cursor to be below its
  top value (the sources declare that it never wraps).
\<close>

inductive registry_step :: "writer_registry \<Rightarrow> writer_registry \<Rightarrow> bool" where
  select: "registry_step r (r\<lparr>current_tx := t, stmt_writer_version := None\<rparr>)"
| begin_tx: "exec_begin lvl lo r = Inr r' \<Longrightarrow> global_version r \<noteq> - 1 \<Longrightarrow> registry_step r r'"
| commit_tx: "exec_commit r = Inr r' \<Longrightarrow> registry_step r r'"
| rollback_tx: "exec_rollback r = Inr r' \<Longrightarrow> registry_step r r'"
| write_stmt: "writer_version_for_current_stmt r = (v, r') \<Longrightarrow> global_version r \<noteq> - 1 \<Longrightarrow>
    registry_step r r'"

inductive registry_reachable :: "writer_registry \<Rightarrow> bool" where
  init: "registry_reachable registry_init"
| step: "registry_reachable r \<Longrightarrow> registry_step r r' \<Longrightarrow> registry_reachable r'"

inductive_cases registry_stepE: "registry_step r r'"

text \<open>A snapshot is held when an open transaction keeps it.\<close>

definition held :: "writer_registry \<Rightarrow> snapshot \<Rightarrow> bool" where
  "held r s \<longleftrightarrow> (\<exists>t. (t, Some s) \<in> set (tx_catalogs r))"

text \<open>What a snapshot promises about the registry: it is no newer than the cursor, and
  a version below it that it does not list as in flight has ended.\<close>

definition snapshot_ok :: "writer_registry \<Rightarrow> snapshot \<Rightarrow> bool" where
  "snapshot_ok r s \<longleftrightarrow>
     ascending (in_progress s) \<and> version s \<le> global_version r \<and>
     (\<forall>x \<in> set (active_writer_versions r). x < version s \<longrightarrow> x \<in> set (in_progress s))"

definition registry_inv :: "writer_registry \<Rightarrow> bool" where
  "registry_inv r \<longleftrightarrow>
     ascending (active_writer_versions r) \<and>
     (\<forall>x \<in> set (active_writer_versions r). x < global_version r) \<and>
     (\<forall>x \<in> set (aborted_versions r). x < global_version r) \<and>
     (\<forall>t v. bm_get (tx_writer_versions r) t = Some v \<longrightarrow> v \<in> set (active_writer_versions r)) \<and>
     (\<forall>t t' v. bm_get (tx_writer_versions r) t = Some v \<and> bm_get (tx_writer_versions r) t' = Some v
        \<longrightarrow> t = t') \<and>
     bm_inv (tx_catalogs r) \<and>
     (\<forall>s. held r s \<longrightarrow> snapshot_ok r s)"

lemma registry_inv_init: "registry_inv registry_init"
  by (simp add: registry_inv_def registry_init_def held_def bm_get_def bm_inv_def)

lemma held_iff: "bm_inv (tx_catalogs r) \<Longrightarrow> held r s \<longleftrightarrow> (\<exists>t. bm_get (tx_catalogs r) t = Some (Some s))"
  by (auto simp: held_def intro: bm_get_Some_in bm_in_get)

lemma fresh_snapshot_simps [simp]:
  "version (fresh_snapshot r) = global_version r"
  "in_progress (fresh_snapshot r) = active_writer_versions r"
  "tx_id (fresh_snapshot r) = reader_tx_id r"
  by (simp_all add: fresh_snapshot_def snapshot_new_def ips_from_sorted_def ips_empty_def current_version_def Let_def)

lemma fresh_snapshot_ok: "registry_inv r \<Longrightarrow> snapshot_ok r (fresh_snapshot r)"
  by (simp add: snapshot_ok_def registry_inv_def)

lemma snapshot_ok_frame:
  assumes "snapshot_ok r s" and "global_version r \<le> global_version r'"
    and "\<forall>x \<in> set (active_writer_versions r'). x \<in> set (active_writer_versions r) \<or> global_version r \<le> x"
  shows "snapshot_ok r' s"
  using assms unfolding snapshot_ok_def by fastforce

lemma snapshot_ok_locked_out [simp]: "snapshot_ok r (s\<lparr>locked_out := lo\<rparr>) = snapshot_ok r s"
  by (simp add: snapshot_ok_def)

lemma bm_get_tx_catalogs_cached:
  "current_tx r = Some t \<Longrightarrow> bm_get (tx_catalogs r) t = None \<Longrightarrow>
   current_snapshot_inner r = fresh_snapshot r"
  by (simp add: current_snapshot_inner_def cached_snapshot_def)

lemma begin_writer_version_inv:
  assumes "registry_inv r" and "global_version r \<noteq> - 1" and "begin_writer_version r = (v, r')"
  shows "registry_inv r'" and "v = global_version r" and "v < global_version r'"
    and "active_writer_versions r' = bs_insert v (active_writer_versions r)"
    and "tx_catalogs r' = tx_catalogs r" and "tx_writer_versions r' = tx_writer_versions r"
    and "current_tx r' = current_tx r" and "aborted_versions r' = aborted_versions r"
proof -
  let ?g = "global_version r"
  have lt: "?g < ?g + 1" using assms(2) by (rule word_less_add1)
  have r': "v = ?g" "r' = r\<lparr>global_version := ?g + 1,
      active_writer_versions := bs_insert ?g (active_writer_versions r)\<rparr>"
    using assms(3) by (auto simp: begin_writer_version_def next_version_def)
  show "v = ?g" "v < global_version r'"
    "active_writer_versions r' = bs_insert v (active_writer_versions r)"
    "tx_catalogs r' = tx_catalogs r" "tx_writer_versions r' = tx_writer_versions r"
    "current_tx r' = current_tx r" "aborted_versions r' = aborted_versions r"
    using r' lt by simp_all
  have sn: "held r' s \<longrightarrow> snapshot_ok r' s" for s
    using assms(1) snapshot_ok_frame[of r s r'] r' lt by (auto simp: registry_inv_def held_def)
  show "registry_inv r'"
    using assms(1) lt sn r' unfolding registry_inv_def by (auto intro: less_trans)
qed

lemma exec_begin_inv:
  assumes inv: "registry_inv r" and g: "global_version r \<noteq> - 1" and b: "exec_begin lvl lo r = Inr r'"
  shows "registry_inv r'"
proof -
  from b obtain t where t: "current_tx r = Some t" and none: "bm_get (tx_catalogs r) t = None"
    by (auto simp: exec_begin_def split: option.splits if_splits)
  obtain v r1 where bv: "begin_writer_version r = (v, r1)" by fastforce
  note B = begin_writer_version_inv[OF inv g bv]
  define r2 where "r2 = r1\<lparr>tx_writer_versions := bm_insert t v (tx_writer_versions r1)\<rparr>"
  have fresh: "w \<noteq> v" if "bm_get (tx_writer_versions r) u = Some w" for u w
    using inv that B(2) unfolding registry_inv_def by fastforce
  have inv2: "registry_inv r2"
    using B(1,4,6) fresh unfolding registry_inv_def r2_def held_def snapshot_ok_def
    by (auto split: if_splits)
  have cs: "current_snapshot lo r2 = (fresh_snapshot r2)\<lparr>locked_out := lo\<rparr>"
    using bm_get_tx_catalogs_cached[of r2 t] t none B(5,7) by (simp add: current_snapshot_def r2_def)
  obtain c where r': "r' = r2\<lparr>tx_catalogs := bm_insert t c (tx_catalogs r2)\<rparr>"
    and c: "c = None \<or> c = Some (current_snapshot lo r2)"
    using b t none bv by (cases lvl) (auto simp: exec_begin_def r2_def Let_def)
  have "snapshot_ok r' s" if "held r' s" for s
  proof -
    have "held r2 s \<or> c = Some s"
      using that inv2 by (auto simp: held_iff r' registry_inv_def split: if_splits)
    then have "snapshot_ok r2 s"
      using inv2 c cs fresh_snapshot_ok[OF inv2] by (auto simp: registry_inv_def)
    then show ?thesis by (simp add: r' snapshot_ok_def)
  qed
  then show ?thesis using inv2 unfolding r' registry_inv_def by simp
qed

lemma end_tx_inv:
  assumes inv: "registry_inv r" and e: "end_tx f r = Inr r'"
    and f: "f = commit_writer_version \<or> f = abort_writer_version"
  shows "registry_inv r'"
proof -
  from e obtain t where t: "current_tx r = Some t"
    by (auto simp: end_tx_def split: option.splits)
  define r1 where "r1 = r\<lparr>tx_catalogs := bm_remove t (tx_catalogs r)\<rparr>"
  have h1: "held r1 s \<Longrightarrow> held r s" for s by (auto simp: held_def r1_def bm_remove_def)
  have inv1: "registry_inv r1"
    using inv h1 unfolding registry_inv_def snapshot_ok_def r1_def by auto
  show ?thesis
  proof (cases "bm_get (tx_writer_versions r) t")
    case None
    with e t inv1 show ?thesis by (auto simp: end_tx_def r1_def split: if_splits)
  next
    case (Some v)
    have vlt: "v < global_version r1" using inv1 Some by (auto simp: registry_inv_def r1_def)
    have r': "r' = f v (r1\<lparr>tx_writer_versions := bm_remove t (tx_writer_versions r1)\<rparr>)"
      using e t Some by (auto simp: end_tx_def r1_def Let_def split: if_splits)
    have "held r' s \<Longrightarrow> held r1 s" for s
      using f by (auto simp: held_def r' commit_writer_version_def abort_writer_version_def)
    moreover have "snapshot_ok r1 s \<Longrightarrow> snapshot_ok r' s" for s
      by (erule snapshot_ok_frame)
        (use f in \<open>auto simp: r' commit_writer_version_def abort_writer_version_def\<close>)
    ultimately have "held r' s \<Longrightarrow> snapshot_ok r' s" for s
      using inv1 by (auto simp: registry_inv_def)
    moreover have "w \<noteq> v" if "bm_get (tx_writer_versions r1) u = Some w" "u \<noteq> t" for u w
      using inv1 Some that by (auto simp: registry_inv_def r1_def)
    ultimately show ?thesis using inv1 f vlt unfolding r' registry_inv_def
      by (auto simp: commit_writer_version_def abort_writer_version_def split: if_splits)
  qed
qed

lemma write_stmt_inv:
  assumes "registry_inv r" and "global_version r \<noteq> - 1" and "writer_version_for_current_stmt r = (v, r')"
  shows "registry_inv r'"
proof -
  have lt: "global_version r < global_version r + 1" using assms(2) by (rule word_less_add1)
  consider "r' = r" | "r' = r\<lparr>global_version := global_version r + 1,
      stmt_writer_version := Some (global_version r)\<rparr>"
    using assms(3)
    by (auto simp: writer_version_for_current_stmt_def next_version_def split: option.splits)
  then show ?thesis
  proof cases
    case 1
    with assms(1) show ?thesis by simp
  next
    case 2
    have "held r' s \<longrightarrow> snapshot_ok r' s" for s
      using assms(1) snapshot_ok_frame[of r s r'] 2 lt by (auto simp: registry_inv_def held_def)
    then show ?thesis using assms(1) lt 2 unfolding registry_inv_def by (auto intro: less_trans)
  qed
qed

lemma registry_step_inv: "registry_step r r' \<Longrightarrow> registry_inv r \<Longrightarrow> registry_inv r'"
proof (induction rule: registry_step.induct)
  case (select r t)
  then show ?case by (simp add: registry_inv_def held_def snapshot_ok_def)
qed (auto intro: exec_begin_inv end_tx_inv write_stmt_inv simp: exec_commit_def exec_rollback_def)

lemma registry_reachable_inv: "registry_reachable r \<Longrightarrow> registry_inv r"
  by (induction rule: registry_reachable.induct) (auto intro: registry_inv_init registry_step_inv)

section \<open>The oracle contract\<close>

text \<open>
  What the visibility rule relies on from a status registry: a version that has been
  allocated and has ended keeps its status along every run.
\<close>

locale terminal_oracle =
  fixes status :: "'r \<Rightarrow> xact_oracle"
    and step :: "'r \<Rightarrow> 'r \<Rightarrow> bool"
    and inv :: "'r \<Rightarrow> bool"
    and cursor :: "'r \<Rightarrow> u64"
  assumes inv_step: "inv r \<Longrightarrow> step r r' \<Longrightarrow> inv r'"
    and cursor_step: "inv r \<Longrightarrow> step r r' \<Longrightarrow> cursor r \<le> cursor r'"
    and terminal_step: "inv r \<Longrightarrow> step r r' \<Longrightarrow> x < cursor r \<Longrightarrow> status r x \<noteq> InProgress \<Longrightarrow>
      status r' x = status r x"
begin

lemma run_terminal:
  assumes "step\<^sup>*\<^sup>* r r'" and "inv r" and "x < cursor r" and "status r x \<noteq> InProgress"
  shows "inv r' \<and> x < cursor r' \<and> status r' x = status r x"
  using assms(1)
proof (induction rule: rtranclp_induct)
  case base
  with assms show ?case by simp
next
  case (step y z)
  then show ?case
    using inv_step[of y z] cursor_step[of y z] terminal_step[of y z x] assms(4) by auto
qed

text \<open>A snapshot reads the oracle only at versions it does not already decide itself.\<close>

lemma visibility_stable:
  assumes run: "step\<^sup>*\<^sup>* r r'" and inv: "inv r" and asc: "ascending (in_progress s)"
    and ended: "\<And>x. x = xmin h \<or> x = xmax h \<Longrightarrow> x \<le> version s \<Longrightarrow> x \<notin> set (in_progress s) \<Longrightarrow>
      x < cursor r \<and> status r x \<noteq> InProgress"
  shows "visible_with_status s h (status r') = visible_with_status s h (status r)"
proof -
  have "x \<le> version s \<Longrightarrow> x \<notin> set (in_progress s) \<Longrightarrow> status r' x = status r x"
    if "x = xmin h \<or> x = xmax h" for x
    using run_terminal[OF run inv] ended[OF that] by blast
  with asc show ?thesis by (intro visible_with_status_cong) auto
qed

end

lemma xact_status_terminal_end:
  assumes "registry_inv r" and "end_tx f r = Inr r'" and "xact_status r x \<noteq> InProgress"
    and "f = commit_writer_version \<or> f = abort_writer_version"
  shows "xact_status r' x = xact_status r x"
proof -
  have xa: "x \<notin> set (active_writer_versions r)"
    using assms(3) by (auto simp: xact_status_def bs_contains_def split: if_splits)
  then have "bm_get (tx_writer_versions r) t \<noteq> Some x" for t
    using assms(1) by (auto simp: registry_inv_def)
  then show ?thesis using assms(2,4) xa
    by (auto simp: end_tx_def xact_status_def bs_contains_def commit_writer_version_def
        abort_writer_version_def Let_def split: option.splits if_splits)
qed

lemma xact_status_terminal_begin:
  assumes "exec_begin lvl lo r = Inr r'" and "x < global_version r"
  shows "xact_status r' x = xact_status r x"
  using assms
  by (auto simp: exec_begin_def begin_writer_version_def next_version_def xact_status_def
      bs_contains_def Let_def split: option.splits if_splits)

lemma xact_status_terminal_stmt:
  "writer_version_for_current_stmt r = (v, r') \<Longrightarrow> xact_status r' x = xact_status r x"
  by (auto simp: writer_version_for_current_stmt_def next_version_def xact_status_def
      split: option.splits)

lemma registry_step_terminal:
  "registry_step r r' \<Longrightarrow> registry_inv r \<Longrightarrow> x < global_version r \<Longrightarrow> xact_status r x \<noteq> InProgress \<Longrightarrow>
   xact_status r' x = xact_status r x"
proof (induction rule: registry_step.induct)
  case (select r t)
  then show ?case by (simp add: xact_status_def)
qed (auto intro: xact_status_terminal_end xact_status_terminal_begin xact_status_terminal_stmt
      simp: exec_commit_def exec_rollback_def)

lemma registry_step_cursor: "registry_step r r' \<Longrightarrow> global_version r \<le> global_version r'"
proof (induction rule: registry_step.induct)
  case (begin_tx lvl lo r r')
  then show ?case using word_less_add1[of "global_version r"]
    by (auto simp: exec_begin_def begin_writer_version_def next_version_def Let_def
        split: option.splits if_splits)
next
  case (write_stmt r v r')
  then show ?case using word_less_add1[of "global_version r"]
    by (auto simp: writer_version_for_current_stmt_def next_version_def split: option.splits)
qed (auto simp: exec_commit_def exec_rollback_def end_tx_def commit_writer_version_def
      abort_writer_version_def Let_def split: option.splits if_splits)

interpretation registry: terminal_oracle xact_status registry_step registry_inv global_version
  by unfold_locales (auto intro: registry_step_inv registry_step_cursor registry_step_terminal)

section \<open>Properties\<close>


lemma foldl_min_le:
  fixes f0 :: u64
  shows "foldl (\<lambda>f e. case snd e of None \<Rightarrow> f | Some s \<Rightarrow> min f (version s)) f0 cs \<le> f0"
proof (induction cs arbitrary: f0)
  case (Cons e cs)
  show ?case
    by (cases "snd e") (auto intro: order_trans[OF Cons.IH])
qed simp

lemma foldl_min_member:
  fixes f0 :: u64
  assumes "(t, Some s) \<in> set cs"
  shows "foldl (\<lambda>f e. case snd e of None \<Rightarrow> f | Some s \<Rightarrow> min f (version s)) f0 cs \<le> version s"
  using assms
proof (induction cs arbitrary: f0)
  case (Cons e cs)
  show ?case
  proof (cases "e = (t, Some s)")
    case True
    then show ?thesis by (auto intro: order_trans[OF foldl_min_le])
  next
    case False
    with Cons show ?thesis by simp
  qed
qed simp

lemma vacuum_floor_le:
  shows "vacuum_oldest_active r \<le> global_version r"
    and "held r s \<Longrightarrow> vacuum_oldest_active r \<le> version s"
    and "ascending (active_writer_versions r) \<Longrightarrow> x \<in> set (active_writer_versions r) \<Longrightarrow>
         vacuum_oldest_active r \<le> x"
proof -
  let ?f1 = "case active_writer_versions r of [] \<Rightarrow> global_version r | m # _ \<Rightarrow> min (global_version r) m"
  have fl: "vacuum_oldest_active r \<le> ?f1"
    unfolding vacuum_oldest_active_def current_version_def Let_def by (rule foldl_min_le)
  then show "vacuum_oldest_active r \<le> global_version r"
    by (auto split: list.splits)
  show "held r s \<Longrightarrow> vacuum_oldest_active r \<le> version s"
    unfolding vacuum_oldest_active_def held_def Let_def by (auto intro: foldl_min_member)
  show "vacuum_oldest_active r \<le> x"
    if "ascending (active_writer_versions r)" "x \<in> set (active_writer_versions r)"
    using fl that by (cases "active_writer_versions r") (auto intro: order_trans)
qed

lemma reclaimable_invisible_held:
  assumes "registry_reachable r" and "held r s" and "own_writes_ok s h"
    and "is_reclaimable (xmax h) (vacuum_oldest_active r)" and "xmax h \<notin> set (in_progress s)"
  shows "\<not> visible s h"
proof (rule reclaimable_not_visible[OF _ assms(3,4) vacuum_floor_le(2)[OF assms(2)] assms(5)])
  show "ascending (in_progress s)"
    using registry_reachable_inv[OF assms(1)] assms(2) by (simp add: registry_inv_def snapshot_ok_def)
qed

lemma reclaimable_invisible_fresh:
  assumes "registry_reachable r" and "own_writes_ok (fresh_snapshot r) h"
    and "is_reclaimable (xmax h) (vacuum_oldest_active r)"
  shows "\<not> visible (fresh_snapshot r) h"
proof (rule reclaimable_not_visible[OF _ assms(2,3)])
  have inv: "registry_inv r" using assms(1) by (rule registry_reachable_inv)
  then show "ascending (in_progress (fresh_snapshot r))" by (simp add: registry_inv_def)
  show "vacuum_oldest_active r \<le> version (fresh_snapshot r)" by (simp add: vacuum_floor_le)
  show "xmax h \<notin> set (in_progress (fresh_snapshot r))"
    using inv vacuum_floor_le(3)[of r "xmax h"] assms(3)
    by (auto simp: registry_inv_def is_reclaimable_def)
qed

text \<open>A row the vacuum predicate reclaims under the engine's floor is invisible to every
  fresh snapshot of the same registry state, writers in flight included, and to every held
  snapshot that does not list the deleting version as in flight.\<close>

theorem vacuum_floor_safe:
  assumes "registry_reachable r" and "is_reclaimable (xmax h) (vacuum_oldest_active r)"
    and "own_writes_ok s h"
    and "s = fresh_snapshot r \<or> held r s \<and> xmax h \<notin> set (in_progress s)"
  shows "\<not> visible s h"
  using assms reclaimable_invisible_fresh reclaimable_invisible_held by blast

text \<open>Transaction 1 starts under READ COMMITTED, transaction 2 under REPEATABLE READ, then
  transaction 1 commits.\<close>

definition overlap_run :: writer_registry where
  "overlap_run =
     (let r0 = registry_init\<lparr>current_tx := Some 1, stmt_writer_version := None\<rparr>;
          r1 = (case exec_begin ReadCommitted None r0 of Inr r \<Rightarrow> r | Inl _ \<Rightarrow> r0);
          r2 = r1\<lparr>current_tx := Some 2, stmt_writer_version := None\<rparr>;
          r3 = (case exec_begin RepeatableRead None r2 of Inr r \<Rightarrow> r | Inl _ \<Rightarrow> r2);
          r4 = r3\<lparr>current_tx := Some 1, stmt_writer_version := None\<rparr>
      in (case exec_commit r4 of Inr r \<Rightarrow> r | Inl _ \<Rightarrow> r4))"

lemmas registry_eval =
  exec_begin_def exec_commit_def exec_rollback_def end_tx_def registry_init_def registry_ops
  bm_get_def bm_remove_def bs_remove_def current_snapshot_def current_snapshot_inner_def
  cached_snapshot_def fresh_snapshot_def reader_tx_id_def snapshot_new_def GLOBAL_VERSION_INIT_def
  row_header_consts ips_from_sorted_def current_version_def Let_def

definition overlap_snapshot :: snapshot where
  "overlap_snapshot = \<lparr>version = 4, in_progress = [2, 3], oldest_active = 2, tx_id = 3, locked_out = None\<rparr>"

lemma overlap_run_eq:
  "overlap_run = \<lparr>global_version = 4, active_writer_versions = [3], aborted_versions = [],
     current_tx = Some 1, tx_writer_versions = [(2, 3)], tx_catalogs = [(2, Some overlap_snapshot)],
     stmt_writer_version = None\<rparr>"
  by (simp add: overlap_run_def registry_eval overlap_snapshot_def)

lemma overlap_run_reachable: "registry_reachable overlap_run"
proof -
  let ?r0 = "registry_init\<lparr>current_tx := Some 1, stmt_writer_version := None\<rparr>"
  have r0: "registry_reachable ?r0"
    by (rule registry_reachable.step[OF registry_reachable.init registry_step.select])
  obtain r1 where r1: "exec_begin ReadCommitted None ?r0 = Inr r1"
    by (simp add: registry_eval)
  have "registry_step ?r0 r1"
    by (rule registry_step.begin_tx[OF r1]) (simp add: registry_init_def GLOBAL_VERSION_INIT_def XMIN_FROZEN_def)
  then have rr1: "registry_reachable r1" by (rule registry_reachable.step[OF r0])
  let ?r2 = "r1\<lparr>current_tx := Some 2, stmt_writer_version := None\<rparr>"
  have r2: "registry_reachable ?r2" by (rule registry_reachable.step[OF rr1 registry_step.select])
  obtain r3 where r3: "exec_begin RepeatableRead None ?r2 = Inr r3"
    using r1 by (auto simp: registry_eval)
  have "registry_step ?r2 r3"
    by (rule registry_step.begin_tx[OF r3]) (use r1 in \<open>auto simp: registry_eval\<close>)
  then have rr3: "registry_reachable r3" by (rule registry_reachable.step[OF r2])
  let ?r4 = "r3\<lparr>current_tx := Some 1, stmt_writer_version := None\<rparr>"
  have r4: "registry_reachable ?r4" by (rule registry_reachable.step[OF rr3 registry_step.select])
  obtain r5 where r5: "exec_commit ?r4 = Inr r5" using r1 r3 by (auto simp: registry_eval)
  have "registry_reachable r5"
    by (rule registry_reachable.step[OF r4 registry_step.commit_tx[OF r5]])
  moreover have "overlap_run = r5" using r1 r3 r5 by (simp add: overlap_run_def Let_def)
  ultimately show ?thesis by simp
qed

text \<open>The floor is not safe for every held snapshot: in a reachable state (a REPEATABLE READ
  transaction opened while another writer was in flight, which then committed) the
  predicate reclaims a row that the held snapshot still sees. The floor takes the held
  snapshot's version and ignores the in-flight set it froze.\<close>

theorem vacuum_floor_reclaims_visible_row:
  "\<exists>r s h. registry_reachable r \<and> held r s \<and> own_writes_ok s h
     \<and> is_reclaimable (xmax h) (vacuum_oldest_active r) \<and> visible s h"
proof (intro exI conjI)
  let ?h = "\<lparr>xmin = 1, xmax = 2, flags = HEAP_XMIN_FROZEN\<rparr>"
  show "registry_reachable overlap_run" by (rule overlap_run_reachable)
  show "held overlap_run overlap_snapshot" by (simp add: held_def overlap_run_eq)
  show "own_writes_ok overlap_snapshot ?h" by (simp add: own_writes_ok_def overlap_snapshot_def)
  show "is_reclaimable (xmax ?h) (vacuum_oldest_active overlap_run)"
    by (simp add: is_reclaimable_def vacuum_oldest_active_def overlap_run_eq overlap_snapshot_def
        current_version_def XMAX_ALIVE_def)
  have "ascending [2, 3 :: u64]" by simp
  then show "visible overlap_snapshot ?h"
    by (simp add: visible_def overlap_snapshot_def XMAX_ALIVE_def)
qed

text \<open>A snapshot is taken at the version the next writer will be given, so the first writer
  that begins after the capture is visible to it, even while that writer is still in
  flight: the bound is one too high.\<close>

theorem fresh_snapshot_sees_next_writer:
  assumes "registry_reachable r" and "begin_writer_version r = (v, r')"
  shows "v \<in> set (active_writer_versions r') \<and> visible (fresh_snapshot r) (header_alive v)"
proof -
  have inv: "registry_inv r" using assms(1) by (rule registry_reachable_inv)
  then have "v \<notin> set (active_writer_versions r)" "v = global_version r"
    using assms(2) by (auto simp: begin_writer_version_def next_version_def registry_inv_def)
  then show ?thesis using inv assms(2)
    by (auto simp: visible_def header_alive_def registry_inv_def begin_writer_version_def
        next_version_def XMAX_ALIVE_def)
qed

text \<open>Rows inserted by another transaction are invisible to a fresh snapshot while that
  transaction is in flight, visible to a fresh snapshot after it commits, and invisible
  under the abort-aware rule after it aborts.\<close>

theorem transaction_outcome_visibility:
  assumes "registry_reachable r" and "v \<in> set (active_writer_versions r)" and "v \<noteq> reader_tx_id r"
    and "v \<notin> set (aborted_versions r)"
  shows "\<not> visible (fresh_snapshot r) (header_alive v)
    \<and> visible (fresh_snapshot (commit_writer_version v r)) (header_alive v)
    \<and> \<not> visible_with_status (fresh_snapshot (abort_writer_version v r)) (header_alive v)
           (xact_status (abort_writer_version v r))"
proof (intro conjI)
  have inv: "registry_inv r" using assms(1) by (rule registry_reachable_inv)
  have v: "v \<le> global_version r" "ascending (active_writer_versions r)"
    using inv assms(2) by (auto simp: registry_inv_def)
  have tx: "reader_tx_id (commit_writer_version v r) = reader_tx_id r"
    "reader_tx_id (abort_writer_version v r) = reader_tx_id r"
    by (simp_all add: reader_tx_id_def commit_writer_version_def abort_writer_version_def split: option.splits)
  show "\<not> visible (fresh_snapshot r) (header_alive v)"
    using assms(2,3) v by (auto simp: visible_def header_alive_def)
  show "visible (fresh_snapshot (commit_writer_version v r)) (header_alive v)"
    using v tx by (auto simp: visible_def header_alive_def not_less commit_writer_version_def XMAX_ALIVE_def)
  show "\<not> visible_with_status (fresh_snapshot (abort_writer_version v r)) (header_alive v)
           (xact_status (abort_writer_version v r))"
    using v tx assms(3)
    by (auto simp: visible_with_status_def header_alive_def abort_writer_version_def
        xact_status_def bs_contains_def)
qed


theorem vacuum_floor_safe_witness:
  "\<not> visible (fresh_snapshot overlap_run) \<lparr>xmin = 1, xmax = 2, flags = 1\<rparr>
   \<and> \<not> visible overlap_snapshot \<lparr>xmin = 1, xmax = 1, flags = 1\<rparr>"
proof
  have reach: "registry_reachable overlap_run" by (rule overlap_run_reachable)
  have reclaim: "is_reclaimable x (vacuum_oldest_active overlap_run)" if "x = 1 \<or> x = 2" for x
    using that by (auto simp: is_reclaimable_def vacuum_oldest_active_def overlap_run_eq
        overlap_snapshot_def current_version_def XMAX_ALIVE_def)
  show "\<not> visible (fresh_snapshot overlap_run) \<lparr>xmin = 1, xmax = 2, flags = 1\<rparr>"
    by (rule vacuum_floor_safe[OF reach], simp add: reclaim)
      (simp_all add: own_writes_ok_def overlap_run_eq reader_tx_id_def bm_get_def)
  show "\<not> visible overlap_snapshot \<lparr>xmin = 1, xmax = 1, flags = 1\<rparr>"
    by (rule vacuum_floor_safe[OF reach], simp add: reclaim)
      (simp_all add: own_writes_ok_def held_def overlap_run_eq overlap_snapshot_def)
qed

theorem fresh_snapshot_sees_next_writer_witness:
  "\<exists>v r'. begin_writer_version registry_init = (v, r') \<and> v \<in> set (active_writer_versions r')
     \<and> visible (fresh_snapshot registry_init) (header_alive v)"
proof -
  obtain v r' where b: "begin_writer_version registry_init = (v, r')" by fastforce
  with fresh_snapshot_sees_next_writer[OF registry_reachable.init b] show ?thesis by blast
qed

theorem transaction_outcome_visibility_witness:
  "\<not> visible (fresh_snapshot overlap_run) (header_alive 3)
   \<and> visible (fresh_snapshot (commit_writer_version 3 overlap_run)) (header_alive 3)
   \<and> \<not> visible_with_status (fresh_snapshot (abort_writer_version 3 overlap_run)) (header_alive 3)
          (xact_status (abort_writer_version 3 overlap_run))"
proof (rule transaction_outcome_visibility)
  show "registry_reachable overlap_run" by (rule overlap_run_reachable)
qed (simp_all add: overlap_run_eq reader_tx_id_def bm_get_def)

end
