(* ===== verification/Sequence_Spec.thy ===== *)
theory Sequence_Spec
  imports Prelude
begin

text \<open>
  The contracts of the storage layer's sequences, as interfaces: a sequence that grows at
  its open end (posting lists, vectors) and one whose elements are also read and replaced
  by position. The providers interpret them; tables and indexes are proved over them.
\<close>

locale appendable =
  fixes empty :: "'s" and push :: "'s \<Rightarrow> 'a \<Rightarrow> 's" and to_list :: "'s \<Rightarrow> 'a list" and inv :: "'s \<Rightarrow> bool"
  assumes inv_empty: "inv empty"
    and list_empty: "to_list empty = []"
    and inv_push: "inv s \<Longrightarrow> inv (push s x)"
    and list_push: "inv s \<Longrightarrow> to_list (push s x) = to_list s @ [x]"
begin

text \<open>Pushing a whole list, as every rebuild loop of the sources does.\<close>

lemma push_all: "inv s \<Longrightarrow> inv (foldl push s xs) \<and> to_list (foldl push s xs) = to_list s @ xs"
  by (induction xs arbitrary: s) (simp_all add: inv_push list_push)

lemma rebuild: "inv (foldl push empty xs) \<and> to_list (foldl push empty xs) = xs"
  using push_all[OF inv_empty, of xs] by (simp add: list_empty)

end

locale indexed = appendable empty push to_list inv
  for empty :: "'s" and push :: "'s \<Rightarrow> 'a \<Rightarrow> 's" and to_list :: "'s \<Rightarrow> 'a list" and inv :: "'s \<Rightarrow> bool" +
  fixes size_of :: "'s \<Rightarrow> nat" and get :: "'s \<Rightarrow> nat \<Rightarrow> 'a option"
    and modify :: "'s \<Rightarrow> nat \<Rightarrow> ('a \<Rightarrow> 'a) \<Rightarrow> 's option"
  assumes size_list: "inv s \<Longrightarrow> size_of s = length (to_list s)"
    and get_list: "inv s \<Longrightarrow> get s i = (if i < length (to_list s) then Some (to_list s ! i) else None)"
    and modify_None: "inv s \<Longrightarrow> modify s i f = None \<longleftrightarrow> length (to_list s) \<le> i"
    and modify_Some: "inv s \<Longrightarrow> modify s i f = Some s' \<Longrightarrow>
      inv s' \<and> to_list s' = (to_list s)[i := f (to_list s ! i)]"
begin

text \<open>Read-over-write: what a position holds after an element was replaced or pushed.\<close>

lemma get_modify:
  assumes "inv s" and "modify s i f = Some s'"
  shows "get s' j = (if j = i then map_option f (get s i) else get s j)"
proof -
  have "i < length (to_list s)" using assms modify_None[of s i f] by (simp add: not_le[symmetric])
  with modify_Some[OF assms] assms(1) show ?thesis by (simp add: get_list nth_list_update)
qed

lemma get_push:
  "inv s \<Longrightarrow> get (push s x) j = (if j = size_of s then Some x else get s j)"
  by (simp add: get_list inv_push list_push size_list nth_append)

lemma modify_total: "inv s \<Longrightarrow> i < size_of s \<Longrightarrow> \<exists>s'. modify s i f = Some s'"
  using modify_None[of s i f] size_list[of s] by fastforce

end

end
