(* ===== verification/Persistent_Vec.thy ===== *)
theory Persistent_Vec
  imports Sequence_Spec
begin

text \<open>
  \<^verbatim>\<open>crates/spg-storage/src/persistent.rs\<close>: the 32-way bitmapped vector trie with a tail
  buffer that holds table rows, headers and row ids. \<open>Arc\<close> sharing is not observable
  through the interface, so a handle is the tree it denotes; an operation that path-copies
  returns the new tree. Indices and lengths are naturals; the capacity \<open>1 << (shift + SHIFT)\<close>
  stays below the word size for every vector that fits in memory.
\<close>

definition SHIFT :: nat where "SHIFT = 5"
definition BRANCH :: nat where "BRANCH = push_bit SHIFT 1"
definition MASK :: nat where "MASK = BRANCH - 1"

lemma pv_consts [simp]: "SHIFT = 5" "BRANCH = 32" "MASK = 31"
  by (simp_all add: SHIFT_def BRANCH_def MASK_def)

datatype 'a node = Internal "'a node list" | Leaf "'a list"

record 'a pvec =
  pv_root :: "'a node"
  pv_tail :: "'a list"
  pv_len :: nat
  pv_shift :: nat

definition pv_new :: "'a pvec" where
  "pv_new = \<lparr>pv_root = Internal [], pv_tail = [], pv_len = 0, pv_shift = SHIFT\<rparr>"

definition pv_is_empty :: "'a pvec \<Rightarrow> bool" where "pv_is_empty v = (pv_len v = 0)"

definition sub_idx :: "nat \<Rightarrow> nat \<Rightarrow> nat" where
  "sub_idx sh i = drop_bit sh i AND MASK"

section \<open>Reading\<close>

fun descend :: "'a node \<Rightarrow> nat \<Rightarrow> nat \<Rightarrow> ('a list \<times> nat) option" where
  "descend (Leaf elems) sh i = Some (elems, i AND MASK)"
| "descend (Internal children) sh i =
     (if sub_idx sh i < length children
      then descend (children ! sub_idx sh i) (sh - SHIFT) i
      else None)"

definition run_at :: "'a pvec \<Rightarrow> nat \<Rightarrow> ('a list \<times> nat) option" where
  "run_at v i =
     (if i \<ge> pv_len v then None
      else
        (let trie_size = pv_len v - length (pv_tail v) in
         if i \<ge> trie_size then Some (pv_tail v, i - trie_size)
         else descend (pv_root v) (pv_shift v) i))"

definition pv_get :: "'a pvec \<Rightarrow> nat \<Rightarrow> 'a option" where
  "pv_get v i = (case run_at v i of None \<Rightarrow> None | Some (run, off) \<Rightarrow> slice_get run off)"

definition run_containing :: "'a pvec \<Rightarrow> nat \<Rightarrow> (nat \<times> 'a list) option" where
  "run_containing v i = (case run_at v i of None \<Rightarrow> None | Some (run, off) \<Rightarrow> Some (i - off, run))"

text \<open>\<open>RunCursor\<close>: the state is the run it last descended to.\<close>

type_synonym 'a run_cursor = "(nat \<times> 'a list) option"

definition run_cursor :: "'a pvec \<Rightarrow> 'a run_cursor" where "run_cursor v = None"

definition cursor_get :: "'a pvec \<Rightarrow> 'a run_cursor \<Rightarrow> nat \<Rightarrow> 'a option \<times> 'a run_cursor" where
  "cursor_get v c i =
     (case c of
        Some (start, run) \<Rightarrow>
          if i \<ge> start \<and> i - start < length run then (slice_get run (i - start), c)
          else (case run_containing v i of
                  None \<Rightarrow> (None, c)
                | Some (start', run') \<Rightarrow> (slice_get run' (i - start'), Some (start', run')))
      | None \<Rightarrow>
          (case run_containing v i of
             None \<Rightarrow> (None, c)
           | Some (start', run') \<Rightarrow> (slice_get run' (i - start'), Some (start', run'))))"

text \<open>The sequential iterator keeps the run it is in and descends when the run is used up.\<close>

record 'a pv_iter =
  it_pos :: nat
  it_run :: "'a list"
  it_off :: nat

definition iter :: "'a pvec \<Rightarrow> 'a pv_iter" where
  "iter v = \<lparr>it_pos = 0, it_run = [], it_off = 0\<rparr>"

definition iter_next :: "'a pvec \<Rightarrow> 'a pv_iter \<Rightarrow> 'a option \<times> 'a pv_iter" where
  "iter_next v it =
     (case (if it_off it = length (it_run it) then
              (case run_at v (it_pos it) of
                 None \<Rightarrow> None
               | Some (run, off) \<Rightarrow> Some (it\<lparr>it_run := run, it_off := off\<rparr>))
            else Some it) of
        None \<Rightarrow> (None, it)
      | Some it1 \<Rightarrow>
          (case slice_get (it_run it1) (it_off it1) of
             None \<Rightarrow> (None, it1)
           | Some x \<Rightarrow> (Some x, it1\<lparr>it_off := Suc (it_off it1), it_pos := Suc (it_pos it1)\<rparr>)))"

definition iter_size_hint :: "'a pvec \<Rightarrow> 'a pv_iter \<Rightarrow> nat" where
  "iter_size_hint v it = pv_len v - it_pos it"

text \<open>The first \<open>n\<close> items the iterator yields.\<close>

fun iter_take :: "nat \<Rightarrow> 'a pvec \<Rightarrow> 'a pv_iter \<Rightarrow> 'a list" where
  "iter_take 0 v it = []"
| "iter_take (Suc n) v it =
     (case iter_next v it of (None, _) \<Rightarrow> [] | (Some x, it') \<Rightarrow> x # iter_take n v it')"

definition pv_eq :: "'a pvec \<Rightarrow> 'a pvec \<Rightarrow> bool" where
  "pv_eq a b = (pv_len a = pv_len b \<and> iter_take (pv_len a) a (iter a) = iter_take (pv_len b) b (iter b))"

section \<open>Writing\<close>

fun new_path :: "nat \<Rightarrow> 'a node \<Rightarrow> 'a node" where
  "new_path 0 n = n"
| "new_path (Suc k) n = new_path k (Internal [n])"

fun push_leaf_into_node :: "'a node \<Rightarrow> nat \<Rightarrow> nat \<Rightarrow> 'a node \<Rightarrow> 'a node" where
  "push_leaf_into_node (Leaf elems) sh trie_index leaf = Leaf elems"
| "push_leaf_into_node (Internal children) sh trie_index leaf =
     (let j = sub_idx sh trie_index in
      if sh = SHIFT then Internal (children @ [leaf])
      else if j < length children then
        Internal (children[j := push_leaf_into_node (children ! j) (sh - SHIFT) trie_index leaf])
      else Internal (children @ [new_path (sh div SHIFT - 1) leaf]))"

definition pv_push :: "'a pvec \<Rightarrow> 'a \<Rightarrow> 'a pvec" where
  "pv_push v x =
     (if length (pv_tail v) < BRANCH then
        v\<lparr>pv_tail := pv_tail v @ [x], pv_len := pv_len v + 1\<rparr>
      else
        (let leaf = Leaf (pv_tail v);
             old_trie_size = pv_len v - BRANCH;
             trie_capacity = push_bit (pv_shift v + SHIFT) 1;
             needs_grow = (old_trie_size + BRANCH > trie_capacity);
             (new_root, new_shift) =
               (if needs_grow then
                  (Internal [pv_root v, new_path (pv_shift v div SHIFT) leaf], pv_shift v + SHIFT)
                else (push_leaf_into_node (pv_root v) (pv_shift v) old_trie_size leaf, pv_shift v))
         in \<lparr>pv_root = new_root, pv_tail = [x], pv_len = pv_len v + 1, pv_shift = new_shift\<rparr>))"

definition pv_push_mut :: "'a \<Rightarrow> 'a pvec \<Rightarrow> 'a pvec" where
  "pv_push_mut x v =
     (if length (pv_tail v) < BRANCH then
        (let v1 = v\<lparr>pv_tail := pv_tail v @ [x]\<rparr> in v1\<lparr>pv_len := pv_len v1 + 1\<rparr>)
      else
        (let old_tail_vec = pv_tail v;
             v1 = v\<lparr>pv_tail := [x]\<rparr>;
             leaf = Leaf old_tail_vec;
             old_trie_size = pv_len v1 - BRANCH;
             trie_capacity = push_bit (pv_shift v1 + SHIFT) 1;
             needs_grow = (old_trie_size + BRANCH > trie_capacity);
             v2 = (if needs_grow then
                     v1\<lparr>pv_root := Internal [pv_root v1, new_path (pv_shift v1 div SHIFT) leaf],
                        pv_shift := pv_shift v1 + SHIFT\<rparr>
                   else
                     v1\<lparr>pv_root := push_leaf_into_node (pv_root v1) (pv_shift v1) old_trie_size leaf\<rparr>)
         in v2\<lparr>pv_len := pv_len v2 + 1\<rparr>))"

text \<open>\<open>set_in_trie\<close> indexes without a check: \<open>None\<close> is the panic.\<close>

fun set_in_trie :: "'a node \<Rightarrow> nat \<Rightarrow> nat \<Rightarrow> 'a \<Rightarrow> 'a node option" where
  "set_in_trie (Leaf elems) sh i x =
     (if (i AND MASK) < length elems then Some (Leaf (elems[i AND MASK := x])) else None)"
| "set_in_trie (Internal children) sh i x =
     (if sub_idx sh i < length children then
        (case set_in_trie (children ! sub_idx sh i) (sh - SHIFT) i x of
           None \<Rightarrow> None
         | Some c \<Rightarrow> Some (Internal (children[sub_idx sh i := c])))
      else None)"

text \<open>The outer option is the panic, the inner one the result of \<open>set\<close>.\<close>

definition pv_set :: "'a pvec \<Rightarrow> nat \<Rightarrow> 'a \<Rightarrow> 'a pvec option option" where
  "pv_set v i x =
     (if i \<ge> pv_len v then Some None
      else
        (let trie_size = pv_len v - length (pv_tail v) in
         if i \<ge> trie_size then Some (Some (v\<lparr>pv_tail := (pv_tail v)[i - trie_size := x]\<rparr>))
         else (case set_in_trie (pv_root v) (pv_shift v) i x of
                 None \<Rightarrow> None
               | Some r \<Rightarrow> Some (Some (v\<lparr>pv_root := r\<rparr>)))))"

text \<open>\<open>get_mut\<close> hands out a mutable borrow; with it the caller replaces the element by
  \<open>f\<close> of it.\<close>

fun get_mut_in_trie :: "'a node \<Rightarrow> nat \<Rightarrow> nat \<Rightarrow> ('a \<Rightarrow> 'a) \<Rightarrow> 'a node option" where
  "get_mut_in_trie (Leaf elems) sh i f =
     (if (i AND MASK) < length elems
      then Some (Leaf (elems[i AND MASK := f (elems ! (i AND MASK))])) else None)"
| "get_mut_in_trie (Internal children) sh i f =
     (if sub_idx sh i < length children then
        (case get_mut_in_trie (children ! sub_idx sh i) (sh - SHIFT) i f of
           None \<Rightarrow> None
         | Some c \<Rightarrow> Some (Internal (children[sub_idx sh i := c])))
      else None)"

definition pv_get_mut :: "'a pvec \<Rightarrow> nat \<Rightarrow> ('a \<Rightarrow> 'a) \<Rightarrow> 'a pvec option" where
  "pv_get_mut v i f =
     (if i \<ge> pv_len v then None
      else
        (let trie_size = pv_len v - length (pv_tail v) in
         if i \<ge> trie_size then
           (case slice_get (pv_tail v) (i - trie_size) of
              None \<Rightarrow> None
            | Some x \<Rightarrow> Some (v\<lparr>pv_tail := (pv_tail v)[i - trie_size := f x]\<rparr>))
         else map_option (\<lambda>r. v\<lparr>pv_root := r\<rparr>) (get_mut_in_trie (pv_root v) (pv_shift v) i f)))"

section \<open>The trie invariant\<close>

fun elems :: "'a node \<Rightarrow> 'a list" where
  "elems (Leaf es) = es"
| "elems (Internal cs) = concat (map elems cs)"

fun full :: "nat \<Rightarrow> 'a node \<Rightarrow> bool" where
  "full 0 (Leaf es) = (length es = BRANCH)"
| "full (Suc d) (Internal cs) = (length cs = BRANCH \<and> (\<forall>c \<in> set cs. full d c))"
| "full _ _ = False"

fun packed :: "nat \<Rightarrow> 'a node \<Rightarrow> bool" where
  "packed 0 (Leaf es) = (length es = BRANCH)"
| "packed (Suc d) (Internal cs) =
     (length cs \<le> BRANCH \<and> (\<forall>c \<in> set (butlast cs). full d c)
      \<and> (cs \<noteq> [] \<longrightarrow> packed d (last cs) \<and> elems (last cs) \<noteq> []))"
| "packed _ _ = False"

lemma full_length: "full d n \<Longrightarrow> length (elems n) = 32 ^ Suc d"
proof (induction d n rule: full.induct)
  case (2 d cs)
  have "map (\<lambda>c. length (elems c)) cs = replicate 32 (32 ^ Suc d)"
    using 2 by (intro replicate_eqI) auto
  then show ?case by (simp add: length_concat comp_def sum_list_replicate)
qed auto

lemma full_packed: "full d n \<Longrightarrow> packed d n"
proof (induction d n rule: full.induct)
  case (2 d cs)
  then have "cs \<noteq> []" by auto
  then have l: "last cs \<in> set cs" by simp
  then have "packed d (last cs)" "elems (last cs) \<noteq> []"
    using 2 full_length[of d "last cs"] by auto
  then show ?case using 2 by (auto dest: in_set_butlastD)
qed auto

lemma concat_full_length: "\<forall>c \<in> set cs. full d c \<Longrightarrow> length (concat (map elems cs)) = length cs * 32 ^ Suc d"
  by (induction cs) (auto simp: full_length)

text \<open>An inner node of the trie is a row of full children and one last packed child.\<close>

lemma packed_snoc:
  "packed (Suc d) (Internal (cs @ [c])) \<longleftrightarrow>
     length cs < 32 \<and> (\<forall>a \<in> set cs. full d a) \<and> packed d c \<and> elems c \<noteq> []"
  by auto

lemma length_elems_snoc:
  "\<forall>a \<in> set cs. full d a \<Longrightarrow>
   length (elems (Internal (cs @ [c]))) = length cs * 32 ^ Suc d + length (elems c)"
  by (simp add: concat_full_length)

lemma packed_length_le: "packed d n \<Longrightarrow> length (elems n) \<le> 32 ^ Suc d"
proof (induction d n rule: packed.induct)
  case (2 d cs)
  show ?case
  proof (cases cs rule: rev_cases)
    case (snoc ds c)
    have "length ds * 32 ^ Suc d \<le> 31 * 32 ^ Suc d" using 2(2) snoc by (intro mult_right_mono) auto
    moreover have "length (elems c) \<le> 32 ^ Suc d" using 2 snoc by auto
    moreover have "length (elems (Internal cs)) = length ds * 32 ^ Suc d + length (elems c)"
      using 2(2) length_elems_snoc[of ds d c] snoc by (simp add: packed_snoc)
    ultimately show ?thesis unfolding power_Suc[of 32 "Suc d"] by linarith
  qed simp
qed auto

lemma packed_full: "packed d n \<Longrightarrow> length (elems n) = 32 ^ Suc d \<Longrightarrow> full d n"
proof (induction d n rule: packed.induct)
  case (2 d cs)
  show ?case
  proof (cases cs rule: rev_cases)
    case Nil
    then show ?thesis using 2(3) by simp
  next
    case (snoc ds c)
    have fl: "\<forall>a \<in> set ds. full d a" and pc: "packed d c" and ld: "length ds \<le> 31"
      using 2(2) snoc by auto
    have le: "length (elems c) \<le> 32 ^ Suc d" using pc by (rule packed_length_le)
    have eq: "length ds * 32 ^ Suc d + length (elems c) = 32 * 32 ^ Suc d"
      using 2(3) length_elems_snoc[OF fl, of c] snoc by simp
    have "length ds = 31"
    proof (rule ccontr)
      assume "length ds \<noteq> 31"
      then have "length ds * 32 ^ Suc d \<le> 30 * 32 ^ Suc d" using ld by (intro mult_right_mono) auto
      moreover have "0 < (32::nat) ^ Suc d" by simp
      ultimately show False using eq le by linarith
    qed
    then show ?thesis using 2(1) pc eq fl snoc by simp
  qed
qed auto

lemma sub_idx_div: "sub_idx (5 * d) i = i div 32 ^ d mod 32"
proof -
  have "sub_idx (5 * d) i = take_bit 5 (drop_bit (5 * d) i)"
    unfolding sub_idx_def by (simp add: take_bit_eq_mask mask_eq_exp_minus_1)
  also have "\<dots> = i div 2 ^ (5 * d) mod 32" by (simp add: take_bit_eq_mod drop_bit_eq_div)
  finally show ?thesis by (simp add: power_mult)
qed

lemma mask_mod: "(i::nat) AND 31 = i mod 32"
proof -
  have "i AND 31 = take_bit 5 i" by (simp add: take_bit_eq_mask mask_eq_exp_minus_1)
  then show ?thesis by (simp add: take_bit_eq_mod)
qed

lemma mod_split: "(i::nat) mod 32 ^ Suc (Suc d) = (i div 32 ^ Suc d mod 32) * 32 ^ Suc d + i mod 32 ^ Suc d"
  using mod_mult2_eq[of i "32 ^ Suc d" 32] by (simp add: mult.commute)

text \<open>Position \<open>i\<close> of a packed inner node lies in child \<open>sub_idx\<close>, and the children
  before that one are full.\<close>

lemma packed_child:
  assumes p: "packed (Suc d) (Internal cs)" and i: "i mod 32 ^ Suc (Suc d) < length (elems (Internal cs))"
  defines "j \<equiv> i div 32 ^ Suc d mod 32"
  shows "j < length cs \<and> packed d (cs ! j) \<and> i mod 32 ^ Suc d < length (elems (cs ! j))
    \<and> length (concat (map elems (take j cs))) = j * 32 ^ Suc d"
proof (cases cs rule: rev_cases)
  case Nil
  then show ?thesis using i by simp
next
  case (snoc ds c)
  let ?B = "32 ^ Suc d :: nat"
  have fl: "\<forall>a \<in> set ds. full d a" and pc: "packed d c" using p snoc by auto
  have ij: "j * ?B + i mod ?B < length ds * ?B + length (elems c)"
    using i length_elems_snoc[OF fl, of c] snoc mod_split[of i d] by (simp add: j_def)
  have "j < Suc (length ds)"
  proof (rule ccontr)
    assume "\<not> j < Suc (length ds)"
    then have "Suc (length ds) * ?B \<le> j * ?B" by (intro mult_right_mono) auto
    with ij packed_length_le[OF pc] show False by simp
  qed
  then consider "j = length ds" | "j < length ds" by linarith
  then show ?thesis
  proof cases
    case 1
    then show ?thesis using ij pc snoc concat_full_length[OF fl] by simp
  next
    case 2
    then have fj: "full d (ds ! j)" using fl by simp
    have "length (concat (map elems (take j ds))) = j * ?B"
      using concat_full_length[of "take j ds" d] fl 2 by (auto dest: in_set_takeD)
    then show ?thesis using fj full_packed full_length[OF fj] 2 snoc
      by (simp add: nth_append)
  qed
qed


lemma packed_dvd: "packed d n \<Longrightarrow> 32 dvd length (elems n)"
proof (induction d n rule: packed.induct)
  case (2 d cs)
  show ?case
  proof (cases cs rule: rev_cases)
    case (snoc ds c)
    with 2 have "\<forall>a \<in> set ds. full d a" "32 dvd length (elems c)" by auto
    then show ?thesis using snoc length_elems_snoc[of ds d c] by simp
  qed simp
qed auto

lemma elems_split:
  "j < length cs \<Longrightarrow>
   elems (Internal cs) = concat (map elems (take j cs)) @ elems (cs ! j) @ concat (map elems (drop (Suc j) cs))"
  by (metis (no_types, lifting) append_Cons append_Nil concat.simps(2) concat_append elems.simps(2)
      id_take_nth_drop list.simps(9) map_append)

lemma packed_update:
  assumes "packed (Suc d) (Internal cs)" and "j < length cs" and "packed d c"
    and "length (elems c) = length (elems (cs ! j))"
  shows "packed (Suc d) (Internal (cs[j := c]))"
proof (cases cs rule: rev_cases)
  case Nil
  then show ?thesis using assms(2) by simp
next
  case (snoc ds b)
  show ?thesis
  proof (cases "j = length ds")
    case True
    then show ?thesis using assms snoc by auto
  next
    case False
    then have j: "j < length ds" using assms(2) snoc by simp
    then have "full d (ds ! j)" using assms(1) snoc by auto
    then have "full d c" using assms(3,4) snoc j full_length[of d "ds ! j"] packed_full[of d c]
      by (simp add: nth_append)
    then have "\<forall>a \<in> set (ds[j := c]). full d a"
      using assms(1) snoc set_update_subset_insert[of ds j c] by auto
    then show ?thesis using assms(1) snoc j by (simp add: list_update_append packed_snoc)
  qed
qed

lemma elems_update:
  assumes "j < length cs" and "length (concat (map elems (take j cs))) = p"
    and "elems c = (elems (cs ! j))[k := x]" and "k < length (elems (cs ! j))"
  shows "elems (Internal (cs[j := c])) = (elems (Internal cs))[p + k := x]"
  using assms elems_split[of j cs] elems_split[of j "cs[j := c]"]
  by (simp add: list_update_append)

lemma packed_0E: "packed 0 n \<Longrightarrow> (\<And>es. n = Leaf es \<Longrightarrow> length es = 32 \<Longrightarrow> P) \<Longrightarrow> P"
  by (cases n) auto

lemma packed_SucE: "packed (Suc d) n \<Longrightarrow> (\<And>cs. n = Internal cs \<Longrightarrow> P) \<Longrightarrow> P"
  by (cases n) auto

lemma sub_idx_Suc: "sub_idx (5 + 5 * d) i = i div 32 ^ Suc d mod 32"
  using sub_idx_div[of "Suc d" i] by simp

lemma descend_correct:
  assumes "packed d n" and "i mod 32 ^ Suc d < length (elems n)"
  shows "\<exists>es. descend n (5 * d) i = Some (es, i mod 32) \<and> length es = 32
    \<and> es = take 32 (drop (i mod 32 ^ Suc d - i mod 32) (elems n))"
  using assms
proof (induction d arbitrary: n)
  case 0
  then show ?case by (auto simp: mask_mod elim!: packed_0E)
next
  case (Suc d)
  then obtain cs where n: "n = Internal cs" by (auto elim: packed_SucE)
  define j where "j = i div 32 ^ Suc d mod 32"
  let ?B = "32 ^ Suc d :: nat"
  note C = packed_child[OF Suc.prems[unfolded n], folded j_def]
  from Suc.IH[of "cs ! j"] C obtain es where es: "descend (cs ! j) (5 * d) i = Some (es, i mod 32)"
    "length es = 32" "es = take 32 (drop (i mod ?B - i mod 32) (elems (cs ! j)))" by blast
  have "i mod 32 \<le> i mod ?B"
    by (metis dvd_triv_left mod_less_eq_dividend mod_mod_cancel power_Suc)
  then have k: "i mod 32 ^ Suc (Suc d) - i mod 32 = j * ?B + (i mod ?B - i mod 32)"
    using mod_split[of i d] by (simp add: j_def)
  have le: "32 \<le> length (elems (cs ! j)) - (i mod ?B - i mod 32)" using es(2,3) by simp
  have tk: "take 32 (drop (j * ?B + (i mod ?B - i mod 32)) (elems n)) = es"
    unfolding n using elems_split[of j cs] C es(3) le by simp
  have "sub_idx (5 * Suc d) i = j" by (simp only: mult_Suc_right sub_idx_Suc j_def)
  then have "descend n (5 * Suc d) i = Some (es, i mod 32)" using es(1) C by (simp add: n)
  then show ?case using es(2) tk[symmetric] k by metis
qed

lemma get_mut_correct:
  assumes "packed d n" and "i mod 32 ^ Suc d < length (elems n)"
  shows "\<exists>n'. get_mut_in_trie n (5 * d) i f = Some n' \<and> packed d n'
    \<and> elems n' = (elems n)[i mod 32 ^ Suc d := f (elems n ! (i mod 32 ^ Suc d))]"
  using assms
proof (induction d arbitrary: n)
  case 0
  then show ?case by (auto simp: mask_mod elim!: packed_0E)
next
  case (Suc d)
  then obtain cs where n: "n = Internal cs" by (auto elim: packed_SucE)
  define j where "j = i div 32 ^ Suc d mod 32"
  let ?B = "32 ^ Suc d :: nat"
  note C = packed_child[OF Suc.prems[unfolded n], folded j_def]
  from Suc.IH[of "cs ! j"] C obtain c where c: "get_mut_in_trie (cs ! j) (5 * d) i f = Some c"
    "packed d c" "elems c = (elems (cs ! j))[i mod ?B := f (elems (cs ! j) ! (i mod ?B))]" by blast
  have "packed (Suc d) (Internal (cs[j := c]))"
    using Suc.prems(1) C c unfolding n by (intro packed_update) auto
  moreover have "elems (Internal cs) ! (j * ?B + i mod ?B) = elems (cs ! j) ! (i mod ?B)"
    using elems_split[of j cs] C by (simp add: nth_append)
  then have "elems (Internal (cs[j := c]))
      = (elems n)[j * ?B + i mod ?B := f (elems n ! (j * ?B + i mod ?B))]"
    using elems_update[of j cs "j * ?B" c "i mod ?B"] C c(3) n by simp
  moreover have "sub_idx (5 * Suc d) i = j" by (simp only: mult_Suc_right sub_idx_Suc j_def)
  then have "get_mut_in_trie n (5 * Suc d) i f = Some (Internal (cs[j := c]))"
    using c(1) C by (simp add: n)
  moreover have "i mod 32 ^ Suc (Suc d) = j * ?B + i mod ?B" by (simp only: mod_split j_def)
  ultimately show ?case by metis
qed

lemma set_in_trie_get_mut: "set_in_trie n sh i x = get_mut_in_trie n sh i (\<lambda>_. x)"
  by (induction n sh i x rule: set_in_trie.induct) (auto split: option.splits)

lemma packed_new_path:
  "packed d n \<Longrightarrow> elems n \<noteq> [] \<Longrightarrow> packed (d + k) (new_path k n) \<and> elems (new_path k n) = elems n"
proof (induction k arbitrary: d n)
  case (Suc k)
  then have "packed (Suc d) (Internal [n])" by simp
  with Suc show ?case using Suc.IH[of "Suc d" "Internal [n]"] by simp
qed simp

lemma new_path_leaf:
  "length es = 32 \<Longrightarrow> packed k (new_path k (Leaf es)) \<and> elems (new_path k (Leaf es)) = es \<and> es \<noteq> []"
  using packed_new_path[of 0 "Leaf es" k] by (cases es) auto

lemma push_leaf_correct:
  assumes "packed (Suc d) n" and "length (elems n) < 32 ^ Suc (Suc d)"
    and "idx mod 32 ^ Suc (Suc d) = length (elems n)" and "length es = 32"
  shows "packed (Suc d) (push_leaf_into_node n (5 + 5 * d) idx (Leaf es))
    \<and> elems (push_leaf_into_node n (5 + 5 * d) idx (Leaf es)) = elems n @ es"
  using assms(1-3)
proof (induction d arbitrary: n)
  case 0
  then obtain cs where n: "n = Internal cs" by (auto elim: packed_SucE)
  show ?case
  proof (cases cs rule: rev_cases)
    case Nil
    then show ?thesis using assms(4) by (auto simp: n)
  next
    case (snoc ds c)
    have "full 0 c" using 0(1) n snoc by (cases c) auto
    moreover have "length ds * 32 + length (elems c) < 1024"
      using 0 n snoc length_elems_snoc[of ds 0 c] by (simp add: packed_snoc numeral_2_eq_2)
    ultimately show ?thesis using 0(1) n snoc assms(4) full_length[of 0 c]
      by (auto simp: packed_snoc butlast_append)
  qed
next
  case (Suc d)
  then obtain cs where n: "n = Internal cs" by (auto elim: packed_SucE)
  let ?B = "32 ^ Suc (Suc d) :: nat"
  have sh: "5 + 5 * Suc d \<noteq> (5::nat)" "(5 + 5 * Suc d) - 5 = 5 + 5 * d" "(5 + 5 * Suc d) div 5 - 1 = Suc d"
    by simp_all
  note np = new_path_leaf[OF assms(4), of "Suc d"]
  define j where "j = idx div ?B mod 32"
  have j: "sub_idx (5 + 5 * Suc d) idx = j" by (simp only: sub_idx_Suc j_def)
  have jn: "j * ?B + idx mod ?B = length (elems n)"
    using Suc.prems(3) mod_split[of idx "Suc d"] by (simp add: j_def)
  show ?case
  proof (cases cs rule: rev_cases)
    case Nil
    then have "j = 0" using jn n by simp
    then show ?thesis using Nil n j sh assms(4) np by (simp add: Let_def del: new_path.simps)
  next
    case (snoc ds c)
    have fl: "\<forall>a \<in> set ds. full (Suc d) a" and pc: "packed (Suc d) c" and ne: "elems c \<noteq> []"
      and ld: "length ds < 32" using Suc.prems(1) n snoc by (auto simp: packed_snoc)
    have len: "length (elems n) = length ds * ?B + length (elems c)"
      using length_elems_snoc[OF fl] n snoc by simp
    have B: "0 < ?B" "idx mod ?B < ?B" by simp_all
    show ?thesis
    proof (cases "length (elems c) = ?B")
      case True
      then have fc: "full (Suc d) c" using pc packed_full by blast
      have "j * ?B + idx mod ?B = Suc (length ds) * ?B" using jn len True by simp
      then have "j = Suc (length ds)"
        using B by (metis add.commute div_mult_self1 div_less add_0 mult_is_0 nonzero_mult_div_cancel_right not_less0)
      moreover have "Suc (length ds) < 32"
      proof (rule ccontr)
        assume "\<not> Suc (length ds) < 32"
        then have "32 * ?B \<le> Suc (length ds) * ?B" by (intro mult_right_mono) auto
        with Suc.prems(2) len True show False by simp
      qed
      moreover have "packed (Suc (Suc d)) (Internal ((ds @ [c]) @ [new_path (Suc d) (Leaf es)]))"
        using calculation np fl fc unfolding packed_snoc by simp
      ultimately show ?thesis using n snoc j sh np by (simp add: Let_def del: packed.simps new_path.simps)
    next
      case False
      then have lt: "length (elems c) < ?B" using packed_length_le[OF pc] by simp
      have "j = length ds" "idx mod ?B = length (elems c)"
      proof -
        have e: "idx mod ?B + j * ?B = length (elems c) + length ds * ?B" using jn len by simp
        then have "(idx mod ?B + j * ?B) div ?B = (length (elems c) + length ds * ?B) div ?B" by simp
        then show "j = length ds" using B lt by simp
        with e show "idx mod ?B = length (elems c)" by simp
      qed
      then show ?thesis using Suc.IH[of c] pc lt n snoc j sh fl ld assms(4)
        by (auto simp: Let_def packed_snoc simp del: packed.simps)
    qed
  qed
qed


section \<open>The vector invariant\<close>

definition pv_list :: "'a pvec \<Rightarrow> 'a list" where
  "pv_list v = elems (pv_root v) @ pv_tail v"

definition pv_inv :: "'a pvec \<Rightarrow> bool" where
  "pv_inv v \<longleftrightarrow>
     (\<exists>d. pv_shift v = 5 + 5 * d \<and> packed (Suc d) (pv_root v)) \<and>
     length (pv_tail v) \<le> BRANCH \<and>
     pv_len v = length (elems (pv_root v)) + length (pv_tail v)"

lemma pv_inv_len: "pv_inv v \<Longrightarrow> pv_len v = length (pv_list v)"
  by (simp add: pv_inv_def pv_list_def)

lemma pv_inv_new: "pv_inv pv_new" and pv_list_new: "pv_list pv_new = []"
  by (auto simp: pv_inv_def pv_new_def pv_list_def)

lemma trie_mod:
  assumes "packed (Suc d) r" and "i < length (elems r)"
  shows "i mod 32 ^ Suc (Suc d) = i"
  using assms packed_length_le[OF assms(1)] by (intro mod_less) linarith

lemma run_at_correct:
  assumes "pv_inv v" and "i < pv_len v"
  shows "\<exists>run off. run_at v i = Some (run, off) \<and> off < length run \<and> off \<le> i
    \<and> run = take (length run) (drop (i - off) (pv_list v)) \<and> i - off + length run \<le> pv_len v"
proof -
  from assms obtain d where d: "pv_shift v = 5 + 5 * d" "packed (Suc d) (pv_root v)"
    by (auto simp: pv_inv_def)
  let ?n = "length (elems (pv_root v))"
  have len: "pv_len v = ?n + length (pv_tail v)" using assms(1) by (simp add: pv_inv_def)
  show ?thesis
  proof (cases "i < ?n")
    case False
    then show ?thesis using assms(2) len by (auto simp: run_at_def pv_list_def Let_def)
  next
    case True
    note m = trie_mod[OF d(2) True]
    from descend_correct[OF d(2), of i] True m obtain es where
      es: "descend (pv_root v) (5 * Suc d) i = Some (es, i mod 32)" "length es = 32"
        "es = take 32 (drop (i - i mod 32) (elems (pv_root v)))" by auto
    have le: "i mod 32 \<le> i" "i mod 32 < 32" by simp_all
    have bound: "i - i mod 32 + 32 \<le> ?n" using es(2,3) True le by (simp add: min_def split: if_splits)
    then have "es = take 32 (drop (i - i mod 32) (pv_list v))"
      using es(3) by (simp add: pv_list_def)
    then show ?thesis using es(1,2) le len d(1) assms(2) True bound by (auto simp: run_at_def Let_def)
  qed
qed

lemma run_at_None [simp]: "pv_len v \<le> i \<Longrightarrow> run_at v i = None"
  by (simp add: run_at_def)

lemma run_nth: "run = take (length run) (drop s xs) \<Longrightarrow> k < length run \<Longrightarrow> run ! k = xs ! (s + k)"
  by (metis (no_types, lifting) add_leD1 drop_all length_0_conv length_take linorder_le_cases
      min.absorb_iff2 not_less_zero nth_drop nth_take take_Nil)

lemma pv_get_correct:
  assumes "pv_inv v"
  shows "pv_get v i = (if i < length (pv_list v) then Some (pv_list v ! i) else None)"
proof (cases "i < pv_len v")
  case False
  then show ?thesis using pv_inv_len[OF assms] by (simp add: pv_get_def)
next
  case True
  from run_at_correct[OF assms True] obtain run off where
    r: "run_at v i = Some (run, off)" "off < length run" "off \<le> i"
      "run = take (length run) (drop (i - off) (pv_list v))" by blast
  have "run ! off = pv_list v ! i" using run_nth[OF r(4) r(2)] r(3) by simp
  then show ?thesis using r True pv_inv_len[OF assms] by (simp add: pv_get_def slice_get_def)
qed

lemma pv_push_correct:
  assumes "pv_inv v"
  shows "pv_inv (pv_push v x) \<and> pv_list (pv_push v x) = pv_list v @ [x]"
proof -
  from assms obtain d where d: "pv_shift v = 5 + 5 * d" "packed (Suc d) (pv_root v)"
    and t: "length (pv_tail v) \<le> 32" and len: "pv_len v = length (elems (pv_root v)) + length (pv_tail v)"
    by (auto simp: pv_inv_def)
  show ?thesis
  proof (cases "length (pv_tail v) < 32")
    case True
    then show ?thesis using d len by (auto simp: pv_push_def pv_inv_def pv_list_def)
  next
    case False
    let ?n = "length (elems (pv_root v))" and ?C = "32 ^ Suc (Suc d) :: nat"
    let ?grown = "Internal [pv_root v, new_path (Suc d) (Leaf (pv_tail v))]"
    let ?pushed = "push_leaf_into_node (pv_root v) (5 + 5 * d) ?n (Leaf (pv_tail v))"
    have t32: "length (pv_tail v) = 32" using t False by simp
    have cap: "push_bit (10 + 5 * d) (1::nat) = ?C"
      by (simp add: push_bit_eq_mult power_add power_mult)
    have push: "pv_push v x = (if ?n + 32 > ?C
        then \<lparr>pv_root = ?grown, pv_tail = [x], pv_len = pv_len v + 1, pv_shift = 5 + 5 * Suc d\<rparr>
        else \<lparr>pv_root = ?pushed, pv_tail = [x], pv_len = pv_len v + 1, pv_shift = 5 + 5 * d\<rparr>)"
      using t32 d(1) cap len by (simp add: pv_push_def Let_def del: power_Suc new_path.simps)
    show ?thesis
    proof (cases "?n + 32 > ?C")
      case True
      have "32 dvd ?C - ?n" using packed_dvd[OF d(2)] by (intro dvd_diff_nat) simp_all
      then have "?n = ?C" using True packed_length_le[OF d(2)] by (auto dest!: dvd_imp_le)
      then have f: "full (Suc d) (pv_root v)" using packed_full[OF d(2)] by simp
      note np = new_path_leaf[OF t32, of "Suc d"]
      have p: "packed (Suc (Suc d)) ?grown" using f np by (simp del: new_path.simps full.simps)
      have e: "elems ?grown = elems (pv_root v) @ pv_tail v" using np by (simp del: new_path.simps)
      have "pv_inv (pv_push v x)"
        unfolding pv_inv_def push using True p e len t32
        by (intro conjI exI[of _ "Suc d"]) (simp_all del: elems.simps new_path.simps packed.simps power_Suc)
      then show ?thesis using e True by (simp add: push pv_list_def del: elems.simps new_path.simps power_Suc)
    next
      case nog: False
      have m: "?n mod ?C = ?n" using nog by (intro mod_less) simp
      have P: "packed (Suc d) ?pushed" "elems ?pushed = elems (pv_root v) @ pv_tail v"
        using push_leaf_correct[OF d(2) _ m t32] nog by auto
      have "pv_inv (pv_push v x)"
        unfolding pv_inv_def push using nog P len t32
        by (intro conjI exI[of _ d]) (simp_all del: packed.simps power_Suc)
      then show ?thesis using P nog by (simp add: push pv_list_def del: power_Suc)
    qed
  qed
qed

lemma pv_push_mut_eq: "pv_push_mut x v = pv_push v x"
  by (simp add: pv_push_mut_def pv_push_def Let_def)


lemma pv_get_mut_correct:
  assumes "pv_inv v"
  shows "case pv_get_mut v i f of
           None \<Rightarrow> length (pv_list v) \<le> i
         | Some v' \<Rightarrow> i < length (pv_list v) \<and> pv_inv v' \<and> pv_list v' = (pv_list v)[i := f (pv_list v ! i)]"
proof -
  from assms obtain d where d: "pv_shift v = 5 + 5 * d" "packed (Suc d) (pv_root v)"
    and t: "length (pv_tail v) \<le> 32" and len: "pv_len v = length (elems (pv_root v)) + length (pv_tail v)"
    by (auto simp: pv_inv_def)
  let ?n = "length (elems (pv_root v))"
  consider "pv_len v \<le> i" | "i < pv_len v" "?n \<le> i" | "i < ?n" using len by linarith
  then show ?thesis
  proof cases
    case 1
    then show ?thesis using len by (simp add: pv_get_mut_def pv_list_def)
  next
    case 2
    then have "i - ?n < length (pv_tail v)" using len by simp
    then show ?thesis using 2 d t len
      by (auto simp: pv_get_mut_def pv_list_def pv_inv_def slice_get_def Let_def nth_append list_update_append)
  next
    case 3
    note m = trie_mod[OF d(2) 3]
    from get_mut_correct[OF d(2), of i f] 3 m obtain r where
      r: "get_mut_in_trie (pv_root v) (5 * Suc d) i f = Some r" "packed (Suc d) r"
        "elems r = (elems (pv_root v))[i := f (elems (pv_root v) ! i)]" by auto
    then have "pv_get_mut v i f = Some (v\<lparr>pv_root := r\<rparr>)"
      using 3 d(1) len by (simp add: pv_get_mut_def Let_def)
    then show ?thesis using r d t len 3
      by (auto simp: pv_inv_def pv_list_def nth_append list_update_append simp del: packed.simps)
  qed
qed

lemma pv_set_get_mut:
  assumes "pv_inv v"
  shows "pv_set v i x = Some (pv_get_mut v i (\<lambda>_. x))"
proof -
  have "pv_get_mut v i (\<lambda>_. x) \<noteq> None" if "i < pv_len v"
    using pv_get_mut_correct[OF assms, of i "\<lambda>_. x"] pv_inv_len[OF assms] that
    by (auto split: option.splits)
  moreover have "i < pv_len v \<Longrightarrow> \<not> i < pv_len v - length (pv_tail v) \<Longrightarrow>
      i - (pv_len v - length (pv_tail v)) < length (pv_tail v)" by linarith
  ultimately show ?thesis
    by (cases "i < pv_len v"; cases "i < pv_len v - length (pv_tail v)")
      (auto simp: pv_set_def pv_get_mut_def set_in_trie_get_mut Let_def slice_get_def
        split: option.splits)
qed

interpretation pvec: indexed pv_new pv_push pv_list pv_inv pv_len pv_get pv_get_mut
proof unfold_locales
  fix s s' :: "'a pvec" and i f
  show "pv_inv s \<Longrightarrow> (pv_get_mut s i f = None) = (length (pv_list s) \<le> i)"
    using pv_get_mut_correct[of s i f] by (auto split: option.splits)
  show "pv_inv s \<Longrightarrow> pv_get_mut s i f = Some s' \<Longrightarrow>
      pv_inv s' \<and> pv_list s' = (pv_list s)[i := f (pv_list s ! i)]"
    using pv_get_mut_correct[of s i f] by simp
qed (auto simp: pv_inv_new pv_list_new pv_push_correct pv_inv_len pv_get_correct)

section \<open>Iteration\<close>

text \<open>The iterator at position \<open>p\<close> holds a part of the run that covers the elements
  from \<open>p\<close> on.\<close>

definition iter_ok :: "'a pvec \<Rightarrow> 'a pv_iter \<Rightarrow> bool" where
  "iter_ok v it \<longleftrightarrow>
     it_off it \<le> length (it_run it) \<and> it_pos it \<le> length (pv_list v) \<and>
     (\<forall>k. it_off it + k < length (it_run it) \<longrightarrow>
        it_pos it + k < length (pv_list v) \<and> it_run it ! (it_off it + k) = pv_list v ! (it_pos it + k))"

lemma iter_next_correct:
  assumes "pv_inv v" and "iter_ok v it"
  shows "case iter_next v it of
           (None, it') \<Rightarrow> it_pos it = length (pv_list v)
         | (Some x, it') \<Rightarrow> it_pos it < length (pv_list v) \<and> x = pv_list v ! it_pos it
             \<and> iter_ok v it' \<and> it_pos it' = Suc (it_pos it)"
proof (cases "it_off it = length (it_run it)")
  case False
  then have lt: "it_off it < length (it_run it)" using assms(2) by (simp add: iter_ok_def)
  then have p: "it_pos it < length (pv_list v)" "it_run it ! it_off it = pv_list v ! it_pos it"
    using assms(2) unfolding iter_ok_def by (metis add_0_right)+
  have "iter_ok v (it\<lparr>it_off := Suc (it_off it), it_pos := Suc (it_pos it)\<rparr>)"
    using assms(2) lt p unfolding iter_ok_def
    by (auto simp: less_eq_Suc_le[symmetric]) (metis add_Suc_right)+
  then show ?thesis using lt p False by (simp add: iter_next_def slice_get_def)
next
  case True
  show ?thesis
  proof (cases "it_pos it < pv_len v")
    case False
    then show ?thesis using True assms pv_inv_len[OF assms(1)]
      by (simp add: iter_next_def iter_ok_def)
  next
    case lt: True
    from run_at_correct[OF assms(1) lt] obtain run off where
      r: "run_at v (it_pos it) = Some (run, off)" "off < length run" "off \<le> it_pos it"
        "run = take (length run) (drop (it_pos it - off) (pv_list v))"
        "it_pos it - off + length run \<le> pv_len v" by blast
    have nth: "run ! k = pv_list v ! (it_pos it - off + k)" if "k < length run" for k
      using run_nth[OF r(4) that] .
    let ?it = "it\<lparr>it_run := run, it_off := Suc off, it_pos := Suc (it_pos it)\<rparr>"
    have "iter_ok v ?it"
      unfolding iter_ok_def using r lt pv_inv_len[OF assms(1)]
      by (auto simp: nth) 
    then show ?thesis using True r lt nth[OF r(2)] pv_inv_len[OF assms(1)]
      by (simp add: iter_next_def slice_get_def)
  qed
qed

lemma iter_take_correct:
  assumes "pv_inv v" and "iter_ok v it"
  shows "iter_take n v it = take n (drop (it_pos it) (pv_list v))"
  using assms(2)
proof (induction n arbitrary: it)
  case (Suc n)
  obtain o' it' where nx: "iter_next v it = (o', it')" by fastforce
  show ?case
  proof (cases o')
    case None
    then show ?thesis using iter_next_correct[OF assms(1) Suc.prems] nx by simp
  next
    case (Some x)
    with iter_next_correct[OF assms(1) Suc.prems] nx
    have x: "it_pos it < length (pv_list v)" "x = pv_list v ! it_pos it" "iter_ok v it'"
      "it_pos it' = Suc (it_pos it)" by auto
    then show ?thesis using nx Some Suc.IH[OF x(3)] by (simp add: Cons_nth_drop_Suc[symmetric])
  qed
qed simp

lemma iter_ok_start: "iter_ok v (iter v)"
  by (simp add: iter_ok_def iter_def)

section \<open>Cursors\<close>

definition cursor_ok :: "'a pvec \<Rightarrow> 'a run_cursor \<Rightarrow> bool" where
  "cursor_ok v c \<longleftrightarrow> (case c of None \<Rightarrow> True
     | Some (start, run) \<Rightarrow> start + length run \<le> length (pv_list v)
         \<and> run = take (length run) (drop start (pv_list v)))"

lemma run_containing_correct:
  assumes "pv_inv v" and "i < pv_len v"
  shows "\<exists>start run. run_containing v i = Some (start, run) \<and> start \<le> i \<and> i - start < length run
    \<and> cursor_ok v (Some (start, run))"
  using run_at_correct[OF assms] pv_inv_len[OF assms(1)]
  by (fastforce simp: run_containing_def cursor_ok_def)

lemma cursor_get_correct:
  assumes "pv_inv v" and "cursor_ok v c"
  shows "fst (cursor_get v c i) = pv_get v i \<and> cursor_ok v (snd (cursor_get v c i))"
proof -
  have hit: "slice_get run (i - start) = pv_get v i"
    if "cursor_ok v (Some (start, run))" "start \<le> i" "i - start < length run" for start run
    using that run_nth[of run start "pv_list v" "i - start"] pv_get_correct[OF assms(1), of i]
    by (auto simp: cursor_ok_def slice_get_def)
  have miss: "fst (case run_containing v i of None \<Rightarrow> (None, c)
        | Some (start', run') \<Rightarrow> (slice_get run' (i - start'), Some (start', run'))) = pv_get v i
     \<and> cursor_ok v (snd (case run_containing v i of None \<Rightarrow> (None, c)
        | Some (start', run') \<Rightarrow> (slice_get run' (i - start'), Some (start', run'))))"
  proof (cases "i < pv_len v")
    case True
    then show ?thesis using run_containing_correct[OF assms(1) True] hit by auto
  next
    case False
    then show ?thesis using assms(2) pv_get_correct[OF assms(1), of i] pv_inv_len[OF assms(1)]
      by (simp add: run_containing_def)
  qed
  show ?thesis
  proof (cases c)
    case None
    with miss show ?thesis unfolding cursor_get_def by simp
  next
    case (Some p)
    then show ?thesis using miss hit assms(2) by (cases p) (auto simp: cursor_get_def)
  qed
qed

section \<open>Properties\<close>



text \<open>On a well-formed vector the leaf-at-a-time iterator yields exactly the elements in
  order and then stops, a run cursor answers every read like get whatever it read before,
  and the equality of two vectors is equality of their element lists.\<close>

theorem pvec_iteration:
  assumes "pv_inv v" and "pv_inv w" and "cursor_ok v c"
  shows "iter_take n v (iter v) = take n (pv_list v)
    \<and> fst (cursor_get v c i) = pv_get v i \<and> cursor_ok v (snd (cursor_get v c i))
    \<and> (pv_eq v w \<longleftrightarrow> pv_list v = pv_list w)"
  using assms iter_take_correct[OF assms(1) iter_ok_start] iter_take_correct[OF assms(2) iter_ok_start]
  by (auto simp: cursor_get_correct pv_eq_def pv_inv_len iter_def)

theorem pvec_iteration_witness:
  "iter_take 5 (pv_push (pv_new :: nat pvec) 7) (iter (pv_push pv_new 7)) = [7]
   \<and> fst (cursor_get (pv_push (pv_new :: nat pvec) 7) None 0) = Some 7"
proof -
  have inv: "pv_inv (pv_push (pv_new :: nat pvec) 7)" using pv_push_correct[OF pv_inv_new, of "7::nat"] by blast
  have "cursor_ok (pv_push (pv_new :: nat pvec) 7) None" by (simp add: cursor_ok_def)
  from pvec_iteration[OF inv inv this, of 5 0] show ?thesis
    using pv_push_correct[OF pv_inv_new, of "7::nat"] pv_get_correct[OF inv] by (simp add: pv_list_new)
qed

text \<open>The tail buffer reaches its full length of 32 at rest: after thirty-two pushes to the
  empty vector the tail holds 32 elements and the trie none.\<close>

theorem pvec_full_tail_at_rest:
  "length (pv_tail (foldl pv_push pv_new (replicate 32 (x::'a)))) = BRANCH
   \<and> pv_root (foldl pv_push pv_new (replicate 32 x)) = Internal []"
proof -
  have "n \<le> 32 \<Longrightarrow> pv_tail (foldl pv_push pv_new (replicate n x)) = replicate n x
      \<and> pv_root (foldl pv_push pv_new (replicate n x)) = Internal []" for n
  proof (induction n)
    case 0
    then show ?case by (simp add: pv_new_def)
  next
    case (Suc n)
    let ?v = "foldl pv_push pv_new (replicate n x)"
    have "foldl pv_push pv_new (replicate (Suc n) x) = pv_push ?v x"
      by (metis foldl_Cons foldl_Nil foldl_append replicate_Suc replicate_append_same)
    moreover have "pv_tail (pv_push ?v x) = replicate (Suc n) x" "pv_root (pv_push ?v x) = Internal []"
      using Suc by (simp_all add: pv_push_def[of ?v] replicate_append_same)
    ultimately show ?case by metis
  qed
  from this[of 32] show ?thesis by simp
qed

end
