(* ===== verification/Row_Locator.thy ===== *)
theory Row_Locator
  imports Prelude
begin

text \<open>
  \<^verbatim>\<open>crates/spg-storage/src/row_locator.rs\<close>: the two-tier row pointer stored in indexes and
  its nine-byte wire form. \<open>usize\<close> is the 64-bit index type of the supported targets, so
  \<open>usize::try_from\<close> of a \<open>u64\<close> never fails and its error is kept as a constructor only.
\<close>

definition TAG_HOT :: u8 where "TAG_HOT = 0"
definition TAG_COLD :: u8 where "TAG_COLD = 1"

datatype row_locator_error =
    TooShort nat nat
  | BadTag u8
  | TruncatedCold nat nat
  | LegacyIndexOverflow string

datatype row_locator = Hot u64 | Cold (segment_id: u32) (page_offset: u32)

definition is_hot :: "row_locator \<Rightarrow> bool" where
  "is_hot l = (case l of Hot _ \<Rightarrow> True | Cold _ _ \<Rightarrow> False)"

definition is_cold :: "row_locator \<Rightarrow> bool" where
  "is_cold l = (case l of Cold _ _ \<Rightarrow> True | Hot _ \<Rightarrow> False)"

definition as_hot :: "row_locator \<Rightarrow> u64 option" where
  "as_hot l = (case l of Hot i \<Rightarrow> Some i | Cold _ _ \<Rightarrow> None)"

definition as_cold :: "row_locator \<Rightarrow> (u32 \<times> u32) option" where
  "as_cold l = (case l of Cold s p \<Rightarrow> Some (s, p) | Hot _ \<Rightarrow> None)"

definition encoded_len :: "row_locator \<Rightarrow> nat" where "encoded_len l = 9"

fun write_le :: "row_locator \<Rightarrow> bytes \<Rightarrow> bytes" where
  "write_le (Hot i) out = out @ [TAG_HOT] @ u64_le i"
| "write_le (Cold s p) out = out @ [TAG_COLD] @ u32_le s @ u32_le p"

definition read_le :: "bytes \<Rightarrow> row_locator_error + (row_locator \<times> nat)" where
  "read_le input =
     (case input of
        [] \<Rightarrow> Inl (TooShort 0 1)
      | tag # rest \<Rightarrow>
          if tag = TAG_HOT then
            (if length input < 9 then Inl (TooShort (length input) 9)
             else Inr (Hot (le_u64 (take 8 rest)), 9))
          else if tag = TAG_COLD then
            (if length input < 9 then Inl (TruncatedCold (length input) 9)
             else Inr (Cold (le_u32 (take 4 rest)) (le_u32 (take 4 (drop 4 rest))), 9))
          else Inl (BadTag tag))"

definition from_legacy_v8_u64 :: "u64 \<Rightarrow> row_locator_error + row_locator" where
  "from_legacy_v8_u64 idx = Inr (Hot idx)"

lemma length_write_le [simp, codec_simps]: "length (write_le l out) = length out + encoded_len l"
  by (cases l) (simp_all add: encoded_len_def)

lemma take_u64_append [simp]: "take 8 (u64_le w @ r) = u64_le w" by simp
lemma take_u32_append [simp]: "take 4 (u32_le w @ r) = u32_le w" by simp
lemma drop_u32_append [simp]: "drop 4 (u32_le w @ r) = r" by simp

lemma locator_written:
  "read_le (write_le l [] @ rest) = Inr (l, encoded_len l)
   \<and> write_le l out = out @ write_le l [] \<and> length (write_le l out) = length out + encoded_len l"
  by (cases l) (simp_all add: read_le_def encoded_len_def TAG_HOT_def TAG_COLD_def)

text \<open>The locator codec is a bijection on its nine-byte form. Reading a written locator gives
  the locator back and reports the bytes consumed, whatever follows it in the stream, and the
  bytes before it in the buffer are untouched; conversely every locator the reader accepts is
  the one that was written: the nine bytes it consumed are exactly those the writer emits for it.\<close>

theorem locator_codec:
  assumes "read_le input = Inr (l, n)"
  shows "n = 9 \<and> n \<le> length input \<and> write_le l [] = take n input
    \<and> read_le (write_le k [] @ rest) = Inr (k, encoded_len k) \<and> write_le k out = out @ write_le k []"
proof -
  from assms obtain tag rs where i: "input = tag # rs"
    by (cases input) (simp_all add: read_le_def)
  have len: "8 \<le> length rs" and n: "n = 9"
    using assms by (auto simp: read_le_def i split: if_splits)
  have "take 8 rs = take 4 rs @ take 4 (drop 4 rs)"
    using take_add[of 4 4 rs] by simp
  then have "n = 9 \<and> n \<le> length input \<and> write_le l [] = take n input" using assms len n
    by (auto simp: read_le_def i u64_le_le_u64 u32_le_le_u32 split: if_splits)
  then show ?thesis using locator_written by blast
qed

theorem locator_codec_witness:
  "read_le [1, 7, 0, 0, 0, 0, 16, 0, 0] = Inr (Cold 7 4096, 9) \<and>
   write_le (Cold 7 4096) [] = take 9 [1, 7, 0, 0, 0, 0, 16, 0, 0]"
proof -
  have r: "read_le [1, 7, 0, 0, 0, 0, 16, 0, 0] = Inr (Cold 7 4096, 9)"
    by (simp add: read_le_def TAG_HOT_def TAG_COLD_def le_u32_def)
  with locator_codec[OF r] show ?thesis by blast
qed

end
