(* ===== verification/Posting_List.thy ===== *)
theory Posting_List
  imports Row_Locator Sequence_Spec
begin

text \<open>
  \<^verbatim>\<open>crates/spg-storage/src/posting.rs\<close>: the locator sequence under one index key, as shared
  blocks of 256 and an open tail. Sharing of the frozen blocks is not observable, so a
  block is its list of locators.
\<close>

definition BLOCK :: nat where "BLOCK = 256"

record posting_list =
  frozen :: "row_locator list list"
  pl_tail :: "row_locator list"

definition pl_new :: posting_list where
  "pl_new = \<lparr>frozen = [], pl_tail = []\<rparr>"

definition pl_single :: "row_locator \<Rightarrow> posting_list" where
  "pl_single l = \<lparr>frozen = [], pl_tail = [l]\<rparr>"

definition pl_push :: "posting_list \<Rightarrow> row_locator \<Rightarrow> posting_list" where
  "pl_push p l =
     (let t = pl_tail p @ [l] in
      if length t \<ge> BLOCK then p\<lparr>frozen := frozen p @ [t], pl_tail := []\<rparr>
      else p\<lparr>pl_tail := t\<rparr>)"

definition pl_len :: "posting_list \<Rightarrow> nat" where
  "pl_len p = length (frozen p) * BLOCK + length (pl_tail p)"

definition pl_is_empty :: "posting_list \<Rightarrow> bool" where
  "pl_is_empty p = (frozen p = [] \<and> pl_tail p = [])"

definition first_opt :: "'a list \<Rightarrow> 'a option" where
  "first_opt xs = (case xs of [] \<Rightarrow> None | x # _ \<Rightarrow> Some x)"

definition last_opt :: "'a list \<Rightarrow> 'a option" where
  "last_opt xs = (if xs = [] then None else Some (last xs))"

definition pl_first :: "posting_list \<Rightarrow> row_locator option" where
  "pl_first p =
     (case Option.bind (first_opt (frozen p)) first_opt of
        Some l \<Rightarrow> Some l
      | None \<Rightarrow> first_opt (pl_tail p))"

definition pl_last :: "posting_list \<Rightarrow> row_locator option" where
  "pl_last p =
     (case last_opt (pl_tail p) of
        Some l \<Rightarrow> Some l
      | None \<Rightarrow> Option.bind (last_opt (frozen p)) last_opt)"

section \<open>The iterator\<close>

record pl_iter =
  block :: nat
  pos :: nat

definition pl_iter_new :: "posting_list \<Rightarrow> pl_iter" where
  "pl_iter_new p = \<lparr>block = 0, pos = 0\<rparr>"

function pl_next :: "posting_list \<Rightarrow> pl_iter \<Rightarrow> row_locator option \<times> pl_iter" where
  "pl_next p it =
     (if block it < length (frozen p) then
        (if pos it < length (frozen p ! block it)
         then (Some (frozen p ! block it ! pos it), it\<lparr>pos := Suc (pos it)\<rparr>)
         else pl_next p (it\<lparr>block := Suc (block it), pos := 0\<rparr>))
      else if pos it < length (pl_tail p)
      then (Some (pl_tail p ! pos it), it\<lparr>pos := Suc (pos it)\<rparr>)
      else (None, it))"
  by pat_completeness auto
termination
  by (relation "measure (\<lambda>(p, it). length (frozen p) - block it)") auto

declare pl_next.simps [simp del]

definition pl_size_hint :: "posting_list \<Rightarrow> pl_iter \<Rightarrow> nat" where
  "pl_size_hint p it = pl_len p - (block it * BLOCK + pos it)"

fun pl_take :: "nat \<Rightarrow> posting_list \<Rightarrow> pl_iter \<Rightarrow> row_locator list" where
  "pl_take 0 p it = []"
| "pl_take (Suc n) p it = (case pl_next p it of (None, _) \<Rightarrow> [] | (Some l, it') \<Rightarrow> l # pl_take n p it')"

definition pl_to_vec :: "posting_list \<Rightarrow> row_locator list" where
  "pl_to_vec p = pl_take (pl_len p) p (pl_iter_new p)"

definition pl_contains :: "posting_list \<Rightarrow> row_locator \<Rightarrow> bool" where
  "pl_contains p l = list_ex (\<lambda>x. x = l) (pl_to_vec p)"

definition pl_from_iter :: "row_locator list \<Rightarrow> posting_list" where
  "pl_from_iter ls = foldl pl_push pl_new ls"

definition pl_retain :: "(row_locator \<Rightarrow> bool) \<Rightarrow> posting_list \<Rightarrow> posting_list" where
  "pl_retain keep p =
     (if list_all keep (pl_to_vec p) then p
      else pl_from_iter (filter keep (pl_to_vec p)))"

definition pl_eq_slice :: "posting_list \<Rightarrow> row_locator list \<Rightarrow> bool" where
  "pl_eq_slice p other =
     (pl_len p = length other \<and> list_all (\<lambda>(a, b). a = b) (zip (pl_to_vec p) other))"

section \<open>Invariant and refinement\<close>

definition pl_list :: "posting_list \<Rightarrow> row_locator list" where
  "pl_list p = concat (frozen p) @ pl_tail p"

definition pl_inv :: "posting_list \<Rightarrow> bool" where
  "pl_inv p \<longleftrightarrow> (\<forall>b \<in> set (frozen p). length b = BLOCK) \<and> length (pl_tail p) < BLOCK"

lemma length_concat_blocks: "\<forall>b \<in> set bs. length b = BLOCK \<Longrightarrow> length (concat bs) = length bs * BLOCK"
  by (induction bs) auto

lemma pl_len_list: "pl_inv p \<Longrightarrow> pl_len p = length (pl_list p)"
  by (simp add: pl_inv_def pl_len_def pl_list_def length_concat_blocks)

lemma pl_push_inv: "pl_inv p \<Longrightarrow> pl_inv (pl_push p l) \<and> pl_list (pl_push p l) = pl_list p @ [l]"
  by (auto simp: pl_inv_def pl_push_def pl_list_def Let_def BLOCK_def)

interpretation posting: appendable pl_new pl_push pl_list pl_inv
proof unfold_locales
  show "pl_inv pl_new" "pl_list pl_new = []"
    by (simp_all add: pl_inv_def pl_new_def pl_list_def BLOCK_def)
qed (simp_all add: pl_push_inv)

text \<open>What the iterator still has to yield.\<close>

definition pl_rest :: "posting_list \<Rightarrow> pl_iter \<Rightarrow> row_locator list" where
  "pl_rest p it =
     (if block it < length (frozen p)
      then drop (pos it) (frozen p ! block it) @ concat (drop (Suc (block it)) (frozen p)) @ pl_tail p
      else drop (pos it) (pl_tail p))"

lemma pl_next_rest:
  "case pl_next p it of
     (None, _) \<Rightarrow> pl_rest p it = []
   | (Some l, it') \<Rightarrow> pl_rest p it = l # pl_rest p it'"
proof (induction p it rule: pl_next.induct)
  case (1 p it)
  show ?case
  proof (cases "block it < length (frozen p) \<and> \<not> pos it < length (frozen p ! block it)")
    case True
    let ?it = "it\<lparr>block := Suc (block it), pos := 0\<rparr>"
    have "pl_rest p it = pl_rest p ?it"
      using True by (auto simp: pl_rest_def Cons_nth_drop_Suc[symmetric] not_less)
    moreover have "pl_next p it = pl_next p ?it"
      using True by (subst pl_next.simps) simp
    ultimately show ?thesis using 1 True by (simp only:) simp
  next
    case False
    then show ?thesis
      by (auto simp: pl_next.simps[of p it] pl_rest_def Cons_nth_drop_Suc[symmetric] not_less)
  qed
qed

lemma pl_take_rest: "pl_take n p it = take n (pl_rest p it)"
proof (induction n arbitrary: it)
  case (Suc n)
  show ?case using pl_next_rest[of p it] Suc.IH
    by (cases "pl_next p it"; cases "fst (pl_next p it)") auto
qed simp

lemma pl_rest_start: "pl_rest p (pl_iter_new p) = pl_list p"
  by (cases "frozen p") (simp_all add: pl_rest_def pl_iter_new_def pl_list_def)

lemma pl_to_vec_list: "pl_inv p \<Longrightarrow> pl_to_vec p = pl_list p"
  by (simp add: pl_to_vec_def pl_take_rest pl_rest_start pl_len_list)

lemma pl_from_iter_list: "pl_inv (pl_from_iter ls) \<and> pl_list (pl_from_iter ls) = ls"
  unfolding pl_from_iter_def by (rule posting.rebuild)

lemma pl_first_last:
  assumes "pl_inv p"
  shows "pl_first p = first_opt (pl_list p) \<and> pl_last p = last_opt (pl_list p)"
proof (intro conjI)
  show "pl_first p = first_opt (pl_list p)"
  proof (cases "frozen p")
    case (Cons b bs)
    then have "b \<noteq> []" using assms by (auto simp: pl_inv_def BLOCK_def)
    then show ?thesis using Cons by (cases b) (auto simp: pl_first_def first_opt_def pl_list_def)
  qed (simp add: pl_first_def first_opt_def pl_list_def split: list.split)
  show "pl_last p = last_opt (pl_list p)"
  proof (cases "frozen p" rule: rev_cases)
    case (snoc bs b)
    then have "b \<noteq> []" using assms by (auto simp: pl_inv_def BLOCK_def)
    then show ?thesis using snoc by (auto simp: pl_last_def last_opt_def pl_list_def)
  qed (simp add: pl_last_def last_opt_def pl_list_def)
qed

text \<open>A posting list refines a plain list of locators: push appends, the iterator, the flat
  copy, first, last, contains and the stored length read that list, and retain keeps the
  blocked form while filtering it.\<close>

theorem posting_list_refines:
  assumes "pl_inv p"
  shows "pl_inv (pl_push p l) \<and> pl_list (pl_push p l) = pl_list p @ [l]
    \<and> pl_to_vec p = pl_list p \<and> pl_len p = length (pl_list p)
    \<and> pl_first p = first_opt (pl_list p) \<and> pl_last p = last_opt (pl_list p)
    \<and> (pl_contains p l \<longleftrightarrow> l \<in> set (pl_list p)) \<and> (pl_is_empty p \<longleftrightarrow> pl_list p = [])
    \<and> pl_inv (pl_retain keep p) \<and> pl_list (pl_retain keep p) = filter keep (pl_list p)
    \<and> (pl_eq_slice p ls \<longleftrightarrow> pl_list p = ls)"
proof -
  have "pl_is_empty p \<longleftrightarrow> pl_list p = []"
    using assms by (cases "frozen p") (auto simp: pl_is_empty_def pl_list_def pl_inv_def BLOCK_def)
  moreover have "pl_eq_slice p ls \<longleftrightarrow> pl_list p = ls"
    unfolding pl_eq_slice_def pl_len_list[OF assms] pl_to_vec_list[OF assms]
    by (auto simp: list_eq_iff_zip_eq list_all_iff)
  ultimately show ?thesis
    using assms pl_from_iter_list
    by (auto simp: pl_push_inv pl_to_vec_list pl_len_list pl_first_last pl_contains_def list_ex_iff
        pl_retain_def list_all_iff)
qed

theorem posting_list_refines_witness:
  "pl_list (pl_push pl_new (Hot 3)) = [Hot 3] \<and> pl_list (pl_retain is_cold (pl_single (Hot 3))) = []"
proof -
  have n: "pl_inv pl_new" and s: "pl_inv (pl_single (Hot 3))"
    by (simp_all add: pl_inv_def pl_new_def pl_single_def BLOCK_def)
  show ?thesis
    using posting_list_refines[OF n, of "Hot 3"] posting_list_refines[OF s, of "Hot 3" is_cold]
    by (simp add: pl_list_def pl_new_def pl_single_def is_cold_def)
qed

end
