(* ===== verification/BTree_Node.thy ===== *)
theory BTree_Node
  imports Rust_Collections
begin

text \<open>
  The nodes of the path-copying B-tree map (\<open>persistent_btree.rs\<close>): searching,
  inserting by path copy and inserting in place. An index or a \<open>pop\<close> that would
  panic gives \<open>None\<close>; an \<open>Arc\<close> is the node it points to, since a node is only
  changed through \<open>Arc::make_mut\<close>.
\<close>

section \<open>Nodes\<close>

definition ORDER :: nat where "ORDER = 8"
definition MAX_ENTRIES :: nat where "MAX_ENTRIES = ORDER - 1"
definition MAX_CHILDREN :: nat where "MAX_CHILDREN = ORDER"
definition MIN_ENTRIES :: nat where "MIN_ENTRIES = ORDER div 2 - 1"

lemmas btree_consts [simp] = ORDER_def MAX_ENTRIES_def MAX_CHILDREN_def MIN_ENTRIES_def

datatype ('k, 'v) bnode =
    BLeaf "('k \<times> 'v) list"
  | BInternal "('k \<times> 'v) list" "('k, 'v) bnode list"

datatype found_or_descend = Found nat | Descend nat

fun entry_count :: "('k, 'v) bnode \<Rightarrow> nat" where
  "entry_count (BLeaf es) = length es"
| "entry_count (BInternal es cs) = length es"

section \<open>Searching\<close>

fun linear_find_from :: "nat \<Rightarrow> ('k::linorder \<times> 'v) list \<Rightarrow> 'k \<Rightarrow> nat option" where
  "linear_find_from i [] key = None"
| "linear_find_from i ((k, v) # es) key =
     (if k = key then Some i else if key < k then None else linear_find_from (Suc i) es key)"

definition linear_find_entry :: "('k::linorder \<times> 'v) list \<Rightarrow> 'k \<Rightarrow> nat option" where
  "linear_find_entry es key = linear_find_from 0 es key"

fun linear_position_from :: "nat \<Rightarrow> ('k::linorder \<times> 'v) list \<Rightarrow> 'k \<Rightarrow> found_or_descend" where
  "linear_position_from i [] key = Descend i"
| "linear_position_from i ((k, v) # es) key =
     (if k = key then Found i else if key < k then Descend i else linear_position_from (Suc i) es key)"

definition linear_position_internal :: "('k::linorder \<times> 'v) list \<Rightarrow> 'k \<Rightarrow> found_or_descend" where
  "linear_position_internal es key = linear_position_from 0 es key"

fun get_node :: "('k::linorder, 'v) bnode \<Rightarrow> 'k \<Rightarrow> 'v option option" where
  "get_node (BLeaf es) key = Some (map_option (\<lambda>i. snd (es ! i)) (linear_find_entry es key))"
| "get_node (BInternal es cs) key =
     (case linear_position_internal es key of
        Found i \<Rightarrow> Some (Some (snd (es ! i)))
      | Descend i \<Rightarrow> (if i < length cs then get_node (cs ! i) key else None))"

fun predecessor_node ::
  "('k::linorder, 'v) bnode \<Rightarrow> 'k \<Rightarrow> ('k \<times> 'v) option \<Rightarrow> ('k \<times> 'v) option option" where
  "predecessor_node (BLeaf es) key best =
     (let i = partition_point (\<lambda>e. fst e < key) es
      in Some (if 0 < i then Some (es ! (i - 1)) else best))"
| "predecessor_node (BInternal es cs) key best =
     (let i = partition_point (\<lambda>e. fst e < key) es;
          best' = (if 0 < i then Some (es ! (i - 1)) else best)
      in if i < length cs then predecessor_node (cs ! i) key best' else None)"

text \<open>\<open>get_mut\<close>: the slot it lends is written by \<open>f\<close>; the result also carries what was read.\<close>

fun get_mut_helper ::
  "('k::linorder, 'v) bnode \<Rightarrow> 'k \<Rightarrow> ('v \<Rightarrow> 'v) \<Rightarrow> (('k, 'v) bnode \<times> 'v option) option" where
  "get_mut_helper (BLeaf es) key f =
     (case linear_find_entry es key of
        None \<Rightarrow> Some (BLeaf es, None)
      | Some i \<Rightarrow> Some (BLeaf (es[i := (fst (es ! i), f (snd (es ! i)))]), Some (snd (es ! i))))"
| "get_mut_helper (BInternal es cs) key f =
     (case linear_position_internal es key of
        Found i \<Rightarrow> Some (BInternal (es[i := (fst (es ! i), f (snd (es ! i)))]) cs, Some (snd (es ! i)))
      | Descend i \<Rightarrow>
          (if i < length cs then
             (case get_mut_helper (cs ! i) key f of
                None \<Rightarrow> None
              | Some (c, r) \<Rightarrow> Some (BInternal es (cs[i := c]), r))
           else None))"

section \<open>Inserting\<close>

type_synonym ('k, 'v) split = "(('k, 'v) bnode \<times> ('k \<times> 'v)) option"

text \<open>
  The overflow split of both insert workers: \<open>split_off(mid + 1)\<close> leaves the median
  last in the left part, from where it is popped.
\<close>

definition split_leaf :: "('k \<times> 'v) list \<Rightarrow> ('k, 'v) bnode \<times> ('k, 'v) split" where
  "split_leaf es =
     (let mid = length es div 2; left = take (Suc mid) es; right = drop (Suc mid) es
      in (BLeaf (butlast left), Some (BLeaf right, last left)))"

definition split_internal ::
  "('k \<times> 'v) list \<Rightarrow> ('k, 'v) bnode list \<Rightarrow> ('k, 'v) bnode \<times> ('k, 'v) split" where
  "split_internal es cs =
     (let mid = length es div 2; left = take (Suc mid) es; right = drop (Suc mid) es
      in (BInternal (butlast left) (take (Suc mid) cs),
          Some (BInternal right (drop (Suc mid) cs), last left)))"

fun insert_helper ::
  "('k::linorder, 'v) bnode \<Rightarrow> 'k \<Rightarrow> 'v \<Rightarrow> (('k, 'v) bnode \<times> ('k, 'v) split \<times> 'v option) option" where
  "insert_helper (BLeaf es) k v =
     (let (new_es, prev) =
        (case binary_search (map fst es) k of
           Inr idx \<Rightarrow> (es[idx := (fst (es ! idx), v)], Some (snd (es ! idx)))
         | Inl idx \<Rightarrow> (vec_insert idx (k, v) es, None))
      in if length new_es \<le> MAX_ENTRIES then Some (BLeaf new_es, None, prev)
         else (let (l, s) = split_leaf new_es in Some (l, s, prev)))"
| "insert_helper (BInternal es cs) k v =
     (case binary_search (map fst es) k of
        Inr idx \<Rightarrow> Some (BInternal (es[idx := (fst (es ! idx), v)]) cs, None, Some (snd (es ! idx)))
      | Inl idx \<Rightarrow>
          (if idx < length cs then
             (case insert_helper (cs ! idx) k v of
                None \<Rightarrow> None
              | Some (new_child, split, prev) \<Rightarrow>
                  (let cs1 = cs[idx := new_child];
                       (new_es, new_cs) =
                         (case split of
                            None \<Rightarrow> (es, cs1)
                          | Some (right, median) \<Rightarrow>
                              (vec_insert idx median es, vec_insert (Suc idx) right cs1))
                   in if length new_cs \<le> MAX_CHILDREN then Some (BInternal new_es new_cs, None, prev)
                      else (let (l, s) = split_internal new_es new_cs in Some (l, s, prev))))
           else None))"

text \<open>
  The in-place worker: the first component is the node after the mutation.
\<close>

fun insert_transient_helper ::
  "('k::linorder, 'v) bnode \<Rightarrow> 'k \<Rightarrow> 'v \<Rightarrow> (('k, 'v) bnode \<times> ('k, 'v) split \<times> 'v option) option" where
  "insert_transient_helper (BLeaf es) k v =
     (case binary_search (map fst es) k of
        Inr idx \<Rightarrow>
          (let es' = es[idx := (fst (es ! idx), v)]; prev = Some (snd (es ! idx))
           in if length es' \<le> MAX_ENTRIES then Some (BLeaf es', None, prev)
              else (let (l, s) = split_leaf es' in Some (l, s, prev)))
      | Inl idx \<Rightarrow>
          (let es' = vec_insert idx (k, v) es
           in if length es' \<le> MAX_ENTRIES then Some (BLeaf es', None, None)
              else (let (l, s) = split_leaf es' in Some (l, s, None))))"
| "insert_transient_helper (BInternal es cs) k v =
     (case binary_search (map fst es) k of
        Inr idx \<Rightarrow> Some (BInternal (es[idx := (fst (es ! idx), v)]) cs, None, Some (snd (es ! idx)))
      | Inl idx \<Rightarrow>
          (if idx < length cs then
             (case insert_transient_helper (cs ! idx) k v of
                None \<Rightarrow> None
              | Some (child, None, prev) \<Rightarrow>
                  (let cs' = cs[idx := child]
                   in if length cs' \<le> MAX_CHILDREN then Some (BInternal es cs', None, prev)
                      else (let (l, s) = split_internal es cs' in Some (l, s, prev)))
              | Some (child, Some (right, median), prev) \<Rightarrow>
                  (let es' = vec_insert idx median es; cs' = vec_insert (Suc idx) right (cs[idx := child])
                   in if length cs' \<le> MAX_CHILDREN then Some (BInternal es' cs', None, prev)
                      else (let (l, s) = split_internal es' cs' in Some (l, s, prev))))
           else None))"

section \<open>In-order contents and shape\<close>

fun weave :: "'a list list \<Rightarrow> 'a list \<Rightarrow> 'a list" where
  "weave [] es = []"
| "weave (c # cs) [] = c"
| "weave (c # cs) (e # es) = c @ e # weave cs es"

text \<open>The contents left of a child and right of it.\<close>

fun before :: "'a list list \<Rightarrow> 'a list \<Rightarrow> 'a list" where
  "before (c # cs) (e # es) = c @ e # before cs es"
| "before _ _ = []"

fun behind :: "'a list \<Rightarrow> 'a list list \<Rightarrow> 'a list" where
  "behind (e # es) (c # cs) = e # c @ behind es cs"
| "behind _ _ = []"

fun inorder :: "('k, 'v) bnode \<Rightarrow> ('k \<times> 'v) list" where
  "inorder (BLeaf es) = es"
| "inorder (BInternal es cs) = weave (map inorder cs) es"

abbreviation keys_ascending :: "('k::linorder \<times> 'v) list \<Rightarrow> bool" where
  "keys_ascending xs \<equiv> ascending (map fst xs)"

text \<open>
  The documented shape: leaves at one depth \<open>d\<close>, at most \<open>MAX_ENTRIES\<close> entries in a node, one
  more child than entries, at least \<open>m\<close> entries in this node and at least \<open>lo\<close> in every
  node below.
\<close>

fun shape :: "nat \<Rightarrow> nat \<Rightarrow> nat \<Rightarrow> ('k, 'v) bnode \<Rightarrow> bool" where
  "shape m lo d (BLeaf es) = (d = 0 \<and> m \<le> length es \<and> length es \<le> MAX_ENTRIES)"
| "shape m lo d (BInternal es cs) =
     (0 < d \<and> m \<le> length es \<and> length es \<le> MAX_ENTRIES \<and> length cs = Suc (length es)
      \<and> (\<forall>c\<in>set cs. shape lo lo (d - 1) c))"

lemma weave_parts:
  assumes "length as = length xs" "length bs = length ys"
  shows "weave (as @ c # bs) (xs @ ys) = before as xs @ c @ behind ys bs"
proof -
  have "weave (c # bs) ys = c @ behind ys bs"
    using assms(2) by (induction bs ys arbitrary: c rule: list_induct2) auto
  with assms(1) show ?thesis by (induction as xs rule: list_induct2) auto
qed

lemma weave_append:
  assumes "length as = Suc (length xs)"
  shows "weave (as @ bs) (xs @ m # ys) = weave as xs @ m # weave bs ys"
  using assms
proof (induction xs arbitrary: as)
  case Nil
  then show ?case by (auto simp: length_Suc_conv)
next
  case (Cons x xs)
  then obtain a as' where "as = a # as'" "length as' = Suc (length xs)" by (cases as) auto
  with Cons.IH[of as'] show ?case by (cases as') auto
qed

lemma child_split:
  assumes "i \<le> length es" "length cs = Suc (length es)"
  obtains as c bs xs ys where "cs = as @ c # bs" "es = xs @ ys" "length as = i" "length xs = i"
    "length bs = length ys" "cs ! i = c"
proof
  show "cs = take i cs @ cs ! i # drop (Suc i) cs" using assms by (simp add: id_take_nth_drop)
  show "es = take i es @ drop i es" by simp
qed (use assms in auto)

lemma before_below:
  assumes "length as = length xs" "keys_ascending (before as xs @ rest)" "\<forall>e\<in>set xs. fst e < k"
  shows "\<forall>e\<in>set (before as xs). fst e < k"
  using assms
proof (induction as xs rule: list_induct2)
  case (Cons c as e xs)
  then show ?case by (auto simp: sorted_wrt_append)
qed simp

lemma behind_above:
  assumes "length ys = length bs" "keys_ascending (behind ys bs)" "\<forall>e\<in>set ys. k < fst e"
  shows "\<forall>e\<in>set (behind ys bs). k < fst e"
  using assms
proof (induction ys bs rule: list_induct2)
  case (Cons e ys c bs)
  have "\<forall>x\<in>set c. fst e < fst x" using Cons.prems(1) by (auto simp: sorted_wrt_append)
  moreover have "k < fst e" using Cons.prems(2) by simp
  ultimately have "\<forall>x\<in>set c. k < fst x" by (metis less_trans)
  with Cons show ?case by (simp add: sorted_wrt_append ball_Un)
qed simp

lemma length_before_behind:
  "length as = length xs \<Longrightarrow> length (before as xs) = length xs + sum_list (map length as)"
  "length ys = length bs \<Longrightarrow> length (behind ys bs) = length ys + sum_list (map length bs)"
  by (induction as xs rule: list_induct2; simp) (induction ys bs rule: list_induct2; simp)

lemma set_before: "length as = length xs \<Longrightarrow> set xs \<subseteq> set (before as xs)"
  by (induction as xs rule: list_induct2) auto

lemma set_behind: "length ys = length bs \<Longrightarrow> set ys \<subseteq> set (behind ys bs)"
  by (induction ys bs rule: list_induct2) auto

subsection \<open>Ascending lists around one child\<close>

lemma bm_insert_mid:
  assumes "\<forall>e\<in>set l. fst e < k" "\<forall>e\<in>set r. k < fst e"
  shows "bm_insert k v (l @ c @ r) = l @ bm_insert k v c @ r"
proof -
  have r: "bm_insert k v r = (k, v) # r" using assms(2) by (cases r) auto
  have "bm_insert k v (c @ r) = bm_insert k v c @ r"
  proof (induction c)
    case (Cons e c)
    then show ?case by (cases e) auto
  qed (simp add: r)
  with assms(1) show ?thesis
  proof (induction l)
    case (Cons e l)
    then show ?case by (cases e) auto
  qed simp
qed

lemma bm_get_mid:
  assumes "\<forall>e\<in>set l. fst e < k" "\<forall>e\<in>set r. k < fst e"
  shows "bm_get (l @ c @ r) k = bm_get c k"
proof -
  have "map_of l k = None" "map_of r k = None" using assms by (force simp: map_of_eq_None_iff)+
  then show ?thesis by (auto simp: bm_get_def map_add_def split: option.splits)
qed

lemma bm_remove_mid:
  assumes "\<forall>e\<in>set l. fst e < k" "\<forall>e\<in>set r. k < fst e"
  shows "bm_remove k (l @ c @ r) = l @ bm_remove k c @ r"
proof -
  have "filter (\<lambda>e. fst e \<noteq> k) l = l" "filter (\<lambda>e. fst e \<noteq> k) r = r"
    using assms by (auto simp: filter_id_conv)
  then show ?thesis by (simp add: bm_remove_def)
qed

lemma bm_insert_hit:
  assumes "\<forall>e\<in>set l. fst e < k"
  shows "bm_insert k v (l @ (k, w) # r) = l @ (k, v) # r"
  using assms
proof (induction l)
  case (Cons e l)
  then show ?case by (cases e) auto
qed simp

lemma bm_get_hit: "\<forall>e\<in>set l. fst e < k \<Longrightarrow> bm_get (l @ (k, w) # r) k = Some w"
  by (induction l) (auto simp: bm_get_def)

text \<open>
  What a descent at slot \<open>i\<close> of an internal node knows: the contents split around the child,
  with smaller keys before it and greater keys behind it.
\<close>

lemma descend_slot:
  assumes "shape m lo d (BInternal es cs)" "keys_ascending (inorder (BInternal es cs))"
    and "i \<le> length es" "\<forall>j<i. fst (es ! j) < k" "\<forall>j. i \<le> j \<and> j < length es \<longrightarrow> k < fst (es ! j)"
  obtains as c bs xs ys where "cs = as @ c # bs" "es = xs @ ys" "length as = i" "length xs = i"
    "length bs = length ys" "shape lo lo (d - 1) c" "keys_ascending (inorder c)"
    "inorder (BInternal es cs) = before (map inorder as) xs @ inorder c @ behind ys (map inorder bs)"
    "\<forall>e\<in>set (before (map inorder as) xs). fst e < k" "\<forall>e\<in>set (behind ys (map inorder bs)). k < fst e"
proof -
  from assms have "length cs = Suc (length es)" by simp
  with assms(3) obtain as c bs xs ys where s: "cs = as @ c # bs" "es = xs @ ys" "length as = i" "length xs = i"
    "length bs = length ys" by (rule child_split)
  have io: "inorder (BInternal es cs) = before (map inorder as) xs @ inorder c @ behind ys (map inorder bs)"
    using s weave_parts[of "map inorder as" xs "map inorder bs" ys "inorder c"] by simp
  have lo: "\<forall>e\<in>set xs. fst e < k"
    using assms(4) s by (auto simp: in_set_conv_nth nth_append) (metis fst_conv)
  have hi: "\<forall>e\<in>set ys. k < fst e"
  proof
    fix e assume "e \<in> set ys"
    then obtain j where "j < length ys" "ys ! j = e" by (auto simp: in_set_conv_nth)
    with assms(5) s show "k < fst e" using assms(5)[rule_format, of "i + j"] by (simp add: nth_append)
  qed
  have a: "keys_ascending (before (map inorder as) xs @ inorder c @ behind ys (map inorder bs))"
    using assms(2) io by simp
  have "\<forall>e\<in>set (before (map inorder as) xs). fst e < k"
    by (rule before_below[OF _ a lo]) (use s in simp)
  moreover have "\<forall>e\<in>set (behind ys (map inorder bs)). k < fst e"
    by (rule behind_above[OF _ _ hi]) (use s a in \<open>auto simp: sorted_wrt_append\<close>)
  moreover have "keys_ascending (inorder c)" using a by (simp add: sorted_wrt_append)
  moreover have "shape lo lo (d - 1) c" using assms(1) s by simp
  ultimately show thesis using that s io by blast
qed


lemma set_weave: "length cs = Suc (length es) \<Longrightarrow> set es \<subseteq> set (weave cs es)"
  by (induction cs es rule: weave.induct) auto

lemma ascending_entries:
  assumes "length cs = Suc (length es)" "keys_ascending (weave cs es)"
  shows "keys_ascending es"
  using assms
proof (induction cs es rule: weave.induct)
  case (3 c cs e es)
  then have "set es \<subseteq> set (weave cs es)" by (simp add: set_weave)
  with 3 show ?case by (auto simp: sorted_wrt_append)
qed simp_all

lemma node_entries_ascending:
  assumes "shape m lo d t" "keys_ascending (inorder t)" "t = BInternal es cs"
  shows "keys_ascending es"
  using assms ascending_entries[of "map inorder cs" es] by simp

lemma search_descend:
  assumes "shape m lo d (BInternal es cs)" "keys_ascending (inorder (BInternal es cs))"
    and "binary_search (map fst es) k = Inl i"
  obtains as c bs xs ys where "cs = as @ c # bs" "es = xs @ ys" "length as = i" "length xs = i"
    "length bs = length ys" "shape lo lo (d - 1) c" "keys_ascending (inorder c)"
    "inorder (BInternal es cs) = before (map inorder as) xs @ inorder c @ behind ys (map inorder bs)"
    "\<forall>e\<in>set (before (map inorder as) xs). fst e < k" "\<forall>e\<in>set (behind ys (map inorder bs)). k < fst e"
proof -
  have a: "keys_ascending es" by (rule node_entries_ascending[OF assms(1,2) refl])
  note l = binary_search_Inl[OF a assms(3)]
  have "i \<le> length es" "\<forall>j<i. fst (es ! j) < k" "\<forall>j. i \<le> j \<and> j < length es \<longrightarrow> k < fst (es ! j)"
    using l by auto
  from descend_slot[OF assms(1,2) this] that show thesis .
qed

text \<open>What a hit at slot \<open>i\<close> of an internal node knows.\<close>

lemma found_slot:
  assumes "shape m lo d (BInternal es cs)" "keys_ascending (inorder (BInternal es cs))" "i < length es"
  obtains as bs xs ys where "cs = as @ bs" "es = xs @ es ! i # ys" "length as = Suc i" "length xs = i"
    "length bs = Suc (length ys)"
    "inorder (BInternal es cs) = weave (map inorder as) xs @ es ! i # weave (map inorder bs) ys"
    "\<forall>e\<in>set (weave (map inorder as) xs). fst e < fst (es ! i)"
    "\<forall>e\<in>set (weave (map inorder bs) ys). fst (es ! i) < fst e"
proof -
  define as bs xs ys where "as = take (Suc i) cs" and "bs = drop (Suc i) cs"
    and "xs = take i es" and "ys = drop (Suc i) es"
  have s: "cs = as @ bs" "es = xs @ es ! i # ys" "length as = Suc i" "length xs = i"
    "length bs = Suc (length ys)"
    using assms(1,3) by (auto simp: as_def bs_def xs_def ys_def id_take_nth_drop)
  have io: "inorder (BInternal es cs) = weave (map inorder as) xs @ es ! i # weave (map inorder bs) ys"
    using weave_append[of "map inorder as" xs "map inorder bs" "es ! i" ys] s by simp
  then have "\<forall>e\<in>set (weave (map inorder as) xs). fst e < fst (es ! i)"
    "\<forall>e\<in>set (weave (map inorder bs) ys). fst (es ! i) < fst e"
    using assms(2) by (auto simp: sorted_wrt_append)
  then show thesis using that s io by blast
qed

section \<open>Searching is looking up\<close>

lemma linear_find_from_spec:
  assumes "keys_ascending es"
  shows "(case linear_find_from n es k of
           Some i \<Rightarrow> n \<le> i \<and> i - n < length es \<and> fst (es ! (i - n)) = k
         | None \<Rightarrow> k \<notin> fst ` set es)"
  using assms
proof (induction n es k rule: linear_find_from.induct)
  case (2 n a v es k)
  then show ?case
    by (auto split: option.splits simp: nth_Cons' Suc_diff_le) force+
qed simp

lemma linear_find_entry_Some:
  "keys_ascending es \<Longrightarrow> linear_find_entry es k = Some i \<Longrightarrow> i < length es \<and> fst (es ! i) = k"
  using linear_find_from_spec[of es k 0] by (simp add: linear_find_entry_def)

lemma linear_find_entry_None:
  "keys_ascending es \<Longrightarrow> linear_find_entry es k = None \<Longrightarrow> k \<notin> fst ` set es"
  using linear_find_from_spec[of es k 0] by (simp add: linear_find_entry_def)

lemma linear_position_binary_search:
  assumes "keys_ascending es"
  shows "linear_position_internal es k =
           (case binary_search (map fst es) k of Inr i \<Rightarrow> Found i | Inl i \<Rightarrow> Descend i)"
proof -
  have gen: "linear_position_from n es k =
      (case r of Inr i \<Rightarrow> Found (n + i) | Inl i \<Rightarrow> Descend (n + i))"
    if "case r of Inr i \<Rightarrow> i < length es \<and> fst (es ! i) = k
      | Inl i \<Rightarrow> i \<le> length es \<and> (\<forall>j<i. fst (es ! j) < k) \<and> (\<forall>j. i \<le> j \<and> j < length es \<longrightarrow> k < fst (es ! j))"
      "keys_ascending es" for n r and es :: "('a \<times> 'b) list"
    using that
  proof (induction n es k arbitrary: r rule: linear_position_from.induct)
    case (1 i key)
    then show ?case by (auto split: sum.splits)
  next
    case (2 n a v es k)
    show ?case
    proof (cases r)
      case (Inl i)
      show ?thesis
      proof (cases i)
        case 0
        with 2(2) Inl show ?thesis by (auto dest: spec[of _ 0])
      next
        case (Suc i')
        then have "a < k" using 2(2) Inl by auto
        moreover have "\<forall>j<i'. fst (es ! j) < k" "\<forall>j. i' \<le> j \<and> j < length es \<longrightarrow> k < fst (es ! j)"
          using 2(2) Inl Suc by (auto dest: spec[of _ "Suc _"])
        ultimately show ?thesis using 2(1)[of "Inl i'"] 2(2,3) Inl Suc by auto
      qed
    next
      case (Inr i)
      show ?thesis
      proof (cases i)
        case 0
        with 2(2) Inr show ?thesis by auto
      next
        case (Suc i')
        then have "a < k" using 2(2,3) Inr by auto
        then show ?thesis using 2(1)[of "Inr i'"] 2(2,3) Inr Suc by auto
      qed
    qed
  qed
  show ?thesis
    unfolding linear_position_internal_def
    using gen[of es "binary_search (map fst es) k" 0] binary_search_correct[OF assms, of k] assms
    by (auto split: sum.splits)
qed

lemmas node_search = binary_search_Inr[of "map fst es" for es] binary_search_Inl[of "map fst es" for es]

lemma get_node_correct:
  assumes "shape m lo d t" "keys_ascending (inorder t)"
  shows "get_node t k = Some (bm_get (inorder t) k)"
  using assms
proof (induction t k arbitrary: m d rule: get_node.induct)
  case (1 es key)
  then have a: "keys_ascending es" by simp
  show ?case
  proof (cases "linear_find_entry es key")
    case None
    with linear_find_entry_None[OF a None] show ?thesis
      by (metis (no_types) None bm_get_def get_node.simps(1) inorder.simps(1) map_of_eq_None_iff option.simps(8))
  next
    case (Some i)
    with linear_find_entry_Some[OF a Some] have "(key, snd (es ! i)) \<in> set es"
      by (metis nth_mem prod.collapse)
    with a Some show ?thesis by (simp add: bm_in_get bm_inv_def)
  qed
next
  case (2 es cs key)
  have a: "keys_ascending es" by (rule node_entries_ascending[OF 2(2,3) refl])
  show ?case
  proof (cases "binary_search (map fst es) key")
    case (Inl i)
    obtain as c bs xs ys where s: "cs = as @ c # bs" "es = xs @ ys" "length as = i" "length xs = i"
      "length bs = length ys" "shape lo lo (d - 1) c" "keys_ascending (inorder c)"
      "inorder (BInternal es cs) = before (map inorder as) xs @ inorder c @ behind ys (map inorder bs)"
      "\<forall>e\<in>set (before (map inorder as) xs). fst e < key" "\<forall>e\<in>set (behind ys (map inorder bs)). key < fst e"
      by (rule search_descend[OF 2(2,3) Inl])
    have lp: "linear_position_internal es key = Descend i"
      using Inl by (simp add: linear_position_binary_search[OF a])
    have ci: "cs ! i = c" "i < length cs" using s(1,3) by auto
    have "get_node c key = Some (bm_get (inorder c) key)"
      using 2(1)[OF lp ci(2)] s(6,7) ci(1) by simp
    then show ?thesis
      unfolding get_node.simps lp s(8) bm_get_mid[OF s(9,10)] by (simp add: ci)
  next
    case (Inr i)
    then have i: "i < length es" "fst (es ! i) = key" using binary_search_Inr[OF a Inr] by auto
    from found_slot[OF 2(2,3) i(1)] obtain as bs xs ys where
      "inorder (BInternal es cs) = weave (map inorder as) xs @ es ! i # weave (map inorder bs) ys"
      "\<forall>e\<in>set (weave (map inorder as) xs). fst e < fst (es ! i)" by metis
    then have "bm_get (inorder (BInternal es cs)) key = Some (snd (es ! i))"
      using bm_get_hit[of _ key "snd (es ! i)"] i by (metis prod.collapse)
    with Inr show ?thesis by (simp add: linear_position_binary_search[OF a] del: inorder.simps)
  qed
qed


text \<open>The in-place worker leaves the node the path-copying worker builds.\<close>

lemma insert_transient_eq: "insert_transient_helper t k v = insert_helper t k v"
proof (induction t k v rule: insert_helper.induct)
  case (1 es k v)
  show ?case by (simp add: Let_def split: sum.splits)
next
  case (2 es cs k v)
  then show ?case by (auto simp: Let_def split: sum.splits option.splits)
qed

section \<open>Inserting\<close>

lemma split_leaf_correct:
  assumes "length es = 8" "split_leaf es = (l, s)"
  shows "\<exists>r e. s = Some (r, e) \<and> shape 3 lo 0 l \<and> shape 3 lo 0 r \<and> inorder l @ e # inorder r = es"
proof -
  have "take 5 es \<noteq> []" using assms(1) by auto
  then have "butlast (take 5 es) @ last (take 5 es) # drop 5 es = es"
    by (metis append_butlast_last_id append_take_drop_id append.assoc append_Cons append_Nil)
  with assms show ?thesis by (auto simp: split_leaf_def Let_def simp del: split_paired_Ex)
qed

lemma split_internal_correct:
  assumes "length es = 8" "length cs = 9" "\<forall>c\<in>set cs. shape lo lo (d - 1) c" "0 < d"
    and "split_internal es cs = (l, s)"
  shows "\<exists>r e. s = Some (r, e) \<and> shape 3 lo d l \<and> shape 3 lo d r
           \<and> inorder l @ e # inorder r = weave (map inorder cs) es"
proof -
  have "take 5 es \<noteq> []" using assms(1) by auto
  then have e: "es = butlast (take 5 es) @ last (take 5 es) # drop 5 es"
    by (metis append_butlast_last_id append_take_drop_id append.assoc append_Cons append_Nil)
  have "weave (map inorder (take 5 cs) @ map inorder (drop 5 cs)) (butlast (take 5 es) @ last (take 5 es) # drop 5 es)
      = weave (map inorder (take 5 cs)) (butlast (take 5 es)) @ last (take 5 es)
          # weave (map inorder (drop 5 cs)) (drop 5 es)"
    by (rule weave_append) (use assms in simp)
  then have "weave (map inorder cs) es = weave (map inorder (take 5 cs)) (butlast (take 5 es))
      @ last (take 5 es) # weave (map inorder (drop 5 cs)) (drop 5 es)"
    using e by (metis append_take_drop_id map_append)
  moreover have "set (take 5 cs) \<subseteq> set cs" "set (drop 5 cs) \<subseteq> set cs"
    by (rule set_take_subset, rule set_drop_subset)
  ultimately show ?thesis using assms by (auto simp: split_internal_def Let_def subset_iff simp del: split_paired_Ex)
qed

lemma leaf_insert:
  assumes "keys_ascending es"
  shows "case binary_search (map fst es) k of
      Inr i \<Rightarrow> i < length es \<and> es[i := (fst (es ! i), v)] = bm_insert k v es \<and> bm_get es k = Some (snd (es ! i))
    | Inl i \<Rightarrow> i \<le> length es \<and> vec_insert i (k, v) es = bm_insert k v es \<and> bm_get es k = None"
proof (cases "binary_search (map fst es) k")
  case (Inl i)
  from binary_search_Inl[OF assms Inl] have i: "i \<le> length es" "\<forall>j<i. fst (es ! j) < k"
    "\<forall>j. i \<le> j \<and> j < length es \<longrightarrow> k < fst (es ! j)" by auto
  have l: "\<forall>e\<in>set (take i es). fst e < k" by (rule ball_take_nth) (use i in auto)
  have r: "\<forall>e\<in>set (drop i es). k < fst e" by (rule ball_drop_nth) (use i in auto)
  from bm_insert_mid[OF l r, of v "[]"] bm_get_mid[OF l r, of "[]"] i(1) Inl show ?thesis
    by (simp add: vec_insert_def bm_get_def)
next
  case (Inr i)
  from binary_search_Inr[OF assms Inr] have i: "i < length es" "fst (es ! i) = k" by auto
  define w where "w = snd (es ! i)"
  have e: "es = take i es @ (k, w) # drop (Suc i) es" using i by (auto simp: w_def id_take_nth_drop)
  have "keys_ascending (take i es @ (k, w) # drop (Suc i) es)" using assms e by metis
  then have "\<forall>e\<in>set (take i es). fst e < k" by (auto simp: sorted_wrt_append)
  from bm_insert_hit[OF this, of v w] bm_get_hit[OF this, of w] e i
  have "bm_insert k v es = take i es @ (k, v) # drop (Suc i) es" "bm_get es k = Some w" by metis+
  with Inr i show ?thesis by (simp add: w_def upd_conv_take_nth_drop)
qed

text \<open>The result of an insert worker: one node, or two around a median, with the contents \<open>xs\<close>.\<close>

definition insert_ok :: "nat \<Rightarrow> nat \<Rightarrow> nat \<Rightarrow> ('k \<times> 'v) list \<Rightarrow> ('k, 'v) bnode \<Rightarrow> ('k, 'v) split \<Rightarrow> bool" where
  "insert_ok m lo d xs l s =
     (case s of
        None \<Rightarrow> shape m lo d l \<and> inorder l = xs
      | Some (r, e) \<Rightarrow> shape 3 lo d l \<and> shape 3 lo d r \<and> inorder l @ e # inorder r = xs)"

lemma insert_ok_simps [simp]:
  "insert_ok m lo d xs l None \<longleftrightarrow> shape m lo d l \<and> inorder l = xs"
  "insert_ok m lo d xs l (Some (r, e)) \<longleftrightarrow> shape 3 lo d l \<and> shape 3 lo d r \<and> inorder l @ e # inorder r = xs"
  by (simp_all add: insert_ok_def)

lemma shape_weaken: "shape m lo d t \<Longrightarrow> m' \<le> m \<Longrightarrow> shape m' lo d t"
  by (cases t) auto

lemma leaf_insert_result:
  assumes "shape m lo 0 (BLeaf es)" "m \<le> 3" "keys_ascending es"
  shows "\<exists>l s. insert_helper (BLeaf es) k v = Some (l, s, bm_get es k)
      \<and> insert_ok m lo 0 (bm_insert k v es) l s"
proof (cases "binary_search (map fst es) k")
  case (Inl i)
  with leaf_insert[OF assms(3), of k v] have i: "i \<le> length es" "vec_insert i (k, v) es = bm_insert k v es" "bm_get es k = None"
    by auto
  have len: "length (bm_insert k v es) = Suc (length es)" using i by (metis length_vec_insert)
  show ?thesis
  proof (cases "length es = 7")
    case False
    with Inl i len assms show ?thesis by simp
  next
    case True
    obtain l s where ls: "split_leaf (bm_insert k v es) = (l, s)" by fastforce
    from split_leaf_correct[OF _ ls, of lo] len True
    have "\<exists>r e. s = Some (r, e) \<and> shape 3 lo 0 l \<and> shape 3 lo 0 r \<and> inorder l @ e # inorder r = bm_insert k v es"
      by simp
    with Inl i len ls True show ?thesis by auto
  qed
next
  case (Inr i)
  with leaf_insert[OF assms(3), of k v] have i: "i < length es" "es[i := (fst (es ! i), v)] = bm_insert k v es"
    "bm_get es k = Some (snd (es ! i))" by auto
  have "length (bm_insert k v es) = length es" using i by (metis length_list_update)
  with Inr i assms show ?thesis by simp
qed


lemma internal_insert_hit:
  assumes "shape m lo d (BInternal es cs)" "keys_ascending (inorder (BInternal es cs))"
    and "binary_search (map fst es) k = Inr i"
  shows "\<exists>l s. insert_helper (BInternal es cs) k v = Some (l, s, bm_get (inorder (BInternal es cs)) k)
      \<and> insert_ok m lo d (bm_insert k v (inorder (BInternal es cs))) l s"
proof -
  have a: "keys_ascending es" by (rule node_entries_ascending[OF assms(1,2) refl])
  have i: "i < length es" "fst (es ! i) = k" using binary_search_Inr[OF a assms(3)] by auto
  obtain as bs xs ys where s: "cs = as @ bs" "es = xs @ es ! i # ys" "length as = Suc i" "length xs = i"
    "length bs = Suc (length ys)"
    "inorder (BInternal es cs) = weave (map inorder as) xs @ es ! i # weave (map inorder bs) ys"
    "\<forall>e\<in>set (weave (map inorder as) xs). fst e < fst (es ! i)"
    "\<forall>e\<in>set (weave (map inorder bs) ys). fst (es ! i) < fst e"
    by (rule found_slot[OF assms(1,2) i(1)])
  define w where "w = snd (es ! i)"
  have ei: "es ! i = (k, w)" using i by (simp add: w_def prod_eq_iff)
  have lt: "\<forall>e\<in>set (weave (map inorder as) xs). fst e < k" using s(7) i by simp
  have "es[i := (k, v)] = xs @ (k, v) # ys" using s(2,4) by (metis list_update_length)
  then have "inorder (BInternal (es[i := (k, v)]) cs) = weave (map inorder as) xs @ (k, v) # weave (map inorder bs) ys"
    using weave_append[of "map inorder as" xs "map inorder bs" "(k, v)" ys] s(1,3,4) by simp
  also have "\<dots> = bm_insert k v (inorder (BInternal es cs))"
    unfolding s(6) ei using bm_insert_hit[OF lt] by simp
  finally have "inorder (BInternal (es[i := (k, v)]) cs) = bm_insert k v (inorder (BInternal es cs))" .
  moreover have "bm_get (inorder (BInternal es cs)) k = Some w"
    unfolding s(6) ei by (rule bm_get_hit[OF lt])
  ultimately show ?thesis using assms i ei by (simp del: inorder.simps)
qed

lemma internal_insert_finish:
  fixes as bs :: "('k, 'v) bnode list"
  assumes "length as = i" "length xs = i" "length bs = length ys" "length (xs @ ys) \<le> 7" "0 < d"
    and "m \<le> length (xs @ ys)" "lo \<le> 3" "\<forall>c\<in>set (as @ bs). shape lo lo (d - 1) c"
    and "shape 3 lo (d - 1) l" "shape 3 lo (d - 1) r"
    and "es' = vec_insert i e (xs @ ys)" "cs' = vec_insert (Suc i) r (as @ l # bs)"
  shows "length cs' \<le> 8 \<Longrightarrow> shape m lo d (BInternal es' cs')"
    and "\<not> length cs' \<le> 8 \<Longrightarrow> split_internal es' cs' = (l', s) \<Longrightarrow>
      insert_ok m lo d (weave (map inorder cs') es') l' s"
    and "weave (map inorder cs') es' = before (map inorder as) xs @ (inorder l @ e # inorder r) @ behind ys (map inorder bs)"
proof -
  have es': "es' = xs @ e # ys" using assms(2,11) by (simp add: vec_insert_def)
  have cs': "cs' = as @ l # r # bs" using assms(1,12) by (simp add: vec_insert_def)
  have sh: "\<forall>c\<in>set cs'. shape lo lo (d - 1) c"
    using assms(7-10) shape_weaken[of 3 lo "d - 1"] unfolding cs' by auto
  then show "length cs' \<le> 8 \<Longrightarrow> shape m lo d (BInternal es' cs')" using assms(1-6) by (simp add: es' cs')
  show "insert_ok m lo d (weave (map inorder cs') es') l' s"
    if "\<not> length cs' \<le> 8" "split_internal es' cs' = (l', s)"
  proof -
    have "length es' = 8" "length cs' = 9" using that assms(1-4) by (auto simp: es' cs')
    from split_internal_correct[OF this sh assms(5) that(2)] show ?thesis by (auto simp del: split_paired_Ex)
  qed
  show "weave (map inorder cs') es' = before (map inorder as) xs @ (inorder l @ e # inorder r) @ behind ys (map inorder bs)"
    using weave_parts[of "map inorder as" xs "inorder r # map inorder bs" "e # ys" "inorder l"] assms(1-3)
    by (simp add: es' cs')
qed

lemma insert_helper_correct:
  assumes "shape m lo d t" "m \<le> 3" "lo \<le> 3" "keys_ascending (inorder t)"
  shows "\<exists>l s. insert_helper t k v = Some (l, s, bm_get (inorder t) k)
      \<and> insert_ok m lo d (bm_insert k v (inorder t)) l s"
  using assms
proof (induction t k v arbitrary: m d rule: insert_helper.induct)
  case (1 es k v)
  then have "d = 0" by simp
  with 1 leaf_insert_result[of m lo es k v] show ?case unfolding inorder.simps by blast
next
  case (2 es cs k v)
  show ?case
  proof (cases "binary_search (map fst es) k")
    case (Inr i)
    show ?thesis by (rule internal_insert_hit[OF 2(2,5) Inr])
  next
    case (Inl i)
    obtain as c bs xs ys where s: "cs = as @ c # bs" "es = xs @ ys" "length as = i" "length xs = i"
      "length bs = length ys" "shape lo lo (d - 1) c" "keys_ascending (inorder c)"
      "inorder (BInternal es cs) = before (map inorder as) xs @ inorder c @ behind ys (map inorder bs)"
      "\<forall>e\<in>set (before (map inorder as) xs). fst e < k" "\<forall>e\<in>set (behind ys (map inorder bs)). k < fst e"
      by (rule search_descend[OF 2(2,5) Inl])
    have ci: "i < length cs" "cs ! i = c" "cs[i := l] = as @ l # bs" for l using s by auto
    from 2(1)[OF Inl ci(1), of lo "d - 1"] ci s(6,7) 2(4) obtain l sp where
      ih: "insert_helper c k v = Some (l, sp, bm_get (inorder c) k)"
      "insert_ok lo lo (d - 1) (bm_insert k v (inorder c)) l sp"
      by auto
    have sz: "length (xs @ ys) \<le> 7" "0 < d" "m \<le> length (xs @ ys)" "\<forall>c\<in>set (as @ bs). shape lo lo (d - 1) c"
      using 2(2) s(1,2) by auto
    note mid = bm_insert_mid[OF s(9,10)] bm_get_mid[OF s(9,10)]
    show ?thesis
    proof (cases sp)
      case None
      have "weave (map inorder (as @ l # bs)) (xs @ ys) = bm_insert k v (inorder (BInternal es cs))"
        unfolding s(8) mid using weave_parts[of "map inorder as" xs "map inorder bs" ys "inorder l"] s(3-5) ih(2) None by simp
      moreover have "shape m lo d (BInternal (xs @ ys) (as @ l # bs))" using sz ih(2) None s(3-5) by simp
      moreover have "insert_helper (BInternal es cs) k v = Some (BInternal (xs @ ys) (as @ l # bs), None, bm_get (inorder (BInternal es cs)) k)"
        unfolding s(8) mid using Inl ci ih(1) None sz s(1-5) by simp
      ultimately show ?thesis by simp
    next
      case (Some re)
      then obtain r e where sp: "sp = Some (r, e)" by (cases re) auto
      define es' where "es' = vec_insert i e (xs @ ys)"
      define cs' where "cs' = vec_insert (Suc i) r (as @ l # bs)"
      from ih(2) sp have lr: "shape 3 lo (d - 1) l" "shape 3 lo (d - 1) r" by auto
      note fin = internal_insert_finish[OF s(3-5) sz(1-3) 2(4) sz(4) lr es'_def cs'_def]
      have w: "weave (map inorder cs') es' = bm_insert k v (inorder (BInternal es cs))"
        unfolding s(8) mid fin(3) using ih(2) sp by simp
      have g: "bm_get (inorder c) k = bm_get (inorder (BInternal es cs)) k" unfolding s(8) mid ..
      have st: "insert_helper (BInternal es cs) k v =
          (if length cs' \<le> 8 then Some (BInternal es' cs', None, bm_get (inorder (BInternal es cs)) k)
           else (let (l, s) = split_internal es' cs' in Some (l, s, bm_get (inorder (BInternal es cs)) k)))"
        using Inl ci ih(1) sp g by (simp add: es'_def cs'_def s(2)[symmetric] del: inorder.simps)
      show ?thesis
      proof (cases "length cs' \<le> 8")
        case True
        with st w fin(1) show ?thesis by simp
      next
        case False
        obtain l' s' where ls: "split_internal es' cs' = (l', s')" by fastforce
        from fin(2)[OF False ls] w st False ls show ?thesis by simp
      qed
    qed
  qed
qed

end
