(* ===== verification/BTree_Reads.thy ===== *)
theory BTree_Reads
  imports BTree_Node
begin

text \<open>
  Reading the B-tree beyond \<open>get\<close>: \<open>predecessor\<close> and the in-place edit through \<open>get_mut\<close>,
  with the lemma on cutting a node at a downward closed predicate.
\<close>

section \<open>Reading around a cut\<close>

text \<open>
  A predicate on keys that holds up to some point of the order; the descents of
  \<open>predecessor\<close>, \<open>range\<close> and \<open>range_rev_by\<close> all follow such a cut.
\<close>

definition down_closed :: "('k::linorder \<Rightarrow> bool) \<Rightarrow> bool" where
  "down_closed P = (\<forall>a b. a < b \<longrightarrow> P b \<longrightarrow> P a)"

lemma before_cut:
  assumes "length as = length xs" "keys_ascending (before as xs @ rest)" "\<forall>e\<in>set xs. P (fst e)" "down_closed P"
  shows "\<forall>e\<in>set (before as xs). P (fst e)"
  using assms
proof (induction as xs rule: list_induct2)
  case (Cons c as e xs)
  have "\<forall>x\<in>set c. fst x < fst e" using Cons.prems(1) by (auto simp: sorted_wrt_append)
  moreover have "P (fst e)" using Cons.prems(2) by simp
  ultimately have "\<forall>x\<in>set c. P (fst x)" using assms(4) unfolding down_closed_def by blast
  with Cons show ?case by (simp add: sorted_wrt_append ball_Un)
qed simp

lemma behind_cut:
  assumes "length ys = length bs" "keys_ascending (behind ys bs)" "\<forall>e\<in>set ys. \<not> P (fst e)" "down_closed P"
  shows "\<forall>e\<in>set (behind ys bs). \<not> P (fst e)"
  using assms
proof (induction ys bs rule: list_induct2)
  case (Cons e ys c bs)
  have "\<forall>x\<in>set c. fst e < fst x" using Cons.prems(1) by (auto simp: sorted_wrt_append)
  moreover have "\<not> P (fst e)" using Cons.prems(2) by simp
  ultimately have "\<forall>x\<in>set c. \<not> P (fst x)" using assms(4) unfolding down_closed_def by blast
  with Cons show ?case by (simp add: sorted_wrt_append ball_Un)
qed simp

lemma takeWhile_cut:
  assumes "keys_ascending es" "down_closed P"
  shows "takeWhile (\<lambda>e. P (fst e)) es = filter (\<lambda>e. P (fst e)) es"
  using assms
proof (induction es)
  case (Cons e es)
  show ?case
  proof (cases "P (fst e)")
    case False
    then have "\<forall>x\<in>set es. \<not> P (fst x)" using Cons.prems unfolding down_closed_def by auto
    with False show ?thesis by (simp add: filter_empty_conv)
  qed (use Cons in simp)
qed simp

lemma partition_slot:
  assumes "shape m lo d (BInternal es cs)" "keys_ascending (inorder (BInternal es cs))" "down_closed P"
    and "i = partition_point (\<lambda>e. P (fst e)) es"
  obtains as c bs xs ys where "cs = as @ c # bs" "es = xs @ ys" "length as = i" "length xs = i"
    "length bs = length ys" "shape lo lo (d - 1) c" "keys_ascending (inorder c)"
    "inorder (BInternal es cs) = before (map inorder as) xs @ inorder c @ behind ys (map inorder bs)"
    "\<forall>e\<in>set (before (map inorder as) xs). P (fst e)" "\<forall>e\<in>set (behind ys (map inorder bs)). \<not> P (fst e)"
proof -
  have a: "keys_ascending es" by (rule node_entries_ascending[OF assms(1,2) refl])
  have "i \<le> length es" "length cs = Suc (length es)" using assms(1,4) by auto
  then obtain as c bs xs ys where s: "cs = as @ c # bs" "es = xs @ ys" "length as = i" "length xs = i"
    "length bs = length ys" by (rule child_split)
  have io: "inorder (BInternal es cs) = before (map inorder as) xs @ inorder c @ behind ys (map inorder bs)"
    using s weave_parts[of "map inorder as" xs "map inorder bs" ys "inorder c"] by simp
  have tw: "takeWhile (\<lambda>e. P (fst e)) es = xs"
    using s(2,4) assms(4) by (metis append_eq_conv_conj partition_point_def takeWhile_eq_take)
  then have lo: "\<forall>e\<in>set xs. P (fst e)" by (metis set_takeWhileD)
  have "filter (\<lambda>e. P (fst e)) xs = xs" using lo by (simp add: filter_id_conv)
  then have "filter (\<lambda>e. P (fst e)) ys = []" using tw takeWhile_cut[OF a assms(3)] s(2) by simp
  then have hi: "\<forall>e\<in>set ys. \<not> P (fst e)" by (simp add: filter_empty_conv)
  have a': "keys_ascending (before (map inorder as) xs @ inorder c @ behind ys (map inorder bs))"
    using assms(2) io by simp
  have "\<forall>e\<in>set (before (map inorder as) xs). P (fst e)"
    by (rule before_cut[OF _ a' lo assms(3)]) (use s in simp)
  moreover have "\<forall>e\<in>set (behind ys (map inorder bs)). \<not> P (fst e)"
    by (rule behind_cut[OF _ _ hi assms(3)]) (use s a' in \<open>auto simp: sorted_wrt_append\<close>)
  moreover have "keys_ascending (inorder c)" using a' by (simp add: sorted_wrt_append)
  moreover have "shape lo lo (d - 1) c" using assms(1) s by simp
  ultimately show thesis using that s io by blast
qed

lemma down_closed_less [simp, intro]: "down_closed (\<lambda>k. k < (x::'k::linorder))"
  by (auto simp: down_closed_def)

lemma down_closed_le [simp, intro]: "down_closed (\<lambda>k. k \<le> (x::'k::linorder))"
  by (auto simp: down_closed_def)

lemma last_before: "length as = length xs \<Longrightarrow> xs \<noteq> [] \<Longrightarrow> before as xs \<noteq> [] \<and> last (before as xs) = last xs"
proof (induction as xs rule: list_induct2)
  case (Cons c as e xs)
  then show ?case by (cases "xs = []") simp_all
qed simp

lemma predecessor_node_correct:
  assumes "shape m lo d t" "keys_ascending (inorder t)"
  shows "predecessor_node t key best =
    Some (case filter (\<lambda>e. fst e < key) (inorder t) of [] \<Rightarrow> best | x # xs \<Rightarrow> Some (last (x # xs)))"
  using assms
proof (induction t key best arbitrary: m d rule: predecessor_node.induct)
  case (1 es key best)
  have f: "filter (\<lambda>e. fst e < key) es = take (partition_point (\<lambda>e. fst e < key) es) es"
    using takeWhile_cut[of es "\<lambda>k. k < key"] 1(2) takeWhile_eq_take[of "\<lambda>e. fst e < key" es]
    unfolding partition_point_def by simp
  let ?i = "partition_point (\<lambda>e. fst e < key) es"
  show ?case
  proof (cases "?i = 0")
    case True
    then show ?thesis using f by simp
  next
    case False
    then have ne: "take ?i es \<noteq> []" using partition_point_le[of "\<lambda>e. fst e < key" es] by (cases es) auto
    moreover have "last (take ?i es) = es ! (?i - 1)"
      using ne False partition_point_le[of "\<lambda>e. fst e < key" es] by (simp add: last_conv_nth)
    ultimately show ?thesis using False f by (auto split: list.splits)
  qed
next
  case (2 es cs key best)
  define i where "i = partition_point (\<lambda>e. fst e < key) es"
  obtain as c bs xs ys where s: "cs = as @ c # bs" "es = xs @ ys" "length as = i" "length xs = i"
    "length bs = length ys" "shape lo lo (d - 1) c" "keys_ascending (inorder c)"
    "inorder (BInternal es cs) = before (map inorder as) xs @ inorder c @ behind ys (map inorder bs)"
    "\<forall>e\<in>set (before (map inorder as) xs). fst e < key" "\<forall>e\<in>set (behind ys (map inorder bs)). \<not> fst e < key"
    by (rule partition_slot[OF 2(2,3) down_closed_less[of key] i_def])
  let ?best = "if 0 < i then Some (es ! (i - 1)) else best"
  have ci: "i < length cs" "cs ! i = c" using s by auto
  have f: "filter (\<lambda>e. fst e < key) (inorder (BInternal es cs)) =
      before (map inorder as) xs @ filter (\<lambda>e. fst e < key) (inorder c)"
    unfolding s(8) using s(9,10) by (simp add: filter_id_conv filter_empty_conv)
  have b: "?best = (case before (map inorder as) xs of [] \<Rightarrow> best | x # ys \<Rightarrow> Some (last (x # ys)))"
  proof (cases "i = 0")
    case False
    then have "xs \<noteq> []" using s by auto
    moreover have "es ! (i - 1) = last xs" using s \<open>xs \<noteq> []\<close> False by (simp add: last_conv_nth nth_append)
    ultimately show ?thesis using False last_before[of "map inorder as" xs] s by (auto split: list.splits)
  qed (use s in simp)
  have "predecessor_node c key ?best =
      Some (case filter (\<lambda>e. fst e < key) (inorder c) of [] \<Rightarrow> ?best | x # xs \<Rightarrow> Some (last (x # xs)))"
    using 2(1)[OF i_def refl ci(1)] s(6,7) ci by simp
  then show ?case
    unfolding predecessor_node.simps Let_def i_def[symmetric] f
    using ci b by (auto split: list.splits)
qed

lemma get_mut_helper_correct:
  assumes "shape m lo d t" "keys_ascending (inorder t)"
  shows "\<exists>t'. get_mut_helper t k f = Some (t', bm_get (inorder t) k) \<and> shape m lo d t'
    \<and> inorder t' = (case bm_get (inorder t) k of None \<Rightarrow> inorder t | Some w \<Rightarrow> bm_insert k (f w) (inorder t))"
  using assms
proof (induction t k f arbitrary: m d rule: get_mut_helper.induct)
  case (1 es key f)
  then have a: "keys_ascending es" by simp
  show ?case
  proof (cases "linear_find_entry es key")
    case None
    then have "bm_get es key = None"
      using linear_find_entry_None[OF a None] by (metis bm_get_def map_of_eq_None_iff)
    with None 1 show ?thesis by simp
  next
    case (Some i)
    from linear_find_entry_Some[OF a Some] have i: "i < length es" "fst (es ! i) = key" by auto
    then have "key \<in> set (map fst es)" by (metis length_map nth_map nth_mem)
    then obtain j where j: "binary_search (map fst es) key = Inr j" using binary_search_found[OF a] by blast
    then have "j = i" using binary_search_Inr[OF a j] i a
      by (simp add: strict_sorted_iff distinct_conv_nth) (metis nth_map)
    with leaf_insert[OF a, of key "f (snd (es ! i))"] j
    have b: "es[i := (fst (es ! i), f (snd (es ! i)))] = bm_insert key (f (snd (es ! i))) es"
      "bm_get es key = Some (snd (es ! i))" by auto
    have "length (bm_insert key (f (snd (es ! i))) es) = length es" unfolding b(1)[symmetric] by simp
    with b Some 1 show ?thesis by simp
  qed
next
  case (2 es cs key f)
  have a: "keys_ascending es" by (rule node_entries_ascending[OF 2(2,3) refl])
  note lp = linear_position_binary_search[OF a, of key]
  show ?case
  proof (cases "binary_search (map fst es) key")
    case (Inr i)
    have i: "i < length es" "fst (es ! i) = key" using binary_search_Inr[OF a Inr] by auto
    have g: "get_node (BInternal es cs) key = Some (Some (snd (es ! i)))" using Inr lp by simp
    then have g': "bm_get (inorder (BInternal es cs)) key = Some (snd (es ! i))"
      using get_node_correct[OF 2(2,3), of key] by simp
    from internal_insert_hit[OF 2(2,3) Inr, of "f (snd (es ! i))"] Inr
    have "shape m lo d (BInternal (es[i := (fst (es ! i), f (snd (es ! i)))]) cs)"
      "inorder (BInternal (es[i := (fst (es ! i), f (snd (es ! i)))]) cs) = bm_insert key (f (snd (es ! i))) (inorder (BInternal es cs))"
      by (auto simp del: inorder.simps shape.simps)
    with g' lp Inr show ?thesis by (simp del: inorder.simps shape.simps)
  next
    case (Inl i)
    obtain as c bs xs ys where s: "cs = as @ c # bs" "es = xs @ ys" "length as = i" "length xs = i"
      "length bs = length ys" "shape lo lo (d - 1) c" "keys_ascending (inorder c)"
      "inorder (BInternal es cs) = before (map inorder as) xs @ inorder c @ behind ys (map inorder bs)"
      "\<forall>e\<in>set (before (map inorder as) xs). fst e < key" "\<forall>e\<in>set (behind ys (map inorder bs)). key < fst e"
      by (rule search_descend[OF 2(2,3) Inl])
    have ci: "i < length cs" "cs ! i = c" "cs[i := l] = as @ l # bs" for l using s by auto
    have lpi: "linear_position_internal es key = Descend i" using lp Inl by simp
    from 2(1)[OF lpi ci(1), of lo "d - 1"] ci s(6,7) obtain c' where
      ih: "get_mut_helper c key f = Some (c', bm_get (inorder c) key)" "shape lo lo (d - 1) c'"
      "inorder c' = (case bm_get (inorder c) key of None \<Rightarrow> inorder c | Some w \<Rightarrow> bm_insert key (f w) (inorder c))"
      by auto
    have io: "inorder (BInternal es (as @ c' # bs)) = before (map inorder as) xs @ inorder c' @ behind ys (map inorder bs)"
      using weave_parts[of "map inorder as" xs "map inorder bs" ys "inorder c'"] s(2-5) by simp
    have g: "bm_get (inorder (BInternal es cs)) key = bm_get (inorder c) key" unfolding s(8) by (rule bm_get_mid[OF s(9,10)])
    have sh: "shape m lo d (BInternal es (as @ c' # bs))" using 2(2) s(1) ih(2) by simp
    have st: "get_mut_helper (BInternal es cs) key f = Some (BInternal es (as @ c' # bs), bm_get (inorder c) key)"
      using lpi ci ih(1) by simp
    have "inorder (BInternal es (as @ c' # bs)) = (case bm_get (inorder c) key of None \<Rightarrow> inorder (BInternal es cs)
        | Some w \<Rightarrow> bm_insert key (f w) (inorder (BInternal es cs)))"
      unfolding io s(8) ih(3) bm_insert_mid[OF s(9,10)] by (simp split: option.splits)
    with st sh g show ?thesis by auto
  qed
qed

end
