(* ===== verification/BTree_Remove.thy ===== *)
theory BTree_Remove
  imports BTree_Node
begin

text \<open>
  Removal from the B-tree: the descent, the detached in-order predecessor, and the
  repair of an underfull child by rotation or merge (\<open>persistent_btree.rs\<close>). \<open>None\<close> is a
  panic: an index out of range, \<open>Vec::remove\<close> past the end or a failed \<open>expect\<close>.
\<close>

section \<open>Repair of an underfull child\<close>

type_synonym ('k, 'v) body = "('k \<times> 'v) list \<times> ('k, 'v) bnode list"

fun pop_back :: "('k, 'v) bnode \<Rightarrow> (('k, 'v) bnode \<times> ('k \<times> 'v) \<times> ('k, 'v) bnode option) option" where
  "pop_back (BLeaf le) = (if le = [] then None else Some (BLeaf (butlast le), last le, None))"
| "pop_back (BInternal le lc) =
     (if le = [] \<or> lc = [] then None
      else Some (BInternal (butlast le) (butlast lc), last le, Some (last lc)))"

fun pop_front :: "('k, 'v) bnode \<Rightarrow> (('k, 'v) bnode \<times> ('k \<times> 'v) \<times> ('k, 'v) bnode option) option" where
  "pop_front (BLeaf re) = (if re = [] then None else Some (BLeaf (tl re), hd re, None))"
| "pop_front (BInternal re rc) =
     (if re = [] \<or> rc = [] then None
      else Some (BInternal (tl re) (tl rc), hd re, Some (hd rc)))"

fun push_front :: "('k, 'v) bnode \<Rightarrow> ('k \<times> 'v) \<Rightarrow> ('k, 'v) bnode option \<Rightarrow> ('k, 'v) bnode option" where
  "push_front (BLeaf ce) separator moved = Some (BLeaf (separator # ce))"
| "push_front (BInternal ce cc) separator moved =
     (case moved of None \<Rightarrow> None | Some c \<Rightarrow> Some (BInternal (separator # ce) (c # cc)))"

fun push_back :: "('k, 'v) bnode \<Rightarrow> ('k \<times> 'v) \<Rightarrow> ('k, 'v) bnode option \<Rightarrow> ('k, 'v) bnode option" where
  "push_back (BLeaf ce) separator moved = Some (BLeaf (ce @ [separator]))"
| "push_back (BInternal ce cc) separator moved =
     (case moved of None \<Rightarrow> None | Some c \<Rightarrow> Some (BInternal (ce @ [separator]) (cc @ [c])))"

definition rotate_from_left :: "('k \<times> 'v) list \<Rightarrow> ('k, 'v) bnode list \<Rightarrow> nat \<Rightarrow> ('k, 'v) body option" where
  "rotate_from_left es cs i =
     (if i = 0 \<or> length cs \<le> i \<or> length es \<le> i - 1 then None
      else case pop_back (cs ! (i - 1)) of
        None \<Rightarrow> None
      | Some (left, moved_entry, moved_child) \<Rightarrow>
          (case push_front (cs ! i) (es ! (i - 1)) moved_child of
             None \<Rightarrow> None
           | Some child \<Rightarrow> Some (es[i - 1 := moved_entry], (cs[i - 1 := left])[i := child])))"

definition rotate_from_right :: "('k \<times> 'v) list \<Rightarrow> ('k, 'v) bnode list \<Rightarrow> nat \<Rightarrow> ('k, 'v) body option" where
  "rotate_from_right es cs i =
     (if length cs \<le> Suc i \<or> length es \<le> i then None
      else case pop_front (cs ! Suc i) of
        None \<Rightarrow> None
      | Some (right, moved_entry, moved_child) \<Rightarrow>
          (case push_back (cs ! i) (es ! i) moved_child of
             None \<Rightarrow> None
           | Some child \<Rightarrow> Some (es[i := moved_entry], (cs[Suc i := right])[i := child])))"

fun fold_nodes :: "('k, 'v) bnode \<Rightarrow> ('k \<times> 'v) \<Rightarrow> ('k, 'v) bnode \<Rightarrow> ('k, 'v) bnode" where
  "fold_nodes (BLeaf le) separator (BLeaf re) = BLeaf (le @ separator # re)"
| "fold_nodes (BInternal le lc) separator (BInternal re rc) = BInternal (le @ separator # re) (lc @ rc)"
| "fold_nodes (BLeaf le) separator (BInternal re rc) = BLeaf (le @ [separator])"
| "fold_nodes (BInternal le lc) separator (BLeaf re) = BInternal (le @ [separator]) lc"

definition merge_children :: "('k \<times> 'v) list \<Rightarrow> ('k, 'v) bnode list \<Rightarrow> nat \<Rightarrow> ('k, 'v) body option" where
  "merge_children es cs sep =
     (if length es \<le> sep \<or> length cs \<le> Suc sep then None
      else Some (vec_remove sep es,
                 (vec_remove (Suc sep) cs)[sep := fold_nodes (cs ! sep) (es ! sep) (cs ! Suc sep)]))"

definition fix_child :: "('k \<times> 'v) list \<Rightarrow> ('k, 'v) bnode list \<Rightarrow> nat \<Rightarrow> ('k, 'v) body option" where
  "fix_child es cs i =
     (if length cs \<le> i then None
      else if MIN_ENTRIES \<le> entry_count (cs ! i) then Some (es, cs)
      else if 0 < i \<and> MIN_ENTRIES < entry_count (cs ! (i - 1)) then rotate_from_left es cs i
      else if Suc i < length cs \<and> MIN_ENTRIES < entry_count (cs ! Suc i) then rotate_from_right es cs i
      else if 0 < i then merge_children es cs (i - 1)
      else merge_children es cs i)"

section \<open>Removal\<close>

fun remove_max :: "('k, 'v) bnode \<Rightarrow> (('k, 'v) bnode \<times> ('k \<times> 'v)) option" where
  "remove_max (BLeaf es) = (if es = [] then None else Some (BLeaf (butlast es), last es))"
| "remove_max (BInternal es cs) =
     (if length cs - 1 < length cs then
        (case remove_max (cs ! (length cs - 1)) of
           None \<Rightarrow> None
         | Some (c, kv) \<Rightarrow>
             (case fix_child es (cs[length cs - 1 := c]) (length cs - 1) of
                None \<Rightarrow> None
              | Some (es', cs') \<Rightarrow> Some (BInternal es' cs', kv)))
      else None)"

fun remove_transient_helper ::
  "('k::linorder, 'v) bnode \<Rightarrow> 'k \<Rightarrow> (('k, 'v) bnode \<times> 'v option) option" where
  "remove_transient_helper (BLeaf es) key =
     (case binary_search (map fst es) key of
        Inl i \<Rightarrow> Some (BLeaf es, None)
      | Inr i \<Rightarrow> Some (BLeaf (vec_remove i es), Some (snd (es ! i))))"
| "remove_transient_helper (BInternal es cs) key =
     (case binary_search (map fst es) key of
        Inr i \<Rightarrow>
          (if i < length cs then
             (case remove_max (cs ! i) of
                None \<Rightarrow> None
              | Some (c, pred) \<Rightarrow>
                  (case fix_child (es[i := pred]) (cs[i := c]) i of
                     None \<Rightarrow> None
                   | Some (es', cs') \<Rightarrow> Some (BInternal es' cs', Some (snd (es ! i)))))
           else None)
      | Inl i \<Rightarrow>
          (if i < length cs then
             (case remove_transient_helper (cs ! i) key of
                None \<Rightarrow> None
              | Some (c, None) \<Rightarrow> Some (BInternal es (cs[i := c]), None)
              | Some (c, Some removed) \<Rightarrow>
                  (case fix_child es (cs[i := c]) i of
                     None \<Rightarrow> None
                   | Some (es', cs') \<Rightarrow> Some (BInternal es' cs', Some removed)))
           else None))"

section \<open>The repair keeps the contents and restores the shape\<close>

lemma pair_split:
  assumes "Suc j < length cs" "length cs = Suc (length es)"
  obtains as l r bs xs s ys where "cs = as @ l # r # bs" "es = xs @ s # ys" "length as = j" "length xs = j"
    "length bs = length ys"
proof
  show "cs = take j cs @ cs ! j # cs ! Suc j # drop (Suc (Suc j)) cs"
    using assms by (simp add: Cons_nth_drop_Suc)
  show "es = take j es @ es ! j # drop (Suc j) es" using assms by (simp add: id_take_nth_drop)
qed (use assms in auto)

lemma weave_pair:
  "length as = length xs \<Longrightarrow> length bs = length ys \<Longrightarrow>
     weave (as @ l # r # bs) (xs @ s # ys) = before as xs @ (l @ s # r) @ behind ys bs"
  using weave_parts[of as xs "r # bs" "s # ys" l] by simp

lemma weave_snoc:
  assumes "length cs = Suc (length es)" "es \<noteq> []"
  shows "weave cs es = weave (butlast cs) (butlast es) @ last es # last cs"
proof -
  have "cs \<noteq> []" using assms(1) by auto
  then have "weave cs es = weave (butlast cs @ [last cs]) (butlast es @ last es # [])" using assms(2) by simp
  also have "\<dots> = weave (butlast cs) (butlast es) @ last es # weave [last cs] []"
    by (rule weave_append) (use assms in simp)
  finally show ?thesis by simp
qed

lemma rotate_left_pair:
  assumes "shape 4 3 d l" "shape 2 3 d c" "entry_count c = 2"
  shows "\<exists>l' e mc c'. pop_back l = Some (l', e, mc) \<and> push_front c s mc = Some c'
     \<and> shape 3 3 d l' \<and> shape 3 3 d c' \<and> inorder l' @ e # inorder c' = inorder l @ s # inorder c"
proof (cases l)
  case (BLeaf le)
  then obtain ce where c: "c = BLeaf ce" using assms by (cases c) auto
  have "le \<noteq> []" using assms BLeaf by auto
  then have "butlast le @ last le # s # ce = le @ s # ce" by (metis append_Cons append_Nil append_assoc append_butlast_last_id)
  with BLeaf c assms \<open>le \<noteq> []\<close> show ?thesis by auto
next
  case (BInternal le lc)
  then obtain ce cc where c: "c = BInternal ce cc" using assms by (cases c) auto
  have ne: "le \<noteq> []" "lc \<noteq> []" "length lc = Suc (length le)" using assms BInternal by auto
  have "weave (map inorder lc) le = weave (map inorder (butlast lc)) (butlast le) @ last le # inorder (last lc)"
    using weave_snoc[of "map inorder lc" le] ne by (simp add: map_butlast last_map)
  with BInternal c assms ne show ?thesis by (auto dest: in_set_butlastD)
qed

lemma rotate_right_pair:
  assumes "shape 2 3 d c" "shape 4 3 d r" "entry_count c = 2"
  shows "\<exists>r' e mc c'. pop_front r = Some (r', e, mc) \<and> push_back c s mc = Some c'
     \<and> shape 3 3 d r' \<and> shape 3 3 d c' \<and> inorder c' @ e # inorder r' = inorder c @ s # inorder r"
proof (cases r)
  case (BLeaf re)
  then obtain ce where c: "c = BLeaf ce" using assms by (cases c) auto
  have "re \<noteq> []" using assms BLeaf by auto
  with BLeaf c assms show ?thesis by auto
next
  case (BInternal re rc)
  then obtain ce cc where c: "c = BInternal ce cc" using assms by (cases c) auto
  obtain e re' x rc' where r: "re = e # re'" "rc = x # rc'" using assms BInternal by (cases re; cases rc) auto
  have l: "length (map inorder cc) = Suc (length ce)" using assms(1) c by simp
  have "weave (map inorder cc @ [inorder x]) (ce @ s # []) = weave (map inorder cc) ce @ s # inorder x"
    using weave_append[OF l, of "[inorder x]" s "[]"] by simp
  with BInternal c r assms show ?thesis by simp
qed

lemma fold_nodes_pair:
  assumes "shape m 3 d l" "shape m' 3 d r" "entry_count l + entry_count r \<le> 6" "2 \<le> entry_count l + entry_count r"
  shows "shape 3 3 d (fold_nodes l s r) \<and> inorder (fold_nodes l s r) = inorder l @ s # inorder r"
proof (cases l)
  case (BLeaf le)
  then obtain re where "r = BLeaf re" using assms by (cases r) auto
  with BLeaf assms show ?thesis by auto
next
  case (BInternal le lc)
  then obtain re rc where r: "r = BInternal re rc" using assms by (cases r) auto
  have "weave (map inorder lc @ map inorder rc) (le @ s # re) = weave (map inorder lc) le @ s # weave (map inorder rc) re"
    by (rule weave_append) (use assms BInternal in simp)
  with BInternal r assms show ?thesis by auto
qed


lemma shape_count: "shape m lo d t \<Longrightarrow> m \<le> entry_count t \<and> entry_count t \<le> 7"
  by (cases t) auto

lemma shape_raise: "shape m lo d t \<Longrightarrow> n \<le> entry_count t \<Longrightarrow> shape n lo d t"
  by (cases t) auto

text \<open>What the repair of slot \<open>i\<close> starts from and what it must give back.\<close>

definition one_light :: "nat \<Rightarrow> ('k \<times> 'v) list \<Rightarrow> ('k, 'v) bnode list \<Rightarrow> nat \<Rightarrow> bool" where
  "one_light d es cs i \<longleftrightarrow> length cs = Suc (length es) \<and> i < length cs \<and> es \<noteq> []
     \<and> (\<forall>j<length cs. j \<noteq> i \<longrightarrow> shape 3 3 d (cs ! j)) \<and> shape 2 3 d (cs ! i)"

definition repaired :: "nat \<Rightarrow> ('k \<times> 'v) list \<Rightarrow> ('k, 'v) bnode list \<Rightarrow> ('k, 'v) body option \<Rightarrow> bool" where
  "repaired d es cs r \<longleftrightarrow> (\<exists>es' cs'. r = Some (es', cs') \<and> length cs' = Suc (length es')
     \<and> length es - 1 \<le> length es' \<and> length es' \<le> length es \<and> (\<forall>c\<in>set cs'. shape 3 3 d c)
     \<and> weave (map inorder cs') es' = weave (map inorder cs) es)"

lemma one_light_others:
  assumes "one_light d es cs i" "cs = as @ l # r # bs" "length as \<le> i" "i \<le> Suc (length as)"
  shows "\<forall>c\<in>set as \<union> set bs. shape 3 3 d c"
proof -
  have o: "\<And>j. j < length cs \<Longrightarrow> j \<noteq> i \<Longrightarrow> shape 3 3 d (cs ! j)" using assms(1) by (simp add: one_light_def)
  have "shape 3 3 d (as ! j)" if "j < length as" for j
    using o[of j] that assms(2,3) by (simp add: nth_append)
  moreover have "shape 3 3 d (bs ! j)" if "j < length bs" for j
    using o[of "Suc (Suc (length as + j))"] that assms(2,4) by (simp add: nth_append)
  ultimately show ?thesis by (auto simp: in_set_conv_nth)
qed

lemma one_light_all: "one_light d es cs i \<Longrightarrow> j < length cs \<Longrightarrow> shape 2 3 d (cs ! j)"
  by (cases "j = i") (auto simp: one_light_def intro: shape_weaken[of 3])

lemma rotate_from_left_repairs:
  assumes "one_light d es cs i" "0 < i" "3 < entry_count (cs ! (i - 1))" "entry_count (cs ! i) = 2"
  shows "repaired d es cs (rotate_from_left es cs i)"
proof -
  have b: "length cs = Suc (length es)" "i < length cs" "shape 2 3 d (cs ! i)" "shape 3 3 d (cs ! (i - 1))"
    using assms(1,2) by (auto simp: one_light_def)
  then have "Suc (i - 1) < length cs" using assms(2) by simp
  from this b(1) obtain as l c bs xs s ys where s: "cs = as @ l # c # bs" "es = xs @ s # ys"
    "length as = i - 1" "length xs = i - 1" "length bs = length ys" by (rule pair_split)
  have lc: "cs ! (i - 1) = l" "cs ! i = c" "es ! (i - 1) = s" using s assms(2) by (auto simp: nth_append)
  have "shape 4 3 d l" using shape_raise[OF b(4)] assms(3) lc by simp
  from rotate_left_pair[OF this, of c s] b(3) assms(4) lc obtain l' e mc c' where r:
    "pop_back l = Some (l', e, mc)" "push_front c s mc = Some c'" "shape 3 3 d l'" "shape 3 3 d c'"
    "inorder l' @ e # inorder c' = inorder l @ s # inorder c" by auto
  have "rotate_from_left es cs i = Some (xs @ e # ys, as @ l' # c' # bs)"
    using r(1,2) lc s assms(2) b(2)
    by (cases i) (auto simp: rotate_from_left_def list_update_append)
  moreover have "\<forall>c\<in>set as \<union> set bs. shape 3 3 d c"
    by (rule one_light_others[OF assms(1) s(1)]) (use s(3) assms(2) in auto)
  ultimately show ?thesis
    unfolding repaired_def using r(3-5) s(2-5) weave_pair[of "map inorder as" xs "map inorder bs" ys]
    by (simp add: s(1))
qed

lemma rotate_from_right_repairs:
  assumes "one_light d es cs i" "Suc i < length cs" "3 < entry_count (cs ! Suc i)" "entry_count (cs ! i) = 2"
  shows "repaired d es cs (rotate_from_right es cs i)"
proof -
  have b: "length cs = Suc (length es)" "shape 2 3 d (cs ! i)" "shape 3 3 d (cs ! Suc i)"
    using assms(1,2) by (auto simp: one_light_def)
  from assms(2) b(1) obtain as c r bs xs s ys where s: "cs = as @ c # r # bs" "es = xs @ s # ys"
    "length as = i" "length xs = i" "length bs = length ys" by (rule pair_split)
  have lc: "cs ! Suc i = r" "cs ! i = c" "es ! i = s" using s by (auto simp: nth_append)
  have "shape 4 3 d r" using shape_raise[OF b(3)] assms(3) lc by simp
  from rotate_right_pair[of d c r s] this b(2) assms(4) lc obtain r' e mc c' where r:
    "pop_front r = Some (r', e, mc)" "push_back c s mc = Some c'" "shape 3 3 d r'" "shape 3 3 d c'"
    "inorder c' @ e # inorder r' = inorder c @ s # inorder r" by auto
  have "rotate_from_right es cs i = Some (xs @ e # ys, as @ c' # r' # bs)"
    using r(1,2) lc s assms(2) by (auto simp: rotate_from_right_def list_update_append)
  moreover have "\<forall>c\<in>set as \<union> set bs. shape 3 3 d c"
    by (rule one_light_others[OF assms(1) s(1)]) (use s(3) in auto)
  ultimately show ?thesis
    unfolding repaired_def using r(3-5) s(2-5) weave_pair[of "map inorder as" xs "map inorder bs" ys]
    by (simp add: s(1))
qed

lemma merge_children_repairs:
  assumes "one_light d es cs i" "i = j \<or> i = Suc j" "Suc j < length cs"
    and "entry_count (cs ! j) + entry_count (cs ! Suc j) \<le> 6" 
  shows "repaired d es cs (merge_children es cs j)"
proof -
  have b: "length cs = Suc (length es)" using assms(1) by (auto simp: one_light_def)
  from assms(3) this obtain as l r bs xs s ys where s: "cs = as @ l # r # bs" "es = xs @ s # ys"
    "length as = j" "length xs = j" "length bs = length ys" by (rule pair_split)
  have lr: "cs ! j = l" "cs ! Suc j = r" "es ! j = s" using s by (auto simp: nth_append)
  have sh: "shape 2 3 d l" "shape 2 3 d r"
    using one_light_all[OF assms(1)] assms(3) lr by auto
  have f: "shape 3 3 d (fold_nodes l s r) \<and> inorder (fold_nodes l s r) = inorder l @ s # inorder r"
    by (rule fold_nodes_pair[OF sh]) (use assms(4) lr shape_count[OF sh(1)] in auto)
  have "merge_children es cs j = Some (xs @ ys, as @ fold_nodes l s r # bs)"
    unfolding merge_children_def using lr s by (simp add: vec_remove_def list_update_append)
  moreover have "\<forall>c\<in>set as \<union> set bs. shape 3 3 d c"
    by (rule one_light_others[OF assms(1) s(1)]) (use s(3) assms(2) in auto)
  ultimately show ?thesis
    unfolding repaired_def using f s(2-5) weave_pair[of "map inorder as" xs "map inorder bs" ys]
      weave_parts[of "map inorder as" xs "map inorder bs" ys]
    by (simp add: s(1))
qed


lemma fix_child_repairs:
  assumes "one_light d es cs i"
  shows "repaired d es cs (fix_child es cs i)"
proof -
  have b: "length cs = Suc (length es)" "i < length cs" "es \<noteq> []" using assms by (auto simp: one_light_def)
  have count: "2 \<le> entry_count (cs ! j)" if "j < length cs" for j
    using shape_count[OF one_light_all[OF assms that]] by simp
  have two: "1 < length cs" using b by (cases es) auto
  consider (full) "3 \<le> entry_count (cs ! i)"
    | (left) "entry_count (cs ! i) = 2" "0 < i" "3 < entry_count (cs ! (i - 1))"
    | (right) "entry_count (cs ! i) = 2" "\<not> (0 < i \<and> 3 < entry_count (cs ! (i - 1)))" "Suc i < length cs"
        "3 < entry_count (cs ! Suc i)"
    | (merge_left) "entry_count (cs ! i) = 2" "0 < i" "entry_count (cs ! (i - 1)) \<le> 3"
        "\<not> (Suc i < length cs \<and> 3 < entry_count (cs ! Suc i))"
    | (merge_right) "entry_count (cs ! i) = 2" "i = 0" "entry_count (cs ! Suc i) \<le> 3"
    using count[OF b(2)] two b(2) by force
  then show ?thesis
  proof cases
    case full
    have "shape 3 3 d (cs ! j)" if "j < length cs" for j
      using full assms that shape_raise[of 2 3 d "cs ! i" 3] by (cases "j = i") (auto simp: one_light_def)
    with b full show ?thesis by (auto simp: fix_child_def repaired_def in_set_conv_nth)
  next
    case left
    with b rotate_from_left_repairs[OF assms] show ?thesis by (simp add: fix_child_def)
  next
    case right
    with b rotate_from_right_repairs[OF assms] show ?thesis by (auto simp: fix_child_def)
  next
    case merge_left
    then have "repaired d es cs (merge_children es cs (i - 1))"
      using b(2) by (intro merge_children_repairs[OF assms]) auto
    with merge_left b show ?thesis by (auto simp: fix_child_def)
  next
    case merge_right
    then have "repaired d es cs (merge_children es cs i)"
      using two by (intro merge_children_repairs[OF assms]) auto
    with merge_right b show ?thesis by (auto simp: fix_child_def)
  qed
qed

text \<open>Repairing an internal node after its child \<open>i\<close> lost an entry.\<close>

lemma repair_internal:
  assumes "length as = length xs" "length bs = length ys" "length (xs @ ys) \<le> 7" "m \<le> length (xs @ ys)" "1 \<le> m"
    and "0 < d" "\<forall>c\<in>set (as @ bs). shape 3 3 (d - 1) c" "shape 2 3 (d - 1) c'" "i = length as"
  shows "\<exists>es' cs'. fix_child (xs @ ys) (as @ c' # bs) i = Some (es', cs') \<and> shape (m - 1) 3 d (BInternal es' cs')
    \<and> inorder (BInternal es' cs') = before (map inorder as) xs @ inorder c' @ behind ys (map inorder bs)"
proof -
  have "one_light (d - 1) (xs @ ys) (as @ c' # bs) i"
    using assms by (auto simp: one_light_def nth_append nth_Cons' dest!: spec[of _ "_ - 1 - length as"])
  from fix_child_repairs[OF this] obtain es' cs' where r: "fix_child (xs @ ys) (as @ c' # bs) i = Some (es', cs')"
    "length cs' = Suc (length es')" "length (xs @ ys) - 1 \<le> length es'" "length es' \<le> length (xs @ ys)"
    "\<forall>c\<in>set cs'. shape 3 3 (d - 1) c" "weave (map inorder cs') es' = weave (map inorder (as @ c' # bs)) (xs @ ys)"
    unfolding repaired_def by blast
  then show ?thesis
    using assms weave_parts[of "map inorder as" xs "map inorder bs" ys "inorder c'"] by auto
qed

lemma remove_max_correct:
  assumes "shape m 3 d t" "1 \<le> m"
  shows "\<exists>t'. remove_max t = Some (t', last (inorder t)) \<and> shape (m - 1) 3 d t'
    \<and> inorder t' = butlast (inorder t) \<and> inorder t \<noteq> []"
  using assms
proof (induction t arbitrary: m d rule: remove_max.induct)
  case (1 es)
  then show ?case by auto
next
  case (2 es cs)
  define i where "i = length cs - 1"
  have i: "i < length cs" "length cs = Suc (length es)" "i \<le> length es" using 2(2) by (auto simp: i_def)
  obtain as c bs xs ys where s: "cs = as @ c # bs" "es = xs @ ys" "length as = i" "length xs = i"
    "length bs = length ys" "cs ! i = c" using i(3,2) by (rule child_split)
  have nil: "bs = []" "ys = []" using s i by (auto simp: i_def)
  have c: "shape 3 3 (d - 1) c" using 2(2) s(1) by simp
  with 2(1)[of 3 "d - 1"] i s(6) obtain c' where c': "remove_max c = Some (c', last (inorder c))" "shape 2 3 (d - 1) c'"
    "inorder c' = butlast (inorder c)" "inorder c \<noteq> []" by (auto simp: i_def)
  have "\<exists>es' cs'. fix_child (xs @ ys) (as @ c' # bs) i = Some (es', cs') \<and> shape (m - 1) 3 d (BInternal es' cs')
    \<and> inorder (BInternal es' cs') = before (map inorder as) xs @ inorder c' @ behind ys (map inorder bs)"
    by (rule repair_internal[OF _ s(5)]) (use s 2(2,3) c' in auto)
  then obtain es' cs' where f: "fix_child es (as @ c' # bs) i = Some (es', cs')" "shape (m - 1) 3 d (BInternal es' cs')"
    "inorder (BInternal es' cs') = before (map inorder as) xs @ inorder c'" using s(2) nil by auto
  have up: "cs[i := c'] = as @ c' # bs" using s(1,3) by (simp add: list_update_append)
  have io: "inorder (BInternal es cs) = before (map inorder as) xs @ inorder c"
    using weave_parts[of "map inorder as" xs "map inorder bs" ys "inorder c"] s nil by simp
  have "remove_max (BInternal es cs) = Some (BInternal es' cs', last (inorder c))"
    using c'(1) f(1) s(6) up i(1) unfolding i_def by simp
  with f(2,3) io c'(3,4) show ?case by (simp add: butlast_append del: inorder.simps shape.simps)
qed


lemma leaf_remove:
  assumes "keys_ascending es" "binary_search (map fst es) k = Inr i"
  shows "i < length es \<and> vec_remove i es = bm_remove k es \<and> bm_get es k = Some (snd (es ! i))"
proof -
  from binary_search_Inr[OF assms] have i: "i < length es" "fst (es ! i) = k" by auto
  define w where "w = snd (es ! i)"
  have e: "es = take i es @ (k, w) # drop (Suc i) es" using i by (auto simp: w_def id_take_nth_drop)
  have "keys_ascending (take i es @ (k, w) # drop (Suc i) es)" using assms(1) e by metis
  then have l: "\<forall>e\<in>set (take i es). fst e < k" and r: "\<forall>e\<in>set (drop (Suc i) es). k < fst e"
    by (auto simp: sorted_wrt_append)
  have "bm_remove k (take i es @ [(k, w)] @ drop (Suc i) es) = take i es @ drop (Suc i) es"
    unfolding bm_remove_mid[OF l r] by (simp add: bm_remove_def)
  moreover have "bm_get (take i es @ (k, w) # drop (Suc i) es) k = Some w" by (rule bm_get_hit[OF l])
  ultimately show ?thesis using e i by (auto simp: vec_remove_def w_def)
qed

lemma bm_remove_absent: "bm_get m k = None \<Longrightarrow> bm_remove k m = m"
  by (auto simp: bm_get_def bm_remove_def map_of_eq_None_iff filter_id_conv)

definition remove_ok ::
  "nat \<Rightarrow> nat \<Rightarrow> ('k::linorder, 'v) bnode \<Rightarrow> 'k \<Rightarrow> (('k, 'v) bnode \<times> 'v option) option \<Rightarrow> bool" where
  "remove_ok m d t k r \<longleftrightarrow> (\<exists>t'. r = Some (t', bm_get (inorder t) k) \<and> inorder t' = bm_remove k (inorder t)
     \<and> shape (if bm_get (inorder t) k = None then m else m - 1) 3 d t')"

lemma internal_remove_hit:
  assumes "shape m 3 d (BInternal es cs)" "1 \<le> m" "keys_ascending (inorder (BInternal es cs))"
    and "binary_search (map fst es) k = Inr i"
  shows "remove_ok m d (BInternal es cs) k (remove_transient_helper (BInternal es cs) k)"
proof -
  have a: "keys_ascending es" by (rule node_entries_ascending[OF assms(1,3) refl])
  have i: "i < length es" "fst (es ! i) = k" using binary_search_Inr[OF a assms(4)] by auto
  have "Suc i < length cs" "length cs = Suc (length es)" using i assms(1) by auto
  then obtain as c r bs xs s ys where s: "cs = as @ c # r # bs" "es = xs @ s # ys" "length as = i" "length xs = i"
    "length bs = length ys" by (rule pair_split)
  have ei: "cs ! i = c" "es ! i = s" "fst s = k" using s i by (auto simp: nth_append)
  have c: "shape 3 3 (d - 1) c" using assms(1) s(1) by simp
  from remove_max_correct[OF c] obtain c' where c': "remove_max c = Some (c', last (inorder c))" "shape 2 3 (d - 1) c'"
    "inorder c' = butlast (inorder c)" "inorder c \<noteq> []" by auto
  define e where "e = last (inorder c)"
  have "\<exists>es' cs'. fix_child (xs @ e # ys) (as @ c' # r # bs) i = Some (es', cs') \<and> shape (m - 1) 3 d (BInternal es' cs')
    \<and> inorder (BInternal es' cs') = before (map inorder as) xs @ inorder c' @ behind (e # ys) (map inorder (r # bs))"
    by (rule repair_internal) (use s assms(1,2) c'(2) in auto)
  then obtain es' cs' where f: "fix_child (xs @ e # ys) (as @ c' # r # bs) i = Some (es', cs')" "shape (m - 1) 3 d (BInternal es' cs')"
    "inorder (BInternal es' cs') = before (map inorder as) xs @ inorder c' @ e # inorder r @ behind ys (map inorder bs)" by auto
  have up: "cs[i := c'] = as @ c' # r # bs" "es[i := e] = xs @ e # ys" using s by (auto simp: list_update_append)
  have io: "inorder (BInternal es cs) = (before (map inorder as) xs @ inorder c) @ s # (inorder r @ behind ys (map inorder bs))"
    using weave_pair[of "map inorder as" xs "map inorder bs" ys] s by simp
  have l: "\<forall>x\<in>set (before (map inorder as) xs @ inorder c). fst x < k"
    and r: "\<forall>x\<in>set (inorder r @ behind ys (map inorder bs)). k < fst x"
    using assms(3) ei(3) unfolding io by (auto simp: sorted_wrt_append)
  have "bm_remove k (inorder (BInternal es cs)) = (before (map inorder as) xs @ inorder c) @ inorder r @ behind ys (map inorder bs)"
    using bm_remove_mid[OF l r, of "[s]"] ei(3) unfolding io by (simp add: bm_remove_def)
  also have "\<dots> = inorder (BInternal es' cs')" unfolding f(3) c'(3) e_def using c'(4)
    by (metis append_Cons append_assoc append_butlast_last_id self_append_conv2)
  finally have rm: "inorder (BInternal es' cs') = bm_remove k (inorder (BInternal es cs))" by simp
  have g: "bm_get (inorder (BInternal es cs)) k = Some (snd s)"
    using bm_get_hit[OF l, of "snd s"] ei(3) unfolding io by (metis prod.collapse)
  have "remove_transient_helper (BInternal es cs) k = Some (BInternal es' cs', Some (snd s))"
    using assms(4) ei i c'(1) f(1) up s(1,3) by (simp add: e_def)
  with rm g f(2) show ?thesis unfolding remove_ok_def by (simp del: inorder.simps shape.simps)
qed

lemma remove_transient_correct:
  assumes "shape m 3 d t" "1 \<le> m \<or> d = 0" "keys_ascending (inorder t)"
  shows "remove_ok m d t k (remove_transient_helper t k)"
  using assms
proof (induction t k arbitrary: m d rule: remove_transient_helper.induct)
  case (1 es k)
  then have a: "keys_ascending es" by simp
  show ?case
  proof (cases "binary_search (map fst es) k")
    case (Inl i)
    with leaf_insert[OF a, of k] have "bm_get es k = None" by auto
    with Inl 1 bm_remove_absent[of es k] show ?thesis by (simp add: remove_ok_def)
  next
    case (Inr i)
    from leaf_remove[OF a Inr] have r: "i < length es" "vec_remove i es = bm_remove k es" "bm_get es k = Some (snd (es ! i))"
      by auto
    have "length (bm_remove k es) = length es - 1" using r by (metis length_vec_remove)
    with Inr 1 r show ?thesis by (auto simp: remove_ok_def)
  qed
next
  case (2 es cs k)
  then have m: "1 \<le> m" by auto
  show ?case
  proof (cases "binary_search (map fst es) k")
    case (Inr i)
    from internal_remove_hit[OF 2(2) m 2(4) Inr] show ?thesis .
  next
    case (Inl i)
    obtain as c bs xs ys where s: "cs = as @ c # bs" "es = xs @ ys" "length as = i" "length xs = i"
      "length bs = length ys" "shape 3 3 (d - 1) c" "keys_ascending (inorder c)"
      "inorder (BInternal es cs) = before (map inorder as) xs @ inorder c @ behind ys (map inorder bs)"
      "\<forall>e\<in>set (before (map inorder as) xs). fst e < k" "\<forall>e\<in>set (behind ys (map inorder bs)). k < fst e"
      by (rule search_descend[OF 2(2,4) Inl])
    have ci: "i < length cs" "cs ! i = c" "\<And>x. cs[i := x] = as @ x # bs" using s by (auto simp: list_update_append)
    have "remove_ok 3 (d - 1) c k (remove_transient_helper c k)"
      using 2(1)[OF Inl ci(1), of 3 "d - 1"] ci s(6,7) by simp
    then obtain c' where c': "remove_transient_helper c k = Some (c', bm_get (inorder c) k)"
      "inorder c' = bm_remove k (inorder c)" "shape (if bm_get (inorder c) k = None then 3 else 3 - 1) 3 (d - 1) c'"
      unfolding remove_ok_def by blast
    have g: "bm_get (inorder (BInternal es cs)) k = bm_get (inorder c) k" unfolding s(8) by (rule bm_get_mid[OF s(9,10)])
    have rm: "bm_remove k (inorder (BInternal es cs)) = before (map inorder as) xs @ inorder c' @ behind ys (map inorder bs)"
      unfolding s(8) c'(2) by (rule bm_remove_mid[OF s(9,10)])
    show ?thesis
    proof (cases "bm_get (inorder c) k")
      case None
      have "inorder (BInternal es (as @ c' # bs)) = bm_remove k (inorder (BInternal es cs))"
        unfolding rm using weave_parts[of "map inorder as" xs "map inorder bs" ys "inorder c'"] s(2-5) by simp
      moreover have "shape m 3 d (BInternal es (as @ c' # bs))" using 2(2) s(1) c'(3) None by simp
      moreover have "remove_transient_helper (BInternal es cs) k = Some (BInternal es (as @ c' # bs), None)"
        using Inl ci c'(1) None by simp
      ultimately show ?thesis unfolding remove_ok_def g None by simp
    next
      case (Some v)
      have "\<exists>es' cs'. fix_child (xs @ ys) (as @ c' # bs) i = Some (es', cs') \<and> shape (m - 1) 3 d (BInternal es' cs')
        \<and> inorder (BInternal es' cs') = before (map inorder as) xs @ inorder c' @ behind ys (map inorder bs)"
        by (rule repair_internal) (use s(1-5) 2(2) m c'(3) Some in auto)
      then obtain es' cs' where f: "fix_child es (as @ c' # bs) i = Some (es', cs')" "shape (m - 1) 3 d (BInternal es' cs')"
        "inorder (BInternal es' cs') = bm_remove k (inorder (BInternal es cs))" unfolding rm s(2)[symmetric] by blast
      have "remove_transient_helper (BInternal es cs) k = Some (BInternal es' cs', Some v)"
        using Inl ci c'(1) Some f(1) by simp
      with f(2,3) show ?thesis unfolding remove_ok_def g Some by simp
    qed
  qed
qed

end
