(* ===== verification/BTree_Iter.thy ===== *)
theory BTree_Iter
  imports BTree_Reads
begin

text \<open>
  The iterators of the B-tree: ascending, descending, and the two range scans, each over
  an explicit stack of frames (node and position). The head of the list is the top of
  the stack. The loop inside \<open>next\<close> ends because the work left on the stack shrinks.
\<close>

section \<open>Ascending iteration\<close>

type_synonym ('k, 'v) frames = "(('k, 'v) bnode \<times> nat) list"

fun node_work :: "('k, 'v) bnode \<Rightarrow> nat" where
  "node_work (BLeaf es) = Suc (length es)"
| "node_work (BInternal es cs) = Suc (2 * length cs + 2 * length es + 2) + sum_list (map node_work cs)"

fun frame_work :: "('k, 'v) bnode \<times> nat \<Rightarrow> nat" where
  "frame_work (BLeaf es, i) = Suc (length es - i)"
| "frame_work (BInternal es cs, i) =
     Suc (2 * length cs + 2 * length es + 2 - i) + sum_list (map node_work (drop (Suc i div 2) cs))"

definition work :: "('k, 'v) frames \<Rightarrow> nat" where
  "work st = sum_list (map frame_work st)"

lemma frame_work_start [simp]: "frame_work (t, 0) = node_work t"
  by (cases t) auto

lemma work_simps [simp]: "work [] = 0" "work (f # st) = frame_work f + work st"
  by (auto simp: work_def)

lemma descend_work:
  assumes "even i" "i div 2 < length cs"
  shows "node_work (cs ! (i div 2)) + frame_work (BInternal es cs, Suc i) < frame_work (BInternal es cs, i)"
proof -
  have s: "Suc i div 2 = i div 2" "Suc (Suc i) div 2 = Suc (i div 2)" using assms(1) by auto
  have "drop (i div 2) cs = cs ! (i div 2) # drop (Suc (i div 2)) cs" using assms(2) by (simp add: Cons_nth_drop_Suc)
  then show ?thesis using assms by (simp add: s)
qed

function iter_next :: "('k, 'v) frames \<Rightarrow> ('k \<times> 'v) option \<times> ('k, 'v) frames" where
  "iter_next [] = (None, [])"
| "iter_next ((BLeaf es, i) # st) =
     (if i < length es then (Some (es ! i), (BLeaf es, Suc i) # st) else iter_next st)"
| "iter_next ((BInternal es cs, i) # st) =
     (if i mod 2 = 0 then
        (if i div 2 < length cs
         then iter_next ((cs ! (i div 2), 0) # (BInternal es cs, Suc i) # st)
         else iter_next st)
      else
        (if i div 2 < length es
         then (Some (es ! (i div 2)), (BInternal es cs, Suc i) # st)
         else iter_next st))"
  by pat_completeness auto
termination
proof (relation "measure work", goal_cases)
  case (3 es cs i st)
  then show ?case using descend_work[of i cs es] by (simp add: even_iff_mod_2_eq_zero del: frame_work.simps)
qed auto

lemma iter_next_work: "iter_next st = (Some x, st') \<Longrightarrow> work st' < work st"
proof (induction st arbitrary: x st' rule: iter_next.induct)
  case (3 es cs i st)
  consider (down) "i mod 2 = 0" "i div 2 < length cs" | (past) "i mod 2 = 0" "\<not> i div 2 < length cs"
    | (emit) "i mod 2 \<noteq> 0" "i div 2 < length es" | (out) "i mod 2 \<noteq> 0" "\<not> i div 2 < length es" by blast
  then show ?case
  proof cases
    case down
    with 3 have "work st' < work ((cs ! (i div 2), 0) # (BInternal es cs, Suc i) # st)" by auto
    also have "\<dots> < work ((BInternal es cs, i) # st)"
      using descend_work[of i cs es] down by (simp add: even_iff_mod_2_eq_zero del: frame_work.simps)
    finally show ?thesis .
  next
    case emit
    then have "i < 2 * length es" by linarith
    moreover have "Suc (Suc i) div 2 = Suc i div 2" using emit by presburger
    ultimately show ?thesis using 3(4) emit by auto
  qed (use 3 in \<open>auto simp: trans_less_add2\<close>)
qed (auto split: if_splits simp: trans_less_add2)

function iter_collect :: "('k, 'v) frames \<Rightarrow> ('k \<times> 'v) list" where
  "iter_collect st =
     (case iter_next st of (None, _) \<Rightarrow> [] | (Some x, st') \<Rightarrow> x # iter_collect st')"
  by pat_completeness auto
termination
  by (relation "measure work") (auto dest: iter_next_work sym)


declare iter_collect.simps [simp del]

subsection \<open>What is left on the stack\<close>

fun wf_node :: "('k, 'v) bnode \<Rightarrow> bool" where
  "wf_node (BLeaf es) = True"
| "wf_node (BInternal es cs) = (length cs = Suc (length es) \<and> (\<forall>c\<in>set cs. wf_node c))"

lemma shape_wf_node: "shape m lo d t \<Longrightarrow> wf_node t"
  by (induction t arbitrary: m d rule: wf_node.induct) auto

fun frame_rest :: "('k, 'v) bnode \<times> nat \<Rightarrow> ('k \<times> 'v) list" where
  "frame_rest (BLeaf es, i) = drop i es"
| "frame_rest (BInternal es cs, i) =
     (if i mod 2 = 0 then weave (map inorder (drop (i div 2) cs)) (drop (i div 2) es)
      else behind (drop (i div 2) es) (map inorder (drop (Suc (i div 2)) cs)))"

definition rest :: "('k, 'v) frames \<Rightarrow> ('k \<times> 'v) list" where
  "rest st = concat (map frame_rest st)"

definition wf_frames :: "('k, 'v) frames \<Rightarrow> bool" where
  "wf_frames st = (\<forall>f\<in>set st. wf_node (fst f))"

lemma rest_simps [simp]: "rest [] = []" "rest (f # st) = frame_rest f @ rest st"
  by (auto simp: rest_def)

lemma wf_frames_simps [simp]: "wf_frames []" "wf_frames (f # st) \<longleftrightarrow> wf_node (fst f) \<and> wf_frames st"
  by (auto simp: wf_frames_def)

lemma frame_rest_start [simp]: "frame_rest (t, 0) = inorder t"
  by (cases t) auto

lemma weave_behind: "length cs = length es \<Longrightarrow> weave (c # cs) es = c @ behind es cs"
  using weave_parts[of "[]" "[]" cs es c] by simp

lemma frame_rest_down:
  assumes "i mod 2 = 0" "i div 2 < length cs" "length cs = Suc (length es)"
  shows "frame_rest (BInternal es cs, i) = inorder (cs ! (i div 2)) @ frame_rest (BInternal es cs, Suc i)"
proof -
  have s: "Suc i mod 2 = 1" "Suc i div 2 = i div 2" using assms(1) by presburger+
  have "drop (i div 2) cs = cs ! (i div 2) # drop (Suc (i div 2)) cs" using assms(2) by (simp add: Cons_nth_drop_Suc)
  then show ?thesis using assms by (simp add: s weave_behind)
qed

lemma frame_rest_emit:
  assumes "i mod 2 \<noteq> 0" "i div 2 < length es" "length cs = Suc (length es)"
  shows "frame_rest (BInternal es cs, i) = es ! (i div 2) # frame_rest (BInternal es cs, Suc i)"
proof -
  have s: "Suc i mod 2 = 0" "Suc i div 2 = Suc (i div 2)" using assms(1) by presburger+
  have "drop (i div 2) es = es ! (i div 2) # drop (Suc (i div 2)) es"
    "drop (Suc (i div 2)) cs = cs ! Suc (i div 2) # drop (Suc (Suc (i div 2))) cs"
    using assms(2,3) by (simp_all add: Cons_nth_drop_Suc)
  then show ?thesis using assms by (simp add: s weave_behind)
qed

lemma frame_rest_over:
  "i mod 2 = 0 \<Longrightarrow> \<not> i div 2 < length cs \<Longrightarrow> frame_rest (BInternal es cs, i) = []"
  "i mod 2 \<noteq> 0 \<Longrightarrow> \<not> i div 2 < length es \<Longrightarrow> frame_rest (BInternal es cs, i) = []"
  by simp_all

definition yields :: "('a list \<Rightarrow> 'b list) \<Rightarrow> 'a list \<Rightarrow> 'b option \<times> 'a list \<Rightarrow> bool" where
  "yields left st r = (case left st of [] \<Rightarrow> fst r = None \<and> left (snd r) = []
     | x # xs \<Rightarrow> fst r = Some x \<and> left (snd r) = xs)"

lemma yields_skip: "frame_rest f = [] \<Longrightarrow> yields rest st r \<Longrightarrow> yields rest (f # st) r"
  by (simp add: yields_def)

lemma iter_next_yields: "wf_frames st \<Longrightarrow> yields rest st (iter_next st) \<and> wf_frames (snd (iter_next st))"
proof (induction st rule: iter_next.induct)
  case (2 es i st)
  then show ?case by (cases "i < length es") (simp_all add: yields_def Cons_nth_drop_Suc[symmetric])
next
  case (3 es cs i st)
  have w: "length cs = Suc (length es)" using 3(4) by simp
  consider (down) "i mod 2 = 0" "i div 2 < length cs" | (past) "i mod 2 = 0" "\<not> i div 2 < length cs"
    | (emit) "i mod 2 \<noteq> 0" "i div 2 < length es" | (out) "i mod 2 \<noteq> 0" "\<not> i div 2 < length es" by blast
  then show ?case
  proof cases
    case down
    have "yields rest ((cs ! (i div 2), 0) # (BInternal es cs, Suc i) # st) (iter_next ((BInternal es cs, i) # st))
      \<and> wf_frames (snd (iter_next ((BInternal es cs, i) # st)))"
      using 3(1)[OF down] 3(4) down by simp
    then show ?thesis unfolding yields_def using frame_rest_down[OF down w] by simp
  next
    case past
    then have "iter_next ((BInternal es cs, i) # st) = iter_next st" by simp
    with 3(2)[OF past] 3(4) frame_rest_over(1)[OF past, of es] show ?thesis
      by (simp add: yields_skip del: iter_next.simps frame_rest.simps)
  next
    case emit
    with 3(4) show ?thesis unfolding yields_def using frame_rest_emit[OF emit w] by simp
  next
    case out
    then have "iter_next ((BInternal es cs, i) # st) = iter_next st" by simp
    with 3(3)[OF out] 3(4) frame_rest_over(2)[OF out, of cs] show ?thesis
      by (simp add: yields_skip del: iter_next.simps frame_rest.simps)
  qed
qed (simp add: yields_def)

lemma iter_collect_rest: "wf_frames st \<Longrightarrow> iter_collect st = rest st"
proof (induction st rule: iter_collect.induct)
  case (1 st)
  obtain r st' where n: "iter_next st = (r, st')" by fastforce
  from iter_next_yields[OF 1(2)] n have y: "yields rest st (r, st')" "wf_frames st'" by auto
  show ?case
  proof (cases r)
    case None
    with y(1) n show ?thesis by (subst iter_collect.simps) (auto simp: yields_def split: list.splits)
  next
    case (Some x)
    with 1(1)[OF n[symmetric] Some] y n show ?thesis
      by (subst iter_collect.simps) (auto simp: yields_def split: list.splits)
  qed
qed

section \<open>Ascending range scans\<close>

datatype 'k bound = Unbounded | Included 'k | Excluded 'k

fun lower_index :: "('k::linorder \<times> 'v) list \<Rightarrow> 'k bound \<Rightarrow> nat" where
  "lower_index es Unbounded = 0"
| "lower_index es (Included k) = partition_point (\<lambda>e. fst e < k) es"
| "lower_index es (Excluded k) = partition_point (\<lambda>e. fst e \<le> k) es"

fun range_seek :: "('k::linorder, 'v) bnode \<Rightarrow> 'k bound \<Rightarrow> ('k, 'v) frames \<Rightarrow> ('k, 'v) frames option" where
  "range_seek (BLeaf es) lo st = Some ((BLeaf es, lower_index es lo) # st)"
| "range_seek (BInternal es cs) lo st =
     (let i = lower_index es lo
      in if i < length cs then range_seek (cs ! i) lo ((BInternal es cs, 2 * i + 1) # st) else None)"

record ('k, 'v) range_iter =
  inner :: "('k, 'v) frames"
  hi_key :: "'k option"
  hi_incl :: bool
  finished :: bool

definition range_node :: "('k::linorder, 'v) bnode \<Rightarrow> 'k bound \<Rightarrow> 'k bound \<Rightarrow> ('k, 'v) range_iter option" where
  "range_node t lo hi =
     (case range_seek t lo [] of
        None \<Rightarrow> None
      | Some st \<Rightarrow>
          (let (k, incl) = (case hi of Unbounded \<Rightarrow> (None, False) | Included k \<Rightarrow> (Some k, True) | Excluded k \<Rightarrow> (Some k, False))
           in Some \<lparr>inner = st, hi_key = k, hi_incl = incl, finished = False\<rparr>))"

definition range_next :: "('k::linorder, 'v) range_iter \<Rightarrow> ('k \<times> 'v) option \<times> ('k, 'v) range_iter" where
  "range_next it =
     (if finished it then (None, it)
      else case iter_next (inner it) of
        (None, st) \<Rightarrow> (None, it\<lparr>inner := st\<rparr>)
      | (Some (k, v), st) \<Rightarrow>
          (case hi_key it of
             Some h \<Rightarrow>
               (if (if hi_incl it then h < k else h \<le> k)
                then (None, it\<lparr>inner := st, finished := True\<rparr>)
                else (Some (k, v), it\<lparr>inner := st\<rparr>))
           | None \<Rightarrow> (Some (k, v), it\<lparr>inner := st\<rparr>)))"

lemma range_next_work: "range_next it = (Some x, it') \<Longrightarrow> work (inner it') < work (inner it)"
  unfolding range_next_def
  by (auto split: if_splits prod.splits option.splits dest: iter_next_work)

function range_collect :: "('k::linorder, 'v) range_iter \<Rightarrow> ('k \<times> 'v) list" where
  "range_collect it =
     (case range_next it of (None, _) \<Rightarrow> [] | (Some x, it') \<Rightarrow> x # range_collect it')"
  by pat_completeness auto
termination
  by (relation "measure (\<lambda>it. work (inner it))") (auto dest: range_next_work sym)

declare range_collect.simps [simp del]

fun below_bound :: "'k::linorder bound \<Rightarrow> 'k \<Rightarrow> bool" where
  "below_bound Unbounded k = False"
| "below_bound (Included b) k = (k < b)"
| "below_bound (Excluded b) k = (k \<le> b)"

fun within_hi :: "'k::linorder bound \<Rightarrow> 'k \<Rightarrow> bool" where
  "within_hi Unbounded k = True"
| "within_hi (Included b) k = (k \<le> b)"
| "within_hi (Excluded b) k = (k < b)"

lemma down_closed_below [simp]: "down_closed (below_bound lo)"
  by (cases lo) (auto simp: down_closed_def)

lemma down_closed_within [simp]: "down_closed (within_hi hi)"
  by (cases hi) (auto simp: down_closed_def)

lemma lower_index_below: "lower_index es lo = partition_point (\<lambda>e. below_bound lo (fst e)) es"
  by (cases lo; cases es) (auto simp: partition_point_def)

lemma dropWhile_cut:
  assumes "keys_ascending es" "down_closed P"
  shows "dropWhile (\<lambda>e. P (fst e)) es = filter (\<lambda>e. \<not> P (fst e)) es"
  using assms
proof (induction es)
  case (Cons e es)
  show ?case
  proof (cases "P (fst e)")
    case False
    then have "\<forall>x\<in>set es. \<not> P (fst x)" using Cons.prems unfolding down_closed_def by auto
    with False show ?thesis by (simp add: filter_id_conv)
  qed (use Cons in simp)
qed simp

lemma range_seek_rest:
  assumes "shape m lw d t" "keys_ascending (inorder t)" "wf_frames st"
  shows "\<exists>st'. range_seek t lo st = Some st' \<and> wf_frames st'
    \<and> rest st' = filter (\<lambda>e. \<not> below_bound lo (fst e)) (inorder t) @ rest st"
  using assms
proof (induction t lo st arbitrary: m d rule: range_seek.induct)
  case (1 es lo st)
  have "drop (lower_index es lo) es = dropWhile (\<lambda>e. below_bound lo (fst e)) es"
    unfolding lower_index_below partition_point_def by (rule dropWhile_eq_drop[symmetric])
  with 1 dropWhile_cut[of es "below_bound lo"] show ?case by simp
next
  case (2 es cs lo st)
  define i where "i = partition_point (\<lambda>e. below_bound lo (fst e)) es"
  obtain as c bs xs ys where s: "cs = as @ c # bs" "es = xs @ ys" "length as = i" "length xs = i"
    "length bs = length ys" "shape lw lw (d - 1) c" "keys_ascending (inorder c)"
    "inorder (BInternal es cs) = before (map inorder as) xs @ inorder c @ behind ys (map inorder bs)"
    "\<forall>e\<in>set (before (map inorder as) xs). below_bound lo (fst e)" "\<forall>e\<in>set (behind ys (map inorder bs)). \<not> below_bound lo (fst e)"
    by (rule partition_slot[OF 2(2,3) down_closed_below[of lo] i_def])
  have ci: "i < length cs" "cs ! i = c" using s by auto
  have li: "lower_index es lo = i" by (simp add: lower_index_below i_def)
  have fr: "frame_rest (BInternal es cs, 2 * i + 1) = behind ys (map inorder bs)"
    using s(1-4) by simp
  have w: "wf_frames ((BInternal es cs, 2 * i + 1) # st)" using shape_wf_node[OF 2(2)] 2(4) by simp
  from 2(1)[of i lw "d - 1"] li ci s(6,7) w obtain st' where st': "range_seek c lo ((BInternal es cs, 2 * i + 1) # st) = Some st'"
    "wf_frames st'" "rest st' = filter (\<lambda>e. \<not> below_bound lo (fst e)) (inorder c) @ rest ((BInternal es cs, 2 * i + 1) # st)"
    by (metis fst_conv)
  have "filter (\<lambda>e. \<not> below_bound lo (fst e)) (inorder (BInternal es cs)) =
      filter (\<lambda>e. \<not> below_bound lo (fst e)) (inorder c) @ behind ys (map inorder bs)"
    unfolding s(8) using s(9,10) by (simp add: filter_empty_conv filter_id_conv)
  moreover have "range_seek (BInternal es cs) lo st = Some st'"
    unfolding range_seek.simps Let_def li using ci st'(1) by simp
  ultimately show ?case using st'(2,3) fr by (simp del: range_seek.simps inorder.simps frame_rest.simps)
qed

definition range_limit :: "('k::linorder, 'v) range_iter \<Rightarrow> 'k \<Rightarrow> bool" where
  "range_limit it k = (case hi_key it of None \<Rightarrow> True | Some h \<Rightarrow> (if hi_incl it then k \<le> h else k < h))"

lemma range_limit_inner [simp]: "range_limit (it\<lparr>inner := st\<rparr>) = range_limit it"
  by (rule ext) (simp add: range_limit_def split: option.split)

lemma range_collect_rest:
  assumes "wf_frames (inner it)" "\<not> finished it"
  shows "range_collect it = takeWhile (\<lambda>e. range_limit it (fst e)) (rest (inner it))"
  using assms
proof (induction it rule: range_collect.induct)
  case (1 it)
  obtain r st' where n: "iter_next (inner it) = (r, st')" by fastforce
  from iter_next_yields[OF 1(2)] n have y: "yields rest (inner it) (r, st')" "wf_frames st'" by auto
  show ?case
  proof (cases r)
    case None
    with y(1) n 1(3) show ?thesis
      by (subst range_collect.simps) (auto simp: yields_def range_next_def split: list.splits)
  next
    case (Some x)
    obtain k v where x: "x = (k, v)" by fastforce
    have re: "rest (inner it) = x # rest st'" using y(1) Some by (auto simp: yields_def split: list.splits)
    have rn: "range_next it = (if range_limit it k then (Some x, it\<lparr>inner := st'\<rparr>) else (None, it\<lparr>inner := st', finished := True\<rparr>))"
      using n Some x 1(3) by (auto simp: range_next_def range_limit_def not_le not_less split: option.splits)
    show ?thesis
    proof (cases "range_limit it k")
      case True
      have "range_collect (it\<lparr>inner := st'\<rparr>) = takeWhile (\<lambda>e. range_limit it (fst e)) (rest st')"
        using 1(1)[of "Some x" "it\<lparr>inner := st'\<rparr>" x] rn True y(2) 1(3) by simp
      with rn True re x show ?thesis by (subst range_collect.simps) simp
    next
      case False
      with rn re x show ?thesis by (subst range_collect.simps) simp
    qed
  qed
qed

lemma range_node_correct:
  assumes "shape m lw d t" "keys_ascending (inorder t)"
  shows "\<exists>it. range_node t lo hi = Some it
    \<and> range_collect it = filter (\<lambda>e. \<not> below_bound lo (fst e) \<and> within_hi hi (fst e)) (inorder t)"
proof -
  from range_seek_rest[OF assms, of "[]" lo] obtain st where st: "range_seek t lo [] = Some st" "wf_frames st"
    "rest st = filter (\<lambda>e. \<not> below_bound lo (fst e)) (inorder t)" by auto
  then obtain it where it: "range_node t lo hi = Some it" "inner it = st" "\<not> finished it" "range_limit it = within_hi hi"
    by (cases hi) (auto simp: range_node_def range_limit_def fun_eq_iff)
  have "keys_ascending (rest st)" unfolding st(3) using assms(2) by (metis sorted_wrt_filter sorted_wrt_map)
  then have "takeWhile (\<lambda>e. within_hi hi (fst e)) (rest st) = filter (\<lambda>e. within_hi hi (fst e)) (rest st)"
    by (simp add: takeWhile_cut)
  with it st range_collect_rest[of it] show ?thesis by (simp add: conj_commute)
qed

end
