(* ===== verification/BTree_Iter_Rev.thy ===== *)
theory BTree_Iter_Rev
  imports BTree_Iter
begin

text \<open>
  The descending iterator of the B-tree and the descending group scan
  \<open>range_rev_by\<close>. A position that names no child or entry is a panic, \<open>None\<close>.
\<close>

section \<open>Descending iteration\<close>

fun frame_work_rev :: "('k, 'v) bnode \<times> nat \<Rightarrow> nat" where
  "frame_work_rev (BLeaf es, p) = Suc (Suc (length es) - p)"
| "frame_work_rev (BInternal es cs, p) =
     Suc (2 * length es + 2 - p) + sum_list (map node_work (take (Suc (length es) - p div 2) cs))"

definition work_rev :: "('k, 'v) frames \<Rightarrow> nat" where
  "work_rev st = sum_list (map frame_work_rev st)"

lemma work_rev_simps [simp]: "work_rev [] = 0" "work_rev (f # st) = frame_work_rev f + work_rev st"
  by (auto simp: work_rev_def)

lemma sum_take_le: "sum_list (map f (take n xs)) \<le> (sum_list (map f xs) :: nat)"
  by (metis append_take_drop_id le_add1 map_append sum_list_append)

lemma frame_work_rev_start: "frame_work_rev (t, Suc 0) \<le> node_work t"
proof (cases t)
  case (BInternal es cs)
  then show ?thesis using sum_take_le[of node_work "Suc (length es)" cs] by simp
qed simp

lemma descend_work_rev:
  assumes "p \<le> 2 * length es + 1" "p mod 2 = 1" "length es - (p - 1) div 2 < length cs"
  shows "frame_work_rev (cs ! (length es - (p - 1) div 2), Suc 0) + frame_work_rev (BInternal es cs, Suc p)
    < frame_work_rev (BInternal es cs, p)"
proof -
  define j where "j = length es - (p - 1) div 2"
  have n: "Suc (length es) - p div 2 = Suc j" "Suc (length es) - Suc p div 2 = j"
    using assms(1,2) unfolding j_def by presburger+
  have "sum_list (map node_work (take (Suc j) cs)) = sum_list (map node_work (take j cs)) + node_work (cs ! j)"
    using assms(3) by (simp add: take_Suc_conv_app_nth j_def)
  with assms(1) frame_work_rev_start[of "cs ! j"] show ?thesis
    unfolding j_def[symmetric] frame_work_rev.simps n by linarith
qed

function iter_rev_next :: "('k, 'v) frames \<Rightarrow> (('k \<times> 'v) option \<times> ('k, 'v) frames) option" where
  "iter_rev_next [] = Some (None, [])"
| "iter_rev_next ((BLeaf es, p) # st) =
     (if p \<le> length es then
        (if length es - p < length es then Some (Some (es ! (length es - p)), (BLeaf es, Suc p) # st) else None)
      else iter_rev_next st)"
| "iter_rev_next ((BInternal es cs, p) # st) =
     (if p \<le> 2 * length es + 1 then
        (if p mod 2 = 1 then
           (if length es - (p - 1) div 2 < length cs
            then iter_rev_next ((cs ! (length es - (p - 1) div 2), Suc 0) # (BInternal es cs, Suc p) # st)
            else None)
         else
           (if length es - p div 2 < length es
            then Some (Some (es ! (length es - p div 2)), (BInternal es cs, Suc p) # st)
            else None))
      else iter_rev_next st)"
  by pat_completeness auto
termination
proof (relation "measure work_rev", goal_cases)
  case (3 es cs p st)
  then show ?case using descend_work_rev[of p es cs] by (simp del: frame_work_rev.simps)
qed auto

lemma iter_rev_next_work: "iter_rev_next st = Some (Some x, st') \<Longrightarrow> work_rev st' < work_rev st"
proof (induction st arbitrary: x st' rule: iter_rev_next.induct)
  case (3 es cs p st)
  consider (down) "p \<le> 2 * length es + 1" "p mod 2 = 1" "length es - (p - 1) div 2 < length cs"
    | (emit) "p \<le> 2 * length es + 1" "p mod 2 \<noteq> 1" "length es - p div 2 < length es"
    | (over) "\<not> p \<le> 2 * length es + 1"
    using 3(3) by (auto split: if_splits)
  then show ?case
  proof cases
    case down
    then have "work_rev st' < work_rev ((cs ! (length es - (p - 1) div 2), Suc 0) # (BInternal es cs, Suc p) # st)"
      using 3(1)[OF down] 3(3) by simp
    also have "\<dots> < work_rev ((BInternal es cs, p) # st)"
      using descend_work_rev[OF down] by (simp del: frame_work_rev.simps)
    finally show ?thesis .
  next
    case emit
    have "Suc p div 2 = p div 2" using emit by presburger
    with 3(3) emit show ?thesis by auto
  next
    case over
    with 3 show ?thesis by (auto simp: trans_less_add2)
  qed
qed (auto split: if_splits simp: trans_less_add2)

function iter_rev_collect :: "('k, 'v) frames \<Rightarrow> ('k \<times> 'v) list option" where
  "iter_rev_collect st =
     (case iter_rev_next st of
        None \<Rightarrow> None
      | Some (None, _) \<Rightarrow> Some []
      | Some (Some x, st') \<Rightarrow> map_option (Cons x) (iter_rev_collect st'))"
  by pat_completeness auto
termination
  by (relation "measure work_rev") (auto dest: iter_rev_next_work sym)

declare iter_rev_collect.simps [simp del]

subsection \<open>What is left on the stack\<close>

fun frame_rest_rev :: "('k, 'v) bnode \<times> nat \<Rightarrow> ('k \<times> 'v) list" where
  "frame_rest_rev (BLeaf es, p) = rev (take (Suc (length es) - p) es)"
| "frame_rest_rev (BInternal es cs, p) =
     (let n = Suc (length es) - p div 2
      in if p mod 2 = 1 then rev (weave (map inorder (take n cs)) (take (n - 1) es))
         else rev (before (map inorder (take n cs)) (take n es)))"

fun wf_frame_rev :: "('k, 'v) bnode \<times> nat \<Rightarrow> bool" where
  "wf_frame_rev (BLeaf es, p) = (0 < p)"
| "wf_frame_rev (BInternal es cs, p) = (0 < p \<and> p \<le> 2 * length es + 2 \<and> wf_node (BInternal es cs))"

definition rest_rev :: "('k, 'v) frames \<Rightarrow> ('k \<times> 'v) list" where
  "rest_rev st = concat (map frame_rest_rev st)"

definition wf_rev :: "('k, 'v) frames \<Rightarrow> bool" where
  "wf_rev st = (\<forall>f\<in>set st. wf_frame_rev f)"

lemma rest_rev_simps [simp]: "rest_rev [] = []" "rest_rev (f # st) = frame_rest_rev f @ rest_rev st"
  by (auto simp: rest_rev_def)

lemma wf_rev_simps [simp]: "wf_rev []" "wf_rev (f # st) \<longleftrightarrow> wf_frame_rev f \<and> wf_rev st"
  by (auto simp: wf_rev_def)

lemma frame_rest_rev_start [simp]: "wf_node t \<Longrightarrow> frame_rest_rev (t, Suc 0) = rev (inorder t)"
  by (cases t) auto

lemma wf_frame_rev_start [simp]: "wf_node t \<Longrightarrow> wf_frame_rev (t, Suc 0)"
  by (cases t) auto

lemma before_snoc:
  "length as = length xs \<Longrightarrow> before (as @ [c]) (xs @ [e]) = before as xs @ c @ [e]"
  by (induction as xs rule: list_induct2) auto

lemma weave_before: "length as = length xs \<Longrightarrow> weave (as @ [c]) xs = before as xs @ c"
  using weave_parts[of as xs "[]" "[]" c] by simp

lemma frame_rest_rev_down:
  assumes "p \<le> 2 * length es + 1" "p mod 2 = 1" "length cs = Suc (length es)"
  shows "frame_rest_rev (BInternal es cs, p) =
    rev (inorder (cs ! (length es - (p - 1) div 2))) @ frame_rest_rev (BInternal es cs, Suc p)"
proof -
  define j where "j = length es - (p - 1) div 2"
  have n: "Suc (length es) - p div 2 = Suc j" "Suc (length es) - Suc p div 2 = j" "Suc p mod 2 \<noteq> 1"
    using assms(1,2) unfolding j_def by presburger+
  have "j < length cs" "j \<le> length es" using assms(3) by (auto simp: j_def)
  then show ?thesis unfolding j_def[symmetric] using assms(2,3) n
    by (simp add: Let_def take_Suc_conv_app_nth weave_before)
qed

lemma frame_rest_rev_emit:
  assumes "p \<le> 2 * length es + 1" "p mod 2 \<noteq> 1" "0 < p" "length cs = Suc (length es)"
  shows "frame_rest_rev (BInternal es cs, p) =
    es ! (length es - p div 2) # frame_rest_rev (BInternal es cs, Suc p)"
proof -
  define j where "j = length es - p div 2"
  have n: "Suc (length es) - p div 2 = Suc j" "Suc (length es) - Suc p div 2 = Suc j" "Suc p mod 2 = 1"
    using assms(1-3) unfolding j_def by presburger+
  have j: "j < length cs" "j < length es" using assms unfolding j_def by presburger+
  then show ?thesis unfolding j_def[symmetric] using assms(2,4) n
    by (simp add: Let_def take_Suc_conv_app_nth weave_before before_snoc)
qed

lemma frame_rest_rev_over:
  "2 * length es + 1 < p \<Longrightarrow> p \<le> 2 * length es + 2 \<Longrightarrow> frame_rest_rev (BInternal es cs, p) = []"
proof -
  assume "2 * length es + 1 < p" "p \<le> 2 * length es + 2"
  then have "p = 2 * length es + 2" by simp
  then show ?thesis by simp
qed

lemma yields_skip_rev: "frame_rest_rev f = [] \<Longrightarrow> yields rest_rev st r \<Longrightarrow> yields rest_rev (f # st) r"
  by (simp add: yields_def)

lemma iter_rev_next_yields:
  "wf_rev st \<Longrightarrow> \<exists>r. iter_rev_next st = Some r \<and> yields rest_rev st r \<and> wf_rev (snd r)"
proof (induction st rule: iter_rev_next.induct)
  case (2 es p st)
  show ?case
  proof (cases "p \<le> length es")
    case True
    have l: "Suc (length es) - p = Suc (length es - p)" "length es - p < length es" using True 2(2) by auto
    then have "rev (take (Suc (length es) - p) es) = es ! (length es - p) # rev (take (length es - p) es)"
      by (simp add: take_Suc_conv_app_nth)
    with True 2(2) l(2) show ?thesis by (simp add: yields_def)
  next
    case False
    with 2 show ?thesis by (auto simp: yields_skip_rev)
  qed
next
  case (3 es cs p st)
  have w: "length cs = Suc (length es)" "\<forall>c\<in>set cs. wf_node c" "0 < p" "p \<le> 2 * length es + 2" "wf_rev st"
    using 3(3) by auto
  consider (down) "p \<le> 2 * length es + 1" "p mod 2 = 1" | (emit) "p \<le> 2 * length es + 1" "p mod 2 \<noteq> 1"
    | (over) "\<not> p \<le> 2 * length es + 1" by blast
  then show ?case
  proof cases
    case down
    let ?j = "length es - (p - 1) div 2"
    have j: "?j < length cs" using w(1) by simp
    have c: "wf_node (cs ! ?j)" using w(2) j by (metis nth_mem)
    let ?st = "(cs ! ?j, Suc 0) # (BInternal es cs, Suc p) # st"
    have "wf_rev ?st" using c w down(1) by simp
    from 3(1)[OF down j this] obtain r where r: "iter_rev_next ?st = Some r" "yields rest_rev ?st r" "wf_rev (snd r)"
      by blast
    have "rest_rev ?st = rest_rev ((BInternal es cs, p) # st)"
      using frame_rest_rev_down[OF down w(1)] c by (simp del: frame_rest_rev.simps)
    with r(2) have "yields rest_rev ((BInternal es cs, p) # st) r" by (simp only: yields_def)
    with r(1,3) down j show ?thesis by simp
  next
    case emit
    have j: "length es - p div 2 < length es" using emit w(3) by presburger
    have "yields rest_rev ((BInternal es cs, p) # st) (Some (es ! (length es - p div 2)), (BInternal es cs, Suc p) # st)"
      using frame_rest_rev_emit[OF emit w(3,1)] by (simp add: yields_def del: frame_rest_rev.simps)
    with emit j w show ?thesis by simp
  next
    case over
    with 3(2)[OF over w(5)] frame_rest_rev_over[of es p cs] w(4) show ?thesis
      by (auto intro!: yields_skip_rev simp del: frame_rest_rev.simps)
  qed
qed (simp add: yields_def)

lemma iter_rev_collect_rest: "wf_rev st \<Longrightarrow> iter_rev_collect st = Some (rest_rev st)"
proof (induction st rule: iter_rev_collect.induct)
  case (1 st)
  from iter_rev_next_yields[OF 1(2)] obtain r st' where n: "iter_rev_next st = Some (r, st')"
    and y: "yields rest_rev st (r, st')" "wf_rev st'" by fastforce
  show ?case
  proof (cases r)
    case None
    with y(1) n show ?thesis by (subst iter_rev_collect.simps) (auto simp: yields_def split: list.splits)
  next
    case (Some x)
    with 1(1)[OF n refl Some] y n show ?thesis
      by (subst iter_rev_collect.simps) (auto simp: yields_def split: list.splits)
  qed
qed

section \<open>Descending group scans\<close>

definition upper_index_by :: "('k \<times> 'v) list \<Rightarrow> ('k \<Rightarrow> bool) \<Rightarrow> nat" where
  "upper_index_by es abv = partition_point (\<lambda>e. \<not> abv (fst e)) es"

fun range_rev_seek :: "('k, 'v) bnode \<Rightarrow> ('k \<Rightarrow> bool) \<Rightarrow> ('k, 'v) frames \<Rightarrow> ('k, 'v) frames option" where
  "range_rev_seek (BLeaf es) abv st =
     (let j = upper_index_by es abv in Some ((BLeaf es, length es - j + 1) # st))"
| "range_rev_seek (BInternal es cs) abv st =
     (let j = upper_index_by es abv
      in if j < length cs
         then range_rev_seek (cs ! j) abv ((BInternal es cs, 2 * (length es - j) + 2) # st)
         else None)"

record ('k, 'v) range_iter_rev =
  rev_inner :: "('k, 'v) frames"
  rev_below :: "'k \<Rightarrow> bool"
  rev_finished :: bool

definition range_rev_by_node ::
  "('k, 'v) bnode \<Rightarrow> ('k \<Rightarrow> bool) \<Rightarrow> ('k \<Rightarrow> bool) \<Rightarrow> ('k, 'v) range_iter_rev option" where
  "range_rev_by_node t abv bel =
     map_option (\<lambda>st. \<lparr>rev_inner = st, rev_below = bel, rev_finished = False\<rparr>) (range_rev_seek t abv [])"

definition range_rev_next ::
  "('k, 'v) range_iter_rev \<Rightarrow> (('k \<times> 'v) option \<times> ('k, 'v) range_iter_rev) option" where
  "range_rev_next it =
     (if rev_finished it then Some (None, it)
      else case iter_rev_next (rev_inner it) of
        None \<Rightarrow> None
      | Some (None, st) \<Rightarrow> Some (None, it\<lparr>rev_inner := st\<rparr>)
      | Some (Some (k, v), st) \<Rightarrow>
          (if rev_below it k then Some (None, it\<lparr>rev_inner := st, rev_finished := True\<rparr>)
           else Some (Some (k, v), it\<lparr>rev_inner := st\<rparr>)))"

lemma range_rev_next_work:
  "range_rev_next it = Some (Some x, it') \<Longrightarrow> work_rev (rev_inner it') < work_rev (rev_inner it)"
  unfolding range_rev_next_def
  by (auto split: if_splits prod.splits option.splits dest: iter_rev_next_work)

function range_rev_collect :: "('k, 'v) range_iter_rev \<Rightarrow> ('k \<times> 'v) list option" where
  "range_rev_collect it =
     (case range_rev_next it of
        None \<Rightarrow> None
      | Some (None, _) \<Rightarrow> Some []
      | Some (Some x, it') \<Rightarrow> map_option (Cons x) (range_rev_collect it'))"
  by pat_completeness auto
termination
  by (relation "measure (\<lambda>it. work_rev (rev_inner it))") (auto dest: range_rev_next_work sym)

declare range_rev_collect.simps [simp del]


lemma range_rev_seek_rest:
  assumes "shape m lw d t" "keys_ascending (inorder t)" "wf_rev st" "down_closed (\<lambda>k. \<not> abv k)"
  shows "\<exists>st'. range_rev_seek t abv st = Some st' \<and> wf_rev st'
    \<and> rest_rev st' = rev (filter (\<lambda>e. \<not> abv (fst e)) (inorder t)) @ rest_rev st"
  using assms
proof (induction t abv st arbitrary: m d rule: range_rev_seek.induct)
  case (1 es abv st)
  let ?j = "upper_index_by es abv"
  have "?j \<le> length es" by (simp add: upper_index_by_def)
  moreover have "take ?j es = filter (\<lambda>e. \<not> abv (fst e)) es"
    using takeWhile_cut[of es "\<lambda>k. \<not> abv k"] 1(2,4) takeWhile_eq_take[of "\<lambda>e. \<not> abv (fst e)" es]
    unfolding upper_index_by_def partition_point_def by simp
  ultimately show ?case using 1(3) by (simp add: Let_def)
next
  case (2 es cs abv st)
  define i where "i = partition_point (\<lambda>e. \<not> abv (fst e)) es"
  obtain as c bs xs ys where s: "cs = as @ c # bs" "es = xs @ ys" "length as = i" "length xs = i"
    "length bs = length ys" "shape lw lw (d - 1) c" "keys_ascending (inorder c)"
    "inorder (BInternal es cs) = before (map inorder as) xs @ inorder c @ behind ys (map inorder bs)"
    "\<forall>e\<in>set (before (map inorder as) xs). \<not> abv (fst e)" "\<forall>e\<in>set (behind ys (map inorder bs)). \<not> \<not> abv (fst e)"
    by (rule partition_slot[OF 2(2,3,5) i_def])
  let ?st = "(BInternal es cs, 2 * (length es - i) + 2) # st"
  have ci: "i < length cs" "cs ! i = c" "i \<le> length es" using s by auto
  have ui: "upper_index_by es abv = i" by (simp add: upper_index_by_def i_def)
  have n: "Suc (length es) - (2 * (length es - i) + 2) div 2 = i" "(2 * (length es - i) + 2) mod 2 = 0"
    using ci(3) by auto
  have fr: "frame_rest_rev (BInternal es cs, 2 * (length es - i) + 2) = rev (before (map inorder as) xs)"
    unfolding frame_rest_rev.simps Let_def n using s(1-4) by simp
  have w: "wf_rev ?st" using shape_wf_node[OF 2(2)] 2(4) by simp
  have "\<exists>st'. range_rev_seek c abv ?st = Some st' \<and> wf_rev st'
    \<and> rest_rev st' = rev (filter (\<lambda>e. \<not> abv (fst e)) (inorder c)) @ rest_rev ?st"
    using 2(1)[of i lw "d - 1"] ui ci(1,2) s(6,7) w 2(5) by simp
  then obtain st' where st': "range_rev_seek c abv ?st = Some st'" "wf_rev st'"
    "rest_rev st' = rev (filter (\<lambda>e. \<not> abv (fst e)) (inorder c)) @ rev (before (map inorder as) xs) @ rest_rev st"
    using fr by auto
  have "filter (\<lambda>e. \<not> abv (fst e)) (inorder (BInternal es cs)) =
      before (map inorder as) xs @ filter (\<lambda>e. \<not> abv (fst e)) (inorder c)"
    unfolding s(8) using s(9,10) by (simp add: filter_empty_conv filter_id_conv)
  moreover have "range_rev_seek (BInternal es cs) abv st = Some st'"
    unfolding range_rev_seek.simps Let_def ui using ci st'(1) by simp
  ultimately show ?case using st'(2,3) by (simp del: range_rev_seek.simps inorder.simps)
qed

lemma range_rev_collect_rest:
  assumes "wf_rev (rev_inner it)" "\<not> rev_finished it"
  shows "range_rev_collect it = Some (takeWhile (\<lambda>e. \<not> rev_below it (fst e)) (rest_rev (rev_inner it)))"
  using assms
proof (induction it rule: range_rev_collect.induct)
  case (1 it)
  from iter_rev_next_yields[OF 1(2)] obtain r st' where n: "iter_rev_next (rev_inner it) = Some (r, st')"
    and y: "yields rest_rev (rev_inner it) (r, st')" "wf_rev st'" by fastforce
  show ?case
  proof (cases r)
    case None
    with y(1) n 1(3) show ?thesis
      by (subst range_rev_collect.simps) (auto simp: yields_def range_rev_next_def split: list.splits)
  next
    case (Some x)
    obtain k v where x: "x = (k, v)" by fastforce
    have re: "rest_rev (rev_inner it) = x # rest_rev st'" using y(1) Some by (auto simp: yields_def split: list.splits)
    have rn: "range_rev_next it = (if rev_below it k then Some (None, it\<lparr>rev_inner := st', rev_finished := True\<rparr>)
        else Some (Some x, it\<lparr>rev_inner := st'\<rparr>))"
      using n Some x 1(3) by (auto simp: range_rev_next_def)
    show ?thesis
    proof (cases "rev_below it k")
      case False
      have "range_rev_collect (it\<lparr>rev_inner := st'\<rparr>) = Some (takeWhile (\<lambda>e. \<not> rev_below it (fst e)) (rest_rev st'))"
        using 1(1)[of "(Some x, it\<lparr>rev_inner := st'\<rparr>)" "Some x" "it\<lparr>rev_inner := st'\<rparr>" x] rn False y(2) 1(3) by simp
      with rn False re x show ?thesis by (subst range_rev_collect.simps) simp
    next
      case True
      with rn re x show ?thesis by (subst range_rev_collect.simps) simp
    qed
  qed
qed

lemma takeWhile_rev_cut:
  assumes "keys_ascending es" "down_closed P"
  shows "takeWhile (\<lambda>e. \<not> P (fst e)) (rev es) = rev (filter (\<lambda>e. \<not> P (fst e)) es)"
  using assms
proof (induction es rule: rev_induct)
  case (snoc e es)
  show ?case
  proof (cases "P (fst e)")
    case True
    have "\<forall>x\<in>set es. fst x < fst e" using snoc.prems by (simp add: sorted_wrt_append)
    then have "\<forall>x\<in>set es. P (fst x)" using True snoc.prems(2) unfolding down_closed_def by blast
    with True show ?thesis by (simp add: filter_empty_conv)
  qed (use snoc in \<open>simp add: sorted_wrt_append\<close>)
qed simp

lemma range_rev_by_node_correct:
  assumes "shape m lw d t" "keys_ascending (inorder t)" "down_closed (\<lambda>k. \<not> abv k)" "down_closed bel"
  shows "\<exists>it. range_rev_by_node t abv bel = Some it
    \<and> range_rev_collect it = Some (rev (filter (\<lambda>e. \<not> abv (fst e) \<and> \<not> bel (fst e)) (inorder t)))"
proof -
  from range_rev_seek_rest[OF assms(1,2) _ assms(3), of "[]"] obtain st where st: "range_rev_seek t abv [] = Some st" "wf_rev st"
    "rest_rev st = rev (filter (\<lambda>e. \<not> abv (fst e)) (inorder t))" by auto
  have "keys_ascending (filter (\<lambda>e. \<not> abv (fst e)) (inorder t))"
    using assms(2) by (metis sorted_wrt_filter sorted_wrt_map)
  from takeWhile_rev_cut[OF this assms(4)] range_rev_collect_rest[of "\<lparr>rev_inner = st, rev_below = bel, rev_finished = False\<rparr>"]
  show ?thesis using st by (simp add: range_rev_by_node_def conj_commute)
qed

end
