(* ===== verification/BTree_Bulk.thy ===== *)
theory BTree_Bulk
  imports BTree_Remove BTree_Reads
begin

text \<open>
  Bulk construction of the B-tree from sorted entries (\<open>PersistentBTreeMap::from_sorted\<close>):
  leaf runs with separators between them, then one level after the other until one node is left.
\<close>

section \<open>The construction\<close>

definition div_ceil :: "nat \<Rightarrow> nat \<Rightarrow> nat" where
  "div_ceil a b = a div b + (if a mod b = 0 then 0 else 1)"

text \<open>One leaf per group; \<open>n\<close> groups are left, \<open>remaining\<close> entries are left in \<open>it\<close>.\<close>

fun leaf_runs ::
  "nat \<Rightarrow> nat \<Rightarrow> ('k \<times> 'v) list \<Rightarrow> (('k, 'v) bnode list \<times> ('k \<times> 'v) list) option" where
  "leaf_runs 0 remaining it = Some ([], [])"
| "leaf_runs (Suc n) remaining it =
     (if remaining < n then None
      else
        let cnt = div_ceil (remaining - n) (Suc n);
            leaf = take cnt it;
            it1 = drop cnt it;
            remaining1 = remaining - length leaf
        in if 0 < n then
             (case it1 of
                [] \<Rightarrow> None
              | sep # it2 \<Rightarrow>
                  (case leaf_runs n (remaining1 - 1) it2 of
                     None \<Rightarrow> None
                   | Some (nodes, seps) \<Rightarrow> Some (BLeaf leaf # nodes, sep # seps)))
           else Some ([BLeaf leaf], []))"

fun level_loop ::
  "nat \<Rightarrow> ('k, 'v) bnode list \<Rightarrow> ('k \<times> 'v) list \<Rightarrow> ('k, 'v) bnode list \<Rightarrow> ('k \<times> 'v) list
     \<Rightarrow> ('k, 'v) bnode list \<Rightarrow> ('k \<times> 'v) list \<Rightarrow> (('k, 'v) bnode list \<times> ('k \<times> 'v) list) option" where
  "level_loop per [] seps children inn up_nodes up_seps =
     Some (up_nodes @ [BInternal inn children], up_seps)"
| "level_loop per (n # nodes) seps children inn up_nodes up_seps =
     (if children = [] then level_loop per nodes seps [n] inn up_nodes up_seps
      else
        (case seps of
           [] \<Rightarrow> None
         | sep # seps' \<Rightarrow>
             (if length children < per
              then level_loop per nodes seps' (children @ [n]) (inn @ [sep]) up_nodes up_seps
              else level_loop per nodes seps' [n] [] (up_nodes @ [BInternal inn children]) (up_seps @ [sep]))))"

definition level_up ::
  "('k, 'v) bnode list \<Rightarrow> ('k \<times> 'v) list \<Rightarrow> (('k, 'v) bnode list \<times> ('k \<times> 'v) list) option" where
  "level_up nodes seps =
     (let g = div_ceil (length nodes) MAX_CHILDREN; per = div_ceil (length nodes) g
      in level_loop per nodes seps [] [] [] [])"

lemma div_ceil_eq: "0 < b \<Longrightarrow> div_ceil a b = (a + b - 1) div b"
proof -
  assume b: "0 < b"
  define q r where "q = a div b" and "r = a mod b"
  have a: "a = q * b + r" "r < b" using b by (auto simp: q_def r_def)
  have "(a + b - 1) div b = q + (if r = 0 then 0 else 1)"
    by (rule div_nat_eqI) (use a b in \<open>auto simp: algebra_simps\<close>)
  then show ?thesis by (simp add: div_ceil_def q_def r_def)
qed

lemma div_ceil_small: "0 < a \<Longrightarrow> a \<le> b \<Longrightarrow> div_ceil a b = 1"
  by (cases "a = b") (auto simp: div_ceil_def)

lemma div_ceil_step: "0 < b \<Longrightarrow> b < a \<Longrightarrow> div_ceil a b = Suc (div_ceil (a - b) b)"
  by (auto simp: div_ceil_def le_div_geq le_mod_geq)

lemma div_ceil_less: "2 \<le> a \<Longrightarrow> 2 \<le> b \<Longrightarrow> div_ceil a b < a"
proof -
  assume ab: "2 \<le> a" "2 \<le> b"
  obtain a' where a: "a = a' + 2" using ab by (metis le_add_diff_inverse2)
  obtain b' where b: "b = b' + 2" using ab by (metis le_add_diff_inverse2)
  have "a + b - 1 < a * b" unfolding a b by (simp add: algebra_simps)
  then show ?thesis using ab by (simp add: div_ceil_eq div_less_iff_less_mult)
qed

lemma div_ceil_ge2: "g < n \<Longrightarrow> 0 < g \<Longrightarrow> 2 \<le> div_ceil n g"
proof -
  assume "g < n" "0 < g"
  then have "2 * g \<le> n + g - 1" by simp
  then have "2 \<le> (n + g - 1) div g" using \<open>0 < g\<close> by (simp add: less_eq_div_iff_mult_less_eq)
  then show ?thesis using \<open>0 < g\<close> by (simp add: div_ceil_eq)
qed

lemma group_size:
  assumes "2 \<le> n" "g = div_ceil n 8" "per = div_ceil n g"
  shows "2 \<le> per" "per \<le> 8"
proof -
  have g: "g = (n + 7) div 8" using assms(2) by (simp add: div_ceil_eq)
  have "g < n" "0 < g" using g assms(1) by linarith+
  then show "2 \<le> per" using assms(3) by (simp add: div_ceil_ge2)
  have "n \<le> 8 * g" using g by linarith
  then have "n + g - 1 < 9 * g" using \<open>0 < g\<close> by linarith
  then have "(n + g - 1) div g < 9" using \<open>0 < g\<close> by (simp add: div_less_iff_less_mult)
  then show "per \<le> 8" using assms(3) \<open>0 < g\<close> by (simp add: div_ceil_eq)
qed

lemma level_loop_count:
  assumes "level_loop per nodes seps ch inn un us = Some (un', us')" "ch \<noteq> []" "length ch \<le> per"
  shows "length un' = length un + div_ceil (length ch + length nodes) per"
  using assms
proof (induction per nodes seps ch inn un us rule: level_loop.induct)
  case (1 per seps ch inn un us)
  then show ?case by (auto simp: div_ceil_small)
next
  case (2 per n nodes seps ch inn un us)
  then obtain sep seps' where s: "seps = sep # seps'" by (cases seps) auto
  show ?case
  proof (cases "length ch < per")
    case True
    with 2 s show ?thesis by simp
  next
    case False
    then have l: "length ch = per" "0 < per" using 2(5,6) by auto
    have "length un' = length (un @ [BInternal inn ch]) + div_ceil (length [n] + length nodes) per"
      using 2(3)[OF 2(5) s False] 2(4,5) s False l(2) by simp
    then show ?thesis using div_ceil_step[of per "length ch + length (n # nodes)"] l by simp
  qed
qed

lemma level_up_shrinks:
  assumes "level_up nodes seps = Some (nodes', seps')" "1 < length nodes"
  shows "length nodes' < length nodes"
proof -
  define per where "per = div_ceil (length nodes) (div_ceil (length nodes) 8)"
  obtain n ns where n: "nodes = n # ns" using assms(2) by (cases nodes) auto
  have p: "2 \<le> per" using group_size[of "length nodes" _ per] assms(2) by (simp add: per_def)
  have "level_loop per ns seps [n] [] [] [] = Some (nodes', seps')"
    using assms(1) n by (simp add: level_up_def Let_def per_def)
  from level_loop_count[OF this] p n have "length nodes' = div_ceil (length nodes) per" by simp
  with div_ceil_less[of "length nodes" per] p assms(2) show ?thesis by simp
qed

function level_all :: "('k, 'v) bnode list \<Rightarrow> ('k \<times> 'v) list \<Rightarrow> ('k, 'v) bnode option" where
  "level_all nodes seps =
     (if 1 < length nodes then
        (case level_up nodes seps of None \<Rightarrow> None | Some (nodes', seps') \<Rightarrow> level_all nodes' seps')
      else if nodes = [] then None else Some (last nodes))"
  by pat_completeness auto
termination
  by (relation "measure (\<lambda>(nodes, seps). length nodes)") (auto dest: level_up_shrinks)

declare level_all.simps [simp del]

definition from_sorted_root :: "('k \<times> 'v) list \<Rightarrow> ('k, 'v) bnode option" where
  "from_sorted_root es =
     (if length es \<le> MAX_ENTRIES then Some (BLeaf es)
      else case leaf_runs (div_ceil (length es + 1) (MAX_ENTRIES + 1)) (length es) es of
        None \<Rightarrow> None
      | Some (nodes, seps) \<Rightarrow> level_all nodes seps)"

section \<open>The result holds the entries\<close>

lemma div_ceil_bounds:
  assumes "lo * Suc n \<le> x" "x \<le> hi * Suc n"
  shows "lo \<le> div_ceil x (Suc n)" "div_ceil x (Suc n) \<le> hi"
    and "lo * n \<le> x - div_ceil x (Suc n)" "x - div_ceil x (Suc n) \<le> hi * n" "div_ceil x (Suc n) \<le> x"
proof -
  define q r where "q = x div Suc n" and "r = x mod Suc n"
  have x: "x = q * Suc n + r" "r < Suc n" using div_mult_mod_eq[of x "Suc n"] by (auto simp: q_def r_def)
  have d: "div_ceil x (Suc n) = q + (if r = 0 then 0 else 1)" by (simp add: div_ceil_def q_def r_def)
  have "lo * Suc n < (q + 1) * Suc n" using assms(1) x by simp
  then have lo: "lo \<le> q" by (metis Suc_eq_plus1 less_Suc_eq_le mult_less_cancel2)
  then show "lo \<le> div_ceil x (Suc n)" using d by simp
  have "r \<noteq> 0 \<Longrightarrow> q * Suc n < hi * Suc n" "q * Suc n \<le> hi * Suc n" using assms(2) x by simp_all
  then have hi: "r \<noteq> 0 \<Longrightarrow> q < hi" "q \<le> hi" by (metis mult_less_cancel2, metis mult_le_cancel2 zero_less_Suc)
  then show "div_ceil x (Suc n) \<le> hi" using d by auto
  have e: "x - div_ceil x (Suc n) = q * n + (r - 1)" using d x(1) by (cases "r = 0") auto
  have "lo * n \<le> q * n" using lo by simp
  then show "lo * n \<le> x - div_ceil x (Suc n)" unfolding e by linarith
  show "x - div_ceil x (Suc n) \<le> hi * n"
  proof (cases "r = 0")
    case True
    then show ?thesis unfolding e using hi(2) by simp
  next
    case False
    then have "Suc q * n \<le> hi * n" using hi(1) by (metis Suc_leI mult_le_mono1)
    then show ?thesis unfolding e using x(2) by simp
  qed
  show "div_ceil x (Suc n) \<le> x" using d x(1) by (cases "r = 0") auto
qed

lemma leaf_runs_correct:
  assumes "length es = remaining" "n \<le> remaining" "lo * Suc n \<le> remaining - n" "remaining - n \<le> 7 * Suc n"
  shows "\<exists>nodes seps. leaf_runs (Suc n) remaining es = Some (nodes, seps) \<and> length nodes = Suc n
    \<and> length seps = n \<and> (\<forall>c\<in>set nodes. shape lo lo 0 c) \<and> weave (map inorder nodes) seps = es"
  using assms
proof (induction n arbitrary: remaining es)
  case 0
  then have "div_ceil remaining (Suc 0) = remaining" by (simp add: div_ceil_def)
  with 0 show ?case by simp
next
  case (Suc n)
  define x where "x = remaining - Suc n"
  define t where "t = div_ceil x (Suc (Suc n))"
  have b: "lo \<le> t" "t \<le> 7" "lo * Suc n \<le> x - t" "x - t \<le> 7 * Suc n" "t \<le> x"
    using div_ceil_bounds[of lo "Suc n" x 7] Suc.prems(3,4) unfolding t_def x_def[symmetric] by simp_all
  have l: "t < length es" using b(5) Suc.prems(1,2) by (simp add: x_def)
  obtain sep it where it: "drop t es = sep # it" using l by (metis drop_eq_Nil list.exhaust not_less)
  have e: "es = take t es @ sep # it" using it by (metis append_take_drop_id)
  have len: "length it = remaining - t - 1" using it Suc.prems(1) by (metis length_drop length_tl list.sel(3))
  have "\<exists>nodes seps. leaf_runs (Suc n) (remaining - t - 1) it = Some (nodes, seps) \<and> length nodes = Suc n
    \<and> length seps = n \<and> (\<forall>c\<in>set nodes. shape lo lo 0 c) \<and> weave (map inorder nodes) seps = it"
    by (rule Suc.IH[OF len]) (use b Suc.prems(2) in \<open>auto simp: x_def\<close>)
  then obtain nodes seps where ih: "leaf_runs (Suc n) (remaining - t - 1) it = Some (nodes, seps)"
    "length nodes = Suc n" "length seps = n" "\<forall>c\<in>set nodes. shape lo lo 0 c" "weave (map inorder nodes) seps = it" by blast
  have "leaf_runs (Suc (Suc n)) remaining es = Some (BLeaf (take t es) # nodes, sep # seps)"
    using Suc.prems(2) it ih(1) l by (simp add: Let_def x_def[symmetric] t_def[symmetric] del: leaf_runs.simps(2)[of n])
  with ih e b l show ?case by auto
qed

lemma level_loop_correct:
  assumes "ch \<noteq> []" "length ch = Suc (length inn)" "length ch \<le> per" "per \<le> 8" "length seps = length nodes"
    and "length us = length un" "\<forall>c\<in>set (ch @ nodes). shape 0 0 d c" "\<forall>c\<in>set un. shape 0 0 (Suc d) c"
  shows "\<exists>un' us'. level_loop per nodes seps ch inn un us = Some (un', us') \<and> length un' = Suc (length us')
    \<and> (\<forall>c\<in>set un'. shape 0 0 (Suc d) c)
    \<and> weave (map inorder un') us' = before (map inorder un) us @ weave (map inorder ch) inn @ behind seps (map inorder nodes)"
  using assms
proof (induction per nodes seps ch inn un us rule: level_loop.induct)
  case (1 per seps ch inn un us)
  then show ?case using weave_parts[of "map inorder un" us "[]" "[]"] by simp
next
  case (2 per n nodes seps ch inn un us)
  then obtain sep seps' where s: "seps = sep # seps'" by (cases seps) auto
  show ?case
  proof (cases "length ch < per")
    case True
    have "weave (map inorder ch @ [inorder n]) (inn @ sep # []) = weave (map inorder ch) inn @ sep # weave [inorder n] []"
      by (rule weave_append) (use 2(5) in simp)
    with True 2(2)[OF 2(4) s True] 2(4-) s show ?thesis by simp
  next
    case False
    have "before (map inorder un @ [weave (map inorder ch) inn]) (us @ [sep]) = before (map inorder un) us @ weave (map inorder ch) inn @ [sep]"
    proof -
      have "length (map inorder un) = length us" using 2(9) by simp
      then show ?thesis by (induction "map inorder un" us arbitrary: un rule: list_induct2) auto
    qed
    with False 2(3)[OF 2(4) s False] 2(4-) s show ?thesis by simp
  qed
qed

lemma level_up_correct:
  assumes "1 < length nodes" "length nodes = Suc (length seps)" "\<forall>c\<in>set nodes. shape 0 0 d c"
  shows "\<exists>nodes' seps'. level_up nodes seps = Some (nodes', seps') \<and> length nodes' = Suc (length seps')
    \<and> (\<forall>c\<in>set nodes'. shape 0 0 (Suc d) c) \<and> weave (map inorder nodes') seps' = weave (map inorder nodes) seps"
proof -
  define per where "per = div_ceil (length nodes) (div_ceil (length nodes) 8)"
  obtain n ns where n: "nodes = n # ns" using assms(1) by (cases nodes) auto
  have p: "2 \<le> per" "per \<le> 8" using group_size[of "length nodes" _ per] assms(1) by (simp_all add: per_def)
  have "level_up nodes seps = level_loop per ns seps [n] [] [] []"
    using n by (simp add: level_up_def Let_def per_def)
  moreover have "weave (map inorder nodes) seps = inorder n @ behind seps (map inorder ns)"
    using weave_parts[of "[]" "[]" "map inorder ns" seps "inorder n"] assms(2) n by simp
  ultimately show ?thesis using level_loop_correct[of "[n]" "[]" per seps ns "[]" "[]" d] assms(2,3) n p by simp
qed

lemma level_all_correct:
  assumes "length nodes = Suc (length seps)" "\<forall>c\<in>set nodes. shape 0 0 d c"
  shows "\<exists>t d'. level_all nodes seps = Some t \<and> shape 0 0 d' t \<and> inorder t = weave (map inorder nodes) seps"
  using assms
proof (induction nodes seps arbitrary: d rule: level_all.induct)
  case (1 nodes seps)
  show ?case
  proof (cases "1 < length nodes")
    case True
    from level_up_correct[OF True 1(2,3)] obtain nodes' seps' where u: "level_up nodes seps = Some (nodes', seps')"
      "length nodes' = Suc (length seps')" "\<forall>c\<in>set nodes'. shape 0 0 (Suc d) c"
      "weave (map inorder nodes') seps' = weave (map inorder nodes) seps" by blast
    from 1(1)[OF True u(1) refl u(2,3)] u(1,4) True show ?thesis by (subst level_all.simps) simp
  next
    case False
    then obtain n where n: "nodes = [n]" "seps = []" using 1(2) by (cases nodes) auto
    with 1(3) show ?thesis by (subst level_all.simps) auto
  qed
qed

lemma leaf_count:
  assumes "7 < len" "g = div_ceil (len + 1) 8"
  shows "0 < g" "g - 1 \<le> len" "3 * g \<le> len - (g - 1)" "len - (g - 1) \<le> 7 * g" "g = (len + 8) div 8"
proof -
  show g: "g = (len + 8) div 8" using assms(2) by (simp add: div_ceil_eq)
  have "8 * g \<le> len + 8" "len + 8 < 8 * g + 8" unfolding g by linarith+
  then show "0 < g" "g - 1 \<le> len" "3 * g \<le> len - (g - 1)" "len - (g - 1) \<le> 7 * g"
    using assms(1) by linarith+
qed

lemma from_sorted_leaves:
  assumes "7 < length es" "lo \<le> 3"
  obtains nodes seps where
    "leaf_runs (div_ceil (length es + 1) (MAX_ENTRIES + 1)) (length es) es = Some (nodes, seps)"
    "length nodes = (length es + 8) div 8" "length nodes = Suc (length seps)" "\<forall>c\<in>set nodes. shape lo lo 0 c"
    "weave (map inorder nodes) seps = es"
proof -
  define g where "g = div_ceil (length es + 1) 8"
  note b = leaf_count[OF assms(1) g_def]
  obtain n where n: "g = Suc n" using b(1) by (cases g) auto
  have "lo * Suc n \<le> length es - n" using b(3) assms(2) n by (metis diff_Suc_1 le_trans mult_le_mono1)
  then have "\<exists>nodes seps. leaf_runs (Suc n) (length es) es = Some (nodes, seps) \<and> length nodes = Suc n
    \<and> length seps = n \<and> (\<forall>c\<in>set nodes. shape lo lo 0 c) \<and> weave (map inorder nodes) seps = es"
    by (intro leaf_runs_correct) (use b(2,4) n in auto)
  then obtain nodes seps where l: "leaf_runs g (length es) es = Some (nodes, seps)" "length nodes = g"
    "length nodes = Suc (length seps)" "\<forall>c\<in>set nodes. shape lo lo 0 c" "weave (map inorder nodes) seps = es"
    using n by metis
  have "div_ceil (length es + 1) (MAX_ENTRIES + 1) = g" by (simp add: g_def)
  with l b(5) show thesis using that by metis
qed

lemma from_sorted_root_correct:
  "\<exists>t d. from_sorted_root es = Some t \<and> shape 0 0 d t \<and> inorder t = es"
proof (cases "length es \<le> 7")
  case True
  then show ?thesis by (simp add: from_sorted_root_def)
next
  case False
  then have "7 < length es" "(0::nat) \<le> 3" by auto
  then obtain nodes seps where l: "leaf_runs (div_ceil (length es + 1) (MAX_ENTRIES + 1)) (length es) es = Some (nodes, seps)"
    "length nodes = (length es + 8) div 8" "length nodes = Suc (length seps)" "\<forall>c\<in>set nodes. shape 0 0 0 c"
    "weave (map inorder nodes) seps = es"
    by (rule from_sorted_leaves)
  from level_all_correct[OF l(3,4)] l(1,5) False show ?thesis by (auto simp: from_sorted_root_def)
qed

text \<open>Up to 63 entries give at most eight leaves: one root over them, in the documented shape.\<close>

lemma level_loop_one:
  assumes "ch \<noteq> []" "length seps = length nodes" "length ch + length nodes \<le> per"
  shows "level_loop per nodes seps ch inn un us = Some (un @ [BInternal (inn @ seps) (ch @ nodes)], us)"
  using assms
proof (induction per nodes seps ch inn un us rule: level_loop.induct)
  case (2 per n nodes seps ch inn un us)
  then obtain sep seps' where s: "seps = sep # seps'" by (cases seps) auto
  have "length ch < per" using 2(6) by simp
  with 2(2)[OF 2(4) s] 2(4-) s show ?case by simp
qed simp

lemma level_all_one:
  assumes "1 < length nodes" "length nodes \<le> 8" "length nodes = Suc (length seps)"
  shows "level_all nodes seps = Some (BInternal seps nodes)"
proof -
  obtain n ns where n: "nodes = n # ns" using assms(1) by (cases nodes) auto
  have g: "div_ceil (length nodes) 8 = 1" using assms by (intro div_ceil_small) auto
  then have "div_ceil (length nodes) (Suc 0) = length nodes" by (simp add: div_ceil_def)
  then have "level_up nodes seps = Some ([BInternal seps nodes], [])"
    using g n assms(3) level_loop_one[of "[n]" seps ns "length nodes" "[]" "[]" "[]"] by (simp add: level_up_def)
  then show ?thesis using assms(1) by (subst level_all.simps) (simp add: level_all.simps)
qed

lemma from_sorted_root_small:
  assumes "length es \<le> 63"
  shows "\<exists>t d. from_sorted_root es = Some t \<and> shape (if d = 0 then 0 else 1) 3 d t \<and> inorder t = es"
proof (cases "length es \<le> 7")
  case True
  then have "from_sorted_root es = Some (BLeaf es)" "shape 0 3 0 (BLeaf es)" by (simp_all add: from_sorted_root_def)
  then show ?thesis by (intro exI[of _ "BLeaf es"] exI[of _ "0::nat"]) simp
next
  case False
  then have "7 < length es" "(3::nat) \<le> 3" by auto
  then obtain nodes seps where l: "leaf_runs (div_ceil (length es + 1) (MAX_ENTRIES + 1)) (length es) es = Some (nodes, seps)"
    "length nodes = (length es + 8) div 8" "length nodes = Suc (length seps)" "\<forall>c\<in>set nodes. shape 3 3 0 c"
    "weave (map inorder nodes) seps = es"
    by (rule from_sorted_leaves)
  have n: "1 < length nodes" "length nodes \<le> 8" using l(2) False assms by auto
  have "from_sorted_root es = Some (BInternal seps nodes)"
    using level_all_one[OF n l(3)] l(1) False by (simp add: from_sorted_root_def)
  moreover have "shape 1 3 1 (BInternal seps nodes)" using l n by simp
  ultimately show ?thesis using l(5) by (intro exI[of _ "BInternal seps nodes"] exI[of _ "1::nat"]) simp
qed

section \<open>Sizes that leave a childless chain\<close>

lemma level_loop_last:
  assumes "level_loop per nodes seps ch inn un us = Some (un', us')" "ch \<noteq> []" "length ch = Suc (length inn)"
    and "length ch \<le> per" "2 \<le> per" "(length ch + length nodes) mod per = 1"
  shows "last un' = BInternal [] [last (ch @ nodes)]"
  using assms
proof (induction per nodes seps ch inn un us rule: level_loop.induct)
  case (1 per seps ch inn un us)
  then have "length ch = 1" by (cases "length ch = per") auto
  then obtain c where "ch = [c]" by (cases ch) auto
  with 1 show ?case by auto
next
  case (2 per n nodes seps ch inn un us)
  then obtain sep seps' where s: "seps = sep # seps'" by (cases seps) auto
  show ?case
  proof (cases "length ch < per")
    case True
    with 2(2)[OF 2(5) s True] 2(4-) s show ?thesis by simp
  next
    case False
    then have "length ch = per" using 2(7) by simp
    then have "(length [n] + length nodes) mod per = 1" using 2(9) mod_add_self1[of per "length (n # nodes)"] by (metis add.commute add_Suc_right length_Cons list.size(3) plus_nat.add_0)
    with False 2(3)[OF 2(5) s False] 2(4-) s show ?thesis by simp
  qed
qed

lemma level_up_last:
  assumes "level_up nodes seps = Some (nodes', seps')" "1 < length nodes"
    and "per = div_ceil (length nodes) (div_ceil (length nodes) 8)" "length nodes mod per = 1"
  shows "last nodes' = BInternal [] [last nodes]" "length nodes' = div_ceil (length nodes) per"
proof -
  obtain n ns where n: "nodes = n # ns" using assms(2) by (cases nodes) auto
  have p: "2 \<le> per" using group_size[of "length nodes" _ per] assms(2,3) by simp
  have u: "level_loop per ns seps [n] [] [] [] = Some (nodes', seps')"
    using assms(1,3) n by (simp add: level_up_def Let_def)
  from level_loop_last[OF u] p n assms(4) show "last nodes' = BInternal [] [last nodes]" by auto
  from level_loop_count[OF u] p n show "length nodes' = div_ceil (length nodes) per" by simp
qed


text \<open>
  3584 to 3591 entries give 449 leaves, 57 nodes over them and 8 over those; on both levels
  the last node has one child and no entry.
\<close>

lemma from_sorted_chain:
  assumes "3584 \<le> length es" "length es \<le> 3591"
  obtains seps nodes leaf where "from_sorted_root es = Some (BInternal seps nodes)" "nodes \<noteq> []"
    "last nodes = BInternal [] [BInternal [] [leaf]]" "shape 3 3 0 leaf"
proof -
  have "7 < length es" "(3::nat) \<le> 3" using assms by auto
  then obtain l0 s0 where l: "leaf_runs (div_ceil (length es + 1) (MAX_ENTRIES + 1)) (length es) es = Some (l0, s0)"
    "length l0 = (length es + 8) div 8" "length l0 = Suc (length s0)" "\<forall>c\<in>set l0. shape 3 3 0 c"
    "weave (map inorder l0) s0 = es"
    by (rule from_sorted_leaves)
  have n0: "length l0 = 449" using l(2) assms by simp
  have w0: "\<forall>c\<in>set l0. shape 0 0 0 c"
  proof
    fix c assume "c \<in> set l0"
    then have "shape 3 3 0 c" using l(4) by blast
    then show "shape 0 0 0 c" by (cases c) auto
  qed
  have g0: "1 < length l0" using n0 by simp
  from level_up_correct[OF g0 l(3) w0] obtain l1 s1 where u1: "level_up l0 s0 = Some (l1, s1)"
    "length l1 = Suc (length s1)" "\<forall>c\<in>set l1. shape 0 0 (Suc 0) c" by blast
  have p: "div_ceil 449 (div_ceil 449 8) = 8" "div_ceil 449 8 = 57" "div_ceil 57 (div_ceil 57 8) = 8" "div_ceil 57 8 = 8"
    by (simp_all add: div_ceil_def)
  have l1: "last l1 = BInternal [] [last l0]" "length l1 = 57"
    using level_up_last[OF u1(1) g0 refl] n0 p by simp_all
  have g1: "1 < length l1" using l1 by simp
  from level_up_correct[OF g1 u1(2,3)] obtain l2 s2 where u2: "level_up l1 s1 = Some (l2, s2)"
    "length l2 = Suc (length s2)" by blast
  have l2: "last l2 = BInternal [] [last l1]" "length l2 = 8"
    using level_up_last[OF u2(1) g1 refl] l1(2) p by simp_all
  have "level_all l2 s2 = Some (BInternal s2 l2)" by (rule level_all_one) (use l2 u2 in auto)
  then have "level_all l0 s0 = Some (BInternal s2 l2)"
    using g0 g1 u1(1) u2(1) by (simp add: level_all.simps[of l0] level_all.simps[of l1])
  moreover have "last l0 \<in> set l0" using n0 by (metis last_in_set length_greater_0_conv zero_less_numeral)
  ultimately show thesis
    using that[of s2 l2 "last l0"] l(1,4) l1(1) l2 assms
    by (cases "l2 = []") (auto simp: from_sorted_root_def)
qed

text \<open>A childless chain at the right edge: removing the greatest key panics in the repair.\<close>

lemma fix_child_childless: "entry_count c < 3 \<Longrightarrow> fix_child [] [c] 0 = None"
  by (simp add: fix_child_def merge_children_def)

lemma bsearch_above:
  assumes "ascending ks" "\<forall>x\<in>set ks. x < k"
  shows "binary_search ks k = Inl (length ks)"
proof (cases "binary_search ks k")
  case (Inl i)
  from binary_search_Inl[OF assms(1) Inl] have i: "i \<le> length ks" "\<forall>j. i \<le> j \<and> j < length ks \<longrightarrow> k < ks ! j" by auto
  have "\<not> i < length ks"
  proof
    assume l: "i < length ks"
    then have "k < ks ! i" "ks ! i < k" using i assms(2) by auto
    then show False by simp
  qed
  with Inl i show ?thesis by simp
next
  case (Inr i)
  from binary_search_Inr[OF assms(1) Inr] assms(2) show ?thesis by auto
qed

lemma bulk_chain_remove_panics:
  assumes "3584 \<le> length es" "length es \<le> 3591" "keys_ascending es" "from_sorted_root es = Some t"
  shows "remove_transient_helper t (fst (last es)) = None"
proof -
  obtain seps nodes leaf where c: "from_sorted_root es = Some (BInternal seps nodes)" "nodes \<noteq> []"
    "last nodes = BInternal [] [BInternal [] [leaf]]" "shape 3 3 0 leaf"
    by (rule from_sorted_chain[OF assms(1,2)])
  then have t: "t = BInternal seps nodes" using assms(4) by simp
  from from_sorted_root_correct[of es] assms(4) obtain d where d: "shape 0 0 d t" "inorder t = es" by auto
  let ?k = "fst (last es)"
  obtain le where le: "leaf = BLeaf le" "3 \<le> length le" using c(4) by (cases leaf) auto
  have nl: "length nodes = Suc (length seps)" using d(1) t by simp
  have nb: "map inorder nodes = map inorder (butlast nodes) @ inorder (last nodes) # []"
    using arg_cong[OF append_butlast_last_id[OF c(2)], of "map inorder"] by simp
  have "es = weave (map inorder (butlast nodes) @ inorder (last nodes) # []) (seps @ [])"
    using d(2) t nb by simp
  also have "\<dots> = before (map inorder (butlast nodes)) seps @ le"
    using weave_parts[of "map inorder (butlast nodes)" seps "[]" "[]" "inorder (last nodes)"] nl
    unfolding c(3) le(1) by simp
  finally have e: "es = before (map inorder (butlast nodes)) seps @ le" .
  have lne: "le \<noteq> []" using le(2) by auto
  then have last: "last es = last le" using e by simp
  have asc: "keys_ascending le" using assms(3) e by (simp add: sorted_wrt_append)
  have sep: "\<forall>x\<in>set (map fst seps). x < ?k"
  proof -
    have "set seps \<subseteq> set (before (map inorder (butlast nodes)) seps)" by (rule set_before) (use nl in simp)
    moreover have "\<forall>x\<in>set (before (map inorder (butlast nodes)) seps). fst x < fst (last le)"
      using assms(3) lne unfolding e by (auto simp: sorted_wrt_append)
    ultimately show ?thesis using last by auto
  qed
  have sa: "keys_ascending seps" by (rule node_entries_ascending[OF d(1) _ t]) (use d(2) assms(3) in simp)
  obtain i where i: "binary_search (map fst le) ?k = Inr i"
    using binary_search_found[OF asc, of ?k] lne last by auto
  have "remove_transient_helper leaf ?k = Some (BLeaf (vec_remove i le), Some (snd (le ! i)))"
    using i le(1) by simp
  moreover have "length (vec_remove i le) = length le - 1" using binary_search_Inr[OF asc i] by simp
  moreover have bs0: "binary_search [] ?k = Inl 0" by (simp add: binary_search_def bsearch_loop.simps)
  ultimately have "remove_transient_helper (last nodes) ?k = None"
    unfolding c(3) using le(2) fix_child_childless
    by (auto simp: fix_child_def merge_children_def split: option.splits)
  moreover have "nodes ! length seps = last nodes" using nl c(2) by (simp add: last_conv_nth)
  ultimately show ?thesis unfolding t using bsearch_above[OF sa sep] nl by simp
qed

end
