(* ===== verification/Ordered_Map_Spec.thy ===== *)
theory Ordered_Map_Spec
  imports Rust_Collections
begin

text \<open>
  The contract of an ordered map whose operations may panic: its contents are an
  ascending association list, \<open>put\<close> and \<open>del\<close> hand back the previous value.
\<close>

datatype ('k, 'v) map_op = Put 'k 'v | Del 'k

fun run_ops ::
  "('m \<Rightarrow> 'k \<Rightarrow> 'v \<Rightarrow> ('m \<times> 'v option) option) \<Rightarrow> ('m \<Rightarrow> 'k \<Rightarrow> ('m \<times> 'v option) option)
     \<Rightarrow> 'm \<Rightarrow> ('k, 'v) map_op list \<Rightarrow> 'm option" where
  "run_ops put del m [] = Some m"
| "run_ops put del m (Put k v # ops) =
     (case put m k v of None \<Rightarrow> None | Some (m', _) \<Rightarrow> run_ops put del m' ops)"
| "run_ops put del m (Del k # ops) =
     (case del m k of None \<Rightarrow> None | Some (m', _) \<Rightarrow> run_ops put del m' ops)"

fun run_model :: "('k::linorder, 'v) btmap \<Rightarrow> ('k, 'v) map_op list \<Rightarrow> ('k, 'v) btmap" where
  "run_model xs [] = xs"
| "run_model xs (Put k v # ops) = run_model (bm_insert k v xs) ops"
| "run_model xs (Del k # ops) = run_model (bm_remove k xs) ops"

fun puts_only :: "('k, 'v) map_op list \<Rightarrow> bool" where
  "puts_only [] = True"
| "puts_only (Put k v # ops) = puts_only ops"
| "puts_only (Del k # ops) = False"

text \<open>The value the last operation on a key leaves, if any operation names the key.\<close>

fun last_write :: "('k, 'v) map_op list \<Rightarrow> 'k \<Rightarrow> 'v option option" where
  "last_write [] k = None"
| "last_write (Put a v # ops) k =
     (case last_write ops k of None \<Rightarrow> (if a = k then Some (Some v) else None) | Some w \<Rightarrow> Some w)"
| "last_write (Del a # ops) k =
     (case last_write ops k of None \<Rightarrow> (if a = k then Some None else None) | Some w \<Rightarrow> Some w)"

lemma run_model_get:
  "bm_get (run_model xs ops) k = (case last_write ops k of None \<Rightarrow> bm_get xs k | Some w \<Rightarrow> w)"
  by (induction xs ops rule: run_model.induct) (auto split: option.splits)

lemma map_ops_induct [case_names Nil Put Del]:
  assumes "P []" "\<And>k v ops. P ops \<Longrightarrow> P (Put k v # ops)" "\<And>k ops. P ops \<Longrightarrow> P (Del k # ops)"
  shows "P ops"
  using assms by (induction ops) (metis map_op.exhaust)+

locale ordered_map =
  fixes entries :: "'m \<Rightarrow> ('k::linorder \<times> 'v) list"
    and inv :: "'m \<Rightarrow> bool"
    and lookup :: "'m \<Rightarrow> 'k \<Rightarrow> 'v option option"
    and put :: "'m \<Rightarrow> 'k \<Rightarrow> 'v \<Rightarrow> ('m \<times> 'v option) option"
  assumes inv_ascending: "inv m \<Longrightarrow> bm_inv (entries m)"
    and lookup_spec: "inv m \<Longrightarrow> lookup m k = Some (bm_get (entries m) k)"
    and put_spec: "inv m \<Longrightarrow>
      \<exists>m'. put m k v = Some (m', bm_get (entries m) k) \<and> inv m' \<and> entries m' = bm_insert k v (entries m)"
begin

lemma puts_refine:
  assumes "inv m" "puts_only ops"
  shows "\<exists>m'. run_ops put del m ops = Some m' \<and> inv m' \<and> entries m' = run_model (entries m) ops"
  using assms
proof (induction ops arbitrary: m rule: map_ops_induct)
  case (Put k v ops)
  from put_spec[OF Put(2), of k v] obtain m' where "put m k v = Some (m', bm_get (entries m) k)" "inv m'"
    "entries m' = bm_insert k v (entries m)" by blast
  with Put(1)[of m'] Put(3) show ?case by simp
qed simp_all

lemma put_lookup:
  assumes "inv m"
  shows "\<exists>m'. put m k v = Some (m', bm_get (entries m) k) \<and> lookup m' k = Some (Some v)
    \<and> (\<forall>j. j \<noteq> k \<longrightarrow> lookup m' j = lookup m j)"
proof -
  from put_spec[OF assms, of k v] obtain m' where "put m k v = Some (m', bm_get (entries m) k)" "inv m'"
    "entries m' = bm_insert k v (entries m)" by blast
  with lookup_spec[OF assms] lookup_spec[OF \<open>inv m'\<close>] show ?thesis by simp
qed

end

locale removable_map = ordered_map entries inv lookup put
  for entries :: "'m \<Rightarrow> ('k::linorder \<times> 'v) list" and inv lookup put +
  fixes del :: "'m \<Rightarrow> 'k \<Rightarrow> ('m \<times> 'v option) option"
  assumes del_spec: "inv m \<Longrightarrow>
      \<exists>m'. del m k = Some (m', bm_get (entries m) k) \<and> inv m' \<and> entries m' = bm_remove k (entries m)"
begin

lemma ops_refine:
  assumes "inv m"
  shows "\<exists>m'. run_ops put del m ops = Some m' \<and> inv m' \<and> entries m' = run_model (entries m) ops"
  using assms
proof (induction ops arbitrary: m rule: map_ops_induct)
  case (Put k v ops)
  from put_spec[OF Put(2), of k v] obtain m' where "put m k v = Some (m', bm_get (entries m) k)" "inv m'"
    "entries m' = bm_insert k v (entries m)" by blast
  with Put(1)[of m'] show ?case by simp
next
  case (Del k ops)
  from del_spec[OF Del(2), of k] obtain m' where "del m k = Some (m', bm_get (entries m) k)" "inv m'"
    "entries m' = bm_remove k (entries m)" by blast
  with Del(1)[of m'] show ?case by simp
qed simp

end

end
