(* ===== verification/Persistent_BTree.thy ===== *)
theory Persistent_BTree
  imports BTree_Bulk BTree_Iter_Rev Ordered_Map_Spec
begin

text \<open>
  \<open>PersistentBTreeMap\<close>: the root and the cached length, with every public operation.
  The map refines an ascending association list; bulk-built maps satisfy the weaker
  shape without a minimum occupancy, for which removal is not safe.
\<close>

section \<open>The map\<close>

record ('k, 'v) bmap =
  root :: "('k, 'v) bnode"
  len :: nat

definition bt_new :: "('k, 'v) bmap" where
  "bt_new = \<lparr>root = BLeaf [], len = 0\<rparr>"

definition bt_is_empty :: "('k, 'v) bmap \<Rightarrow> bool" where
  "bt_is_empty m = (len m = 0)"

definition bt_get :: "('k::linorder, 'v) bmap \<Rightarrow> 'k \<Rightarrow> 'v option option" where
  "bt_get m key = get_node (root m) key"

definition bt_predecessor :: "('k::linorder, 'v) bmap \<Rightarrow> 'k \<Rightarrow> ('k \<times> 'v) option option" where
  "bt_predecessor m key = predecessor_node (root m) key None"

definition bt_from_sorted :: "('k \<times> 'v) list \<Rightarrow> ('k, 'v) bmap option" where
  "bt_from_sorted es = map_option (\<lambda>t. \<lparr>root = t, len = length es\<rparr>) (from_sorted_root es)"

definition bt_iter :: "('k, 'v) bmap \<Rightarrow> ('k, 'v) frames" where
  "bt_iter m = [(root m, 0)]"

definition bt_iter_rev :: "('k, 'v) bmap \<Rightarrow> ('k, 'v) frames" where
  "bt_iter_rev m = [(root m, 1)]"

definition bt_eq :: "('k, 'v) bmap \<Rightarrow> ('k, 'v) bmap \<Rightarrow> bool" where
  "bt_eq m n = (len m = len n \<and> iter_collect (bt_iter m) = iter_collect (bt_iter n))"

definition bt_range :: "('k::linorder, 'v) bmap \<Rightarrow> 'k bound \<Rightarrow> 'k bound \<Rightarrow> ('k, 'v) range_iter option" where
  "bt_range m lo hi = range_node (root m) lo hi"

definition bt_range_rev_by ::
  "('k, 'v) bmap \<Rightarrow> ('k \<Rightarrow> bool) \<Rightarrow> ('k \<Rightarrow> bool) \<Rightarrow> ('k, 'v) range_iter_rev option" where
  "bt_range_rev_by m abv bel = range_rev_by_node (root m) abv bel"

definition bt_insert :: "('k::linorder, 'v) bmap \<Rightarrow> 'k \<Rightarrow> 'v \<Rightarrow> (('k, 'v) bmap \<times> 'v option) option" where
  "bt_insert m k v =
     (case insert_helper (root m) k v of
        None \<Rightarrow> None
      | Some (new_left, split, prev) \<Rightarrow>
          (let new_root = (case split of None \<Rightarrow> new_left | Some (right, median) \<Rightarrow> BInternal [median] [new_left, right]);
               new_len = (if prev = None then len m + 1 else len m)
           in Some (\<lparr>root = new_root, len = new_len\<rparr>, prev)))"

definition bt_insert_mut :: "('k::linorder, 'v) bmap \<Rightarrow> 'k \<Rightarrow> 'v \<Rightarrow> (('k, 'v) bmap \<times> 'v option) option" where
  "bt_insert_mut m k v =
     (case insert_transient_helper (root m) k v of
        None \<Rightarrow> None
      | Some (old_root, split, prev) \<Rightarrow>
          (let m1 = m\<lparr>root := old_root\<rparr>;
               m2 = (case split of None \<Rightarrow> m1 | Some (right, median) \<Rightarrow> m1\<lparr>root := BInternal [median] [old_root, right]\<rparr>);
               m3 = (if prev = None then m2\<lparr>len := len m2 + 1\<rparr> else m2)
           in Some (m3, prev)))"

definition bt_get_mut ::
  "('k::linorder, 'v) bmap \<Rightarrow> 'k \<Rightarrow> ('v \<Rightarrow> 'v) \<Rightarrow> (('k, 'v) bmap \<times> 'v option) option" where
  "bt_get_mut m key f = map_option (\<lambda>(t, r). (m\<lparr>root := t\<rparr>, r)) (get_mut_helper (root m) key f)"

definition collapse_root :: "('k, 'v) bnode \<Rightarrow> ('k, 'v) bnode" where
  "collapse_root t = (case t of BInternal [] (c # cs) \<Rightarrow> c | _ \<Rightarrow> t)"

definition bt_remove_mut :: "('k::linorder, 'v) bmap \<Rightarrow> 'k \<Rightarrow> (('k, 'v) bmap \<times> 'v option) option" where
  "bt_remove_mut m key =
     (case remove_transient_helper (root m) key of
        None \<Rightarrow> None
      | Some (t, None) \<Rightarrow> Some (m\<lparr>root := t\<rparr>, None)
      | Some (t, Some removed) \<Rightarrow>
          (if len m = 0 then None
           else Some (\<lparr>root = collapse_root t, len = len m - 1\<rparr>, Some removed)))"

definition bt_remove :: "('k::linorder, 'v) bmap \<Rightarrow> 'k \<Rightarrow> (('k, 'v) bmap \<times> 'v option) option" where
  "bt_remove m key = bt_remove_mut m key"

section \<open>Borrowed keys\<close>

text \<open>\<open>get_by\<close> and \<open>get_mut_by\<close> compare through \<open>Borrow\<close>: \<open>b\<close> is the borrowed form of a key.\<close>

fun linear_find_by_from :: "('k \<Rightarrow> 'q::linorder) \<Rightarrow> nat \<Rightarrow> ('k \<times> 'v) list \<Rightarrow> 'q \<Rightarrow> nat option" where
  "linear_find_by_from b i [] key = None"
| "linear_find_by_from b i ((k, v) # es) key =
     (if b k = key then Some i else if key < b k then None else linear_find_by_from b (Suc i) es key)"

definition linear_find_entry_by :: "('k \<Rightarrow> 'q::linorder) \<Rightarrow> ('k \<times> 'v) list \<Rightarrow> 'q \<Rightarrow> nat option" where
  "linear_find_entry_by b es key = linear_find_by_from b 0 es key"

fun linear_position_by_from :: "('k \<Rightarrow> 'q::linorder) \<Rightarrow> nat \<Rightarrow> ('k \<times> 'v) list \<Rightarrow> 'q \<Rightarrow> found_or_descend" where
  "linear_position_by_from b i [] key = Descend i"
| "linear_position_by_from b i ((k, v) # es) key =
     (if b k = key then Found i else if key < b k then Descend i else linear_position_by_from b (Suc i) es key)"

definition linear_position_internal_by :: "('k \<Rightarrow> 'q::linorder) \<Rightarrow> ('k \<times> 'v) list \<Rightarrow> 'q \<Rightarrow> found_or_descend" where
  "linear_position_internal_by b es key = linear_position_by_from b 0 es key"

fun get_by_node :: "('k \<Rightarrow> 'q::linorder) \<Rightarrow> ('k, 'v) bnode \<Rightarrow> 'q \<Rightarrow> 'v option option" where
  "get_by_node b (BLeaf es) key = Some (map_option (\<lambda>i. snd (es ! i)) (linear_find_entry_by b es key))"
| "get_by_node b (BInternal es cs) key =
     (case linear_position_internal_by b es key of
        Found i \<Rightarrow> Some (Some (snd (es ! i)))
      | Descend i \<Rightarrow> (if i < length cs then get_by_node b (cs ! i) key else None))"

definition bt_get_by :: "('k \<Rightarrow> 'q::linorder) \<Rightarrow> ('k, 'v) bmap \<Rightarrow> 'q \<Rightarrow> 'v option option" where
  "bt_get_by b m key = get_by_node b (root m) key"

fun get_mut_by_helper ::
  "('k \<Rightarrow> 'q::linorder) \<Rightarrow> ('k, 'v) bnode \<Rightarrow> 'q \<Rightarrow> ('v \<Rightarrow> 'v) \<Rightarrow> (('k, 'v) bnode \<times> 'v option) option" where
  "get_mut_by_helper b (BLeaf es) key f =
     (case linear_find_entry_by b es key of
        None \<Rightarrow> Some (BLeaf es, None)
      | Some i \<Rightarrow> Some (BLeaf (es[i := (fst (es ! i), f (snd (es ! i)))]), Some (snd (es ! i))))"
| "get_mut_by_helper b (BInternal es cs) key f =
     (case linear_position_internal_by b es key of
        Found i \<Rightarrow> Some (BInternal (es[i := (fst (es ! i), f (snd (es ! i)))]) cs, Some (snd (es ! i)))
      | Descend i \<Rightarrow>
          (if i < length cs then
             (case get_mut_by_helper b (cs ! i) key f of
                None \<Rightarrow> None
              | Some (c, r) \<Rightarrow> Some (BInternal es (cs[i := c]), r))
           else None))"

definition bt_get_mut_by ::
  "('k \<Rightarrow> 'q::linorder) \<Rightarrow> ('k, 'v) bmap \<Rightarrow> 'q \<Rightarrow> ('v \<Rightarrow> 'v) \<Rightarrow> (('k, 'v) bmap \<times> 'v option) option" where
  "bt_get_mut_by b m key f = map_option (\<lambda>(t, r). (m\<lparr>root := t\<rparr>, r)) (get_mut_by_helper b (root m) key f)"

lemma linear_by_eq:
  fixes b :: "'k::linorder \<Rightarrow> 'q::linorder"
  assumes "strict_mono b"
  shows "linear_find_entry_by b es (b k) = linear_find_entry es k"
    and "linear_position_internal_by b es (b k) = linear_position_internal es k"
proof -
  have "linear_find_by_from b i es (b k) = linear_find_from i es k" for i
    by (induction i es k rule: linear_find_from.induct) (auto simp: strict_mono_less[OF assms] strict_mono_eq[OF assms])
  then show "linear_find_entry_by b es (b k) = linear_find_entry es k"
    by (simp add: linear_find_entry_by_def linear_find_entry_def)
  have "linear_position_by_from b i es (b k) = linear_position_from i es k" for i
    by (induction i es k rule: linear_position_from.induct) (auto simp: strict_mono_less[OF assms] strict_mono_eq[OF assms])
  then show "linear_position_internal_by b es (b k) = linear_position_internal es k"
    by (simp add: linear_position_internal_by_def linear_position_internal_def)
qed

lemma get_by_eq:
  fixes b :: "'k::linorder \<Rightarrow> 'q::linorder" and m :: "('k, 'v) bmap"
  assumes "strict_mono b"
  shows "bt_get_by b m (b k) = bt_get m k" "bt_get_mut_by b m (b k) f = bt_get_mut m k f"
proof -
  have "get_by_node b t (b k) = get_node t k" for t :: "('k, 'v) bnode"
    by (induction t k rule: get_node.induct) (auto simp: linear_by_eq[OF assms] split: found_or_descend.splits)
  then show "bt_get_by b m (b k) = bt_get m k" by (simp add: bt_get_by_def bt_get_def)
  have "get_mut_by_helper b t (b k) f = get_mut_helper t k f" for t :: "('k, 'v) bnode"
    by (induction t k f rule: get_mut_helper.induct) (auto simp: linear_by_eq[OF assms] split: found_or_descend.splits)
  then show "bt_get_mut_by b m (b k) f = bt_get_mut m k f" by (simp add: bt_get_mut_by_def bt_get_mut_def)
qed

section \<open>Invariant\<close>

text \<open>
  \<open>bt_inv 3\<close> is the documented invariant; \<open>bt_inv 0\<close> drops the minimum occupancy.
\<close>

definition entries_of :: "('k, 'v) bmap \<Rightarrow> ('k \<times> 'v) list" where
  "entries_of m = inorder (root m)"

definition root_min :: "nat \<Rightarrow> nat \<Rightarrow> nat" where
  "root_min lo d = (if d = 0 \<or> lo = 0 then 0 else 1)"

lemma root_min_le: "root_min lo d \<le> 1"
  by (simp add: root_min_def)

definition bt_inv :: "nat \<Rightarrow> ('k::linorder, 'v) bmap \<Rightarrow> bool" where
  "bt_inv lo m \<longleftrightarrow> (\<exists>d. shape (root_min lo d) lo d (root m))
     \<and> keys_ascending (entries_of m) \<and> len m = length (entries_of m)"

lemma bt_invE:
  assumes "bt_inv lo m"
  obtains d where "shape (root_min lo d) lo d (root m)" "keys_ascending (inorder (root m))"
    "len m = length (inorder (root m))"
  using assms unfolding bt_inv_def entries_of_def by blast

lemma bt_inv_new [simp]: "bt_inv lo bt_new" "entries_of bt_new = []"
  by (auto simp: bt_inv_def bt_new_def entries_of_def root_min_def)

lemma bt_get_correct: "bt_inv lo m \<Longrightarrow> bt_get m k = Some (bm_get (entries_of m) k)"
  by (elim bt_invE) (simp add: bt_get_def entries_of_def get_node_correct)

lemma bt_insert_mut_eq: "bt_insert_mut m k v = bt_insert m k v"
  by (simp add: bt_insert_mut_def bt_insert_def insert_transient_eq Let_def split: option.splits)

lemma bt_insert_correct:
  assumes "bt_inv lo m" "lo \<le> 3"
  shows "\<exists>m'. bt_insert m k v = Some (m', bm_get (entries_of m) k) \<and> bt_inv lo m' \<and> entries_of m' = bm_insert k v (entries_of m)"
proof -
  obtain d where d: "shape (root_min lo d) lo d (root m)" "keys_ascending (inorder (root m))"
    "len m = length (inorder (root m))" using assms(1) by (rule bt_invE)
  have bi: "bm_inv (inorder (root m))" using d(2) by (simp add: bm_inv_def)
  have "root_min lo d \<le> 3" using root_min_le[of lo d] by simp
  from insert_helper_correct[OF d(1) this assms(2) d(2), of k v] obtain l s where
    h: "insert_helper (root m) k v = Some (l, s, bm_get (inorder (root m)) k)"
    "insert_ok (root_min lo d) lo d (bm_insert k v (inorder (root m))) l s" by auto
  have a: "keys_ascending (bm_insert k v (inorder (root m)))" using bm_inv_insert[OF bi] by (simp add: bm_inv_def)
  define n where "n = (if bm_get (inorder (root m)) k = None then len m + 1 else len m)"
  have n: "n = length (bm_insert k v (inorder (root m)))" using length_bm_insert[OF bi, of k v] d(3) by (simp add: n_def)
  show ?thesis
  proof (cases s)
    case None
    then have "bt_insert m k v = Some (\<lparr>root = l, len = n\<rparr>, bm_get (entries_of m) k)"
      using h(1) by (simp add: bt_insert_def Let_def n_def entries_of_def)
    moreover have "bt_inv lo \<lparr>root = l, len = n\<rparr>" using h(2) None a n unfolding bt_inv_def entries_of_def by auto
    ultimately show ?thesis using h(2) None by (simp add: entries_of_def)
  next
    case (Some re)
    then obtain r e where s: "s = Some (r, e)" by (cases re) auto
    let ?t = "BInternal [e] [l, r]"
    have st: "bt_insert m k v = Some (\<lparr>root = ?t, len = n\<rparr>, bm_get (entries_of m) k)"
      using h(1) s by (simp add: bt_insert_def Let_def n_def entries_of_def)
    have io: "inorder ?t = bm_insert k v (inorder (root m))" using h(2) s by simp
    have "shape lo lo d l" "shape lo lo d r" using h(2) s assms(2) by (auto intro: shape_weaken[of 3 lo d])
    then have "shape 1 lo (Suc d) ?t" by simp
    then have "shape (root_min lo (Suc d)) lo (Suc d) ?t" by (rule shape_weaken) (rule root_min_le)
    then have "bt_inv lo \<lparr>root = ?t, len = n\<rparr>" using a n io unfolding bt_inv_def entries_of_def by (metis bmap.select_convs)
    with st io show ?thesis by (simp add: entries_of_def)
  qed
qed

lemma collapse_root_shape:
  assumes "shape 0 3 d t"
  shows "inorder (collapse_root t) = inorder t \<and> (\<exists>d'. shape (root_min 3 d') 3 d' (collapse_root t))"
proof (cases t)
  case (BLeaf es)
  then show ?thesis using assms by (intro conjI exI[of _ 0]) (auto simp: collapse_root_def root_min_def)
next
  case (BInternal es cs)
  show ?thesis
  proof (cases es)
    case Nil
    then obtain c where c: "cs = [c]" using assms BInternal by (auto simp: length_Suc_conv)
    then have "shape 3 3 (d - 1) c" using assms BInternal by simp
    then have "shape (root_min 3 (d - 1)) 3 (d - 1) c" by (rule shape_weaken) (simp add: root_min_def)
    then show ?thesis using BInternal Nil c by (auto simp: collapse_root_def)
  next
    case (Cons e es')
    then have "collapse_root t = t" using BInternal by (simp add: collapse_root_def)
    moreover have "shape (root_min 3 d) 3 d t" using assms BInternal Cons by (simp add: root_min_def)
    ultimately show ?thesis by metis
  qed
qed

lemma bt_remove_mut_correct:
  assumes "bt_inv 3 m"
  shows "\<exists>m'. bt_remove_mut m k = Some (m', bm_get (entries_of m) k) \<and> bt_inv 3 m' \<and> entries_of m' = bm_remove k (entries_of m)"
proof -
  obtain d where d: "shape (root_min 3 d) 3 d (root m)" "keys_ascending (inorder (root m))"
    "len m = length (inorder (root m))" using assms(1) by (rule bt_invE)
  have bi: "bm_inv (inorder (root m))" using d(2) by (simp add: bm_inv_def)
  have "remove_ok (root_min 3 d) d (root m) k (remove_transient_helper (root m) k)"
    by (rule remove_transient_correct) (use d in \<open>auto simp: root_min_def\<close>)
  then obtain t where r: "remove_transient_helper (root m) k = Some (t, bm_get (inorder (root m)) k)"
    "inorder t = bm_remove k (inorder (root m))"
    "shape (if bm_get (inorder (root m)) k = None then root_min 3 d else root_min 3 d - 1) 3 d t"
    unfolding remove_ok_def by blast
  have a: "keys_ascending (bm_remove k (inorder (root m)))" using bm_inv_remove[OF bi] by (simp add: bm_inv_def)
  show ?thesis
  proof (cases "bm_get (inorder (root m)) k")
    case None
    then have e: "inorder t = inorder (root m)" using r(2) bm_remove_absent by metis
    have "bt_inv 3 (m\<lparr>root := t\<rparr>)" using r(3) None d e unfolding bt_inv_def entries_of_def by auto
    with r(1) None e bm_remove_absent[OF None] show ?thesis by (simp add: bt_remove_mut_def entries_of_def)
  next
    case (Some v)
    have l: "len m \<noteq> 0" "len m - 1 = length (bm_remove k (inorder (root m)))"
      using length_bm_remove[OF bi, of k] Some d(3) by auto
    have s: "shape 0 3 d t" using r(3) Some by (simp add: root_min_def split: if_splits)
    have c: "inorder (collapse_root t) = inorder t \<and> (\<exists>d'. shape (root_min 3 d') 3 d' (collapse_root t))"
      by (rule collapse_root_shape[OF s])
    then have "bt_inv 3 \<lparr>root = collapse_root t, len = len m - 1\<rparr>" using a l r(2) unfolding bt_inv_def entries_of_def by simp
    with r(1,2) Some l c show ?thesis by (simp add: bt_remove_mut_def entries_of_def)
  qed
qed

lemma bt_from_sorted_correct:
  assumes "keys_ascending es"
  shows "\<exists>m. bt_from_sorted es = Some m \<and> bt_inv 0 m \<and> entries_of m = es \<and> (length es \<le> 63 \<longrightarrow> bt_inv 3 m)"
proof -
  from from_sorted_root_correct[of es] obtain t d where t: "from_sorted_root es = Some t" "shape 0 0 d t" "inorder t = es" by blast
  moreover have "length es \<le> 63 \<Longrightarrow> \<exists>d. shape (root_min 3 d) 3 d t"
    using from_sorted_root_small[of es] t(1) by (auto simp: root_min_def)
  moreover have "shape (root_min 0 d) 0 d t" using t(2) by (simp add: root_min_def)
  ultimately show ?thesis using assms by (auto simp: bt_from_sorted_def bt_inv_def entries_of_def)
qed

section \<open>The map keeps the contract\<close>

interpretation weak_map: ordered_map entries_of "bt_inv 0" bt_get bt_insert
proof unfold_locales
  show "bm_inv (entries_of m)" if "bt_inv 0 m" for m :: "('a, 'b) bmap"
    using that by (auto simp: bt_inv_def bm_inv_def)
qed (simp_all add: bt_get_correct bt_insert_correct)

interpretation btree_map: removable_map entries_of "bt_inv 3" bt_get bt_insert bt_remove
proof unfold_locales
  show "bm_inv (entries_of m)" if "bt_inv 3 m" for m :: "('a, 'b) bmap"
    using that by (auto simp: bt_inv_def bm_inv_def)
qed (simp_all add: bt_get_correct bt_insert_correct bt_remove_mut_correct bt_remove_def)

lemma bt_iter_correct:
  assumes "bt_inv lo m"
  shows "iter_collect (bt_iter m) = entries_of m" "iter_rev_collect (bt_iter_rev m) = Some (rev (entries_of m))"
proof -
  obtain d where d: "shape (root_min lo d) lo d (root m)" using assms(1) by (rule bt_invE)
  note w = shape_wf_node[OF d]
  show "iter_collect (bt_iter m) = entries_of m"
    using w by (simp add: bt_iter_def entries_of_def iter_collect_rest)
  show "iter_rev_collect (bt_iter_rev m) = Some (rev (entries_of m))"
    using w by (simp add: bt_iter_rev_def entries_of_def iter_rev_collect_rest)
qed

section \<open>Properties\<close>

text \<open>C2: Starting from the empty map, every sequence of inserts and removes runs without a panic, keeps
  the documented B-tree invariant, and the map then reads, iterates (both ways) and counts exactly like the
  ascending association list the same sequence produces.\<close>

theorem btree_refines_sorted_map:
  "\<exists>m. run_ops bt_insert bt_remove bt_new ops = Some m \<and> bt_inv 3 m
     \<and> (\<forall>k. bt_get m k = Some (case last_write ops k of None \<Rightarrow> None | Some w \<Rightarrow> w))
     \<and> iter_collect (bt_iter m) = run_model [] ops
     \<and> iter_rev_collect (bt_iter_rev m) = Some (rev (run_model [] ops))
     \<and> len m = length (run_model [] ops)"
proof -
  from btree_map.ops_refine[of bt_new ops] obtain m where m: "run_ops bt_insert bt_remove bt_new ops = Some m"
    "bt_inv 3 m" "entries_of m = run_model [] ops" by auto
  have "bt_get m k = Some (case last_write ops k of None \<Rightarrow> None | Some w \<Rightarrow> w)" for k
    unfolding bt_get_correct[OF m(2)] m(3) run_model_get by (simp add: bm_get_def split: option.split)
  moreover have "len m = length (run_model [] ops)" using m(2,3) by (simp add: bt_inv_def)
  ultimately show ?thesis using m bt_iter_correct[OF m(2)] by metis
qed


lemma bt_scan_correct:
  assumes "bt_inv lw m"
  shows "bt_predecessor m k = Some (case filter (\<lambda>e. fst e < k) (entries_of m) of [] \<Rightarrow> None | x # xs \<Rightarrow> Some (last (x # xs)))"
    and "\<exists>it. bt_range m lo hi = Some it
      \<and> range_collect it = filter (\<lambda>e. \<not> below_bound lo (fst e) \<and> within_hi hi (fst e)) (entries_of m)"
    and "down_closed (\<lambda>k. \<not> abv k) \<Longrightarrow> down_closed bel \<Longrightarrow> \<exists>it. bt_range_rev_by m abv bel = Some it
      \<and> range_rev_collect it = Some (rev (filter (\<lambda>e. \<not> abv (fst e) \<and> \<not> bel (fst e)) (entries_of m)))"
    and "\<exists>m'. bt_get_mut m k f = Some (m', bm_get (entries_of m) k) \<and> bt_inv lw m'
      \<and> entries_of m' = (case bm_get (entries_of m) k of None \<Rightarrow> entries_of m | Some w \<Rightarrow> bm_insert k (f w) (entries_of m))"
proof -
  obtain d where d: "shape (root_min lw d) lw d (root m)" "keys_ascending (inorder (root m))"
    "len m = length (inorder (root m))" using assms(1) by (rule bt_invE)
  show "bt_predecessor m k = Some (case filter (\<lambda>e. fst e < k) (entries_of m) of [] \<Rightarrow> None | x # xs \<Rightarrow> Some (last (x # xs)))"
    unfolding bt_predecessor_def entries_of_def by (rule predecessor_node_correct[OF d(1,2)])
  show "\<exists>it. bt_range m lo hi = Some it
      \<and> range_collect it = filter (\<lambda>e. \<not> below_bound lo (fst e) \<and> within_hi hi (fst e)) (entries_of m)"
    unfolding bt_range_def entries_of_def by (rule range_node_correct[OF d(1,2)])
  show "\<exists>it. bt_range_rev_by m abv bel = Some it
      \<and> range_rev_collect it = Some (rev (filter (\<lambda>e. \<not> abv (fst e) \<and> \<not> bel (fst e)) (entries_of m)))"
    if "down_closed (\<lambda>k. \<not> abv k)" "down_closed bel"
    unfolding bt_range_rev_by_def entries_of_def by (rule range_rev_by_node_correct[OF d(1,2) that])
  have bi: "bm_inv (inorder (root m))" using d(2) by (simp add: bm_inv_def)
  from get_mut_helper_correct[OF d(1,2), of k f] obtain t' where
    t: "get_mut_helper (root m) k f = Some (t', bm_get (inorder (root m)) k)" "shape (root_min lw d) lw d t'"
    "inorder t' = (case bm_get (inorder (root m)) k of None \<Rightarrow> inorder (root m) | Some w \<Rightarrow> bm_insert k (f w) (inorder (root m)))"
    by blast
  have "keys_ascending (inorder t') \<and> length (inorder t') = len m"
    using d(2,3) t(3) length_bm_insert[OF bi, of k] bm_inv_insert[OF bi, of k]
    by (cases "bm_get (inorder (root m)) k") (auto simp: bm_inv_def)
  with t show "\<exists>m'. bt_get_mut m k f = Some (m', bm_get (entries_of m) k) \<and> bt_inv lw m'
      \<and> entries_of m' = (case bm_get (entries_of m) k of None \<Rightarrow> entries_of m | Some w \<Rightarrow> bm_insert k (f w) (entries_of m))"
    unfolding bt_get_mut_def bt_inv_def entries_of_def by auto
qed

text \<open>On every map in the (weak or documented) invariant the scans return exactly the entries they
  promise: the predecessor the greatest smaller entry, the range scan the entries between its bounds in
  ascending order, the group scan the entries neither above nor below its predicates in descending order.\<close>

theorem btree_scans:
  assumes "bt_inv lw m" "down_closed (\<lambda>k. \<not> abv k)" "down_closed bel"
  shows "bt_predecessor m k = Some (case filter (\<lambda>e. fst e < k) (entries_of m) of [] \<Rightarrow> None | x # xs \<Rightarrow> Some (last (x # xs)))
    \<and> (\<exists>it. bt_range m lo hi = Some it
      \<and> range_collect it = filter (\<lambda>e. \<not> below_bound lo (fst e) \<and> within_hi hi (fst e)) (entries_of m))
    \<and> (\<exists>it. bt_range_rev_by m abv bel = Some it
      \<and> range_rev_collect it = Some (rev (filter (\<lambda>e. \<not> abv (fst e) \<and> \<not> bel (fst e)) (entries_of m))))"
  using bt_scan_correct(1,2)[OF assms(1)] bt_scan_correct(3)[OF assms] by blast

theorem btree_scans_witness:
  "\<exists>m it. bt_from_sorted [(0, 0), (1, 1), (2, 4), (3, 9), (4, 16)] = Some m
     \<and> bt_predecessor m (3::nat) = Some (Some (2, 4))
     \<and> bt_range_rev_by m (\<lambda>k. 3 < k) (\<lambda>k. k < 2) = Some it \<and> range_rev_collect it = Some [(3, 9), (2, 4::nat)]"
proof -
  let ?es = "[(0, 0), (1, 1), (2, 4), (3, 9), (4, 16)] :: (nat \<times> nat) list"
  have "keys_ascending ?es" by simp
  then obtain m where m: "bt_from_sorted ?es = Some m" "bt_inv 0 m" "entries_of m = ?es"
    using bt_from_sorted_correct[of ?es] by blast
  have d: "down_closed (\<lambda>k. \<not> (3::nat) < k)" "down_closed (\<lambda>k. k < (2::nat))" by (auto simp: down_closed_def)
  from btree_scans[OF m(2) d, of 3 Unbounded Unbounded] m(1,3) show ?thesis by auto
qed

text \<open>C13: Bulk construction from strictly ascending entries never panics and holds exactly those entries; up to
  63 entries it also satisfies the documented invariant. Whatever its size, any sequence of inserts on the
  result runs without a panic and keeps it an ascending map with the expected contents, whether the path-copying
  or the in-place insert is used.\<close>

theorem btree_from_sorted:
  assumes "keys_ascending es" "puts_only ops"
  shows "\<exists>m m'. bt_from_sorted es = Some m \<and> iter_collect (bt_iter m) = es \<and> len m = length es
     \<and> (length es \<le> 63 \<longrightarrow> bt_inv 3 m)
     \<and> run_ops bt_insert_mut bt_remove m ops = Some m' \<and> run_ops bt_insert bt_remove m ops = Some m'
     \<and> iter_collect (bt_iter m') = run_model es ops \<and> len m' = length (run_model es ops)
     \<and> (\<forall>k. bt_get m' k = Some (bm_get (run_model es ops) k))"
proof -
  from bt_from_sorted_correct[OF assms(1)] obtain m where m: "bt_from_sorted es = Some m" "bt_inv 0 m"
    "entries_of m = es" "length es \<le> 63 \<longrightarrow> bt_inv 3 m" by blast
  from weak_map.puts_refine[OF m(2) assms(2)] m(3) obtain m' where r: "run_ops bt_insert bt_remove m ops = Some m'"
    "bt_inv 0 m'" "entries_of m' = run_model es ops" by blast
  have "bt_insert_mut = (bt_insert :: ('a, 'b) bmap \<Rightarrow> _)" by (intro ext) (rule bt_insert_mut_eq)
  then have "run_ops bt_insert_mut bt_remove m ops = Some m'" using r(1) by simp
  moreover have "len m = length es" "len m' = length (run_model es ops)" using m(2,3) r(2,3) by (auto simp: bt_inv_def)
  ultimately show ?thesis
    using m r bt_iter_correct(1)[OF m(2)] bt_iter_correct(1)[OF r(2)] bt_get_correct[OF r(2)] by metis
qed

theorem btree_from_sorted_witness:
  "\<exists>m m'. bt_from_sorted [(1, 1), (4, 4), (5, 5)] = Some m
     \<and> run_ops bt_insert bt_remove m [Put (4::nat) 0] = Some m' \<and> bt_get m' 4 = Some (Some (0::nat)) \<and> bt_get m' 5 = Some (Some 5)"
proof -
  have "keys_ascending [(1::nat, 1::nat), (4, 4), (5, 5)]" "puts_only [Put (4::nat) (0::nat)]" by simp_all
  from btree_from_sorted[OF this] show ?thesis by (auto simp: bm_get_def)
qed

text \<open>Editing a value through the lent slot changes that key's value and nothing else, keeps the invariant, and
  hands out the old value; addressing the key by a borrowed form that compares like the key gives the same read
  and the same edit.\<close>

theorem btree_get_mut:
  fixes b :: "'k::linorder \<Rightarrow> 'q::linorder"
  assumes "bt_inv lw m" "strict_mono b"
  shows "\<exists>m'. bt_get_mut m k f = Some (m', bm_get (entries_of m) k) \<and> bt_get_mut_by b m (b k) f = Some (m', bm_get (entries_of m) k)
     \<and> bt_get_by b m (b k) = Some (bm_get (entries_of m) k) \<and> bt_inv lw m'
     \<and> (\<forall>j. bt_get m' j = Some (if j = k then map_option f (bm_get (entries_of m) k) else bm_get (entries_of m) j))"
proof -
  from bt_scan_correct(4)[OF assms(1), of k f] obtain m' where m: "bt_get_mut m k f = Some (m', bm_get (entries_of m) k)"
    "bt_inv lw m'" "entries_of m' = (case bm_get (entries_of m) k of None \<Rightarrow> entries_of m | Some w \<Rightarrow> bm_insert k (f w) (entries_of m))"
    by blast
  have "bt_get m' j = Some (if j = k then map_option f (bm_get (entries_of m) k) else bm_get (entries_of m) j)" for j
    unfolding bt_get_correct[OF m(2)] m(3) by (simp split: option.splits)
  then show ?thesis using m get_by_eq[OF assms(2), of m k] bt_get_correct[OF assms(1)] by auto
qed

theorem btree_get_mut_witness:
  "\<exists>m'. bt_get_mut_by (\<lambda>x. x) \<lparr>root = BLeaf [(1::nat, 10::nat), (2, 20)], len = 2\<rparr> 2 (\<lambda>v. v + 1) = Some (m', Some 20)
     \<and> bt_get m' 2 = Some (Some 21) \<and> bt_get m' 1 = Some (Some 10)"
proof -
  let ?m = "\<lparr>root = BLeaf [(1::nat, 10::nat), (2, 20)], len = 2\<rparr>"
  have i: "bt_inv 3 ?m" unfolding bt_inv_def entries_of_def by (auto simp: root_min_def)
  have s: "strict_mono (\<lambda>x::nat. x)" by (simp add: strict_mono_def)
  from btree_get_mut[OF i s, of 2 "\<lambda>v. v + 1"] show ?thesis by (auto simp: entries_of_def bm_get_def)
qed

text \<open>A map bulk-built from 3584 to 3591 entries does not satisfy the documented minimum occupancy, and removing
  its greatest key panics: on two levels the last node is left with one child and no separator entry, and the
  repair then removes an entry that does not exist.\<close>

theorem btree_bulk_remove_panics:
  assumes "keys_ascending es" "3584 \<le> length es" "length es \<le> 3591"
  shows "\<exists>m. bt_from_sorted es = Some m \<and> bt_get m (fst (last es)) \<noteq> Some None
     \<and> bt_remove_mut m (fst (last es)) = None \<and> \<not> bt_inv 3 m"
proof -
  from bt_from_sorted_correct[OF assms(1)] obtain m where m: "bt_from_sorted es = Some m" "bt_inv 0 m" "entries_of m = es"
    by blast
  obtain t where t: "from_sorted_root es = Some t" using from_sorted_root_correct[of es] by blast
  with m(1) have "m = \<lparr>root = t, len = length es\<rparr>" by (simp add: bt_from_sorted_def)
  with t have r: "from_sorted_root es = Some (root m)" by simp
  have "bt_remove_mut m (fst (last es)) = None"
    using bulk_chain_remove_panics[OF assms(2,3,1) r] by (simp add: bt_remove_mut_def)
  moreover have "\<not> bt_inv 3 m" using bt_remove_mut_correct[of m "fst (last es)"] calculation by auto
  moreover have "es \<noteq> []" using assms(2) by auto
  then have "(fst (last es), snd (last es)) \<in> set es" by simp
  then have "bm_get es (fst (last es)) = Some (snd (last es))"
    using bm_in_get[of es] assms(1) by (simp add: bm_inv_def)
  ultimately show ?thesis using m bt_get_correct[OF m(2)] by auto
qed

theorem btree_bulk_remove_panics_witness:
  "\<exists>m. bt_from_sorted (map (\<lambda>i. (i, ())) [0..<3584]) = Some m \<and> bt_remove_mut m 3583 = None"
proof -
  let ?es = "map (\<lambda>i. (i, ())) [0..<3584::nat]"
  have "keys_ascending ?es" "3584 \<le> length ?es" "length ?es \<le> 3591" by (simp_all add: comp_def)
  moreover have "fst (last ?es) = 3583" by (simp add: last_map)
  ultimately show ?thesis using btree_bulk_remove_panics[of ?es] by metis
qed

end
