(* ===== verification/Lock_Table.thy ===== *)
theory Lock_Table
  imports Rust_Collections Row_Header "HOL-Library.Product_Lexorder"
begin

text \<open>
  The row lock table (\<open>locks.rs\<close> of \<open>spg-engine\<close>): the four tuple-lock modes, acquiring,
  waiting and releasing, the wait-for graph with its cycle detector, and the walks that
  lock the rows of a statement.
\<close>

section \<open>Modes, policies, outcomes\<close>

datatype lock_mode = KeyShare | Share | NoKeyUpdate | Exclusive

fun conflicts_with :: "lock_mode \<Rightarrow> lock_mode \<Rightarrow> bool" where
  "conflicts_with KeyShare requested = (requested = Exclusive)"
| "conflicts_with Share requested = (requested = NoKeyUpdate \<or> requested = Exclusive)"
| "conflicts_with NoKeyUpdate requested = (requested \<noteq> KeyShare)"
| "conflicts_with Exclusive requested = True"

datatype wait_policy = Wait | NoWait | SkipLocked

datatype lock_outcome =
    Granted
  | WouldBlock "u64 list"
  | Skip
  | NotAvailable
  | Deadlock u64

record lock_entry =
  holders :: "(u64 \<times> lock_mode) list"
  waiters :: "u64 list"

type_synonym row_key = "rel_id \<times> row_id"

record lock_table =
  lock_entries :: "(row_key, lock_entry) btmap"
  wait_for :: "(u64, u64 btset) btmap"

definition lt_new :: lock_table where
  "lt_new = \<lparr>lock_entries = [], wait_for = []\<rparr>"

definition default_entry :: lock_entry where
  "default_entry = \<lparr>holders = [], waiters = []\<rparr>"

definition entry_at :: "lock_table \<Rightarrow> row_key \<Rightarrow> lock_entry" where
  "entry_at lt key = (case bm_get (lock_entries lt) key of None \<Rightarrow> default_entry | Some e \<Rightarrow> e)"

definition set_entry :: "lock_table \<Rightarrow> row_key \<Rightarrow> lock_entry \<Rightarrow> lock_table" where
  "set_entry lt key e = lt\<lparr>lock_entries := bm_insert key e (lock_entries lt)\<rparr>"

section \<open>The cycle detector\<close>

definition edges_of :: "lock_table \<Rightarrow> u64 \<Rightarrow> u64 list" where
  "edges_of lt v = (case bm_get (wait_for lt) v of None \<Rightarrow> [] | Some es \<Rightarrow> es)"

text \<open>
  The loop of \<open>dfs_cycle\<close> over the edges of one node. The path set a call receives is the
  one its caller keeps: the source inserts the node on entry and removes it again before it
  returns without a cycle. The sets \<open>visited\<close> and \<open>path\<close> are only ever written.
\<close>

definition unvisited :: "lock_table \<Rightarrow> u64 btset \<Rightarrow> nat" where
  "unvisited lt on_path = card (fst ` set (wait_for lt) - set on_path)"

lemma unvisited_insert:
  assumes "v \<notin> set on_path" "edges_of lt v \<noteq> []"
  shows "unvisited lt (bs_insert v on_path) < unvisited lt on_path"
proof -
  have "v \<in> fst ` set (wait_for lt)"
    using assms(2) by (auto simp: edges_of_def bm_get_def image_iff split: option.splits dest!: map_of_SomeD) force
  then have "fst ` set (wait_for lt) - set (bs_insert v on_path) \<subset> fst ` set (wait_for lt) - set on_path"
    using assms(1) by auto
  then show ?thesis unfolding unvisited_def by (intro psubset_card_mono) auto
qed

lemma unvisited_insert_le: "unvisited lt (bs_insert v on_path) \<le> unvisited lt on_path"
  unfolding unvisited_def by (intro card_mono) auto

function dfs_edges :: "lock_table \<Rightarrow> u64 \<Rightarrow> u64 list \<Rightarrow> u64 btset \<Rightarrow> u64 btset option" where
  "dfs_edges lt start [] on_path = None"
| "dfs_edges lt start (nxt # es) on_path =
     (if nxt = start then Some (bs_insert start on_path)
      else if \<not> bs_contains on_path nxt then
        (case dfs_edges lt start (edges_of lt nxt) (bs_insert nxt on_path) of
           Some c \<Rightarrow> Some c
         | None \<Rightarrow> dfs_edges lt start es on_path)
      else dfs_edges lt start es on_path)"
  by pat_completeness auto
termination
proof (relation "measures [\<lambda>(lt, start, es, on_path). unvisited lt on_path, \<lambda>(lt, start, es, on_path). length es]", goal_cases)
  case (2 lt start nxt es on_path)
  then show ?case
    using unvisited_insert[of nxt on_path lt] unvisited_insert_le[of lt nxt on_path]
    by (cases "edges_of lt nxt = []") (auto simp: bs_contains_def)
qed auto

definition dfs_cycle :: "lock_table \<Rightarrow> u64 \<Rightarrow> u64 \<Rightarrow> u64 btset \<Rightarrow> u64 btset option" where
  "dfs_cycle lt start node on_path = dfs_edges lt start (edges_of lt node) (bs_insert node on_path)"

definition find_cycle :: "lock_table \<Rightarrow> u64 \<Rightarrow> u64 btset option" where
  "find_cycle lt start = dfs_cycle lt start start []"

text \<open>\<open>cycle.into_iter().max().unwrap_or(version)\<close>.\<close>

definition victim_of :: "u64 btset \<Rightarrow> u64 \<Rightarrow> u64" where
  "victim_of cyc v = (if cyc = [] then v else Max (set cyc))"

section \<open>Operations\<close>

fun collect_blockers :: "u64 \<Rightarrow> lock_mode \<Rightarrow> (u64 \<times> lock_mode) list \<Rightarrow> u64 list \<Rightarrow> u64 list" where
  "collect_blockers version mode [] bs = bs"
| "collect_blockers version mode ((hv, hmode) # hs) bs =
     collect_blockers version mode hs
       (if hv \<noteq> version \<and> conflicts_with hmode mode \<and> hv \<notin> set bs then bs @ [hv] else bs)"

definition add_edges :: "lock_table \<Rightarrow> u64 \<Rightarrow> u64 list \<Rightarrow> lock_table" where
  "add_edges lt v bs = lt\<lparr>wait_for := bm_insert v (fold bs_insert bs (edges_of lt v)) (wait_for lt)\<rparr>"

definition acquire ::
  "lock_table \<Rightarrow> rel_id \<Rightarrow> row_id \<Rightarrow> lock_mode \<Rightarrow> u64 \<Rightarrow> wait_policy \<Rightarrow> lock_outcome \<times> lock_table" where
  "acquire lt rel row mode version policy =
     (let key = (rel, row);
          entry = entry_at lt key;
          lt0 = set_entry lt key entry;
          blockers = collect_blockers version mode (holders entry) []
      in if blockers = [] then
           (let hs = (if (version, mode) \<in> set (holders entry) then holders entry else holders entry @ [(version, mode)]);
                entry' = \<lparr>holders = hs, waiters = filter (\<lambda>w. w \<noteq> version) (waiters entry)\<rparr>
            in (Granted, (set_entry lt0 key entry')\<lparr>wait_for := bm_remove version (wait_for lt0)\<rparr>))
         else
           (case policy of
              NoWait \<Rightarrow> (NotAvailable, lt0)
            | SkipLocked \<Rightarrow> (Skip, lt0)
            | Wait \<Rightarrow>
                (let entry' = (if version \<in> set (waiters entry) then entry else entry\<lparr>waiters := waiters entry @ [version]\<rparr>);
                     lt1 = add_edges (set_entry lt0 key entry') version blockers
                 in (case find_cycle lt1 version of
                       Some cyc \<Rightarrow> (Deadlock (victim_of cyc version), lt1)
                     | None \<Rightarrow> (WouldBlock blockers, lt1)))))"

definition release_entry :: "u64 \<Rightarrow> lock_entry \<Rightarrow> lock_entry" where
  "release_entry version e =
     \<lparr>holders = filter (\<lambda>h. fst h \<noteq> version) (holders e), waiters = filter (\<lambda>w. w \<noteq> version) (waiters e)\<rparr>"

definition release_all :: "lock_table \<Rightarrow> u64 \<Rightarrow> lock_table" where
  "release_all lt version =
     \<lparr>lock_entries = filter (\<lambda>(k, e). \<not> (holders e = [] \<and> waiters e = []))
        (map (\<lambda>(k, e). (k, release_entry version e)) (lock_entries lt)),
      wait_for = map (\<lambda>(w, es). (w, bs_remove version es)) (bm_remove version (wait_for lt))\<rparr>"

definition wait_on_versions :: "lock_table \<Rightarrow> u64 \<Rightarrow> u64 list \<Rightarrow> lock_outcome \<times> lock_table" where
  "wait_on_versions lt waiter blockers =
     (let lt1 = add_edges lt waiter (filter (\<lambda>b. b \<noteq> waiter) blockers)
      in case find_cycle lt1 waiter of
           Some cyc \<Rightarrow> (Deadlock (victim_of cyc waiter), lt1)
         | None \<Rightarrow> (WouldBlock blockers, lt1))"

definition clear_wait :: "lock_table \<Rightarrow> u64 \<Rightarrow> lock_table" where
  "clear_wait lt waiter = lt\<lparr>wait_for := bm_remove waiter (wait_for lt)\<rparr>"

definition locked_row_count :: "lock_table \<Rightarrow> nat" where
  "locked_row_count lt = length (lock_entries lt)"

definition enumerate_locks :: "lock_table \<Rightarrow> (rel_id \<times> row_id \<times> u64 \<times> lock_mode \<times> bool) list" where
  "enumerate_locks lt =
     concat (map (\<lambda>((rel, row), e).
         map (\<lambda>(v, m). (rel, row, v, m, True)) (holders e) @ map (\<lambda>v. (rel, row, v, Exclusive, False)) (waiters e))
       (lock_entries lt))"

section \<open>Statement walks\<close>

datatype lock_error = LockWouldBlock | LockDeadlock | LockNotAvailable

fun lock_dml_rows ::
  "lock_table \<Rightarrow> rel_id \<Rightarrow> row_id list \<Rightarrow> lock_mode \<Rightarrow> u64 \<Rightarrow> (lock_error + unit) \<times> lock_table" where
  "lock_dml_rows lt rel [] mode version = (Inr (), lt)"
| "lock_dml_rows lt rel (rid # rids) mode version =
     (case acquire lt rel rid mode version Wait of
        (Granted, lt') \<Rightarrow> lock_dml_rows lt' rel rids mode version
      | (WouldBlock on, lt') \<Rightarrow> (Inl LockWouldBlock, lt')
      | (Deadlock victim, lt') \<Rightarrow> (Inl (if victim = version then LockDeadlock else LockWouldBlock), lt')
      | (Skip, lt') \<Rightarrow> (Inl LockWouldBlock, lt')
      | (NotAvailable, lt') \<Rightarrow> (Inl LockWouldBlock, lt'))"

text \<open>
  The walk of \<open>run_locking_prepass\<close> over the picked rows in result order, until the wanted
  number is taken; it gives the positions skipped because someone else holds them.
\<close>

fun lock_walk ::
  "lock_table \<Rightarrow> rel_id \<Rightarrow> lock_mode \<Rightarrow> u64 \<Rightarrow> wait_policy \<Rightarrow> nat option \<Rightarrow> (nat \<times> row_id) list
     \<Rightarrow> nat \<Rightarrow> nat btset \<Rightarrow> (lock_error + nat btset) \<times> lock_table" where
  "lock_walk lt rel mode version policy want [] taken skipped = (Inr skipped, lt)"
| "lock_walk lt rel mode version policy want ((idx, rid) # picked) taken skipped =
     (if (case want of None \<Rightarrow> False | Some w \<Rightarrow> w \<le> taken) then (Inr skipped, lt)
      else case acquire lt rel rid mode version policy of
        (Granted, lt') \<Rightarrow> lock_walk lt' rel mode version policy want picked (Suc taken) skipped
      | (Skip, lt') \<Rightarrow> lock_walk lt' rel mode version policy want picked taken (bs_insert idx skipped)
      | (NotAvailable, lt') \<Rightarrow> (Inl LockNotAvailable, lt')
      | (WouldBlock on, lt') \<Rightarrow> (Inl LockWouldBlock, lt')
      | (Deadlock victim, lt') \<Rightarrow> (Inl (if victim = version then LockDeadlock else LockWouldBlock), lt'))"

section \<open>The detector finds exactly the cycles\<close>

definition wait_edges :: "lock_table \<Rightarrow> (u64 \<times> u64) set" where
  "wait_edges lt = {(a, b). b \<in> set (edges_of lt a)}"

definition avoiding :: "lock_table \<Rightarrow> u64 set \<Rightarrow> (u64 \<times> u64) set" where
  "avoiding lt P = {(a, b). (a, b) \<in> wait_edges lt \<and> a \<notin> P}"

lemma avoiding_split:
  assumes "(x, s) \<in> (avoiding lt P)\<^sup>*"
  shows "(x, s) \<in> (avoiding lt (insert a P))\<^sup>*
    \<or> (\<exists>e. (a, e) \<in> wait_edges lt \<and> (e, s) \<in> (avoiding lt (insert a P))\<^sup>*)"
  using assms
proof (induction rule: converse_rtrancl_induct)
  case (step x y)
  show ?case
  proof (cases "x = a")
    case True
    with step show ?thesis by (auto simp: avoiding_def)
  next
    case False
    then have "(x, y) \<in> avoiding lt (insert a P)" using step(1) by (auto simp: avoiding_def)
    with step(3) show ?thesis by (meson converse_rtrancl_into_rtrancl)
  qed
qed simp

lemma avoiding_source: "(a, s) \<in> (avoiding lt P)\<^sup>* \<Longrightarrow> a \<in> P \<Longrightarrow> a = s"
  by (erule converse_rtranclE) (auto simp: avoiding_def)

lemma avoiding_first:
  assumes "(a, s) \<in> (avoiding lt P)\<^sup>*" "a \<noteq> s"
  shows "\<exists>e. (a, e) \<in> wait_edges lt \<and> (e, s) \<in> (avoiding lt (insert a P))\<^sup>*"
  using avoiding_split[OF assms(1), of a] avoiding_source[of a s lt "insert a P"] assms(2) by auto

lemma dfs_edges_None:
  assumes "dfs_edges lt start es on_path = None"
  shows "\<forall>e\<in>set es. (e, start) \<notin> (avoiding lt (set on_path))\<^sup>*"
  using assms
proof (induction lt start es on_path rule: dfs_edges.induct)
  case (2 lt start nxt es on_path)
  have ns: "nxt \<noteq> start" using 2(4) by auto
  have "(nxt, start) \<notin> (avoiding lt (set on_path))\<^sup>*"
  proof (cases "bs_contains on_path nxt")
    case True
    then show ?thesis using avoiding_source[of nxt start lt "set on_path"] ns by (auto simp: bs_contains_def)
  next
    case False
    then have "\<forall>e\<in>set (edges_of lt nxt). (e, start) \<notin> (avoiding lt (set (bs_insert nxt on_path)))\<^sup>*"
      using 2(1)[OF ns] 2(4) ns by (auto split: option.splits)
    then show ?thesis using avoiding_first[of nxt start lt "set on_path"] ns by (auto simp: wait_edges_def)
  qed
  moreover have "\<forall>e\<in>set es. (e, start) \<notin> (avoiding lt (set on_path))\<^sup>*"
    using 2 ns by (auto split: option.splits if_splits)
  ultimately show ?case by simp
qed simp

lemma dfs_edges_Some:
  assumes "dfs_edges lt start es on_path = Some c"
    and "\<forall>x\<in>set on_path. (start, x) \<in> (wait_edges lt)\<^sup>* \<and> (x, cur) \<in> (wait_edges lt)\<^sup>*"
    and "cur \<in> set on_path" "set es \<subseteq> set (edges_of lt cur)"
  shows "start \<in> set c \<and> (\<forall>x\<in>set c. (start, x) \<in> (wait_edges lt)\<^sup>* \<and> (x, start) \<in> (wait_edges lt)\<^sup>+)"
  using assms
proof (induction lt start es on_path arbitrary: cur rule: dfs_edges.induct)
  case (2 lt start nxt es on_path)
  have e: "(cur, nxt) \<in> wait_edges lt" using 2(7) by (auto simp: wait_edges_def)
  show ?case
  proof (cases "nxt = start")
    case True
    then have c: "c = bs_insert start on_path" using 2(4) by simp
    have "(x, start) \<in> (wait_edges lt)\<^sup>+" if "x \<in> set on_path" for x
      using 2(5) that e True by (meson rtrancl_into_trancl1)
    moreover have "(start, start) \<in> (wait_edges lt)\<^sup>+"
      using 2(5,6) e True by (meson rtrancl_into_trancl1)
    ultimately show ?thesis using 2(5) c by auto
  next
    case ns: False
    show ?thesis
    proof (cases "\<not> bs_contains on_path nxt \<and> dfs_edges lt start (edges_of lt nxt) (bs_insert nxt on_path) \<noteq> None")
      case True
      then obtain c' where c': "dfs_edges lt start (edges_of lt nxt) (bs_insert nxt on_path) = Some c'" by blast
      then have "dfs_edges lt start (edges_of lt nxt) (bs_insert nxt on_path) = Some c" using 2(4) ns True by simp
      moreover have "\<forall>x\<in>set (bs_insert nxt on_path). (start, x) \<in> (wait_edges lt)\<^sup>* \<and> (x, nxt) \<in> (wait_edges lt)\<^sup>*"
        using 2(5,6) e by (auto intro: rtrancl_into_rtrancl)
      ultimately show ?thesis by (rule 2(1)[OF ns conjunct1[OF True]]) simp_all
    next
      case False
      then have "dfs_edges lt start es on_path = Some c" using 2(4) ns by (auto split: if_splits)
      then have "bs_contains on_path nxt \<Longrightarrow> ?thesis"
          "\<not> bs_contains on_path nxt \<Longrightarrow> dfs_edges lt start (edges_of lt nxt) (bs_insert nxt on_path) = None \<Longrightarrow> ?thesis"
        using 2(3)[OF ns _ _ 2(5,6)] 2(2)[OF ns _ _ _ 2(5,6)] 2(7) by simp_all
      then show ?thesis using False by blast
    qed
  qed
qed simp

lemma find_cycle_None_iff: "find_cycle lt s = None \<longleftrightarrow> (s, s) \<notin> (wait_edges lt)\<^sup>+"
proof
  assume n: "find_cycle lt s = None"
  show "(s, s) \<notin> (wait_edges lt)\<^sup>+"
  proof
    assume "(s, s) \<in> (wait_edges lt)\<^sup>+"
    then obtain e where e: "(s, e) \<in> wait_edges lt" "(e, s) \<in> (wait_edges lt)\<^sup>*" by (meson tranclD)
    have "avoiding lt {} = wait_edges lt" by (auto simp: avoiding_def)
    then have "\<exists>e. (s, e) \<in> wait_edges lt \<and> (e, s) \<in> (avoiding lt {s})\<^sup>*"
      using avoiding_split[of e s lt "{}" s] e by auto
    with dfs_edges_None[of lt s "edges_of lt s" "[s]"] n show False
      by (auto simp: find_cycle_def dfs_cycle_def wait_edges_def)
  qed
next
  assume s: "(s, s) \<notin> (wait_edges lt)\<^sup>+"
  show "find_cycle lt s = None"
  proof (rule ccontr)
    assume "find_cycle lt s \<noteq> None"
    then obtain c where "dfs_edges lt s (edges_of lt s) [s] = Some c" by (auto simp: find_cycle_def dfs_cycle_def)
    from dfs_edges_Some[OF this, of s] s show False by auto
  qed
qed

lemma find_cycle_Some:
  assumes "find_cycle lt s = Some c"
  shows "s \<in> set c \<and> (\<forall>x\<in>set c. (s, x) \<in> (wait_edges lt)\<^sup>* \<and> (x, s) \<in> (wait_edges lt)\<^sup>+)"
  by (rule dfs_edges_Some[of lt s "edges_of lt s" "[s]"]) (use assms in \<open>auto simp: find_cycle_def dfs_cycle_def\<close>)

section \<open>Effect of the operations\<close>

lemma conflicts_sym: "conflicts_with a b = conflicts_with b a"
  by (cases a; cases b) auto

lemma set_collect_blockers:
  "set (collect_blockers v m hs bs) = set bs \<union> {hv. \<exists>hm. (hv, hm) \<in> set hs \<and> hv \<noteq> v \<and> conflicts_with hm m}"
  by (induction v m hs bs rule: collect_blockers.induct) auto

lemma distinct_collect_blockers: "distinct bs \<Longrightarrow> distinct (collect_blockers v m hs bs)"
  by (induction v m hs bs rule: collect_blockers.induct) auto

lemma collect_blockers_empty:
  "collect_blockers v m hs [] = [] \<longleftrightarrow> (\<forall>(hv, hm)\<in>set hs. hv \<noteq> v \<longrightarrow> \<not> conflicts_with hm m)"
proof -
  have "collect_blockers v m hs [] = [] \<longleftrightarrow> set (collect_blockers v m hs []) = {}" by simp
  also have "\<dots> \<longleftrightarrow> (\<forall>(hv, hm)\<in>set hs. hv \<noteq> v \<longrightarrow> \<not> conflicts_with hm m)"
    unfolding set_collect_blockers by auto
  finally show ?thesis .
qed

lemma entry_at_set_entry [simp]: "entry_at (set_entry lt k e) j = (if j = k then e else entry_at lt j)"
  by (simp add: entry_at_def set_entry_def)

lemma entry_at_wait_for [simp]: "entry_at (lt\<lparr>wait_for := w\<rparr>) k = entry_at lt k"
  by (simp add: entry_at_def)

lemma wait_for_set_entry [simp]: "wait_for (set_entry lt k e) = wait_for lt"
  by (simp add: set_entry_def)

lemma edges_of_set_entry [simp]: "edges_of (set_entry lt k e) = edges_of lt"
  by (rule ext) (simp add: edges_of_def)

lemma edges_of_add_edges: "set (edges_of (add_edges lt v bs) w) = (if w = v then set bs \<union> set (edges_of lt v) else set (edges_of lt w))"
  by (auto simp: edges_of_def add_edges_def)

lemma edges_of_drop: "edges_of (lt\<lparr>wait_for := bm_remove v (wait_for lt)\<rparr>) a = (if a = v then [] else edges_of lt a)"
  by (simp add: edges_of_def)

lemma edges_of_release: "edges_of (release_all lt v) a = (if a = v then [] else bs_remove v (edges_of lt a))"
  by (simp add: edges_of_def release_all_def bm_get_map_values bs_remove_def split: option.split)

lemma entry_at_add_edges [simp]: "entry_at (add_edges lt v bs) k = entry_at lt k"
  by (simp add: add_edges_def)

lemma wait_edges_set_entry [simp]: "wait_edges (set_entry lt k e) = wait_edges lt"
  by (simp add: wait_edges_def)

lemma wait_edges_add_edges: "wait_edges (add_edges lt v bs) = wait_edges lt \<union> {v} \<times> set bs"
  by (auto simp: wait_edges_def edges_of_add_edges split: if_splits)

lemma wait_edges_drop: "wait_edges (lt\<lparr>wait_for := bm_remove v (wait_for lt)\<rparr>) = {(a, b) \<in> wait_edges lt. a \<noteq> v}"
  by (auto simp: wait_edges_def edges_of_drop split: if_splits)

lemma wait_edges_release: "wait_edges (release_all lt v) = {(a, b) \<in> wait_edges lt. a \<noteq> v \<and> b \<noteq> v}"
  by (auto simp: wait_edges_def edges_of_release split: if_splits)

lemma acyclic_new_source:
  assumes "acyclic E" "(v, v) \<notin> (E \<union> {v} \<times> B)\<^sup>+"
  shows "acyclic (E \<union> {v} \<times> B)"
proof -
  let ?E = "E \<union> {v} \<times> B"
  have split: "(x, y) \<in> E\<^sup>+ \<or> ((x, v) \<in> ?E\<^sup>* \<and> (v, y) \<in> ?E\<^sup>+)" if "(x, y) \<in> ?E\<^sup>+" for x y
    using that
  proof (induction rule: trancl_induct)
    case (base y)
    then show ?case by auto
  next
    case (step y z)
    show ?case
    proof (cases "(y, z) \<in> E")
      case True
      with step show ?thesis by (meson Un_iff trancl.trancl_into_trancl)
    next
      case False
      then have "y = v" "(v, z) \<in> ?E" using step(2) by auto
      with step(1) show ?thesis by (meson trancl.r_into_trancl trancl_into_rtrancl)
    qed
  qed
  show ?thesis
  proof (rule acyclicI, rule allI)
    fix x
    show "(x, x) \<notin> ?E\<^sup>+"
      using split[of x x] assms unfolding acyclic_def by (meson rtrancl_trancl_trancl trancl_rtrancl_trancl)
  qed
qed

section \<open>Invariant\<close>

definition compatible :: "(u64 \<times> lock_mode) list \<Rightarrow> bool" where
  "compatible hs = (\<forall>(v, m)\<in>set hs. \<forall>(w, n)\<in>set hs. v \<noteq> w \<longrightarrow> \<not> conflicts_with m n)"

definition entry_ok :: "lock_entry \<Rightarrow> bool" where
  "entry_ok e = (compatible (holders e) \<and> (holders e \<noteq> [] \<or> waiters e \<noteq> []))"

definition lt_inv :: "lock_table \<Rightarrow> bool" where
  "lt_inv lt = (bm_inv (lock_entries lt) \<and> bm_inv (wait_for lt) \<and> (\<forall>(k, e)\<in>set (lock_entries lt). entry_ok e))"

lemma entry_at_compatible: "lt_inv lt \<Longrightarrow> compatible (holders (entry_at lt k))"
  by (auto simp: lt_inv_def entry_at_def entry_ok_def default_entry_def compatible_def[of "[]"] split: option.splits
      dest!: bm_get_Some_in)

lemma lt_inv_set_entry:
  assumes "lt_inv lt" "entry_ok e"
  shows "lt_inv (set_entry lt k e)"
  using assms set_bm_insert_subset[of k e "lock_entries lt"]
  unfolding lt_inv_def set_entry_def by auto

lemma set_entry_twice [simp]: "set_entry (set_entry lt k e) k e' = set_entry lt k e'"
proof -
  have "bm_insert k e' (bm_insert k e m) = bm_insert k e' m" for m :: "(row_key, lock_entry) btmap"
    by (induction k e m rule: bm_insert.induct) auto
  then show ?thesis by (simp add: set_entry_def)
qed

lemma lt_inv_waits: "lt_inv lt \<Longrightarrow> bm_inv w \<Longrightarrow> lt_inv (lt\<lparr>wait_for := w\<rparr>)"
  by (simp add: lt_inv_def)

lemma lt_inv_add_edges: "lt_inv lt \<Longrightarrow> lt_inv (add_edges lt v bs)"
  unfolding add_edges_def by (rule lt_inv_waits) (auto simp: lt_inv_def)

text \<open>The two shapes of an acquire: granted, or blocked by the listed holders.\<close>

definition other_conflict :: "lock_table \<Rightarrow> row_key \<Rightarrow> lock_mode \<Rightarrow> u64 \<Rightarrow> bool" where
  "other_conflict lt key mode v = (\<exists>(hv, hm)\<in>set (holders (entry_at lt key)). hv \<noteq> v \<and> conflicts_with hm mode)"

definition granted_entry :: "lock_entry \<Rightarrow> u64 \<Rightarrow> lock_mode \<Rightarrow> lock_entry" where
  "granted_entry e v m =
     \<lparr>holders = (if (v, m) \<in> set (holders e) then holders e else holders e @ [(v, m)]),
      waiters = filter (\<lambda>w. w \<noteq> v) (waiters e)\<rparr>"

lemma acquire_free:
  assumes "\<not> other_conflict lt (rel, row) mode v"
  shows "acquire lt rel row mode v policy = (Granted,
    (set_entry lt (rel, row) (granted_entry (entry_at lt (rel, row)) v mode))\<lparr>wait_for := bm_remove v (wait_for lt)\<rparr>)"
proof -
  have "collect_blockers v mode (holders (entry_at lt (rel, row))) [] = []"
    using assms unfolding other_conflict_def collect_blockers_empty by auto
  then show ?thesis by (simp add: acquire_def Let_def granted_entry_def)
qed

lemma acquire_blocked:
  assumes "other_conflict lt (rel, row) mode v"
  obtains bs e' where "bs \<noteq> []" "distinct bs" "set bs = {hv. \<exists>hm. (hv, hm) \<in> set (holders (entry_at lt (rel, row))) \<and> hv \<noteq> v \<and> conflicts_with hm mode}"
    "holders e' = holders (entry_at lt (rel, row))" "v \<in> set (waiters e')"
    "acquire lt rel row mode v NoWait = (NotAvailable, set_entry lt (rel, row) (entry_at lt (rel, row)))"
    "acquire lt rel row mode v SkipLocked = (Skip, set_entry lt (rel, row) (entry_at lt (rel, row)))"
    "acquire lt rel row mode v Wait =
      (let lt1 = add_edges (set_entry lt (rel, row) e') v bs
       in (case find_cycle lt1 v of Some cyc \<Rightarrow> (Deadlock (victim_of cyc v), lt1) | None \<Rightarrow> (WouldBlock bs, lt1)))"
proof -
  define e where "e = entry_at lt (rel, row)"
  define bs where "bs = collect_blockers v mode (holders e) []"
  define e' where "e' = (if v \<in> set (waiters e) then e else e\<lparr>waiters := waiters e @ [v]\<rparr>)"
  have ne: "bs \<noteq> []" using assms unfolding bs_def other_conflict_def collect_blockers_empty e_def by auto
  have "distinct bs" unfolding bs_def by (rule distinct_collect_blockers) simp
  moreover have "set bs = {hv. \<exists>hm. (hv, hm) \<in> set (holders e) \<and> hv \<noteq> v \<and> conflicts_with hm mode}"
    by (simp add: bs_def set_collect_blockers)
  moreover have "holders e' = holders e" "v \<in> set (waiters e')" by (auto simp: e'_def)
  moreover have "acquire lt rel row mode v policy =
      (case policy of NoWait \<Rightarrow> (NotAvailable, set_entry lt (rel, row) e) | SkipLocked \<Rightarrow> (Skip, set_entry lt (rel, row) e)
       | Wait \<Rightarrow> (case find_cycle (add_edges (set_entry lt (rel, row) e') v bs) v of
             Some cyc \<Rightarrow> (Deadlock (victim_of cyc v), add_edges (set_entry lt (rel, row) e') v bs)
           | None \<Rightarrow> (WouldBlock bs, add_edges (set_entry lt (rel, row) e') v bs)))" for policy
    unfolding acquire_def Let_def e_def[symmetric] bs_def[symmetric] e'_def[symmetric] set_entry_twice if_not_P[OF ne] ..
  ultimately show thesis
    using that[of bs e'] ne unfolding e_def[symmetric] Let_def by simp
qed

lemma acquire_inv:
  assumes "lt_inv lt" "acquire lt rel row mode v policy = (oc, lt')"
  shows "lt_inv lt'"
proof (cases "other_conflict lt (rel, row) mode v")
  case False
  let ?e = "entry_at lt (rel, row)"
  have new: "\<not> conflicts_with hm mode" "\<not> conflicts_with mode hm" if "(hv, hm) \<in> set (holders ?e)" "hv \<noteq> v" for hv hm
    using False that conflicts_sym[of mode hm] by (auto simp: other_conflict_def)
  have "compatible (holders (granted_entry ?e v mode))"
    using entry_at_compatible[OF assms(1), of "(rel, row)"] new
    unfolding compatible_def granted_entry_def by auto
  then have "entry_ok (granted_entry ?e v mode)" by (auto simp: entry_ok_def granted_entry_def)
  then have "lt_inv (set_entry lt (rel, row) (granted_entry ?e v mode))" by (rule lt_inv_set_entry[OF assms(1)])
  moreover have "bm_inv (bm_remove v (wait_for lt))" using assms(1) by (simp add: lt_inv_def)
  ultimately show ?thesis using acquire_free[OF False] assms(2) by (auto intro: lt_inv_waits)
next
  case True
  have ok: "entry_ok e" if "holders e = holders (entry_at lt (rel, row))" for e
    using that True entry_at_compatible[OF assms(1), of "(rel, row)"] by (auto simp: entry_ok_def other_conflict_def)
  from True obtain bs e' where b: "holders e' = holders (entry_at lt (rel, row))"
    "acquire lt rel row mode v NoWait = (NotAvailable, set_entry lt (rel, row) (entry_at lt (rel, row)))"
    "acquire lt rel row mode v SkipLocked = (Skip, set_entry lt (rel, row) (entry_at lt (rel, row)))"
    "acquire lt rel row mode v Wait =
      (let lt1 = add_edges (set_entry lt (rel, row) e') v bs
       in (case find_cycle lt1 v of Some cyc \<Rightarrow> (Deadlock (victim_of cyc v), lt1) | None \<Rightarrow> (WouldBlock bs, lt1)))"
    by (rule acquire_blocked)
  note s = lt_inv_set_entry[OF assms(1) ok]
  show ?thesis
    using assms(2) b s[of "entry_at lt (rel, row)" "(rel, row)"] lt_inv_add_edges[OF s[OF b(1)]]
    by (cases policy) (auto simp: Let_def split: option.splits)
qed

lemma release_inv: "lt_inv lt \<Longrightarrow> lt_inv (release_all lt v)"
proof -
  assume i: "lt_inv lt"
  have "bm_inv (lock_entries (release_all lt v))"
    using i unfolding lt_inv_def release_all_def by (simp add: bm_inv_filter bm_inv_map_values)
  moreover have "bm_inv (wait_for (release_all lt v))"
    using i unfolding lt_inv_def release_all_def by (simp add: bm_inv_map_values)
  moreover have "\<forall>(k, e)\<in>set (lock_entries (release_all lt v)). entry_ok e"
    using i unfolding lt_inv_def release_all_def entry_ok_def release_entry_def compatible_def by fastforce
  ultimately show ?thesis by (simp add: lt_inv_def)
qed

lemma entry_at_release:
  assumes "lt_inv lt"
  shows "entry_at (release_all lt v) k = release_entry v (entry_at lt k)"
proof -
  have "bm_inv (map (\<lambda>(k, e). (k, release_entry v e)) (lock_entries lt))" using assms by (simp add: lt_inv_def bm_inv_map_values)
  from bm_get_filter[OF this, of "\<lambda>k e. \<not> (holders e = [] \<and> waiters e = [])" k] show ?thesis
    by (auto simp: entry_at_def release_all_def bm_get_map_values default_entry_def release_entry_def split: option.splits)
qed

lemma held_after_acquire:
  assumes "acquire lt rel row mode v policy = (oc, lt')"
  shows "set (holders (entry_at lt' key)) = set (holders (entry_at lt key)) \<union> (if oc = Granted \<and> key = (rel, row) then {(v, mode)} else {})"
    and "oc = Granted \<longleftrightarrow> \<not> other_conflict lt (rel, row) mode v"
proof -
  have "set (holders (entry_at lt' key)) = set (holders (entry_at lt key)) \<union> (if oc = Granted \<and> key = (rel, row) then {(v, mode)} else {})
    \<and> (oc = Granted \<longleftrightarrow> \<not> other_conflict lt (rel, row) mode v)"
  proof (cases "other_conflict lt (rel, row) mode v")
    case False
    with acquire_free[OF False, of policy] assms show ?thesis by (auto simp: granted_entry_def)
  next
    case True
    from True obtain bs e' where b: "holders e' = holders (entry_at lt (rel, row))"
      "acquire lt rel row mode v NoWait = (NotAvailable, set_entry lt (rel, row) (entry_at lt (rel, row)))"
      "acquire lt rel row mode v SkipLocked = (Skip, set_entry lt (rel, row) (entry_at lt (rel, row)))"
      "acquire lt rel row mode v Wait =
        (let lt1 = add_edges (set_entry lt (rel, row) e') v bs
         in (case find_cycle lt1 v of Some cyc \<Rightarrow> (Deadlock (victim_of cyc v), lt1) | None \<Rightarrow> (WouldBlock bs, lt1)))"
      by (rule acquire_blocked)
    with assms True show ?thesis
      by (cases "key = (rel, row)"; cases policy) (auto simp: Let_def split: option.splits)
  qed
  then show "set (holders (entry_at lt' key)) = set (holders (entry_at lt key)) \<union> (if oc = Granted \<and> key = (rel, row) then {(v, mode)} else {})"
    and "oc = Granted \<longleftrightarrow> \<not> other_conflict lt (rel, row) mode v" by auto
qed

lemma other_conflict_stable:
  assumes "acquire lt rel row mode v policy = (oc, lt')"
  shows "other_conflict lt' key m v = other_conflict lt key m v"
  unfolding other_conflict_def held_after_acquire(1)[OF assms] by auto

section \<open>Runs\<close>

text \<open>Reachable lock tables, with the outcomes handed out so far (latest first).\<close>

inductive lock_reach :: "lock_outcome list \<Rightarrow> lock_table \<Rightarrow> bool" where
  reach_new: "lock_reach [] lt_new"
| reach_acquire: "lock_reach os lt \<Longrightarrow> acquire lt rel row mode v policy = (oc, lt') \<Longrightarrow> lock_reach (oc # os) lt'"
| reach_wait: "lock_reach os lt \<Longrightarrow> wait_on_versions lt w bs = (oc, lt') \<Longrightarrow> lock_reach (oc # os) lt'"
| reach_release: "lock_reach os lt \<Longrightarrow> lock_reach os (release_all lt v)"
| reach_clear: "lock_reach os lt \<Longrightarrow> lock_reach os (clear_wait lt v)"

lemma reach_inv: "lock_reach os lt \<Longrightarrow> lt_inv lt"
proof (induction rule: lock_reach.induct)
  case reach_new
  then show ?case by (simp add: lt_inv_def lt_new_def bm_inv_def)
next
  case (reach_acquire os lt rel row mode v policy oc lt')
  then show ?case by (auto intro: acquire_inv)
next
  case (reach_wait os lt w bs oc lt')
  then show ?case by (auto simp: wait_on_versions_def Let_def split: option.splits intro: lt_inv_add_edges)
next
  case (reach_release os lt v)
  then show ?case by (simp add: release_inv)
next
  case (reach_clear os lt v)
  then show ?case by (auto simp: clear_wait_def lt_inv_def)
qed

lemma acyclic_add:
  assumes "acyclic (wait_edges lt)" "find_cycle (add_edges lt v bs) v = None"
  shows "acyclic (wait_edges (add_edges lt v bs))"
  using acyclic_new_source[OF assms(1), of v "set bs"] assms(2)
  unfolding find_cycle_None_iff wait_edges_add_edges by simp

lemma acquire_acyclic:
  assumes "acyclic (wait_edges lt)" "acquire lt rel row mode v policy = (oc, lt')" "\<forall>u. oc \<noteq> Deadlock u"
  shows "acyclic (wait_edges lt')"
proof (cases "other_conflict lt (rel, row) mode v")
  case False
  have "wait_edges lt' \<subseteq> wait_edges lt"
    using acquire_free[OF False, of policy] assms(2)
      wait_edges_drop[of v "set_entry lt (rel, row) (granted_entry (entry_at lt (rel, row)) v mode)"] by auto
  with assms(1) show ?thesis by (metis acyclic_subset)
next
  case True
  from True obtain bs e' where b: 
    "acquire lt rel row mode v NoWait = (NotAvailable, set_entry lt (rel, row) (entry_at lt (rel, row)))"
    "acquire lt rel row mode v SkipLocked = (Skip, set_entry lt (rel, row) (entry_at lt (rel, row)))"
    "acquire lt rel row mode v Wait =
      (let lt1 = add_edges (set_entry lt (rel, row) e') v bs
       in (case find_cycle lt1 v of Some cyc \<Rightarrow> (Deadlock (victim_of cyc v), lt1) | None \<Rightarrow> (WouldBlock bs, lt1)))"
    by (rule acquire_blocked)
  have "acyclic (wait_edges (set_entry lt (rel, row) e'))" using assms(1) by simp
  from acyclic_add[OF this] b assms show ?thesis by (cases policy) (auto simp: Let_def split: option.splits)
qed

lemma reach_acyclic:
  assumes "lock_reach os lt" "\<forall>u. Deadlock u \<notin> set os"
  shows "acyclic (wait_edges lt)"
  using assms
proof (induction rule: lock_reach.induct)
  case reach_new
  then show ?case by (simp add: lt_new_def wait_edges_def edges_of_def bm_get_def acyclic_def)
next
  case (reach_acquire os lt rel row mode v policy oc lt')
  have "acyclic (wait_edges lt)" "\<forall>u. oc \<noteq> Deadlock u" using reach_acquire(3,4) by auto
  then show ?case using acquire_acyclic[OF _ reach_acquire(2)] by blast
next
  case (reach_wait os lt w bs oc lt')
  let ?lt = "add_edges lt w (filter (\<lambda>b. b \<noteq> w) bs)"
  have "acyclic (wait_edges lt)" using reach_wait by simp
  moreover have "find_cycle ?lt w = None" "lt' = ?lt"
    using reach_wait(2,4) by (auto simp: wait_on_versions_def Let_def split: option.splits)
  ultimately show ?case by (simp add: acyclic_add)
next
  case (reach_release os lt v)
  then have "acyclic (wait_edges lt)" by simp
  then show ?case by (rule acyclic_subset) (auto simp: wait_edges_release)
next
  case (reach_clear os lt v)
  then have "acyclic (wait_edges lt)" by simp
  then show ?case unfolding clear_wait_def wait_edges_drop by (rule acyclic_subset) auto
qed

lemma victim_on_cycle:
  assumes "find_cycle lt v = Some c"
  shows "(v, victim_of c v) \<in> (wait_edges lt)\<^sup>* \<and> (victim_of c v, v) \<in> (wait_edges lt)\<^sup>+ \<and> v \<le> victim_of c v"
proof -
  from find_cycle_Some[OF assms] have c: "v \<in> set c" "\<forall>x\<in>set c. (v, x) \<in> (wait_edges lt)\<^sup>* \<and> (x, v) \<in> (wait_edges lt)\<^sup>+" by auto
  then have "victim_of c v = Max (set c)" by (auto simp: victim_of_def)
  moreover have "Max (set c) \<in> set c" "v \<le> Max (set c)" using c(1) by (auto intro: Max_in Max_ge)
  ultimately show ?thesis using c by auto
qed

section \<open>Properties\<close>

text \<open>C6: In every lock table reachable through any interleaving of acquires (under every wait policy), waits,
  releases and cleared waits, two different transactions never hold conflicting modes on one row, and
  the entry count is the number of rows with a holder or a waiter.\<close>

theorem lock_safety:
  assumes "lock_reach os lt"
  shows "(\<forall>key v m w n. (v, m) \<in> set (holders (entry_at lt key)) \<longrightarrow> (w, n) \<in> set (holders (entry_at lt key))
      \<longrightarrow> v \<noteq> w \<longrightarrow> \<not> conflicts_with m n)
    \<and> locked_row_count lt = card {key. holders (entry_at lt key) \<noteq> [] \<or> waiters (entry_at lt key) \<noteq> []}"
proof
  note i = reach_inv[OF assms]
  show "\<forall>key v m w n. (v, m) \<in> set (holders (entry_at lt key)) \<longrightarrow> (w, n) \<in> set (holders (entry_at lt key))
      \<longrightarrow> v \<noteq> w \<longrightarrow> \<not> conflicts_with m n"
    using entry_at_compatible[OF i] unfolding compatible_def by blast
  have d: "distinct (map fst (lock_entries lt))" using i by (simp add: lt_inv_def bm_inv_def strict_sorted_iff)
  have "{key. holders (entry_at lt key) \<noteq> [] \<or> waiters (entry_at lt key) \<noteq> []} = fst ` set (lock_entries lt)"
  proof (intro equalityI subsetI)
    fix key assume "key \<in> {key. holders (entry_at lt key) \<noteq> [] \<or> waiters (entry_at lt key) \<noteq> []}"
    then obtain e where "bm_get (lock_entries lt) key = Some e"
      by (cases "bm_get (lock_entries lt) key") (auto simp: entry_at_def default_entry_def)
    then show "key \<in> fst ` set (lock_entries lt)" by (force dest: bm_get_Some_in)
  next
    fix key assume "key \<in> fst ` set (lock_entries lt)"
    then obtain e where e: "(key, e) \<in> set (lock_entries lt)" by auto
    then have "entry_at lt key = e" "entry_ok e" using i by (auto simp: entry_at_def lt_inv_def bm_in_get)
    then show "key \<in> {key. holders (entry_at lt key) \<noteq> [] \<or> waiters (entry_at lt key) \<noteq> []}" by (simp add: entry_ok_def)
  qed
  then show "locked_row_count lt = card {key. holders (entry_at lt key) \<noteq> [] \<or> waiters (entry_at lt key) \<noteq> []}"
    using d by (simp add: locked_row_count_def distinct_card flip: set_map)
qed

text \<open>C12: The cycle detector is exact: it reports a cycle if and only if the transaction waits, through other waiters,
  for itself; every transaction it reports lies on such a cycle.\<close>

theorem find_cycle_exact:
  "(find_cycle lt s = None \<longleftrightarrow> (s, s) \<notin> (wait_edges lt)\<^sup>+)
   \<and> (\<forall>c. find_cycle lt s = Some c \<longrightarrow> s \<in> set c \<and> (\<forall>x\<in>set c. (s, x) \<in> (wait_edges lt)\<^sup>* \<and> (x, s) \<in> (wait_edges lt)\<^sup>+))"
  using find_cycle_None_iff find_cycle_Some by blast

theorem find_cycle_exact_witness:
  "\<exists>c. find_cycle (lt_new\<lparr>wait_for := [(1, [2]), (2, [1])]\<rparr>) 1 = Some c \<and> 1 \<in> set c"
proof -
  let ?lt = "lt_new\<lparr>wait_for := [(1, [2]), (2, [1])]\<rparr>"
  have "(1, 2) \<in> wait_edges ?lt" "(2, 1) \<in> wait_edges ?lt"
    by (auto simp: wait_edges_def edges_of_def bm_get_def)
  then have "(1, 1) \<in> (wait_edges ?lt)\<^sup>+" by (meson r_into_trancl' trancl.trancl_into_trancl)
  then show ?thesis using find_cycle_exact[of ?lt 1] by (cases "find_cycle ?lt 1") auto
qed

text \<open>C18: As long as no acquire or wait has answered with a deadlock, no set of transactions waits in a circle.\<close>

theorem waits_stay_acyclic:
  assumes "lock_reach os lt" "\<forall>u. Deadlock u \<notin> set os"
  shows "acyclic (wait_edges lt)"
  using reach_acyclic[OF assms] .


lemma reach_example: "lock_reach [Granted] (snd (acquire lt_new 1 1 Exclusive 7 Wait))"
proof -
  have "fst (acquire lt_new 1 1 Exclusive 7 Wait) = Granted" by (simp add: acquire_def lt_new_def entry_at_def default_entry_def bm_get_def)
  then show ?thesis using reach_acquire[OF reach_new, of 1 1 Exclusive 7 Wait] by (metis prod.collapse)
qed

theorem lock_safety_witness:
  "lock_reach [Granted] (snd (acquire lt_new 1 1 Exclusive 7 Wait))
   \<and> locked_row_count (snd (acquire lt_new 1 1 Exclusive 7 Wait))
      = card {key. holders (entry_at (snd (acquire lt_new 1 1 Exclusive 7 Wait)) key) \<noteq> []
                \<or> waiters (entry_at (snd (acquire lt_new 1 1 Exclusive 7 Wait)) key) \<noteq> []}"
  using lock_safety[OF reach_example] reach_example by blast

theorem waits_stay_acyclic_witness:
  "acyclic (wait_edges (snd (acquire lt_new 1 1 Exclusive 7 Wait)))"
  by (rule waits_stay_acyclic[OF reach_example]) simp

text \<open>What an acquire answers and changes. It is granted exactly when no other transaction holds a conflicting mode,
  and the row is then held; a refused request changes no holder. Under the wait policy a refused request
  blocks on exactly the conflicting holders, or reports a deadlock whose victim is the youngest transaction
  found on a circle of waits through the requester.\<close>

theorem acquire_outcome:
  assumes "acquire lt rel row mode v policy = (oc, lt')"
  shows "(oc = Granted \<longleftrightarrow> \<not> other_conflict lt (rel, row) mode v)
    \<and> (\<forall>key. set (holders (entry_at lt' key)) = set (holders (entry_at lt key))
          \<union> (if oc = Granted \<and> key = (rel, row) then {(v, mode)} else {}))
    \<and> (\<forall>on. oc = WouldBlock on \<longrightarrow> policy = Wait \<and> (v, v) \<notin> (wait_edges lt')\<^sup>+
          \<and> set on = {hv. \<exists>hm. (hv, hm) \<in> set (holders (entry_at lt (rel, row))) \<and> hv \<noteq> v \<and> conflicts_with hm mode})
    \<and> (\<forall>u. oc = Deadlock u \<longrightarrow> policy = Wait \<and> v \<le> u
          \<and> (v, u) \<in> (wait_edges lt')\<^sup>* \<and> (u, v) \<in> (wait_edges lt')\<^sup>+)"
proof -
  have "(\<forall>on. oc = WouldBlock on \<longrightarrow> policy = Wait \<and> (v, v) \<notin> (wait_edges lt')\<^sup>+
          \<and> set on = {hv. \<exists>hm. (hv, hm) \<in> set (holders (entry_at lt (rel, row))) \<and> hv \<noteq> v \<and> conflicts_with hm mode})
    \<and> (\<forall>u. oc = Deadlock u \<longrightarrow> policy = Wait \<and> v \<le> u
          \<and> (v, u) \<in> (wait_edges lt')\<^sup>* \<and> (u, v) \<in> (wait_edges lt')\<^sup>+)"
  proof (cases "other_conflict lt (rel, row) mode v")
    case False
    with acquire_free[OF False, of policy] assms show ?thesis by auto
  next
    case True
    from True obtain bs e' where b: "set bs = {hv. \<exists>hm. (hv, hm) \<in> set (holders (entry_at lt (rel, row))) \<and> hv \<noteq> v \<and> conflicts_with hm mode}"
      "acquire lt rel row mode v NoWait = (NotAvailable, set_entry lt (rel, row) (entry_at lt (rel, row)))"
      "acquire lt rel row mode v SkipLocked = (Skip, set_entry lt (rel, row) (entry_at lt (rel, row)))"
      "acquire lt rel row mode v Wait =
        (let lt1 = add_edges (set_entry lt (rel, row) e') v bs
         in (case find_cycle lt1 v of Some cyc \<Rightarrow> (Deadlock (victim_of cyc v), lt1) | None \<Rightarrow> (WouldBlock bs, lt1)))"
      by (rule acquire_blocked)
    show ?thesis
    proof (cases policy)
      case Wait
      show ?thesis
      proof (cases "find_cycle (add_edges (set_entry lt (rel, row) e') v bs) v")
        case None
        then have "oc = WouldBlock bs" "lt' = add_edges (set_entry lt (rel, row) e') v bs"
          using assms b(4) Wait by (auto simp: Let_def)
        with None Wait b(1) find_cycle_None_iff show ?thesis by auto
      next
        case (Some c)
        then have "oc = Deadlock (victim_of c v)" "lt' = add_edges (set_entry lt (rel, row) e') v bs"
          using assms b(4) Wait by (auto simp: Let_def)
        with victim_on_cycle[OF Some] Wait show ?thesis by auto
      qed
    qed (use assms b(2,3) in auto)
  qed
  with held_after_acquire[OF assms] show ?thesis by blast
qed

theorem acquire_outcome_witness:
  "\<exists>lt'. acquire (snd (acquire lt_new 1 1 Exclusive 7 Wait)) 1 1 Share 8 NoWait = (NotAvailable, lt')
     \<and> set (holders (entry_at lt' (1, 1))) = {(7, Exclusive)}"
proof -
  let ?lt = "snd (acquire lt_new 1 1 Exclusive 7 Wait)"
  have lt: "?lt = \<lparr>lock_entries = [((1, 1), \<lparr>holders = [(7, Exclusive)], waiters = []\<rparr>)], wait_for = []\<rparr>"
    by (simp add: acquire_def lt_new_def entry_at_def default_entry_def bm_get_def set_entry_def bm_remove_def)
  obtain oc lt' where a: "acquire ?lt 1 1 Share 8 NoWait = (oc, lt')" by fastforce
  moreover have "oc = NotAvailable" using a unfolding lt by (auto simp: acquire_def entry_at_def bm_get_def set_entry_def)
  ultimately show ?thesis using acquire_outcome[OF a]
    by (auto simp: lt entry_at_def bm_get_def)
qed

text \<open>Releasing a transaction drops every lock and wait it has and every wait for it, and leaves the
  locks and waits of all others as they are.\<close>

theorem release_all_effect:
  assumes "lock_reach os lt"
  shows "holders (entry_at (release_all lt v) key) = filter (\<lambda>h. fst h \<noteq> v) (holders (entry_at lt key))
    \<and> waiters (entry_at (release_all lt v) key) = filter (\<lambda>w. w \<noteq> v) (waiters (entry_at lt key))
    \<and> wait_edges (release_all lt v) = {(a, b) \<in> wait_edges lt. a \<noteq> v \<and> b \<noteq> v}"
  using entry_at_release[OF reach_inv[OF assms]] wait_edges_release
  by (simp add: release_entry_def case_prod_beta)

theorem release_all_effect_witness:
  "holders (entry_at (release_all (snd (acquire lt_new 1 1 Exclusive 7 Wait)) 7) (1, 1)) = []"
  using release_all_effect[OF reach_example, of 7 "(1, 1)"]
  by (simp add: acquire_def lt_new_def entry_at_def default_entry_def bm_get_def set_entry_def bm_remove_def)

lemma lock_dml_rows_holds:
  assumes "lock_dml_rows lt rel rids mode v = (r, lt')"
  shows "(\<forall>key. set (holders (entry_at lt key)) \<subseteq> set (holders (entry_at lt' key))
      \<and> set (holders (entry_at lt' key)) \<subseteq> set (holders (entry_at lt key)) \<union> {(v, mode)})
    \<and> (r = Inr () \<longrightarrow> (\<forall>rid\<in>set rids. (v, mode) \<in> set (holders (entry_at lt' (rel, rid)))))
    \<and> (r = Inr () \<longleftrightarrow> (\<forall>rid\<in>set rids. \<not> other_conflict lt (rel, rid) mode v))"
  using assms
proof (induction lt rel rids mode v arbitrary: r lt' rule: lock_dml_rows.induct)
  case (2 lt rel rid rids mode v)
  obtain oc lt1 where a: "acquire lt rel rid mode v Wait = (oc, lt1)" by fastforce
  note h = held_after_acquire[OF a]
  show ?case
  proof (cases "oc = Granted")
    case True
    then have "lock_dml_rows lt1 rel rids mode v = (r, lt')" using 2(2) a by simp
    with 2(1)[OF a[symmetric] True] have ih:
      "\<forall>key. set (holders (entry_at lt1 key)) \<subseteq> set (holders (entry_at lt' key))
        \<and> set (holders (entry_at lt' key)) \<subseteq> set (holders (entry_at lt1 key)) \<union> {(v, mode)}"
      "r = Inr () \<longrightarrow> (\<forall>rid\<in>set rids. (v, mode) \<in> set (holders (entry_at lt' (rel, rid))))"
      "r = Inr () \<longleftrightarrow> (\<forall>rid\<in>set rids. \<not> other_conflict lt1 (rel, rid) mode v)" by blast+
    have "(v, mode) \<in> set (holders (entry_at lt1 (rel, rid)))" using h(1) True by simp
    moreover have "\<forall>key. set (holders (entry_at lt key)) \<subseteq> set (holders (entry_at lt1 key))
        \<and> set (holders (entry_at lt1 key)) \<subseteq> set (holders (entry_at lt key)) \<union> {(v, mode)}" using h(1) by auto
    ultimately show ?thesis using ih h(2) True other_conflict_stable[OF a] by (auto; blast)
  next
    case False
    then have "lt' = lt1" "r \<noteq> Inr ()" using 2(2) a by (auto split: lock_outcome.splits)
    with h False show ?thesis by auto
  qed
qed auto


text \<open>Locking the target rows of an UPDATE or DELETE succeeds exactly when no other transaction holds a conflicting mode
  on any of them; every row is then held. Whatever the result, no holder of any row is lost and only
  this transaction gains locks.\<close>

theorem dml_rows_locked:
  assumes "lock_dml_rows lt rel rids mode v = (r, lt')"
  shows "(r = Inr () \<longleftrightarrow> (\<forall>rid\<in>set rids. \<not> other_conflict lt (rel, rid) mode v))
    \<and> (r = Inr () \<longrightarrow> (\<forall>rid\<in>set rids. (v, mode) \<in> set (holders (entry_at lt' (rel, rid)))))
    \<and> (\<forall>key. set (holders (entry_at lt key)) \<subseteq> set (holders (entry_at lt' key))
         \<and> set (holders (entry_at lt' key)) \<subseteq> set (holders (entry_at lt key)) \<union> {(v, mode)})"
  using lock_dml_rows_holds[OF assms] by blast

theorem dml_rows_locked_witness:
  "\<exists>lt'. lock_dml_rows lt_new 1 [3, 4] NoKeyUpdate 9 = (Inr (), lt') \<and> (9, NoKeyUpdate) \<in> set (holders (entry_at lt' (1, 4)))"
proof -
  obtain r lt' where l: "lock_dml_rows lt_new 1 [3, 4] NoKeyUpdate 9 = (r, lt')" by fastforce
  have "\<not> other_conflict lt_new key m v" for key m v
    by (simp add: other_conflict_def lt_new_def entry_at_def bm_get_def default_entry_def)
  with dml_rows_locked[OF l] l show ?thesis by auto
qed

text \<open>
  The rows a walk locks: the first wanted ones among those nobody else holds.
\<close>

definition walk_free :: "lock_table \<Rightarrow> rel_id \<Rightarrow> lock_mode \<Rightarrow> u64 \<Rightarrow> (nat \<times> row_id) list \<Rightarrow> (nat \<times> row_id) list" where
  "walk_free lt rel mode v picked = filter (\<lambda>(idx, rid). \<not> other_conflict lt (rel, rid) mode v) picked"

lemma walk_free_stable:
  "acquire lt rel row mode v policy = (oc, lt') \<Longrightarrow> walk_free lt' rel mode v picked = walk_free lt rel mode v picked"
  by (simp add: walk_free_def other_conflict_stable)

lemma acquire_skip_cases:
  "acquire lt rel row mode v SkipLocked = (oc, lt') \<Longrightarrow> oc = (if other_conflict lt (rel, row) mode v then Skip else Granted)"
  by (cases "other_conflict lt (rel, row) mode v") (auto elim: acquire_blocked simp: acquire_free)

lemma lock_walk_skip:
  assumes "lock_walk lt rel mode v SkipLocked (Some w) picked taken skipped = (r, lt')" "taken \<le> w"
  shows "(\<exists>sk. r = Inr sk) \<and> (\<forall>key. set (holders (entry_at lt' key)) = set (holders (entry_at lt key))
    \<union> {(v, mode) | rid. key = (rel, rid) \<and> rid \<in> snd ` set (take (w - taken) (walk_free lt rel mode v picked))})"
  using assms
proof (induction picked arbitrary: lt taken skipped)
  case (Cons p picked)
  obtain idx rid where p: "p = (idx, rid)" by fastforce
  obtain oc lt1 where a: "acquire lt rel rid mode v SkipLocked = (oc, lt1)" by fastforce
  note h = held_after_acquire(1)[OF a] and wf = walk_free_stable[OF a, of picked]
  show ?case
  proof (cases "w \<le> taken")
    case True
    with Cons.prems p show ?thesis by auto
  next
    case room: False
    show ?thesis
    proof (cases "other_conflict lt (rel, rid) mode v")
      case True
      then have "oc = Skip" using acquire_skip_cases[OF a] by simp
      then have "lock_walk lt1 rel mode v SkipLocked (Some w) picked taken (bs_insert idx skipped) = (r, lt')"
        using Cons.prems(1) p a room by simp
      from Cons.IH[OF this Cons.prems(2)] h \<open>oc = Skip\<close> wf True p show ?thesis by (simp add: walk_free_def)
    next
      case False
      then have "oc = Granted" using acquire_skip_cases[OF a] by simp
      then have st: "lock_walk lt1 rel mode v SkipLocked (Some w) picked (Suc taken) skipped = (r, lt')"
        using Cons.prems(1) p a room by simp
      have "Suc taken \<le> w" using room by simp
      from Cons.IH[OF st this] have ih: "\<exists>sk. r = Inr sk"
        "\<And>key. set (holders (entry_at lt' key)) = set (holders (entry_at lt1 key))
          \<union> {(v, mode) | rid. key = (rel, rid) \<and> rid \<in> snd ` set (take (w - Suc taken) (walk_free lt1 rel mode v picked))}" by blast+
      have "take (w - taken) (walk_free lt rel mode v (p # picked)) = (idx, rid) # take (w - Suc taken) (walk_free lt rel mode v picked)"
        using False p room by (simp add: walk_free_def take_Cons' Suc_diff_Suc)
      with ih h \<open>oc = Granted\<close> wf show ?thesis by auto
    qed
  qed
qed (auto simp: walk_free_def)

text \<open>C1: A \<open>SELECT ... FOR UPDATE SKIP LOCKED LIMIT n\<close> never fails on a lock and locks exactly the first \<open>n\<close> picked rows, in result
  order, that no other transaction holds in a conflicting mode; no other lock is taken.\<close>

theorem skip_locked_respects_limit:
  "\<exists>sk lt'. lock_walk lt rel mode v SkipLocked (Some n) picked 0 [] = (Inr sk, lt')
     \<and> (\<forall>key. set (holders (entry_at lt' key)) = set (holders (entry_at lt key))
          \<union> {(v, mode) | rid. key = (rel, rid) \<and> rid \<in> snd ` set (take n (walk_free lt rel mode v picked))})"
proof -
  obtain r lt' where w: "lock_walk lt rel mode v SkipLocked (Some n) picked 0 [] = (r, lt')" by fastforce
  from lock_walk_skip[OF w] w show ?thesis by auto
qed

text \<open>Taking a weaker mode on a row already held exclusively is granted but not idempotent: the
  transaction is then recorded, and listed, twice on that row.\<close>

theorem relock_weaker_adds_holder:
  "let lt1 = snd (acquire lt_new 1 1 Exclusive 7 Wait); lt2 = snd (acquire lt1 1 1 KeyShare 7 Wait)
   in enumerate_locks lt1 = [(1, 1, 7, Exclusive, True)]
      \<and> enumerate_locks lt2 = [(1, 1, 7, Exclusive, True), (1, 1, 7, KeyShare, True)]"
  by (simp add: acquire_def lt_new_def entry_at_def default_entry_def bm_get_def set_entry_def bm_remove_def enumerate_locks_def)

end
