(* ===== verification/Mvcc_Table.thy ===== *)
theory Mvcc_Table
  imports Snapshot
begin

text \<open>
  The row store of a table (\<open>table.rs\<close> of \<open>spg-storage\<close>): rows, visibility headers and stable row
  ids in three parallel vectors, the writer paths that stamp headers, visibility-gated scans,
  and vacuum. The write-sets of transactions are in theory \<open>Table_Writeset\<close>.
  A \<open>PersistentVec\<close> is the list it refines (theory \<open>Persistent_Vec\<close>). The schema check of an
  insert is the parameter \<open>accepts\<close>; indexes, the redo log and the byte counters are not modelled.
\<close>

section \<open>State\<close>

record tx_write_track =
  track_version :: u64
  track_inserted :: "(nat \<times> row_id) list"
  track_tombstoned :: "(nat \<times> row_id) list"

record 'r table =
  rows :: "'r list"
  headers :: "row_header list"
  rowids :: "row_id list"
  next_rowid :: u64
  table_rel :: rel_id
  dead_rows :: u64
  write_track :: "tx_write_track option"

datatype storage_error = SchemaMismatch | OutOfBounds nat

definition rowid_or_unassigned :: "'r table \<Rightarrow> nat \<Rightarrow> row_id" where
  "rowid_or_unassigned t i = (case slice_get (rowids t) i of None \<Rightarrow> RowId_UNASSIGNED | Some r \<Rightarrow> r)"

definition table_new :: "rel_id \<Rightarrow> 'r table" where
  "table_new rel = \<lparr>rows = [], headers = [], rowids = [], next_rowid = 1, table_rel = rel, dead_rows = 0, write_track = None\<rparr>"

section \<open>Writers\<close>

definition alloc_rowid :: "'r table \<Rightarrow> row_id \<times> 'r table" where
  "alloc_rowid t = (next_rowid t, t\<lparr>next_rowid := next_rowid t + 1\<rparr>)"

definition assign_dense_rowids :: "'r table \<Rightarrow> 'r table" where
  "assign_dense_rowids t =
     (let n = length (rows t)
      in t\<lparr>rowids := map (\<lambda>i. of_nat (i + 1)) [0..<n], next_rowid := of_nat n + 1\<rparr>)"

definition insert_keyed :: "('r \<Rightarrow> bool) \<Rightarrow> 'r table \<Rightarrow> 'r \<Rightarrow> storage_error + 'r table" where
  "insert_keyed accepts t row =
     (if \<not> accepts row then Inl SchemaMismatch
      else
        (let t1 = t\<lparr>rows := rows t @ [row], headers := headers t @ [header_frozen]\<rparr>;
             (rid, t2) = alloc_rowid t1
         in Inr (t2\<lparr>rowids := rowids t2 @ [rid]\<rparr>)))"

definition write_track_for :: "'r table \<Rightarrow> u64 \<Rightarrow> tx_write_track" where
  "write_track_for t v =
     (case write_track t of
        Some tr \<Rightarrow> (if track_version tr = v then tr else \<lparr>track_version = v, track_inserted = [], track_tombstoned = []\<rparr>)
      | None \<Rightarrow> \<lparr>track_version = v, track_inserted = [], track_tombstoned = []\<rparr>)"

definition track_insert :: "'r table \<Rightarrow> u64 \<Rightarrow> nat \<Rightarrow> row_id \<Rightarrow> 'r table" where
  "track_insert t v i rid =
     (let tr = write_track_for t v
      in t\<lparr>write_track := Some (tr\<lparr>track_inserted := track_inserted tr @ [(i, rid)]\<rparr>)\<rparr>)"

definition track_tombstone :: "'r table \<Rightarrow> u64 \<Rightarrow> nat \<Rightarrow> row_id \<Rightarrow> 'r table" where
  "track_tombstone t v i rid =
     (let tr = write_track_for t v
      in t\<lparr>write_track := Some (tr\<lparr>track_tombstoned := track_tombstoned tr @ [(i, rid)]\<rparr>)\<rparr>)"

definition insert_with_xmin :: "('r \<Rightarrow> bool) \<Rightarrow> 'r table \<Rightarrow> 'r \<Rightarrow> u64 \<Rightarrow> storage_error + 'r table" where
  "insert_with_xmin accepts t row v =
     (if v = XMIN_FROZEN then insert_keyed accepts t row
      else case insert_keyed accepts t row of
        Inl e \<Rightarrow> Inl e
      | Inr t1 \<Rightarrow>
          (let last = length (headers t1) - 1;
               t2 = t1\<lparr>headers := (headers t1)[last := header_alive v]\<rparr>
           in Inr (if v \<noteq> 0 then track_insert t2 v last (rowid_or_unassigned t2 last) else t2)))"

definition mark_row_deleted :: "'r table \<Rightarrow> nat \<Rightarrow> u64 \<Rightarrow> storage_error + 'r table" where
  "mark_row_deleted t position v =
     (if length (headers t) \<le> position then Inl (OutOfBounds position)
      else if xmax (headers t ! position) \<noteq> XMAX_ALIVE then Inr t
      else
        (let t1 = t\<lparr>headers := (headers t)[position := (headers t ! position)\<lparr>xmax := v\<rparr>], dead_rows := dead_rows t + 1\<rparr>
         in Inr (if v \<noteq> 0 \<and> v \<noteq> XMAX_ALIVE then track_tombstone t1 v position (rowid_or_unassigned t1 position) else t1)))"

fun mark_rows_deleted :: "'r table \<Rightarrow> nat list \<Rightarrow> u64 \<Rightarrow> nat \<times> 'r table" where
  "mark_rows_deleted t [] v = (0, t)"
| "mark_rows_deleted t (position # ps) v =
     (if position < length (headers t) \<and> xmax (headers t ! position) = XMAX_ALIVE then
        (let t1 = t\<lparr>headers := (headers t)[position := (headers t ! position)\<lparr>xmax := v\<rparr>], dead_rows := dead_rows t + 1\<rparr>;
             t2 = (if v \<noteq> 0 \<and> v \<noteq> XMAX_ALIVE then track_tombstone t1 v position (rowid_or_unassigned t1 position) else t1);
             (newly, t3) = mark_rows_deleted t2 ps v
         in (Suc newly, t3))
      else mark_rows_deleted t ps v)"

section \<open>Visibility and scans\<close>

definition header_visible :: "'r table \<Rightarrow> nat \<Rightarrow> row_header \<Rightarrow> snapshot \<Rightarrow> bool" where
  "header_visible t idx h s =
     (case locked_out s of
        Some (rel, ids) \<Rightarrow> (if rel = table_rel t \<and> bs_contains ids idx then False else visible s h)
      | None \<Rightarrow> visible s h)"

definition is_row_visible :: "'r table \<Rightarrow> nat \<Rightarrow> snapshot \<Rightarrow> bool" where
  "is_row_visible t idx s =
     (case slice_get (headers t) idx of Some h \<Rightarrow> header_visible t idx h s | None \<Rightarrow> False)"

definition position_visible :: "'r table \<Rightarrow> nat \<Rightarrow> snapshot \<Rightarrow> bool" where
  "position_visible t idx s =
     (case slice_get (headers t) idx of None \<Rightarrow> False | Some h \<Rightarrow> header_visible t idx h s)"

definition is_all_visible :: "'r table \<Rightarrow> bool" where
  "is_all_visible t = list_all is_all_visible_fast (headers t)"

definition count_visible :: "'r table \<Rightarrow> snapshot \<Rightarrow> nat" where
  "count_visible t s = length (filter (\<lambda>(i, h). header_visible t i h s) (enumerate 0 (headers t)))"

definition scan_visible_from :: "'r table \<Rightarrow> nat \<Rightarrow> snapshot \<Rightarrow> (nat \<times> 'r) list" where
  "scan_visible_from t start s =
     map (\<lambda>(i, (r, h)). (i, r))
       (filter (\<lambda>(i, (r, h)). header_visible t i h s) (drop start (enumerate 0 (zip (rows t) (headers t)))))"

definition scan_visible :: "'r table \<Rightarrow> snapshot \<Rightarrow> (nat \<times> 'r) list" where
  "scan_visible t s =
     map (\<lambda>(i, (r, h)). (i, r))
       (filter (\<lambda>(i, (r, h)). header_visible t i h s) (enumerate 0 (zip (rows t) (headers t))))"

definition scan_visible_slots :: "'r table \<Rightarrow> (nat \<times> nat) list \<Rightarrow> snapshot \<Rightarrow> (nat \<times> 'r) list" where
  "scan_visible_slots t slots s =
     List.map_filter (\<lambda>i.
         case slice_get (headers t) i of
           None \<Rightarrow> None
         | Some h \<Rightarrow> if \<not> header_visible t i h s then None else map_option (\<lambda>r. (i, r)) (slice_get (rows t) i))
       (concat (map (\<lambda>(a, b). [a..<b]) slots))"

function resume_loop :: "row_id list \<Rightarrow> row_id \<Rightarrow> nat \<Rightarrow> nat \<Rightarrow> nat" where
  "resume_loop ids after lo hi =
     (if lo < hi then
        (let mid = lo + (hi - lo) div 2
         in case slice_get ids mid of
              Some r \<Rightarrow> (if r \<le> after then resume_loop ids after (mid + 1) hi else resume_loop ids after lo mid)
            | None \<Rightarrow> resume_loop ids after lo mid)
      else lo)"
  by pat_completeness auto
termination
  by (relation "measure (\<lambda>(ids, after, lo, hi). hi - lo)") auto

declare resume_loop.simps [simp del]

definition resume_slot_after :: "'r table \<Rightarrow> row_id \<Rightarrow> nat \<Rightarrow> nat" where
  "resume_slot_after t after hint =
     (if 0 < hint \<and> slice_get (rowids t) (hint - 1) = Some after then hint
      else resume_loop (rowids t) after 0 (length (rowids t)))"

section \<open>Physical deletion and vacuum\<close>

fun keep_rowids :: "row_id list \<Rightarrow> nat list \<Rightarrow> u64 \<Rightarrow> row_id list \<times> u64" where
  "keep_rowids ids [] nxt = ([], nxt)"
| "keep_rowids ids (i # is) nxt =
     (case slice_get ids i of
        Some r \<Rightarrow> (let (rs, n) = keep_rowids ids is nxt in (r # rs, n))
      | None \<Rightarrow> (let (rs, n) = keep_rowids ids is (nxt + 1) in (nxt # rs, n)))"

definition delete_rows_no_index :: "'r table \<Rightarrow> nat list \<Rightarrow> nat \<times> 'r table" where
  "delete_rows_no_index t positions =
     (let removed = length (remdups (filter (\<lambda>p. p < length (rows t)) positions))
      in if positions = [] \<or> removed = 0 then (0, t)
         else
           (let keep = filter (\<lambda>i. i \<notin> set positions) [0..<length (rows t)];
                hs = map (\<lambda>i. case slice_get (headers t) i of Some h \<Rightarrow> h | None \<Rightarrow> header_frozen) keep;
                (ids, nxt) = keep_rowids (rowids t) keep (next_rowid t)
            in (removed,
                t\<lparr>rows := map (\<lambda>i. rows t ! i) keep, headers := hs,
                  rowids := ids, next_rowid := nxt,
                  dead_rows := of_nat (length (filter (\<lambda>i. case slice_get (headers t) i of
                      Some h \<Rightarrow> xmax h \<noteq> XMAX_ALIVE | None \<Rightarrow> False) keep))\<rparr>)))"

definition vacuum :: "'r table \<Rightarrow> u64 \<Rightarrow> bool \<Rightarrow> vacuum_report \<times> 'r table" where
  "vacuum t oldest dry_run =
     (let examined = of_nat (length (headers t));
          to_reclaim = filter (\<lambda>i. case slice_get (headers t) i of Some h \<Rightarrow> is_reclaimable (xmax h) oldest | None \<Rightarrow> False)
            [0..<length (headers t)]
      in if to_reclaim = [] \<or> dry_run
         then (\<lparr>rows_reclaimed = of_nat (length to_reclaim), rows_examined = examined, per_table = []\<rparr>, t)
         else
           (let (removed, t') = delete_rows_no_index t to_reclaim
            in (\<lparr>rows_reclaimed = of_nat removed, rows_examined = examined, per_table = []\<rparr>, t')))"

definition truncate_rows :: "'r table \<Rightarrow> 'r table" where
  "truncate_rows t = t\<lparr>rows := [], headers := [], rowids := []\<rparr>"

section \<open>Scans by position\<close>

definition lockstep :: "'r table \<Rightarrow> bool" where
  "lockstep t = (length (headers t) = length (rows t) \<and> length (rowids t) = length (rows t))"

definition shown :: "'r table \<Rightarrow> snapshot \<Rightarrow> nat list" where
  "shown t s = filter (\<lambda>i. header_visible t i (headers t ! i) s) [0..<length (rows t)]"

lemma enumerate_map: "enumerate 0 xs = map (\<lambda>i. (i, xs ! i)) [0..<length xs]"
  by (rule nth_equalityI) (simp_all add: nth_enumerate_eq)

lemma scan_visible_shown:
  assumes "length (headers t) = length (rows t)"
  shows "scan_visible t s = map (\<lambda>i. (i, rows t ! i)) (shown t s)"
proof -
  have "enumerate 0 (zip (rows t) (headers t)) = map (\<lambda>i. (i, rows t ! i, headers t ! i)) [0..<length (rows t)]"
    unfolding enumerate_map using assms by (auto intro!: map_cong)
  then show ?thesis by (simp add: scan_visible_def shown_def filter_map comp_def)
qed

lemma upt_filter: "[n..<m] = filter (\<lambda>i. n \<le> i) [0..<m]"
  by (induction m) auto

lemma map_filter_if: "List.map_filter (\<lambda>i. if P i then Some (g i) else None) xs = map g (filter P xs)"
  by (induction xs) (auto simp: List.map_filter_def)

lemma scan_visible_from_shown:
  assumes "length (headers t) = length (rows t)"
  shows "scan_visible_from t n s = map (\<lambda>i. (i, rows t ! i)) (filter (\<lambda>i. n \<le> i) (shown t s))"
proof -
  have "enumerate 0 (zip (rows t) (headers t)) = map (\<lambda>i. (i, rows t ! i, headers t ! i)) [0..<length (rows t)]"
    unfolding enumerate_map using assms by (auto intro!: map_cong)
  then have "drop n (enumerate 0 (zip (rows t) (headers t))) = map (\<lambda>i. (i, rows t ! i, headers t ! i)) [n..<length (rows t)]"
    by (simp add: drop_map drop_upt)
  then show ?thesis
    by (simp add: scan_visible_from_def shown_def filter_map comp_def conj_commute upt_filter[of n])
qed

lemma count_visible_shown:
  assumes "length (headers t) = length (rows t)"
  shows "count_visible t s = length (shown t s)"
  unfolding count_visible_def enumerate_map shown_def using assms by (simp add: filter_map comp_def)

lemma map_filter_cong2: "(\<And>x. x \<in> set xs \<Longrightarrow> f x = g x) \<Longrightarrow> List.map_filter f xs = List.map_filter g xs"
  by (induction xs) (auto simp: List.map_filter_def)

lemma scan_visible_slots_shown:
  assumes "length (headers t) = length (rows t)"
  shows "scan_visible_slots t [(0, length (rows t))] s = scan_visible t s"
proof -
  let ?f = "\<lambda>i. if header_visible t i (headers t ! i) s then Some (i, rows t ! i) else None"
  have "scan_visible_slots t [(0, length (rows t))] s = List.map_filter ?f [0..<length (rows t)]"
    unfolding scan_visible_slots_def using assms by (auto intro!: map_filter_cong2 simp: slice_get_def)
  also have "\<dots> = map (\<lambda>i. (i, rows t ! i)) (shown t s)"
    unfolding shown_def by (rule map_filter_if)
  finally show ?thesis using scan_visible_shown[OF assms] by simp
qed

section \<open>Writers of another transaction change nothing for a reader\<close>

text \<open>The version is invisible to the snapshot: it began later or was still running.\<close>

definition hidden_version :: "snapshot \<Rightarrow> u64 \<Rightarrow> bool" where
  "hidden_version s v = (v \<noteq> 0 \<and> v \<noteq> XMIN_FROZEN \<and> tx_id s \<noteq> v \<and> (version s < v \<or> ips_contains (in_progress s) v))"

datatype 'r tx_op = Ins 'r | Del "nat list"

fun tx_step :: "('r \<Rightarrow> bool) \<Rightarrow> u64 \<Rightarrow> 'r table \<Rightarrow> 'r tx_op \<Rightarrow> 'r table" where
  "tx_step accepts v t (Ins row) = (case insert_with_xmin accepts t row v of Inl e \<Rightarrow> t | Inr t' \<Rightarrow> t')"
| "tx_step accepts v t (Del ps) = snd (mark_rows_deleted t ps v)"

definition tx_run :: "('r \<Rightarrow> bool) \<Rightarrow> u64 \<Rightarrow> 'r table \<Rightarrow> 'r tx_op list \<Rightarrow> 'r table" where
  "tx_run accepts v t ops = foldl (tx_step accepts v) t ops"

lemma track_simps [simp]:
  "rows (track_insert t v i r) = rows t" "headers (track_insert t v i r) = headers t" "rowids (track_insert t v i r) = rowids t"
  "next_rowid (track_insert t v i r) = next_rowid t" "table_rel (track_insert t v i r) = table_rel t"
  "dead_rows (track_insert t v i r) = dead_rows t"
  "rows (track_tombstone t v i r) = rows t" "headers (track_tombstone t v i r) = headers t" "rowids (track_tombstone t v i r) = rowids t"
  "next_rowid (track_tombstone t v i r) = next_rowid t" "table_rel (track_tombstone t v i r) = table_rel t"
  "dead_rows (track_tombstone t v i r) = dead_rows t"
  by (simp_all add: track_insert_def track_tombstone_def Let_def)

lemma insert_effect:
  assumes "insert_with_xmin accepts t row v = Inr t'" "v \<noteq> XMIN_FROZEN"
  shows "rows t' = rows t @ [row]" "headers t' = headers t @ [header_alive v]" "rowids t' = rowids t @ [next_rowid t]"
    "next_rowid t' = next_rowid t + 1" "table_rel t' = table_rel t" "dead_rows t' = dead_rows t" "accepts row"
  using assms by (auto simp: insert_with_xmin_def insert_keyed_def alloc_rowid_def Let_def split: if_splits)

definition same_store :: "'r table \<Rightarrow> 'r table \<Rightarrow> bool" where
  "same_store t t' = (rows t' = rows t \<and> rowids t' = rowids t \<and> next_rowid t' = next_rowid t \<and> table_rel t' = table_rel t
     \<and> length (headers t') = length (headers t))"

text \<open>A batch of tombstones replaces \<open>xmax\<close> of the live targets and nothing else.\<close>

lemma mark_effect:
  "same_store t (snd (mark_rows_deleted t ps v))
   \<and> (v \<noteq> 0 \<longrightarrow> (\<forall>i<length (headers t). headers (snd (mark_rows_deleted t ps v)) ! i =
        (if i \<in> set ps \<and> xmax (headers t ! i) = XMAX_ALIVE then (headers t ! i)\<lparr>xmax := v\<rparr> else headers t ! i)))"
proof (induction t ps v rule: mark_rows_deleted.induct)
  case (1 t v)
  then show ?case by (simp add: same_store_def)
next
  case (2 t position ps v)
  show ?case
  proof (cases "position < length (headers t) \<and> xmax (headers t ! position) = XMAX_ALIVE")
    case False
    with 2(2) show ?thesis by auto
  next
    case True
    define t1 where "t1 = t\<lparr>headers := (headers t)[position := (headers t ! position)\<lparr>xmax := v\<rparr>], dead_rows := dead_rows t + 1\<rparr>"
    define t2 where "t2 = (if v \<noteq> 0 \<and> v \<noteq> XMAX_ALIVE then track_tombstone t1 v position (rowid_or_unassigned t1 position) else t1)"
    have h2: "headers t2 = (headers t)[position := (headers t ! position)\<lparr>xmax := v\<rparr>]" "rows t2 = rows t" "rowids t2 = rowids t"
      "next_rowid t2 = next_rowid t" "table_rel t2 = table_rel t"
      by (auto simp: t2_def t1_def)
    have st: "snd (mark_rows_deleted t (position # ps) v) = snd (mark_rows_deleted t2 ps v)"
      using True by (simp add: Let_def t1_def[symmetric] t2_def[symmetric] split: prod.splits)
    note ih = 2(1)[OF True t1_def t2_def]
    show ?thesis unfolding st
    proof (intro conjI impI allI)
      show "same_store t (snd (mark_rows_deleted t2 ps v))" using ih h2 by (simp add: same_store_def)
    next
      fix i assume v: "v \<noteq> 0" and i: "i < length (headers t)"
      have "headers (snd (mark_rows_deleted t2 ps v)) ! i =
        (if i \<in> set ps \<and> xmax (headers t2 ! i) = XMAX_ALIVE then (headers t2 ! i)\<lparr>xmax := v\<rparr> else headers t2 ! i)"
        using ih v i h2(1) by simp
      then show "headers (snd (mark_rows_deleted t2 ps v)) ! i =
        (if i \<in> set (position # ps) \<and> xmax (headers t ! i) = XMAX_ALIVE then (headers t ! i)\<lparr>xmax := v\<rparr> else headers t ! i)"
        using v True i unfolding h2(1) by (cases "i = position") (auto simp: XMAX_ALIVE_def)
    qed
  qed
qed

lemma visible_hidden:
  assumes "hidden_version s v"
  shows "\<not> visible s (header_alive v)" "xmax h = XMAX_ALIVE \<Longrightarrow> visible s (h\<lparr>xmax := v\<rparr>) = visible s h"
  using assms unfolding hidden_version_def visible_def header_alive_def XMAX_ALIVE_def by auto

lemma tx_step_isolated:
  assumes "lockstep t" "hidden_version s v"
  shows "lockstep (tx_step accepts v t op) \<and> scan_visible (tx_step accepts v t op) s = scan_visible t s
    \<and> table_rel (tx_step accepts v t op) = table_rel t"
proof (cases op)
  case (Ins row)
  show ?thesis
  proof (cases "insert_with_xmin accepts t row v")
    case (Inr t')
    have v: "v \<noteq> XMIN_FROZEN" using assms(2) by (simp add: hidden_version_def)
    note e = insert_effect[OF Inr v]
    have l: "lockstep t'" using assms(1) e by (simp add: lockstep_def)
    have "shown t' s = shown t s"
    proof -
      have "header_visible t' i (headers t' ! i) s = (i < length (rows t) \<and> header_visible t i (headers t ! i) s)"
        if "i < Suc (length (rows t))" for i
        using that e(2,5) assms visible_hidden(1)[OF assms(2)]
        by (auto simp: header_visible_def nth_append lockstep_def less_Suc_eq split: option.splits prod.splits)
      then show ?thesis unfolding shown_def e(1) by (auto intro!: filter_cong)
    qed
    moreover have "map (\<lambda>i. (i, rows t' ! i)) (shown t s) = map (\<lambda>i. (i, rows t ! i)) (shown t s)"
      unfolding shown_def e(1) by (auto simp: nth_append)
    ultimately show ?thesis
      using l assms(1) Inr Ins e(5) by (simp add: scan_visible_shown lockstep_def)
  qed (use assms Ins in simp)
next
  case (Del ps)
  let ?t = "snd (mark_rows_deleted t ps v)"
  have v: "v \<noteq> 0" using assms(2) by (simp add: hidden_version_def)
  have e: "same_store t ?t" "\<And>i. i < length (headers t) \<Longrightarrow> headers ?t ! i =
      (if i \<in> set ps \<and> xmax (headers t ! i) = XMAX_ALIVE then (headers t ! i)\<lparr>xmax := v\<rparr> else headers t ! i)"
    using mark_effect[of t ps v] v by auto
  have "header_visible ?t i (headers ?t ! i) s = header_visible t i (headers t ! i) s" if "i < length (rows t)" for i
    using that e visible_hidden(2)[OF assms(2)] assms(1)
    by (auto simp: header_visible_def same_store_def lockstep_def split: option.splits prod.splits)
  then have "shown ?t s = shown t s" unfolding shown_def using e(1) by (auto simp: same_store_def intro!: filter_cong)
  then show ?thesis using e(1) assms(1) Del by (simp add: scan_visible_shown lockstep_def same_store_def)
qed

lemma tx_run_isolated:
  assumes "lockstep t" "hidden_version s v"
  shows "lockstep (tx_run accepts v t ops) \<and> scan_visible (tx_run accepts v t ops) s = scan_visible t s"
  using assms(1)
proof (induction ops arbitrary: t)
  case (Cons op ops)
  with tx_step_isolated[OF Cons.prems assms(2), of accepts op] Cons.IH[of "tx_step accepts v t op"] show ?case
    by (simp add: tx_run_def)
qed (simp add: tx_run_def)

text \<open>C4: Isolation. Whatever one transaction inserts and deletes, in any order, a reader whose snapshot does not include that
  transaction (it began later, or was in flight at the capture) sees exactly the rows it saw before,
  at the same positions; the scan, the resumed scan, the slot scan and the count agree on them.\<close>

theorem uncommitted_writes_invisible:
  assumes "lockstep t" "hidden_version s v"
  shows "(let t' = tx_run accepts v t ops in
      scan_visible t' s = scan_visible t s \<and> count_visible t' s = length (scan_visible t s)
      \<and> scan_visible_slots t' [(0, length (rows t'))] s = scan_visible t s
      \<and> (\<forall>n. scan_visible_from t' n s = filter (\<lambda>(i, r). n \<le> i) (scan_visible t s)))"
proof -
  let ?t = "tx_run accepts v t ops"
  have i: "lockstep ?t" "scan_visible ?t s = scan_visible t s" using tx_run_isolated[OF assms] by auto
  then have l: "length (headers ?t) = length (rows ?t)" by (simp add: lockstep_def)
  have "scan_visible_from ?t n s = filter (\<lambda>(i, r). n \<le> i) (scan_visible ?t s)" for n
    unfolding scan_visible_from_shown[OF l] scan_visible_shown[OF l] by (simp add: filter_map comp_def)
  moreover have "count_visible ?t s = length (scan_visible ?t s)"
    by (simp add: count_visible_shown[OF l] scan_visible_shown[OF l])
  ultimately show ?thesis using i scan_visible_slots_shown[OF l] by (simp add: Let_def)
qed

theorem uncommitted_writes_invisible_witness:
  "let t = tx_run (\<lambda>_. True) 5 (table_new 1) [Ins ''a'', Ins ''b'']; s = snapshot_new 12 [9] 9 0;
       t' = tx_run (\<lambda>_. True) 9 t [Ins ''c'', Del [0, 2]] in
     scan_visible t s = [(0, ''a''), (1, ''b'')] \<and> scan_visible t' s = [(0, ''a''), (1, ''b'')]
     \<and> rows t' = [''a'', ''b'', ''c''] \<and> xmax (headers t' ! 0) = 9"
proof -
  let ?t = "tx_run (\<lambda>_. True) 5 (table_new 1) [Ins ''a'', Ins ''b'']" and ?s = "snapshot_new 12 [9] 9 0"
  let ?t' = "tx_run (\<lambda>_. True) 9 ?t [Ins ''c'', Del [0, 2]]"
  note ev = tx_run_def insert_with_xmin_def insert_keyed_def alloc_rowid_def Let_def XMIN_FROZEN_def table_new_def
    header_alive_def XMAX_ALIVE_def
  have t: "rows ?t = [''a'', ''b'']" "headers ?t = [header_alive 5, header_alive 5]" "rowids ?t = [1, 2]" "table_rel ?t = 1"
    "next_rowid ?t = 3"
    by (simp_all add: ev)
  have t': "rows ?t' = [''a'', ''b'', ''c'']" "xmax (headers ?t' ! 0) = 9"
    by (simp_all add: ev)
  have "lockstep ?t" "hidden_version ?s 9"
    by (simp_all add: lockstep_def t hidden_version_def snapshot_new_def XMIN_FROZEN_def)
  from uncommitted_writes_invisible[OF this, of "\<lambda>_. True" "[Ins ''c'', Del [0, 2]]"]
  have "scan_visible ?t' ?s = scan_visible ?t ?s" by (simp add: Let_def)
  moreover have "scan_visible ?t ?s = [(0, ''a''), (1, ''b'')]"
    by (simp add: scan_visible_def t header_visible_def snapshot_new_def visible_def header_alive_def XMAX_ALIVE_def)
  ultimately show ?thesis using t' by (simp add: Let_def)
qed

section \<open>Compaction\<close>

definition survivors :: "'r table \<Rightarrow> nat list \<Rightarrow> nat list" where
  "survivors t ps = filter (\<lambda>i. i \<notin> set ps) [0..<length (rows t)]"

lemma keep_rowids_map: "\<forall>i\<in>set is. i < length ids \<Longrightarrow> keep_rowids ids is nxt = (map (\<lambda>i. ids ! i) is, nxt)"
  by (induction ids "is" nxt rule: keep_rowids.induct) (auto simp: slice_get_def)

lemma map_nth_all: "map ((!) xs) [0..<length xs] = xs"
  by (rule map_nth)

definition dead_count :: "row_header list \<Rightarrow> u64" where
  "dead_count hs = of_nat (length (filter is_deleted hs))"

lemma delete_effect:
  assumes "lockstep t" "delete_rows_no_index t ps = (n, t')"
  shows "rows t' = map ((!) (rows t)) (survivors t ps)" "headers t' = map ((!) (headers t)) (survivors t ps)"
    "rowids t' = map ((!) (rowids t)) (survivors t ps)" "next_rowid t' = next_rowid t" "table_rel t' = table_rel t"
    "n + length (survivors t ps) = length (rows t)"
    "n = 0 \<Longrightarrow> t' = t" "n \<noteq> 0 \<Longrightarrow> dead_rows t' = dead_count (headers t')"
proof -
  let ?n = "length (rows t)"
  let ?rm = "remdups (filter (\<lambda>p. p < ?n) ps)"
  have l: "length (headers t) = ?n" "length (rowids t) = ?n" using assms(1) by (auto simp: lockstep_def)
  have kb: "\<forall>i\<in>set (survivors t ps). i < ?n" by (simp add: survivors_def)
  have "length ?rm = card ({i. i < ?n} \<inter> set ps)" by (simp add: length_remdups_card_conv Int_def conj_commute)
  moreover have "length (survivors t ps) = card ({i. i < ?n} - set ps)"
    unfolding survivors_def by (subst distinct_card[symmetric]) (auto intro: arg_cong[of _ _ card])
  moreover have "card {i. i < ?n} = ?n" by simp
  ultimately have cnt: "length ?rm + length (survivors t ps) = ?n"
    using card_Int_Diff[of "{i. i < ?n}" "set ps"] by simp
  have all: "survivors t ps = [0..<?n]" if "ps = [] \<or> length ?rm = 0"
    using that cnt unfolding survivors_def by (metis (no_types, lifting) add_0 diff_zero filter_True in_set_conv_nth length_filter_less length_upt less_irrefl list.set(1) empty_iff)
  have kr: "keep_rowids (rowids t) (survivors t ps) (next_rowid t) = (map ((!) (rowids t)) (survivors t ps), next_rowid t)"
    using kb l by (simp add: keep_rowids_map)
  show "rows t' = map ((!) (rows t)) (survivors t ps)" "headers t' = map ((!) (headers t)) (survivors t ps)"
    "rowids t' = map ((!) (rowids t)) (survivors t ps)" "next_rowid t' = next_rowid t" "table_rel t' = table_rel t"
    "n + length (survivors t ps) = ?n" "n = 0 \<Longrightarrow> t' = t" "n \<noteq> 0 \<Longrightarrow> dead_rows t' = dead_count (headers t')"
  proof -
    have hs: "map (\<lambda>i. case slice_get (headers t) i of Some h \<Rightarrow> h | None \<Rightarrow> header_frozen) (survivors t ps) = map ((!) (headers t)) (survivors t ps)"
      using kb l by (auto simp: slice_get_def)
    have dd: "filter (\<lambda>i. case slice_get (headers t) i of Some h \<Rightarrow> xmax h \<noteq> XMAX_ALIVE | None \<Rightarrow> False) (survivors t ps)
        = filter (\<lambda>i. is_deleted (headers t ! i)) (survivors t ps)"
      using kb l by (auto simp: slice_get_def is_deleted_def intro!: filter_cong)
    have *: "(ps = [] \<or> length ?rm = 0) \<and> n = 0 \<and> t' = t \<or>
      n = length ?rm \<and> n \<noteq> 0 \<and> t' = t\<lparr>rows := map ((!) (rows t)) (survivors t ps), headers := map ((!) (headers t)) (survivors t ps),
          rowids := map ((!) (rowids t)) (survivors t ps), next_rowid := next_rowid t,
          dead_rows := of_nat (length (filter (\<lambda>i. is_deleted (headers t ! i)) (survivors t ps)))\<rparr>"
      using assms(2) kr hs dd unfolding delete_rows_no_index_def survivors_def[symmetric] Let_def
      by (auto split: if_splits)
    show "n = 0 \<Longrightarrow> t' = t" "n + length (survivors t ps) = ?n" using * cnt all by auto
    show "n \<noteq> 0 \<Longrightarrow> dead_rows t' = dead_count (headers t')"
      using * by (auto simp: dead_count_def filter_map comp_def)
    show "rows t' = map ((!) (rows t)) (survivors t ps)" "headers t' = map ((!) (headers t)) (survivors t ps)"
      "rowids t' = map ((!) (rowids t)) (survivors t ps)" "next_rowid t' = next_rowid t" "table_rel t' = table_rel t"
      using * all l map_nth_all[of "rows t"] map_nth_all[of "headers t"] map_nth_all[of "rowids t"] by auto
  qed
qed

lemma vacuum_effect:
  assumes "lockstep t" "vacuum t oldest False = (rep, t')"
  shows "\<exists>n. delete_rows_no_index t (filter (\<lambda>i. is_reclaimable (xmax (headers t ! i)) oldest) [0..<length (headers t)]) = (n, t')
    \<and> rows_reclaimed rep = of_nat (length (filter (\<lambda>h. is_reclaimable (xmax h) oldest) (headers t)))
    \<and> rows_examined rep = of_nat (length (headers t))"
proof -
  let ?R = "filter (\<lambda>i. is_reclaimable (xmax (headers t ! i)) oldest) [0..<length (headers t)]"
  have r: "filter (\<lambda>i. case slice_get (headers t) i of Some h \<Rightarrow> is_reclaimable (xmax h) oldest | None \<Rightarrow> False) [0..<length (headers t)] = ?R"
    by (auto simp: slice_get_def intro!: filter_cong)
  have len: "length ?R = length (filter (\<lambda>h. is_reclaimable (xmax h) oldest) (headers t))"
    by (metis (no_types, lifting) filter_map length_map map_nth comp_apply filter_cong)
  obtain n t1 where d: "delete_rows_no_index t ?R = (n, t1)" by fastforce
  have "length (survivors t ?R) + length ?R = length (rows t)"
    using sum_length_filter_compl[of "\<lambda>i. is_reclaimable (xmax (headers t ! i)) oldest" "[0..<length (headers t)]"] assms(1)
    unfolding survivors_def lockstep_def by (simp add: add.commute conj_commute) (metis (mono_tags, lifting) filter_cong atLeastLessThan_iff atLeastLessThan_upt)
  with delete_effect(6)[OF assms(1) d] have "n = length ?R" by simp
  moreover have "?R = [] \<Longrightarrow> delete_rows_no_index t ?R = (0, t)" by (simp add: delete_rows_no_index_def)
  ultimately show ?thesis using assms(2) d len unfolding vacuum_def Let_def r by (auto split: if_splits)
qed

section \<open>Invariant\<close>

definition table_inv :: "'r table \<Rightarrow> bool" where
  "table_inv t = (lockstep t \<and> ascending (rowids t) \<and> (\<forall>r\<in>set (rowids t). r < next_rowid t))"

text \<open>
  Reachable tables: one writer version per insert or tombstone (version 0 is nobody), vacuum under any floor,
  truncation. The allocator is shared by every copy of the table (transaction shadows mint from the same
  counter), so it may advance between two steps; it has not wrapped.
\<close>

inductive table_reach :: "('r \<Rightarrow> bool) \<Rightarrow> 'r table \<Rightarrow> bool" for accepts where
  reach_new: "table_reach accepts (table_new rel)"
| reach_ins: "table_reach accepts t \<Longrightarrow> insert_with_xmin accepts t row v = Inr t' \<Longrightarrow> next_rowid t \<noteq> - 1 \<Longrightarrow> table_reach accepts t'"
| reach_del: "table_reach accepts t \<Longrightarrow> v \<noteq> 0 \<Longrightarrow> table_reach accepts (snd (mark_rows_deleted t ps v))"
| reach_vacuum: "table_reach accepts t \<Longrightarrow> table_reach accepts (snd (vacuum t oldest dry))"
| reach_truncate: "table_reach accepts t \<Longrightarrow> table_reach accepts (truncate_rows t)"
| reach_shared: "table_reach accepts t \<Longrightarrow> next_rowid t \<le> n \<Longrightarrow> table_reach accepts (t\<lparr>next_rowid := n\<rparr>)"

lemma insert_any:
  assumes "insert_with_xmin accepts t row v = Inr t'"
  shows "\<exists>h. rows t' = rows t @ [row] \<and> headers t' = headers t @ [h] \<and> rowids t' = rowids t @ [next_rowid t]
    \<and> next_rowid t' = next_rowid t + 1 \<and> dead_rows t' = dead_rows t \<and> \<not> is_deleted h"
proof (cases "v = XMIN_FROZEN")
  case True
  with assms show ?thesis
    by (auto simp: insert_with_xmin_def insert_keyed_def alloc_rowid_def Let_def is_deleted_def header_frozen_def split: if_splits)
next
  case False
  from insert_effect[OF assms False] show ?thesis by (simp add: is_deleted_def header_alive_def)
qed

lemma ascending_survivors:
  assumes "ascending (ids :: row_id list)" "length ids = n"
  shows "ascending (map ((!) ids) (filter P [0..<n]))"
proof -
  have "sorted_wrt (\<lambda>i j. ids ! i < ids ! j) [0..<n]"
    using assms unfolding sorted_wrt_iff_nth_less by simp
  then show ?thesis unfolding sorted_wrt_map by (rule sorted_wrt_filter)
qed

lemma vacuum_result:
  assumes "lockstep t"
  shows "snd (vacuum t oldest dry) = t \<or> (\<exists>ps n. delete_rows_no_index t ps = (n, snd (vacuum t oldest dry)))"
  unfolding vacuum_def Let_def by (auto split: prod.splits)

lemma delete_inv:
  assumes "table_inv t" "delete_rows_no_index t ps = (n, t')"
  shows "table_inv t'"
proof -
  have l: "lockstep t" using assms(1) by (simp add: table_inv_def)
  note e = delete_effect[OF l assms(2)]
  have "ascending (rowids t')" unfolding e(3) survivors_def using assms(1) l by (intro ascending_survivors) (auto simp: table_inv_def lockstep_def)
  moreover have "\<forall>r\<in>set (rowids t'). r < next_rowid t'"
    unfolding e(3,4) using assms(1) l by (auto simp: table_inv_def survivors_def lockstep_def)
  moreover have "lockstep t'" unfolding lockstep_def e by simp
  ultimately show ?thesis by (simp add: table_inv_def)
qed

lemma reach_table_inv: "table_reach accepts t \<Longrightarrow> table_inv t"
proof (induction rule: table_reach.induct)
  case (reach_new rel)
  then show ?case by (simp add: table_inv_def table_new_def lockstep_def)
next
  case (reach_ins t row v t')
  from insert_any[OF reach_ins(2)] obtain h where e: "rows t' = rows t @ [row]" "headers t' = headers t @ [h]"
    "rowids t' = rowids t @ [next_rowid t]" "next_rowid t' = next_rowid t + 1" by blast
  have "next_rowid t < next_rowid t + 1" using reach_ins(3) by (simp add: word_less_add1)
  with e reach_ins(4) show ?case by (fastforce simp: table_inv_def lockstep_def sorted_wrt_append)
next
  case (reach_del t v ps)
  then show ?case using mark_effect[of t ps v] by (auto simp: table_inv_def lockstep_def same_store_def)
next
  case (reach_vacuum t oldest dry)
  have "lockstep t" using reach_vacuum.IH by (simp add: table_inv_def)
  from vacuum_result[OF this, of oldest dry] show ?case
  proof (elim disjE exE)
    show "table_inv (snd (vacuum t oldest dry))" if "snd (vacuum t oldest dry) = t"
      using reach_vacuum.IH that by simp
    show "table_inv (snd (vacuum t oldest dry))" if "delete_rows_no_index t ps = (n, snd (vacuum t oldest dry))" for ps n
      by (rule delete_inv[OF reach_vacuum.IH that])
  qed
next
  case (reach_truncate t)
  then show ?case by (simp add: table_inv_def truncate_rows_def lockstep_def)
next
  case (reach_shared t n)
  then show ?case by (auto simp: table_inv_def lockstep_def)
qed

text \<open>In every table reachable by inserts, tombstones, vacuums and truncations the three vectors stay in lock-step, and the stable row ids
  are strictly ascending, hence distinct, and below the allocator.\<close>

theorem table_vectors_in_lockstep:
  assumes "table_reach accepts t"
  shows "length (headers t) = length (rows t) \<and> length (rowids t) = length (rows t)
    \<and> ascending (rowids t) \<and> distinct (rowids t) \<and> (\<forall>r\<in>set (rowids t). r < next_rowid t)"
  using reach_table_inv[OF assms] by (auto simp: table_inv_def lockstep_def strict_sorted_iff)

lemma insert_example:
  obtains t where "insert_with_xmin (\<lambda>_. True) (table_new 1) ''a'' 5 = Inr t"
  by (simp add: insert_with_xmin_def insert_keyed_def alloc_rowid_def XMIN_FROZEN_def Let_def)

theorem table_vectors_in_lockstep_witness:
  "\<exists>t. insert_with_xmin (\<lambda>_. True) (table_new 1) ''a'' 5 = Inr t \<and> length (headers t) = length (rows t) \<and> ascending (rowids t)"
proof -
  obtain t where t: "insert_with_xmin (\<lambda>_. True) (table_new 1) ''a'' 5 = Inr t"
    by (rule insert_example)
  have "table_reach (\<lambda>_. True) t" by (rule reach_ins[OF reach_new t]) (simp add: table_new_def)
  from table_vectors_in_lockstep[OF this] t show ?thesis by blast
qed

section \<open>Vacuum\<close>

text \<open>The rows a snapshot shows, named by their stable ids.\<close>

definition shown_rows :: "'r table \<Rightarrow> snapshot \<Rightarrow> (row_id \<times> 'r) list" where
  "shown_rows t s = map (\<lambda>(i, r). (rowids t ! i, r)) (scan_visible t s)"

lemma filter_map_nth: "filter P (map f xs) = map f (filter (\<lambda>x. P (f x)) xs)"
  by (induction xs) auto

lemma compact_shown:
  assumes "lockstep t" "delete_rows_no_index t ps = (n, t')" "locked_out s = None"
    and "\<forall>i<length (rows t). i \<in> set ps \<longrightarrow> \<not> visible s (headers t ! i)"
  shows "shown_rows t' s = shown_rows t s"
proof -
  note e = delete_effect[OF assms(1,2)]
  let ?K = "survivors t ps"
  have kb: "\<forall>i\<in>set ?K. i < length (rows t)" by (simp add: survivors_def)
  have l': "length (headers t') = length (rows t')" unfolding e by simp
  have l: "length (headers t) = length (rows t)" using assms(1) by (simp add: lockstep_def)
  have hv: "header_visible tt i h s = visible s h" for tt :: "'a table" and i h using assms(3) by (simp add: header_visible_def)
  have "shown_rows t' s = map (\<lambda>j. (rowids t' ! j, rows t' ! j)) (filter (\<lambda>j. visible s (headers t' ! j)) [0..<length (rows t')])"
    unfolding shown_rows_def scan_visible_shown[OF l'] shown_def hv by simp
  also have "\<dots> = map (\<lambda>j. (rowids t ! (?K ! j), rows t ! (?K ! j))) (filter (\<lambda>j. visible s (headers t ! (?K ! j))) [0..<length ?K])"
    unfolding e(1-3) using kb by (auto intro!: map_cong filter_cong)
  also have "\<dots> = map (\<lambda>i. (rowids t ! i, rows t ! i)) (filter (\<lambda>i. visible s (headers t ! i)) (map ((!) ?K) [0..<length ?K]))"
    by (simp add: filter_map_nth)
  also have "\<dots> = map (\<lambda>i. (rowids t ! i, rows t ! i)) (filter (\<lambda>i. visible s (headers t ! i)) ?K)"
    by (simp only: map_nth)
  also have "\<dots> = map (\<lambda>i. (rowids t ! i, rows t ! i)) (filter (\<lambda>i. visible s (headers t ! i)) [0..<length (rows t)])"
    unfolding survivors_def filter_filter using assms(4) by (auto intro!: arg_cong[of _ _ "map _"] filter_cong)
  also have "\<dots> = shown_rows t s" unfolding shown_rows_def scan_visible_shown[OF l] shown_def hv by simp
  finally show ?thesis .
qed

text \<open>C10: A vacuum pass removes exactly the reclaimable rows and reports their number. It changes nothing for a snapshot that
  sees none of the reclaimable rows: the same rows, under the same stable ids, in the same order.\<close>

theorem vacuum_preserves_visible:
  assumes "table_reach accepts t" "vacuum t oldest False = (rep, t')" "locked_out s = None"
    and "\<forall>h\<in>set (headers t). is_reclaimable (xmax h) oldest \<longrightarrow> \<not> visible s h"
  shows "shown_rows t' s = shown_rows t s
    \<and> headers t' = filter (\<lambda>h. \<not> is_reclaimable (xmax h) oldest) (headers t)
    \<and> rows_reclaimed rep = of_nat (length (filter (\<lambda>h. is_reclaimable (xmax h) oldest) (headers t)))
    \<and> rows_examined rep = of_nat (length (rows t))"
proof -
  have l: "lockstep t" using reach_table_inv[OF assms(1)] by (simp add: table_inv_def)
  then have lh: "length (headers t) = length (rows t)" by (simp add: lockstep_def)
  let ?R = "filter (\<lambda>i. is_reclaimable (xmax (headers t ! i)) oldest) [0..<length (headers t)]"
  from vacuum_effect[OF l assms(2)] obtain n where v: "delete_rows_no_index t ?R = (n, t')"
    "rows_reclaimed rep = of_nat (length (filter (\<lambda>h. is_reclaimable (xmax h) oldest) (headers t)))"
    "rows_examined rep = of_nat (length (headers t))" by blast
  have "shown_rows t' s = shown_rows t s"
    by (rule compact_shown[OF l v(1) assms(3)]) (use assms(4) lh in auto)
  moreover have "headers t' = filter (\<lambda>h. \<not> is_reclaimable (xmax h) oldest) (headers t)"
  proof -
    have "survivors t ?R = filter (\<lambda>i. \<not> is_reclaimable (xmax (headers t ! i)) oldest) [0..<length (headers t)]"
      unfolding survivors_def lh by (auto intro!: filter_cong)
    then have "headers t' = filter (\<lambda>h. \<not> is_reclaimable (xmax h) oldest) (map ((!) (headers t)) [0..<length (headers t)])"
      unfolding delete_effect(2)[OF l v(1)] filter_map_nth by simp
    then show ?thesis by (simp only: map_nth)
  qed
  ultimately show ?thesis using v lh by simp
qed

theorem vacuum_preserves_visible_witness:
  "\<exists>t t' rep. insert_with_xmin (\<lambda>_. True) (table_new 1) ''a'' 5 = Inr t
     \<and> vacuum (snd (mark_rows_deleted t [0] 6)) 9 False = (rep, t') \<and> rows_reclaimed rep = 1 \<and> headers t' = []"
proof -
  obtain t where t: "insert_with_xmin (\<lambda>_. True) (table_new 1) ''a'' 5 = Inr t"
    by (rule insert_example)
  have "table_reach (\<lambda>_. True) t" by (rule reach_ins[OF reach_new t]) (simp add: table_new_def)
  then have r: "table_reach (\<lambda>_. True) (snd (mark_rows_deleted t [0] 6))" by (rule reach_del) simp
  obtain rep t' where v: "vacuum (snd (mark_rows_deleted t [0] 6)) 9 False = (rep, t')" by fastforce
  have h: "headers (snd (mark_rows_deleted t [0] 6)) = [\<lparr>xmin = 5, xmax = 6, flags = 0\<rparr>]"
    using t by (auto simp: insert_with_xmin_def insert_keyed_def alloc_rowid_def Let_def XMIN_FROZEN_def table_new_def header_alive_def XMAX_ALIVE_def)
  let ?s = "snapshot_new 20 [] 20 0"
  have "locked_out ?s = None" "\<forall>h\<in>set (headers (snd (mark_rows_deleted t [0] 6))). is_reclaimable (xmax h) 9 \<longrightarrow> \<not> visible ?s h"
    unfolding h by (auto simp: snapshot_new_def visible_def is_reclaimable_def XMAX_ALIVE_def)
  from vacuum_preserves_visible[OF r v this] t v show ?thesis
    unfolding h by (auto simp: is_reclaimable_def XMAX_ALIVE_def)
qed

section \<open>Resuming a scan\<close>

lemma resume_loop_correct:
  assumes "ascending ids" "hi \<le> length ids" "lo \<le> hi" "\<forall>j<lo. ids ! j \<le> after" "\<forall>j. hi \<le> j \<and> j < length ids \<longrightarrow> after < ids ! j"
  shows "resume_loop ids after lo hi \<le> length ids \<and> (\<forall>j<resume_loop ids after lo hi. ids ! j \<le> after)
    \<and> (\<forall>j. resume_loop ids after lo hi \<le> j \<and> j < length ids \<longrightarrow> after < ids ! j)"
  using assms
proof (induction ids after lo hi rule: resume_loop.induct)
  case (1 ids after lo hi)
  show ?case
  proof (cases "lo < hi")
    case False
    then show ?thesis using 1(5-) unfolding resume_loop.simps[of ids after lo hi] by simp
  next
    case True
    define mid where "mid = lo + (hi - lo) div 2"
    have mid: "lo \<le> mid" "mid < hi" "mid < length ids" using True 1(5) by (auto simp: mid_def)
    have g: "slice_get ids mid = Some (ids ! mid)" using mid by (simp add: slice_get_def)
    show ?thesis
    proof (cases "ids ! mid \<le> after")
      case le: True
      have "ids ! j \<le> after" if "j < mid + 1" for j
        using that le mid sorted_wrt_nth_less[OF 1(4), of j mid] by (cases "j = mid") auto
      moreover have eq: "resume_loop ids after lo hi = resume_loop ids after (mid + 1) hi"
        using True g le by (subst resume_loop.simps) (simp add: mid_def[symmetric])
      ultimately show ?thesis unfolding eq using 1(5,8) mid by (intro 1(2)[OF True mid_def g le 1(4)]) auto
    next
      case gt: False
      have "after < ids ! j" if "mid \<le> j" "j < length ids" for j
        using that gt sorted_wrt_nth_less[OF 1(4), of mid j] by (cases "j = mid") auto
      moreover have eq: "resume_loop ids after lo hi = resume_loop ids after lo mid"
        using True g gt by (subst resume_loop.simps) (simp add: mid_def[symmetric])
      ultimately show ?thesis unfolding eq using 1(7) mid by (intro 1(3)[OF True mid_def g gt 1(4)]) auto
    qed
  qed
qed

lemma resume_slot_split:
  assumes "ascending (rowids t)"
  shows "j < length (rowids t) \<Longrightarrow> resume_slot_after t r hint \<le> j \<longleftrightarrow> r < rowids t ! j"
proof -
  assume j: "j < length (rowids t)"
  show ?thesis
  proof (cases "0 < hint \<and> slice_get (rowids t) (hint - 1) = Some r")
    case True
    then have h: "hint - 1 < length (rowids t)" "rowids t ! (hint - 1) = r" "0 < hint" by (auto simp: slice_get_def split: if_splits)
    have "hint \<le> j \<longleftrightarrow> r < rowids t ! j"
      using sorted_wrt_nth_less[OF assms, of "hint - 1" j] sorted_wrt_nth_less[OF assms, of j "hint - 1"] h j
      by (cases "j = hint - 1"; cases "hint - 1 < j") auto
    with True show ?thesis by (simp add: resume_slot_after_def)
  next
    case False
    have "resume_slot_after t r hint = resume_loop (rowids t) r 0 (length (rowids t))" using False by (auto simp: resume_slot_after_def)
    with resume_loop_correct[OF assms, of "length (rowids t)" 0 r] j show ?thesis by (auto simp: not_le[symmetric])
  qed
qed

text \<open>Resuming a scan after a row: whether or not vacuum has moved the rows meanwhile, the resumed scan yields exactly the
  visible rows whose stable id is greater than the last one consumed.\<close>

theorem resume_scan_exact:
  assumes "table_reach accepts t"
  shows "scan_visible_from t (resume_slot_after t r hint) s = filter (\<lambda>(i, row). r < rowids t ! i) (scan_visible t s)"
proof -
  have i: "lockstep t" "ascending (rowids t)" using reach_table_inv[OF assms] by (auto simp: table_inv_def)
  then have l: "length (headers t) = length (rows t)" "length (rowids t) = length (rows t)" by (auto simp: lockstep_def)
  have "filter (\<lambda>i. resume_slot_after t r hint \<le> i) (shown t s) = filter (\<lambda>i. r < rowids t ! i) (shown t s)"
    using resume_slot_split[OF i(2), of _ r hint] l by (auto simp: shown_def intro!: filter_cong)
  then show ?thesis unfolding scan_visible_from_shown[OF l(1)] scan_visible_shown[OF l(1)]
    by (simp add: filter_map comp_def)
qed

theorem resume_scan_exact_witness:
  "\<exists>t. insert_with_xmin (\<lambda>_. True) (table_new 1) ''a'' 5 = Inr t
     \<and> scan_visible_from t (resume_slot_after t 0 7) snapshot_unbounded = filter (\<lambda>(i, row). 0 < rowids t ! i) (scan_visible t snapshot_unbounded)"
proof -
  obtain t where t: "insert_with_xmin (\<lambda>_. True) (table_new 1) ''a'' 5 = Inr t" by (rule insert_example)
  have "table_reach (\<lambda>_. True) t" by (rule reach_ins[OF reach_new t]) (simp add: table_new_def)
  from resume_scan_exact[OF this] t show ?thesis by blast
qed

section \<open>Point operations\<close>

lemma scan_positions:
  assumes "lockstep t"
  shows "i \<in> fst ` set (scan_visible t s) \<longleftrightarrow> i < length (rows t) \<and> header_visible t i (headers t ! i) s"
proof -
  have l: "length (headers t) = length (rows t)" using assms by (simp add: lockstep_def)
  show ?thesis unfolding scan_visible_shown[OF l] shown_def by (auto simp: image_image)
qed

text \<open>The point operations agree with the bulk ones: a position is visible, by either test, exactly when the scan
  returns it, and deleting one row is the batch delete of that position, refused outside the table; a row already
  tombstoned keeps its first deleter.\<close>

theorem point_operations_agree:
  assumes "table_reach accepts t"
  shows "is_row_visible t i s = (i \<in> fst ` set (scan_visible t s)) \<and> position_visible t i s = (i \<in> fst ` set (scan_visible t s))
    \<and> mark_row_deleted t i v = (if i < length (rows t) then Inr (snd (mark_rows_deleted t [i] v)) else Inl (OutOfBounds i))
    \<and> (i < length (rows t) \<and> is_deleted (headers t ! i) \<longrightarrow> mark_row_deleted t i v = Inr t)"
proof -
  have l: "lockstep t" using reach_table_inv[OF assms] by (simp add: table_inv_def)
  then have lh: "length (headers t) = length (rows t)" by (simp add: lockstep_def)
  have "is_row_visible t i s = position_visible t i s" "position_visible t i s = (i < length (rows t) \<and> header_visible t i (headers t ! i) s)"
    using lh by (auto simp: is_row_visible_def position_visible_def slice_get_def)
  moreover have "mark_row_deleted t i v = (if i < length (rows t) then Inr (snd (mark_rows_deleted t [i] v)) else Inl (OutOfBounds i))"
    using lh by (auto simp: mark_row_deleted_def Let_def)
  moreover have "i < length (rows t) \<and> is_deleted (headers t ! i) \<longrightarrow> mark_row_deleted t i v = Inr t"
    using lh by (auto simp: mark_row_deleted_def is_deleted_def)
  ultimately show ?thesis using scan_positions[OF l, of i s] by simp
qed

theorem point_operations_agree_witness:
  "\<exists>t. insert_with_xmin (\<lambda>_. True) (table_new 1) ''a'' 5 = Inr t \<and> mark_row_deleted t 3 6 = Inl (OutOfBounds 3)
     \<and> mark_row_deleted t 0 6 = Inr (snd (mark_rows_deleted t [0] 6))"
proof -
  obtain t where t: "insert_with_xmin (\<lambda>_. True) (table_new 1) ''a'' 5 = Inr t" by (rule insert_example)
  have r: "table_reach (\<lambda>_. True) t" by (rule reach_ins[OF reach_new t]) (simp add: table_new_def)
  have "length (rows t) = 1" using insert_any[OF t] by (auto simp: table_new_def)
  then show ?thesis using point_operations_agree[OF r, of 3 _ 6] point_operations_agree[OF r, of 0 _ 6] t by simp
qed

end
