(* ===== verification/Table_Writeset.thy ===== *)
theory Table_Writeset
  imports Mvcc_Table
begin

text \<open>
  The write-set of a transaction (\<open>table.rs\<close> of \<open>spg-storage\<close>): its extraction from the incremental track or, when the
  track does not verify, from a full header scan; its replay onto a fresher copy of the table; the dry check of the
  tombstones for write-write conflicts. The lemmas show that extraction is exact, that a replay is invisible to other
  readers and can be extracted again, and that its conflicts are the announced ones.
\<close>

record 'r tx_write_set =
  ws_inserted :: "(row_id \<times> 'r) list"
  ws_tombstoned :: "(row_id \<times> u32) list"

section \<open>Operations\<close>

definition scan_writeset :: "'r table \<Rightarrow> u64 \<Rightarrow> 'r tx_write_set" where
  "scan_writeset t v =
     \<lparr>ws_inserted = List.map_filter (\<lambda>(i, h). if xmin h = v then map_option (\<lambda>r. (rowid_or_unassigned t i, r)) (slice_get (rows t) i) else None)
         (enumerate 0 (headers t)),
      ws_tombstoned = List.map_filter (\<lambda>(i, h). if xmax h = v then Some (rowid_or_unassigned t i, if i < 2 ^ 32 then of_nat i else - 1) else None)
         (enumerate 0 (headers t))\<rparr>"

fun verified_inserts :: "'r table \<Rightarrow> u64 \<Rightarrow> (nat \<times> row_id) list \<Rightarrow> (row_id \<times> 'r) list option" where
  "verified_inserts t v [] = Some []"
| "verified_inserts t v ((pos, rid) # ps) =
     (if (case slice_get (headers t) pos of None \<Rightarrow> False | Some h \<Rightarrow> xmin h = v) \<and> slice_get (rowids t) pos = Some rid then
        (case slice_get (rows t) pos of
           None \<Rightarrow> None
         | Some row \<Rightarrow> map_option (Cons (rid, row)) (verified_inserts t v ps))
      else None)"

definition extract_tx_writeset :: "'r table \<Rightarrow> u64 \<Rightarrow> 'r tx_write_set" where
  "extract_tx_writeset t v =
     (case write_track t of
        Some tr \<Rightarrow>
          (if track_version tr = v then
             (case verified_inserts t v (track_inserted tr) of
                Some ins \<Rightarrow>
                  \<lparr>ws_inserted = ins,
                   ws_tombstoned = map (\<lambda>(pos, rid). (rid, if pos < 2 ^ 32 then of_nat pos else - 1)) (track_tombstoned tr)\<rparr>
              | None \<Rightarrow> scan_writeset t v)
           else scan_writeset t v)
      | None \<Rightarrow> scan_writeset t v)"

function position_loop :: "row_id list \<Rightarrow> row_id \<Rightarrow> nat \<Rightarrow> nat \<Rightarrow> nat option" where
  "position_loop ids rid lo hi =
     (if lo < hi then
        (let mid = lo + (hi - lo) div 2
         in case slice_get ids mid of
              Some m \<Rightarrow>
                (if m = rid then Some mid
                 else if m < rid then position_loop ids rid (mid + 1) hi
                 else position_loop ids rid lo mid)
            | None \<Rightarrow> None)
      else None)"
  by pat_completeness auto
termination
  by (relation "measure (\<lambda>(ids, rid, lo, hi). hi - lo)") auto

declare position_loop.simps [simp del]

definition rowid_position :: "'r table \<Rightarrow> row_id \<Rightarrow> nat option" where
  "rowid_position t rid =
     (case position_loop (rowids t) rid 0 (length (rowids t)) of
        Some i \<Rightarrow> Some i
      | None \<Rightarrow> find (\<lambda>i. slice_get (rowids t) i = Some rid) [0..<length (rowids t)])"

definition rowid_at :: "'r table \<Rightarrow> row_id \<Rightarrow> u32 \<Rightarrow> nat option" where
  "rowid_at t rid hint = (if slice_get (rowids t) (unat hint) = Some rid then Some (unat hint) else rowid_position t rid)"

definition tombstone_conflicts :: "'r table \<Rightarrow> (row_id \<times> u32) list \<Rightarrow> u64 \<Rightarrow> row_id list" where
  "tombstone_conflicts t rids v =
     map fst (filter (\<lambda>(rid, hint).
         case rowid_at t rid hint of
           Some i \<Rightarrow> (case slice_get (headers t) i of None \<Rightarrow> False | Some h \<Rightarrow> xmax h \<noteq> XMAX_ALIVE \<and> xmax h \<noteq> v)
         | None \<Rightarrow> True) rids)"

fun replay_inserts ::
  "('r \<Rightarrow> bool) \<Rightarrow> 'r table \<Rightarrow> u64 \<Rightarrow> (row_id \<times> 'r) list \<Rightarrow> (row_id, nat) btmap \<Rightarrow> 'r table \<times> (row_id, nat) btmap" where
  "replay_inserts accepts t v [] replayed = (t, replayed)"
| "replay_inserts accepts t v ((rid, row) # ws) replayed =
     (case insert_keyed accepts t row of
        Inl e \<Rightarrow> replay_inserts accepts t v ws replayed
      | Inr t1 \<Rightarrow>
          (let last = length (rows t1) - 1;
               t2 = (if last < length (headers t1) then t1\<lparr>headers := (headers t1)[last := (headers t1 ! last)\<lparr>xmin := v\<rparr>]\<rparr> else t1);
               t3 = (if last < length (rowids t2) then t2\<lparr>rowids := (rowids t2)[last := rid]\<rparr> else t2);
               t4 = track_insert t3 v last rid
           in replay_inserts accepts t4 v ws (bm_insert rid last replayed)))"

fun replay_tombstones ::
  "'r table \<Rightarrow> u64 \<Rightarrow> (row_id \<times> u32) list \<Rightarrow> (row_id, nat) btmap \<Rightarrow> row_id list \<Rightarrow> row_id list \<times> 'r table" where
  "replay_tombstones t v [] replayed conflicts = (conflicts, t)"
| "replay_tombstones t v ((rid, hint) # ts) replayed conflicts =
     (case (case bm_get replayed rid of Some p \<Rightarrow> Some p | None \<Rightarrow> rowid_at t rid hint) of
        Some i \<Rightarrow>
          (if i < length (headers t) \<and> xmax (headers t ! i) = XMAX_ALIVE then
             (let t1 = t\<lparr>headers := (headers t)[i := (headers t ! i)\<lparr>xmax := v\<rparr>], dead_rows := dead_rows t + 1\<rparr>
              in replay_tombstones (track_tombstone t1 v i rid) v ts replayed conflicts)
           else if i < length (headers t) \<and> xmax (headers t ! i) = v then replay_tombstones t v ts replayed conflicts
           else replay_tombstones t v ts replayed (conflicts @ [rid]))
      | None \<Rightarrow> replay_tombstones t v ts replayed (conflicts @ [rid]))"

definition replay_tx_writeset :: "('r \<Rightarrow> bool) \<Rightarrow> 'r table \<Rightarrow> 'r tx_write_set \<Rightarrow> u64 \<Rightarrow> row_id list \<times> 'r table" where
  "replay_tx_writeset accepts t ws v =
     (let (t1, replayed) = replay_inserts accepts t v (ws_inserted ws) []
      in replay_tombstones t1 v (ws_tombstoned ws) replayed [])"

section \<open>Extraction\<close>

definition stamped :: "'r table \<Rightarrow> u64 \<Rightarrow> nat list" where
  "stamped t v = filter (\<lambda>i. xmin (headers t ! i) = v) [0..<length (headers t)]"

definition killed :: "'r table \<Rightarrow> u64 \<Rightarrow> nat set" where
  "killed t v = {i. i < length (headers t) \<and> xmax (headers t ! i) = v}"

definition track_exact :: "'r table \<Rightarrow> u64 \<Rightarrow> bool" where
  "track_exact t v = (track_inserted (write_track_for t v) = map (\<lambda>i. (i, rowids t ! i)) (stamped t v)
     \<and> set (track_tombstoned (write_track_for t v)) = (\<lambda>i. (i, rowids t ! i)) ` killed t v)"

lemma write_track_for_insert [simp]:
  "write_track_for (track_insert t v i r) v = (write_track_for t v)\<lparr>track_inserted := track_inserted (write_track_for t v) @ [(i, r)]\<rparr>"
  by (simp add: track_insert_def Let_def write_track_for_def split: option.split)

lemma write_track_for_tombstone [simp]:
  "write_track_for (track_tombstone t v i r) v = (write_track_for t v)\<lparr>track_tombstoned := track_tombstoned (write_track_for t v) @ [(i, r)]\<rparr>"
  by (simp add: track_tombstone_def Let_def write_track_for_def split: option.split)

lemma write_track_for_cong: "write_track t = write_track t' \<Longrightarrow> write_track_for t v = write_track_for t' v"
  by (simp add: write_track_for_def)

lemma insert_track:
  assumes "insert_with_xmin accepts t row v = Inr t'" "v \<noteq> XMIN_FROZEN" "v \<noteq> 0" "lockstep t"
  shows "write_track_for t' v = (write_track_for t v)\<lparr>track_inserted := track_inserted (write_track_for t v) @ [(length (rows t), next_rowid t)]\<rparr>"
proof -
  let ?t2 = "t\<lparr>rows := rows t @ [row], next_rowid := next_rowid t + 1, rowids := rowids t @ [next_rowid t], headers := headers t @ [header_alive v]\<rparr>"
  have "t' = track_insert ?t2 v (length (rows t)) (next_rowid t)"
    using assms by (auto simp: insert_with_xmin_def insert_keyed_def alloc_rowid_def Let_def lockstep_def rowid_or_unassigned_def slice_get_def nth_append list_update_append split: if_splits)
  moreover have "write_track_for ?t2 v = write_track_for t v" by (rule write_track_for_cong) simp
  ultimately show ?thesis by simp
qed

lemma tombstone_track:
  assumes "lockstep t" "v \<noteq> 0" "track_exact t v" "position < length (headers t)" "xmax (headers t ! position) = XMAX_ALIVE"
  shows "track_exact (track_tombstone (t\<lparr>headers := (headers t)[position := (headers t ! position)\<lparr>xmax := v\<rparr>], dead_rows := dead_rows t + 1\<rparr>)
    v position (rowids t ! position)) v"
proof -
  define t1 where "t1 = t\<lparr>headers := (headers t)[position := (headers t ! position)\<lparr>xmax := v\<rparr>], dead_rows := dead_rows t + 1\<rparr>"
  define t2 where "t2 = track_tombstone t1 v position (rowids t ! position)"
  have h2: "headers t2 = (headers t)[position := (headers t ! position)\<lparr>xmax := v\<rparr>]" "rowids t2 = rowids t" "rows t2 = rows t"
    by (auto simp: t2_def t1_def)
  have w1: "write_track_for t1 v = write_track_for t v" by (rule write_track_for_cong) (simp add: t1_def)
  have "xmin ((headers t)[position := (headers t ! position)\<lparr>xmax := v\<rparr>] ! i) = xmin (headers t ! i)" if "i < length (headers t)" for i
    using that by (cases "i = position") auto
  then have "stamped t2 v = stamped t v" unfolding stamped_def h2(1) by (auto intro!: filter_cong)
  moreover have "killed t2 v = insert position (killed t v)"
  proof -
    have "xmax ((headers t)[position := (headers t ! position)\<lparr>xmax := v\<rparr>] ! i) = (if i = position then v else xmax (headers t ! i))"
      if "i < length (headers t)" for i using that by (cases "i = position") auto
    then show ?thesis unfolding killed_def h2(1) using assms(4) by auto
  qed
  ultimately have "track_exact t2 v"
    using assms(3) unfolding track_exact_def t2_def write_track_for_tombstone w1 by (simp add: t1_def)
  then show ?thesis by (simp add: t2_def t1_def)
qed

lemma mark_track:
  assumes "lockstep t" "v \<noteq> 0" "track_exact t v"
  shows "track_exact (snd (mark_rows_deleted t ps v)) v"
  using assms
proof (induction t ps v rule: mark_rows_deleted.induct)
  case (2 t position ps v)
  show ?case
  proof (cases "position < length (headers t) \<and> xmax (headers t ! position) = XMAX_ALIVE")
    case False
    with 2 show ?thesis by auto
  next
    case True
    define t1 where "t1 = t\<lparr>headers := (headers t)[position := (headers t ! position)\<lparr>xmax := v\<rparr>], dead_rows := dead_rows t + 1\<rparr>"
    define t2 where "t2 = (if v \<noteq> 0 \<and> v \<noteq> XMAX_ALIVE then track_tombstone t1 v position (rowid_or_unassigned t1 position) else t1)"
    have t2: "t2 = track_tombstone t1 v position (rowids t ! position)"
      using 2(4) True 2(3) by (simp add: t2_def t1_def rowid_or_unassigned_def slice_get_def XMAX_ALIVE_def lockstep_def)
    have ex: "track_exact t2 v" unfolding t2 t1_def using True by (intro tombstone_track[OF 2(3-5)]) auto
    have "lockstep t2" using 2(3) by (simp add: t2 t1_def lockstep_def)
    from 2(1)[OF True t1_def t2_def this 2(4) ex] have "track_exact (snd (mark_rows_deleted t2 ps v)) v" .
    moreover have "snd (mark_rows_deleted t (position # ps) v) = snd (mark_rows_deleted t2 ps v)"
      using True by (simp add: Let_def t1_def[symmetric] t2_def[symmetric] split: prod.splits)
    ultimately show ?thesis by simp
  qed
qed simp

lemma tx_step_track:
  assumes "lockstep t" "v \<noteq> 0" "v \<noteq> XMIN_FROZEN" "track_exact t v"
  shows "lockstep (tx_step accepts v t op) \<and> track_exact (tx_step accepts v t op) v"
proof (cases op)
  case (Ins row)
  show ?thesis
  proof (cases "insert_with_xmin accepts t row v")
    case (Inr t')
    note e = insert_effect[OF Inr assms(3)] and w = insert_track[OF Inr assms(3,2,1)]
    have l: "length (headers t) = length (rows t)" "length (rowids t) = length (rows t)" using assms(1) by (auto simp: lockstep_def)
    have "filter (\<lambda>i. xmin ((headers t @ [header_alive v]) ! i) = v) [0..<length (headers t)] = stamped t v"
      unfolding stamped_def by (auto simp: nth_append intro!: filter_cong)
    then have "stamped t' v = stamped t v @ [length (headers t)]"
      unfolding stamped_def e(2) by (simp add: header_alive_def)
    then have st: "stamped t' v = stamped t v @ [length (rows t)]" using l by simp
    have "killed t' v = killed t v"
      unfolding killed_def e(2) using assms(2) by (auto simp: nth_append header_alive_def XMAX_ALIVE_def less_Suc_eq)
    moreover have "(\<lambda>i. (i, rowids t' ! i)) ` killed t v = (\<lambda>i. (i, rowids t ! i)) ` killed t v"
      using l by (auto simp: e(3) killed_def nth_append intro!: image_cong)
    moreover have "map (\<lambda>i. (i, rowids t' ! i)) (stamped t v) = map (\<lambda>i. (i, rowids t ! i)) (stamped t v)"
      using l by (auto simp: e(3) stamped_def nth_append)
    moreover have "rowids t' ! length (rows t) = next_rowid t" unfolding e(3) using l by (simp add: nth_append)
    ultimately have "track_exact t' v"
      using assms(4) unfolding track_exact_def w st by simp
    then show ?thesis using Ins Inr assms(1) e by (simp add: lockstep_def)
  qed (use assms Ins in simp)
next
  case (Del ps)
  then show ?thesis using mark_track[OF assms(1,2,4), of ps] mark_effect[of t ps v] assms(1)
    by (auto simp: lockstep_def same_store_def)
qed

lemma tx_run_track:
  assumes "lockstep t" "v \<noteq> 0" "v \<noteq> XMIN_FROZEN" "track_exact t v"
  shows "lockstep (tx_run accepts v t ops) \<and> track_exact (tx_run accepts v t ops) v"
  using assms(1,4)
proof (induction ops arbitrary: t)
  case (Cons op ops)
  with tx_step_track[OF Cons.prems(1) assms(2,3) Cons.prems(2), of accepts op] Cons.IH[of "tx_step accepts v t op"] show ?case
    by (simp add: tx_run_def)
qed (simp add: tx_run_def)

lemma verified_all:
  assumes "\<forall>i\<in>set is. i < length (headers t) \<and> xmin (headers t ! i) = v" "lockstep t"
  shows "verified_inserts t v (map (\<lambda>i. (i, rowids t ! i)) is) = Some (map (\<lambda>i. (rowids t ! i, rows t ! i)) is)"
  using assms by (induction "is") (auto simp: slice_get_def lockstep_def)

lemma map_filter_enumerate:
  "List.map_filter f (enumerate 0 xs) = List.map_filter (\<lambda>i. f (i, xs ! i)) [0..<length xs]"
  unfolding enumerate_map by (simp add: List.map_filter_def filter_map comp_def)

lemma scan_inserted:
  assumes "lockstep t"
  shows "ws_inserted (scan_writeset t v) = map (\<lambda>i. (rowids t ! i, rows t ! i)) (stamped t v)"
proof -
  have "ws_inserted (scan_writeset t v) = List.map_filter (\<lambda>i. if xmin (headers t ! i) = v then Some (rowids t ! i, rows t ! i) else None) [0..<length (headers t)]"
    unfolding scan_writeset_def map_filter_enumerate using assms
    by (auto simp: rowid_or_unassigned_def slice_get_def lockstep_def intro!: map_filter_cong2)
  then show ?thesis by (simp add: map_filter_if stamped_def)
qed

definition hint_of :: "nat \<Rightarrow> u32" where
  "hint_of i = (if i < 2 ^ 32 then of_nat i else - 1)"

lemma scan_tombstoned:
  assumes "lockstep t"
  shows "set (ws_tombstoned (scan_writeset t v)) = (\<lambda>i. (rowids t ! i, hint_of i)) ` killed t v"
proof -
  have "ws_tombstoned (scan_writeset t v) = List.map_filter (\<lambda>i. if xmax (headers t ! i) = v then Some (rowids t ! i, hint_of i) else None) [0..<length (headers t)]"
    unfolding scan_writeset_def map_filter_enumerate using assms
    by (auto simp: rowid_or_unassigned_def slice_get_def lockstep_def hint_of_def intro!: map_filter_cong2)
  then show ?thesis by (auto simp: map_filter_if killed_def)
qed

lemma extract_exact:
  assumes "lockstep t" "track_exact t v"
  shows "ws_inserted (extract_tx_writeset t v) = map (\<lambda>i. (rowids t ! i, rows t ! i)) (stamped t v)"
    "set (ws_tombstoned (extract_tx_writeset t v)) = (\<lambda>i. (rowids t ! i, hint_of i)) ` killed t v"
proof -
  have "ws_inserted (extract_tx_writeset t v) = map (\<lambda>i. (rowids t ! i, rows t ! i)) (stamped t v)
    \<and> set (ws_tombstoned (extract_tx_writeset t v)) = (\<lambda>i. (rowids t ! i, hint_of i)) ` killed t v"
  proof (cases "\<exists>tr. write_track t = Some tr \<and> track_version tr = v")
    case True
    then obtain tr where Some: "write_track t = Some tr" "track_version tr = v" by blast
    then have tr: "track_inserted tr = map (\<lambda>i. (i, rowids t ! i)) (stamped t v)"
      "set (track_tombstoned tr) = (\<lambda>i. (i, rowids t ! i)) ` killed t v"
      using assms(2) by (auto simp: track_exact_def write_track_for_def)
    have "verified_inserts t v (track_inserted tr) = Some (map (\<lambda>i. (rowids t ! i, rows t ! i)) (stamped t v))"
      unfolding tr(1) by (rule verified_all[OF _ assms(1)]) (auto simp: stamped_def)
    then show ?thesis using Some tr(2) by (auto simp: extract_tx_writeset_def hint_of_def image_image)
  next
    case False
    then have "extract_tx_writeset t v = scan_writeset t v" by (auto simp: extract_tx_writeset_def split: option.splits)
    then show ?thesis using scan_inserted[OF assms(1)] scan_tombstoned[OF assms(1)] by simp
  qed
  then show "ws_inserted (extract_tx_writeset t v) = map (\<lambda>i. (rowids t ! i, rows t ! i)) (stamped t v)"
    "set (ws_tombstoned (extract_tx_writeset t v)) = (\<lambda>i. (rowids t ! i, hint_of i)) ` killed t v" by auto
qed

text \<open>A table the transaction has not written: no header and no track carries its version.\<close>

definition untouched :: "'r table \<Rightarrow> u64 \<Rightarrow> bool" where
  "untouched t v = (list_all (\<lambda>h. xmin h \<noteq> v \<and> xmax h \<noteq> v) (headers t)
     \<and> (case write_track t of None \<Rightarrow> True | Some tr \<Rightarrow> track_version tr \<noteq> v))"

lemma untouched_track:
  assumes "untouched t v"
  shows "stamped t v = []" "killed t v = {}" "track_exact t v"
proof -
  have "write_track_for t v = \<lparr>track_version = v, track_inserted = [], track_tombstoned = []\<rparr>"
    using assms by (auto simp: untouched_def write_track_for_def split: option.splits)
  moreover show "stamped t v = []" "killed t v = {}"
    using assms by (auto simp: untouched_def stamped_def killed_def filter_empty_conv list_all_iff)
  ultimately show "track_exact t v" by (simp add: track_exact_def)
qed

text \<open>C1: The write-set of a transaction: after any inserts and deletes of version \<open>v\<close> on a table it had not touched, the
  extraction (which normally reads the incremental track) returns what the full scan over all headers returns:
  the rows stamped by \<open>v\<close> in slot order, and the ids it tombstoned.\<close>

theorem writeset_matches_scan:
  assumes "lockstep t" "v \<noteq> 0" "v \<noteq> XMIN_FROZEN" "untouched t v"
  shows "(let t' = tx_run accepts v t ops in
      ws_inserted (extract_tx_writeset t' v) = ws_inserted (scan_writeset t' v)
      \<and> set (ws_tombstoned (extract_tx_writeset t' v)) = set (ws_tombstoned (scan_writeset t' v))
      \<and> ws_inserted (scan_writeset t' v) = map (\<lambda>i. (rowids t' ! i, rows t' ! i)) (stamped t' v)
      \<and> fst ` set (ws_tombstoned (scan_writeset t' v)) = (!) (rowids t') ` killed t' v)"
proof -
  let ?t = "tx_run accepts v t ops"
  from tx_run_track[OF assms(1-3) untouched_track(3)[OF assms(4)]] have l: "lockstep ?t" and ex: "track_exact ?t v" by auto
  show ?thesis using extract_exact[OF l ex] scan_inserted[OF l] scan_tombstoned[OF l] by (simp add: Let_def image_image)
qed

lemma killed_list: "killed t v = set (filter (\<lambda>i. xmax (headers t ! i) = v) [0..<length (headers t)])"
  by (auto simp: killed_def)

theorem writeset_matches_scan_witness:
  "let t' = tx_run (\<lambda>_. True) 9 (tx_run (\<lambda>_. True) 5 (table_new 1) [Ins ''a'', Ins ''b'']) [Ins ''c'', Del [0]] in
     ws_inserted (extract_tx_writeset t' 9) = [(3, ''c'')] \<and> fst ` set (ws_tombstoned (extract_tx_writeset t' 9)) = {1}"
proof -
  let ?t = "tx_run (\<lambda>_. True) 5 (table_new 1) [Ins ''a'', Ins ''b'']"
  let ?t' = "tx_run (\<lambda>_. True) 9 ?t [Ins ''c'', Del [0]]"
  note ev = tx_run_def insert_with_xmin_def insert_keyed_def alloc_rowid_def Let_def XMIN_FROZEN_def table_new_def
    header_alive_def XMAX_ALIVE_def
  have t: "rows ?t = [''a'', ''b'']" "headers ?t = [header_alive 5, header_alive 5]" "rowids ?t = [1, 2]"
    by (simp_all add: ev)
  have t': "rows ?t' = [''a'', ''b'', ''c'']" "rowids ?t' = [1, 2, 3]"
    "headers ?t' = [(header_alive 5)\<lparr>xmax := 9\<rparr>, header_alive 5, header_alive 9]"
    by (simp_all add: ev)
  have "lockstep ?t" by (simp add: lockstep_def t)
  moreover have "untouched ?t 9" by (simp add: untouched_def ev track_insert_def write_track_for_def)
  ultimately have m0: "lockstep ?t" "untouched ?t 9" by auto
  from writeset_matches_scan[OF m0(1) _ _ m0(2), of "\<lambda>_. True" "[Ins ''c'', Del [0]]"]
  have m: "ws_inserted (extract_tx_writeset ?t' 9) = map (\<lambda>i. (rowids ?t' ! i, rows ?t' ! i)) (stamped ?t' 9)"
    "fst ` set (ws_tombstoned (extract_tx_writeset ?t' 9)) = (!) (rowids ?t') ` killed ?t' 9"
    by (simp_all add: Let_def XMIN_FROZEN_def)
  have "stamped ?t' 9 = [2]" by (simp add: stamped_def t' header_alive_def XMAX_ALIVE_def upt_rec)
  moreover have "killed ?t' 9 = {0}"
    unfolding killed_list by (simp add: t' header_alive_def XMAX_ALIVE_def upt_rec)
  ultimately show ?thesis using m t' by (simp add: Let_def)
qed

section \<open>Replaying a write-set\<close>

lemma position_loop_sound: "position_loop ids rid lo hi = Some i \<Longrightarrow> i < length ids \<and> ids ! i = rid"
proof (induction ids rid lo hi rule: position_loop.induct)
  case (1 ids rid lo hi)
  from 1(3) show ?case
    by (subst (asm) position_loop.simps)
      (auto simp: Let_def slice_get_def split: if_splits dest: 1(1)[OF _ refl] 1(2)[OF _ refl])
qed

lemma find_SomeD: "find P xs = Some x \<Longrightarrow> x \<in> set xs \<and> P x"
  by (induction xs) (auto split: if_splits)

lemma rowid_position_correct:
  "rowid_position t rid = Some i \<Longrightarrow> i < length (rowids t) \<and> rowids t ! i = rid"
  "rowid_position t rid = None \<longleftrightarrow> rid \<notin> set (rowids t)"
proof -
  have f: "find (\<lambda>i. slice_get (rowids t) i = Some rid) [0..<length (rowids t)] = Some i \<Longrightarrow> i < length (rowids t) \<and> rowids t ! i = rid" for i
    by (drule find_SomeD) (simp add: slice_get_def split: if_splits)
  have fn: "find (\<lambda>i. slice_get (rowids t) i = Some rid) [0..<length (rowids t)] = None \<longleftrightarrow> rid \<notin> set (rowids t)"
    by (auto simp: find_None_iff slice_get_def in_set_conv_nth)
  show "rowid_position t rid = Some i \<Longrightarrow> i < length (rowids t) \<and> rowids t ! i = rid"
    using f position_loop_sound by (auto simp: rowid_position_def split: option.splits)
  show "rowid_position t rid = None \<longleftrightarrow> rid \<notin> set (rowids t)"
    using fn position_loop_sound[of "rowids t" rid 0 "length (rowids t)"]
    by (auto simp: rowid_position_def split: option.splits dest: nth_mem)
qed

lemma rowid_at_correct:
  "rowid_at t rid hint = Some i \<Longrightarrow> i < length (rowids t) \<and> rowids t ! i = rid"
  "rowid_at t rid hint = None \<longleftrightarrow> rid \<notin> set (rowids t)"
  using rowid_position_correct[of t rid] by (auto simp: rowid_at_def slice_get_def split: if_splits)

definition replayed_header :: "u64 \<Rightarrow> row_header" where
  "replayed_header v = header_frozen\<lparr>xmin := v\<rparr>"

definition map_ok :: "'r table \<Rightarrow> (row_id, nat) btmap \<Rightarrow> bool" where
  "map_ok t m = (\<forall>rid p. bm_get m rid = Some p \<longrightarrow> p < length (rowids t) \<and> rowids t ! p = rid)"

lemma replay_insert_step:
  assumes "lockstep t" "accepts row"
  shows "replay_inserts accepts t v ((rid, row) # ws) m =
    replay_inserts accepts
      (track_insert (t\<lparr>rows := rows t @ [row], next_rowid := next_rowid t + 1, headers := headers t @ [replayed_header v],
         rowids := rowids t @ [rid]\<rparr>) v (length (rows t)) rid) v ws (bm_insert rid (length (rows t)) m)"
  using assms by (simp add: insert_keyed_def alloc_rowid_def Let_def lockstep_def replayed_header_def list_update_append nth_append)

lemma replay_inserts_effect:
  assumes "lockstep t" "\<forall>(rid, row)\<in>set ws. accepts row" "v \<noteq> 0" "track_exact t v" "map_ok t m"
    and "replay_inserts accepts t v ws m = (t', m')"
  shows "rows t' = rows t @ map snd ws" "rowids t' = rowids t @ map fst ws"
    "headers t' = headers t @ replicate (length ws) (replayed_header v)" "table_rel t' = table_rel t"
    "track_exact t' v" "map_ok t' m'" "\<forall>rid. bm_get m' rid = None \<longleftrightarrow> bm_get m rid = None \<and> rid \<notin> fst ` set ws"
proof -
  have "rows t' = rows t @ map snd ws \<and> rowids t' = rowids t @ map fst ws
    \<and> headers t' = headers t @ replicate (length ws) (replayed_header v) \<and> table_rel t' = table_rel t
    \<and> track_exact t' v \<and> map_ok t' m' \<and> (\<forall>rid. bm_get m' rid = None \<longleftrightarrow> bm_get m rid = None \<and> rid \<notin> fst ` set ws)"
    using assms
  proof (induction ws arbitrary: t m)
    case (Cons w ws)
    obtain rid row where w: "w = (rid, row)" by fastforce
    let ?s = "t\<lparr>rows := rows t @ [row], next_rowid := next_rowid t + 1, headers := headers t @ [replayed_header v], rowids := rowids t @ [rid]\<rparr>"
    define t1 where "t1 = track_insert ?s v (length (rows t)) rid"
    have l: "length (headers t) = length (rows t)" "length (rowids t) = length (rows t)" using Cons.prems(1) by (auto simp: lockstep_def)
    have t1: "rows t1 = rows t @ [row]" "headers t1 = headers t @ [replayed_header v]" "rowids t1 = rowids t @ [rid]"
      "table_rel t1 = table_rel t" by (simp_all add: t1_def)
    have step: "replay_inserts accepts t1 v ws (bm_insert rid (length (rows t)) m) = (t', m')"
      using Cons.prems(1,2,6) replay_insert_step[of t accepts row v rid ws m] w by (simp add: t1_def)
    have "write_track_for ?s v = write_track_for t v" by (rule write_track_for_cong) simp
    then have wt: "write_track_for t1 v = (write_track_for t v)\<lparr>track_inserted := track_inserted (write_track_for t v) @ [(length (rows t), rid)]\<rparr>"
      by (simp add: t1_def)
    have "filter (\<lambda>i. xmin ((headers t @ [replayed_header v]) ! i) = v) [0..<length (headers t)] = stamped t v"
      unfolding stamped_def by (auto simp: nth_append intro!: filter_cong)
    then have st: "stamped t1 v = stamped t v @ [length (rows t)]"
      unfolding stamped_def t1(2) using l(1)[symmetric] by (simp add: replayed_header_def)
    have ki: "killed t1 v = killed t v"
      unfolding killed_def t1(2) using Cons.prems(3)
      by (auto simp: nth_append replayed_header_def header_frozen_def XMAX_ALIVE_def less_Suc_eq)
    have ex: "track_exact t1 v"
    proof -
      have "map (\<lambda>i. (i, rowids t1 ! i)) (stamped t v) = map (\<lambda>i. (i, rowids t ! i)) (stamped t v)"
        using l by (auto simp: t1(3) stamped_def nth_append)
      moreover have "(\<lambda>i. (i, rowids t1 ! i)) ` killed t v = (\<lambda>i. (i, rowids t ! i)) ` killed t v"
        using l by (auto simp: t1(3) killed_def nth_append intro!: image_cong)
      moreover have "rowids t1 ! length (rows t) = rid" unfolding t1(3) using l by (simp add: nth_append)
      ultimately show ?thesis using Cons.prems(4)
        unfolding track_exact_def st ki wt by simp
    qed
    have mo: "map_ok t1 (bm_insert rid (length (rows t)) m)"
      using Cons.prems(5) l unfolding map_ok_def t1(3) by (fastforce simp: nth_append split: if_splits)
    have "lockstep t1" using l t1 by (simp add: lockstep_def)
    from Cons.IH[OF this _ Cons.prems(3) ex mo step] Cons.prems(2) show ?case
      unfolding t1 by (auto simp: w)
  qed (auto simp: assms)
  then show "rows t' = rows t @ map snd ws" "rowids t' = rowids t @ map fst ws"
    "headers t' = headers t @ replicate (length ws) (replayed_header v)" "table_rel t' = table_rel t"
    "track_exact t' v" "map_ok t' m'" "\<forall>rid. bm_get m' rid = None \<longleftrightarrow> bm_get m rid = None \<and> rid \<notin> fst ` set ws" by auto
qed

definition slot_conflict :: "u64 \<Rightarrow> row_header \<Rightarrow> bool" where
  "slot_conflict v h = (xmax h \<noteq> XMAX_ALIVE \<and> xmax h \<noteq> v)"

text \<open>The position a replayed tombstone resolves to.\<close>

definition target :: "'r table \<Rightarrow> (row_id, nat) btmap \<Rightarrow> row_id \<Rightarrow> u32 \<Rightarrow> nat option" where
  "target t m rid hint = (case bm_get m rid of Some p \<Rightarrow> Some p | None \<Rightarrow> rowid_at t rid hint)"

lemma target_correct:
  assumes "map_ok t m"
  shows "target t m rid hint = Some i \<Longrightarrow> i < length (rowids t) \<and> rowids t ! i = rid"
    "target t m rid hint = None \<Longrightarrow> rid \<notin> set (rowids t)"
  using assms rowid_at_correct[of t rid hint] by (auto simp: target_def map_ok_def split: option.splits)

definition stamp :: "u64 \<Rightarrow> row_id set \<Rightarrow> row_id \<Rightarrow> row_header \<Rightarrow> row_header" where
  "stamp v R rid h = (if rid \<in> R \<and> xmax h = XMAX_ALIVE then h\<lparr>xmax := v\<rparr> else h)"

definition stamped_by :: "u64 \<Rightarrow> row_id set \<Rightarrow> 'r table \<Rightarrow> 'r table \<Rightarrow> bool" where
  "stamped_by v R t t' = (length (headers t') = length (headers t)
     \<and> (\<forall>i<length (headers t). headers t' ! i = stamp v R (rowids t ! i) (headers t ! i)))"

definition conflicting :: "'r table \<Rightarrow> u64 \<Rightarrow> row_id \<Rightarrow> bool" where
  "conflicting t v rid = (rid \<notin> set (rowids t) \<or> (\<exists>i<length (rowids t). rowids t ! i = rid \<and> slot_conflict v (headers t ! i)))"

lemma conflicting_at:
  assumes "distinct (rowids t)" "i < length (rowids t)" "rowids t ! i = rid"
  shows "conflicting t v rid = slot_conflict v (headers t ! i)"
  using assms nth_eq_iff_index_eq[OF assms(1)] unfolding conflicting_def by (metis nth_mem)

lemma replay_tombstones_effect:
  assumes "lockstep t" "distinct (rowids t)" "v \<noteq> 0" "track_exact t v" "map_ok t m"
    and "replay_tombstones t v ts m cs = (cs', t')"
  shows "rows t' = rows t \<and> rowids t' = rowids t \<and> table_rel t' = table_rel t \<and> stamped_by v (fst ` set ts) t t'
    \<and> track_exact t' v \<and> set cs' = set cs \<union> {rid \<in> fst ` set ts. conflicting t v rid}"
  using assms
proof (induction ts arbitrary: t cs)
  case (Cons w ts)
  obtain rid hint where w: "w = (rid, hint)" by fastforce
  have l: "length (headers t) = length (rows t)" "length (rowids t) = length (rows t)" using Cons.prems(1) by (auto simp: lockstep_def)
  show ?case
  proof (cases "target t m rid hint")
    case None
    then have st: "replay_tombstones t v ts m (cs @ [rid]) = (cs', t')" using Cons.prems(6) w by (simp add: target_def)
    have n: "rid \<notin> set (rowids t)" by (rule target_correct(2)[OF Cons.prems(5) None])
    have "stamped_by v (insert rid (fst ` set ts)) t t' = stamped_by v (fst ` set ts) t t'"
      using n l by (auto simp: stamped_by_def stamp_def in_set_conv_nth)
    moreover have "conflicting t v rid" using n by (simp add: conflicting_def)
    ultimately show ?thesis using Cons.IH[OF Cons.prems(1-5) st] w by auto
  next
    case (Some i)
    from target_correct(1)[OF Cons.prems(5) this] have i: "i < length (headers t)" "rowids t ! i = rid" using l by auto
    have here: "rowids t ! j = rid \<longleftrightarrow> j = i" if "j < length (headers t)" for j
      using that i l Cons.prems(2) by (auto simp: nth_eq_iff_index_eq)
    have co: "conflicting t v rid = slot_conflict v (headers t ! i)" using conflicting_at[OF Cons.prems(2), of i] i l by simp
    show ?thesis
    proof (cases "xmax (headers t ! i) = XMAX_ALIVE")
      case False
      have "replay_tombstones t v ts m (if slot_conflict v (headers t ! i) then cs @ [rid] else cs) = (cs', t')"
        using Cons.prems(6) w Some i(1) False by (simp add: target_def slot_conflict_def split: if_splits)
      note ih = Cons.IH[OF Cons.prems(1-5) this]
      have "stamped_by v (insert rid (fst ` set ts)) t t' = stamped_by v (fst ` set ts) t t'"
        using here False unfolding stamped_by_def stamp_def by auto
      then show ?thesis using ih w co by (auto split: if_splits)
    next
      case True
      define t1 where "t1 = t\<lparr>headers := (headers t)[i := (headers t ! i)\<lparr>xmax := v\<rparr>], dead_rows := dead_rows t + 1\<rparr>"
      define t2 where "t2 = track_tombstone t1 v i rid"
      have t2: "headers t2 = (headers t)[i := (headers t ! i)\<lparr>xmax := v\<rparr>]" "rowids t2 = rowids t" "rows t2 = rows t" "table_rel t2 = table_rel t"
        by (simp_all add: t2_def t1_def)
      have st: "replay_tombstones t2 v ts m cs = (cs', t')"
        using Cons.prems(6) w Some i(1) True by (simp add: target_def t2_def t1_def Let_def)
      have "track_exact t2 v"
        using tombstone_track[OF Cons.prems(1,3,4) i(1) True] i(2) by (simp add: t2_def t1_def)
      moreover have "lockstep t2" using Cons.prems(1) t2 by (simp add: lockstep_def)
      ultimately have ih: "rows t' = rows t \<and> rowids t' = rowids t \<and> table_rel t' = table_rel t \<and> stamped_by v (fst ` set ts) t2 t'
          \<and> track_exact t' v \<and> set cs' = set cs \<union> {rid \<in> fst ` set ts. conflicting t2 v rid}"
        using Cons.IH[OF _ _ Cons.prems(3) _ _ st] Cons.prems(2,5) t2 by (simp add: map_ok_def)
      have "stamped_by v (fst ` set (w # ts)) t t'"
        using ih here i True Cons.prems(3) unfolding stamped_by_def stamp_def t2 w
        by (auto simp: nth_list_update XMAX_ALIVE_def)
      moreover have "slot_conflict v (headers t2 ! j) = slot_conflict v (headers t ! j)" if "j < length (rowids t)" for j
        using that i(1) True unfolding t2 slot_conflict_def by (cases "j = i") auto
      then have "conflicting t2 v r = conflicting t v r" for r
        unfolding conflicting_def t2(2) by auto
      moreover have "\<not> conflicting t v rid" using True by (simp add: co slot_conflict_def)
      ultimately show ?thesis using ih w by auto
    qed
  qed
qed (auto simp: stamped_by_def stamp_def)


lemma tombstone_conflicts_iff:
  assumes "lockstep t" "distinct (rowids t)"
  shows "set (tombstone_conflicts t ts v) = {rid \<in> fst ` set ts. conflicting t v rid}"
proof -
  have l: "length (headers t) = length (rowids t)" using assms(1) by (simp add: lockstep_def)
  have "(case rowid_at t rid hint of
           Some i \<Rightarrow> (case slice_get (headers t) i of None \<Rightarrow> False | Some h \<Rightarrow> xmax h \<noteq> XMAX_ALIVE \<and> xmax h \<noteq> v)
         | None \<Rightarrow> True) = conflicting t v rid" for rid hint
  proof (cases "rowid_at t rid hint")
    case None
    then show ?thesis using rowid_at_correct(2)[of t rid hint] by (simp add: conflicting_def)
  next
    case (Some i)
    from rowid_at_correct(1)[OF this] have i: "i < length (rowids t)" "rowids t ! i = rid" by auto
    show ?thesis using Some i(1) l conflicting_at[OF assms(2) i] by (simp add: slice_get_def slot_conflict_def)
  qed
  then show ?thesis unfolding tombstone_conflicts_def by force
qed

lemma conflicting_append:
  assumes "lockstep t" "headers t1 = headers t @ replicate (length ins) (replayed_header v)" "rowids t1 = rowids t @ map fst ins"
    "distinct (rowids t1)" "v \<noteq> 0"
  shows "conflicting t1 v rid \<longleftrightarrow> rid \<notin> fst ` set ins \<and> conflicting t v rid"
proof (cases "rid \<in> fst ` set ins")
  case True
  then obtain j where j: "j < length ins" "fst (ins ! j) = rid" by (auto simp: in_set_conv_nth)
  have l: "length (headers t) = length (rowids t)" using assms(1) by (simp add: lockstep_def)
  have "conflicting t1 v rid = slot_conflict v (headers t1 ! (length (rowids t) + j))"
    by (rule conflicting_at[OF assms(4)]) (use j in \<open>simp_all add: assms(3) nth_append\<close>)
  also have "\<dots> = False" using j l by (simp add: assms(2) nth_append slot_conflict_def replayed_header_def header_frozen_def)
  finally show ?thesis using True by simp
next
  case False
  have l: "length (headers t) = length (rowids t)" using assms(1) by (simp add: lockstep_def)
  have *: "(\<exists>i<length (rowids t1). rowids t1 ! i = rid \<and> slot_conflict v (headers t1 ! i)) \<longleftrightarrow>
      (\<exists>i<length (rowids t). rowids t ! i = rid \<and> slot_conflict v (headers t ! i))" (is "?L = ?R")
  proof
    assume ?L
    then obtain i where i: "i < length (rowids t1)" "rowids t1 ! i = rid" "slot_conflict v (headers t1 ! i)" by blast
    have "i < length (rowids t)"
    proof (rule ccontr)
      assume "\<not> i < length (rowids t)"
      then have "rid \<in> set (map fst ins)" using i(1,2) by (auto simp: assms(3) nth_append)
      then show False using False by simp
    qed
    then show ?R using i l by (auto simp: assms(2,3) nth_append)
  next
    assume ?R
    then show ?L using l by (fastforce simp: assms(2,3) nth_append)
  qed
  show ?thesis unfolding conflicting_def * using False by (auto simp: assms(3))
qed

lemma replay_hidden:
  assumes "lockstep t" "hidden_version s v" "rows t' = rows t @ map snd ins" "length (headers t') = length (rows t')" "table_rel t' = table_rel t"
    "\<forall>i<length (headers t'). headers t' ! i = stamp v R (ids ! i) ((headers t @ replicate (length ins) (replayed_header v)) ! i)"
  shows "scan_visible t' s = scan_visible t s"
proof -
  have l: "length (headers t) = length (rows t)" using assms(1) by (simp add: lockstep_def)
  have v: "visible s (stamp v R r h) = visible s h" for r h
    using visible_hidden(2)[OF assms(2)] by (simp add: stamp_def)
  have "\<not> visible s (replayed_header v)"
    using assms(2) unfolding hidden_version_def visible_def replayed_header_def header_frozen_def XMAX_ALIVE_def by auto
  then have "header_visible t' i (headers t' ! i) s = (i < length (rows t) \<and> header_visible t i (headers t ! i) s)"
    if "i < length (rows t')" for i
    using that l assms(3-6) v by (auto simp: header_visible_def nth_append split: option.splits prod.splits)
  then have "shown t' s = filter (\<lambda>i. i < length (rows t) \<and> header_visible t i (headers t ! i) s) [0..<length (rows t')]"
    unfolding shown_def by (auto intro!: filter_cong)
  also have "\<dots> = shown t s"
    unfolding shown_def assms(3) by (simp add: upt_add_eq_append[of 0] filter_empty_conv) (auto intro!: filter_cong)
  finally have "shown t' s = shown t s" .
  moreover have "map (\<lambda>i. (i, rows t' ! i)) (shown t s) = map (\<lambda>i. (i, rows t ! i)) (shown t s)"
    unfolding shown_def assms(3) by (auto simp: nth_append)
  ultimately show ?thesis by (simp add: scan_visible_shown[OF assms(4)] scan_visible_shown[OF l])
qed

lemma replay_tx_effect:
  assumes "lockstep t" "distinct (rowids t @ map fst (ws_inserted ws))" "\<forall>(rid, row)\<in>set (ws_inserted ws). accepts row"
    and "v \<noteq> 0" "untouched t v" "replay_tx_writeset accepts t ws v = (conflicts, t')"
  shows "rows t' = rows t @ map snd (ws_inserted ws)" "rowids t' = rowids t @ map fst (ws_inserted ws)" "table_rel t' = table_rel t"
    "length (headers t') = length (rows t')" "track_exact t' v"
    "\<forall>i<length (headers t'). headers t' ! i = stamp v (fst ` set (ws_tombstoned ws)) (rowids t' ! i)
        ((headers t @ replicate (length (ws_inserted ws)) (replayed_header v)) ! i)"
    "set conflicts = {rid \<in> fst ` set (ws_tombstoned ws). rid \<notin> fst ` set (ws_inserted ws) \<and> conflicting t v rid}"
proof -
  obtain t1 m where ri: "replay_inserts accepts t v (ws_inserted ws) [] = (t1, m)" by fastforce
  have "map_ok t []" by (simp add: map_ok_def bm_get_def)
  note e = replay_inserts_effect[OF assms(1,3,4) untouched_track(3)[OF assms(5)] this ri]
  have l1: "lockstep t1" using assms(1) e(1-3) by (simp add: lockstep_def)
  have d1: "distinct (rowids t1)" using assms(2) e(2) by simp
  have "replay_tombstones t1 v (ws_tombstoned ws) m [] = (conflicts, t')"
    using assms(6) ri by (simp add: replay_tx_writeset_def)
  note f = replay_tombstones_effect[OF l1 d1 assms(4) e(5,6) this]
  show "rows t' = rows t @ map snd (ws_inserted ws)" "rowids t' = rowids t @ map fst (ws_inserted ws)" "table_rel t' = table_rel t"
    "track_exact t' v" "length (headers t') = length (rows t')"
    using f e l1 by (auto simp: stamped_by_def lockstep_def)
  show "\<forall>i<length (headers t'). headers t' ! i = stamp v (fst ` set (ws_tombstoned ws)) (rowids t' ! i)
        ((headers t @ replicate (length (ws_inserted ws)) (replayed_header v)) ! i)"
    using f e by (auto simp: stamped_by_def)
  show "set conflicts = {rid \<in> fst ` set (ws_tombstoned ws). rid \<notin> fst ` set (ws_inserted ws) \<and> conflicting t v rid}"
    using f conflicting_append[OF assms(1) e(3,2) d1 assms(4)] by simp
qed

lemma replay_stamped:
  assumes "lockstep t" "untouched t v" "length (headers t') = length (headers t) + n"
    and "\<forall>i<length (headers t'). headers t' ! i = stamp v R (ids ! i) ((headers t @ replicate n (replayed_header v)) ! i)"
  shows "stamped t' v = [length (headers t)..<length (headers t) + n]"
proof -
  have x: "xmin (stamp v R r h) = xmin h" for r h by (simp add: stamp_def)
  have "xmin (headers t' ! i) = v \<longleftrightarrow> length (headers t) \<le> i" if "i < length (headers t')" for i
    using that assms(2-4) by (auto simp: x nth_append replayed_header_def untouched_def list_all_length)
  then have "stamped t' v = filter (\<lambda>i. length (headers t) \<le> i) [0..<length (headers t')]"
    unfolding stamped_def by (intro filter_cong) simp_all
  then show ?thesis unfolding upt_filter[of "length (headers t)", symmetric] assms(3) .
qed

lemma replay_base_xmax:
  assumes "untouched t v" "v \<noteq> 0" "i < length (headers t) + n"
  shows "xmax ((headers t @ replicate n (replayed_header v)) ! i) \<noteq> v"
  using assms by (auto simp: nth_append replayed_header_def header_frozen_def XMAX_ALIVE_def untouched_def list_all_length)

lemma replay_killed:
  assumes "untouched t v" "v \<noteq> 0" "length (headers t') = length (headers t) + n"
    and "\<forall>i<length (headers t'). headers t' ! i = stamp v R (ids ! i) ((headers t @ replicate n (replayed_header v)) ! i)"
  shows "killed t' v = {i. i < length (headers t') \<and> ids ! i \<in> R \<and> xmax ((headers t @ replicate n (replayed_header v)) ! i) = XMAX_ALIVE}"
proof -
  have "xmax (headers t' ! i) = v \<longleftrightarrow> ids ! i \<in> R \<and> xmax ((headers t @ replicate n (replayed_header v)) ! i) = XMAX_ALIVE"
    if "i < length (headers t')" for i
    using that assms(3,4) replay_base_xmax[OF assms(1,2), of i n] by (simp add: stamp_def)
  then show ?thesis unfolding killed_def by blast
qed

lemma replay_alive:
  assumes "lockstep t" "untouched t v" "v \<noteq> 0" "distinct (rowids t @ map fst ins)"
  shows "(\<exists>i<length (headers t) + length ins. (rowids t @ map fst ins) ! i = rid
      \<and> xmax ((headers t @ replicate (length ins) (replayed_header v)) ! i) = XMAX_ALIVE)
    \<longleftrightarrow> \<not> (rid \<notin> fst ` set ins \<and> conflicting t v rid)"
proof -
  define t1 where "t1 = t\<lparr>headers := headers t @ replicate (length ins) (replayed_header v), rowids := rowids t @ map fst ins\<rparr>"
  have t1: "headers t1 = headers t @ replicate (length ins) (replayed_header v)" "rowids t1 = rowids t @ map fst ins" by (simp_all add: t1_def)
  have len: "length (rowids t1) = length (headers t) + length ins" using assms(1) by (simp add: t1 lockstep_def)
  have d: "distinct (rowids t1)" unfolding t1 by (rule assms(4))
  have x: "slot_conflict v (headers t1 ! i) \<longleftrightarrow> xmax (headers t1 ! i) \<noteq> XMAX_ALIVE" if "i < length (rowids t1)" for i
    using that replay_base_xmax[OF assms(2,3), of i "length ins"] len by (simp add: slot_conflict_def t1)
  have "(\<exists>i<length (rowids t1). rowids t1 ! i = rid \<and> xmax (headers t1 ! i) = XMAX_ALIVE) \<longleftrightarrow> \<not> conflicting t1 v rid"
  proof
    assume "\<exists>i<length (rowids t1). rowids t1 ! i = rid \<and> xmax (headers t1 ! i) = XMAX_ALIVE"
    then obtain i where "i < length (rowids t1)" "rowids t1 ! i = rid" "xmax (headers t1 ! i) = XMAX_ALIVE" by blast
    then show "\<not> conflicting t1 v rid" using conflicting_at[OF d] x by simp
  next
    assume "\<not> conflicting t1 v rid"
    then obtain i where "i < length (rowids t1)" "rowids t1 ! i = rid" "\<not> slot_conflict v (headers t1 ! i)"
      unfolding conflicting_def by (auto simp: in_set_conv_nth)
    then show "\<exists>i<length (rowids t1). rowids t1 ! i = rid \<and> xmax (headers t1 ! i) = XMAX_ALIVE" using x by blast
  qed
  also have "conflicting t1 v rid \<longleftrightarrow> rid \<notin> fst ` set ins \<and> conflicting t v rid"
    by (rule conflicting_append[OF assms(1) t1 d assms(3)])
  finally show ?thesis unfolding len unfolding t1 .
qed

text \<open>C9: Replaying a write-set onto a fresher copy of the table that holds none of the transaction's writes: its rows are appended
  under their original ids, the returned conflicts are exactly the ones the dry check of the tombstones of foreign rows
  announces, a reader that does not see the transaction sees no change, and extracting the write-set again, as the next
  rebase does, returns the same rows and every tombstone that was not a conflict.\<close>

theorem writeset_replay:
  assumes "lockstep t" "distinct (rowids t @ map fst (ws_inserted ws))" "\<forall>(rid, row)\<in>set (ws_inserted ws). accepts row"
    and "v \<noteq> 0" "untouched t v" "replay_tx_writeset accepts t ws v = (conflicts, t')"
  shows "rows t' = rows t @ map snd (ws_inserted ws) \<and> rowids t' = rowids t @ map fst (ws_inserted ws)
    \<and> set conflicts = set (tombstone_conflicts t (filter (\<lambda>(rid, hint). rid \<notin> fst ` set (ws_inserted ws)) (ws_tombstoned ws)) v)
    \<and> (hidden_version s v \<longrightarrow> scan_visible t' s = scan_visible t s)
    \<and> ws_inserted (extract_tx_writeset t' v) = ws_inserted ws
    \<and> fst ` set (ws_tombstoned (extract_tx_writeset t' v)) = fst ` set (ws_tombstoned ws) - set conflicts"
proof -
  let ?n = "length (ws_inserted ws)" and ?R = "fst ` set (ws_tombstoned ws)"
  let ?H = "headers t @ replicate ?n (replayed_header v)"
  note e = replay_tx_effect[OF assms]
  have l: "length (headers t) = length (rows t)" "length (rowids t) = length (rows t)" using assms(1) by (auto simp: lockstep_def)
  have l': "lockstep t'" "length (headers t') = length (headers t) + ?n" using e(1,2,4) l by (auto simp: lockstep_def)
  have dt: "distinct (rowids t)" using assms(2) by simp
  have c: "set conflicts = set (tombstone_conflicts t (filter (\<lambda>(rid, hint). rid \<notin> fst ` set (ws_inserted ws)) (ws_tombstoned ws)) v)"
    unfolding e(7) tombstone_conflicts_iff[OF assms(1) dt] by force
  have h: "hidden_version s v \<longrightarrow> scan_visible t' s = scan_visible t s"
    using replay_hidden[OF assms(1) _ e(1,4,3,6)] by blast
  have i: "ws_inserted (extract_tx_writeset t' v) = ws_inserted ws"
    unfolding extract_exact(1)[OF l'(1) e(5)] replay_stamped[OF assms(1,5) l'(2) e(6)]
    by (rule nth_equalityI) (use l in \<open>auto simp: e(1,2) nth_append\<close>)
  have "fst ` set (ws_tombstoned (extract_tx_writeset t' v)) = (!) (rowids t') ` killed t' v"
    unfolding extract_exact(2)[OF l'(1) e(5)] by (simp add: image_image)
  also have "\<dots> = {rid \<in> ?R. \<exists>i<length (headers t) + ?n. (rowids t @ map fst (ws_inserted ws)) ! i = rid \<and> xmax (?H ! i) = XMAX_ALIVE}"
    unfolding replay_killed[OF assms(5,4) l'(2) e(6)] unfolding l'(2) e(2) by auto
  also have "\<dots> = ?R - set conflicts"
    unfolding replay_alive[OF assms(1,5,4,2)] e(7) by blast
  finally show ?thesis using e c h i by blast
qed


theorem writeset_replay_witness:
  "let t = tx_run (\<lambda>_. True) 5 (table_new 1) [Ins ''a'', Ins ''b'']; ws = \<lparr>ws_inserted = [(7, ''c'')], ws_tombstoned = [(1, 0), (4, 3)]\<rparr> in
     \<exists>conflicts t'. replay_tx_writeset (\<lambda>_. True) t ws 9 = (conflicts, t') \<and> rowids t' = [1, 2, 7] \<and> set conflicts = {4}
       \<and> ws_inserted (extract_tx_writeset t' 9) = [(7, ''c'')] \<and> fst ` set (ws_tombstoned (extract_tx_writeset t' 9)) = {1}"
proof -
  let ?t = "tx_run (\<lambda>_. True) 5 (table_new 1) [Ins ''a'', Ins ''b'']"
  let ?ws = "\<lparr>ws_inserted = [(7, ''c'')], ws_tombstoned = [(1, 0), (4, 3)]\<rparr>"
  obtain conflicts t' where r: "replay_tx_writeset (\<lambda>_. True) ?t ?ws 9 = (conflicts, t')" by fastforce
  note ev = tx_run_def insert_with_xmin_def insert_keyed_def alloc_rowid_def Let_def XMIN_FROZEN_def table_new_def
    header_alive_def XMAX_ALIVE_def
  have t: "rows ?t = [''a'', ''b'']" "headers ?t = [header_alive 5, header_alive 5]" "rowids ?t = [1, 2]"
    by (simp_all add: ev)
  have p: "lockstep ?t" "distinct (rowids ?t @ map fst (ws_inserted ?ws))" "\<forall>(rid, row)\<in>set (ws_inserted ?ws). True" "(9::u64) \<noteq> 0" "untouched ?t 9"
    by (simp_all add: lockstep_def t untouched_def header_alive_def XMAX_ALIVE_def) (simp add: ev track_insert_def write_track_for_def)
  have "set (tombstone_conflicts ?t [(1, 0), (4, 3)] 9) = {4}"
    unfolding tombstone_conflicts_iff[OF p(1), of "[(1, 0), (4, 3)]" 9, unfolded t(3), simplified]
    by (auto simp: conflicting_def t slot_conflict_def header_alive_def less_Suc_eq)
  with writeset_replay[OF p r] show ?thesis using r by (auto simp: Let_def t)
qed

section \<open>Where the row store departs from its comments\<close>

lemma replay_one:
  "snd (replay_tx_writeset (\<lambda>_. True) t \<lparr>ws_inserted = [(rid, row)], ws_tombstoned = []\<rparr> v) =
    snd (replay_tombstones (fst (replay_inserts (\<lambda>_. True) t v [(rid, row)] [])) v [] [] [])"
  by (simp add: replay_tx_writeset_def split: prod.splits)

text \<open>A replayed row keeps the frozen flag the fresh insert gave it: the table reports itself visible to every snapshot
  although a snapshot the transaction is hidden from does not see the row.\<close>

theorem replayed_row_claims_frozen:
  assumes "hidden_version s v"
  shows "(let t' = snd (replay_tx_writeset (\<lambda>_. True) (table_new rel) \<lparr>ws_inserted = [(rid, row)], ws_tombstoned = []\<rparr> v) in
    rows t' = [row] \<and> is_all_visible t' \<and> scan_visible t' s = []
    \<and> list_all (\<lambda>h. visible_with_status s h (\<lambda>_. Committed) \<and> \<not> visible s h) (headers t'))"
proof -
  let ?t = "snd (replay_tx_writeset (\<lambda>_. True) (table_new rel) \<lparr>ws_inserted = [(rid, row)], ws_tombstoned = []\<rparr> v)"
  have t: "rows ?t = [row]" "headers ?t = [replayed_header v]"
    by (simp_all add: replay_one insert_keyed_def alloc_rowid_def table_new_def Let_def replayed_header_def)
  have v: "\<not> visible s (replayed_header v)"
    using assms unfolding hidden_version_def visible_def replayed_header_def header_frozen_def XMAX_ALIVE_def by auto
  then have "scan_visible ?t s = []" by (simp add: scan_visible_def t header_visible_def split: option.splits)
  moreover have "is_all_visible ?t"
    by (simp add: is_all_visible_def t is_all_visible_fast_def replayed_header_def header_frozen_def HEAP_XMIN_FROZEN_def)
  moreover have "visible_with_status s (replayed_header v) (\<lambda>_. Committed)"
    using assms by (auto simp: visible_with_status_def replayed_header_def header_frozen_def HEAP_XMIN_FROZEN_def XMAX_ALIVE_def hidden_version_def)
  ultimately show ?thesis using t v by (simp add: Let_def)
qed

theorem replayed_row_claims_frozen_witness:
  "is_all_visible (snd (replay_tx_writeset (\<lambda>_. True) (table_new 1) \<lparr>ws_inserted = [(7, ''c'')], ws_tombstoned = []\<rparr> 9))
   \<and> scan_visible (snd (replay_tx_writeset (\<lambda>_. True) (table_new 1) \<lparr>ws_inserted = [(7, ''c'')], ws_tombstoned = []\<rparr> 9)) (snapshot_new 5 [] 5 0) = []"
proof -
  have "hidden_version (snapshot_new 5 [] 5 0) 9" by (simp add: hidden_version_def snapshot_new_def XMIN_FROZEN_def)
  from replayed_row_claims_frozen[OF this, of 1 7 "''c''"] show ?thesis by (simp add: Let_def)
qed

text \<open>The row ids of a table are not ascending after a replay: the shadow reserved id 4 before the base appended id 5. A
  cursor that consumed the row with id 5 and lost its slot hint to a vacuum then resumes behind the replayed row and
  never returns it.\<close>

theorem resume_skips_replayed_row:
  "(let base = (table_new 1)\<lparr>rows := [''x''], headers := [header_alive 2], rowids := [5], next_rowid := 6\<rparr>;
        t' = snd (replay_tx_writeset (\<lambda>_. True) base \<lparr>ws_inserted = [(4, ''y'')], ws_tombstoned = []\<rparr> 9);
        s = snapshot_new 12 [] 12 0 in
     lockstep base \<and> ascending (rowids base) \<and> rowids t' = [5, 4] \<and> scan_visible t' s = [(0, ''x''), (1, ''y'')]
     \<and> scan_visible_from t' (resume_slot_after t' 5 3) s = [])"
proof -
  let ?b = "(table_new 1)\<lparr>rows := [''x''], headers := [header_alive 2], rowids := [5], next_rowid := 6\<rparr>"
  let ?t = "snd (replay_tx_writeset (\<lambda>_. True) ?b \<lparr>ws_inserted = [(4, ''y'')], ws_tombstoned = []\<rparr> 9)"
  let ?s = "snapshot_new 12 [] 12 0"
  have t: "rows ?t = [''x'', ''y'']" "headers ?t = [header_alive 2, replayed_header 9]" "rowids ?t = [5, 4]"
    by (simp_all add: replay_one insert_keyed_def alloc_rowid_def table_new_def Let_def replayed_header_def)
  have "resume_loop [5, 4] 5 0 2 = 2"
    by (subst resume_loop.simps, simp add: slice_get_def, subst resume_loop.simps, simp)
  then have r: "resume_slot_after ?t 5 3 = 2" by (simp add: resume_slot_after_def t slice_get_def numeral_2_eq_2)
  have "scan_visible ?t ?s = [(0, ''x''), (1, ''y'')]"
    unfolding scan_visible_def t
    by (simp add: header_visible_def snapshot_new_def visible_def header_alive_def replayed_header_def header_frozen_def XMAX_ALIVE_def)
  moreover have "scan_visible_from ?t 2 ?s = []" by (simp add: scan_visible_from_def t)
  ultimately show ?thesis using t(3) r by (simp add: Let_def lockstep_def)
qed

text \<open>Truncating a table that held deleted rows leaves the counter of tombstoned-but-present rows as it was, while
  compaction re-bases it on the surviving headers.\<close>

theorem truncate_keeps_dead_count:
  assumes "lockstep t" "delete_rows_no_index t [0..<length (rows t)] = (Suc n, t')"
  shows "dead_rows t' = 0 \<and> headers t' = [] \<and> headers (truncate_rows t) = [] \<and> dead_rows (truncate_rows t) = dead_rows t"
proof -
  have "survivors t [0..<length (rows t)] = []" by (simp add: survivors_def filter_empty_conv)
  with delete_effect(2,8)[OF assms] show ?thesis by (simp add: dead_count_def truncate_rows_def)
qed

theorem truncate_keeps_dead_count_witness:
  "let t = tx_run (\<lambda>_. True) 5 (table_new 1) [Ins ''a'', Del [0]] in
     dead_rows t = 1 \<and> dead_rows (truncate_rows t) = 1 \<and> headers (truncate_rows t) = []
     \<and> dead_rows (snd (delete_rows_no_index t [0..<length (rows t)])) = 0"
proof -
  let ?t = "tx_run (\<lambda>_. True) 5 (table_new 1) [Ins ''a'', Del [0]]"
  note ev = tx_run_def insert_with_xmin_def insert_keyed_def alloc_rowid_def Let_def XMIN_FROZEN_def table_new_def
    header_alive_def XMAX_ALIVE_def
  have t: "rows ?t = [''a'']" "lockstep ?t" "dead_rows ?t = 1" by (simp_all add: ev lockstep_def)
  obtain n t' where d: "delete_rows_no_index ?t [0..<length (rows ?t)] = (n, t')" by fastforce
  have "n = 1" using delete_effect(6)[OF t(2) d] by (simp add: survivors_def t(1))
  then show ?thesis using truncate_keeps_dead_count[OF t(2), of 0 t'] d t(3) by (simp add: Let_def)
qed

end
