(* ===== verification/Bignum_Limbs.thy ===== *)
theory Bignum_Limbs
  imports Prelude
begin

text \<open>
  Magnitudes of the arbitrary-precision decimals (\<open>bignum.rs\<close> of \<open>spg-storage\<close>): little-endian
  vectors of base \<open>10^9\<close> limbs with the schoolbook loops on them. A limb is a natural number; a cast
  to \<open>u32\<close> is \<open>as_u32\<close>, and the sums and products held in \<open>u64\<close> are shown to fit. The lemmas give
  the natural number each loop computes.
\<close>

section \<open>Representation\<close>

definition BASE :: nat where "BASE = 1000000000"
definition BASE_DIGITS :: nat where "BASE_DIGITS = 9"

type_synonym limbs = "nat list"

datatype ordering = Less | Equal | Greater

definition as_u32 :: "nat \<Rightarrow> nat" where "as_u32 x = x mod 2 ^ 32"

fun mag :: "limbs \<Rightarrow> nat" where
  "mag [] = 0"
| "mag (x # xs) = x + BASE * mag xs"

definition limbs_ok :: "limbs \<Rightarrow> bool" where "limbs_ok xs = (\<forall>x\<in>set xs. x < BASE)"

definition normal :: "limbs \<Rightarrow> bool" where "normal xs = (xs = [] \<or> last xs \<noteq> 0)"

text \<open>\<open>limbs.get(i).copied().unwrap_or(0)\<close>.\<close>

definition limb_at :: "limbs \<Rightarrow> nat \<Rightarrow> nat" where
  "limb_at xs i = (if i < length xs then xs ! i else 0)"

section \<open>Loops\<close>

text \<open>\<open>while limbs.last() == Some(&0) { limbs.pop(); }\<close>\<close>

fun pop_zeros :: "limbs \<Rightarrow> limbs" where
  "pop_zeros xs = (if xs \<noteq> [] \<and> last xs = 0 then pop_zeros (butlast xs) else xs)"

declare pop_zeros.simps [simp del]

text \<open>\<open>while carry != 0 { limbs.push(carry % BASE); carry /= BASE; }\<close>, and the loop of \<open>from_i128\<close>.\<close>

function push_carry :: "nat \<Rightarrow> limbs" where
  "push_carry c = (if c = 0 then [] else as_u32 (c mod BASE) # push_carry (c div BASE))"
  by pat_completeness auto
termination
  by (relation "measure id") (auto simp: BASE_def)

declare push_carry.simps [simp del]

fun cmp_from :: "limbs \<Rightarrow> limbs \<Rightarrow> nat \<Rightarrow> ordering" where
  "cmp_from a b 0 = Equal"
| "cmp_from a b (Suc i) = (if a ! i < b ! i then Less else if b ! i < a ! i then Greater else cmp_from a b i)"

definition cmp_mag :: "limbs \<Rightarrow> limbs \<Rightarrow> ordering" where
  "cmp_mag a b = (if length a < length b then Less else if length b < length a then Greater else cmp_from a b (length a))"

definition add_step :: "limbs \<Rightarrow> limbs \<Rightarrow> limbs \<times> nat \<Rightarrow> nat \<Rightarrow> limbs \<times> nat" where
  "add_step a b st i =
     (let (out, carry) = st; s = limb_at a i + limb_at b i + carry
      in (out @ [as_u32 (s mod BASE)], s div BASE))"

definition add_mag :: "limbs \<Rightarrow> limbs \<Rightarrow> limbs" where
  "add_mag a b =
     (let (out, carry) = foldl (add_step a b) ([], 0) [0..<max (length a) (length b)]
      in if carry \<noteq> 0 then out @ [as_u32 carry] else out)"

definition sub_step :: "limbs \<Rightarrow> limbs \<Rightarrow> limbs \<times> int \<Rightarrow> nat \<Rightarrow> limbs \<times> int" where
  "sub_step a b st i =
     (let (out, borrow) = st; d = int (a ! i) - int (limb_at b i) - borrow
      in if d < 0 then (out @ [as_u32 (nat (d + int BASE))], 1) else (out @ [as_u32 (nat d)], 0))"

definition sub_mag :: "limbs \<Rightarrow> limbs \<Rightarrow> limbs" where
  "sub_mag a b = pop_zeros (fst (foldl (sub_step a b) ([], 0) [0..<length a]))"

definition scale_step :: "nat \<Rightarrow> limbs \<times> nat \<Rightarrow> nat \<Rightarrow> limbs \<times> nat" where
  "scale_step factor st l =
     (let (out, carry) = st; v = l * factor + carry
      in (out @ [as_u32 (v mod BASE)], v div BASE))"

definition mul_pow10 :: "limbs \<Rightarrow> nat \<Rightarrow> limbs" where
  "mul_pow10 xs k =
     (if xs = [] then []
      else
        (let whole = k div BASE_DIGITS; rem = k mod BASE_DIGITS;
             cur = (if rem = 0 then xs
                    else
                      (let (out, carry) = foldl (scale_step (10 ^ rem)) ([], 0) xs
                       in if carry \<noteq> 0 then out @ [as_u32 carry] else out))
         in if 0 < whole then replicate whole 0 @ cur else cur))"

definition mul_scalar :: "limbs \<Rightarrow> nat \<Rightarrow> limbs" where
  "mul_scalar xs factor =
     (if factor = 0 \<or> xs = [] then []
      else (let (out, carry) = foldl (scale_step factor) ([], 0) xs in out @ push_carry carry))"

text \<open>The inner loop of \<open>mul\<close> for the limb at position \<open>i\<close>, and the final carry propagation.\<close>

definition mul_step :: "nat \<Rightarrow> limbs \<Rightarrow> nat \<Rightarrow> limbs \<times> nat \<Rightarrow> nat \<Rightarrow> limbs \<times> nat" where
  "mul_step a b i st j =
     (let (acc, carry) = st; cur = acc ! (i + j) + a * b ! j + carry
      in (acc[i + j := cur mod BASE], cur div BASE))"

definition mul_row :: "limbs \<Rightarrow> limbs \<Rightarrow> limbs \<Rightarrow> nat \<Rightarrow> limbs" where
  "mul_row a b acc i =
     (let (acc1, carry) = foldl (mul_step (a ! i) b i) (acc, 0) [0..<length b]
      in acc1[i + length b := acc1 ! (i + length b) + carry])"

definition narrow_step :: "limbs \<times> nat \<Rightarrow> nat \<Rightarrow> limbs \<times> nat" where
  "narrow_step st v = (let (out, carry) = st; cur = v + carry in (out @ [as_u32 (cur mod BASE)], cur div BASE))"

definition mul_limbs :: "limbs \<Rightarrow> limbs \<Rightarrow> limbs" where
  "mul_limbs a b =
     (let acc = foldl (mul_row a b) (replicate (length a + length b) 0) [0..<length a];
          (out, carry) = foldl narrow_step ([], 0) acc
      in out @ push_carry carry)"

lemma step_simps:
  "add_step a b (out, carry) i = (out @ [as_u32 ((limb_at a i + limb_at b i + carry) mod BASE)], (limb_at a i + limb_at b i + carry) div BASE)"
  "sub_step a b (out, borrow) i =
     (if int (a ! i) - int (limb_at b i) - borrow < 0
      then (out @ [as_u32 (nat (int (a ! i) - int (limb_at b i) - borrow + int BASE))], 1)
      else (out @ [as_u32 (nat (int (a ! i) - int (limb_at b i) - borrow))], 0))"
  "scale_step factor (out, carry) l = (out @ [as_u32 ((l * factor + carry) mod BASE)], (l * factor + carry) div BASE)"
  "mul_step x b i (acc, carry) j =
     (acc[i + j := (acc ! (i + j) + x * b ! j + carry) mod BASE], (acc ! (i + j) + x * b ! j + carry) div BASE)"
  "narrow_step (out, carry) v = (out @ [as_u32 ((v + carry) mod BASE)], (v + carry) div BASE)"
  by (simp_all add: add_step_def sub_step_def scale_step_def mul_step_def narrow_step_def Let_def)

section \<open>Values\<close>

lemma BASE_pos [simp]: "0 < BASE" "BASE \<noteq> 0" "Suc 0 < BASE" "\<not> BASE \<le> Suc 0" by (simp_all add: BASE_def)

lemma as_u32_mod [simp]: "as_u32 (x mod BASE) = x mod BASE"
proof -
  have "x mod BASE < BASE" by simp
  then show ?thesis unfolding as_u32_def BASE_def by simp
qed

lemma as_u32_small: "x < BASE \<Longrightarrow> as_u32 x = x"
  by (simp add: as_u32_def BASE_def)

lemma mag_append [simp]: "mag (xs @ ys) = mag xs + BASE ^ length xs * mag ys"
  by (induction xs) (auto simp: algebra_simps)

lemma mag_replicate_0 [simp]: "mag (replicate n 0) = 0"
  by (induction n) auto

lemma limbs_ok_simps [simp]:
  "limbs_ok []" "limbs_ok (x # xs) \<longleftrightarrow> x < BASE \<and> limbs_ok xs" "limbs_ok (xs @ ys) \<longleftrightarrow> limbs_ok xs \<and> limbs_ok ys"
  "limbs_ok (replicate n 0)"
  by (auto simp: limbs_ok_def)

lemma limbs_ok_nth: "limbs_ok xs \<Longrightarrow> i < length xs \<Longrightarrow> xs ! i < BASE"
  by (simp add: limbs_ok_def)

lemma normal_Nil [simp]: "normal []" by (simp add: normal_def)

lemma limb_at_less: "limbs_ok xs \<Longrightarrow> limb_at xs i < BASE"
  by (simp add: limb_at_def limbs_ok_nth)

lemma mag_less: "limbs_ok xs \<Longrightarrow> mag xs < BASE ^ length xs"
proof (induction xs)
  case (Cons x xs)
  then have "Suc (mag xs) * BASE \<le> BASE ^ length xs * BASE" by (intro mult_right_mono) auto
  with Cons show ?case by (simp add: algebra_simps)
qed simp

lemma mag_take_Suc: "mag (take (Suc n) xs) = mag (take n xs) + limb_at xs n * BASE ^ n"
  by (cases "n < length xs") (auto simp: limb_at_def take_Suc_conv_app_nth)

lemma mag_take_all [simp]: "length xs \<le> n \<Longrightarrow> mag (take n xs) = mag xs" by simp

lemma mag_update: "k < length xs \<Longrightarrow> mag (xs[k := v]) + xs ! k * BASE ^ k = mag xs + v * BASE ^ k"
proof (induction xs arbitrary: k)
  case (Cons x xs)
  then show ?case by (cases k) (auto simp: algebra_simps, metis Cons.IH add.commute add.left_commute distrib_left)
qed simp

lemma mag_pop_zeros [simp]: "mag (pop_zeros xs) = mag xs"
proof (induction xs rule: pop_zeros.induct)
  case (1 xs)
  show ?case
  proof (cases "xs \<noteq> [] \<and> last xs = 0")
    case True
    then have "mag (pop_zeros (butlast xs)) = mag (butlast xs)" using 1 by simp
    also have "\<dots> = mag (butlast xs @ [last xs])" using True by simp
    also have "butlast xs @ [last xs] = xs" using True append_butlast_last_id by blast
    finally show ?thesis using True by (simp add: pop_zeros.simps[of xs])
  qed (auto simp: pop_zeros.simps[of xs])
qed

lemma pop_zeros_subset: "set (pop_zeros xs) \<subseteq> set xs"
proof (induction xs rule: pop_zeros.induct)
  case (1 xs)
  show ?case using 1 in_set_butlastD[of _ xs] by (subst pop_zeros.simps) auto
qed

lemma pop_zeros_ok [simp]: "limbs_ok xs \<Longrightarrow> limbs_ok (pop_zeros xs)"
  using pop_zeros_subset[of xs] by (auto simp: limbs_ok_def)

lemma normal_pop_zeros [simp]: "normal (pop_zeros xs)"
  by (induction xs rule: pop_zeros.induct) (subst pop_zeros.simps, auto simp: normal_def)

lemma pop_zeros_normal: "normal xs \<Longrightarrow> pop_zeros xs = xs"
  by (subst pop_zeros.simps) (auto simp: normal_def)

lemma normal_mag_ge:
  assumes "normal xs" "xs \<noteq> []"
  shows "BASE ^ (length xs - 1) \<le> mag xs"
proof -
  have "mag xs = mag (butlast xs @ [last xs])" using assms(2) by simp
  also have "\<dots> = mag (butlast xs) + BASE ^ (length xs - 1) * last xs" unfolding mag_append by simp
  finally have "mag xs = mag (butlast xs) + BASE ^ (length xs - 1) * last xs" .
  moreover have "BASE ^ (length xs - 1) * 1 \<le> BASE ^ (length xs - 1) * last xs"
    using assms by (intro mult_left_mono) (auto simp: normal_def)
  ultimately show ?thesis by linarith
qed

lemma mag_eq_0_iff: "normal xs \<Longrightarrow> mag xs = 0 \<longleftrightarrow> xs = []"
  using order.strict_trans2[OF zero_less_power[OF BASE_pos(1)] normal_mag_ge[of xs]] by (cases "xs = []") auto


lemma mag_push_carry [simp]: "mag (push_carry c) = c"
  by (induction c rule: push_carry.induct) (subst push_carry.simps, simp)

lemma push_carry_ok [simp]: "limbs_ok (push_carry c)"
  by (induction c rule: push_carry.induct) (subst push_carry.simps, simp)

lemma push_carry_Nil [simp]: "push_carry c = [] \<longleftrightarrow> c = 0"
  by (subst push_carry.simps) simp

lemma normal_push_carry [simp]: "normal (push_carry c)"
proof (induction c rule: push_carry.induct)
  case (1 c)
  show ?case
  proof (cases "c = 0 \<or> c div BASE = 0")
    case True
    then show ?thesis using 1
      by (subst push_carry.simps) (auto simp: normal_def push_carry.simps[of 0] div_eq_0_iff)
  next
    case False
    then show ?thesis using 1 by (subst push_carry.simps) (auto simp: normal_def)
  qed
qed

lemma carry_step: "p * (s mod BASE) + s div BASE * (BASE * p) = s * p" for p s :: nat
proof -
  have "(s mod BASE + BASE * (s div BASE)) * p = s * p" by simp
  then show ?thesis by (simp only: algebra_simps)
qed

lemma add_loop:
  assumes "limbs_ok a" "limbs_ok b" "foldl (add_step a b) ([], 0) [0..<n] = (out, carry)"
  shows "length out = n \<and> limbs_ok out \<and> carry \<le> 1 \<and> mag out + carry * BASE ^ n = mag (take n a) + mag (take n b)"
  using assms(3)
proof (induction n arbitrary: out carry)
  case (Suc n)
  obtain out0 c0 where f: "foldl (add_step a b) ([], 0) [0..<n] = (out0, c0)" by fastforce
  note ih = Suc.IH[OF f]
  let ?s = "limb_at a n + limb_at b n + c0"
  have o: "out = out0 @ [?s mod BASE]" "carry = ?s div BASE"
    using Suc.prems f by (auto simp: step_simps)
  have "?s < 2 * BASE" using limb_at_less[OF assms(1), of n] limb_at_less[OF assms(2), of n] ih by linarith
  then have "?s div BASE < 2" by (simp add: div_less_iff_less_mult)
  moreover have "mag out + carry * BASE ^ Suc n = mag out0 + ?s * BASE ^ n"
    using ih carry_step[of "BASE ^ n" ?s] by (simp add: o)
  then have "mag out + carry * BASE ^ Suc n = (mag out0 + c0 * BASE ^ n) + (limb_at a n + limb_at b n) * BASE ^ n"
    by (simp add: algebra_simps)
  ultimately show ?case using ih unfolding mag_take_Suc by (simp add: o algebra_simps)
qed simp

lemma add_mag_value [simp]:
  assumes "limbs_ok a" "limbs_ok b"
  shows "mag (add_mag a b) = mag a + mag b"
proof -
  let ?n = "max (length a) (length b)"
  obtain out carry where f: "foldl (add_step a b) ([], 0) [0..<?n] = (out, carry)" by fastforce
  note l = add_loop[OF assms f]
  then have "as_u32 carry = carry" by (intro as_u32_small) (simp add: BASE_def)
  then show ?thesis using l by (auto simp: add_mag_def f Let_def algebra_simps)
qed

lemma add_mag_ok [simp]:
  assumes "limbs_ok a" "limbs_ok b"
  shows "limbs_ok (add_mag a b)"
proof -
  let ?n = "max (length a) (length b)"
  obtain out carry where f: "foldl (add_step a b) ([], 0) [0..<?n] = (out, carry)" by fastforce
  note l = add_loop[OF assms f]
  then show ?thesis by (simp add: add_mag_def f Let_def as_u32_def BASE_def)
qed

lemma sub_loop:
  assumes "limbs_ok a" "limbs_ok b" "n \<le> length a" "foldl (sub_step a b) ([], 0) [0..<n] = (out, borrow)"
  shows "length out = n \<and> limbs_ok out \<and> borrow \<in> {0, 1}
    \<and> int (mag out) - borrow * int BASE ^ n = int (mag (take n a)) - int (mag (take n b))"
  using assms(3,4)
proof (induction n arbitrary: out borrow)
  case (Suc n)
  obtain out0 b0 where f: "foldl (sub_step a b) ([], 0) [0..<n] = (out0, b0)" by fastforce
  from Suc.IH[OF _ f] Suc.prems(1) have ih: "length out0 = n" "limbs_ok out0" "b0 \<in> {0, 1}"
    "int (mag out0) - b0 * int BASE ^ n = int (mag (take n a)) - int (mag (take n b))" by auto
  let ?d = "int (a ! n) - int (limb_at b n) - b0"
  have an: "limb_at a n = a ! n" "a ! n < BASE" using Suc.prems(1) limbs_ok_nth[OF assms(1), of n] by (auto simp: limb_at_def)
  have bn: "limb_at b n < BASE" by (rule limb_at_less[OF assms(2)])
  obtain e where e: "out = out0 @ [e]" "e < BASE" "int e - borrow * int BASE = ?d" "borrow \<in> {0, 1}"
  proof (cases "?d < 0")
    case True
    have r: "0 \<le> ?d + int BASE" "nat (?d + int BASE) < BASE" using True bn ih(3) by auto
    then have "as_u32 (nat (?d + int BASE)) = nat (?d + int BASE)" by (intro as_u32_small)
    with True r that[of "nat (?d + int BASE)"] Suc.prems(2) f show ?thesis by (auto simp: step_simps)
  next
    case False
    have r: "nat ?d < BASE" using False an ih(3) by auto
    then have "as_u32 (nat ?d) = nat ?d" by (intro as_u32_small)
    with False r that[of "nat ?d"] Suc.prems(2) f show ?thesis by (auto simp: step_simps)
  qed
  have "int (mag out) - borrow * int BASE ^ Suc n = int (mag out0) + (int e - borrow * int BASE) * int BASE ^ n"
    using ih(1) by (simp add: e(1) algebra_simps)
  also have "\<dots> = int (mag (take (Suc n) a)) - int (mag (take (Suc n) b))"
    unfolding e(3) mag_take_Suc an(1) using ih(4) by (simp add: algebra_simps)
  finally show ?case using e ih by simp
qed simp

lemma sub_mag_value [simp]:
  assumes "limbs_ok a" "limbs_ok b" "length b \<le> length a" "mag b \<le> mag a"
  shows "mag (sub_mag a b) = mag a - mag b"
proof -
  obtain out borrow where f: "foldl (sub_step a b) ([], 0) [0..<length a] = (out, borrow)" by fastforce
  note l = sub_loop[OF assms(1,2) order_refl f]
  have "mag out < BASE ^ length a" using l mag_less[of out] by simp
  then have "int (mag out) < int BASE ^ length a" by (metis of_nat_less_iff of_nat_power)
  moreover have "int (mag out) - borrow * int BASE ^ length a = int (mag a) - int (mag b)" using l assms(3) by simp
  ultimately have "borrow \<noteq> 1" using assms(4) by (intro notI, hypsubst, unfold mult_1, linarith)
  then have "borrow = 0" using l by simp
  then have "int (mag out) = int (mag a) - int (mag b)" using l assms(3) by simp
  then show ?thesis using assms(4) by (simp add: sub_mag_def f)
qed

lemma sub_mag_ok [simp]: "limbs_ok a \<Longrightarrow> limbs_ok b \<Longrightarrow> limbs_ok (sub_mag a b)"
  using sub_loop[of a b "length a"] by (cases "foldl (sub_step a b) ([], 0) [0..<length a]") (simp add: sub_mag_def)

lemma normal_sub_mag [simp]: "normal (sub_mag a b)"
  by (simp add: sub_mag_def)


lemma scale_value:
  "foldl (scale_step f) (out0, c0) xs = (out, carry) \<Longrightarrow>
    length out = length out0 + length xs \<and> (limbs_ok out0 \<longrightarrow> limbs_ok out)
    \<and> mag out + carry * BASE ^ length out = mag out0 + (mag xs * f + c0) * BASE ^ length out0"
proof (induction xs arbitrary: out0 c0)
  case (Cons x xs)
  let ?v = "x * f + c0"
  have "foldl (scale_step f) (out0 @ [?v mod BASE], ?v div BASE) xs = (out, carry)"
    using Cons.prems by (simp add: step_simps)
  from Cons.IH[OF this] show ?case
    using carry_step[of "BASE ^ length out0" ?v] by (auto simp: algebra_simps)
qed auto

lemma scale_carry:
  "foldl (scale_step f) (out0, c0) xs = (out, carry) \<Longrightarrow> limbs_ok xs \<Longrightarrow> c0 < f \<Longrightarrow> carry < f"
proof (induction xs arbitrary: out0 c0)
  case (Cons x xs)
  let ?v = "x * f + c0"
  have f: "foldl (scale_step f) (out0 @ [?v mod BASE], ?v div BASE) xs = (out, carry)"
    using Cons.prems by (simp add: step_simps)
  have "Suc x * f \<le> BASE * f" using Cons.prems(2) by (intro mult_right_mono) auto
  then have "?v < f * BASE" using Cons.prems(3) by (simp add: algebra_simps)
  then have "?v div BASE < f" by (simp add: div_less_iff_less_mult)
  from Cons.IH[OF f _ this] Cons.prems(2) show ?case by simp
qed auto

lemma scale_normal:
  assumes "foldl (scale_step f) ([], 0) xs = (out, carry)" "normal xs" "xs \<noteq> []" "0 < f" "carry = 0"
  shows "normal out"
proof -
  obtain out1 c1 where f: "foldl (scale_step f) ([], 0) (butlast xs) = (out1, c1)" by fastforce
  let ?v = "last xs * f + c1"
  have "foldl (scale_step f) ([], 0) (butlast xs @ [last xs]) = (out, carry)" using assms(1,3) by simp
  then have o: "out = out1 @ [?v mod BASE]" "?v div BASE = 0" using f assms(5) by (auto simp: step_simps)
  then have "?v mod BASE = ?v" by (simp add: div_eq_0_iff)
  moreover have "0 < ?v" using assms(2-4) by (auto simp: normal_def)
  ultimately show ?thesis by (simp add: o normal_def)
qed

lemma mul_scalar_value [simp]: "mag (mul_scalar xs f) = mag xs * f"
proof (cases "f = 0 \<or> xs = []")
  case False
  obtain out carry where f: "foldl (scale_step f) ([], 0) xs = (out, carry)" by fastforce
  from scale_value[OF f] False show ?thesis by (auto simp: mul_scalar_def f algebra_simps)
qed (auto simp: mul_scalar_def)

lemma mul_scalar_ok [simp]: "limbs_ok (mul_scalar xs f)"
proof -
  obtain out carry where f: "foldl (scale_step f) ([], 0) xs = (out, carry)" by fastforce
  from scale_value[OF f] show ?thesis by (simp add: mul_scalar_def f)
qed

lemma normal_mul_scalar [simp]:
  assumes "normal xs"
  shows "normal (mul_scalar xs f)"
proof (cases "f = 0 \<or> xs = []")
  case False
  obtain out carry where f: "foldl (scale_step f) ([], 0) xs = (out, carry)" by fastforce
  have "carry = 0 \<Longrightarrow> normal out" using scale_normal[OF f assms] False by simp
  moreover have "carry \<noteq> 0 \<Longrightarrow> normal (out @ push_carry carry)"
    using normal_push_carry[of carry] by (auto simp: normal_def)
  ultimately show ?thesis using False by (cases "carry = 0") (auto simp: mul_scalar_def f push_carry.simps[of 0])
qed (auto simp: mul_scalar_def normal_def)

lemma mul_pow10_all:
  assumes "limbs_ok xs"
  shows "mag (mul_pow10 xs k) = mag xs * 10 ^ k \<and> limbs_ok (mul_pow10 xs k) \<and> (normal xs \<longrightarrow> normal (mul_pow10 xs k))
    \<and> (mul_pow10 xs k = [] \<longleftrightarrow> xs = [])"
proof (cases "xs = []")
  case False
  let ?rem = "k mod BASE_DIGITS" and ?whole = "k div BASE_DIGITS"
  obtain out carry where f: "foldl (scale_step (10 ^ ?rem)) ([], 0) xs = (out, carry)" by fastforce
  define cur where "cur = (if ?rem = 0 then xs else if carry \<noteq> 0 then out @ [as_u32 carry] else out)"
  have r: "?rem < 9" by (simp add: BASE_DIGITS_def)
  have "carry < 10 ^ ?rem" using scale_carry[OF f assms] by simp
  moreover have "(10::nat) ^ ?rem \<le> 10 ^ 9" using r by (intro power_increasing) auto
  ultimately have c: "carry < BASE" by (simp add: BASE_def)
  have cur: "mag cur = mag xs * 10 ^ ?rem \<and> limbs_ok cur \<and> (normal xs \<longrightarrow> normal cur) \<and> cur \<noteq> []"
  proof (cases "?rem = 0")
    case True
    then show ?thesis using assms False by (simp add: cur_def)
  next
    case rem: False
    have "normal cur" if "normal xs"
      using that scale_normal[OF f that False] rem as_u32_small[OF c] by (auto simp: cur_def normal_def)
    then show ?thesis using scale_value[OF f] rem as_u32_small[OF c] c False
      by (auto simp: cur_def algebra_simps)
  qed
  have eq: "mul_pow10 xs k = (if 0 < ?whole then replicate ?whole 0 @ cur else cur)"
    using False by (simp add: mul_pow10_def f cur_def Let_def)
  have "BASE ^ ?whole = 10 ^ (9 * ?whole)" by (simp add: BASE_def power_mult)
  then have "10 ^ k = BASE ^ ?whole * 10 ^ ?rem"
    unfolding power_add[symmetric] by (simp add: BASE_DIGITS_def power_add[symmetric])
  then show ?thesis unfolding eq using cur False by (auto simp: normal_def)
qed (simp add: mul_pow10_def)

lemmas mul_pow10_value [simp] = mul_pow10_all[THEN conjunct1]
lemmas mul_pow10_ok [simp] = mul_pow10_all[THEN conjunct2, THEN conjunct1]


section \<open>Multiplication\<close>

lemma mul_cur_bound:
  assumes "c < BASE" "x < BASE" "y < BASE" "z < BASE"
  shows "z + x * y + c < BASE * BASE"
proof -
  have "x * y \<le> (BASE - 1) * (BASE - 1)" using assms by (intro mult_mono) auto
  then show ?thesis using assms by (simp add: BASE_def)
qed

lemma mul_inner:
  assumes "foldl (mul_step x b i) (acc, 0) [0..<n] = (acc1, c)" "n \<le> length b" "i + length b < length acc"
    "x < BASE" "limbs_ok b" "limbs_ok acc"
  shows "length acc1 = length acc \<and> limbs_ok acc1 \<and> c < BASE \<and> (\<forall>k. i + n \<le> k \<longrightarrow> acc1 ! k = acc ! k)
    \<and> mag acc1 + c * BASE ^ (i + n) = mag acc + x * mag (take n b) * BASE ^ i"
  using assms(1,2)
proof (induction n arbitrary: acc1 c)
  case (Suc n)
  obtain acc0 c0 where f: "foldl (mul_step x b i) (acc, 0) [0..<n] = (acc0, c0)" by fastforce
  from Suc.IH[OF f] Suc.prems(2) have ih: "length acc0 = length acc" "limbs_ok acc0" "c0 < BASE"
    "\<forall>k. i + n \<le> k \<longrightarrow> acc0 ! k = acc ! k" "mag acc0 + c0 * BASE ^ (i + n) = mag acc + x * mag (take n b) * BASE ^ i" by auto
  let ?cur = "acc0 ! (i + n) + x * b ! n + c0" and ?P = "BASE ^ (i + n)"
  have a: "acc1 = acc0[i + n := ?cur mod BASE]" "c = ?cur div BASE" using Suc.prems(1) f by (auto simp: step_simps)
  have k: "i + n < length acc0" using Suc.prems(2) assms(3) ih(1) by simp
  have "?cur < BASE * BASE"
    using limbs_ok_nth[OF ih(2) k] limbs_ok_nth[OF assms(5), of n] assms(4) ih(3) Suc.prems(2) by (intro mul_cur_bound) auto
  then have c: "c < BASE" by (simp add: a div_less_iff_less_mult)
  have "mag acc1 + acc0 ! (i + n) * ?P + c * (BASE * ?P) = mag acc0 + (?P * (?cur mod BASE) + c * (BASE * ?P))"
    using mag_update[OF k, of "?cur mod BASE"] by (simp add: a algebra_simps)
  also have "\<dots> = mag acc0 + ?cur * ?P" by (simp only: a(2) carry_step)
  finally have "mag acc1 + c * (BASE * ?P) = (mag acc0 + c0 * ?P) + x * b ! n * ?P" by (simp add: algebra_simps)
  also have "\<dots> = mag acc + x * mag (take (Suc n) b) * BASE ^ i"
    unfolding ih(5) mag_take_Suc using Suc.prems(2) by (simp add: limb_at_def algebra_simps power_add)
  finally have "mag acc1 + c * BASE ^ (i + Suc n) = mag acc + x * mag (take (Suc n) b) * BASE ^ i" by simp
  moreover have "limbs_ok acc1" unfolding a using ih(2) by (auto simp: limbs_ok_def dest!: set_update_subset_insert[THEN subsetD])
  ultimately show ?case using ih c by (simp add: a)
qed (use assms in auto)

lemma mul_outer:
  assumes "limbs_ok a" "limbs_ok b" "n \<le> length a"
  shows "let acc = foldl (mul_row a b) (replicate (length a + length b) 0) [0..<n] in
    length acc = length a + length b \<and> limbs_ok acc \<and> (\<forall>k. n + length b \<le> k \<and> k < length acc \<longrightarrow> acc ! k = 0) \<and> mag acc = mag (take n a) * mag b"
  using assms(3)
proof (induction n)
  case (Suc n)
  define acc where "acc = foldl (mul_row a b) (replicate (length a + length b) 0) [0..<n]"
  have ih: "length acc = length a + length b" "limbs_ok acc" "\<forall>k. n + length b \<le> k \<and> k < length acc \<longrightarrow> acc ! k = 0"
    "mag acc = mag (take n a) * mag b" using Suc by (auto simp: Let_def acc_def)
  obtain acc1 c where f: "foldl (mul_step (a ! n) b n) (acc, 0) [0..<length b] = (acc1, c)" by fastforce
  have an: "a ! n < BASE" using assms(1) Suc.prems by (simp add: limbs_ok_nth)
  have k: "n + length b < length acc" using ih(1) Suc.prems by simp
  note m = mul_inner[OF f order_refl k an assms(2) ih(2)]
  have z: "acc1 ! (n + length b) = 0" using m ih(3) k by simp
  have eq: "foldl (mul_row a b) (replicate (length a + length b) 0) [0..<Suc n] = acc1[n + length b := c]"
    using z by (simp add: acc_def[symmetric] mul_row_def f)
  have "mag (acc1[n + length b := c]) = mag acc1 + c * BASE ^ (n + length b)"
    using mag_update[of "n + length b" acc1 c] m k z by simp
  then have "mag (acc1[n + length b := c]) = mag acc + a ! n * mag b * BASE ^ n" using m by simp
  then have "mag (acc1[n + length b := c]) = mag (take (Suc n) a) * mag b"
    unfolding ih(4) mag_take_Suc using Suc.prems by (simp add: limb_at_def algebra_simps)
  moreover have "limbs_ok (acc1[n + length b := c])"
    using m by (auto simp: limbs_ok_def dest!: set_update_subset_insert[THEN subsetD])
  ultimately show ?case using m ih unfolding eq Let_def by auto
qed simp

lemma narrow_value:
  "foldl narrow_step (out0, c0) xs = (out, carry) \<Longrightarrow>
    (limbs_ok out0 \<longrightarrow> limbs_ok out) \<and> mag out + carry * BASE ^ length out = mag out0 + (mag xs + c0) * BASE ^ length out0"
proof (induction xs arbitrary: out0 c0)
  case (Cons x xs)
  have "foldl narrow_step (out0 @ [(x + c0) mod BASE], (x + c0) div BASE) xs = (out, carry)"
    using Cons.prems by (simp add: step_simps)
  from Cons.IH[OF this] show ?case
    using carry_step[of "BASE ^ length out0" "x + c0"] by (auto simp: algebra_simps)
qed auto

lemma mul_limbs_value [simp]:
  assumes "limbs_ok a" "limbs_ok b"
  shows "mag (mul_limbs a b) = mag a * mag b"
proof -
  define acc where "acc = foldl (mul_row a b) (replicate (length a + length b) 0) [0..<length a]"
  obtain out carry where f: "foldl narrow_step ([], 0) acc = (out, carry)" by fastforce
  have "mag acc = mag a * mag b" using mul_outer[OF assms order_refl] by (simp add: Let_def acc_def)
  then show ?thesis using narrow_value[OF f] by (simp add: mul_limbs_def acc_def[symmetric] f algebra_simps)
qed

lemma mul_limbs_ok [simp]: "limbs_ok (mul_limbs a b)"
proof -
  obtain out carry where f: "foldl narrow_step ([], 0) (foldl (mul_row a b) (replicate (length a + length b) 0) [0..<length a]) = (out, carry)" by fastforce
  from narrow_value[OF f] show ?thesis by (simp add: mul_limbs_def f)
qed

section \<open>Comparison\<close>

lemma mag_take_split: "n < length xs \<Longrightarrow> mag xs = mag (take n xs) + BASE ^ n * (xs ! n) + BASE ^ Suc n * mag (drop (Suc n) xs)"
proof -
  assume n: "n < length xs"
  have "mag xs = mag (take n xs @ xs ! n # drop (Suc n) xs)" using id_take_nth_drop[OF n] by simp
  then show ?thesis using n by (simp add: algebra_simps min_def)
qed

lemma cmp_from_value:
  assumes "limbs_ok a" "limbs_ok b" "n \<le> length a" "n \<le> length b"
  shows "cmp_from a b n = (if mag (take n a) < mag (take n b) then Less else if mag (take n b) < mag (take n a) then Greater else Equal)"
  using assms(3,4)
proof (induction n)
  case (Suc n)
  have t: "mag (take n a) < BASE ^ n" "mag (take n b) < BASE ^ n"
    using mag_less[of "take n a"] mag_less[of "take n b"] assms(1,2) Suc.prems by (auto simp: limbs_ok_def min_def dest: in_set_takeD)
  have s: "mag (take (Suc n) a) = mag (take n a) + a ! n * BASE ^ n" "mag (take (Suc n) b) = mag (take n b) + b ! n * BASE ^ n"
    unfolding mag_take_Suc using Suc.prems by (auto simp: limb_at_def)
  have up: "x < y \<Longrightarrow> u < BASE ^ n \<Longrightarrow> u + x * BASE ^ n < v + y * BASE ^ n" for x y u v :: nat
  proof -
    assume "x < y" "u < BASE ^ n"
    then have "u + x * BASE ^ n < Suc x * BASE ^ n" by simp
    also have "\<dots> \<le> y * BASE ^ n" using \<open>x < y\<close> by (intro mult_right_mono) auto
    finally show ?thesis by linarith
  qed
  consider "a ! n < b ! n" | "b ! n < a ! n" | "a ! n = b ! n" by linarith
  then show ?case
  proof cases
    case 1 then show ?thesis using up[OF 1 t(1), of "mag (take n b)"] by (simp add: s)
  next
    case 2 then show ?thesis using up[OF 2 t(2), of "mag (take n a)"] by (simp add: s)
  next
    case 3 then show ?thesis using Suc by (simp add: s)
  qed
qed simp

definition cmp_nat :: "nat \<Rightarrow> nat \<Rightarrow> ordering" where
  "cmp_nat x y = (if x < y then Less else if y < x then Greater else Equal)"

lemma shorter_less:
  assumes "limbs_ok a" "normal b" "length a < length b"
  shows "mag a < mag b"
proof -
  have "mag a < BASE ^ length a" by (rule mag_less[OF assms(1)])
  also have "\<dots> \<le> BASE ^ (length b - 1)" using assms(3) by (intro power_increasing) (auto simp: Suc_le_eq)
  also have "\<dots> \<le> mag b" using assms(2,3) by (intro normal_mag_ge) auto
  finally show ?thesis .
qed

lemma cmp_mag_value [simp]:
  assumes "limbs_ok a" "limbs_ok b" "normal a" "normal b"
  shows "cmp_mag a b = cmp_nat (mag a) (mag b)"
proof -
  consider "length a < length b" | "length b < length a" | "length a = length b" by linarith
  then show ?thesis
  proof cases
    case 1 then show ?thesis using shorter_less[OF assms(1,4)] by (simp add: cmp_mag_def cmp_nat_def)
  next
    case 2 then show ?thesis using shorter_less[OF assms(2,3)] by (auto simp: cmp_mag_def cmp_nat_def)
  next
    case 3 then show ?thesis using cmp_from_value[OF assms(1,2), of "length a"] by (simp add: cmp_mag_def cmp_nat_def)
  qed
qed

section \<open>Accumulators\<close>

text \<open>
  C19: the schoolbook product never overflows its 64-bit accumulator: whatever row and column the two loops have reached,
  the sum of the accumulator cell, the product of two limbs and the carry is below the square of the base, hence below
  two to the power 64, and the cell the row's final carry is added to is still zero.
\<close>

theorem mul_accumulator_bound:
  assumes "limbs_ok a" "limbs_ok b" "i < length a" "j < length b"
  shows "(let acc = foldl (mul_row a b) (replicate (length a + length b) 0) [0..<i];
              (acc1, carry) = foldl (mul_step (a ! i) b i) (acc, 0) [0..<j]
          in acc1 ! (i + j) + a ! i * b ! j + carry < BASE * BASE \<and> BASE * BASE < 2 ^ 64 \<and> acc1 ! (i + length b) = 0)"
proof -
  define acc where "acc = foldl (mul_row a b) (replicate (length a + length b) 0) [0..<i]"
  obtain acc1 c where f: "foldl (mul_step (a ! i) b i) (acc, 0) [0..<j] = (acc1, c)" by fastforce
  have o: "length acc = length a + length b" "limbs_ok acc" "\<forall>k. i + length b \<le> k \<and> k < length acc \<longrightarrow> acc ! k = 0"
    using mul_outer[OF assms(1,2), of i] assms(3) by (auto simp: acc_def Let_def)
  have ai: "a ! i < BASE" "b ! j < BASE" using assms by (simp_all add: limbs_ok_nth)
  have m: "length acc1 = length acc" "limbs_ok acc1" "c < BASE" "\<forall>k. i + j \<le> k \<longrightarrow> acc1 ! k = acc ! k"
    using mul_inner[OF f _ _ ai(1) assms(2) o(2)] assms(3,4) o(1) by auto
  have "acc1 ! (i + j) < BASE" using m(1,2) o(1) assms(3,4) by (intro limbs_ok_nth) auto
  then have "acc1 ! (i + j) + a ! i * b ! j + c < BASE * BASE" using ai m(3) by (intro mul_cur_bound) auto
  moreover have "acc1 ! (i + length b) = 0" using m(4) o(1,3) assms(3,4) by auto
  ultimately show ?thesis by (simp add: acc_def[symmetric] f BASE_def)
qed

theorem mul_accumulator_bound_witness:
  "(let a = [999999999, 999999999]; acc = foldl (mul_row a a) (replicate (length a + length a) 0) [0..<1];
        (acc1, carry) = foldl (mul_step (a ! 1) a 1) (acc, 0) [0..<1]
    in acc1 ! (1 + 1) + a ! 1 * a ! 1 + carry < BASE * BASE)"
proof -
  have "limbs_ok [999999999, 999999999]" by (simp add: limbs_ok_def BASE_def)
  from mul_accumulator_bound[OF this this, of 1 1] show ?thesis by (auto simp: Let_def split: prod.splits)
qed

end
