(* ===== verification/Bignum_Div.thy ===== *)
theory Bignum_Div
  imports Bignum_Limbs
begin

text \<open>
  Division of magnitudes (\<open>div_rem_mag\<close> of \<open>bignum.rs\<close>): short division by one limb and Knuth's
  Algorithm D. A panic (a zero divisor indexes an empty vector) is \<open>None\<close>. The result is quotient
  and remainder of the natural numbers, in normal form.
\<close>

section \<open>The loops\<close>

definition resize :: "limbs \<Rightarrow> nat \<Rightarrow> limbs" where
  "resize xs n = take n xs @ replicate (n - length xs) 0"

definition short_step :: "limbs \<Rightarrow> nat \<Rightarrow> limbs \<times> nat \<Rightarrow> nat \<Rightarrow> limbs \<times> nat" where
  "short_step u d st i =
     (let (q, rem) = st; cur = rem * BASE + u ! i in (q[i := as_u32 (cur div d)], cur mod d))"

definition short_div :: "limbs \<Rightarrow> nat \<Rightarrow> limbs \<times> limbs" where
  "short_div u d =
     (let (q, rem) = foldl (short_step u d) (replicate (length u) 0, 0) (rev [0..<length u])
      in (pop_zeros q, if rem = 0 then [] else [as_u32 rem]))"

text \<open>D3: lower the estimate while the test on the second limbs fails, until the remainder leaves one limb.\<close>

function qhat_loop :: "nat \<Rightarrow> nat \<Rightarrow> nat \<Rightarrow> nat \<Rightarrow> nat \<Rightarrow> nat" where
  "qhat_loop v1 v2 u2 qhat rhat =
     (if BASE \<le> qhat \<or> rhat * BASE + u2 < qhat * v2 then
        (if BASE \<le> rhat + v1 then qhat - 1 else qhat_loop v1 v2 u2 (qhat - 1) (rhat + v1))
      else qhat)"
  by pat_completeness auto
termination
  by (relation "measure (\<lambda>(v1, v2, u2, qhat, rhat). qhat)") (auto simp: BASE_def intro!: diff_less intro: Nat.gr0I)

declare qhat_loop.simps [simp del]

text \<open>D4: multiply and subtract.\<close>

definition msub_step :: "nat \<Rightarrow> limbs \<Rightarrow> nat \<Rightarrow> limbs \<times> int \<times> nat \<Rightarrow> nat \<Rightarrow> limbs \<times> int \<times> nat" where
  "msub_step qhat vn j st i =
     (let (un, borrow, carry) = st;
          p = qhat * vn ! i + carry;
          t = int (un ! (j + i)) - int (p mod BASE) - borrow
      in if t < 0 then (un[j + i := as_u32 (nat (t + int BASE))], 1, p div BASE)
         else (un[j + i := as_u32 (nat t)], 0, p div BASE))"

text \<open>D6: add back.\<close>

definition addback_step :: "limbs \<Rightarrow> nat \<Rightarrow> limbs \<times> nat \<Rightarrow> nat \<Rightarrow> limbs \<times> nat" where
  "addback_step vn j st i =
     (let (un, c) = st; s = un ! (j + i) + vn ! i + c in (un[j + i := as_u32 (s mod BASE)], s div BASE))"

definition digit_step :: "limbs \<Rightarrow> limbs \<times> limbs \<Rightarrow> nat \<Rightarrow> limbs \<times> limbs" where
  "digit_step vn st j =
     (let (un, q) = st;
          n = length vn;
          num = un ! (j + n) * BASE + un ! (j + n - 1);
          qhat = qhat_loop (vn ! (n - 1)) (vn ! (n - 2)) (un ! (j + n - 2)) (num div vn ! (n - 1)) (num mod vn ! (n - 1));
          (un1, borrow, carry) = foldl (msub_step qhat vn j) (un, 0, 0) [0..<n];
          t = int (un1 ! (j + n)) - int carry - borrow
      in if t < 0 then
           (let (un2, c) = foldl (addback_step vn j) (un1, 0) [0..<n];
                t' = t + int BASE + int c
            in (un2[j + n := as_u32 (nat t')], q[j := as_u32 (qhat - 1)]))
         else (un1[j + n := as_u32 (nat t)], q[j := as_u32 qhat]))"

text \<open>\<open>div_rem_mag(&rem, &[d])\<close>, the recursive call that undoes the normalisation.\<close>

definition div_rem_one :: "limbs \<Rightarrow> nat \<Rightarrow> limbs \<times> limbs" where
  "div_rem_one u d = (if cmp_mag u [d] = Less then ([], pop_zeros u) else short_div u d)"

definition div_rem_mag :: "limbs \<Rightarrow> limbs \<Rightarrow> (limbs \<times> limbs) option" where
  "div_rem_mag u v =
     (if cmp_mag u v = Less then Some ([], pop_zeros u)
      else if length v = 1 then Some (short_div u (v ! 0))
      else if v = [] then None
      else
        (let n = length v;
             d = BASE div (v ! (n - 1) + 1);
             vn = resize (mul_scalar v d) n;
             m = length u - n;
             un = resize (mul_scalar u d) (length u + 1);
             (un', q) = foldl (digit_step vn) (un, replicate (m + 1) 0) (rev [0..<m + 1]);
             rem = fst (div_rem_one (pop_zeros (take n un')) d)
         in Some (pop_zeros q, rem)))"

lemma div_step_simps:
  "short_step u d (q, rem) i = (q[i := as_u32 ((rem * BASE + u ! i) div d)], (rem * BASE + u ! i) mod d)"
  "msub_step qhat vn j (un, borrow, carry) i =
     (if int (un ! (j + i)) - int ((qhat * vn ! i + carry) mod BASE) - borrow < 0
      then (un[j + i := as_u32 (nat (int (un ! (j + i)) - int ((qhat * vn ! i + carry) mod BASE) - borrow + int BASE))], 1, (qhat * vn ! i + carry) div BASE)
      else (un[j + i := as_u32 (nat (int (un ! (j + i)) - int ((qhat * vn ! i + carry) mod BASE) - borrow))], 0, (qhat * vn ! i + carry) div BASE))"
  "addback_step vn j (un, c) i = (un[j + i := as_u32 ((un ! (j + i) + vn ! i + c) mod BASE)], (un ! (j + i) + vn ! i + c) div BASE)"
  by (simp_all add: short_step_def msub_step_def addback_step_def Let_def)

section \<open>Short division\<close>

lemma short_loop:
  assumes "limbs_ok u" "0 < d" "d \<le> BASE" "n \<le> length u"
  shows "foldl (short_step u d) (q0, rem0) (rev [0..<n]) = (q, rem) \<Longrightarrow> rem0 < d \<Longrightarrow> length q0 = length u \<Longrightarrow> limbs_ok q0 \<Longrightarrow>
    (\<forall>i<n. q0 ! i = 0) \<Longrightarrow>
    length q = length u \<and> limbs_ok q \<and> rem < d \<and> mag q * d + rem = mag q0 * d + rem0 * BASE ^ n + mag (take n u)"
  using assms(4)
proof (induction n arbitrary: q0 rem0)
  case (Suc n)
  let ?cur = "rem0 * BASE + u ! n"
  have u: "u ! n < BASE" using Suc.prems(6) by (intro limbs_ok_nth[OF assms(1)]) simp
  have "?cur < Suc rem0 * BASE" using u by simp
  also have "\<dots> \<le> d * BASE" using Suc.prems(2) by (intro mult_right_mono) auto
  finally have q: "?cur div d < BASE" using assms(2) by (simp add: div_less_iff_less_mult mult.commute)
  let ?q = "q0[n := ?cur div d]"
  have f: "foldl (short_step u d) (?q, ?cur mod d) (rev [0..<n]) = (q, rem)"
    using Suc.prems(1) as_u32_small[OF q] by (simp add: div_step_simps)
  have ok: "limbs_ok ?q" using Suc.prems(4) q by (auto simp: limbs_ok_def dest!: set_update_subset_insert[THEN subsetD])
  have m: "mag ?q = mag q0 + ?cur div d * BASE ^ n"
    using mag_update[of n q0 "?cur div d"] Suc.prems(3,5,6) by simp
  have "length q = length u \<and> limbs_ok q \<and> rem < d \<and> mag q * d + rem = mag ?q * d + ?cur mod d * BASE ^ n + mag (take n u)"
    by (rule Suc.IH[OF f]) (use Suc.prems ok assms(2) in auto)
  moreover have "mag ?q * d + ?cur mod d * BASE ^ n = mag q0 * d + (?cur div d * d + ?cur mod d) * BASE ^ n"
    unfolding m by (simp only: algebra_simps)
  then have "mag ?q * d + ?cur mod d * BASE ^ n = mag q0 * d + ?cur * BASE ^ n" by simp
  moreover have "mag (take (Suc n) u) = mag (take n u) + u ! n * BASE ^ n"
    unfolding mag_take_Suc using Suc.prems(6) by (simp add: limb_at_def)
  ultimately show ?case by (simp add: algebra_simps)
qed auto

lemma short_div_value:
  assumes "limbs_ok u" "0 < d" "d \<le> BASE" "short_div u d = (q, r)"
  shows "mag q = mag u div d" "mag r = mag u mod d" "limbs_ok q" "limbs_ok r" "normal q" "normal r"
proof -
  obtain q' rem where f: "foldl (short_step u d) (replicate (length u) 0, 0) (rev [0..<length u]) = (q', rem)" by fastforce
  have l: "limbs_ok q'" "rem < d" "mag q' * d + rem = mag u"
    using short_loop[OF assms(1-3) order_refl f] assms(2) by auto
  then have v: "mag q' = mag u div d" "rem = mag u mod d" using assms(2) by (metis div_mult_self3 div_less add.right_neutral add.commute mult.commute less_nat_zero_code) (metis l(2,3) mod_less mod_mult_self3)
  have r: "as_u32 rem = rem" using l(2) assms(3) by (intro as_u32_small) simp
  have qr: "q = pop_zeros q'" "r = (if rem = 0 then [] else [rem])" using assms(4) f r by (auto simp: short_div_def)
  show "mag q = mag u div d" "mag r = mag u mod d" "limbs_ok q" "normal q" unfolding qr using l v by auto
  show "limbs_ok r" "normal r" unfolding qr using l(2) assms(3) by (auto simp: normal_def)
qed


section \<open>The quotient digit\<close>

lemma qhat_loop_bounds:
  "num = qhat * v1 + rhat \<Longrightarrow> num < v1 * BASE + BASE \<Longrightarrow> v2 < BASE \<Longrightarrow> 0 < v1 \<Longrightarrow> qs \<le> qhat \<Longrightarrow> qs < BASE \<Longrightarrow>
   (\<forall>h\<le>qs. h * (v1 * BASE + v2) \<le> num * BASE + u2) \<Longrightarrow>
   qs \<le> qhat_loop v1 v2 u2 qhat rhat \<and> qhat_loop v1 v2 u2 qhat rhat < BASE
    \<and> qhat_loop v1 v2 u2 qhat rhat * (v1 * BASE + v2) \<le> num * BASE + u2"
proof (induction v1 v2 u2 qhat rhat rule: qhat_loop.induct)
  case (1 v1 v2 u2 qhat rhat)
  have tst: "h * (v1 * BASE + v2) \<le> num * BASE + u2 \<longleftrightarrow> h * v2 \<le> r * BASE + u2" if "num = h * v1 + r" for h r
    using that by (simp add: algebra_simps)
  show ?case
  proof (cases "BASE \<le> qhat \<or> rhat * BASE + u2 < qhat * v2")
    case False
    then have "qhat_loop v1 v2 u2 qhat rhat = qhat" by (subst qhat_loop.simps) auto
    then show ?thesis using False 1(6) tst[OF 1(2)] by simp
  next
    case True
    have low: "qs < qhat"
    proof (cases "BASE \<le> qhat")
      case False
      then have "\<not> qhat \<le> qs" using True 1(8) tst[OF 1(2)] by auto
      then show ?thesis by simp
    qed (use 1(7) in simp)
    then obtain h where h: "qhat = Suc h" by (cases qhat) auto
    have num: "num = (qhat - 1) * v1 + (rhat + v1)" using 1(2) by (simp add: h)
    show ?thesis
    proof (cases "BASE \<le> rhat + v1")
      case brk: True
      then have eq: "qhat_loop v1 v2 u2 qhat rhat = qhat - 1" using True by (subst qhat_loop.simps) auto
      have hB: "qhat - 1 < BASE"
      proof (rule ccontr)
        assume "\<not> qhat - 1 < BASE"
        then have "BASE * v1 \<le> (qhat - 1) * v1" by (intro mult_right_mono) auto
        then have "v1 * BASE \<le> (qhat - 1) * v1" by (simp only: mult.commute)
        with num brk 1(3) show False by linarith
      qed
      have "(qhat - 1) * v2 \<le> BASE * BASE" using hB 1(4) by (intro mult_mono) auto
      also have "\<dots> \<le> (rhat + v1) * BASE" using brk by (intro mult_right_mono) auto
      finally have "(qhat - 1) * v2 \<le> (rhat + v1) * BASE + u2" by simp
      then show ?thesis unfolding eq using low hB tst[OF num] by simp
    next
      case False
      then have eq: "qhat_loop v1 v2 u2 qhat rhat = qhat_loop v1 v2 u2 (qhat - 1) (rhat + v1)"
        using True by (subst qhat_loop.simps) auto
      show ?thesis unfolding eq
        by (rule 1(1)[OF True False num 1(3-5)]) (use low 1(7,8) in auto)
    qed
  qed
qed

lemma top_digits:
  assumes "h * ((v1 * BASE + v2) * P + vl) \<le> (num * BASE + u2) * P + xl" "xl < P"
  shows "h * (v1 * BASE + v2) \<le> num * BASE + u2"
proof -
  have "h * (v1 * BASE + v2) * P \<le> h * ((v1 * BASE + v2) * P + vl)" by (simp add: algebra_simps)
  also have "\<dots> < Suc (num * BASE + u2) * P" using assms by simp
  finally show ?thesis by (metis less_Suc_eq_le mult_less_cancel2)
qed

lemma qhat_correct:
  assumes V: "V = (v1 * BASE + v2) * P + vl" "vl < P" "v2 < BASE" "0 < v1"
    and X: "X = (num * BASE + u2) * P + xl" "xl < P" "X < V * BASE" "num < v1 * BASE + BASE" "u2 < BASE"
  shows "let h = qhat_loop v1 v2 u2 (num div v1) (num mod v1) in X div V \<le> h \<and> h \<le> X div V + 1 \<and> h < BASE"
proof -
  let ?h = "qhat_loop v1 v2 u2 (num div v1) (num mod v1)" and ?qs = "X div V"
  have V0: "0 < V" using V X(2) by simp
  have qsV: "?qs * V \<le> X" by simp
  have qs: "h * (v1 * BASE + v2) \<le> num * BASE + u2" if "h \<le> ?qs" for h
  proof (rule top_digits[OF _ X(2)])
    have "h * V \<le> ?qs * V" using that by (intro mult_right_mono) auto
    then show "h * ((v1 * BASE + v2) * P + vl) \<le> (num * BASE + u2) * P + xl"
      using qsV unfolding V(1)[symmetric] X(1)[symmetric] by linarith
  qed
  have q0: "?qs \<le> num div v1"
  proof -
    have "?qs * v1 * BASE \<le> ?qs * (v1 * BASE + v2)" by (simp add: algebra_simps)
    also have "\<dots> < Suc num * BASE" using qs[of ?qs] X(5) by simp
    finally have "?qs * v1 < Suc num" by (metis mult_less_cancel2)
    then show ?thesis using V(4) by (simp add: less_eq_div_iff_mult_less_eq)
  qed
  have "?qs < BASE" using X(3) V0 by (simp add: div_less_iff_less_mult mult.commute)
  then have h: "?qs \<le> ?h" "?h < BASE" "?h * (v1 * BASE + v2) \<le> num * BASE + u2"
    using qhat_loop_bounds[of num "num div v1" v1 "num mod v1" v2 ?qs u2] X(4) V(3,4) q0 qs by auto
  have "?h * V = ?h * (v1 * BASE + v2) * P + ?h * vl" by (simp add: V(1) algebra_simps)
  also have "\<dots> \<le> (num * BASE + u2) * P + ?h * vl" using h(3) by simp
  also have "\<dots> \<le> X + ?h * vl" by (simp add: X(1))
  also have "?h * vl \<le> ?h * P" using V(2) by simp
  also have "?h * P < BASE * P" using h(2) V(2) by simp
  also have "BASE * P \<le> v1 * BASE * P" using V(4) by simp
  also have "\<dots> \<le> V" by (simp add: V(1) algebra_simps)
  finally have "?h * V < X + V" by simp
  then have "?h \<le> ?qs + 1"
  proof (cases ?h)
    case (Suc g)
    with \<open>?h * V < X + V\<close> have "g * V \<le> X" by simp
    then show ?thesis using V0 Suc by (simp add: less_eq_div_iff_mult_less_eq)
  qed simp
  then show ?thesis using h by (simp add: Let_def)
qed

section \<open>Multiply, subtract and add back\<close>

lemma limbs_ok_update: "limbs_ok xs \<Longrightarrow> x < BASE \<Longrightarrow> limbs_ok (xs[i := x])"
  by (auto simp: limbs_ok_def dest!: set_update_subset_insert[THEN subsetD])

lemma take_update_beyond: "n \<le> k \<Longrightarrow> take n (xs[k := x]) = take n xs"
  by (simp add: take_update_swap list_update_beyond)

text \<open>The window \<open>take N un\<close> is what later digits read; a limb above it may hold anything.\<close>

lemma msub_loop:
  assumes "foldl (msub_step qhat vn j) (un, 0, 0) [0..<k] = (un1, borrow, carry)" "k \<le> length vn" "j + length vn < length un"
    "limbs_ok vn" "limbs_ok (take (j + length vn) un)" "qhat < BASE"
  shows "length un1 = length un \<and> limbs_ok (take (j + length vn) un1) \<and> borrow \<in> {0, 1} \<and> carry < BASE
    \<and> (\<forall>i. j + k \<le> i \<longrightarrow> un1 ! i = un ! i)
    \<and> int (mag (take (j + length vn) un1)) - (borrow + int carry) * int BASE ^ (j + k)
       = int (mag (take (j + length vn) un)) - int (qhat * mag (take k vn)) * int BASE ^ j"
  using assms(1,2)
proof (induction k arbitrary: un1 borrow carry)
  case (Suc k)
  let ?N = "j + length vn"
  obtain w b0 c0 where f: "foldl (msub_step qhat vn j) (un, 0, 0) [0..<k] = (w, b0, c0)" by (metis prod_cases3)
  from Suc.IH[OF f] Suc.prems(2) have ih: "length w = length un" "limbs_ok (take ?N w)" "b0 \<in> {0, 1}" "c0 < BASE"
    "\<forall>i. j + k \<le> i \<longrightarrow> w ! i = un ! i"
    "int (mag (take ?N w)) - (b0 + int c0) * int BASE ^ (j + k) = int (mag (take ?N un)) - int (qhat * mag (take k vn)) * int BASE ^ j" by auto
  let ?p = "qhat * vn ! k + c0" and ?P = "int BASE ^ (j + k)"
  let ?t = "int (w ! (j + k)) - int (?p mod BASE) - b0"
  have jk: "j + k < ?N" "j + k < length w" using Suc.prems(2) assms(3) ih(1) by auto
  have wk: "w ! (j + k) < BASE" using limbs_ok_nth[OF ih(2), of "j + k"] jk by simp
  have "?p < BASE * BASE" using mul_cur_bound[of c0 qhat "vn ! k" 0] ih(4) assms(6) limbs_ok_nth[OF assms(4), of k] Suc.prems(2) by simp
  then have pc: "?p div BASE < BASE" by (simp add: div_less_iff_less_mult)
  have st: "(un1, borrow, carry) = msub_step qhat vn j (w, b0, c0) k" using Suc.prems(1) f by simp
  obtain e where e: "un1 = w[j + k := e]" "e < BASE" "int e - borrow * int BASE = ?t" "borrow \<in> {0, 1}" "carry = ?p div BASE"
  proof (cases "?t < 0")
    case True
    have "int (?p mod BASE) < int BASE" "b0 \<le> 1" using ih(3) by (auto simp del: of_nat_mod)
    then have r0: "0 \<le> ?t + int BASE" by linarith
    then have r: "0 \<le> ?t + int BASE" "nat (?t + int BASE) < BASE" using True by (simp_all only: nat_less_iff)
    with True st as_u32_small[OF r(2)] that[of "nat (?t + int BASE)"] show ?thesis by (simp add: div_step_simps)
  next
    case False
    have r: "nat ?t < BASE" using False wk ih(3) by auto
    with False st as_u32_small[OF r] that[of "nat ?t"] show ?thesis by (simp add: div_step_simps)
  qed
  have tk: "take ?N un1 = (take ?N w)[j + k := e]" using jk by (simp add: e(1) take_update_swap)
  have "int (mag (take ?N un1)) + int (w ! (j + k)) * ?P = int (mag (take ?N w)) + int e * ?P"
    using mag_update[of "j + k" "take ?N w" e] jk unfolding tk by (simp flip: of_nat_mult of_nat_add of_nat_power)
  then have "int (mag (take ?N un1)) - (borrow + int carry) * (int BASE * ?P)
      = int (mag (take ?N w)) + (int e - borrow * int BASE - int (w ! (j + k)) - int carry * int BASE) * ?P"
    by (simp add: algebra_simps)
  also have "int e - borrow * int BASE - int (w ! (j + k)) - int carry * int BASE = - b0 - int ?p"
  proof -
    have "int (?p mod BASE) + int carry * int BASE = int ?p" unfolding e(5) by (metis mod_div_mult_eq of_nat_add of_nat_mult)
    then show ?thesis unfolding e(3) by linarith
  qed
  also have "int (mag (take ?N w)) + (- b0 - int ?p) * ?P
      = (int (mag (take ?N w)) - (b0 + int c0) * ?P) - int (qhat * vn ! k) * ?P" by (simp add: algebra_simps)
  also have "\<dots> = int (mag (take ?N un)) - int (qhat * mag (take (Suc k) vn)) * int BASE ^ j"
    unfolding ih(6) mag_take_Suc using Suc.prems(2) by (simp add: limb_at_def algebra_simps power_add)
  finally have "int (mag (take ?N un1)) - (borrow + int carry) * int BASE ^ (j + Suc k)
      = int (mag (take ?N un)) - int (qhat * mag (take (Suc k) vn)) * int BASE ^ j" by simp
  moreover have "limbs_ok (take ?N un1)" unfolding tk using ih(2) e(2) by (rule limbs_ok_update)
  ultimately show ?case using ih e pc by auto
qed (use assms in auto)


lemma addback_loop:
  assumes "foldl (addback_step vn j) (un, 0) [0..<k] = (un1, c)" "k \<le> length vn" "j + length vn < length un"
    "limbs_ok vn" "limbs_ok (take (j + length vn) un)"
  shows "length un1 = length un \<and> limbs_ok (take (j + length vn) un1) \<and> c \<le> 1
    \<and> mag (take (j + length vn) un1) + c * BASE ^ (j + k) = mag (take (j + length vn) un) + mag (take k vn) * BASE ^ j"
  using assms(1,2)
proof (induction k arbitrary: un1 c)
  case (Suc k)
  let ?N = "j + length vn"
  obtain w c0 where f: "foldl (addback_step vn j) (un, 0) [0..<k] = (w, c0)" by fastforce
  from Suc.IH[OF f] Suc.prems(2) have ih: "length w = length un" "limbs_ok (take ?N w)" "c0 \<le> 1"
    "mag (take ?N w) + c0 * BASE ^ (j + k) = mag (take ?N un) + mag (take k vn) * BASE ^ j" by auto
  let ?s = "w ! (j + k) + vn ! k + c0" and ?P = "BASE ^ (j + k)"
  have jk: "j + k < ?N" "j + k < length w" using Suc.prems(2) assms(3) ih(1) by auto
  have o: "un1 = w[j + k := ?s mod BASE]" "c = ?s div BASE" using Suc.prems(1) f by (auto simp: div_step_simps)
  have "w ! (j + k) < BASE" using limbs_ok_nth[OF ih(2), of "j + k"] jk by simp
  then have "?s < 2 * BASE" using limbs_ok_nth[OF assms(4), of k] Suc.prems(2) ih(3) by simp
  then have c: "?s div BASE < 2" by (simp add: div_less_iff_less_mult)
  have tk: "take ?N un1 = (take ?N w)[j + k := ?s mod BASE]" by (simp add: o take_update_swap)
  have "mag (take ?N un1) + w ! (j + k) * ?P = mag (take ?N w) + (?s mod BASE) * ?P"
    using mag_update[of "j + k" "take ?N w" "?s mod BASE"] jk unfolding tk by simp
  then have "mag (take ?N un1) + c * (BASE * ?P) + w ! (j + k) * ?P = mag (take ?N w) + (?P * (?s mod BASE) + ?s div BASE * (BASE * ?P))"
    by (simp add: o(2) algebra_simps)
  also have "\<dots> = mag (take ?N w) + ?s * ?P" unfolding carry_step ..
  finally have "mag (take ?N un1) + c * BASE ^ (j + Suc k) = (mag (take ?N w) + c0 * ?P) + vn ! k * ?P" by (simp add: algebra_simps)
  also have "\<dots> = mag (take ?N un) + mag (take (Suc k) vn) * BASE ^ j"
    unfolding ih(4) mag_take_Suc using Suc.prems(2) by (simp add: limb_at_def algebra_simps power_add)
  finally have "mag (take ?N un1) + c * BASE ^ (j + Suc k) = mag (take ?N un) + mag (take (Suc k) vn) * BASE ^ j" .
  moreover have "limbs_ok (take ?N un1)" unfolding tk using ih(2) by (rule limbs_ok_update) simp
  ultimately show ?case using ih c by (simp add: o)
qed (use assms in auto)

section \<open>One digit\<close>

text \<open>A natural number below \<open>B\<close> plus a multiple of \<open>B\<close> determines both.\<close>

lemma split_unique:
  fixes t :: int
  assumes "int a + t * int B = x" "a < B"
  shows "t = x div int B" "int a = x mod int B"
proof -
  have x: "x = int a + int B * t" using assms(1) by (simp add: mult.commute)
  have a: "0 \<le> int a" "int a < int B" using assms(2) by auto
  show "t = x div int B" unfolding x using a by (simp add: div_pos_pos_trivial)
  show "int a = x mod int B" unfolding x using a by simp
qed

lemma mag_top2:
  assumes "length xs = n + 2"
  shows "mag xs = (xs ! (n + 1) * BASE + xs ! n) * BASE ^ n + mag (take n xs)"
proof -
  have "mag xs = mag (take (Suc (Suc n)) xs)" using assms by simp
  also have "\<dots> = (xs ! (n + 1) * BASE + xs ! n) * BASE ^ n + mag (take n xs)"
    unfolding mag_take_Suc using assms by (simp add: limb_at_def algebra_simps)
  finally show ?thesis .
qed

lemma mag_top3:
  assumes "length xs = n + 3"
  shows "mag xs = ((xs ! (n + 2) * BASE + xs ! (n + 1)) * BASE + xs ! n) * BASE ^ n + mag (take n xs)"
proof -
  have "mag xs = mag (take (Suc (Suc (Suc n))) xs)" using assms by simp
  also have "\<dots> = ((xs ! (n + 2) * BASE + xs ! (n + 1)) * BASE + xs ! n) * BASE ^ n + mag (take n xs)"
    unfolding mag_take_Suc using assms by (simp add: limb_at_def algebra_simps)
  finally show ?thesis .
qed

lemma limbs_ok_take: "limbs_ok xs \<Longrightarrow> limbs_ok (take n xs)"
  by (auto simp: limbs_ok_def dest: in_set_takeD)

lemma limbs_ok_drop: "limbs_ok xs \<Longrightarrow> limbs_ok (drop n xs)"
  by (auto simp: limbs_ok_def dest: in_set_dropD)

text \<open>The estimate for the window of one digit.\<close>

lemma window_qhat:
  assumes vn: "limbs_ok vn" "length vn = n + 2" "0 < vn ! (n + 1)"
    and w: "limbs_ok w" "length w = n + 3" "mag w < mag vn * BASE"
  defines "num \<equiv> w ! (n + 2) * BASE + w ! (n + 1)"
  shows "let h = qhat_loop (vn ! (n + 1)) (vn ! n) (w ! n) (num div vn ! (n + 1)) (num mod vn ! (n + 1))
    in mag w div mag vn \<le> h \<and> h \<le> mag w div mag vn + 1 \<and> h < BASE"
proof (rule qhat_correct)
  have vl: "mag (take n vn) < BASE ^ n" using mag_less[OF limbs_ok_take[OF vn(1)], of n] vn(2) by simp
  show "mag vn = (vn ! (n + 1) * BASE + vn ! n) * BASE ^ n + mag (take n vn)" by (rule mag_top2[OF vn(2)])
  show "mag (take n vn) < BASE ^ n" by (rule vl)
  show "vn ! n < BASE" using limbs_ok_nth[OF vn(1), of n] vn(2) by simp
  show "mag w = (num * BASE + w ! n) * BASE ^ n + mag (take n w)" unfolding num_def by (rule mag_top3[OF w(2)])
  show "mag (take n w) < BASE ^ n" using mag_less[OF limbs_ok_take[OF w(1)], of n] w(2) by simp
  show "w ! n < BASE" using limbs_ok_nth[OF w(1), of n] w(2) by simp
  have "num * BASE * BASE ^ n \<le> mag w" unfolding num_def mag_top3[OF w(2)] by (simp add: algebra_simps)
  also have "\<dots> < mag vn * BASE" by (rule w(3))
  also have "mag vn < (vn ! (n + 1) + 1) * BASE * BASE ^ n"
  proof -
    have "vn ! n < BASE" using limbs_ok_nth[OF vn(1), of n] vn(2) by simp
    then have "(vn ! (n + 1) * BASE + vn ! n + 1) * BASE ^ n \<le> (vn ! (n + 1) + 1) * BASE * BASE ^ n" by (intro mult_right_mono) auto
    then show ?thesis using vl unfolding mag_top2[OF vn(2)] by (simp add: algebra_simps)
  qed
  finally have "num * (BASE * BASE ^ n) < (vn ! (n + 1) + 1) * BASE * (BASE * BASE ^ n)" by (simp add: algebra_simps)
  then have "num < (vn ! (n + 1) + 1) * BASE" by (metis mult_less_cancel2)
  then show "num < vn ! (n + 1) * BASE + BASE" by simp
qed (use vn w in auto)

text \<open>The effect of one digit step once the estimate is the digit or one more.\<close>

lemma digit_step_qhat:
  assumes vn: "limbs_ok vn" and un: "limbs_ok (take (j + length vn + 1) un)" "j + length vn < length un"
    and M: "mag (take (j + length vn + 1) un) = (d * mag vn) * BASE ^ j + rest" "rest < mag vn * BASE ^ j"
    and h: "h = d \<or> h = d + 1" "h < BASE"
    and step: "digit_step vn (un, q) j =
      (let (un1, borrow, carry) = foldl (msub_step h vn j) (un, 0, 0) [0..<length vn];
          t = int (un1 ! (j + length vn)) - int carry - borrow
      in if t < 0 then
           (let (un2, c) = foldl (addback_step vn j) (un1, 0) [0..<length vn];
                t' = t + int BASE + int c
            in (un2[j + length vn := as_u32 (nat t')], q[j := as_u32 (h - 1)]))
         else (un1[j + length vn := as_u32 (nat t)], q[j := as_u32 h]))"
  shows "\<exists>un'. digit_step vn (un, q) j = (un', q[j := d]) \<and> length un' = length un
    \<and> limbs_ok (take (j + length vn) un') \<and> mag (take (j + length vn) un') = rest"
proof -
  let ?N = "j + length vn" and ?V = "mag vn"
  obtain un1 borrow carry where f: "foldl (msub_step h vn j) (un, 0, 0) [0..<length vn] = (un1, borrow, carry)" by (metis prod_cases3)
  have okN: "limbs_ok (take ?N un)" using limbs_ok_take[OF un(1), of ?N] by (simp add: min_def)
  note m = msub_loop[OF f order_refl un(2) vn okN h(2)]
  define t where "t = int (un1 ! ?N) - int carry - borrow"
  have M0: "mag (take (?N + 1) un) = mag (take ?N un) + un ! ?N * BASE ^ ?N"
    unfolding Suc_eq_plus1[symmetric] mag_take_Suc using un(2) by (simp add: limb_at_def)
  have "int (mag (take ?N un1)) + t * int BASE ^ ?N
      = (int (mag (take ?N un1)) - (borrow + int carry) * int BASE ^ ?N) + int (un ! ?N) * int BASE ^ ?N"
    using m by (simp add: t_def algebra_simps)
  also have "\<dots> = int (mag (take (?N + 1) un)) - int (h * ?V) * int BASE ^ j" using m unfolding M0 by simp
  finally have "int (mag (take ?N un1)) + t * int BASE ^ ?N = int ((d * ?V) * BASE ^ j + rest) - int (h * ?V) * int BASE ^ j" unfolding M(1) .
  then have eq: "int (mag (take ?N un1)) + t * int (BASE ^ ?N) = int rest + (int d - int h) * int (?V * BASE ^ j)"
    by (simp add: algebra_simps)
  have len1: "length (take ?N un1) = ?N" using m un(2) by simp
  have a: "mag (take ?N un1) < BASE ^ ?N" using mag_less[of "take ?N un1"] m len1 by simp
  have "?V < BASE ^ length vn" by (rule mag_less[OF vn])
  then have VB: "?V * BASE ^ j \<le> BASE ^ ?N" by (simp add: power_add mult.commute)
  have rB: "rest < BASE ^ ?N" using M(2) VB by linarith
  have dB: "d < BASE" using h by auto
  show ?thesis
  proof (cases "h = d")
    case True
    then have e: "int (mag (take ?N un1)) + t * int (BASE ^ ?N) = int rest" using eq by simp
    have "t = int rest div int (BASE ^ ?N)" by (rule split_unique(1)[OF e a])
    also have "\<dots> = 0" using rB by (intro div_pos_pos_trivial) auto
    finally have t0: "t = 0" .
    have "digit_step vn (un, q) j = (un1[?N := as_u32 (nat t)], q[j := as_u32 h])"
      unfolding step f using t0 unfolding t_def by simp
    moreover have "mag (take ?N un1) = rest" using e t0 by simp
    ultimately show ?thesis using m True as_u32_small[OF dB] by (simp add: take_update_beyond)
  next
    case False
    then have hd: "h = d + 1" using h(1) by simp
    then have e: "int (mag (take ?N un1)) + t * int (BASE ^ ?N) = int rest - int (?V * BASE ^ j)" using eq by simp
    have "t = (int rest - int (?V * BASE ^ j)) div int (BASE ^ ?N)" by (rule split_unique(1)[OF e a])
    also have "\<dots> = -1"
    proof (rule int_div_pos_eq[where r = "int rest - int (?V * BASE ^ j) + int (BASE ^ ?N)"])
      have i: "int rest < int (?V * BASE ^ j)" "int (?V * BASE ^ j) \<le> int (BASE ^ ?N)" using M(2) VB by (simp_all only: of_nat_less_iff of_nat_le_iff)
      show "0 \<le> int rest - int (?V * BASE ^ j) + int (BASE ^ ?N)" using i by linarith
      show "int rest - int (?V * BASE ^ j) + int (BASE ^ ?N) < int (BASE ^ ?N)" using i by linarith
    qed linarith
    finally have t1: "t = -1" .
    obtain un2 c where g: "foldl (addback_step vn j) (un1, 0) [0..<length vn] = (un2, c)" by fastforce
    have "?N < length un1" using m un(2) by simp
    note b = addback_loop[OF g order_refl this vn] m
    have len2: "length (take ?N un2) = ?N" using b un(2) by simp
    have a2: "mag (take ?N un2) < BASE ^ ?N" using mag_less[of "take ?N un2"] b len2 by simp
    have "mag (take ?N un2) + c * BASE ^ ?N = mag (take ?N un1) + ?V * BASE ^ j" using b by simp
    then have "int (mag (take ?N un2)) + int c * int (BASE ^ ?N) = int (mag (take ?N un1)) + int (?V * BASE ^ j)"
      by (simp only: of_nat_add[symmetric] of_nat_mult[symmetric])
    also have "\<dots> = int rest + int (BASE ^ ?N)" using e t1 by simp
    finally have e2: "int (mag (take ?N un2)) + int c * int (BASE ^ ?N) = int rest + int (BASE ^ ?N)" .
    have "int (mag (take ?N un2)) = (int rest + int (BASE ^ ?N)) mod int (BASE ^ ?N)" by (rule split_unique(2)[OF e2 a2])
    also have "\<dots> = int rest" using rB by (simp del: of_nat_power)
    finally have "mag (take ?N un2) = rest" by simp
    moreover have "digit_step vn (un, q) j = (un2[?N := as_u32 (nat (t + int BASE + int c))], q[j := as_u32 (h - 1)])"
      unfolding step f using t1 g unfolding t_def by simp
    ultimately show ?thesis using b hd as_u32_small[OF dB] by (simp add: take_update_beyond)
  qed
qed


lemma digit_step_correct:
  assumes vn: "limbs_ok vn" "length vn = n + 2" "0 < vn ! (n + 1)"
    and un: "limbs_ok (take (j + length vn + 1) un)" "j + length vn < length un" "mag (take (j + length vn + 1) un) < mag vn * BASE ^ (j + 1)"
  shows "\<exists>un' d. digit_step vn (un, q) j = (un', q[j := d]) \<and> d < BASE \<and> length un' = length un \<and> limbs_ok (take (j + length vn) un')
    \<and> mag (take (j + length vn + 1) un) = (d * mag vn) * BASE ^ j + mag (take (j + length vn) un')
    \<and> mag (take (j + length vn) un') < mag vn * BASE ^ j"
proof -
  let ?W = "take (j + length vn + 1) un" and ?V = "mag vn"
  let ?w = "drop j ?W"
  have wl: "length ?w = n + 3" using un(2) vn(2) by simp
  have split: "mag ?W = mag (take j un) + BASE ^ j * mag ?w"
  proof -
    have "mag ?W = mag (take j ?W @ ?w)" by (simp only: append_take_drop_id)
    also have "\<dots> = mag (take j ?W) + BASE ^ j * mag ?w" unfolding mag_append using un(2) by simp
    finally show ?thesis by (simp add: min_def)
  qed
  have low: "mag (take j un) < BASE ^ j" using mag_less[of "take j ?W"] limbs_ok_take[OF un(1), of j] un(2) by (simp add: min_def)
  have "BASE ^ j * mag ?w \<le> mag ?W" unfolding split by simp
  also have "\<dots> < ?V * BASE ^ (j + 1)" by (rule un(3))
  also have "\<dots> = BASE ^ j * (?V * BASE)" by (simp add: algebra_simps)
  finally have wV: "mag ?w < ?V * BASE" by (simp only: mult_less_cancel1)
  have V0: "0 < ?V"
  proof -
    have "0 < vn ! (n + 1) * BASE * BASE ^ n" using vn(3) by simp
    then show ?thesis unfolding mag_top2[OF vn(2)] by (simp add: algebra_simps)
  qed
  define d where "d = mag ?w div ?V"
  define rest where "rest = mag (take j un) + BASE ^ j * (mag ?w mod ?V)"
  have "mag ?w = d * ?V + mag ?w mod ?V" by (simp add: d_def)
  then have M: "mag ?W = (d * ?V) * BASE ^ j + rest" unfolding split rest_def by (metis add.left_commute distrib_left mult.commute)
  have "rest < BASE ^ j * Suc (mag ?w mod ?V)" using low by (simp add: rest_def)
  also have "\<dots> \<le> BASE ^ j * ?V" using V0 by (intro mult_left_mono) (auto simp: Suc_le_eq)
  finally have r: "rest < ?V * BASE ^ j" by (simp add: mult.commute)
  have dB: "d < BASE" using wV V0 by (simp add: d_def div_less_iff_less_mult mult.commute)
  define num where "num = ?w ! (n + 2) * BASE + ?w ! (n + 1)"
  define h where "h = qhat_loop (vn ! (n + 1)) (vn ! n) (?w ! n) (num div vn ! (n + 1)) (num mod vn ! (n + 1))"
  have h: "h = d \<or> h = d + 1" "h < BASE"
    using window_qhat[OF vn limbs_ok_drop[OF un(1)] wl wV] by (auto simp: Let_def h_def num_def d_def)
  have ix: "un ! (j + length vn) = ?w ! (n + 2)" "un ! (j + length vn - 1) = ?w ! (n + 1)" "un ! (j + length vn - 2) = ?w ! n"
    using un(2) vn(2) by (simp_all add: numeral_eq_Suc)
  have hq: "qhat_loop (vn ! (length vn - 1)) (vn ! (length vn - 2)) (un ! (j + length vn - 2))
      ((un ! (j + length vn) * BASE + un ! (j + length vn - 1)) div vn ! (length vn - 1))
      ((un ! (j + length vn) * BASE + un ! (j + length vn - 1)) mod vn ! (length vn - 1)) = h"
    unfolding ix h_def num_def using vn(2) by simp
  have "digit_step vn (un, q) j =
      (let (un1, borrow, carry) = foldl (msub_step h vn j) (un, 0, 0) [0..<length vn];
          t = int (un1 ! (j + length vn)) - int carry - borrow
      in if t < 0 then
           (let (un2, c) = foldl (addback_step vn j) (un1, 0) [0..<length vn];
                t' = t + int BASE + int c
            in (un2[j + length vn := as_u32 (nat t')], q[j := as_u32 (h - 1)]))
         else (un1[j + length vn := as_u32 (nat t)], q[j := as_u32 h]))"
    unfolding digit_step_def Let_def prod.case hq ..
  from digit_step_qhat[OF vn(1) un(1,2) M r h this] M r dB show ?thesis by auto
qed

lemma digits_loop:
  assumes vn: "limbs_ok vn" "length vn = n + 2" "0 < vn ! (n + 1)"
  shows "limbs_ok (take (k + length vn) un) \<Longrightarrow> k + length vn \<le> length un \<Longrightarrow> mag (take (k + length vn) un) < mag vn * BASE ^ k \<Longrightarrow>
    limbs_ok q \<Longrightarrow> k \<le> length q \<Longrightarrow> \<forall>i<k. q ! i = 0 \<Longrightarrow>
    \<exists>un' q'. foldl (digit_step vn) (un, q) (rev [0..<k]) = (un', q') \<and> limbs_ok q' \<and> length q' = length q
      \<and> limbs_ok (take (length vn) un') \<and> mag (take (length vn) un') < mag vn
      \<and> mag q * mag vn + mag (take (k + length vn) un) = mag q' * mag vn + mag (take (length vn) un')"
proof (induction k arbitrary: un q)
  case (Suc k)
  have j: "limbs_ok (take (k + length vn + 1) un)" "k + length vn < length un" "mag (take (k + length vn + 1) un) < mag vn * BASE ^ (k + 1)"
    using Suc.prems(1-3) by auto
  from digit_step_correct[OF vn j, of q] obtain un1 d where s: "digit_step vn (un, q) k = (un1, q[k := d])" "d < BASE" "length un1 = length un"
    "limbs_ok (take (k + length vn) un1)" "mag (take (k + length vn + 1) un) = (d * mag vn) * BASE ^ k + mag (take (k + length vn) un1)"
    "mag (take (k + length vn) un1) < mag vn * BASE ^ k" by blast
  have "\<exists>un' q'. foldl (digit_step vn) (un1, q[k := d]) (rev [0..<k]) = (un', q') \<and> limbs_ok q' \<and> length q' = length (q[k := d])
      \<and> limbs_ok (take (length vn) un') \<and> mag (take (length vn) un') < mag vn
      \<and> mag (q[k := d]) * mag vn + mag (take (k + length vn) un1) = mag q' * mag vn + mag (take (length vn) un')"
    by (rule Suc.IH) (use Suc.prems s limbs_ok_update in auto)
  moreover have "mag (q[k := d]) = mag q + d * BASE ^ k" using mag_update[of k q d] Suc.prems(5,6) by simp
  then have "mag q * mag vn + mag (take (k + length vn + 1) un) = mag (q[k := d]) * mag vn + mag (take (k + length vn) un1)"
    unfolding s(5) by (simp add: algebra_simps)
  ultimately show ?case using s(1) by simp
qed auto


section \<open>Algorithm D\<close>

lemma resize_mag:
  assumes "length xs \<le> n"
  shows "mag (resize xs n) = mag xs" "length (resize xs n) = n" "limbs_ok xs \<Longrightarrow> limbs_ok (resize xs n)"
  using assms by (simp_all add: resize_def)

lemma length_from_mag:
  assumes "normal xs" "mag xs < BASE ^ n"
  shows "length xs \<le> n"
proof (rule ccontr)
  assume "\<not> length xs \<le> n"
  then have "xs \<noteq> []" "n \<le> length xs - 1" by auto
  then have "BASE ^ n \<le> BASE ^ (length xs - 1)" by (intro power_increasing) (auto simp: Suc_le_eq)
  with normal_mag_ge[OF assms(1) \<open>xs \<noteq> []\<close>] assms(2) show False by linarith
qed

text \<open>The scaling factor keeps the divisor at its length.\<close>

lemma normalise_divisor:
  assumes "limbs_ok v" "normal v" "length v = n + 2"
  defines "d \<equiv> BASE div (v ! (n + 1) + 1)"
  defines "vn \<equiv> resize (mul_scalar v d) (n + 2)"
  shows "0 < d" "d \<le> BASE" "mag vn = mag v * d" "limbs_ok vn" "length vn = n + 2" "0 < vn ! (n + 1)"
proof -
  have top: "v ! (n + 1) < BASE" using limbs_ok_nth[OF assms(1), of "n + 1"] assms(3) by simp
  then show d0: "0 < d" by (simp add: d_def div_greater_zero_iff)
  show "d \<le> BASE" by (simp add: d_def div_le_dividend)
  have "v ! (n + 1) * BASE + v ! n + 1 \<le> (v ! (n + 1) + 1) * BASE"
    using limbs_ok_nth[OF assms(1), of n] assms(3) by simp
  then have "(v ! (n + 1) * BASE + v ! n + 1) * BASE ^ n \<le> (v ! (n + 1) + 1) * BASE * BASE ^ n" by (rule mult_right_mono) simp
  moreover have "mag (take n v) < BASE ^ n" using mag_less[OF limbs_ok_take[OF assms(1)], of n] assms(3) by simp
  ultimately have mv: "mag v < (v ! (n + 1) + 1) * BASE ^ (n + 1)" unfolding mag_top2[OF assms(3)] by (simp add: algebra_simps)
  have "mag v * d < (v ! (n + 1) + 1) * BASE ^ (n + 1) * d" using mv d0 by simp
  also have "\<dots> = ((v ! (n + 1) + 1) * d) * BASE ^ (n + 1)" by (simp add: algebra_simps)
  also have "\<dots> \<le> BASE * BASE ^ (n + 1)" unfolding d_def by (intro mult_right_mono times_div_less_eq_dividend) simp
  finally have lt: "mag v * d < BASE ^ (n + 2)" by (simp add: algebra_simps)
  have len: "length (mul_scalar v d) \<le> n + 2"
    by (rule length_from_mag) (use assms(2) lt in \<open>simp_all\<close>)
  show vn: "mag vn = mag v * d" "limbs_ok vn" "length vn = n + 2" unfolding vn_def using resize_mag[OF len] by simp_all
  have "v \<noteq> []" using assms(3) by auto
  then have "BASE ^ (n + 1) \<le> mag v" using normal_mag_ge[OF assms(2)] assms(3) by simp
  also have "\<dots> \<le> mag v * d" using d0 by simp
  finally have ge: "BASE ^ (n + 1) \<le> mag vn" by (simp add: vn)
  show "0 < vn ! (n + 1)"
  proof (rule ccontr)
    assume "\<not> 0 < vn ! (n + 1)"
    then have "mag vn = mag (take (n + 1) vn)" using mag_take_Suc[of "n + 1" vn] vn(3) by (simp add: limb_at_def)
    also have "\<dots> < BASE ^ (n + 1)" using mag_less[OF limbs_ok_take[OF vn(2)], of "n + 1"] vn(3) by simp
    finally show False using ge by simp
  qed
qed

lemma div_rem_one_value:
  assumes "limbs_ok u" "normal u" "0 < d" "d < BASE" "div_rem_one u d = (q, r)"
  shows "mag q = mag u div d" "limbs_ok q" "normal q"
proof -
  have c: "cmp_mag u [d] = cmp_nat (mag u) d" using assms(1-4) cmp_mag_value[of u "[d]"] by (simp add: normal_def)
  have "mag q = mag u div d \<and> limbs_ok q \<and> normal q"
  proof (cases "cmp_mag u [d] = Less")
    case True
    then have "mag u < d" using c by (auto simp: cmp_nat_def split: if_splits)
    then show ?thesis using True assms(5) by (auto simp: div_rem_one_def normal_def)
  next
    case False
    then have "short_div u d = (q, r)" using assms(5) by (simp add: div_rem_one_def)
    from short_div_value[OF assms(1,3) _ this] assms(4) show ?thesis by simp
  qed
  then show "mag q = mag u div d" "limbs_ok q" "normal q" by auto
qed


lemma knuth_d:
  assumes u: "limbs_ok u" "normal u" and v: "limbs_ok v" "normal v" "length v = n + 2" and len: "length v \<le> length u"
    and res: "div_rem_mag u v = Some (q, r)" "cmp_mag u v \<noteq> Less"
  shows "mag q = mag u div mag v \<and> mag r = mag u mod mag v \<and> limbs_ok q \<and> limbs_ok r \<and> normal q \<and> normal r"
proof -
  define d where "d = BASE div (v ! (n + 1) + 1)"
  define vn where "vn = resize (mul_scalar v d) (n + 2)"
  define m where "m = length u - (n + 2)"
  define un where "un = resize (mul_scalar u d) (length u + 1)"
  note nd = normalise_divisor[OF v, folded d_def vn_def]
  have mn: "length u = m + (n + 2)" using len v(3) by (simp add: m_def)
  have dB: "d < BASE"
  proof -
    have "0 < v ! (n + 1)" using v(2,3) last_conv_nth[of v] by (cases "v = []") (auto simp: normal_def)
    then show ?thesis unfolding d_def by (intro div_less_dividend) auto
  qed
  have "mag u * d < BASE ^ length u * BASE" using mag_less[OF u(1)] dB nd(1) by (intro mult_strict_mono) auto
  then have "length (mul_scalar u d) \<le> length u + 1" using u(2) by (intro length_from_mag) (simp_all add: mult.commute)
  note ru = resize_mag[OF this, folded un_def]
  have un: "mag un = mag u * d" "length un = length u + 1" "limbs_ok un" using ru by simp_all
  have "mag u < BASE ^ length u" by (rule mag_less[OF u(1)])
  also have "\<dots> = BASE ^ (m + 1) * BASE ^ (n + 1)" by (simp add: mn power_add[symmetric])
  also have "\<dots> \<le> BASE ^ (m + 1) * mag v" using normal_mag_ge[OF v(2)] v(3) by (cases "v = []") (auto intro!: mult_left_mono)
  finally have "mag u * d < (BASE ^ (m + 1) * mag v) * d" using nd(1) by simp
  then have start: "mag (take (m + 1 + length vn) un) < mag vn * BASE ^ (m + 1)"
    using un mn nd(5) unfolding nd(3) by (simp add: algebra_simps)
  have "\<exists>un' q'. foldl (digit_step vn) (un, replicate (m + 1) 0) (rev [0..<m + 1]) = (un', q') \<and> limbs_ok q' \<and> length q' = length (replicate (m + 1) (0::nat))
      \<and> limbs_ok (take (length vn) un') \<and> mag (take (length vn) un') < mag vn
      \<and> mag (replicate (m + 1) 0) * mag vn + mag (take (m + 1 + length vn) un) = mag q' * mag vn + mag (take (length vn) un')"
    by (rule digits_loop[OF nd(4-6)]) (use un mn nd(5) start limbs_ok_take in \<open>auto simp: nth_Cons split: nat.split\<close>)
  then obtain un' q' where l: "foldl (digit_step vn) (un, replicate (m + 1) 0) (rev [0..<m + 1]) = (un', q')" "limbs_ok q'"
    "limbs_ok (take (length vn) un')" "mag (take (length vn) un') < mag vn"
    "mag un = mag q' * mag vn + mag (take (length vn) un')" using un mn nd(5) by auto
  let ?R = "mag (take (length vn) un')"
  have V0: "0 < mag vn" using l(4) by simp
  have "mag q' = mag un div mag vn" "?R = mag un mod mag vn" unfolding l(5) using l(4) by simp_all
  then have qr: "mag q' = mag u div mag v" "?R = (mag u mod mag v) * d" unfolding un(1) nd(3) using nd(1) by (simp_all add: mult_mod_left)
  obtain r1 r2 where one: "div_rem_one (pop_zeros (take (n + 2) un')) d = (r1, r2)" by fastforce
  have "limbs_ok (pop_zeros (take (n + 2) un'))" using l(3) nd(5) by simp
  from div_rem_one_value[OF this normal_pop_zeros nd(1) dB one] have r1: "mag r1 = mag u mod mag v" "limbs_ok r1" "normal r1"
    using qr(2) nd(1,5) by auto
  have "div_rem_mag u v = (case foldl (digit_step vn) (un, replicate (m + 1) 0) (rev [0..<m + 1]) of
      (un', q) \<Rightarrow> Some (pop_zeros q, fst (div_rem_one (pop_zeros (take (n + 2) un')) d)))"
    unfolding vn_def un_def m_def d_def using res(2) v(3) by (auto simp: div_rem_mag_def Let_def)
  then have "div_rem_mag u v = Some (pop_zeros q', r1)" unfolding l(1) prod.case one fst_conv .
  then have "q = pop_zeros q'" "r = r1" using res(1) by auto
  then show ?thesis using qr r1 l(2) by simp
qed

text \<open>Division of normal magnitudes by a nonzero one never panics and is division of natural numbers.\<close>

lemma div_rem_mag_correct:
  assumes "limbs_ok u" "normal u" "limbs_ok v" "normal v" "v \<noteq> []"
  obtains q r where "div_rem_mag u v = Some (q, r)" "mag q = mag u div mag v" "mag r = mag u mod mag v"
    "limbs_ok q" "limbs_ok r" "normal q" "normal r"
proof -
  consider "cmp_mag u v = Less" | "cmp_mag u v \<noteq> Less" "length v = 1" | n where "cmp_mag u v \<noteq> Less" "length v = n + 2"
  proof -
    obtain k where "length v = Suc k" using assms(5) by (cases v) auto
    then show ?thesis using that by (cases k) auto
  qed
  then show ?thesis
  proof cases
    case 1
    then have "mag u < mag v" using cmp_mag_value[OF assms(1,3,2,4)] by (auto simp: cmp_nat_def split: if_splits)
    then show ?thesis using that[of "[]" "pop_zeros u"] 1 assms(1,2) by (simp add: div_rem_mag_def)
  next
    case 2
    then obtain d where v: "v = [d]" by (cases v) auto
    then have d: "0 < d" "d < BASE" using assms(3,4) by (auto simp: normal_def)
    obtain q r where s: "short_div u d = (q, r)" by fastforce
    from short_div_value[OF assms(1) d(1) _ s] d(2) that[of q r] 2 s v show ?thesis by (simp add: div_rem_mag_def)
  next
    case 3
    have len: "length v \<le> length u" using 3(1) by (auto simp: cmp_mag_def split: if_splits)
    obtain q r where r: "div_rem_mag u v = Some (q, r)"
    proof -
      have "div_rem_mag u v \<noteq> None" using 3 assms(5) by (simp add: div_rem_mag_def Let_def split: prod.split)
      then show ?thesis using that by (cases "div_rem_mag u v") auto
    qed
    from knuth_d[OF assms(1-4) 3(2) len r 3(1)] that[OF r] show ?thesis by simp
  qed
qed

end
