(* ===== verification/Bignum.thy ===== *)
theory Bignum
  imports Complex_Main Bignum_Div
begin

text \<open>
  Arbitrary-precision decimals (\<open>BigNumeric\<close> of \<open>bignum.rs\<close>, \<open>spg-storage\<close>): sign, magnitude and
  decimal scale, with comparison, addition, subtraction, multiplication, division, square root,
  rounding, and the bridge to 128-bit integers. A panic is \<open>None\<close>; where the source returns an
  \<open>Option\<close> the result is an option inside it. The exponential and logarithm are not modelled.
\<close>

record big_numeric =
  bn_neg :: bool
  bn_limbs :: limbs
  bn_scale :: u16

section \<open>Operations\<close>

definition is_zero :: "big_numeric \<Rightarrow> bool" where "is_zero b = (bn_limbs b = [])"

definition normalize :: "big_numeric \<Rightarrow> big_numeric" where
  "normalize b =
     (let b1 = b\<lparr>bn_limbs := pop_zeros (bn_limbs b)\<rparr>
      in if bn_limbs b1 = [] then b1\<lparr>bn_neg := False\<rparr> else b1)"

definition parts :: "big_numeric \<Rightarrow> bool \<times> limbs \<times> u16" where
  "parts b = (bn_neg b, bn_limbs b, bn_scale b)"

definition from_parts :: "bool \<Rightarrow> limbs \<Rightarrow> u16 \<Rightarrow> big_numeric" where
  "from_parts neg limbs scale = normalize \<lparr>bn_neg = neg, bn_limbs = limbs, bn_scale = scale\<rparr>"

text \<open>The argument is an \<open>i128\<close>; its unsigned magnitude is read off limb by limb.\<close>

definition from_i128 :: "int \<Rightarrow> u16 \<Rightarrow> big_numeric" where
  "from_i128 v scale = normalize \<lparr>bn_neg = v < 0, bn_limbs = push_carry (nat \<bar>v\<bar>), bn_scale = scale\<rparr>"

fun u128_of :: "limbs \<Rightarrow> nat \<Rightarrow> nat option" where
  "u128_of [] m = Some m"
| "u128_of (l # ls) m =
     (if 2 ^ 128 \<le> m * BASE then None
      else if 2 ^ 128 \<le> m * BASE + l then None
      else u128_of ls (m * BASE + l))"

definition to_i128 :: "big_numeric \<Rightarrow> int option" where
  "to_i128 b =
     (case u128_of (rev (bn_limbs b)) 0 of
        None \<Rightarrow> None
      | Some m \<Rightarrow>
          (if bn_neg b then (if m \<le> (2 ^ 127 - 1) + 1 then Some (- int m) else None)
           else if m < 2 ^ 127 then Some (int m) else None))"

definition align :: "big_numeric \<Rightarrow> big_numeric \<Rightarrow> limbs \<times> limbs \<times> u16" where
  "align a b =
     (if bn_scale a = bn_scale b then (bn_limbs a, bn_limbs b, bn_scale a)
      else if bn_scale a < bn_scale b then
        (mul_pow10 (bn_limbs a) (unat (bn_scale b - bn_scale a)), bn_limbs b, bn_scale b)
      else (bn_limbs a, mul_pow10 (bn_limbs b) (unat (bn_scale a - bn_scale b)), bn_scale a))"

fun reverse :: "ordering \<Rightarrow> ordering" where
  "reverse Less = Greater" | "reverse Equal = Equal" | "reverse Greater = Less"

definition bn_cmp :: "big_numeric \<Rightarrow> big_numeric \<Rightarrow> ordering" where
  "bn_cmp a b =
     (if is_zero a \<and> is_zero b then Equal
      else if \<not> bn_neg a \<and> bn_neg b then Greater
      else if bn_neg a \<and> \<not> bn_neg b then Less
      else
        (let (x, y, _) = align a b; m = cmp_mag x y
         in if bn_neg a then reverse m else m))"

definition bn_add :: "big_numeric \<Rightarrow> big_numeric \<Rightarrow> big_numeric" where
  "bn_add a b =
     (let (x, y, scale) = align a b
      in normalize
        (if bn_neg a = bn_neg b then \<lparr>bn_neg = bn_neg a, bn_limbs = add_mag x y, bn_scale = scale\<rparr>
         else if cmp_mag x y = Less then \<lparr>bn_neg = bn_neg b, bn_limbs = sub_mag y x, bn_scale = scale\<rparr>
         else \<lparr>bn_neg = bn_neg a, bn_limbs = sub_mag x y, bn_scale = scale\<rparr>))"

definition bn_negate :: "big_numeric \<Rightarrow> big_numeric" where
  "bn_negate b = (if \<not> is_zero b then b\<lparr>bn_neg := \<not> bn_neg b\<rparr> else b)"

definition bn_sub :: "big_numeric \<Rightarrow> big_numeric \<Rightarrow> big_numeric" where
  "bn_sub a b = bn_add a (bn_negate b)"

definition bn_mul :: "big_numeric \<Rightarrow> big_numeric \<Rightarrow> big_numeric" where
  "bn_mul a b =
     (if is_zero a \<or> is_zero b then \<lparr>bn_neg = False, bn_limbs = [], bn_scale = bn_scale a + bn_scale b\<rparr>
      else normalize \<lparr>bn_neg = (bn_neg a \<noteq> bn_neg b), bn_limbs = mul_limbs (bn_limbs a) (bn_limbs b),
                      bn_scale = bn_scale a + bn_scale b\<rparr>)"

definition div_rem_int :: "big_numeric \<Rightarrow> big_numeric \<Rightarrow> (big_numeric \<times> big_numeric) option" where
  "div_rem_int a b =
     (case div_rem_mag (bn_limbs a) (bn_limbs b) of
        None \<Rightarrow> None
      | Some (q, r) \<Rightarrow>
          Some (normalize \<lparr>bn_neg = (bn_neg a \<noteq> bn_neg b), bn_limbs = q, bn_scale = 0\<rparr>,
                normalize \<lparr>bn_neg = bn_neg a, bn_limbs = r, bn_scale = 0\<rparr>))"

definition bn_div :: "big_numeric \<Rightarrow> big_numeric \<Rightarrow> u16 \<Rightarrow> big_numeric option option" where
  "bn_div a b result_scale =
     (if is_zero b then Some None
      else
        (let want = int (unat result_scale) + 1 + int (unat (bn_scale b)) - int (unat (bn_scale a));
             num = (if 0 < want then mul_pow10 (bn_limbs a) (nat want) else bn_limbs a);
             den = (if want < 0 then mul_pow10 (bn_limbs b) (nat (- want)) else bn_limbs b)
         in case div_rem_mag num den of
              None \<Rightarrow> None
            | Some (q, _) \<Rightarrow>
                (let guard = (if q = [] then 0 else q ! 0 mod 10)
                 in case div_rem_mag q [10] of
                      None \<Rightarrow> None
                    | Some (q1, _) \<Rightarrow>
                        (let q2 = (if 5 \<le> guard then add_mag q1 [1] else q1)
                         in Some (Some (normalize \<lparr>bn_neg = (bn_neg a \<noteq> bn_neg b), bn_limbs = q2, bn_scale = result_scale\<rparr>))))))"

text \<open>The Newton loop and the loop that removes a residual overshoot; not returning is \<open>None\<close>.\<close>

partial_function (option) newton_loop :: "big_numeric \<Rightarrow> big_numeric \<Rightarrow> big_numeric option" where
  "newton_loop n x =
     (case div_rem_int n x of
        None \<Rightarrow> None
      | Some (dv, _) \<Rightarrow>
          (case div_rem_int (bn_add x dv) (from_i128 2 0) of
             None \<Rightarrow> None
           | Some (nxt, _) \<Rightarrow> (if bn_cmp nxt x \<noteq> Less then Some x else newton_loop n nxt)))"

partial_function (option) descend_loop :: "big_numeric \<Rightarrow> big_numeric \<Rightarrow> big_numeric option" where
  "descend_loop n x = (if bn_cmp (bn_mul x x) n = Greater then descend_loop n (bn_sub x (from_i128 1 0)) else Some x)"

text \<open>The number of decimal digits of a limb, \<open>top.to_string().len()\<close>.\<close>

function digit_count :: "nat \<Rightarrow> nat" where
  "digit_count x = (if x < 10 then 1 else Suc (digit_count (x div 10)))"
  by pat_completeness auto
termination
  by (relation "measure id") auto

declare digit_count.simps [simp del]

definition isqrt_mag :: "big_numeric \<Rightarrow> big_numeric option" where
  "isqrt_mag b =
     (let n = \<lparr>bn_neg = False, bn_limbs = bn_limbs b, bn_scale = 0\<rparr>
      in if is_zero n then Some \<lparr>bn_neg = False, bn_limbs = [], bn_scale = 0\<rparr>
         else
           (let ndigits = (length (bn_limbs n) - 1) * BASE_DIGITS + digit_count (last (bn_limbs n));
                half = (ndigits + 1) div 2;
                x = \<lparr>bn_neg = False, bn_limbs = mul_pow10 (bn_limbs (from_i128 1 0)) half, bn_scale = 0\<rparr>
            in case newton_loop n x of None \<Rightarrow> None | Some x1 \<Rightarrow> descend_loop n x1))"

definition bn_sqrt :: "big_numeric \<Rightarrow> u16 \<Rightarrow> big_numeric option option" where
  "bn_sqrt b result_scale =
     (if bn_neg b \<and> \<not> is_zero b then Some None
      else if is_zero b then Some (Some \<lparr>bn_neg = False, bn_limbs = [], bn_scale = result_scale\<rparr>)
      else
        (let shift = 2 * (int (unat result_scale) + 1) - int (unat (bn_scale b))
         in case (if 0 \<le> shift then Some (mul_pow10 (bn_limbs b) (nat shift))
                  else map_option fst (div_rem_mag (bn_limbs b) (mul_pow10 [1] (nat (- shift))))) of
              None \<Rightarrow> None
            | Some rl \<Rightarrow>
                (case isqrt_mag \<lparr>bn_neg = False, bn_limbs = rl, bn_scale = 0\<rparr> of
                   None \<Rightarrow> None
                 | Some rt \<Rightarrow>
                     (case div_rem_int rt (from_i128 10 0) of
                        None \<Rightarrow> None
                      | Some (q, r) \<Rightarrow>
                          (let rounded = (if bn_cmp r (from_i128 5 0) \<noteq> Less then bn_add q (from_i128 1 0) else q)
                           in Some (Some (normalize (rounded\<lparr>bn_scale := result_scale\<rparr>))))))))"

definition round_to :: "big_numeric \<Rightarrow> u16 \<Rightarrow> big_numeric option" where
  "round_to b target =
     (if bn_scale b = target then Some b
      else if bn_scale b < target then
        Some (normalize \<lparr>bn_neg = bn_neg b, bn_limbs = mul_pow10 (bn_limbs b) (unat (target - bn_scale b)), bn_scale = target\<rparr>)
      else
        (let divisor = mul_pow10 [1] (unat (bn_scale b - target))
         in case div_rem_mag (bn_limbs b) divisor of
              None \<Rightarrow> None
            | Some (q, r) \<Rightarrow>
                (let q1 = (if cmp_mag (mul_scalar r 2) divisor \<noteq> Less then add_mag q [1] else q)
                 in Some (normalize \<lparr>bn_neg = bn_neg b, bn_limbs = q1, bn_scale = target\<rparr>))))"

section \<open>Values\<close>

definition bn_int :: "big_numeric \<Rightarrow> int" where
  "bn_int b = (if bn_neg b then - int (mag (bn_limbs b)) else int (mag (bn_limbs b)))"

definition bn_val :: "big_numeric \<Rightarrow> rat" where
  "bn_val b = of_int (bn_int b) / 10 ^ unat (bn_scale b)"

definition bn_inv :: "big_numeric \<Rightarrow> bool" where
  "bn_inv b = (limbs_ok (bn_limbs b) \<and> normal (bn_limbs b) \<and> (bn_limbs b = [] \<longrightarrow> \<not> bn_neg b))"

lemma normalize_all:
  assumes "limbs_ok (bn_limbs b)"
  shows "bn_inv (normalize b) \<and> bn_int (normalize b) = bn_int b \<and> bn_scale (normalize b) = bn_scale b
    \<and> mag (bn_limbs (normalize b)) = mag (bn_limbs b)"
proof -
  have "pop_zeros (bn_limbs b) = [] \<Longrightarrow> mag (bn_limbs b) = 0" by (metis mag.simps(1) mag_pop_zeros)
  then show ?thesis using assms by (auto simp: normalize_def bn_inv_def bn_int_def Let_def)
qed

lemmas normalize_inv = normalize_all[THEN conjunct1]
lemmas normalize_int = normalize_all[THEN conjunct2, THEN conjunct1]

lemma normalize_scale [simp]: "bn_scale (normalize b) = bn_scale b"
  by (simp add: normalize_def Let_def)

lemma align_correct:
  assumes "bn_inv a" "bn_inv b" "align a b = (x, y, s)"
  shows "limbs_ok x \<and> limbs_ok y \<and> normal x \<and> normal y \<and> s = max (bn_scale a) (bn_scale b)
    \<and> mag x = mag (bn_limbs a) * 10 ^ (unat s - unat (bn_scale a)) \<and> mag y = mag (bn_limbs b) * 10 ^ (unat s - unat (bn_scale b))
    \<and> unat (bn_scale a) \<le> unat s \<and> unat (bn_scale b) \<le> unat s"
proof -
  have i: "limbs_ok (bn_limbs a)" "normal (bn_limbs a)" "limbs_ok (bn_limbs b)" "normal (bn_limbs b)" using assms by (auto simp: bn_inv_def)
  consider "bn_scale a = bn_scale b" | "bn_scale a < bn_scale b" | "bn_scale b < bn_scale a" by (metis linorder_neqE)
  then show ?thesis
  proof cases
    case 1
    then show ?thesis using assms(3) i by (auto simp: align_def)
  next
    case 2
    then have "unat (bn_scale b - bn_scale a) = unat (bn_scale b) - unat (bn_scale a)" by (simp add: unat_sub)
    moreover have "unat (bn_scale a) < unat (bn_scale b)" using 2 by (simp add: word_less_nat_alt)
    moreover have "x = mul_pow10 (bn_limbs a) (unat (bn_scale b - bn_scale a))" "y = bn_limbs b" "s = bn_scale b" "max (bn_scale a) (bn_scale b) = bn_scale b"
      using 2 assms(3) by (auto simp: align_def max_def split: if_splits)
    ultimately show ?thesis using mul_pow10_all[OF i(1)] i by simp
  next
    case 3
    then have "unat (bn_scale a - bn_scale b) = unat (bn_scale a) - unat (bn_scale b)" by (simp add: unat_sub)
    moreover have "unat (bn_scale b) < unat (bn_scale a)" using 3 by (simp add: word_less_nat_alt)
    moreover have "y = mul_pow10 (bn_limbs b) (unat (bn_scale a - bn_scale b))" "x = bn_limbs a" "s = bn_scale a" "max (bn_scale a) (bn_scale b) = bn_scale a"
      using 3 assms(3) by (auto simp: align_def max_def split: if_splits)
    ultimately show ?thesis using mul_pow10_all[OF i(3)] i by simp
  qed
qed


lemma bn_val_align:
  assumes "bn_inv a" "bn_inv b" "align a b = (x, y, s)"
  defines "sx \<equiv> if bn_neg a then - int (mag x) else int (mag x)"
    and "sy \<equiv> if bn_neg b then - int (mag y) else int (mag y)"
  shows "bn_val a = of_int sx / 10 ^ unat s" "bn_val b = of_int sy / 10 ^ unat s"
proof -
  note al = align_correct[OF assms(1-3)]
  have "unat (bn_scale a) \<le> unat s" using al by blast
  then have "(10::rat) ^ unat s = 10 ^ unat (bn_scale a) * 10 ^ (unat s - unat (bn_scale a))"
    by (simp only: power_add[symmetric] le_add_diff_inverse)
  then show "bn_val a = of_int sx / 10 ^ unat s" using al by (auto simp: bn_val_def bn_int_def sx_def)
  have "unat (bn_scale b) \<le> unat s" using al by blast
  then have "(10::rat) ^ unat s = 10 ^ unat (bn_scale b) * 10 ^ (unat s - unat (bn_scale b))"
    by (simp only: power_add[symmetric] le_add_diff_inverse)
  then show "bn_val b = of_int sy / 10 ^ unat s" using al by (auto simp: bn_val_def bn_int_def sy_def)
qed

lemma bn_add_correct:
  assumes "bn_inv a" "bn_inv b"
  shows "bn_inv (bn_add a b) \<and> bn_scale (bn_add a b) = max (bn_scale a) (bn_scale b) \<and> bn_val (bn_add a b) = bn_val a + bn_val b"
proof -
  obtain x y s where al: "align a b = (x, y, s)" by (metis prod_cases3)
  note ac = align_correct[OF assms al] and v = bn_val_align[OF assms al]
  define r where "r = (if bn_neg a = bn_neg b then \<lparr>bn_neg = bn_neg a, bn_limbs = add_mag x y, bn_scale = s\<rparr>
         else if cmp_mag x y = Less then \<lparr>bn_neg = bn_neg b, bn_limbs = sub_mag y x, bn_scale = s\<rparr>
         else \<lparr>bn_neg = bn_neg a, bn_limbs = sub_mag x y, bn_scale = s\<rparr>)"
  have eq: "bn_add a b = normalize r" by (simp add: bn_add_def al r_def)
  have cm: "cmp_mag x y = cmp_nat (mag x) (mag y)" using ac by simp
  have le: "length x \<le> length y" if "mag x \<le> mag y" using shorter_less[of y x] ac that by (meson not_le)
  have ge: "length y \<le> length x" if "mag y \<le> mag x" using shorter_less[of x y] ac that by (meson not_le)
  have ok: "limbs_ok (bn_limbs r)" using ac by (auto simp: r_def)
  have "bn_int r = (if bn_neg a then - int (mag x) else int (mag x)) + (if bn_neg b then - int (mag y) else int (mag y))"
    using ac le ge by (auto simp: r_def bn_int_def cm cmp_nat_def of_nat_diff not_less)
  moreover have "bn_scale r = s" by (simp add: r_def)
  ultimately have "bn_val (normalize r) = bn_val a + bn_val b"
    unfolding v bn_val_def[of "normalize r"] normalize_int[OF ok] normalize_scale by (auto simp: add_divide_distrib diff_divide_distrib)
  then show ?thesis unfolding eq using normalize_inv[OF ok] ac \<open>bn_scale r = s\<close> by simp
qed

lemma bn_negate_correct:
  assumes "bn_inv b"
  shows "bn_inv (bn_negate b) \<and> bn_scale (bn_negate b) = bn_scale b \<and> bn_val (bn_negate b) = - bn_val b"
  using assms by (auto simp: bn_negate_def bn_inv_def bn_val_def bn_int_def is_zero_def)

lemma bn_sub_correct:
  assumes "bn_inv a" "bn_inv b"
  shows "bn_inv (bn_sub a b) \<and> bn_scale (bn_sub a b) = max (bn_scale a) (bn_scale b) \<and> bn_val (bn_sub a b) = bn_val a - bn_val b"
  using bn_add_correct[OF assms(1), of "bn_negate b"] bn_negate_correct[OF assms(2)] by (simp add: bn_sub_def)

lemma bn_mul_correct:
  assumes "bn_inv a" "bn_inv b"
  shows "bn_inv (bn_mul a b) \<and> bn_scale (bn_mul a b) = bn_scale a + bn_scale b \<and> bn_int (bn_mul a b) = bn_int a * bn_int b"
proof (cases "is_zero a \<or> is_zero b")
  case True
  then show ?thesis by (auto simp: bn_mul_def bn_inv_def bn_int_def is_zero_def)
next
  case False
  let ?r = "\<lparr>bn_neg = (bn_neg a \<noteq> bn_neg b), bn_limbs = mul_limbs (bn_limbs a) (bn_limbs b), bn_scale = bn_scale a + bn_scale b\<rparr>"
  have ok: "limbs_ok (bn_limbs ?r)" by simp
  have "bn_int ?r = bn_int a * bn_int b" using assms by (auto simp: bn_int_def bn_inv_def)
  then show ?thesis using False normalize_inv[OF ok] normalize_int[OF ok] by (simp add: bn_mul_def)
qed

lemma bn_mul_val:
  assumes "bn_inv a" "bn_inv b" "unat (bn_scale a) + unat (bn_scale b) < 2 ^ 16"
  shows "bn_val (bn_mul a b) = bn_val a * bn_val b"
proof -
  have "unat (bn_scale a + bn_scale b) = unat (bn_scale a) + unat (bn_scale b)" using assms(3) by (simp add: unat_word_ariths)
  then show ?thesis using bn_mul_correct[OF assms(1,2)] by (simp add: bn_val_def power_add)
qed

definition cmp_rat :: "rat \<Rightarrow> rat \<Rightarrow> ordering" where
  "cmp_rat x y = (if x < y then Less else if y < x then Greater else Equal)"

lemma bn_int_sign:
  assumes "bn_inv b"
  shows "bn_neg b \<Longrightarrow> bn_int b < 0" "\<not> bn_neg b \<Longrightarrow> 0 \<le> bn_int b" "bn_int b = 0 \<longleftrightarrow> is_zero b"
  using assms mag_eq_0_iff[of "bn_limbs b"] by (auto simp: bn_inv_def bn_int_def is_zero_def)

lemma bn_val_sign:
  assumes "bn_inv b"
  shows "bn_neg b \<Longrightarrow> bn_val b < 0" "\<not> bn_neg b \<Longrightarrow> 0 \<le> bn_val b" "bn_val b = 0 \<longleftrightarrow> is_zero b"
  using bn_int_sign[OF assms] by (simp_all add: bn_val_def divide_neg_pos)

lemma bn_cmp_correct:
  assumes "bn_inv a" "bn_inv b"
  shows "bn_cmp a b = cmp_rat (bn_val a) (bn_val b)"
proof -
  obtain x y s where al: "align a b = (x, y, s)" by (metis prod_cases3)
  note ac = align_correct[OF assms al] and v = bn_val_align[OF assms al] and sa = bn_val_sign[OF assms(1)] and sb = bn_val_sign[OF assms(2)]
  have cm: "cmp_mag x y = cmp_nat (mag x) (mag y)" using ac by simp
  consider "is_zero a" "is_zero b" | "\<not> (is_zero a \<and> is_zero b)" "bn_neg a \<noteq> bn_neg b"
    | "\<not> (is_zero a \<and> is_zero b)" "bn_neg a = bn_neg b" by blast
  then show ?thesis
  proof cases
    case 1 then show ?thesis using sa sb by (simp add: bn_cmp_def cmp_rat_def)
  next
    case 2 then show ?thesis using sa sb by (cases "bn_neg a") (auto simp: bn_cmp_def cmp_rat_def)
  next
    case 3
    then show ?thesis unfolding bn_cmp_def al v by (auto simp: cm cmp_nat_def cmp_rat_def divide_less_cancel)
  qed
qed


section \<open>Division, rounding and square root\<close>

lemma div_rem_int_correct:
  assumes "bn_inv a" "bn_inv b" "\<not> is_zero b"
  obtains q r where "div_rem_int a b = Some (q, r)" "bn_inv q" "bn_inv r" "bn_scale q = 0" "bn_scale r = 0"
    "mag (bn_limbs q) = mag (bn_limbs a) div mag (bn_limbs b)" "mag (bn_limbs r) = mag (bn_limbs a) mod mag (bn_limbs b)"
    "bn_int q = (if bn_neg a \<noteq> bn_neg b then - int (mag (bn_limbs a) div mag (bn_limbs b)) else int (mag (bn_limbs a) div mag (bn_limbs b)))"
    "bn_int r = (if bn_neg a then - int (mag (bn_limbs a) mod mag (bn_limbs b)) else int (mag (bn_limbs a) mod mag (bn_limbs b)))"
proof -
  have i: "limbs_ok (bn_limbs a)" "normal (bn_limbs a)" "limbs_ok (bn_limbs b)" "normal (bn_limbs b)" "bn_limbs b \<noteq> []"
    using assms by (auto simp: bn_inv_def is_zero_def)
  obtain q r where d: "div_rem_mag (bn_limbs a) (bn_limbs b) = Some (q, r)" "mag q = mag (bn_limbs a) div mag (bn_limbs b)"
    "mag r = mag (bn_limbs a) mod mag (bn_limbs b)" "limbs_ok q" "limbs_ok r"
    by (rule div_rem_mag_correct[OF i])
  let ?q = "\<lparr>bn_neg = (bn_neg a \<noteq> bn_neg b), bn_limbs = q, bn_scale = 0\<rparr>" and ?r = "\<lparr>bn_neg = bn_neg a, bn_limbs = r, bn_scale = 0\<rparr>"
  show ?thesis
    by (rule that[of "normalize ?q" "normalize ?r"])
      (use d normalize_all[of ?q] normalize_all[of ?r] in \<open>auto simp: div_rem_int_def bn_int_def\<close>)
qed

text \<open>Rounding to an integer, halves away from zero.\<close>

definition round_away :: "rat \<Rightarrow> int" where
  "round_away x = (if x < 0 then - \<lfloor>1 / 2 - x\<rfloor> else \<lfloor>x + 1 / 2\<rfloor>)"

lemma mag_mod10: "limbs_ok q \<Longrightarrow> (if q = [] then 0 else q ! 0 mod 10) = mag q mod 10"
proof (cases q)
  case (Cons x xs)
  have "(x + BASE * mag xs) mod 10 = x mod 10" by (simp add: BASE_def mod_add_eq[symmetric] mod_mult_left_eq[symmetric] mod_mult_eq[symmetric])
  then show ?thesis using Cons by simp
qed simp

lemma guard_round: "x div 10 + (if 5 \<le> x mod 10 then 1 else 0) = (x + 5) div 10" for x :: nat
  by (auto; presburger)

lemma div_half:
  fixes num den :: nat
  assumes "0 < den"
  shows "(num div den + 5) div 10 = (num + 5 * den) div (10 * den)"
proof -
  have "(num + 5 * den) div den = num div den + 5" using assms by simp
  then have "(num + 5 * den) div (den * 10) = (num div den + 5) div 10" unfolding div_mult2_eq by simp
  then show ?thesis by (simp add: mult.commute)
qed

lemma floor_half:
  assumes "0 < den"
  shows "\<lfloor>(of_nat num / of_nat (10 * den) :: rat) + 1 / 2\<rfloor> = int ((num + 5 * den) div (10 * den))"
proof -
  have "(of_nat num / of_nat (10 * den) :: rat) + 1 / 2 = of_nat (num + 5 * den) / of_nat (10 * den)"
    using assms by (simp add: field_simps)
  then show ?thesis by (simp only: floor_divide_of_nat_eq)
qed


lemma normal_10 [simp]: "limbs_ok [10]" "normal [10]" "limbs_ok [1]" "normal [Suc 0]" "normal [1]"
  by (simp_all add: BASE_def normal_def)

lemma round_away_signed:
  assumes "0 \<le> y"
  shows "round_away (if neg then - y else y) = (if neg then - \<lfloor>y + 1 / 2\<rfloor> else \<lfloor>y + 1 / 2\<rfloor>)"
proof -
  have "\<lfloor>1 / 2 :: rat\<rfloor> = 0" by (simp add: floor_eq_iff)
  then show ?thesis using assms by (auto simp: round_away_def add.commute)
qed

lemma div_ratio:
  fixes A B :: nat and want :: int
  assumes "0 < B" "want = int rs + 1 + int sb - int sa"
    and "num = (if 0 < want then A * 10 ^ nat want else A)" "den = (if want < 0 then B * 10 ^ nat (- want) else B)"
  shows "(of_nat A / 10 ^ sa) / (of_nat B / 10 ^ sb) * 10 ^ rs = (of_nat num / of_nat (10 * den) :: rat)" "0 < den"
proof -
  show "0 < den" using assms(1,4) by simp
  show "(of_nat A / 10 ^ sa) / (of_nat B / 10 ^ sb) * 10 ^ rs = (of_nat num / of_nat (10 * den) :: rat)"
  proof (cases "0 \<le> want")
    case True
    have "nat want + sa = rs + 1 + sb" using True assms(2) by linarith
    then have "(10::rat) ^ nat want * 10 ^ sa = 10 ^ rs * 10 * 10 ^ sb" by (metis power_add power_one_right)
    moreover have "num = A * 10 ^ nat want" "den = B" using True assms(3,4) by auto
    ultimately show ?thesis using assms(1) by (simp add: field_simps)
  next
    case False
    have "nat (- want) + (rs + 1 + sb) = sa" using False assms(2) by linarith
    then have "(10::rat) ^ nat (- want) * (10 ^ rs * 10 * 10 ^ sb) = 10 ^ sa" by (metis power_add power_one_right)
    moreover have "num = A" "den = B * 10 ^ nat (- want)" using False assms(3,4) by auto
    ultimately show ?thesis using assms(1) by (simp add: field_simps)
  qed
qed

lemma bn_div_correct:
  assumes "bn_inv a" "bn_inv b" "\<not> is_zero b"
  obtains r where "bn_div a b rs = Some (Some r)" "bn_inv r" "bn_scale r = rs" "bn_int r = round_away (bn_val a / bn_val b * 10 ^ unat rs)"
proof -
  define want where "want = int (unat rs) + 1 + int (unat (bn_scale b)) - int (unat (bn_scale a))"
  define num where "num = (if 0 < want then mul_pow10 (bn_limbs a) (nat want) else bn_limbs a)"
  define den where "den = (if want < 0 then mul_pow10 (bn_limbs b) (nat (- want)) else bn_limbs b)"
  have i: "limbs_ok (bn_limbs a)" "normal (bn_limbs a)" "limbs_ok (bn_limbs b)" "normal (bn_limbs b)" "bn_limbs b \<noteq> []"
    using assms by (auto simp: bn_inv_def is_zero_def)
  have B0: "0 < mag (bn_limbs b)" using mag_eq_0_iff[OF i(4)] i(5) by simp
  have mn: "mag num = (if 0 < want then mag (bn_limbs a) * 10 ^ nat want else mag (bn_limbs a))"
    and md: "mag den = (if want < 0 then mag (bn_limbs b) * 10 ^ nat (- want) else mag (bn_limbs b))"
    using i by (simp_all add: num_def den_def)
  have n: "limbs_ok num" "normal num" "limbs_ok den" "normal den" "den \<noteq> []"
    using i mul_pow10_all[OF i(1)] mul_pow10_all[OF i(3)] by (auto simp: num_def den_def)
  obtain q r1 where q: "div_rem_mag num den = Some (q, r1)" "mag q = mag num div mag den" "limbs_ok q" "normal q"
    by (rule div_rem_mag_correct[OF n])
  obtain q1 r2 where q1': "div_rem_mag q [10] = Some (q1, r2)" "mag q1 = mag q div mag [10]" "limbs_ok q1"
    by (rule div_rem_mag_correct[OF q(3,4) normal_10(1,2) list.distinct(2)])
  then have q1: "div_rem_mag q [10] = Some (q1, r2)" "mag q1 = mag q div 10" "limbs_ok q1" by simp_all
  define q2 where "q2 = (if 5 \<le> mag q mod 10 then add_mag q1 [1] else q1)"
  let ?r = "\<lparr>bn_neg = (bn_neg a \<noteq> bn_neg b), bn_limbs = q2, bn_scale = rs\<rparr>"
  have ok: "limbs_ok (bn_limbs ?r)" using q1 by (simp add: q2_def)
  have eq: "bn_div a b rs = Some (Some (normalize ?r))"
    unfolding bn_div_def Let_def want_def[symmetric] num_def[symmetric] den_def[symmetric] q(1) option.case prod.case mag_mod10[OF q(3)] q1(1) q2_def[symmetric]
    using assms(3) by simp
  note dr = div_ratio[OF B0 want_def mn md]
  have "mag q2 = (mag q + 5) div 10" using q1 guard_round[of "mag q"] by (simp add: q2_def split: if_splits)
  then have m2: "int (mag q2) = \<lfloor>(of_nat (mag num) / of_nat (10 * mag den) :: rat) + 1 / 2\<rfloor>"
    unfolding floor_half[OF dr(2)] q(2) div_half[OF dr(2)] by simp
  let ?y = "(of_nat (mag (bn_limbs a)) / 10 ^ unat (bn_scale a)) / (of_nat (mag (bn_limbs b)) / 10 ^ unat (bn_scale b)) * 10 ^ unat rs :: rat"
  have "bn_val a / bn_val b * 10 ^ unat rs = (if bn_neg a \<noteq> bn_neg b then - ?y else ?y)"
    by (auto simp: bn_val_def bn_int_def)
  then have "round_away (bn_val a / bn_val b * 10 ^ unat rs) = (if bn_neg a \<noteq> bn_neg b then - int (mag q2) else int (mag q2))"
    unfolding m2 dr(1)[symmetric] by (simp only: round_away_signed) (simp add: round_away_signed)
  then have "bn_int ?r = round_away (bn_val a / bn_val b * 10 ^ unat rs)" by (simp add: bn_int_def)
  then show ?thesis using that[OF eq] normalize_all[OF ok] by simp
qed


lemma half_up:
  fixes x d :: nat
  assumes "0 < d"
  shows "x div d + (if d \<le> x mod d * 2 then 1 else 0) = (2 * x + d) div (2 * d)"
proof -
  let ?q = "x div d" and ?r = "x mod d"
  have "2 * x + d = 2 * (d * ?q + ?r) + d" by simp
  also have "\<dots> = (2 * ?r + d) + ?q * (2 * d)" by (simp only: algebra_simps)
  finally have "(2 * x + d) div (2 * d) = ?q + (2 * ?r + d) div (2 * d)" using assms by (simp only: div_mult_self1 mult_eq_0_iff) simp
  moreover have "(2 * ?r + d) div (2 * d) = (if d \<le> ?r * 2 then 1 else 0)"
    using assms mod_less_divisor[OF assms, of x] by (auto simp: div_nat_eqI)
  ultimately show ?thesis by simp
qed

lemma floor_half2:
  assumes "0 < d"
  shows "\<lfloor>(of_nat x / of_nat d :: rat) + 1 / 2\<rfloor> = int ((2 * x + d) div (2 * d))"
proof -
  have "(of_nat x / of_nat d :: rat) + 1 / 2 = of_nat (2 * x + d) / of_nat (2 * d)"
    using assms by (simp add: field_simps)
  then show ?thesis by (simp only: floor_divide_of_nat_eq)
qed

lemma round_to_correct:
  assumes "bn_inv b"
  obtains r where "round_to b target = Some r" "bn_inv r" "bn_scale r = target" "bn_int r = round_away (bn_val b * 10 ^ unat target)"
proof -
  have i: "limbs_ok (bn_limbs b)" "normal (bn_limbs b)" using assms by (auto simp: bn_inv_def)
  let ?y = "of_nat (mag (bn_limbs b)) / 10 ^ unat (bn_scale b) * 10 ^ unat target :: rat"
  have sg: "bn_val b * 10 ^ unat target = (if bn_neg b then - ?y else ?y)" by (simp add: bn_val_def bn_int_def)
  have exact: "round_away (of_int n) = n" for n by (auto simp: round_away_def floor_eq_iff)
  consider "bn_scale b = target" | "bn_scale b < target" | "target < bn_scale b" by (metis linorder_neqE)
  then show ?thesis
  proof cases
    case 1
    then show ?thesis using that[of b] assms exact[of "bn_int b"] by (simp add: round_to_def bn_val_def)
  next
    case 2
    let ?k = "unat (target - bn_scale b)"
    let ?r = "\<lparr>bn_neg = bn_neg b, bn_limbs = mul_pow10 (bn_limbs b) ?k, bn_scale = target\<rparr>"
    have lt: "unat (bn_scale b) < unat target" using 2 by (simp add: word_less_nat_alt)
    have "?k = unat target - unat (bn_scale b)" using 2 by (simp add: unat_sub)
    then have "(10::rat) ^ unat target = 10 ^ unat (bn_scale b) * 10 ^ ?k" using lt by (simp add: power_add[symmetric])
    then have "bn_val b * 10 ^ unat target = of_int (bn_int ?r)" using i by (simp add: bn_val_def bn_int_def)
    then show ?thesis using that[of "normalize ?r"] normalize_all[of ?r] i 2 exact[of "bn_int ?r"]
      by (auto simp: round_to_def)
  next
    case 3
    let ?k = "unat (bn_scale b - target)"
    define dv where "dv = mul_pow10 [1] ?k"
    have d: "limbs_ok dv" "normal dv" "dv \<noteq> []" "mag dv = 10 ^ ?k" using mul_pow10_all[OF normal_10(3), of ?k] by (auto simp: dv_def)
    obtain q r where q: "div_rem_mag (bn_limbs b) dv = Some (q, r)" "mag q = mag (bn_limbs b) div mag dv" "mag r = mag (bn_limbs b) mod mag dv"
      "limbs_ok q" "limbs_ok r" "normal q" "normal r" by (rule div_rem_mag_correct[OF i d(1-3)])
    define q1 where "q1 = (if cmp_mag (mul_scalar r 2) dv \<noteq> Less then add_mag q [1] else q)"
    let ?r = "\<lparr>bn_neg = bn_neg b, bn_limbs = q1, bn_scale = target\<rparr>"
    have ok: "limbs_ok (bn_limbs ?r)" using q by (simp add: q1_def)
    have eq: "round_to b target = Some (normalize ?r)"
      unfolding round_to_def Let_def dv_def[symmetric] q(1) option.case prod.case q1_def[symmetric] using 3 by auto
    have lt: "unat target < unat (bn_scale b)" using 3 by (simp add: word_less_nat_alt)
    have "?k = unat (bn_scale b) - unat target" using 3 by (simp add: unat_sub)
    then have "(10::rat) ^ unat (bn_scale b) = 10 ^ unat target * 10 ^ ?k" using lt by (simp add: power_add[symmetric])
    then have y: "?y = of_nat (mag (bn_limbs b)) / of_nat (10 ^ ?k)" by simp
    have "cmp_mag (mul_scalar r 2) dv = cmp_nat (mag r * 2) (mag dv)" using q d by simp
    then have "mag q1 = mag (bn_limbs b) div 10 ^ ?k + (if 10 ^ ?k \<le> mag (bn_limbs b) mod 10 ^ ?k * 2 then 1 else 0)"
      using q d by (auto simp: q1_def cmp_nat_def)
    then have "mag q1 = (2 * mag (bn_limbs b) + 10 ^ ?k) div (2 * 10 ^ ?k)" by (simp only: half_up[OF zero_less_power[OF zero_less_numeral]])
    also have "int \<dots> = \<lfloor>?y + 1 / 2\<rfloor>" unfolding y by (rule floor_half2[symmetric]) simp
    finally have m: "int (mag q1) = \<lfloor>?y + 1 / 2\<rfloor>" .
    have "round_away (bn_val b * 10 ^ unat target) = bn_int ?r"
      unfolding sg bn_int_def by (subst round_away_signed) (simp_all add: m)
    then show ?thesis using that[OF eq] normalize_all[OF ok] by simp
  qed
qed

section \<open>Square root\<close>

text \<open>A natural number as a decimal of scale zero.\<close>

definition natb :: "big_numeric \<Rightarrow> nat \<Rightarrow> bool" where
  "natb b n = (bn_inv b \<and> \<not> bn_neg b \<and> bn_scale b = 0 \<and> mag (bn_limbs b) = n)"

lemma natb_val: "natb b n \<Longrightarrow> bn_val b = of_nat n"
  by (simp add: natb_def bn_val_def bn_int_def)

lemma natbI:
  assumes "bn_inv b" "bn_scale b = 0" "bn_val b = of_nat n"
  shows "natb b n"
proof -
  have n: "\<not> bn_neg b" using bn_val_sign(1)[OF assms(1)] assms(3) by auto
  with assms(2,3) have "(of_nat (mag (bn_limbs b)) :: rat) = of_nat n" by (simp add: bn_val_def bn_int_def)
  then show ?thesis using assms n by (simp add: natb_def)
qed

lemma natb_add: "natb a m \<Longrightarrow> natb b n \<Longrightarrow> natb (bn_add a b) (m + n)"
  using bn_add_correct[of a b] natb_val[of a m] natb_val[of b n] by (intro natbI) (auto simp: natb_def)

lemma natb_mul: "natb a m \<Longrightarrow> natb b n \<Longrightarrow> natb (bn_mul a b) (m * n)"
  using bn_mul_correct[of a b] bn_mul_val[of a b] natb_val[of a m] natb_val[of b n] by (intro natbI) (auto simp: natb_def)

lemma natb_cmp: "natb a m \<Longrightarrow> natb b n \<Longrightarrow> bn_cmp a b = cmp_nat m n"
  using bn_cmp_correct[of a b] natb_val[of a m] natb_val[of b n] by (auto simp: natb_def cmp_rat_def cmp_nat_def)

lemma natb_div:
  assumes "natb a m" "natb b n" "0 < n"
  obtains q r where "div_rem_int a b = Some (q, r)" "natb q (m div n)" "natb r (m mod n)"
proof -
  have "\<not> is_zero b" using assms(2,3) by (auto simp: natb_def is_zero_def)
  with assms obtain q r where "div_rem_int a b = Some (q, r)" "bn_inv q" "bn_inv r" "bn_scale q = 0" "bn_scale r = 0"
    "bn_int q = (if bn_neg a \<noteq> bn_neg b then - int (m div n) else int (m div n))"
    "bn_int r = (if bn_neg a then - int (m mod n) else int (m mod n))"
    unfolding natb_def by (metis div_rem_int_correct)
  then have d: "div_rem_int a b = Some (q, r)" "bn_inv q" "bn_inv r" "bn_scale q = 0" "bn_scale r = 0"
    "bn_int q = int (m div n)" "bn_int r = int (m mod n)" using assms(1,2) by (auto simp: natb_def)
  have "natb q (m div n)" by (rule natbI) (use d in \<open>simp_all add: bn_val_def\<close>)
  moreover have "natb r (m mod n)" by (rule natbI) (use d in \<open>simp_all add: bn_val_def\<close>)
  ultimately show ?thesis using that d(1) by blast
qed

lemma natb_from: "0 \<le> v \<Longrightarrow> natb (from_i128 v 0) (nat v)"
  using normalize_all[of "\<lparr>bn_neg = v < 0, bn_limbs = push_carry (nat \<bar>v\<bar>), bn_scale = 0\<rparr>"]
  by (intro natbI) (auto simp: from_i128_def bn_val_def bn_int_def)

lemma newton_step:
  fixes s x n :: nat
  assumes "s * s \<le> n" "0 < x"
  shows "s \<le> (x + n div x) div 2"
proof -
  have "2 * s \<le> x + n div x"
  proof (cases "2 * s \<le> x")
    case False
    have "(int s - int x) * (int s - int x) \<ge> 0" by simp
    then have "int x * (2 * int s - int x) \<le> int s * int s" by (simp add: algebra_simps)
    moreover have "int ((2 * s - x) * x) = int x * (2 * int s - int x)" using False by (simp add: of_nat_diff mult.commute)
    ultimately have "int ((2 * s - x) * x) \<le> int (s * s)" by (simp only: of_nat_mult)
    then have "(2 * s - x) * x \<le> s * s" by (simp only: of_nat_le_iff)
    then have "2 * s - x \<le> n div x" using assms by (simp add: less_eq_div_iff_mult_less_eq)
    then show ?thesis by simp
  qed simp
  then show ?thesis by simp
qed

lemma newton_loop_correct:
  assumes "natb n N" "0 < N"
  shows "natb x X \<Longrightarrow> 0 < X \<Longrightarrow> \<forall>s. s * s \<le> N \<longrightarrow> s \<le> X \<Longrightarrow>
    \<exists>r R. newton_loop n x = Some r \<and> natb r R \<and> R * R \<le> N \<and> (\<forall>s. s * s \<le> N \<longrightarrow> s \<le> R)"
proof (induction X arbitrary: x rule: less_induct)
  case (less X)
  obtain dv r1 where d: "div_rem_int n x = Some (dv, r1)" "natb dv (N div X)"
    by (rule natb_div[OF assms(1) less.prems(1,2)])
  note sum = natb_add[OF less.prems(1) d(2)]
  have two: "natb (from_i128 2 0) 2" using natb_from[of 2] by simp
  obtain nx r2 where nx: "div_rem_int (bn_add x dv) (from_i128 2 0) = Some (nx, r2)" "natb nx ((X + N div X) div 2)"
    by (rule natb_div[OF sum two]) simp_all
  let ?Y = "(X + N div X) div 2"
  have step: "newton_loop n x = (if bn_cmp nx x \<noteq> Less then Some x else newton_loop n nx)"
    by (subst newton_loop.simps) (simp add: d(1) nx(1))
  have c: "bn_cmp nx x = cmp_nat ?Y X" by (rule natb_cmp[OF nx(2) less.prems(1)])
  have lb: "\<forall>s. s * s \<le> N \<longrightarrow> s \<le> ?Y" using newton_step less.prems(2) by blast
  show ?case
  proof (cases "?Y < X")
    case True
    have "1 \<le> ?Y" using lb assms(2) by (metis One_nat_def Suc_leI mult_1)
    then show ?thesis using less.IH[OF True nx(2) _ lb] True c by (simp add: step cmp_nat_def)
  next
    case False
    then have "X \<le> N div X" by linarith
    then have "X * X \<le> N" using less.prems(2) by (simp add: less_eq_div_iff_mult_less_eq)
    then show ?thesis using False c less.prems by (auto simp: step cmp_nat_def)
  qed
qed

lemma digit_count_bound: "x < 10 ^ digit_count x"
proof (induction x rule: digit_count.induct)
  case (1 x)
  show ?case
  proof (cases "x < 10")
    case False
    then have "x div 10 + 1 \<le> 10 ^ digit_count (x div 10)" using 1 by (simp add: Suc_le_eq)
    then have "10 * (x div 10 + 1) \<le> 10 * 10 ^ digit_count (x div 10)" by (rule mult_le_mono2)
    then show ?thesis using False by (subst digit_count.simps) (simp; presburger)
  qed (subst digit_count.simps, simp)
qed

lemma mag_digits:
  assumes "limbs_ok xs" "xs \<noteq> []"
  shows "mag xs < 10 ^ ((length xs - 1) * 9 + digit_count (last xs))"
proof -
  have "mag xs = mag (butlast xs @ [last xs])" using assms(2) by simp
  also have "\<dots> = mag (butlast xs) + BASE ^ (length xs - 1) * last xs" unfolding mag_append by simp
  also have "\<dots> < BASE ^ (length xs - 1) * (last xs + 1)"
    using mag_less[of "butlast xs"] assms(1) by (auto simp: limbs_ok_def dest: in_set_butlastD)
  also have "\<dots> \<le> BASE ^ (length xs - 1) * 10 ^ digit_count (last xs)"
    using digit_count_bound[of "last xs"] by (intro mult_left_mono) auto
  also have "BASE ^ (length xs - 1) = 10 ^ ((length xs - 1) * 9)" by (simp add: BASE_def power_mult mult.commute[of _ 9])
  finally show ?thesis by (simp add: power_add)
qed

lemma isqrt_mag_correct:
  assumes "bn_inv b"
  obtains r R where "isqrt_mag b = Some r" "natb r R" "R * R \<le> mag (bn_limbs b)" "mag (bn_limbs b) < (R + 1) * (R + 1)"
proof -
  let ?M = "mag (bn_limbs b)"
  have i: "limbs_ok (bn_limbs b)" "normal (bn_limbs b)" using assms by (auto simp: bn_inv_def)
  show ?thesis
  proof (cases "is_zero b")
    case True
    then show ?thesis using that[of "\<lparr>bn_neg = False, bn_limbs = [], bn_scale = 0\<rparr>" 0]
      by (simp add: isqrt_mag_def is_zero_def natb_def bn_inv_def)
  next
    case False
    define n where "n = \<lparr>bn_neg = False, bn_limbs = bn_limbs b, bn_scale = 0::u16\<rparr>"
    define nd where "nd = (length (bn_limbs b) - 1) * BASE_DIGITS + digit_count (last (bn_limbs b))"
    define x where "x = \<lparr>bn_neg = False, bn_limbs = mul_pow10 (bn_limbs (from_i128 1 0)) ((nd + 1) div 2), bn_scale = 0::u16\<rparr>"
    have n: "natb n ?M" "0 < ?M" using i False mag_eq_0_iff[OF i(2)] by (auto simp: n_def natb_def bn_inv_def is_zero_def)
    have one: "natb (from_i128 1 0) 1" using natb_from[of 1] by simp
    then have "limbs_ok (bn_limbs (from_i128 1 0))" "normal (bn_limbs (from_i128 1 0))" "bn_limbs (from_i128 1 0) \<noteq> []"
      by (auto simp: natb_def bn_inv_def)
    note mp = mul_pow10_all[OF this(1), of "(nd + 1) div 2"] this
    have x: "natb x (10 ^ ((nd + 1) div 2))" using mp one by (auto simp: x_def natb_def bn_inv_def)
    have "?M < 10 ^ nd" using mag_digits[OF i(1)] False by (simp add: nd_def BASE_DIGITS_def is_zero_def)
    also have "(10::nat) ^ nd \<le> 10 ^ ((nd + 1) div 2 + (nd + 1) div 2)" by (intro power_increasing) auto
    finally have lt: "?M < 10 ^ ((nd + 1) div 2) * 10 ^ ((nd + 1) div 2)" by (simp add: power_add)
    have "\<forall>s. s * s \<le> ?M \<longrightarrow> s \<le> 10 ^ ((nd + 1) div 2)"
    proof (intro allI impI)
      fix s assume "s * s \<le> ?M"
      then have "s * s < 10 ^ ((nd + 1) div 2) * 10 ^ ((nd + 1) div 2)" using lt by linarith
      then show "s \<le> 10 ^ ((nd + 1) div 2)" by (metis mult_le_mono not_le nat_le_linear)
    qed
    from newton_loop_correct[OF n x _ this] obtain r R where r: "newton_loop n x = Some r" "natb r R" "R * R \<le> ?M" "\<forall>s. s * s \<le> ?M \<longrightarrow> s \<le> R" by auto
    have "bn_cmp (bn_mul r r) n = cmp_nat (R * R) ?M" by (rule natb_cmp[OF natb_mul[OF r(2,2)] n(1)])
    then have "descend_loop n r = Some r" using r(3) by (subst descend_loop.simps) (simp add: cmp_nat_def)
    moreover have "isqrt_mag b = (case newton_loop n x of None \<Rightarrow> None | Some x1 \<Rightarrow> descend_loop n x1)"
      unfolding isqrt_mag_def Let_def n_def x_def nd_def using False by (simp add: is_zero_def)
    ultimately have "isqrt_mag b = Some r" using r(1) by simp
    moreover have "?M < (R + 1) * (R + 1)"
    proof (rule ccontr)
      assume "\<not> ?M < (R + 1) * (R + 1)"
      then have "R + 1 \<le> R" using r(4)[rule_format, of "R + 1"] by linarith
      then show False by simp
    qed
    ultimately show ?thesis using that r by blast
  qed
qed


lemma root_bounds:
  fixes R N :: nat
  assumes "R * R \<le> N" "N < (R + 1) * (R + 1)"
  defines "Q \<equiv> (R + 5) div 10"
  shows "N < (10 * Q + 5) * (10 * Q + 5)" "(10 * Q - 5) * (10 * Q - 5) \<le> N"
proof -
  have "R + 1 \<le> 10 * Q + 5" unfolding Q_def by presburger
  then have "(R + 1) * (R + 1) \<le> (10 * Q + 5) * (10 * Q + 5)" by (intro mult_mono) auto
  then show "N < (10 * Q + 5) * (10 * Q + 5)" using assms(2) by linarith
  have "10 * Q - 5 \<le> R" unfolding Q_def by presburger
  then have "(10 * Q - 5) * (10 * Q - 5) \<le> R * R" by (intro mult_mono) auto
  then show "(10 * Q - 5) * (10 * Q - 5) \<le> N" using assms(1) by linarith
qed

lemma shift_nat:
  fixes u w :: nat
  assumes "w \<le> 2 * (u + 1)"
  shows "0 \<le> 2 * (int u + 1) - int w" "nat (2 * (int u + 1) - int w) = 2 * (u + 1) - w"
  using assms by auto

lemma bn_sqrt_correct:
  assumes "bn_inv b" "\<not> bn_neg b" "unat (bn_scale b) \<le> 2 * (unat rs + 1)"
  obtains r where "bn_sqrt b rs = Some (Some r)" "bn_inv r" "\<not> bn_neg r" "bn_scale r = rs"
    "bn_val b * 100 ^ unat rs < (of_int (bn_int r) + 1 / 2) ^ 2"
    "0 < bn_int r \<longrightarrow> (of_int (bn_int r) - 1 / 2) ^ 2 \<le> bn_val b * 100 ^ unat rs"
proof -
  have i: "limbs_ok (bn_limbs b)" "normal (bn_limbs b)" using assms(1) by (auto simp: bn_inv_def)
  show ?thesis
  proof (cases "is_zero b")
    case True
    then show ?thesis using that[of "\<lparr>bn_neg = False, bn_limbs = [], bn_scale = rs\<rparr>"] bn_val_sign(3)[OF assms(1)]
      by (simp add: bn_sqrt_def bn_inv_def bn_int_def power2_eq_square)
  next
    case False
    define k where "k = 2 * (unat rs + 1) - unat (bn_scale b)"
    define rl where "rl = mul_pow10 (bn_limbs b) k"
    note sh0 = shift_nat(1)[OF assms(3)] and sh = shift_nat(2)[OF assms(3), folded k_def]
    have rl: "limbs_ok rl" "normal rl" "mag rl = mag (bn_limbs b) * 10 ^ k" using mul_pow10_all[OF i(1)] i by (auto simp: rl_def)
    let ?rd = "\<lparr>bn_neg = False, bn_limbs = rl, bn_scale = 0::u16\<rparr>"
    have "bn_inv ?rd" using rl by (simp add: bn_inv_def)
    then obtain r R where r: "isqrt_mag ?rd = Some r" "natb r R" "R * R \<le> mag rl" "mag rl < (R + 1) * (R + 1)"
      by (rule isqrt_mag_correct) auto
    have c: "natb (from_i128 10 0) 10" "natb (from_i128 5 0) 5" "natb (from_i128 1 0) 1"
      using natb_from[of 10] natb_from[of 5] natb_from[of 1] by simp_all
    obtain q g where q: "div_rem_int r (from_i128 10 0) = Some (q, g)" "natb q (R div 10)" "natb g (R mod 10)"
      by (rule natb_div[OF r(2) c(1)]) simp_all
    define rn where "rn = (if bn_cmp g (from_i128 5 0) \<noteq> Less then bn_add q (from_i128 1 0) else q)"
    have "bn_cmp g (from_i128 5 0) = cmp_nat (R mod 10) 5" by (rule natb_cmp[OF q(3) c(2)])
    then have "natb rn (R div 10 + (if 5 \<le> R mod 10 then 1 else 0))"
      using q(2) natb_add[OF q(2) c(3)] by (auto simp: rn_def cmp_nat_def)
    then have rn: "natb rn ((R + 5) div 10)" by (simp only: guard_round)
    define res where "res = normalize (rn\<lparr>bn_scale := rs\<rparr>)"
    have eq: "bn_sqrt b rs = Some (Some res)"
      unfolding bn_sqrt_def Let_def if_P[OF sh0] sh rl_def[symmetric] option.case r(1) q(1) prod.case rn_def[symmetric] res_def[symmetric]
      using False assms(2) by simp
    have res: "bn_inv res" "bn_int res = int ((R + 5) div 10)" "bn_scale res = rs"
      using rn normalize_all[of "rn\<lparr>bn_scale := rs\<rparr>"] by (auto simp: res_def natb_def bn_inv_def bn_int_def)
    have nn: "\<not> bn_neg res" using bn_int_sign(1)[OF res(1)] res(2) by auto
    let ?Q = "(R + 5) div 10"
    have "unat (bn_scale b) + k = 2 * unat rs + 2" using assms(3) by (simp add: k_def)
    then have "(10::rat) ^ unat (bn_scale b) * 10 ^ k = 10 ^ (2 * unat rs) * 10 ^ 2" by (metis power_add)
    then have "(10::rat) ^ unat (bn_scale b) * 10 ^ k = 100 ^ unat rs * 100" by (simp add: power_mult)
    then have v: "bn_val b * 100 ^ unat rs = of_nat (mag rl) / 100"
      using assms(2) rl(3) by (simp add: bn_val_def bn_int_def field_simps)
    note rb = root_bounds[OF r(3,4)]
    have "(of_nat (mag rl) :: rat) < of_nat ((10 * ?Q + 5) * (10 * ?Q + 5))" using rb(1) by (simp only: of_nat_less_iff)
    also have "\<dots> = 100 * (of_int (bn_int res) + 1 / 2) ^ 2" by (simp add: res(2) power2_eq_square field_simps del: of_nat_div)
    finally have up: "bn_val b * 100 ^ unat rs < (of_int (bn_int res) + 1 / 2) ^ 2" unfolding v by simp
    have low: "(of_int (bn_int res) - 1 / 2) ^ 2 \<le> bn_val b * 100 ^ unat rs" if "0 < bn_int res"
    proof -
      have "5 \<le> 10 * ?Q" using that res(2) by simp
      then have e: "(of_nat (10 * ?Q - 5) :: rat) = 10 * of_nat ?Q - 5" by (simp add: of_nat_diff del: of_nat_div)
      have "100 * (of_int (bn_int res) - 1 / 2) ^ 2 = (of_nat (10 * ?Q - 5) :: rat) * of_nat (10 * ?Q - 5)"
        unfolding e by (simp add: res(2) power2_eq_square field_simps del: of_nat_div)
      also have "\<dots> \<le> of_nat (mag rl)" using rb(2) by (simp only: of_nat_le_iff flip: of_nat_mult)
      finally show ?thesis unfolding v by simp
    qed
    show ?thesis by (rule that[OF eq res(1) nn res(3) up]) (use low in blast)
  qed
qed

section \<open>The bridge to 128-bit integers\<close>

lemma u128_of_correct:
  assumes "limbs_ok ls" "m < 2 ^ 128"
  shows "u128_of (rev ls) m = (let v = m * BASE ^ length ls + mag ls in if v < 2 ^ 128 then Some v else None)"
  using assms
proof (induction ls arbitrary: m rule: rev_induct)
  case (snoc l ls)
  let ?v = "m * BASE + l"
  have e: "m * BASE ^ length (ls @ [l]) + mag (ls @ [l]) = ?v * BASE ^ length ls + mag ls" by (simp add: algebra_simps)
  have "?v * 1 \<le> ?v * BASE ^ length ls" by (intro mult_left_mono) (simp_all add: Suc_le_eq)
  then have big: "?v \<le> ?v * BASE ^ length ls + mag ls" by (simp only: mult_1_right trans_le_add1)
  show ?case
  proof (cases "?v < 2 ^ 128")
    case True
    then show ?thesis using snoc unfolding e by (simp add: Let_def)
  next
    case False
    then show ?thesis using big unfolding e by (auto simp: Let_def)
  qed
qed simp

lemma to_i128_correct:
  assumes "bn_inv b"
  shows "to_i128 b = (if - (2 ^ 127) \<le> bn_int b \<and> bn_int b < 2 ^ 127 then Some (bn_int b) else None)"
proof -
  have ok: "limbs_ok (bn_limbs b)" using assms by (simp add: bn_inv_def)
  have "u128_of (rev (bn_limbs b)) 0 = (if mag (bn_limbs b) < 2 ^ 128 then Some (mag (bn_limbs b)) else None)"
    using u128_of_correct[OF ok, of 0] by (simp add: Let_def)
  then show ?thesis by (auto simp: to_i128_def bn_int_def)
qed

section \<open>Arithmetic as a whole\<close>

text \<open>
  C15: arithmetic on the big decimals is exact. On well-formed operands, sum, difference and negation have exactly the
  rational value they should and the larger of the two scales; the integer of a product is the product of the integers,
  and its value is the product as long as the two scales together fit the 16-bit scale field; comparison is that of the
  values, whatever the scales. Every result is again well-formed: no leading zero limb, every limb below the base, no
  negative zero.
\<close>

theorem bignum_arithmetic_exact:
  assumes "bn_inv a" "bn_inv b"
  shows "bn_inv (bn_add a b) \<and> bn_val (bn_add a b) = bn_val a + bn_val b \<and> bn_scale (bn_add a b) = max (bn_scale a) (bn_scale b)
    \<and> bn_inv (bn_sub a b) \<and> bn_val (bn_sub a b) = bn_val a - bn_val b
    \<and> bn_inv (bn_negate a) \<and> bn_val (bn_negate a) = - bn_val a
    \<and> bn_inv (bn_mul a b) \<and> bn_int (bn_mul a b) = bn_int a * bn_int b
    \<and> (unat (bn_scale a) + unat (bn_scale b) < 2 ^ 16 \<longrightarrow> bn_val (bn_mul a b) = bn_val a * bn_val b)
    \<and> bn_cmp a b = cmp_rat (bn_val a) (bn_val b)"
  using bn_add_correct[OF assms] bn_sub_correct[OF assms] bn_negate_correct[OF assms(1)] bn_mul_correct[OF assms]
    bn_mul_val[OF assms] bn_cmp_correct[OF assms] by blast

lemma natb_facts: "natb b n \<Longrightarrow> bn_inv b \<and> \<not> bn_neg b \<and> bn_int b = int n \<and> bn_scale b = 0"
  by (simp add: natb_def bn_int_def)

theorem bignum_arithmetic_exact_witness:
  "bn_val (bn_add (from_i128 12345678901234567890 0) (from_i128 1 0)) = 12345678901234567891
   \<and> bn_val (bn_mul (from_i128 12345678901234567890 0) (from_i128 100 0)) = 1234567890123456789000"
proof -
  have n: "natb (from_i128 12345678901234567890 0) 12345678901234567890" "natb (from_i128 1 0) 1" "natb (from_i128 100 0) 100"
    using natb_from[of 12345678901234567890] natb_from[of 1] natb_from[of 100] by simp_all
  note v = n[THEN natb_val] and i = n[THEN natb_facts]
  show ?thesis using bignum_arithmetic_exact[of "from_i128 12345678901234567890 0" "from_i128 1 0"]
      bignum_arithmetic_exact[of "from_i128 12345678901234567890 0" "from_i128 100 0"] v i by simp
qed

text \<open>
  C14: division. A zero divisor is answered with the empty option and nothing else is; otherwise Knuth's long division
  runs without an index panic or an arithmetic underflow and the quotient, at the scale asked for, is the exact ratio
  rounded to the nearest multiple with halves away from zero. The integer division pair has quotient and remainder of
  the magnitudes, the remainder with the sign of the dividend. Rounding to another scale is the same rounding of the
  value and never fails.
\<close>

theorem bignum_division_rounds:
  assumes "bn_inv a" "bn_inv b"
  shows "(is_zero b \<longrightarrow> bn_div a b rs = Some None)
    \<and> (\<not> is_zero b \<longrightarrow>
         (\<exists>r. bn_div a b rs = Some (Some r) \<and> bn_inv r \<and> bn_scale r = rs
            \<and> bn_int r = round_away (bn_val a / bn_val b * 10 ^ unat rs))
       \<and> (\<exists>q r. div_rem_int a b = Some (q, r) \<and> bn_inv q \<and> bn_inv r
            \<and> mag (bn_limbs q) = mag (bn_limbs a) div mag (bn_limbs b) \<and> mag (bn_limbs r) = mag (bn_limbs a) mod mag (bn_limbs b)
            \<and> (mag (bn_limbs r) \<noteq> 0 \<longrightarrow> bn_neg r = bn_neg a)))
    \<and> (\<exists>r. round_to a rs = Some r \<and> bn_inv r \<and> bn_scale r = rs \<and> bn_int r = round_away (bn_val a * 10 ^ unat rs))"
proof (intro conjI impI)
  show "is_zero b \<Longrightarrow> bn_div a b rs = Some None" by (simp add: bn_div_def)
  show "\<exists>r. round_to a rs = Some r \<and> bn_inv r \<and> bn_scale r = rs \<and> bn_int r = round_away (bn_val a * 10 ^ unat rs)"
    by (rule round_to_correct[OF assms(1), of rs]) blast
  assume z: "\<not> is_zero b"
  show "\<exists>r. bn_div a b rs = Some (Some r) \<and> bn_inv r \<and> bn_scale r = rs
      \<and> bn_int r = round_away (bn_val a / bn_val b * 10 ^ unat rs)"
    by (rule bn_div_correct[OF assms z, of rs]) blast
  obtain q r where d: "div_rem_int a b = Some (q, r)" "bn_inv q" "bn_inv r"
    "mag (bn_limbs q) = mag (bn_limbs a) div mag (bn_limbs b)" "mag (bn_limbs r) = mag (bn_limbs a) mod mag (bn_limbs b)"
    "bn_int r = (if bn_neg a then - int (mag (bn_limbs a) mod mag (bn_limbs b)) else int (mag (bn_limbs a) mod mag (bn_limbs b)))"
    by (rule div_rem_int_correct[OF assms z]) blast
  then have "mag (bn_limbs r) \<noteq> 0 \<longrightarrow> bn_neg r = bn_neg a"
    using bn_int_sign(1,2)[OF d(3)] by (cases "bn_neg a"; cases "bn_neg r") auto
  with d show "\<exists>q r. div_rem_int a b = Some (q, r) \<and> bn_inv q \<and> bn_inv r
      \<and> mag (bn_limbs q) = mag (bn_limbs a) div mag (bn_limbs b) \<and> mag (bn_limbs r) = mag (bn_limbs a) mod mag (bn_limbs b)
      \<and> (mag (bn_limbs r) \<noteq> 0 \<longrightarrow> bn_neg r = bn_neg a)" by blast
qed

theorem bignum_division_rounds_witness:
  "\<exists>r. bn_div (from_i128 2 0) (from_i128 3 0) 4 = Some (Some r) \<and> bn_int r = 6667 \<and> bn_scale r = 4"
proof -
  have n: "natb (from_i128 2 0) 2" "natb (from_i128 3 0) 3" using natb_from[of 2] natb_from[of 3] by simp_all
  note i = n[THEN natb_facts]
  have "\<not> is_zero (from_i128 3 0)" using i(2) bn_int_sign(3)[of "from_i128 3 0"] by simp
  then obtain r where r: "bn_div (from_i128 2 0) (from_i128 3 0) 4 = Some (Some r)" "bn_scale r = 4"
    "bn_int r = round_away (bn_val (from_i128 2 0) / bn_val (from_i128 3 0) * 10 ^ unat (4 :: u16))"
    using bignum_division_rounds[of "from_i128 2 0" "from_i128 3 0" 4] i by blast
  have e: "bn_val (from_i128 2 0) / bn_val (from_i128 3 0) * 10 ^ unat (4 :: u16) = 20000 / 3"
    unfolding n[THEN natb_val] by simp
  have "round_away (20000 / 3) = 6667" by (simp add: round_away_def floor_eq_iff)
  then have "bn_int r = 6667" by (simp only: r(3) e)
  with r show ?thesis by blast
qed

text \<open>
  C16: the square root returns. Both loops behind it, the Newton iteration and the loop that steps a residual overshoot
  down, end on every well-formed non-negative operand whose scale is at most twice the result scale plus two, no
  division in them is by zero, and the result is the nearest multiple of the result scale to the true root; the root
  of a negative number is the empty option.
\<close>

theorem bignum_sqrt_returns:
  assumes "bn_inv b" "unat (bn_scale b) \<le> 2 * (unat rs + 1)"
  shows "(bn_neg b \<longrightarrow> bn_sqrt b rs = Some None)
    \<and> (\<not> bn_neg b \<longrightarrow>
        (\<exists>r. bn_sqrt b rs = Some (Some r) \<and> bn_inv r \<and> \<not> bn_neg r \<and> bn_scale r = rs
           \<and> bn_val b * 100 ^ unat rs < (of_int (bn_int r) + 1 / 2) ^ 2
           \<and> (0 < bn_int r \<longrightarrow> (of_int (bn_int r) - 1 / 2) ^ 2 \<le> bn_val b * 100 ^ unat rs)))"
proof (intro conjI impI)
  show "bn_neg b \<Longrightarrow> bn_sqrt b rs = Some None" using assms(1) by (auto simp: bn_sqrt_def bn_inv_def is_zero_def)
  show "\<exists>r. bn_sqrt b rs = Some (Some r) \<and> bn_inv r \<and> \<not> bn_neg r \<and> bn_scale r = rs
      \<and> bn_val b * 100 ^ unat rs < (of_int (bn_int r) + 1 / 2) ^ 2
      \<and> (0 < bn_int r \<longrightarrow> (of_int (bn_int r) - 1 / 2) ^ 2 \<le> bn_val b * 100 ^ unat rs)" if "\<not> bn_neg b"
    by (rule bn_sqrt_correct[OF assms(1) that assms(2)]) blast
qed

theorem bignum_sqrt_returns_witness:
  "\<exists>r. bn_sqrt (from_i128 2 0) 3 = Some (Some r) \<and> bn_int r = 1414 \<and> bn_scale r = 3"
proof -
  have n: "natb (from_i128 2 0) 2" using natb_from[of 2] by simp
  obtain r where r: "bn_sqrt (from_i128 2 0) 3 = Some (Some r)" "bn_inv r" "\<not> bn_neg r" "bn_scale r = 3"
    "2000000 < (of_int (bn_int r) + 1 / 2 :: rat) ^ 2" "0 < bn_int r \<longrightarrow> (of_int (bn_int r) - 1 / 2 :: rat) ^ 2 \<le> 2000000"
    using bignum_sqrt_returns[of "from_i128 2 0" 3] natb_facts[OF n] natb_val[OF n] by auto
  let ?k = "bn_int r"
  have k0: "0 \<le> ?k" using bn_int_sign(2)[OF r(2,3)] .
  have "1414 \<le> ?k"
  proof (rule ccontr)
    assume "\<not> 1414 \<le> ?k"
    then have "(of_int ?k + 1 / 2 :: rat) \<le> 1413 + 1 / 2" by simp
    then have "(of_int ?k + 1 / 2 :: rat) ^ 2 \<le> (1413 + 1 / 2) ^ 2" using k0 by (intro power_mono) auto
    then show False using r(5) by (simp add: power2_eq_square)
  qed
  moreover have "?k \<le> 1414"
  proof (rule ccontr)
    assume "\<not> ?k \<le> 1414"
    then have "(1415 - 1 / 2 :: rat) \<le> of_int ?k - 1 / 2" by simp
    then have "(1415 - 1 / 2 :: rat) ^ 2 \<le> (of_int ?k - 1 / 2) ^ 2" by (intro power_mono) auto
    then show False using r(6) \<open>1414 \<le> ?k\<close> by (simp add: power2_eq_square)
  qed
  ultimately show ?thesis using r by auto
qed

end
