(* ===== verification/Decimal_Text.thy ===== *)
theory Decimal_Text
  imports Prelude
begin

text \<open>
  Decimal numbers as ASCII text: \<open>to_string\<close> and \<open>parse\<close> of unsigned numbers, \<open>is_ascii_digit\<close> and \<open>str::trim\<close> (of the
  ASCII white space) of the standard library, with the value of a digit string.
\<close>

section \<open>Characters\<close>

definition digit_char :: "nat \<Rightarrow> char" where "digit_char d = char_of (48 + d)"
definition digit_val :: "char \<Rightarrow> nat" where "digit_val c = of_char c - 48"
definition is_ascii_digit :: "char \<Rightarrow> bool" where "is_ascii_digit c = (48 \<le> (of_char c :: nat) \<and> (of_char c :: nat) \<le> 57)"
definition is_whitespace :: "char \<Rightarrow> bool" where
  "is_whitespace c = (of_char c \<in> {9, 10, 11, 12, 13, 32 :: nat})"

text \<open>\<open>to_string\<close> of an unsigned number.\<close>

function dec_string :: "nat \<Rightarrow> string" where
  "dec_string n = (if n < 10 then [digit_char n] else dec_string (n div 10) @ [digit_char (n mod 10)])"
  by pat_completeness auto
termination
  by (relation "measure id") auto

declare dec_string.simps [simp del]

definition parse_u32 :: "string \<Rightarrow> nat" where
  "parse_u32 s = foldl (\<lambda>v c. v * 10 + digit_val c) 0 s"

definition str_trim :: "string \<Rightarrow> string" where
  "str_trim s = rev (dropWhile is_whitespace (rev (dropWhile is_whitespace s)))"

section \<open>Values of digit strings\<close>

lemma digit_roundtrip [simp]: "d < 10 \<Longrightarrow> digit_val (digit_char d) = d" "d < 10 \<Longrightarrow> is_ascii_digit (digit_char d)"
  by (simp_all add: digit_val_def digit_char_def is_ascii_digit_def)

lemma digit_zero [simp]: "digit_val (CHR ''0'') = 0" "is_ascii_digit (CHR ''0'')"
  by (simp_all add: digit_val_def is_ascii_digit_def)

lemma digit_val_less: "is_ascii_digit c \<Longrightarrow> digit_val c < 10"
  by (auto simp: digit_val_def is_ascii_digit_def)

lemma digit_not_special: "is_ascii_digit c \<Longrightarrow> c \<noteq> CHR ''.'' \<and> c \<noteq> CHR ''-'' \<and> c \<noteq> CHR ''+'' \<and> \<not> is_whitespace c"
  by (auto simp: is_ascii_digit_def is_whitespace_def)

lemma parse_append: "parse_u32 (s @ t) = parse_u32 s * 10 ^ length t + parse_u32 t"
proof -
  define F where "F = (\<lambda>v c. v * 10 + digit_val c)"
  have F: "F v c = v * 10 + digit_val c" for v c by (simp add: F_def)
  have "foldl F a t = a * 10 ^ length t + foldl F 0 t" for a
  proof (induction t arbitrary: a)
    case (Cons c t)
    have "foldl F a (c # t) = F a c * 10 ^ length t + foldl F 0 t" using Cons[of "F a c"] by simp
    also have "\<dots> = a * 10 ^ length (c # t) + (digit_val c * 10 ^ length t + foldl F 0 t)" by (simp add: F[of a c] algebra_simps)
    also have "digit_val c * 10 ^ length t + foldl F 0 t = foldl F 0 (c # t)" using Cons[of "digit_val c"] by (simp add: F[of 0 c])
    finally show ?case .
  qed simp
  from this[of "foldl F 0 s"] show ?thesis unfolding parse_u32_def F_def[symmetric] foldl_append .
qed

lemma parse_single [simp]: "parse_u32 [c] = digit_val c" "parse_u32 [] = 0" by (simp_all add: parse_u32_def)

lemma parse_zeros [simp]: "parse_u32 (replicate n (CHR ''0'')) = 0"
proof (induction n)
  case (Suc n)
  then show ?case using parse_append[of "[CHR ''0'']" "replicate n (CHR ''0'')"] by simp
qed simp

lemma parse_less: "list_all is_ascii_digit s \<Longrightarrow> parse_u32 s < 10 ^ length s"
proof (induction s)
  case (Cons c s)
  then have "parse_u32 s < 10 ^ length s" "digit_val c < 10" by (auto simp: digit_val_less)
  then have "digit_val c * 10 ^ length s + parse_u32 s < Suc (digit_val c) * 10 ^ length s" by simp
  also have "\<dots> \<le> 10 * 10 ^ length s" using \<open>digit_val c < 10\<close> by (intro mult_right_mono) auto
  finally show ?case using parse_append[of "[c]" s] by simp
qed simp

lemma dec_string_correct: "parse_u32 (dec_string n) = n \<and> list_all is_ascii_digit (dec_string n) \<and> dec_string n \<noteq> []"
proof (induction n rule: dec_string.induct)
  case (1 n)
  then show ?case by (subst (1 2 3) dec_string.simps) (simp add: parse_append)
qed

lemma dec_string_length: "n < 10 ^ k \<Longrightarrow> 0 < k \<Longrightarrow> length (dec_string n) \<le> k"
proof (induction n arbitrary: k rule: dec_string.induct)
  case (1 n)
  show ?case
  proof (cases "n < 10")
    case True
    then show ?thesis using 1(3) by (subst dec_string.simps) simp
  next
    case False
    obtain j where k: "k = Suc j" using 1(3) by (cases k) auto
    moreover have "0 < j" using False 1(2) k by (cases j) auto
    ultimately have k: "k = Suc j" "0 < j" by auto
    then have "n div 10 < 10 ^ j" using 1(2) by (simp add: div_less_iff_less_mult mult.commute)
    from 1(1)[OF False this k(2)] show ?thesis using False k by (subst dec_string.simps) simp
  qed
qed

lemma parse_drop_zeros: "parse_u32 (dropWhile (\<lambda>c. c = CHR ''0'') s) = parse_u32 s"
  by (induction s) (use parse_append[of "[CHR ''0'']"] in auto)

lemma str_trim_idem: "s \<noteq> [] \<Longrightarrow> \<not> is_whitespace (hd s) \<Longrightarrow> \<not> is_whitespace (last s) \<Longrightarrow> str_trim s = s"
proof -
  assume a: "s \<noteq> []" "\<not> is_whitespace (hd s)" "\<not> is_whitespace (last s)"
  from a(1,2) have d: "dropWhile is_whitespace s = s" by (cases s) auto
  from a(1,3) have "dropWhile is_whitespace (rev s) = rev s" by (cases s rule: rev_cases) auto
  with d show ?thesis by (simp add: str_trim_def)
qed

end
