(* ===== verification/Bignum_Text.thy ===== *)
theory Bignum_Text
  imports Bignum Decimal_Text
begin

text \<open>
  Decimal text of the big decimals (\<open>to_decimal_str\<close> and \<open>from_decimal_str\<close> of \<open>bignum.rs\<close>). Strings are
  ASCII; \<open>str::trim\<close> removes the ASCII white space. Printing and parsing give the number back.
\<close>

section \<open>Printing\<close>

text \<open>\<open>{limb:09}\<close>.\<close>

definition pad9 :: "nat \<Rightarrow> string" where
  "pad9 n = replicate (9 - length (dec_string n)) (CHR ''0'') @ dec_string n"



definition digits_of :: "limbs \<Rightarrow> string" where
  "digits_of xs = (case rev xs of [] \<Rightarrow> [] | t # ls \<Rightarrow> dec_string t @ concat (map pad9 ls))"

definition to_decimal_str :: "big_numeric \<Rightarrow> string" where
  "to_decimal_str b =
     (if is_zero b then
        (if bn_scale b = 0 then ''0'' else ''0.'' @ replicate (unat (bn_scale b)) (CHR ''0''))
      else
        (let digits = digits_of (bn_limbs b);
             scale = unat (bn_scale b);
             body = (if scale = 0 then digits
                     else if length digits \<le> scale then
                       (let padded = replicate (scale + 1 - length digits) (CHR ''0'') @ digits;
                            point = length padded - scale
                        in take point padded @ ''.'' @ drop point padded)
                     else
                       (let point = length digits - scale in take point digits @ ''.'' @ drop point digits))
         in if bn_neg b then ''-'' @ body else body))"

section \<open>Parsing\<close>

fun split_sign :: "string \<Rightarrow> bool \<times> string" where
  "split_sign [] = (False, [])"
| "split_sign (c # s) = (if c = CHR ''-'' then (True, s) else if c = CHR ''+'' then (False, s) else (False, c # s))"

text \<open>\<open>split_once('.')\<close>, with the missing fraction as the empty string.\<close>

definition split_point :: "string \<Rightarrow> string \<times> string" where
  "split_point s = (takeWhile (\<lambda>c. c \<noteq> CHR ''.'') s, drop 1 (dropWhile (\<lambda>c. c \<noteq> CHR ''.'') s))"

function chunk_loop :: "string \<Rightarrow> nat \<Rightarrow> limbs" where
  "chunk_loop s i =
     (if 0 < i then (let start = i - BASE_DIGITS in parse_u32 (drop start (take i s)) # chunk_loop s start)
      else [])"
  by pat_completeness auto
termination
  by (relation "measure snd") (auto simp: BASE_DIGITS_def)

declare chunk_loop.simps [simp del]

definition from_decimal_str :: "string \<Rightarrow> big_numeric option" where
  "from_decimal_str s0 =
     (let s = str_trim s0;
          (neg, rest) = split_sign s;
          (int_part, frac_part) = split_point rest
      in if int_part = [] \<and> frac_part = [] then None
         else if \<not> list_all is_ascii_digit int_part \<or> \<not> list_all is_ascii_digit frac_part then None
         else if 2 ^ 16 \<le> length frac_part then None
         else
           (let trimmed = dropWhile (\<lambda>c. c = CHR ''0'') (int_part @ frac_part);
                digits = (if trimmed = [] then ''0'' else trimmed)
            in Some (normalize \<lparr>bn_neg = neg, bn_limbs = chunk_loop digits (length digits),
                                bn_scale = of_nat (length frac_part)\<rparr>)))"

section \<open>Values of digit strings\<close>

lemma pad9_correct:
  assumes "n < BASE"
  shows "parse_u32 (pad9 n) = n" "list_all is_ascii_digit (pad9 n)" "length (pad9 n) = 9"
  using assms dec_string_correct[of n] dec_string_length[of n 9]
  by (auto simp: pad9_def parse_append BASE_def list_all_append list_all_iff)

lemma digits_of_correct:
  assumes "limbs_ok xs"
  shows "parse_u32 (digits_of xs) = mag xs \<and> list_all is_ascii_digit (digits_of xs) \<and> (xs \<noteq> [] \<longrightarrow> digits_of xs \<noteq> [])"
proof -
  have p: "parse_u32 (concat (map pad9 (rev ys))) = mag ys \<and> list_all is_ascii_digit (concat (map pad9 (rev ys)))
      \<and> length (concat (map pad9 (rev ys))) = 9 * length ys" if "limbs_ok ys" for ys
    using that by (induction ys) (auto simp: parse_append pad9_correct list_all_append BASE_def algebra_simps)
  show ?thesis
  proof (cases xs rule: rev_cases)
    case (snoc ys t)
    with p[of ys] assms dec_string_correct[of t] show ?thesis
      by (auto simp: digits_of_def parse_append list_all_append BASE_def power_mult)
  qed (simp add: digits_of_def)
qed


section \<open>Round trip\<close>

lemma chunk_loop_correct:
  "list_all is_ascii_digit s \<Longrightarrow> i \<le> length s \<Longrightarrow> limbs_ok (chunk_loop s i) \<and> mag (chunk_loop s i) = parse_u32 (take i s)"
proof (induction s i rule: chunk_loop.induct)
  case (1 s i)
  show ?case
  proof (cases "0 < i")
    case False
    then show ?thesis by (subst (1 2) chunk_loop.simps) simp
  next
    case True
    let ?st = "i - BASE_DIGITS" and ?ch = "drop (i - BASE_DIGITS) (take i s)"
    have ih: "limbs_ok (chunk_loop s ?st)" "mag (chunk_loop s ?st) = parse_u32 (take ?st s)"
      using 1(1)[OF True refl 1(2)] 1(3) by auto
    have eq: "chunk_loop s i = parse_u32 ?ch # chunk_loop s ?st" using True by (subst chunk_loop.simps) (simp add: Let_def)
    have dig: "list_all is_ascii_digit ?ch" using 1(2) by (auto simp: list_all_iff dest: in_set_dropD in_set_takeD)
    have len: "length ?ch \<le> 9" using 1(3) by (simp add: BASE_DIGITS_def)
    have "parse_u32 ?ch < 10 ^ length ?ch" by (rule parse_less[OF dig])
    also have "(10::nat) ^ length ?ch \<le> 10 ^ 9" using len by (intro power_increasing) auto
    finally have lt: "parse_u32 ?ch < BASE" by (simp add: BASE_def)
    have "parse_u32 (take i s) = parse_u32 (take ?st s @ ?ch)" by (metis append_take_drop_id take_take min.absorb1 diff_le_self)
    also have "\<dots> = parse_u32 (take ?st s) * 10 ^ length ?ch + parse_u32 ?ch" by (rule parse_append)
    also have "parse_u32 (take ?st s) * 10 ^ length ?ch = BASE * parse_u32 (take ?st s)"
    proof (cases "BASE_DIGITS \<le> i")
      case True
      then have "length ?ch = 9" using 1(3) by (simp add: BASE_DIGITS_def)
      then show ?thesis by (simp add: BASE_def)
    qed simp
    finally show ?thesis unfolding eq using ih lt by simp
  qed
qed

lemma mag_inject:
  "limbs_ok xs \<Longrightarrow> limbs_ok ys \<Longrightarrow> normal xs \<Longrightarrow> normal ys \<Longrightarrow> mag xs = mag ys \<Longrightarrow> xs = ys"
proof (induction xs arbitrary: ys)
  case Nil
  then show ?case using mag_eq_0_iff[of ys] by simp
next
  case (Cons x xs)
  then have "mag (x # xs) \<noteq> 0" using mag_eq_0_iff[of "x # xs"] by simp
  then obtain y zs where ys: "ys = y # zs" using Cons.prems(5) by (cases ys) auto
  have e: "x + BASE * mag xs = y + BASE * mag zs" using Cons.prems(5) ys by simp
  have "x < BASE" "y < BASE" using Cons.prems ys by auto
  then have "x = y" using arg_cong[OF e, of "\<lambda>v. v mod BASE"] by simp
  moreover have "normal xs" "normal zs" using Cons.prems(3,4) ys by (auto simp: normal_def split: if_splits)
  ultimately show ?case using Cons.IH[of zs] Cons.prems e ys by simp
qed

lemma parse_body:
  assumes "list_all is_ascii_digit I" "list_all is_ascii_digit F" "I \<noteq> []" "length F < 2 ^ 16"
    and "s = (if neg then CHR ''-'' # body else body)" "body = (if F = [] then I else I @ CHR ''.'' # F)"
  shows "\<exists>ls. from_decimal_str s = Some (normalize \<lparr>bn_neg = neg, bn_limbs = ls, bn_scale = of_nat (length F)\<rparr>)
    \<and> limbs_ok ls \<and> mag ls = parse_u32 (I @ F)"
proof -
  obtain c I' where I: "I = c # I'" using assms(3) by (cases I) auto
  have c: "is_ascii_digit c" using assms(1) I by simp
  have first: "\<not> is_whitespace (hd s)" "s \<noteq> []" using assms(5,6) digit_not_special[OF c] I
    by (auto simp: is_whitespace_def)
  have "is_ascii_digit (last s)" using assms by (auto simp: list_all_iff)
  then have l: "\<not> is_whitespace (last s)" using digit_not_special by blast
  have trim: "str_trim s = s"
    by (rule str_trim_idem[OF first(2,1) l])
  have sign: "split_sign s = (neg, body)" using assms(5,6) digit_not_special[OF c] I by auto
  have nd: "\<forall>x\<in>set I. x \<noteq> CHR ''.''" using assms(1) digit_not_special by (auto simp: list_all_iff)
  have pt: "split_point body = (I, F)"
  proof -
    have "takeWhile (\<lambda>c. c \<noteq> CHR ''.'') I = I" "dropWhile (\<lambda>c. c \<noteq> CHR ''.'') I = []"
      using nd by (auto simp: takeWhile_eq_all_conv dropWhile_eq_Nil_conv)
    then show ?thesis using nd unfolding split_point_def assms(6)
      by (cases "F = []") (simp_all add: takeWhile_append2 dropWhile_append2 del: length_0_conv dropWhile_eq_Nil_conv)
  qed
  define tr where "tr = dropWhile (\<lambda>c. c = CHR ''0'') (I @ F)"
  define dg where "dg = (if tr = [] then ''0'' else tr)"
  have "set tr \<subseteq> set (I @ F)" unfolding tr_def by (auto dest: set_dropWhileD)
  then have dd: "list_all is_ascii_digit dg" using assms(1,2) by (auto simp: dg_def list_all_iff)
  have "parse_u32 dg = parse_u32 (I @ F)" using parse_drop_zeros[of "I @ F"] by (auto simp: dg_def tr_def[symmetric])
  with chunk_loop_correct[OF dd order_refl]
  have "limbs_ok (chunk_loop dg (length dg)) \<and> mag (chunk_loop dg (length dg)) = parse_u32 (I @ F)" by simp
  moreover have "from_decimal_str s = Some (normalize \<lparr>bn_neg = neg, bn_limbs = chunk_loop dg (length dg), bn_scale = of_nat (length F)\<rparr>)"
    using assms(1-4) by (simp add: from_decimal_str_def trim sign pt Let_def tr_def[symmetric] dg_def[symmetric])
  ultimately show ?thesis by blast
qed

lemma normalize_unique:
  assumes "bn_inv b" "limbs_ok ls" "mag ls = mag (bn_limbs b)" "neg = bn_neg b"
  shows "normalize \<lparr>bn_neg = neg, bn_limbs = ls, bn_scale = bn_scale b\<rparr> = b"
proof -
  let ?r = "normalize \<lparr>bn_neg = neg, bn_limbs = ls, bn_scale = bn_scale b\<rparr>"
  have r: "bn_inv ?r" "mag (bn_limbs ?r) = mag (bn_limbs b)" "bn_scale ?r = bn_scale b"
    using normalize_all[of "\<lparr>bn_neg = neg, bn_limbs = ls, bn_scale = bn_scale b\<rparr>"] assms(2,3) by auto
  have "bn_limbs ?r = bn_limbs b" using r assms(1) by (intro mag_inject) (auto simp: bn_inv_def)
  moreover have "bn_neg ?r = bn_neg b"
    using calculation assms(1,4) by (cases "bn_limbs b = []") (auto simp: normalize_def Let_def bn_inv_def)
  ultimately show ?thesis using r(3) by simp
qed

lemma printed_body:
  assumes "bn_inv b"
  obtains I F where "list_all is_ascii_digit I" "list_all is_ascii_digit F" "I \<noteq> []" "length F = unat (bn_scale b)"
    "to_decimal_str b = (if bn_neg b then CHR ''-'' # (if F = [] then I else I @ CHR ''.'' # F) else (if F = [] then I else I @ CHR ''.'' # F))"
    "parse_u32 (I @ F) = mag (bn_limbs b)"
proof (cases "is_zero b")
  case True
  let ?F = "replicate (unat (bn_scale b)) (CHR ''0'')"
  have "parse_u32 (''0'' @ ?F) = 0" by (subst parse_append) simp
  then show ?thesis using True assms
    by (intro that[of "''0''" ?F]) (auto simp: to_decimal_str_def is_zero_def bn_inv_def list_all_iff unat_eq_0)
next
  case False
  let ?s = "unat (bn_scale b)"
  define dg where "dg = digits_of (bn_limbs b)"
  define pd where "pd = (if length dg \<le> ?s then replicate (?s + 1 - length dg) (CHR ''0'') @ dg else dg)"
  have d: "parse_u32 dg = mag (bn_limbs b)" "list_all is_ascii_digit dg" "dg \<noteq> []"
    using digits_of_correct[of "bn_limbs b"] assms False by (auto simp: dg_def bn_inv_def is_zero_def)
  have p: "parse_u32 pd = mag (bn_limbs b)" "list_all is_ascii_digit pd" "?s < length pd"
    using d by (auto simp: pd_def parse_append list_all_append list_all_iff)
  define I F where "I = take (length pd - ?s) pd" "F = drop (length pd - ?s) pd"
  have "list_all is_ascii_digit I" "list_all is_ascii_digit F" "I \<noteq> []" "length F = ?s" "I @ F = pd"
    using p(2,3) by (auto simp: I_F_def list_all_iff dest: in_set_takeD in_set_dropD)
  moreover have "to_decimal_str b = (if bn_neg b then CHR ''-'' # (if F = [] then I else I @ CHR ''.'' # F) else (if F = [] then I else I @ CHR ''.'' # F))"
    using False \<open>length F = ?s\<close> d(3)
    by (auto simp: to_decimal_str_def Let_def dg_def[symmetric] I_F_def pd_def)
  ultimately show ?thesis using that p(1) by metis
qed

lemma decimal_roundtrip: "bn_inv b \<Longrightarrow> from_decimal_str (to_decimal_str b) = Some b"
proof -
  assume inv: "bn_inv b"
  obtain I F where f: "list_all is_ascii_digit I" "list_all is_ascii_digit F" "I \<noteq> []" "length F = unat (bn_scale b)"
    "to_decimal_str b = (if bn_neg b then CHR ''-'' # (if F = [] then I else I @ CHR ''.'' # F) else (if F = [] then I else I @ CHR ''.'' # F))"
    "parse_u32 (I @ F) = mag (bn_limbs b)" by (rule printed_body[OF inv])
  have "length F < 2 ^ 16" using f(4) unsigned_less[of "bn_scale b", where ?'a=nat] by simp
  from parse_body[OF f(1-3) this f(5) refl] obtain ls where ls: "limbs_ok ls" "mag ls = mag (bn_limbs b)"
    "from_decimal_str (to_decimal_str b) = Some (normalize \<lparr>bn_neg = bn_neg b, bn_limbs = ls, bn_scale = of_nat (length F)\<rparr>)"
    using f(6) by auto
  then show ?thesis using normalize_unique[OF inv ls(1,2) refl] f(4) by simp
qed

text \<open>
  C17: both outside forms of a big decimal are faithful. Printing a well-formed decimal and parsing the text gives the
  same decimal, sign, limbs and scale, so nothing of the value or of its display scale is lost; the integer of a
  decimal that fits 128 bits is returned by the narrowing conversion and any other is refused; and widening a 128-bit
  integer and narrowing it again is the identity.
\<close>

theorem bignum_outside_forms:
  assumes "bn_inv b" "- (2 ^ 127) \<le> v" "v < 2 ^ 127"
  shows "from_decimal_str (to_decimal_str b) = Some b
    \<and> to_i128 b = (if - (2 ^ 127) \<le> bn_int b \<and> bn_int b < 2 ^ 127 then Some (bn_int b) else None)
    \<and> to_i128 (from_i128 v s) = Some v \<and> from_parts (fst (parts b)) (fst (snd (parts b))) (snd (snd (parts b))) = b"
proof -
  have v: "bn_inv (from_i128 v s)" "bn_int (from_i128 v s) = v"
    using normalize_all[of "\<lparr>bn_neg = v < 0, bn_limbs = push_carry (nat \<bar>v\<bar>), bn_scale = s\<rparr>"]
    by (auto simp: from_i128_def bn_int_def)
  have "from_parts (bn_neg b) (bn_limbs b) (bn_scale b) = b"
    using assms(1) normalize_unique[of b "bn_limbs b"] by (simp add: from_parts_def bn_inv_def)
  then show ?thesis using decimal_roundtrip[OF assms(1)] to_i128_correct[OF assms(1)] to_i128_correct[OF v(1)] v(2) assms(2,3)
    by (simp add: parts_def)
qed

theorem bignum_outside_forms_witness:
  "from_decimal_str (to_decimal_str \<lparr>bn_neg = True, bn_limbs = [7, 12], bn_scale = 12\<rparr>) = Some \<lparr>bn_neg = True, bn_limbs = [7, 12], bn_scale = 12\<rparr>
   \<and> to_i128 (from_i128 (- 5) 2) = Some (- 5)"
proof -
  have "bn_inv \<lparr>bn_neg = True, bn_limbs = [7, 12], bn_scale = 12\<rparr>" by (simp add: bn_inv_def BASE_def normal_def)
  from bignum_outside_forms[OF this, of "- 5" 2] show ?thesis by simp
qed

end
