(* ===== verification/Codec_Spec.thy ===== *)
theory Codec_Spec
  imports Prelude
begin

text \<open>
  What the cursor-style readers of the binary formats promise: a reader takes the whole buffer and an
  offset and returns a value and the offset after it. The locale states that reading at the place
  where a value was written gives the value and the end of what was written; the client lemmas are
  for the counted loops the formats use for sequences.
\<close>

text \<open>The loop \<open>for _ in 0..count { let (v, next) = decode(buf, off)?; out.push(v); off = next; }\<close>\<close>

fun decode_n :: "(bytes \<Rightarrow> nat \<Rightarrow> 'e + 'a \<times> nat) \<Rightarrow> bytes \<Rightarrow> nat \<Rightarrow> nat \<Rightarrow> 'a list \<Rightarrow> 'e + 'a list \<times> nat" where
  "decode_n dec buf off 0 out = Inr (out, off)"
| "decode_n dec buf off (Suc n) out = and_then (dec buf off) (\<lambda>(v, nxt). decode_n dec buf nxt n (out @ [v]))"

text \<open>The loop \<open>for v in values { v.encode(&mut p)?; }\<close>\<close>

fun encode_each :: "('a \<Rightarrow> 'e + bytes) \<Rightarrow> 'a list \<Rightarrow> 'e + bytes" where
  "encode_each enc [] = Inr []"
| "encode_each enc (x # xs) = and_then (enc x) (\<lambda>b. and_then (encode_each enc xs) (\<lambda>bs. Inr (b @ bs)))"

text \<open>A byte string that is the encodings of the elements of a list, one after the other.\<close>

fun encodes_all :: "('a \<Rightarrow> bytes \<Rightarrow> bool) \<Rightarrow> 'a list \<Rightarrow> bytes \<Rightarrow> bool" where
  "encodes_all encodes [] b = (b = [])"
| "encodes_all encodes (x # xs) b = (\<exists>b1 b2. b = b1 @ b2 \<and> encodes x b1 \<and> encodes_all encodes xs b2)"

lemma encode_each_encodes:
  "encode_each enc xs = Inr b \<Longrightarrow> \<forall>x\<in>set xs. ok x \<Longrightarrow> encodes_all (\<lambda>x b. ok x \<and> enc x = Inr b) xs b"
  by (induction xs arbitrary: b) (auto simp: and_then_Inr)

locale cursor_codec =
  fixes encodes :: "'a \<Rightarrow> bytes \<Rightarrow> bool"
    and dec :: "bytes \<Rightarrow> nat \<Rightarrow> 'e + 'a \<times> nat"
  assumes decode_encoded: "encodes x b \<Longrightarrow> length (pre @ b @ post) < 2 ^ 64 \<Longrightarrow>
    dec (pre @ b @ post) (length pre) = Inr (x, length pre + length b)"
begin

lemma decode_n_encoded:
  "encodes_all encodes xs b \<Longrightarrow> length (pre @ b @ post) < 2 ^ 64 \<Longrightarrow>
   decode_n dec (pre @ b @ post) (length pre) (length xs) out = Inr (out @ xs, length pre + length b)"
proof (induction xs arbitrary: b pre out)
  case (Cons x xs)
  then obtain b1 b2 where b: "b = b1 @ b2" "encodes x b1" "encodes_all encodes xs b2" by auto
  have "dec (pre @ b1 @ (b2 @ post)) (length pre) = Inr (x, length pre + length b1)"
    by (rule decode_encoded[OF b(2)]) (use Cons.prems(2) b(1) in simp)
  moreover have "decode_n dec ((pre @ b1) @ b2 @ post) (length (pre @ b1)) (length xs) (out @ [x]) = Inr ((out @ [x]) @ xs, length (pre @ b1) + length b2)"
    by (rule Cons.IH[OF b(3)]) (use Cons.prems(2) b(1) in simp)
  ultimately show ?case using b(1) by (simp add: add.assoc)
qed simp

end

text \<open>Rows of a fixed number of cells, as a batch frame packs them, read like single values.\<close>

locale fixed_rows = cursor_codec encodes dec
  for encodes :: "'a \<Rightarrow> bytes \<Rightarrow> bool" and dec :: "bytes \<Rightarrow> nat \<Rightarrow> 'e + 'a \<times> nat" +
  fixes width :: nat

sublocale fixed_rows \<subseteq> row: cursor_codec "\<lambda>xs b. length xs = width \<and> encodes_all encodes xs b" "\<lambda>buf off. decode_n dec buf off width []"
  by unfold_locales (use decode_n_encoded in auto)

end
