(* ===== verification/Lzss.thy ===== *)
theory Lzss
  imports Prelude
begin

text \<open>
  The LZSS codec (\<open>spg-crypto/src/lzss.rs\<close>) that shrinks log records: the greedy matcher, the
  encoder with its frames of eight tokens, and the decoder with its checks. Positions are natural
  numbers; the flag byte and the packed back-reference are words. A failed \<open>expect\<close> of the encoder
  is \<open>None\<close>, an \<open>LzssError\<close> of the decoder is the left side of a sum.
\<close>

definition WINDOW_BITS :: nat where "WINDOW_BITS = 12"
definition WINDOW_SIZE :: nat where "WINDOW_SIZE = 2 ^ WINDOW_BITS"
definition LENGTH_BITS :: nat where "LENGTH_BITS = 4"
definition MIN_MATCH :: nat where "MIN_MATCH = 3"
definition MAX_MATCH :: nat where "MAX_MATCH = MIN_MATCH + 2 ^ LENGTH_BITS - 1"

datatype lzss_error = Truncated | InvalidReference nat | OutputOverrun

lemmas lz_consts = WINDOW_BITS_def WINDOW_SIZE_def LENGTH_BITS_def MIN_MATCH_def MAX_MATCH_def

section \<open>Encoder\<close>

function common_len :: "bytes \<Rightarrow> nat \<Rightarrow> nat \<Rightarrow> nat \<Rightarrow> nat \<Rightarrow> nat" where
  "common_len input probe pos max_lookahead len =
     (if len < max_lookahead \<and> input ! (probe + len) = input ! (pos + len)
      then common_len input probe pos max_lookahead (Suc len) else len)"
  by pat_completeness auto
termination
  by (relation "measure (\<lambda>(_, _, _, m, l). m - l)") auto

function probe_loop :: "bytes \<Rightarrow> nat \<Rightarrow> nat \<Rightarrow> nat \<Rightarrow> nat \<Rightarrow> nat \<Rightarrow> nat \<times> nat" where
  "probe_loop input pos max_lookahead probe best_off best_len =
     (if probe < pos then
        (let len = common_len input probe pos max_lookahead 0 in
         if best_len < len then
           (if len = max_lookahead then (pos - probe, len)
            else probe_loop input pos max_lookahead (Suc probe) (pos - probe) len)
         else probe_loop input pos max_lookahead (Suc probe) best_off best_len)
      else (best_off, best_len))"
  by pat_completeness auto
termination
  by (relation "measure (\<lambda>(_, pos, _, probe, _, _). pos - probe)") auto

definition find_longest_match :: "bytes \<Rightarrow> nat \<Rightarrow> nat \<times> nat" where
  "find_longest_match input pos =
     (if pos = 0 \<or> length input - pos < MIN_MATCH then (0, 0)
      else
        (let max_lookahead = min MAX_MATCH (length input - pos);
             window_start = pos - (WINDOW_SIZE - 1)
         in probe_loop input pos max_lookahead window_start 0 0))"

text \<open>\<open>u16::try_from(off).expect(..) << LENGTH_BITS | u16::try_from(len - MIN_MATCH).expect(..)\<close>\<close>

definition pack_ref :: "nat \<Rightarrow> nat \<Rightarrow> u16 option" where
  "pack_ref match_off match_len =
     (if 2 ^ 16 \<le> match_off \<or> 2 ^ 16 \<le> match_len - MIN_MATCH then None
      else Some (push_bit LENGTH_BITS (word_of_nat match_off) OR word_of_nat (match_len - MIN_MATCH)))"

function compress_loop :: "bytes \<Rightarrow> nat \<Rightarrow> u8 \<Rightarrow> bytes \<Rightarrow> nat \<Rightarrow> bytes \<Rightarrow> bytes option" where
  "compress_loop input i flag_byte frame tokens_in_frame out =
     (if i < length input then
        (let (match_off, match_len) = find_longest_match input i
         in case (if MIN_MATCH \<le> match_len
                  then map_option (\<lambda>packed. (flag_byte, frame @ u16_le packed, i + match_len)) (pack_ref match_off match_len)
                  else Some (flag_byte OR push_bit tokens_in_frame 1, frame @ [input ! i], i + 1)) of
              None \<Rightarrow> None
            | Some (flag1, frame1, i1) \<Rightarrow>
                (if tokens_in_frame + 1 = 8 then compress_loop input i1 0 [] 0 (out @ flag1 # frame1)
                 else compress_loop input i1 flag1 frame1 (tokens_in_frame + 1) out))
      else if 0 < tokens_in_frame then Some (out @ flag_byte # frame) else Some out)"
  by pat_completeness auto
termination
  by (relation "measure (\<lambda>(input, i, _). length input - i)") (auto simp: MIN_MATCH_def split: if_splits)

declare common_len.simps [simp del] probe_loop.simps [simp del] compress_loop.simps [simp del]

definition compress :: "bytes \<Rightarrow> bytes option" where
  "compress input =
     (let orig_len = (if length input < 2 ^ 32 then word_of_nat (length input) else - 1 :: u32);
          out = u32_le orig_len
      in if input = [] then Some out else compress_loop input 0 0 [] 0 out)"

section \<open>Decoder\<close>

fun copy_loop :: "nat \<Rightarrow> nat \<Rightarrow> nat \<Rightarrow> nat \<Rightarrow> bytes \<Rightarrow> lzss_error + bytes" where
  "copy_loop orig_len start j 0 out = Inr out"
| "copy_loop orig_len start j (Suc n) out =
     (if orig_len \<le> length out then Inl OutputOverrun
      else copy_loop orig_len start (Suc j) n (out @ [out ! (start + j)]))"

definition read_token :: "bytes \<Rightarrow> u8 \<Rightarrow> nat \<Rightarrow> nat \<Rightarrow> nat \<Rightarrow> bytes \<Rightarrow> lzss_error + nat \<times> bytes" where
  "read_token input flag orig_len bt p out =
     (if drop_bit bt flag AND 1 = 1 then
        (if length input \<le> p then Inl Truncated else Inr (p + 1, out @ [input ! p]))
      else if length input < p + 2 then Inl Truncated
      else
        (let packed = le_u16 [input ! p, input ! (p + 1)];
             offset = unat (drop_bit LENGTH_BITS packed);
             len = unat (packed AND (2 ^ LENGTH_BITS - 1)) + MIN_MATCH
         in if offset = 0 \<or> length out < offset then Inl (InvalidReference p)
            else (case copy_loop orig_len (length out - offset) 0 len out of
                    Inl e \<Rightarrow> Inl e
                  | Inr out1 \<Rightarrow> Inr (p + 2, out1))))"

text \<open>The eight tokens of a frame; the last argument counts the bits still to read.\<close>

fun frame_loop :: "bytes \<Rightarrow> u8 \<Rightarrow> nat \<Rightarrow> nat \<Rightarrow> nat \<Rightarrow> bytes \<Rightarrow> nat \<Rightarrow> lzss_error + nat \<times> bytes" where
  "frame_loop input flag orig_len bt p out 0 = Inr (p, out)"
| "frame_loop input flag orig_len bt p out (Suc n) =
     (if orig_len \<le> length out then Inr (p, out)
      else (case read_token input flag orig_len bt p out of
              Inl e \<Rightarrow> Inl e
            | Inr (p1, out1) \<Rightarrow> frame_loop input flag orig_len (Suc bt) p1 out1 n))"

lemma read_token_advances: "read_token input flag orig bt p out = Inr (p1, out1) \<Longrightarrow> p < p1"
  by (auto simp: read_token_def Let_def split: if_splits sum.splits)

lemma frame_loop_advances: "frame_loop input flag orig bt p out n = Inr (p1, out1) \<Longrightarrow> p \<le> p1"
proof (induction n arbitrary: bt p out)
  case (Suc n)
  then show ?case
    by (fastforce split: if_splits sum.splits dest!: read_token_advances)
qed simp

function decompress_loop :: "bytes \<Rightarrow> nat \<Rightarrow> nat \<Rightarrow> bytes \<Rightarrow> lzss_error + bytes" where
  "decompress_loop input orig_len p out =
     (if length out < orig_len then
        (if length input \<le> p then Inl Truncated
         else (case frame_loop input (input ! p) orig_len 0 (p + 1) out 8 of
                 Inl e \<Rightarrow> Inl e
               | Inr (p1, out1) \<Rightarrow> decompress_loop input orig_len p1 out1))
      else Inr out)"
  by pat_completeness auto
termination
  by (relation "measure (\<lambda>(input, _, p, _). length input - p)") (auto dest!: frame_loop_advances)

declare decompress_loop.simps [simp del]

definition decompress :: "bytes \<Rightarrow> lzss_error + bytes" where
  "decompress input =
     (if length input < 4 then Inl Truncated
      else
        (let orig_len = unat (le_u32 (take 4 input))
         in case decompress_loop input orig_len 4 [] of
              Inl e \<Rightarrow> Inl e
            | Inr out \<Rightarrow> Inr (take orig_len out)))"


section \<open>The matcher\<close>

lemma common_len_spec:
  "len \<le> m \<Longrightarrow> (\<forall>k<len. input ! (probe + k) = input ! (pos + k)) \<Longrightarrow>
   common_len input probe pos m len \<le> m \<and> (\<forall>k<common_len input probe pos m len. input ! (probe + k) = input ! (pos + k))"
proof (induction input probe pos m len rule: common_len.induct)
  case (1 input probe pos m len)
  show ?case
  proof (cases "len < m \<and> input ! (probe + len) = input ! (pos + len)")
    case True
    then have "common_len input probe pos m len = common_len input probe pos m (Suc len)"
      by (subst common_len.simps) simp
    then show ?thesis using 1(1)[OF True] 1(3) True by (auto simp: less_Suc_eq)
  next
    case False
    then have "common_len input probe pos m len = len" by (subst common_len.simps) auto
    then show ?thesis using 1(2,3) by simp
  qed
qed

text \<open>A pair the matcher may return at a position.\<close>

definition good_match :: "bytes \<Rightarrow> nat \<Rightarrow> nat \<Rightarrow> nat \<Rightarrow> nat \<Rightarrow> bool" where
  "good_match input pos m off len =
     (len \<le> m \<and> (0 < len \<longrightarrow> 0 < off \<and> off \<le> pos \<and> off < WINDOW_SIZE
        \<and> (\<forall>k<len. input ! (pos - off + k) = input ! (pos + k))))"

lemma probe_loop_spec:
  "pos - (WINDOW_SIZE - 1) \<le> probe \<Longrightarrow> good_match input pos m off len \<Longrightarrow>
   probe_loop input pos m probe off len = (o', l') \<Longrightarrow> good_match input pos m o' l'"
proof (induction input pos m probe off len rule: probe_loop.induct)
  case (1 input pos m probe off len)
  let ?l = "common_len input probe pos m 0"
  have l: "?l \<le> m" "\<forall>k<?l. input ! (probe + k) = input ! (pos + k)" using common_len_spec[of 0 m] by auto
  have g: "good_match input pos m (pos - probe) ?l" if "probe < pos"
    using l that 1(3) by (auto simp: good_match_def lz_consts)
  note e = 1(5)[unfolded probe_loop.simps[of input pos m probe off len] Let_def]
  show ?case
  proof (cases "probe < pos")
    case True
    note ih = 1(1)[OF True refl] 1(2)[OF True refl]
    show ?thesis using e True ih 1(3,4) g[OF True] by (auto split: if_splits)
  qed (use e 1(4) in simp)
qed

lemma find_longest_match_spec:
  assumes "find_longest_match input pos = (off, len)" "pos < length input"
  shows "len \<le> MAX_MATCH" "pos + len \<le> length input" "0 < len \<Longrightarrow> 0 < off \<and> off \<le> pos \<and> off < WINDOW_SIZE
    \<and> (\<forall>k<len. input ! (pos - off + k) = input ! (pos + k))"
proof -
  have "good_match input pos (min MAX_MATCH (length input - pos)) off len"
    using assms(1) probe_loop_spec[of pos "pos - (WINDOW_SIZE - 1)" input "min MAX_MATCH (length input - pos)" 0 0 off len]
    by (auto simp: find_longest_match_def Let_def good_match_def split: if_splits)
  then show "len \<le> MAX_MATCH" "pos + len \<le> length input" "0 < len \<Longrightarrow> 0 < off \<and> off \<le> pos \<and> off < WINDOW_SIZE
    \<and> (\<forall>k<len. input ! (pos - off + k) = input ! (pos + k))"
    using assms(2) by (auto simp: good_match_def)
qed


section \<open>Tokens\<close>

text \<open>
  The stream between encoder and decoder as a list of tokens: what the encoder chooses, the bytes
  of a token, and what a token appends to the output.
\<close>

datatype token = Lit u8 | Ref nat nat

fun is_lit :: "token \<Rightarrow> bool" where "is_lit (Lit _) = True" | "is_lit (Ref _ _) = False"

fun enc_token :: "token \<Rightarrow> bytes" where
  "enc_token (Lit b) = [b]"
| "enc_token (Ref off len) = u16_le (push_bit LENGTH_BITS (word_of_nat off) OR word_of_nat (len - MIN_MATCH))"

function tokens :: "bytes \<Rightarrow> nat \<Rightarrow> token list" where
  "tokens input i =
     (if i < length input then
        (let (off, len) = find_longest_match input i
         in if MIN_MATCH \<le> len then Ref off len # tokens input (i + len) else Lit (input ! i) # tokens input (i + 1))
      else [])"
  by pat_completeness auto
termination
  by (relation "measure (\<lambda>(input, i). length input - i)") (auto simp: MIN_MATCH_def)

declare tokens.simps [simp del]

fun copied :: "nat \<Rightarrow> nat \<Rightarrow> bytes \<Rightarrow> bytes" where
  "copied start 0 out = out"
| "copied start (Suc n) out = copied (Suc start) n (out @ [out ! start])"

fun apply_token :: "bytes \<Rightarrow> token \<Rightarrow> bytes" where
  "apply_token out (Lit b) = out @ [b]"
| "apply_token out (Ref off len) = copied (length out - off) len out"

fun ok_token :: "nat \<Rightarrow> bytes \<Rightarrow> token \<Rightarrow> bool" where
  "ok_token orig out (Lit b) = (length out < orig)"
| "ok_token orig out (Ref off len) =
     (0 < off \<and> off \<le> length out \<and> off < WINDOW_SIZE \<and> MIN_MATCH \<le> len \<and> len \<le> MAX_MATCH \<and> length out + len \<le> orig)"

fun valid :: "nat \<Rightarrow> bytes \<Rightarrow> token list \<Rightarrow> bytes \<Rightarrow> bool" where
  "valid orig out [] res = (res = out \<and> length out = orig)"
| "valid orig out (t # ts) res = (ok_token orig out t \<and> valid orig (apply_token out t) ts res)"

lemma copied_take:
  "start < i \<Longrightarrow> i + n \<le> length xs \<Longrightarrow> (\<forall>k<n. xs ! (start + k) = xs ! (i + k)) \<Longrightarrow> copied start n (take i xs) = take (i + n) xs"
proof (induction n arbitrary: start i)
  case (Suc n)
  have "take i xs @ [take i xs ! start] = take (Suc i) xs"
    using Suc.prems by (auto simp: take_Suc_conv_app_nth dest: spec[of _ 0])
  moreover have "\<forall>k<n. xs ! (Suc start + k) = xs ! (Suc i + k)" using Suc.prems(3) by (metis Suc_less_eq add_Suc_shift)
  ultimately show ?case using Suc.IH[of "Suc start" "Suc i"] Suc.prems by simp
qed simp

lemma tokens_valid: "i \<le> length xs \<Longrightarrow> valid (length xs) (take i xs) (tokens xs i) xs"
proof (induction xs i rule: tokens.induct)
  case (1 xs i)
  show ?case
  proof (cases "i < length xs")
    case False
    then have "i = length xs" using 1(3) by simp
    then show ?thesis by (subst tokens.simps) simp
  next
    case True
    obtain off len where f: "find_longest_match xs i = (off, len)" by fastforce
    note fs = find_longest_match_spec[OF f True]
    show ?thesis
    proof (cases "MIN_MATCH \<le> len")
      case ml: True
      then have l0: "0 < len" by (simp add: MIN_MATCH_def)
      have eq: "tokens xs i = Ref off len # tokens xs (i + len)" using True ml by (subst tokens.simps) (simp add: f)
      have "copied (i - off) len (take i xs) = take (i + len) xs" using fs(2) fs(3)[OF l0] by (intro copied_take) auto
      moreover have "valid (length xs) (take (i + len) xs) (tokens xs (i + len)) xs"
        using 1(1)[OF True f[symmetric] refl ml] fs(2) by simp
      ultimately show ?thesis unfolding eq using fs(1,2) fs(3)[OF l0] ml True by simp
    next
      case False
      have eq: "tokens xs i = Lit (xs ! i) # tokens xs (i + 1)" using True False by (subst tokens.simps) (simp add: f)
      have "valid (length xs) (take (i + 1) xs) (tokens xs (i + 1)) xs"
        using 1(2)[OF True f[symmetric] refl False] True by simp
      then show ?thesis unfolding eq using True by (simp add: take_Suc_conv_app_nth)
    qed
  qed
qed


section \<open>Frames\<close>

definition flag_ok :: "u8 \<Rightarrow> token list \<Rightarrow> bool" where
  "flag_ok flag ts = (\<forall>k<8. bit flag k = (k < length ts \<and> is_lit (ts ! k)))"

inductive framed :: "token list \<Rightarrow> bytes \<Rightarrow> bool" where
  framed_nil: "framed [] []"
| framed_frame: "ts \<noteq> [] \<Longrightarrow> length ts \<le> 8 \<Longrightarrow> flag_ok flag ts \<Longrightarrow> length ts = 8 \<or> rest = [] \<Longrightarrow> framed rest bs \<Longrightarrow>
    framed (ts @ rest) (flag # concat (map enc_token ts) @ bs)"

lemma flag_ok_Nil: "flag_ok 0 []" by (simp add: flag_ok_def)

lemma flag_ok_snoc:
  assumes "flag_ok flag ts" "length ts < 8"
  shows "flag_ok (flag OR push_bit (length ts) 1) (ts @ [Lit b])" "flag_ok flag (ts @ [Ref off len])"
proof -
  show "flag_ok (flag OR push_bit (length ts) 1) (ts @ [Lit b])"
    using assms by (auto simp: flag_ok_def bit_or_iff bit_exp_iff nth_append less_Suc_eq)
  show "flag_ok flag (ts @ [Ref off len])"
    using assms by (auto simp: flag_ok_def nth_append less_Suc_eq)
qed

lemma pack_ref_Some:
  "off < WINDOW_SIZE \<Longrightarrow> len \<le> MAX_MATCH \<Longrightarrow> map_option u16_le (pack_ref off len) = Some (enc_token (Ref off len))"
  by (simp add: pack_ref_def lz_consts)

lemma compress_loop_framed:
  "i \<le> length input \<Longrightarrow> length pend < 8 \<Longrightarrow> flag_ok flag pend \<Longrightarrow> frame = concat (map enc_token pend) \<Longrightarrow>
   \<exists>bs. compress_loop input i flag frame (length pend) out = Some (out @ bs) \<and> framed (pend @ tokens input i) bs"
proof (induction "length input - i" arbitrary: i pend flag frame out rule: less_induct)
  case less
  show ?case
  proof (cases "i < length input")
    case False
    then have t: "tokens input i = []" by (subst tokens.simps) simp
    show ?thesis
    proof (cases "pend = []")
      case True
      then show ?thesis using False t framed_nil by (subst compress_loop.simps) simp
    next
      case p: False
      have "framed (pend @ []) (flag # frame @ [])" unfolding less.prems(4)
        by (rule framed_frame) (use p less.prems framed_nil in auto)
      then show ?thesis using False p t by (subst compress_loop.simps) simp
    qed
  next
    case True
    obtain off len where f: "find_longest_match input i = (off, len)" by fastforce
    note fs = find_longest_match_spec[OF f True]
    obtain t flag1 i1 where st:
      "tokens input i = t # tokens input i1" "flag_ok flag1 (pend @ [t])" "i < i1" "i1 \<le> length input"
      "compress_loop input i flag frame (length pend) out =
        (if length pend + 1 = 8 then compress_loop input i1 0 [] 0 (out @ flag1 # frame @ enc_token t)
         else compress_loop input i1 flag1 (frame @ enc_token t) (length pend + 1) out)"
    proof (cases "MIN_MATCH \<le> len")
      case ml: True
      then have l0: "0 < len" by (simp add: MIN_MATCH_def)
      obtain w where w: "pack_ref off len = Some w" "u16_le w = enc_token (Ref off len)"
        using pack_ref_Some[of off len] fs(1) fs(3)[OF l0] by auto
      show ?thesis
      proof (rule that[of "Ref off len" "i + len" flag])
        show "tokens input i = Ref off len # tokens input (i + len)" using True ml by (subst tokens.simps) (simp add: f)
        show "flag_ok flag (pend @ [Ref off len])" using flag_ok_snoc less.prems by blast
        show "compress_loop input i flag frame (length pend) out =
          (if length pend + 1 = 8 then compress_loop input (i + len) 0 [] 0 (out @ flag # frame @ enc_token (Ref off len))
           else compress_loop input (i + len) flag (frame @ enc_token (Ref off len)) (length pend + 1) out)"
          using True ml by (subst compress_loop.simps) (simp add: f w del: enc_token.simps)
      qed (use l0 fs in auto)
    next
      case ml: False
      show ?thesis
      proof (rule that[of "Lit (input ! i)" "i + 1" "flag OR push_bit (length pend) 1"])
        show "tokens input i = Lit (input ! i) # tokens input (i + 1)" using True ml by (subst tokens.simps) (simp add: f)
        show "flag_ok (flag OR push_bit (length pend) 1) (pend @ [Lit (input ! i)])" using flag_ok_snoc less.prems by blast
        show "compress_loop input i flag frame (length pend) out =
          (if length pend + 1 = 8 then compress_loop input (i + 1) 0 [] 0 (out @ (flag OR push_bit (length pend) 1) # frame @ enc_token (Lit (input ! i)))
           else compress_loop input (i + 1) (flag OR push_bit (length pend) 1) (frame @ enc_token (Lit (input ! i))) (length pend + 1) out)"
          using True ml by (subst compress_loop.simps) (simp add: f)
      qed (use True in auto)
    qed
    have dec: "length input - i1 < length input - i" using st(3) True by simp
    show ?thesis
    proof (cases "length pend + 1 = 8")
      case full: True
      from less.hyps[OF dec st(4), of "[]" 0 "[]" "out @ flag1 # frame @ enc_token t"] flag_ok_Nil
      obtain bs where bs: "compress_loop input i1 0 [] 0 (out @ flag1 # frame @ enc_token t) = Some ((out @ flag1 # frame @ enc_token t) @ bs)"
        "framed (tokens input i1) bs" by auto
      have "framed ((pend @ [t]) @ tokens input i1) (flag1 # concat (map enc_token (pend @ [t])) @ bs)"
        by (rule framed_frame) (use full st(2) bs(2) in auto)
      then show ?thesis using bs(1) full st(1,5) less.prems(4) by simp
    next
      case part: False
      from less.hyps[OF dec st(4), of "pend @ [t]" flag1 "frame @ enc_token t" out] part less.prems st(2)
      obtain bs where "compress_loop input i1 flag1 (frame @ enc_token t) (length pend + 1) out = Some (out @ bs)"
        "framed (pend @ t # tokens input i1) bs" by auto
      then show ?thesis using part st(1,5) by simp
    qed
  qed
qed


section \<open>Decoding what was encoded\<close>

lemma unpack_ref:
  assumes "off < 4096" "k < 16"
  defines "w \<equiv> push_bit 4 (word_of_nat off) OR word_of_nat k :: u16"
  shows "unat (drop_bit 4 w) = off" "unat (w AND (2 ^ 4 - 1)) = k"
proof -
  have k: "unat (word_of_nat k :: u16) = k" using assms(2) by (simp add: unat_of_nat)
  have o: "push_bit 4 (word_of_nat off) = (word_of_nat (off * 16) :: u16)" by (simp add: push_bit_eq_mult)
  have "unat (drop_bit 4 (word_of_nat k :: u16)) = 0" using assms(2) by (simp only: unat_drop_bit_eq k) (simp add: drop_bit_eq_div)
  then have "drop_bit 4 (word_of_nat k :: u16) = 0" by (simp only: unsigned_eq_0_iff)
  moreover have "unat (word_of_nat (off * 16) :: u16) = off * 16" using assms(1) by (simp add: unat_of_nat del: of_nat_mult)
  then have "unat (drop_bit 4 (word_of_nat (off * 16) :: u16)) = off"
    by (simp only: unat_drop_bit_eq) (simp add: drop_bit_eq_div)
  ultimately show "unat (drop_bit 4 w) = off" unfolding w_def o by (simp add: drop_bit_or)
  have "take_bit 4 (word_of_nat k :: u16) = word_of_nat k" using assms(2) by (simp add: take_bit_of_nat take_bit_nat_eq_self)
  then have "take_bit 4 w = word_of_nat k" unfolding w_def by (simp add: take_bit_or take_bit_push_bit)
  moreover have "w AND (2 ^ 4 - 1) = take_bit 4 w" by (simp only: take_bit_eq_mask mask_eq_exp_minus_1)
  ultimately show "unat (w AND (2 ^ 4 - 1)) = k" using k by simp
qed

lemma flag_bit: "(drop_bit n w AND 1 = 1) = bit w n" for w :: u8
  by (simp add: bit_iff_odd_drop_bit and_one_eq odd_iff_mod_2_eq_one)

lemma copy_loop_copied: "length out + n \<le> orig \<Longrightarrow> copy_loop orig start j n out = Inr (copied (start + j) n out)"
  by (induction n arbitrary: j out) auto

lemma length_copied [simp]: "length (copied start n out) = length out + n"
  by (induction n arbitrary: start out) auto

lemma read_token_ok:
  assumes "input = pre @ enc_token t @ post" "bit flag bt = is_lit t" "ok_token orig out t"
  shows "read_token input flag orig bt (length pre) out = Inr (length pre + length (enc_token t), apply_token out t)"
proof (cases t)
  case (Lit b)
  then show ?thesis using assms by (simp add: read_token_def flag_bit)
next
  case (Ref off len)
  define w :: u16 where "w = push_bit LENGTH_BITS (word_of_nat off) OR word_of_nat (len - MIN_MATCH)"
  obtain x y where xy: "u16_le w = [x, y]" using length_u16_le[of w] by (metis (no_types) length_0_conv length_Suc_conv numeral_2_eq_2)
  have "le_u16 [x, y] = w" using le_u16_u16_le[of w] xy by simp
  moreover have "input ! length pre = x" "input ! (length pre + 1) = y" "length pre + 2 \<le> length input"
    using assms(1) Ref xy by (auto simp: w_def nth_append)
  moreover have "unat (drop_bit LENGTH_BITS w) = off" "unat (w AND (2 ^ LENGTH_BITS - 1)) + MIN_MATCH = len"
    using unpack_ref[of off "len - MIN_MATCH"] assms(3) Ref by (auto simp: w_def lz_consts)
  moreover have "\<not> bit flag bt" "0 < off" "off \<le> length out" "length out + len \<le> orig" using assms(2,3) Ref by auto
  ultimately show ?thesis
    using Ref by (simp add: read_token_def flag_bit copy_loop_copied)
qed

lemma ok_token_less: "ok_token orig out t \<Longrightarrow> length out < orig"
  by (cases t) (auto simp: MIN_MATCH_def)

lemma frame_loop_ok:
  assumes "length ts \<le> n" "length ts = n \<or> rest = []" "\<forall>k<length ts. bit flag (bt + k) = is_lit (ts ! k)"
    "valid orig out (ts @ rest) res" "input = pre @ concat (map enc_token ts) @ post"
  shows "\<exists>out1. frame_loop input flag orig bt (length pre) out n = Inr (length pre + length (concat (map enc_token ts)), out1)
    \<and> valid orig out1 rest res"
  using assms
proof (induction ts arbitrary: n bt out pre)
  case Nil
  then show ?case by (cases n) auto
next
  case (Cons t ts)
  obtain m where n: "n = Suc m" using Cons.prems(1) by (cases n) auto
  have ok: "ok_token orig out t" using Cons.prems(4) by simp
  have "bit flag bt = is_lit t" using Cons.prems(3)[rule_format, of 0] by simp
  from read_token_ok[OF _ this ok, of input pre "concat (map enc_token ts) @ post"] Cons.prems(5)
  have r: "read_token input flag orig bt (length pre) out = Inr (length pre + length (enc_token t), apply_token out t)" by simp
  have "\<forall>k<length ts. bit flag (Suc bt + k) = is_lit (ts ! k)" using Cons.prems(3) by (metis Suc_less_eq add_Suc_shift length_Cons nth_Cons_Suc)
  from Cons.IH[of m "Suc bt" "apply_token out t" "pre @ enc_token t", OF _ _ this] Cons.prems n
  obtain out1 where "frame_loop input flag orig (Suc bt) (length (pre @ enc_token t)) (apply_token out t) m
      = Inr (length (pre @ enc_token t) + length (concat (map enc_token ts)), out1)" "valid orig out1 rest res" by auto
  then show ?case using r ok_token_less[OF ok] n by (simp add: add.assoc)
qed

lemma decompress_loop_ok:
  "framed ts bs \<Longrightarrow> valid orig out ts res \<Longrightarrow> input = pre @ bs \<Longrightarrow> decompress_loop input orig (length pre) out = Inr res"
proof (induction arbitrary: out pre rule: framed.induct)
  case framed_nil
  then show ?case by (subst decompress_loop.simps) simp
next
  case (framed_frame ts flag rest bs)
  obtain t ts' where ts: "ts = t # ts'" using framed_frame(1) by (cases ts) auto
  then have "length out < orig" using framed_frame(7) ok_token_less by auto
  moreover have "input ! length pre = flag" "length pre < length input" using framed_frame(8) by auto
  moreover obtain out1 where "frame_loop input flag orig 0 (length (pre @ [flag])) out 8
      = Inr (length (pre @ [flag]) + length (concat (map enc_token ts)), out1)" "valid orig out1 rest res"
    using frame_loop_ok[of ts 8 rest flag 0 orig out res input "pre @ [flag]" bs] framed_frame by (auto simp: flag_ok_def)
  moreover have "decompress_loop input orig (length (pre @ flag # concat (map enc_token ts))) out1 = Inr res"
    using framed_frame(6)[of out1 "pre @ flag # concat (map enc_token ts)"] calculation framed_frame(8) by simp
  ultimately show ?case by (subst decompress_loop.simps) (simp add: add.assoc)
qed


section \<open>Torn streams\<close>

lemma read_token_torn:
  assumes "input = take n (pre @ enc_token t @ post)" "length pre \<le> n" "n < length pre + length (enc_token t)" "bit flag bt = is_lit t"
  shows "read_token input flag orig bt (length pre) out = Inl Truncated"
  using assms by (cases t) (auto simp: read_token_def flag_bit)

lemma frame_loop_torn:
  assumes "length ts \<le> m" "\<forall>k<length ts. bit flag (bt + k) = is_lit (ts ! k)" "valid orig out (ts @ rest) res"
    "input = take n (pre @ concat (map enc_token ts) @ post)" "length pre \<le> n" "n < length pre + length (concat (map enc_token ts))"
  shows "frame_loop input flag orig bt (length pre) out m = Inl Truncated"
  using assms
proof (induction ts arbitrary: m bt out pre)
  case (Cons t ts)
  obtain m' where m: "m = Suc m'" using Cons.prems(1) by (cases m) auto
  have ok: "ok_token orig out t" using Cons.prems(3) by simp
  have bt: "bit flag bt = is_lit t" using Cons.prems(2)[rule_format, of 0] by simp
  show ?case
  proof (cases "n < length pre + length (enc_token t)")
    case True
    with read_token_torn[OF _ Cons.prems(5) this bt, of input "concat (map enc_token ts) @ post"] Cons.prems(4)
    show ?thesis using m ok_token_less[OF ok] by simp
  next
    case False
    have "input = pre @ enc_token t @ take (n - length pre - length (enc_token t)) (concat (map enc_token ts) @ post)"
      using Cons.prems(4,5) False by simp
    from read_token_ok[OF this bt ok]
    have r: "read_token input flag orig bt (length pre) out = Inr (length pre + length (enc_token t), apply_token out t)" .
    have "\<forall>k<length ts. bit flag (Suc bt + k) = is_lit (ts ! k)" using Cons.prems(2) by (metis Suc_less_eq add_Suc_shift length_Cons nth_Cons_Suc)
    from Cons.IH[of m' "Suc bt" "apply_token out t" "pre @ enc_token t", OF _ this] Cons.prems m False
    have "frame_loop input flag orig (Suc bt) (length (pre @ enc_token t)) (apply_token out t) m' = Inl Truncated" by auto
    then show ?thesis using r m ok_token_less[OF ok] by simp
  qed
qed simp

lemma decompress_loop_torn:
  "framed ts bs \<Longrightarrow> valid orig out ts res \<Longrightarrow> length pre \<le> n \<Longrightarrow> n < length pre + length bs \<Longrightarrow> input = take n (pre @ bs) \<Longrightarrow>
   decompress_loop input orig (length pre) out = Inl Truncated"
proof (induction arbitrary: out pre rule: framed.induct)
  case (framed_frame ts flag rest bs)
  let ?c = "concat (map enc_token ts)"
  obtain t ts' where ts: "ts = t # ts'" using framed_frame(1) by (cases ts) auto
  have less: "length out < orig" using framed_frame(7) ts ok_token_less by auto
  have bits: "\<forall>k<length ts. bit flag (0 + k) = is_lit (ts ! k)" using framed_frame(2,3) by (auto simp: flag_ok_def)
  consider "n = length pre" | "length pre < n" "n < length pre + 1 + length ?c" | "length pre + 1 + length ?c \<le> n"
    using framed_frame(8) by linarith
  then show ?case
  proof cases
    case 1
    then show ?thesis using framed_frame(10) less by (subst decompress_loop.simps) simp
  next
    case 2
    then have "frame_loop input flag orig 0 (length (pre @ [flag])) out 8 = Inl Truncated"
      by (intro frame_loop_torn[OF framed_frame(2) bits framed_frame(7), where n=n and post=bs]) (use framed_frame(10) in auto)
    moreover have "input ! length pre = flag" "length pre < length input" using 2 framed_frame(10) by (auto simp: nth_append)
    ultimately show ?thesis using less by (subst decompress_loop.simps) simp
  next
    case 3
    define m where "m = n - length pre - 1 - length ?c"
    have "n = length ((pre @ [flag]) @ ?c) + m" using 3 by (simp add: m_def)
    then have "take n (((pre @ [flag]) @ ?c) @ bs) = ((pre @ [flag]) @ ?c) @ take m bs" by (simp only: take_append) simp
    then have inp: "input = (pre @ [flag]) @ ?c @ take m bs" using framed_frame(10) by simp
    obtain out1 where o: "frame_loop input flag orig 0 (length (pre @ [flag])) out 8 = Inr (length (pre @ [flag]) + length ?c, out1)"
      "valid orig out1 rest res"
      using frame_loop_ok[OF framed_frame(2,4) bits framed_frame(7) inp] by auto
    have "decompress_loop input orig (length (pre @ flag # ?c)) out1 = Inl Truncated"
      by (rule framed_frame(6)[OF o(2)]) (use 3 framed_frame(9,10) in auto)
    moreover have "input ! length pre = flag" "length pre < length input" using inp by auto
    ultimately show ?thesis using less o(1) by (subst decompress_loop.simps) (simp add: add.assoc)
  qed
qed simp

section \<open>Sizes\<close>

lemma framed_length: "framed ts bs \<Longrightarrow> length bs = length (concat (map enc_token ts)) + (length ts + 7) div 8"
proof (induction rule: framed.induct)
  case (framed_frame ts flag rest bs)
  then have "0 < length ts" by simp
  then have "(length ts + 7) div 8 = 1" using framed_frame(2) by (intro div_nat_eqI) (auto simp: Suc_le_eq)
  then have "(length (ts @ rest) + 7) div 8 = 1 + (length rest + 7) div 8" using framed_frame(4) by auto
  then show ?case using framed_frame by simp
qed simp

lemma valid_length: "valid orig out ts res \<Longrightarrow> length out + length (concat (map enc_token ts)) \<le> orig \<and> length out + length ts \<le> orig"
proof (induction ts arbitrary: out)
  case (Cons t ts)
  from Cons.IH[of "apply_token out t"] Cons.prems show ?case by (cases t) (auto simp: MIN_MATCH_def)
qed simp

lemma compress_framed:
  assumes "length input < 2 ^ 32"
  obtains bs where "compress input = Some (u32_le (word_of_nat (length input)) @ bs)" "framed (tokens input 0) bs"
    "valid (length input) [] (tokens input 0) input"
proof -
  have v: "valid (length input) [] (tokens input 0) input" using tokens_valid[of 0 input] by simp
  show ?thesis
  proof (cases "input = []")
    case True
    have "tokens input 0 = []" using True by (subst tokens.simps) simp
    then show ?thesis using that[of "[]"] True v framed_nil by (simp add: compress_def)
  next
    case False
    from compress_loop_framed[of 0 input "[]" 0 "[]" "u32_le (word_of_nat (length input))"] flag_ok_Nil
    obtain bs where "compress_loop input 0 0 [] 0 (u32_le (word_of_nat (length input))) = Some (u32_le (word_of_nat (length input)) @ bs)"
      "framed (tokens input 0) bs" by auto
    then show ?thesis using that v False assms by (simp add: compress_def)
  qed
qed

lemma header_length: "n < 2 ^ 32 \<Longrightarrow> unat (le_u32 (u32_le (word_of_nat n))) = n"
  by (simp add: unat_of_nat)

lemma compress_decodes:
  assumes "length input < 2 ^ 32"
  shows "\<exists>c. compress input = Some c \<and> decompress c = Inr input \<and> length c \<le> 4 + length input + (length input + 7) div 8"
proof -
  let ?h = "u32_le (word_of_nat (length input))"
  obtain bs where c: "compress input = Some (?h @ bs)" "framed (tokens input 0) bs" "valid (length input) [] (tokens input 0) input"
    by (rule compress_framed[OF assms])
  have "decompress_loop (?h @ bs) (length input) (length ?h) [] = Inr input" by (rule decompress_loop_ok[OF c(2,3) refl])
  then have "decompress (?h @ bs) = Inr input" using header_length[OF assms] by (simp add: decompress_def)
  moreover have "(length (tokens input 0) + 7) div 8 \<le> (length input + 7) div 8" using valid_length[OF c(3)] by (intro div_le_mono) simp
  then have "length (?h @ bs) \<le> 4 + length input + (length input + 7) div 8"
    using framed_length[OF c(2)] valid_length[OF c(3)] by simp
  ultimately show ?thesis using c(1) by blast
qed

text \<open>
  Compression loses nothing and costs little. For every input shorter than four gibibytes the encoder returns (no
  offset or length leaves its field), the decoder gives the input back from the stream, and the stream is at most the
  header, the input and one flag byte for every eight bytes of it.
\<close>

theorem lzss_roundtrip:
  assumes "length input < 2 ^ 32"
  shows "\<exists>c. compress input = Some c \<and> decompress c = Inr input \<and> length c \<le> 4 + length input + (length input + 7) div 8"
  using assms by (rule compress_decodes)

theorem lzss_roundtrip_witness: "\<exists>c. compress [1, 2, 3, 1, 2, 3, 1, 2, 3, 7] = Some c \<and> decompress c = Inr [1, 2, 3, 1, 2, 3, 1, 2, 3, 7]"
  using lzss_roundtrip[of "[1, 2, 3, 1, 2, 3, 1, 2, 3, 7]"] by auto

text \<open>
  C20: a torn stream is recognised. Every proper prefix of a compressed stream, cut anywhere, in the header, before a flag
  byte, inside a literal or a back-reference, is answered with the truncation error and never with data.
\<close>

theorem lzss_torn_stream:
  assumes "length input < 2 ^ 32" "compress input = Some c" "n < length c"
  shows "decompress (take n c) = Inl Truncated"
proof (cases "n < 4")
  case True
  then have "length (take n c) < 4" by (simp add: min_less_iff_disj)
  then show ?thesis unfolding decompress_def by (rule if_P)
next
  case False
  let ?h = "u32_le (word_of_nat (length input))"
  obtain bs where c: "compress input = Some (?h @ bs)" "framed (tokens input 0) bs" "valid (length input) [] (tokens input 0) input"
    by (rule compress_framed[OF assms(1)])
  have n: "length ?h \<le> n" "n < length ?h + length bs" "take n c = take n (?h @ bs)" using False assms(2,3) c(1) by auto
  have "decompress_loop (take n c) (length input) (length ?h) [] = Inl Truncated" by (rule decompress_loop_torn[OF c(2,3) n])
  moreover have "take 4 (take n c) = ?h" using n(3) False by simp
  ultimately show ?thesis using header_length[OF assms(1)] False assms(3) by (simp add: decompress_def)
qed

theorem lzss_torn_stream_witness: "\<exists>c. compress [7, 7] = Some c \<and> decompress (take 4 c) = Inl Truncated"
proof -
  obtain bs where c: "compress [7, 7] = Some (u32_le (word_of_nat (length [7 :: u8, 7])) @ bs)" "framed (tokens [7, 7] 0) bs"
    "valid (length [7 :: u8, 7]) [] (tokens [7, 7] 0) [7, 7]" by (rule compress_framed[of "[7, 7]"]) simp_all
  have "tokens [7, 7] 0 \<noteq> []" using c(3) by auto
  then have "0 < length bs" using framed_length[OF c(2)] by (cases "tokens [7, 7] 0") auto
  then show ?thesis using lzss_torn_stream[OF _ c(1), of 4] c(1) by simp
qed

end
