(* ===== verification/Base64.thy ===== *)
theory Base64
  imports Prelude
begin

text \<open>
  Base64 (\<open>spg-crypto/src/base64.rs\<close>), used by the authentication exchange: encoding in groups of three
  bytes, decoding in groups of four with the padding rules of the code. Text is its bytes.
\<close>

definition ALPHA :: bytes where
  "ALPHA = map of_char ''ABCDEFGHIJKLMNOPQRSTUVWXYZabcdefghijklmnopqrstuvwxyz0123456789+/''"

datatype decode_error = InvalidLength | InvalidChar u8

definition PAD :: u8 where "PAD = 61"

definition sextet :: "u32 \<Rightarrow> nat \<Rightarrow> u8" where
  "sextet n k = ALPHA ! unat (drop_bit k n AND 0x3f)"

fun encode :: "bytes \<Rightarrow> bytes" where
  "encode (a # b # c # rest) =
     (let n = push_bit 16 (ucast a) OR push_bit 8 (ucast b) OR ucast c
      in [sextet n 18, sextet n 12, sextet n 6, sextet n 0] @ encode rest)"
| "encode [a] = (let n = push_bit 16 (ucast a) in [sextet n 18, sextet n 12, PAD, PAD])"
| "encode [a, b] =
     (let n = push_bit 16 (ucast a) OR push_bit 8 (ucast b) in [sextet n 18, sextet n 12, sextet n 6, PAD])"
| "encode [] = []"

definition decode_char :: "u8 \<Rightarrow> decode_error + u8" where
  "decode_char b =
     (if 65 \<le> b \<and> b \<le> 90 then Inr (b - 65)
      else if 97 \<le> b \<and> b \<le> 122 then Inr (b - 97 + 26)
      else if 48 \<le> b \<and> b \<le> 57 then Inr (b - 48 + 52)
      else if b = 43 then Inr 62
      else if b = 47 then Inr 63
      else Inl (InvalidChar b))"

fun quad_loop :: "bytes \<Rightarrow> nat \<Rightarrow> u32 list \<Rightarrow> nat \<Rightarrow> decode_error + u32 list \<times> nat" where
  "quad_loop [] i quad padding = Inr (quad, padding)"
| "quad_loop (b # bs) i quad padding =
     (if b = PAD then quad_loop bs (i + 1) quad (padding + 1)
      else if 0 < padding then Inl (InvalidChar b)
      else (case decode_char b of
              Inl e \<Rightarrow> Inl e
            | Inr v \<Rightarrow> quad_loop bs (i + 1) (quad[i := ucast v]) padding))"

definition quad_bytes :: "u32 list \<Rightarrow> nat \<Rightarrow> bytes" where
  "quad_bytes quad padding =
     (let n = push_bit 18 (quad ! 0) OR push_bit 12 (quad ! 1) OR push_bit 6 (quad ! 2) OR quad ! 3
      in [ucast (drop_bit 16 n)] @ (if padding < 2 then [ucast (drop_bit 8 n)] else []) @ (if padding < 1 then [ucast n] else []))"

fun decode_quads :: "bytes \<Rightarrow> decode_error + bytes" where
  "decode_quads (a # b # c # d # rest) =
     (case quad_loop [a, b, c, d] 0 [0, 0, 0, 0] 0 of
        Inl e \<Rightarrow> Inl e
      | Inr (quad, padding) \<Rightarrow>
          (case decode_quads rest of
             Inl e \<Rightarrow> Inl e
           | Inr out \<Rightarrow> Inr (quad_bytes quad padding @ out)))"
| "decode_quads _ = Inr []"

definition decode :: "bytes \<Rightarrow> decode_error + bytes" where
  "decode input = (if length input mod 4 \<noteq> 0 then Inl InvalidLength else decode_quads input)"

section \<open>Round trip\<close>

lemma alpha_char: "k < 64 \<Longrightarrow> decode_char (ALPHA ! k) = Inr (word_of_nat k) \<and> ALPHA ! k \<noteq> PAD"
proof -
  have "\<forall>k\<in>set [0..<64]. decode_char (ALPHA ! k) = Inr (word_of_nat k) \<and> ALPHA ! k \<noteq> PAD" by code_simp
  then show "k < 64 \<Longrightarrow> ?thesis" by simp
qed

lemma sextet_value: "drop_bit k n AND 0x3f = take_bit 6 (drop_bit k n)" for n :: u32
  by (simp add: take_bit_eq_mask mask_eq_exp_minus_1)

lemma sextet_char:
  "sextet n k \<noteq> PAD" "\<exists>v. decode_char (sextet n k) = Inr v \<and> ucast v = take_bit 6 (drop_bit k n)"
proof -
  let ?v = "take_bit 6 (drop_bit k n)"
  have l: "unat ?v < 64" using take_bit_nat_less_exp[of 6 "unat (drop_bit k n)"] by (simp add: unsigned_take_bit_eq)
  show "sextet n k \<noteq> PAD" using alpha_char[OF l] by (simp add: sextet_def sextet_value)
  have "ucast (word_of_nat (unat ?v) :: u8) = ?v" by (auto simp: of_nat_unat bit_eq_iff bit_unsigned_iff bit_take_bit_iff)
  then show "\<exists>v. decode_char (sextet n k) = Inr v \<and> ucast v = ?v"
    using alpha_char[OF l] by (auto simp: sextet_def sextet_value)
qed

lemma sextets_join:
  assumes "take_bit 24 n = n"
  shows "push_bit 18 (take_bit 6 (drop_bit 18 n)) OR push_bit 12 (take_bit 6 (drop_bit 12 n)) OR push_bit 6 (take_bit 6 (drop_bit 6 n))
    OR take_bit 6 n = (n :: u32)"
proof (rule bit_word_eqI)
  fix k assume "k < LENGTH(32)"
  have n: "\<not> bit n k" if "24 \<le> k" using assms that by (metis bit_take_bit_iff not_le)
  consider "k < 6" | "6 \<le> k" "k < 12" | "12 \<le> k" "k < 18" | "18 \<le> k" "k < 24" | "24 \<le> k" by linarith
  then show "bit (push_bit 18 (take_bit 6 (drop_bit 18 n)) OR push_bit 12 (take_bit 6 (drop_bit 12 n))
      OR push_bit 6 (take_bit 6 (drop_bit 6 n)) OR take_bit 6 n) k = bit n k"
    by cases (use n \<open>k < LENGTH(32)\<close> in \<open>auto simp: bit_or_iff bit_push_bit_iff bit_take_bit_iff bit_drop_bit_eq\<close>)
qed

lemma group_bytes:
  fixes a b c :: u8
  defines "n \<equiv> push_bit 16 (ucast a) OR push_bit 8 (ucast b) OR ucast c :: u32"
  shows "take_bit 24 n = n" "ucast (drop_bit 16 n) = a" "ucast (drop_bit 8 n) = b" "ucast n = c"
  unfolding n_def
  by (auto simp: bit_eq_iff bit_or_iff bit_push_bit_iff bit_take_bit_iff bit_drop_bit_eq bit_unsigned_iff dest: bit_imp_le_length)


lemma quad_loop_three:
  "decode_char x0 = Inr v0 \<Longrightarrow> x0 \<noteq> PAD \<Longrightarrow> decode_char x1 = Inr v1 \<Longrightarrow> x1 \<noteq> PAD \<Longrightarrow> decode_char x2 = Inr v2 \<Longrightarrow> x2 \<noteq> PAD \<Longrightarrow>
   decode_char x3 = Inr v3 \<Longrightarrow> x3 \<noteq> PAD \<Longrightarrow> quad_loop [x0, x1, x2, x3] 0 [0, 0, 0, 0] 0 = Inr ([ucast v0, ucast v1, ucast v2, ucast v3], 0)"
  "decode_char x0 = Inr v0 \<Longrightarrow> x0 \<noteq> PAD \<Longrightarrow> decode_char x1 = Inr v1 \<Longrightarrow> x1 \<noteq> PAD \<Longrightarrow> decode_char x2 = Inr v2 \<Longrightarrow> x2 \<noteq> PAD \<Longrightarrow>
   quad_loop [x0, x1, x2, PAD] 0 [0, 0, 0, 0] 0 = Inr ([ucast v0, ucast v1, ucast v2, 0], 1)"
  "decode_char x0 = Inr v0 \<Longrightarrow> x0 \<noteq> PAD \<Longrightarrow> decode_char x1 = Inr v1 \<Longrightarrow> x1 \<noteq> PAD \<Longrightarrow>
   quad_loop [x0, x1, PAD, PAD] 0 [0, 0, 0, 0] 0 = Inr ([ucast v0, ucast v1, 0, 0], 2)"
  by (simp_all add: numeral_eq_Suc)

lemma quad_bytes_group:
  fixes n :: u32
  assumes "take_bit 24 n = n"
  shows "quad_bytes [take_bit 6 (drop_bit 18 n), take_bit 6 (drop_bit 12 n), take_bit 6 (drop_bit 6 n), take_bit 6 (drop_bit 0 n)] p =
    [ucast (drop_bit 16 n)] @ (if p < 2 then [ucast (drop_bit 8 n)] else []) @ (if p < 1 then [ucast n] else [])"
  using sextets_join[OF assms] by (simp add: quad_bytes_def numeral_eq_Suc Let_def)

lemma quad_group:
  fixes n :: u32
  assumes "take_bit 24 n = n" "p = 0 \<or> p = 1 \<and> take_bit 6 n = 0 \<or> p = 2 \<and> take_bit 12 n = 0"
  shows "\<exists>quad. quad_loop ([sextet n 18, sextet n 12] @ (if p < 2 then [sextet n 6] else [PAD]) @ (if p < 1 then [sextet n 0] else [PAD])) 0 [0, 0, 0, 0] 0
      = Inr (quad, p) \<and> quad_bytes quad p = [ucast (drop_bit 16 n)] @ (if p < 2 then [ucast (drop_bit 8 n)] else []) @ (if p < 1 then [ucast n] else [])"
proof -
  obtain v0 v1 v2 v3 where v: "decode_char (sextet n 18) = Inr v0" "ucast v0 = take_bit 6 (drop_bit 18 n)" "decode_char (sextet n 12) = Inr v1" "ucast v1 = take_bit 6 (drop_bit 12 n)"
    "decode_char (sextet n 6) = Inr v2" "ucast v2 = take_bit 6 (drop_bit 6 n)" "decode_char (sextet n 0) = Inr v3" "ucast v3 = take_bit 6 (drop_bit 0 n)"
    using sextet_char(2) by meson
  have z: "take_bit 6 (drop_bit 6 n) = 0" if "take_bit 12 n = 0"
  proof -
    have "take_bit 6 (drop_bit 6 n) = drop_bit 6 (take_bit 12 n)" by (simp add: take_bit_drop_bit)
    then show ?thesis using that by simp
  qed
  have z6: "take_bit 6 n = 0" if "take_bit 12 n = 0"
  proof -
    have "take_bit 6 n = take_bit 6 (take_bit 12 n)" by (simp add: take_bit_take_bit)
    then show ?thesis using that by simp
  qed
  note qb = quad_bytes_group[OF assms(1), of p] and ql = quad_loop_three[OF v(1) sextet_char(1) v(3) sextet_char(1)]
  from assms(2) consider "p = 0" | "p = 1" "take_bit 6 n = 0" | "p = 2" "take_bit 12 n = 0" by blast
  then show ?thesis
  proof cases
    case 1
    then show ?thesis using ql(1)[OF v(5) sextet_char(1) v(7) sextet_char(1)] qb v by simp
  next
    case 2
    then show ?thesis using ql(2)[OF v(5) sextet_char(1)] qb v by simp
  next
    case 3
    then show ?thesis using ql(3) qb v z z6 by simp
  qed
qed

lemma decode_quads_encode: "decode_quads (encode xs) = Inr xs \<and> length (encode xs) mod 4 = 0"
proof (induction xs rule: encode.induct)
  case (1 a b c rest)
  define n :: u32 where "n = push_bit 16 (ucast a) OR push_bit 8 (ucast b) OR ucast c"
  note g = group_bytes[of a b c, folded n_def]
  from quad_group[OF g(1), of 0] g
  obtain q where q: "quad_loop [sextet n 18, sextet n 12, sextet n 6, sextet n 0] 0 [0, 0, 0, 0] 0 = Inr (q, 0)" "quad_bytes q 0 = [a, b, c]" by auto
  have e: "encode (a # b # c # rest) = [sextet n 18, sextet n 12, sextet n 6, sextet n 0] @ encode rest" by (simp add: n_def Let_def)
  show ?case unfolding e using 1 q by simp
next
  case (2 a)
  define n :: u32 where "n = push_bit 16 (ucast a)"
  have nn: "n = push_bit 16 (ucast a) OR push_bit 8 (ucast (0 :: u8)) OR ucast (0 :: u8)" by (simp add: n_def)
  note g = group_bytes[of a 0 0, folded nn]
  have "take_bit 12 n = 0" by (simp add: n_def take_bit_push_bit)
  with quad_group[OF g(1), of 2] g
  obtain q where q: "quad_loop [sextet n 18, sextet n 12, PAD, PAD] 0 [0, 0, 0, 0] 0 = Inr (q, 2)" "quad_bytes q 2 = [a]" by auto
  have e: "encode [a] = [sextet n 18, sextet n 12, PAD, PAD]" by (simp add: n_def Let_def)
  show ?case unfolding e using q by simp
next
  case (3 a b)
  define n :: u32 where "n = push_bit 16 (ucast a) OR push_bit 8 (ucast b)"
  have nn: "n = push_bit 16 (ucast a) OR push_bit 8 (ucast b) OR ucast (0 :: u8)" by (simp add: n_def)
  note g = group_bytes[of a b 0, folded nn]
  have "take_bit 6 n = 0" by (simp add: n_def take_bit_or take_bit_push_bit)
  with quad_group[OF g(1), of 1] g
  obtain q where q: "quad_loop [sextet n 18, sextet n 12, sextet n 6, PAD] 0 [0, 0, 0, 0] 0 = Inr (q, 1)" "quad_bytes q 1 = [a, b]" by auto
  have e: "encode [a, b] = [sextet n 18, sextet n 12, sextet n 6, PAD]" by (simp add: n_def Let_def)
  show ?case unfolding e using q by simp
qed simp

text \<open>
  Encoding is faithful: for every byte string the encoder's text has a length divisible by four and the decoder gives
  the string back, whatever the length of the last group. The decoder is more liberal than the encoder: a group that is all
  padding is accepted and decodes to one zero byte, so text that no encoder produces is not rejected.
\<close>

theorem base64_roundtrip: "decode (encode xs) = Inr xs \<and> length (encode xs) mod 4 = 0 \<and> decode [PAD, PAD, PAD, PAD] = Inr [0]"
  using decode_quads_encode[of xs] by (simp add: decode_def quad_bytes_def Let_def)

end
