(* ===== verification/Crc.thy ===== *)
theory Crc
  imports Prelude
begin

text \<open>
  The two checksums of the durable formats (\<open>spg-crypto/src/crc32.rs\<close> and \<open>crc32c.rs\<close>): the lazily built
  table of 256 entries, the byte-at-a-time update, and the start-up protocol by which the first caller
  fills the table while the others wait. The two files differ in the polynomial only, so it is a
  parameter of the shared definitions. The atomics are read and written in one total order.
\<close>

definition POLY :: u32 where "POLY = 0xEDB88320"
definition POLY_C :: u32 where "POLY_C = 0x82F63B78"

section \<open>Table and checksum\<close>

definition crc_bit :: "u32 \<Rightarrow> u32 \<Rightarrow> u32" where
  "crc_bit poly c = (if c AND 1 \<noteq> 0 then poly XOR drop_bit 1 c else drop_bit 1 c)"

definition table_entry :: "u32 \<Rightarrow> nat \<Rightarrow> u32" where
  "table_entry poly i = (crc_bit poly ^^ 8) (word_of_nat i)"

definition crc_table :: "u32 \<Rightarrow> u32 list" where
  "crc_table poly = map (table_entry poly) [0..<256]"

definition crc_update :: "u32 list \<Rightarrow> u32 \<Rightarrow> u8 \<Rightarrow> u32" where
  "crc_update table crc b =
     (let idx = unat ((crc XOR ucast b) AND 0xFF) in drop_bit 8 crc XOR table ! idx)"

definition crc_with :: "u32 list \<Rightarrow> bytes \<Rightarrow> u32" where
  "crc_with table data = foldl (crc_update table) 0xFFFFFFFF data XOR 0xFFFFFFFF"

definition crc32 :: "bytes \<Rightarrow> u32" where "crc32 data = crc_with (crc_table POLY) data"
definition crc32c :: "bytes \<Rightarrow> u32" where "crc32c data = crc_with (crc_table POLY_C) data"

text \<open>The defining recurrence, one bit at a time.\<close>

definition crc_bytewise :: "u32 \<Rightarrow> u32 \<Rightarrow> u8 \<Rightarrow> u32" where
  "crc_bytewise poly crc b = (crc_bit poly ^^ 8) (crc XOR ucast b)"

definition crc_spec :: "u32 \<Rightarrow> bytes \<Rightarrow> u32" where
  "crc_spec poly data = foldl (crc_bytewise poly) 0xFFFFFFFF data XOR 0xFFFFFFFF"

section \<open>The bit step is linear and invertible\<close>

lemma crc_bit_odd: "crc_bit poly c = (if odd c then poly XOR drop_bit 1 c else drop_bit 1 c)"
  by (simp add: crc_bit_def and_one_eq odd_iff_mod_2_eq_one)

lemma crc_bit_xor: "crc_bit poly (x XOR y) = crc_bit poly x XOR crc_bit poly y"
  by (simp add: crc_bit_odd drop_bit_xor even_xor_iff xor.left_commute xor.assoc)

lemma crc_bits_xor: "(crc_bit poly ^^ n) (x XOR y) = (crc_bit poly ^^ n) x XOR (crc_bit poly ^^ n) y"
  by (induction n) (simp_all add: crc_bit_xor)

lemma crc_bits_zero [simp]: "(crc_bit poly ^^ n) 0 = 0"
  by (induction n) (simp_all add: crc_bit_odd)

lemma crc_bit_eq_0:
  assumes "bit poly 31" "crc_bit poly x = 0"
  shows "x = 0"
proof -
  have "even x"
  proof (rule ccontr)
    assume "odd x"
    then have "poly XOR drop_bit 1 x = 0" using assms(2) by (simp add: crc_bit_odd)
    then have "\<not> bit (poly XOR drop_bit 1 x) 31" by simp
    then show False using assms(1) bit_imp_le_length[of x 32] by (auto simp: bit_xor_iff bit_drop_bit_eq)
  qed
  then have d: "drop_bit 1 x = 0" using assms(2) by (simp add: crc_bit_odd)
  have "\<not> bit x n" for n
  proof (cases n)
    case 0
    then show ?thesis using \<open>even x\<close> by (simp add: bit_0)
  next
    case (Suc m)
    have "\<not> bit (drop_bit 1 x) m" using d by simp
    then show ?thesis using Suc by (simp add: bit_drop_bit_eq)
  qed
  then show ?thesis by (simp add: bit_eq_iff)
qed

lemma crc_bits_eq_0: "bit poly 31 \<Longrightarrow> (crc_bit poly ^^ n) x = 0 \<Longrightarrow> x = 0"
  by (induction n) (auto dest: crc_bit_eq_0)

lemma xor_cancel: "(x XOR z = y XOR z) = (x = y)" "(x XOR y = 0) = (x = y)" for x y z :: "'a::len word"
  by (auto simp: bit_eq_iff bit_xor_iff)

lemma xor_solve: "(x XOR y = z) = (y = x XOR z)" for x y z :: "'a::len word"
  by (auto simp: bit_eq_iff bit_xor_iff)

lemma crc_bits_inj: "bit poly 31 \<Longrightarrow> (crc_bit poly ^^ n) x = (crc_bit poly ^^ n) y \<Longrightarrow> x = y"
proof -
  assume p: "bit poly 31" and e: "(crc_bit poly ^^ n) x = (crc_bit poly ^^ n) y"
  then have "(crc_bit poly ^^ n) (x XOR y) = 0" by (simp add: crc_bits_xor)
  with crc_bits_eq_0[OF p] have "x XOR y = 0" by blast
  then show "x = y" by (simp only: xor_cancel)
qed

lemma crc_bits_shift: "take_bit n x = 0 \<Longrightarrow> (crc_bit poly ^^ n) x = drop_bit n x"
proof (induction n arbitrary: x)
  case (Suc n)
  have b: "\<not> bit x k" if "k < Suc n" for k
  proof -
    have "\<not> bit (take_bit (Suc n) x) k" using Suc.prems by simp
    then show ?thesis using that by (simp add: bit_take_bit_iff)
  qed
  have "crc_bit poly x = drop_bit 1 x" using b[of 0] by (simp add: crc_bit_odd bit_0)
  moreover have "take_bit n (drop_bit 1 x) = 0" using b by (auto simp: bit_eq_iff bit_take_bit_iff bit_drop_bit_eq)
  ultimately have "(crc_bit poly ^^ Suc n) x = drop_bit n (drop_bit 1 x)" using Suc.IH by (simp only: funpow_Suc_right o_apply)
  then show ?case by simp
qed simp

lemma table_step: "(crc_bit poly ^^ 8) c = drop_bit 8 c XOR crc_table poly ! unat (c AND 0xFF)"
proof -
  let ?lo = "take_bit 8 c" and ?hi = "push_bit 8 (drop_bit 8 c)"
  have split: "c = ?hi XOR ?lo"
    by (auto simp: bit_eq_iff bit_xor_iff bit_push_bit_iff bit_take_bit_iff bit_drop_bit_eq)
  have "take_bit 8 ?hi = 0" by (simp add: take_bit_push_bit)
  then have hi: "(crc_bit poly ^^ 8) ?hi = drop_bit 8 c"
    by (subst crc_bits_shift) (auto simp: bit_eq_iff bit_push_bit_iff bit_drop_bit_eq dest: bit_imp_le_length)
  have m: "c AND 0xFF = ?lo" by (simp add: take_bit_eq_mask mask_eq_exp_minus_1)
  have lt: "unat ?lo < 256" using take_bit_nat_less_exp[of 8 "unat c"] by (simp add: unsigned_take_bit_eq)
  have "(crc_bit poly ^^ 8) c = drop_bit 8 c XOR (crc_bit poly ^^ 8) ?lo"
    by (subst split) (simp only: crc_bits_xor hi)
  also have "(crc_bit poly ^^ 8) ?lo = crc_table poly ! unat ?lo" using lt by (simp add: crc_table_def table_entry_def)
  finally show ?thesis by (simp only: m)
qed

lemma crc_update_bytewise: "crc_update (crc_table poly) crc b = crc_bytewise poly crc b"
proof -
  have "drop_bit 8 (ucast b :: u32) = 0"
    by (auto simp: bit_eq_iff bit_drop_bit_eq bit_unsigned_iff dest: bit_imp_le_length)
  then show ?thesis by (simp add: crc_update_def crc_bytewise_def table_step Let_def drop_bit_xor)
qed


section \<open>Bursts\<close>

fun burst_word :: "bytes \<Rightarrow> u32" where
  "burst_word [] = 0"
| "burst_word (b # bs) = ucast b XOR push_bit 8 (burst_word bs)"

lemma byte_low: "take_bit 8 (ucast b :: u32) = ucast b" for b :: u8
  by (auto simp: bit_eq_iff bit_take_bit_iff bit_unsigned_iff dest: bit_imp_le_length)

lemma byte_xor: "(ucast (a XOR b) :: u32) = ucast a XOR ucast b" for a b :: u8
  by (auto simp: bit_eq_iff bit_xor_iff bit_unsigned_iff)

lemma burst_small: "bit (burst_word bs) k \<Longrightarrow> k < 8 * length bs"
proof (induction bs arbitrary: k)
  case (Cons b bs)
  then consider "bit b k" | "8 \<le> k" "bit (burst_word bs) (k - 8)"
    by (auto simp: bit_xor_iff bit_push_bit_iff bit_unsigned_iff)
  then show ?case
  proof cases
    case 1
    then show ?thesis using bit_imp_le_length[of b k] by simp
  next
    case 2
    then show ?thesis using Cons.IH[of "k - 8"] by auto
  qed
qed simp

lemma burst_shift: "length bs \<le> 3 \<Longrightarrow> drop_bit 8 (push_bit 8 (burst_word bs)) = burst_word bs"
  using burst_small[of bs] by (fastforce simp: bit_eq_iff bit_drop_bit_eq bit_push_bit_iff)

lemma burst_run: "length e \<le> 4 \<Longrightarrow> foldl (crc_bytewise poly) d e = (crc_bit poly ^^ (8 * length e)) (d XOR burst_word e)"
proof (induction e arbitrary: d)
  case (Cons b e)
  have "take_bit 8 (push_bit 8 (burst_word e)) = 0" by (simp add: take_bit_push_bit)
  then have sh: "(crc_bit poly ^^ 8) (push_bit 8 (burst_word e)) = burst_word e"
    using crc_bits_shift[of 8 "push_bit 8 (burst_word e)" poly] burst_shift[of e] Cons.prems by simp
  have "(crc_bit poly ^^ 8) (d XOR burst_word (b # e)) = crc_bytewise poly d b XOR burst_word e"
    unfolding burst_word.simps xor.assoc[symmetric] crc_bits_xor[of 8 poly "d XOR ucast b"] sh by (simp add: crc_bytewise_def)
  then have "(crc_bit poly ^^ (8 * length (b # e))) (d XOR burst_word (b # e))
      = (crc_bit poly ^^ (8 * length e)) (crc_bytewise poly d b XOR burst_word e)"
    by (simp only: funpow_add o_apply length_Cons mult_Suc_right add.commute[of 8])
  then show ?case using Cons by simp
qed simp

lemma burst_zero: "length e \<le> 4 \<Longrightarrow> burst_word e = 0 \<Longrightarrow> \<forall>b\<in>set e. b = 0"
proof (induction e)
  case (Cons b e)
  have "take_bit 8 (ucast b XOR push_bit 8 (burst_word e)) = (ucast b :: u32)"
    by (simp add: take_bit_xor byte_low take_bit_push_bit)
  then have b: "(ucast b :: u32) = 0" using Cons.prems(2) by (simp only: burst_word.simps take_bit_of_0)
  then have "b = 0" by (auto simp: bit_eq_iff bit_unsigned_iff)
  moreover have "burst_word e = 0" using burst_shift[of e] Cons.prems b by simp
  ultimately show ?case using Cons by simp
qed simp

lemma run_xor:
  "length a = length b \<Longrightarrow> foldl (crc_bytewise poly) s a XOR foldl (crc_bytewise poly) t b
    = foldl (crc_bytewise poly) (s XOR t) (map2 (XOR) a b)"
proof (induction a b arbitrary: s t rule: list_induct2)
  case (Cons x a y b)
  have "crc_bytewise poly s x XOR crc_bytewise poly t y = crc_bytewise poly (s XOR t) (x XOR y)"
    by (simp add: crc_bytewise_def crc_bits_xor byte_xor xor.assoc xor.left_commute)
  then show ?case using Cons.IH by simp
qed simp

lemma run_inj: "bit poly 31 \<Longrightarrow> foldl (crc_bytewise poly) s bs = foldl (crc_bytewise poly) t bs \<Longrightarrow> s = t"
proof (induction bs arbitrary: s t)
  case (Cons b bs)
  then have "crc_bytewise poly s b = crc_bytewise poly t b" by simp
  then have "s XOR ucast b = t XOR ucast b" using crc_bits_inj Cons.prems(1) by (simp add: crc_bytewise_def)
  then show ?case by (simp only: xor_cancel)
qed simp

lemma burst_differs:
  assumes "bit poly 31" "length a = length b" "length a \<le> 4" "a \<noteq> b"
  shows "crc_spec poly (pre @ a @ post) \<noteq> crc_spec poly (pre @ b @ post)"
proof
  let ?U = "crc_bytewise poly" and ?s = "foldl (crc_bytewise poly) 0xFFFFFFFF pre"
  assume "crc_spec poly (pre @ a @ post) = crc_spec poly (pre @ b @ post)"
  then have "foldl ?U (foldl ?U ?s a) post = foldl ?U (foldl ?U ?s b) post"
    unfolding crc_spec_def foldl_append by (simp only: xor_cancel)
  then have "foldl ?U ?s a = foldl ?U ?s b" by (rule run_inj[OF assms(1)])
  then have "foldl ?U 0 (map2 (XOR) a b) = 0" using run_xor[OF assms(2), of poly ?s ?s] by simp
  then have "burst_word (map2 (XOR) a b) = 0"
    using burst_run[of "map2 (XOR) a b" poly 0] crc_bits_eq_0[OF assms(1)] assms(2,3) by simp
  then have z: "\<forall>x\<in>set (map2 (XOR) a b). x = 0" using assms(2,3) by (intro burst_zero) auto
  have "a = b"
  proof (rule nth_equalityI)
    fix i assume "i < length a"
    then have "a ! i XOR b ! i = 0" using z assms(2) by (fastforce simp: set_zip)
    then show "a ! i = b ! i" by (simp only: xor_cancel)
  qed (rule assms(2))
  then show False using assms(4) by simp
qed

lemma crc_with_spec: "crc_with (crc_table poly) data = crc_spec poly data"
proof -
  have "crc_update (crc_table poly) = crc_bytewise poly" by (intro ext) (rule crc_update_bytewise)
  then show ?thesis by (simp add: crc_with_def crc_spec_def)
qed

lemma poly_top [simp]: "bit POLY 31" "bit POLY_C 31"
  by (simp_all add: POLY_def POLY_C_def bit_iff_odd drop_bit_eq_div)

text \<open>
  Both checksums compute the defining recurrence and detect every burst. For every byte string, looking one byte at a time
  up in the 256-entry table gives what shifting the string through the polynomial one bit at a time gives, for the IEEE and for
  the Castagnoli polynomial; and if two records of the same length differ only within four consecutive bytes, in particular
  if any single byte was changed, their checksums differ.
\<close>

theorem crc_burst_detected:
  assumes "length a = length b" "length a \<le> 4" "a \<noteq> b"
  shows "crc32 data = crc_spec POLY data \<and> crc32c data = crc_spec POLY_C data
    \<and> crc32 (pre @ a @ post) \<noteq> crc32 (pre @ b @ post) \<and> crc32c (pre @ a @ post) \<noteq> crc32c (pre @ b @ post)"
  using burst_differs[OF _ assms] by (simp add: crc32_def crc32c_def crc_with_spec)

theorem crc_burst_detected_witness: "crc32 [104, 101, 108, 108, 111] \<noteq> crc32 [104, 101, 109, 108, 111]"
  using crc_burst_detected[of "[108]" "[109]" "[]" "[104, 101]" "[108, 111]"] by simp


section \<open>Records that carry their checksum\<close>

lemma burst_word_le: "burst_word bs = word_of_nat (le_nat bs)"
proof (induction bs)
  case (Cons b bs)
  have "(ucast b :: u32) AND push_bit 8 (burst_word bs) = 0"
    by (auto simp: bit_eq_iff bit_and_iff bit_push_bit_iff bit_unsigned_iff dest: bit_imp_le_length)
  then have "burst_word (b # bs) = ucast b + push_bit 8 (burst_word bs)" by (simp add: disjunctive_add_eq_xor)
  then show ?case by (simp add: Cons push_bit_eq_mult mult.commute)
qed simp

text \<open>Running the register over a record and its trailer ends in one fixed value exactly when the trailer is right.\<close>

lemma trailer_residue:
  assumes "bit poly 31" "length t = 4"
  shows "(le_u32 t = crc_spec poly body) = (foldl (crc_bytewise poly) 0xFFFFFFFF (body @ t) = (crc_bit poly ^^ 32) 0xFFFFFFFF)"
proof -
  let ?r = "foldl (crc_bytewise poly) 0xFFFFFFFF body"
  have "foldl (crc_bytewise poly) 0xFFFFFFFF (body @ t) = (crc_bit poly ^^ 32) (?r XOR le_u32 t)"
    using burst_run[of t poly ?r] assms(2) by (simp add: burst_word_le le_u32_def)
  moreover have "(?r XOR le_u32 t = 0xFFFFFFFF) = (le_u32 t = ?r XOR 0xFFFFFFFF)" by (rule xor_solve)
  ultimately show ?thesis using crc_bits_inj[OF assms(1), of 32] by (auto simp: crc_spec_def)
qed

lemma sealed_burst:
  assumes "bit poly 31" "length t = 4" "length t' = 4" "le_u32 t = crc_spec poly body"
    and "body @ t = pre @ x @ post" "body' @ t' = pre @ y @ post" "length x = length y" "length x \<le> 4" "x \<noteq> y"
  shows "le_u32 t' \<noteq> crc_spec poly body'"
proof
  assume "le_u32 t' = crc_spec poly body'"
  then have "crc_spec poly (body' @ t') = crc_spec poly (body @ t)"
    using assms(4) trailer_residue[OF assms(1,2), of body] trailer_residue[OF assms(1,3), of body'] by (simp add: crc_spec_def)
  then show False using burst_differs[OF assms(1,7-9), of pre post] by (simp only: assms(5,6))
qed

section \<open>Filling the table\<close>

text \<open>
  \<open>ensure_table\<close> as each thread runs it: a load of the state byte, the compare-and-exchange, one
  store for each entry, the final store of \<open>READY\<close>. A schedule says which thread takes the next step.
\<close>

definition UNINIT :: u8 where "UNINIT = 0"
definition INIT :: u8 where "INIT = 1"
definition READY :: u8 where "READY = 2"

lemmas state_bytes = UNINIT_def INIT_def READY_def

datatype init_pc = At_load | At_cas | Filling nat | Returned

record table_state =
  ts_state :: u8
  ts_table :: "u32 list"
  ts_pc :: "nat \<Rightarrow> init_pc"

definition table_init :: table_state where
  "table_init = \<lparr>ts_state = UNINIT, ts_table = replicate 256 0, ts_pc = (\<lambda>_. At_load)\<rparr>"

definition goto :: "nat \<Rightarrow> init_pc \<Rightarrow> table_state \<Rightarrow> table_state" where
  "goto t pc s = s\<lparr>ts_pc := (ts_pc s)(t := pc)\<rparr>"

definition ensure_step :: "u32 \<Rightarrow> nat \<Rightarrow> table_state \<Rightarrow> table_state" where
  "ensure_step poly t s =
     (case ts_pc s t of
        At_load \<Rightarrow>
          (if ts_state s = READY then goto t Returned s
           else if ts_state s = UNINIT then goto t At_cas s
           else s)
      | At_cas \<Rightarrow> (if ts_state s = UNINIT then goto t (Filling 0) (s\<lparr>ts_state := INIT\<rparr>) else goto t At_load s)
      | Filling i \<Rightarrow>
          (if i < 256 then goto t (Filling (i + 1)) (s\<lparr>ts_table := (ts_table s)[i := table_entry poly i]\<rparr>)
           else goto t Returned (s\<lparr>ts_state := READY\<rparr>))
      | Returned \<Rightarrow> s)"

fun trace :: "u32 \<Rightarrow> (nat \<Rightarrow> nat) \<Rightarrow> nat \<Rightarrow> table_state" where
  "trace poly sched 0 = table_init"
| "trace poly sched (Suc n) = ensure_step poly (sched n) (trace poly sched n)"

lemma state_distinct [simp]: "UNINIT \<noteq> INIT" "INIT \<noteq> UNINIT" "UNINIT \<noteq> READY" "READY \<noteq> UNINIT" "INIT \<noteq> READY" "READY \<noteq> INIT"
  by (simp_all add: state_bytes)

lemma goto_simps [simp]:
  "ts_state (goto t pc s) = ts_state s" "ts_table (goto t pc s) = ts_table s"
  "ts_pc (goto t pc s) = (ts_pc s)(t := pc)"
  by (simp_all add: goto_def)

lemma length_crc_table [simp]: "length (crc_table poly) = 256" by (simp add: crc_table_def)

text \<open>The three phases of the protocol, and what one step does in each.\<close>

definition waiting :: "init_pc \<Rightarrow> bool" where "waiting pc = (pc = At_load \<or> pc = At_cas)"

definition phase_uninit :: "table_state \<Rightarrow> bool" where
  "phase_uninit s = (length (ts_table s) = 256 \<and> ts_state s = UNINIT \<and> (\<forall>t. waiting (ts_pc s t)))"

definition phase_init :: "u32 \<Rightarrow> nat \<Rightarrow> nat \<Rightarrow> table_state \<Rightarrow> bool" where
  "phase_init poly u i s = (length (ts_table s) = 256 \<and> ts_state s = INIT \<and> ts_pc s u = Filling i \<and> i \<le> 256
     \<and> take i (ts_table s) = take i (crc_table poly) \<and> (\<forall>t. t \<noteq> u \<longrightarrow> waiting (ts_pc s t)))"

definition phase_ready :: "u32 \<Rightarrow> table_state \<Rightarrow> bool" where
  "phase_ready poly s = (ts_state s = READY \<and> ts_table s = crc_table poly \<and> (\<forall>t. waiting (ts_pc s t) \<or> ts_pc s t = Returned))"

definition table_inv :: "u32 \<Rightarrow> table_state \<Rightarrow> bool" where
  "table_inv poly s = (phase_uninit s \<or> (\<exists>u i. phase_init poly u i s) \<or> phase_ready poly s)"

lemma step_uninit:
  assumes "phase_uninit s"
  shows "ts_pc s t = At_load \<and> phase_uninit (ensure_step poly t s) \<and> ts_pc (ensure_step poly t s) = (ts_pc s)(t := At_cas)
    \<or> phase_init poly t 0 (ensure_step poly t s)"
proof -
  have "waiting (ts_pc s t)" using assms by (simp add: phase_uninit_def)
  then consider "ts_pc s t = At_load" | "ts_pc s t = At_cas" unfolding waiting_def by blast
  then show ?thesis
    using assms by cases (simp_all add: ensure_step_def phase_uninit_def phase_init_def waiting_def)
qed

lemma step_filler:
  assumes "phase_init poly u i s"
  shows "i < 256 \<Longrightarrow> phase_init poly u (i + 1) (ensure_step poly u s)" "i = 256 \<Longrightarrow> phase_ready poly (ensure_step poly u s)"
proof -
  note a = assms[unfolded phase_init_def]
  show "phase_init poly u (i + 1) (ensure_step poly u s)" if i: "i < 256"
  proof -
    have "take (Suc i) ((ts_table s)[i := table_entry poly i]) = take (Suc i) (crc_table poly)"
      using i a by (simp add: take_Suc_conv_app_nth) (simp add: crc_table_def)
    then show ?thesis using a i by (simp add: ensure_step_def phase_init_def)
  qed
  show "phase_ready poly (ensure_step poly u s)" if "i = 256"
    using a that by (auto simp: ensure_step_def phase_ready_def)
qed

lemma step_waiter:
  assumes "phase_init poly u i s" "t \<noteq> u"
  shows "phase_init poly u i (ensure_step poly t s)"
proof -
  note a = assms(1)[unfolded phase_init_def]
  have "waiting (ts_pc s t)" using a assms(2) by blast
  then consider "ts_pc s t = At_load" | "ts_pc s t = At_cas" unfolding waiting_def by blast
  then show ?thesis
  proof cases
    case 1
    then show ?thesis using a assms by (simp add: ensure_step_def)
  next
    case 2
    then show ?thesis using a assms(2) by (simp add: ensure_step_def phase_init_def waiting_def)
  qed
qed

lemma step_ready:
  assumes "phase_ready poly s"
  shows "phase_ready poly (ensure_step poly t s)" "ts_pc s t \<noteq> At_cas \<Longrightarrow> ts_pc (ensure_step poly t s) t = Returned"
    "ts_pc s t = At_cas \<Longrightarrow> ts_pc (ensure_step poly t s) t = At_load"
proof -
  note a = assms[unfolded phase_ready_def]
  then consider "ts_pc s t = At_load" | "ts_pc s t = At_cas" | "ts_pc s t = Returned" unfolding waiting_def by blast
  then show "phase_ready poly (ensure_step poly t s)" "ts_pc s t \<noteq> At_cas \<Longrightarrow> ts_pc (ensure_step poly t s) t = Returned"
    "ts_pc s t = At_cas \<Longrightarrow> ts_pc (ensure_step poly t s) t = At_load"
    using a by (cases, simp_all add: ensure_step_def phase_ready_def waiting_def)+
qed

lemma ensure_step_inv:
  assumes "table_inv poly s"
  shows "table_inv poly (ensure_step poly t s)"
proof -
  from assms consider "phase_uninit s" | u i where "phase_init poly u i s" | "phase_ready poly s" unfolding table_inv_def by blast
  then show ?thesis
  proof cases
    case 1
    then show ?thesis using step_uninit[OF 1, of t poly] by (auto simp: table_inv_def)
  next
    case 2
    then have "i < 256 \<or> i = 256" by (auto simp: phase_init_def)
    then show ?thesis using step_filler[OF 2] step_waiter[OF 2, of t] by (cases "t = u") (auto simp: table_inv_def)
  next
    case 3
    then show ?thesis using step_ready by (auto simp: table_inv_def)
  qed
qed

lemma trace_inv: "table_inv poly (trace poly sched n)"
proof (induction n)
  case 0
  then show ?case by (simp add: table_inv_def phase_uninit_def table_init_def waiting_def)
qed (simp add: ensure_step_inv)

section \<open>Every caller returns\<close>

definition fair :: "nat set \<Rightarrow> (nat \<Rightarrow> nat) \<Rightarrow> bool" where
  "fair T sched = ((\<forall>n. sched n \<in> T) \<and> (\<forall>t\<in>T. \<forall>n. \<exists>m\<ge>n. sched m = t))"

text \<open>The next time a thread is scheduled: nothing it owns changes before.\<close>

lemma next_turn:
  assumes "fair T sched" "t \<in> T"
  obtains m where "n \<le> m" "sched m = t" "\<forall>k. n \<le> k \<and> k < m \<longrightarrow> sched k \<noteq> t"
proof -
  define m where "m = (LEAST m. n \<le> m \<and> sched m = t)"
  have "\<exists>m. n \<le> m \<and> sched m = t" using assms by (auto simp: fair_def)
  then have "n \<le> m \<and> sched m = t" unfolding m_def by (rule LeastI_ex)
  moreover have "\<forall>k. n \<le> k \<and> k < m \<longrightarrow> sched k \<noteq> t" unfolding m_def using not_less_Least by blast
  ultimately show ?thesis using that by blast
qed

lemma stays_until:
  assumes "P (trace poly sched n)" "\<And>k. n \<le> k \<Longrightarrow> k < m \<Longrightarrow> P (trace poly sched k) \<Longrightarrow> P (trace poly sched (Suc k))" "n \<le> m"
  shows "P (trace poly sched m)"
  using assms(3,1,2)
proof (induction rule: dec_induct)
  case (step k)
  then show ?case by (metis less_Suc_eq less_or_eq_imp_le)
qed


lemma other_pc: "t \<noteq> t' \<Longrightarrow> ts_pc (ensure_step poly t' s) t = ts_pc s t"
  by (simp add: ensure_step_def split: init_pc.split)

lemma idle_pc: "\<forall>n. sched n \<in> T \<Longrightarrow> t \<notin> T \<Longrightarrow> ts_pc (trace poly sched n) t = At_load"
proof (induction n)
  case (Suc n)
  then have "t \<noteq> sched n" by metis
  then show ?case using Suc other_pc by simp
qed (simp add: table_init_def)

lemma leaves_uninit:
  assumes "fair T sched"
  shows "\<exists>m\<ge>n. \<not> phase_uninit (trace poly sched m)"
proof (rule ccontr)
  assume "\<not> ?thesis"
  then have un: "n \<le> m \<Longrightarrow> phase_uninit (trace poly sched m)" for m by blast
  have no_init: "\<not> (phase_uninit s \<and> phase_init poly u i s)" for s u i by (auto simp: phase_uninit_def phase_init_def)
  let ?t = "sched n"
  have t: "?t \<in> T" using assms by (auto simp: fair_def)
  have c: "ts_pc (trace poly sched (Suc n)) ?t = At_cas"
    using step_uninit[OF un[of n], of ?t poly] no_init un[of "Suc n"] by auto
  obtain m where m: "Suc n \<le> m" "sched m = ?t" "\<forall>k. Suc n \<le> k \<and> k < m \<longrightarrow> sched k \<noteq> ?t" by (rule next_turn[OF assms t])
  have "ts_pc (trace poly sched m) ?t = At_cas"
    by (rule stays_until[where n="Suc n" and P="\<lambda>s. ts_pc s ?t = At_cas"]) (use c m other_pc in auto)
  then have "phase_init poly ?t 0 (trace poly sched (Suc m))" using step_uninit[OF un[of m], of ?t poly] m by auto
  then show False using no_init un[of "Suc m"] m(1) by auto
qed

lemma filler_finishes:
  assumes "fair T sched"
  shows "phase_init poly u i (trace poly sched n) \<Longrightarrow> \<exists>m\<ge>n. phase_ready poly (trace poly sched m)"
proof (induction "256 - i" arbitrary: i n)
  case 0
  have u: "u \<in> T" using 0(2) idle_pc[of sched T u poly n] assms by (force simp: fair_def phase_init_def)
  obtain m where m: "n \<le> m" "sched m = u" "\<forall>k. n \<le> k \<and> k < m \<longrightarrow> sched k \<noteq> u" by (rule next_turn[OF assms u])
  have p: "phase_init poly u i (trace poly sched m)"
    by (rule stays_until[where n=n and P="phase_init poly u i"]) (use 0(2) m step_waiter in auto)
  have "i = 256" using 0 by (simp add: phase_init_def)
  then have "phase_ready poly (trace poly sched (Suc m))" using step_filler(2)[OF p] m(2) by simp
  then show ?case using m(1) by (meson le_Suc_eq)
next
  case (Suc d)
  have u: "u \<in> T" using Suc(3) idle_pc[of sched T u poly n] assms by (force simp: fair_def phase_init_def)
  obtain m where m: "n \<le> m" "sched m = u" "\<forall>k. n \<le> k \<and> k < m \<longrightarrow> sched k \<noteq> u" by (rule next_turn[OF assms u])
  have p: "phase_init poly u i (trace poly sched m)"
    by (rule stays_until[where n=n and P="phase_init poly u i"]) (use Suc(3) m step_waiter in auto)
  have "phase_init poly u (i + 1) (trace poly sched (Suc m))" using step_filler(1)[OF p] m(2) Suc(2) by simp
  moreover have "d = 256 - (i + 1)" using Suc(2) by simp
  ultimately obtain m' where "Suc m \<le> m'" "phase_ready poly (trace poly sched m')" using Suc(1) by blast
  then show ?case using m(1) by (meson Suc_leD le_trans)
qed

lemma ready_persists: "phase_ready poly (trace poly sched n) \<Longrightarrow> n \<le> m \<Longrightarrow> phase_ready poly (trace poly sched m)"
  by (rule stays_until[where n=n and P="phase_ready poly"]) (auto simp: step_ready(1))

lemma becomes_ready: "fair T sched \<Longrightarrow> \<exists>m. phase_ready poly (trace poly sched m)"
proof -
  assume f: "fair T sched"
  obtain m where "\<not> phase_uninit (trace poly sched m)" using leaves_uninit[OF f, of 0 poly] by blast
  then show ?thesis using trace_inv[of poly sched m] filler_finishes[OF f] unfolding table_inv_def by blast
qed

lemma returns_once_ready:
  assumes "fair T sched" "t \<in> T" "phase_ready poly (trace poly sched n)"
  shows "\<exists>m\<ge>n. ts_pc (trace poly sched m) t = Returned"
proof -
  have turn: "\<exists>m\<ge>n'. ts_pc (trace poly sched (Suc m)) t = Returned \<or>
      ts_pc (trace poly sched n') t = At_cas \<and> ts_pc (trace poly sched (Suc m)) t = At_load" if "n \<le> n'" for n'
  proof -
    obtain m where m: "n' \<le> m" "sched m = t" "\<forall>k. n' \<le> k \<and> k < m \<longrightarrow> sched k \<noteq> t" by (rule next_turn[OF assms(1,2)])
    have "ts_pc (trace poly sched m) t = ts_pc (trace poly sched n') t"
      by (rule stays_until[where n=n' and P="\<lambda>s. ts_pc s t = ts_pc (trace poly sched n') t"]) (use m other_pc in auto)
    then show ?thesis using step_ready(2,3)[OF ready_persists[OF assms(3), of m], of t] m that by auto
  qed
  obtain m where m: "n \<le> m" "ts_pc (trace poly sched (Suc m)) t = Returned \<or> ts_pc (trace poly sched (Suc m)) t = At_load"
    using turn[of n] by auto
  then show ?thesis using turn[of "Suc m"] by (metis init_pc.distinct(1) le_SucI le_trans)
qed

text \<open>
  C21: the lazily built table is safe and every caller gets through. However the threads are interleaved, a caller that has
  returned from the initialisation finds the state byte ready and the table complete, so no checksum is computed from a
  partly filled table and no entry changes afterwards; and under a fair schedule every caller returns, although all but one
  of them spin.
\<close>

theorem crc_table_initialised:
  assumes "fair T sched" "t \<in> T"
  shows "(\<forall>n u. ts_pc (trace poly sched n) u = Returned \<longrightarrow> (\<forall>m\<ge>n. ts_table (trace poly sched m) = crc_table poly))
    \<and> (\<exists>n. ts_pc (trace poly sched n) t = Returned)"
proof (intro conjI allI impI)
  fix n u m
  assume r: "ts_pc (trace poly sched n) u = Returned" and "n \<le> m"
  have "phase_ready poly (trace poly sched n)"
  proof -
    have nw: "\<not> waiting (ts_pc (trace poly sched n) u)" using r by (simp add: waiting_def)
    have "\<not> phase_uninit (trace poly sched n)" using nw unfolding phase_uninit_def by blast
    moreover have "\<not> phase_init poly v i (trace poly sched n)" for v i
      using r by (cases "u = v") (auto simp: phase_init_def waiting_def)
    ultimately show ?thesis using trace_inv[of poly sched n] by (simp add: table_inv_def)
  qed
  from ready_persists[OF this \<open>n \<le> m\<close>] show "ts_table (trace poly sched m) = crc_table poly" unfolding phase_ready_def by blast
next
  show "\<exists>n. ts_pc (trace poly sched n) t = Returned"
    using becomes_ready[OF assms(1), of poly] returns_once_ready[OF assms] by blast
qed

theorem crc_table_initialised_witness: "\<exists>n. ts_pc (trace POLY (\<lambda>n. n mod 2) n) 1 = Returned"
proof -
  have "fair {0, 1} (\<lambda>n. n mod 2)"
  proof -
    have "\<exists>m\<ge>n. m mod 2 = (0::nat)" "\<exists>m\<ge>n. m mod 2 = (1::nat)" for n :: nat by presburger+
    then show ?thesis unfolding fair_def by auto
  qed
  from crc_table_initialised[OF this, of 1 POLY] show ?thesis by simp
qed

end
