(* ===== verification/Blake3.thy ===== *)
theory Blake3
  imports Prelude
begin

text \<open>
  BLAKE3 as the audit log uses it (\<open>spg-crypto/src/lib.rs\<close>): the mixing function, the compression of one
  block, chunks, parent nodes, and the recursion over the left-balanced tree. The vector variant of the
  compression exists for tests only and is not modelled.
\<close>

definition OUT_LEN :: nat where "OUT_LEN = 32"
definition BLOCK_LEN :: nat where "BLOCK_LEN = 64"
definition CHUNK_LEN :: nat where "CHUNK_LEN = 1024"
definition CHUNK_START :: u32 where "CHUNK_START = 1"
definition CHUNK_END :: u32 where "CHUNK_END = 2"
definition PARENT :: u32 where "PARENT = 4"
definition ROOT :: u32 where "ROOT = 8"

definition IV :: "u32 list" where
  "IV = [0x6A09E667, 0xBB67AE85, 0x3C6EF372, 0xA54FF53A, 0x510E527F, 0x9B05688C, 0x1F83D9AB, 0x5BE0CD19]"

definition MSG_PERMUTATION :: "nat list" where
  "MSG_PERMUTATION = [2, 6, 3, 10, 7, 0, 4, 13, 1, 11, 12, 5, 9, 14, 15, 8]"

section \<open>Compression\<close>

definition mix_g :: "u32 list \<Rightarrow> nat \<Rightarrow> nat \<Rightarrow> nat \<Rightarrow> nat \<Rightarrow> u32 \<Rightarrow> u32 \<Rightarrow> u32 list" where
  "mix_g s0 a b c d mx my =
     (let s1 = s0[a := s0 ! a + s0 ! b + mx];
          s2 = s1[d := word_rotr 16 (s1 ! d XOR s1 ! a)];
          s3 = s2[c := s2 ! c + s2 ! d];
          s4 = s3[b := word_rotr 12 (s3 ! b XOR s3 ! c)];
          s5 = s4[a := s4 ! a + s4 ! b + my];
          s6 = s5[d := word_rotr 8 (s5 ! d XOR s5 ! a)];
          s7 = s6[c := s6 ! c + s6 ! d]
      in s7[b := word_rotr 7 (s7 ! b XOR s7 ! c)])"

definition mix_round :: "u32 list \<Rightarrow> u32 list \<Rightarrow> u32 list" where
  "mix_round s m =
     (let s = mix_g s 0 4 8 12 (m ! 0) (m ! 1);
          s = mix_g s 1 5 9 13 (m ! 2) (m ! 3);
          s = mix_g s 2 6 10 14 (m ! 4) (m ! 5);
          s = mix_g s 3 7 11 15 (m ! 6) (m ! 7);
          s = mix_g s 0 5 10 15 (m ! 8) (m ! 9);
          s = mix_g s 1 6 11 12 (m ! 10) (m ! 11);
          s = mix_g s 2 7 8 13 (m ! 12) (m ! 13)
      in mix_g s 3 4 9 14 (m ! 14) (m ! 15))"

definition permute :: "u32 list \<Rightarrow> u32 list" where
  "permute m = map (\<lambda>i. m ! (MSG_PERMUTATION ! i)) [0..<16]"

definition output_mix :: "u32 list \<Rightarrow> u32 list \<Rightarrow> nat \<Rightarrow> u32 list" where
  "output_mix cv s i = (let s1 = s[i := s ! i XOR s ! (i + 8)] in s1[i + 8 := s1 ! (i + 8) XOR cv ! i])"

definition compress_scalar :: "u32 list \<Rightarrow> u32 list \<Rightarrow> u64 \<Rightarrow> u32 \<Rightarrow> u32 \<Rightarrow> u32 list" where
  "compress_scalar cv block_words counter block_len flags =
     (let state = [cv ! 0, cv ! 1, cv ! 2, cv ! 3, cv ! 4, cv ! 5, cv ! 6, cv ! 7, IV ! 0, IV ! 1, IV ! 2, IV ! 3,
                   ucast counter, ucast (drop_bit 32 counter), block_len, flags];
          b1 = block_words; s1 = mix_round state b1;
          b2 = permute b1; s2 = mix_round s1 b2;
          b3 = permute b2; s3 = mix_round s2 b3;
          b4 = permute b3; s4 = mix_round s3 b4;
          b5 = permute b4; s5 = mix_round s4 b5;
          b6 = permute b5; s6 = mix_round s5 b6;
          b7 = permute b6; s7 = mix_round s6 b7
      in foldl (output_mix cv) s7 [0..<8])"

section \<open>Chunks and tree\<close>

definition words_from_le_bytes :: "bytes \<Rightarrow> u32 list" where
  "words_from_le_bytes bs = map (\<lambda>i. le_u32 (take 4 (drop (i * 4) bs))) [0..<16]"

definition bytes_from_le_words :: "u32 list \<Rightarrow> bytes" where
  "bytes_from_le_words ws = concat (map u32_le ws)"

definition chunk_block :: "bytes \<Rightarrow> nat \<Rightarrow> nat \<Rightarrow> u64 \<Rightarrow> bool \<Rightarrow> u32 \<Rightarrow> u32 list \<Rightarrow> u32 list" where
  "chunk_block input block_count b_idx chunk_counter is_root base_flags cv =
     (let start = b_idx * BLOCK_LEN;
          ending = min (start + BLOCK_LEN) (length input);
          block = (if start < ending
                   then take (ending - start) (drop start input) @ replicate (BLOCK_LEN - (ending - start)) 0
                   else replicate BLOCK_LEN 0);
          block_len = word_of_nat (ending - start);
          f1 = (if b_idx = 0 then base_flags OR CHUNK_START else base_flags);
          f2 = (if b_idx = block_count - 1
                then (let f = f1 OR CHUNK_END in if is_root then f OR ROOT else f) else f1)
      in take 8 (compress_scalar cv (words_from_le_bytes block) chunk_counter block_len f2))"

definition hash_chunk :: "bytes \<Rightarrow> u64 \<Rightarrow> bool \<Rightarrow> u32 \<Rightarrow> u32 list" where
  "hash_chunk input chunk_counter is_root base_flags =
     (let block_count = (if input = [] then 1 else (length input + BLOCK_LEN - 1) div BLOCK_LEN)
      in foldl (\<lambda>cv b_idx. chunk_block input block_count b_idx chunk_counter is_root base_flags cv) IV [0..<block_count])"

definition parent_cv :: "u32 list \<Rightarrow> u32 list \<Rightarrow> bool \<Rightarrow> u32 \<Rightarrow> u32 list" where
  "parent_cv left right is_root base_flags =
     (let f = base_flags OR PARENT; flags = (if is_root then f OR ROOT else f)
      in take 8 (compress_scalar IV (take 8 left @ take 8 right) 0 (word_of_nat BLOCK_LEN) flags))"

text \<open>\<open>usize::BITS - 1 - n.leading_zeros()\<close>, the position of the highest bit.\<close>

function high_bit :: "nat \<Rightarrow> nat" where
  "high_bit n = (if n < 2 then 0 else Suc (high_bit (n div 2)))"
  by pat_completeness auto
termination
  by (relation "measure id") auto

declare high_bit.simps [simp del]

definition largest_power_of_two_leq :: "nat \<Rightarrow> nat" where
  "largest_power_of_two_leq n = 2 ^ high_bit n"

definition chunk_count :: "bytes \<Rightarrow> nat" where
  "chunk_count input = (length input + CHUNK_LEN - 1) div CHUNK_LEN"

lemma high_bit_bounds: "0 < n \<Longrightarrow> 2 ^ high_bit n \<le> n \<and> n < 2 * 2 ^ high_bit n"
proof (induction n rule: high_bit.induct)
  case (1 n)
  show ?case
  proof (cases "n < 2")
    case True
    then show ?thesis using 1(2) by (subst (1 2) high_bit.simps) simp
  next
    case False
    then have "2 ^ high_bit (n div 2) \<le> n div 2" "n div 2 < 2 * 2 ^ high_bit (n div 2)" using 1(1)[OF False] by auto
    then show ?thesis using False by (subst (1 2) high_bit.simps) auto
  qed
qed

lemma left_part:
  assumes "CHUNK_LEN < length input"
  defines "k \<equiv> largest_power_of_two_leq (chunk_count input - 1)"
  shows "0 < k" "k < chunk_count input" "k * CHUNK_LEN < length input" "2 \<le> chunk_count input" "chunk_count input \<le> 2 * k"
proof -
  have c: "2 \<le> chunk_count input" "(chunk_count input - 1) * CHUNK_LEN < length input"
    using assms(1) by (auto simp: chunk_count_def CHUNK_LEN_def)
  then have b: "k \<le> chunk_count input - 1" "chunk_count input - 1 < 2 * k"
    using high_bit_bounds[of "chunk_count input - 1"] by (auto simp: k_def largest_power_of_two_leq_def)
  then show "0 < k" "k < chunk_count input" "2 \<le> chunk_count input" "chunk_count input \<le> 2 * k" using c by auto
  have "k * CHUNK_LEN \<le> (chunk_count input - 1) * CHUNK_LEN" using b by (intro mult_right_mono) auto
  then show "k * CHUNK_LEN < length input" using c by linarith
qed

function hash_subtree :: "bytes \<Rightarrow> u64 \<Rightarrow> u32 \<Rightarrow> u32 list" where
  "hash_subtree input chunk_counter_base base_flags =
     (if length input \<le> CHUNK_LEN then hash_chunk input chunk_counter_base False base_flags
      else
        (let left_chunks = largest_power_of_two_leq (chunk_count input - 1);
             left_len = left_chunks * CHUNK_LEN;
             left_cv = hash_subtree (take left_len input) chunk_counter_base base_flags;
             right_cv = hash_subtree (drop left_len input) (chunk_counter_base + word_of_nat left_chunks) base_flags
         in parent_cv left_cv right_cv False base_flags))"
  by pat_completeness auto
termination
proof (relation "measure (\<lambda>(input, _). length input)", goal_cases)
  case (2 input base flags left_chunks left_len)
  then show ?case using left_part(3)[of input] by simp
next
  case (3 input base flags left_chunks left_len cv)
  then show ?case using left_part(1,3)[of input] by (simp add: CHUNK_LEN_def)
qed simp

declare hash_subtree.simps [simp del]

definition blake3 :: "bytes \<Rightarrow> bytes" where
  "blake3 input =
     (if length input \<le> CHUNK_LEN then bytes_from_le_words (hash_chunk input 0 True 0)
      else
        (let left_chunks = largest_power_of_two_leq (chunk_count input - 1);
             left_len = left_chunks * CHUNK_LEN;
             left_cv = hash_subtree (take left_len input) 0 0;
             right_cv = hash_subtree (drop left_len input) (word_of_nat left_chunks) 0
         in bytes_from_le_words (parent_cv left_cv right_cv True 0)))"


section \<open>Lengths\<close>

lemma length_mix_g [simp]: "length (mix_g s a b c d x y) = length s"
  by (simp add: mix_g_def Let_def)

lemma length_mix_round [simp]: "length (mix_round s m) = length s"
  by (simp add: mix_round_def Let_def)

lemma length_output [simp]: "length (foldl (output_mix cv) s xs) = length s"
  by (induction xs arbitrary: s) (auto simp: output_mix_def Let_def)

lemma length_compress_scalar [simp]: "length (compress_scalar cv b c l f) = 16"
  by (simp add: compress_scalar_def Let_def)

lemma length_parent_cv [simp]: "length (parent_cv l r root f) = 8"
  by (simp add: parent_cv_def Let_def)

lemma length_hash_chunk [simp]: "length (hash_chunk input c root f) = 8"
proof -
  obtain n where "(if input = [] then 1 else (length input + BLOCK_LEN - 1) div BLOCK_LEN) = Suc n"
    by (cases "(if input = [] then 1 else (length input + BLOCK_LEN - 1) div BLOCK_LEN)")
      (auto simp: BLOCK_LEN_def div_eq_0_iff split: if_splits)
  then show ?thesis by (simp add: hash_chunk_def Let_def chunk_block_def)
qed

lemma length_bytes_from_words: "length (bytes_from_le_words ws) = 4 * length ws"
  by (induction ws) (auto simp: bytes_from_le_words_def)

lemma length_blake3 [simp]: "length (blake3 input) = 32"
  by (simp add: blake3_def Let_def length_bytes_from_words)

section \<open>The tree over chunk values\<close>

definition chunk_at :: "bytes \<Rightarrow> nat \<Rightarrow> bytes" where
  "chunk_at input i = take CHUNK_LEN (drop (i * CHUNK_LEN) input)"

definition chunk_cvs :: "bytes \<Rightarrow> u64 \<Rightarrow> u32 \<Rightarrow> u32 list list" where
  "chunk_cvs input base flags = map (\<lambda>i. hash_chunk (chunk_at input i) (base + word_of_nat i) False flags) [0..<chunk_count input]"

function cv_tree :: "u32 \<Rightarrow> u32 list list \<Rightarrow> u32 list" where
  "cv_tree flags cvs =
     (if length cvs \<le> 1 then hd cvs
      else (let k = largest_power_of_two_leq (length cvs - 1)
            in parent_cv (cv_tree flags (take k cvs)) (cv_tree flags (drop k cvs)) False flags))"
  by pat_completeness auto
termination
proof (relation "measure (\<lambda>(_, cvs). length cvs)", goal_cases)
  case (2 flags cvs k)
  then show ?case using high_bit_bounds[of "length cvs - 1"] by (auto simp: largest_power_of_two_leq_def)
next
  case (3 flags cvs k)
  then show ?case using high_bit_bounds[of "length cvs - 1"] by (auto simp: largest_power_of_two_leq_def)
qed simp

declare cv_tree.simps [simp del]

lemma length_chunk_cvs [simp]: "length (chunk_cvs input base flags) = chunk_count input"
  by (simp add: chunk_cvs_def)

lemma chunk_count_left: "k * CHUNK_LEN < length input \<Longrightarrow> chunk_count (take (k * CHUNK_LEN) input) = k"
  by (simp add: chunk_count_def CHUNK_LEN_def min_def)

lemma chunk_count_right: "k * CHUNK_LEN < length input \<Longrightarrow> chunk_count (drop (k * CHUNK_LEN) input) = chunk_count input - k"
  by (simp add: chunk_count_def CHUNK_LEN_def)

lemma chunk_cvs_split:
  assumes "k * CHUNK_LEN < length input" "k < chunk_count input"
  shows "chunk_cvs (take (k * CHUNK_LEN) input) base flags = take k (chunk_cvs input base flags)"
    "chunk_cvs (drop (k * CHUNK_LEN) input) (base + word_of_nat k) flags = drop k (chunk_cvs input base flags)"
proof -
  have l: "chunk_at (take (k * CHUNK_LEN) input) i = chunk_at input i" if "i < k" for i
  proof -
    have "i * CHUNK_LEN + CHUNK_LEN \<le> k * CHUNK_LEN" using that mult_le_mono1[of "Suc i" k CHUNK_LEN] by simp
    then show ?thesis by (simp add: chunk_at_def drop_take)
  qed
  have r: "chunk_at (drop (k * CHUNK_LEN) input) i = chunk_at input (k + i)" for i
    by (simp add: chunk_at_def add_mult_distrib add.commute)
  show "chunk_cvs (take (k * CHUNK_LEN) input) base flags = take k (chunk_cvs input base flags)"
    using assms by (simp add: chunk_cvs_def chunk_count_left take_map l)
  show "chunk_cvs (drop (k * CHUNK_LEN) input) (base + word_of_nat k) flags = drop k (chunk_cvs input base flags)"
    unfolding chunk_cvs_def chunk_count_right[OF assms(1)] r
    by (rule nth_equalityI) (auto simp: add.assoc)
qed

lemma hash_subtree_tree: "input \<noteq> [] \<Longrightarrow> hash_subtree input base flags = cv_tree flags (chunk_cvs input base flags)"
proof (induction input base flags rule: hash_subtree.induct)
  case (1 input base flags)
  show ?case
  proof (cases "length input \<le> CHUNK_LEN")
    case True
    have c: "chunk_count input = 1"
    proof -
      have "0 < length input" using 1(3) by simp
      then show ?thesis unfolding chunk_count_def using True by (intro div_nat_eqI) (auto simp: CHUNK_LEN_def Suc_le_eq)
    qed
    then have "chunk_cvs input base flags = [hash_chunk input base False flags]" using True by (simp add: chunk_cvs_def chunk_at_def)
    then show ?thesis using True by (subst hash_subtree.simps, subst cv_tree.simps) simp
  next
    case False
    let ?k = "largest_power_of_two_leq (chunk_count input - 1)"
    have len: "CHUNK_LEN < length input" using False by simp
    note k = left_part[OF len]
    note sp = chunk_cvs_split[OF k(3,2)]
    have ne: "take (?k * CHUNK_LEN) input \<noteq> []" "drop (?k * CHUNK_LEN) input \<noteq> []" using k(1,3) 1(3) by (auto simp: CHUNK_LEN_def)
    have L: "hash_subtree (take (?k * CHUNK_LEN) input) base flags = cv_tree flags (take ?k (chunk_cvs input base flags))"
      using 1(1)[OF False refl refl ne(1)] by (simp only: sp)
    have R: "hash_subtree (drop (?k * CHUNK_LEN) input) (base + word_of_nat ?k) flags = cv_tree flags (drop ?k (chunk_cvs input base flags))"
      using 1(2)[OF False refl refl refl ne(2)] by (simp only: sp)
    have "hash_subtree input base flags = parent_cv (cv_tree flags (take ?k (chunk_cvs input base flags))) (cv_tree flags (drop ?k (chunk_cvs input base flags))) False flags"
      unfolding hash_subtree.simps[of input] Let_def L R using False by simp
    then show ?thesis using k(4) by (subst cv_tree.simps) (simp add: Let_def)
  qed
qed

text \<open>
  C23: the recursion of the hash over byte ranges is the tree of the specification over chunk values. Every chunk of 1024 bytes is
  hashed once, with its own index as counter, whatever the split; the values are joined in a tree whose left side is at every
  node the greatest power of two that leaves the right side non-empty and is never the smaller side; only the outermost node is
  marked as root; and the digest has 32 bytes.
\<close>

theorem blake3_is_tree:
  "length (blake3 input) = 32
   \<and> (length input \<le> 1024 \<longrightarrow> blake3 input = bytes_from_le_words (hash_chunk input 0 True 0))
   \<and> (1024 < length input \<longrightarrow>
        (\<exists>j. 2 ^ j < chunk_count input \<and> chunk_count input \<le> 2 * 2 ^ j \<and>
             blake3 input = bytes_from_le_words (parent_cv (cv_tree 0 (take (2 ^ j) (chunk_cvs input 0 0)))
                                                           (cv_tree 0 (drop (2 ^ j) (chunk_cvs input 0 0))) True 0)))"
proof (intro conjI impI)
  show "length (blake3 input) = 32" by simp
  show "length input \<le> 1024 \<Longrightarrow> blake3 input = bytes_from_le_words (hash_chunk input 0 True 0)" by (simp add: blake3_def CHUNK_LEN_def)
  assume "1024 < length input"
  then have len: "CHUNK_LEN < length input" by (simp add: CHUNK_LEN_def)
  let ?k = "largest_power_of_two_leq (chunk_count input - 1)"
  note k = left_part[OF len]
  have ne: "take (?k * CHUNK_LEN) input \<noteq> []" "drop (?k * CHUNK_LEN) input \<noteq> []" using k(1,3) len by (auto simp: CHUNK_LEN_def)
  have "blake3 input = bytes_from_le_words (parent_cv (cv_tree 0 (take ?k (chunk_cvs input 0 0))) (cv_tree 0 (drop ?k (chunk_cvs input 0 0))) True 0)"
    using len hash_subtree_tree[OF ne(1), of 0 0] hash_subtree_tree[OF ne(2), of "0 + word_of_nat ?k" 0] chunk_cvs_split[OF k(3,2), of 0 0]
    by (simp add: blake3_def Let_def)
  then show "\<exists>j. 2 ^ j < chunk_count input \<and> chunk_count input \<le> 2 * 2 ^ j \<and>
      blake3 input = bytes_from_le_words (parent_cv (cv_tree 0 (take (2 ^ j) (chunk_cvs input 0 0)))
                                                    (cv_tree 0 (drop (2 ^ j) (chunk_cvs input 0 0))) True 0)"
    using k(2,5) unfolding largest_power_of_two_leq_def by blast
qed

theorem blake3_is_tree_witness:
  "blake3 [] = bytes_from_le_words (hash_chunk [] 0 True 0)
   \<and> (\<exists>j. 2 ^ j < chunk_count (replicate 3000 7) \<and> chunk_count (replicate 3000 7) \<le> 2 * 2 ^ j)"
  using blake3_is_tree[of "[]"] blake3_is_tree[of "replicate 3000 7"] by auto

end
