(* ===== verification/Audit_Log.thy ===== *)
theory Audit_Log
  imports Blake3 Codec_Spec
begin

text \<open>
  The audit log (\<open>spg-audit/src/lib.rs\<close>): entries chained by BLAKE3, appending, verification, and the
  file form with its reader. SQL text is its bytes; \<open>str::from_utf8\<close> is the predicate \<open>utf8_valid\<close>. Sums of
  offsets are checked against the 64-bit \<open>usize\<close>. The wording of the error messages is reduced to what
  they report.
\<close>

definition HASH_LEN :: nat where "HASH_LEN = 32"
definition FILE_MAGIC :: bytes where "FILE_MAGIC = map of_char ''SPGAUDIT''"
definition FILE_VERSION :: u8 where "FILE_VERSION = 1"

record audit_entry =
  ae_seq :: u64
  ae_ts_ms :: u64
  ae_prev_hash :: bytes
  ae_hash :: bytes
  ae_sql :: bytes

type_synonym audit_log = "audit_entry list"

datatype header_problem = ShortBuffer | WrongMagic bytes | UnsupportedVersion u8

datatype audit_error =
    Truncated
  | BadHeader header_problem
  | BrokenChain u64
  | HashMismatch u64
  | InvalidUtf8 u64
  | BadLength

section \<open>The chain\<close>

definition compute_entry_hash :: "u64 \<Rightarrow> u64 \<Rightarrow> bytes \<Rightarrow> bytes \<Rightarrow> bytes" where
  "compute_entry_hash seq ts prev sql = blake3 (u64_le seq @ u64_le ts @ prev @ sql)"

definition append_entry :: "audit_log \<Rightarrow> bytes \<Rightarrow> u64 \<Rightarrow> audit_log \<times> bytes" where
  "append_entry entries sql ts_ms =
     (let seq = word_of_nat (length entries);
          prev_hash = (if entries = [] then replicate HASH_LEN 0 else ae_hash (last entries));
          hash = compute_entry_hash seq ts_ms prev_hash sql
      in (entries @ [\<lparr>ae_seq = seq, ae_ts_ms = ts_ms, ae_prev_hash = prev_hash, ae_hash = hash, ae_sql = sql\<rparr>], hash))"

fun verify_from :: "nat \<Rightarrow> bytes \<Rightarrow> audit_log \<Rightarrow> audit_error + unit" where
  "verify_from i expected_prev [] = Inr ()"
| "verify_from i expected_prev (e # es) =
     (if ae_seq e \<noteq> word_of_nat i then Inl (BrokenChain (ae_seq e))
      else if ae_prev_hash e \<noteq> expected_prev then Inl (BrokenChain (ae_seq e))
      else if compute_entry_hash (ae_seq e) (ae_ts_ms e) (ae_prev_hash e) (ae_sql e) \<noteq> ae_hash e
      then Inl (HashMismatch (ae_seq e))
      else verify_from (Suc i) (ae_hash e) es)"

definition verify :: "audit_log \<Rightarrow> audit_error + unit" where
  "verify entries = verify_from 0 (replicate HASH_LEN 0) entries"

section \<open>The file\<close>

definition encode_entry :: "audit_entry \<Rightarrow> bytes option" where
  "encode_entry e =
     (if 2 ^ 32 \<le> length (ae_sql e) then None
      else Some (u64_le (ae_seq e) @ u64_le (ae_ts_ms e) @ ae_prev_hash e @ ae_hash e
                 @ u32_le (word_of_nat (length (ae_sql e))) @ ae_sql e))"

definition header_bytes :: bytes where "header_bytes = FILE_MAGIC @ [FILE_VERSION]"

fun encode_all :: "audit_log \<Rightarrow> bytes option" where
  "encode_all [] = Some []"
| "encode_all (e # es) =
     (case encode_entry e of None \<Rightarrow> None | Some b \<Rightarrow> (case encode_all es of None \<Rightarrow> None | Some bs \<Rightarrow> Some (b @ bs)))"

definition serialize :: "audit_log \<Rightarrow> bytes option" where
  "serialize entries = map_option (\<lambda>bs. header_bytes @ bs) (encode_all entries)"

definition decode_entry :: "bytes \<Rightarrow> nat \<Rightarrow> audit_error + audit_entry \<times> nat" where
  "decode_entry buf off =
     (case checked_add off 84 of
        None \<Rightarrow> Inl BadLength
      | Some fixed_end \<Rightarrow>
          (if length buf < fixed_end then Inl Truncated
           else
             (let seq = le_u64 (slice buf off (off + 8));
                  ts_ms = le_u64 (slice buf (off + 8) (off + 16));
                  prev_hash = slice buf (off + 16) (off + 48);
                  hash = slice buf (off + 48) (off + 80);
                  sql_len = le_u32 (slice buf (off + 80) (off + 84))
              in case checked_add fixed_end (unat sql_len) of
                   None \<Rightarrow> Inl BadLength
                 | Some sql_end \<Rightarrow>
                     (if length buf < sql_end then Inl Truncated
                      else if \<not> utf8_valid (slice buf fixed_end sql_end) then Inl (InvalidUtf8 seq)
                      else Inr (\<lparr>ae_seq = seq, ae_ts_ms = ts_ms, ae_prev_hash = prev_hash, ae_hash = hash,
                                 ae_sql = slice buf fixed_end sql_end\<rparr>, sql_end)))))"

lemma decode_entry_advances: "decode_entry buf off = Inr (e, off1) \<Longrightarrow> off < off1"
  by (auto simp: decode_entry_def checked_add_def Let_def split: if_splits)

function decode_all :: "bytes \<Rightarrow> nat \<Rightarrow> audit_log \<Rightarrow> audit_error + audit_log" where
  "decode_all buf off log =
     (if off < length buf then
        (case decode_entry buf off of
           Inl e \<Rightarrow> Inl e
         | Inr (entry, nxt) \<Rightarrow> decode_all buf nxt (log @ [entry]))
      else Inr log)"
  by pat_completeness auto
termination
  by (relation "measure (\<lambda>(buf, off, _). length buf - off)") (auto dest!: decode_entry_advances)

declare decode_all.simps [simp del]

definition deserialize :: "bytes \<Rightarrow> audit_error + audit_log" where
  "deserialize buf =
     (if length buf < 9 then Inl (BadHeader ShortBuffer)
      else if take 8 buf \<noteq> FILE_MAGIC then Inl (BadHeader (WrongMagic (take 8 buf)))
      else if buf ! 8 \<noteq> FILE_VERSION then Inl (BadHeader (UnsupportedVersion (buf ! 8)))
      else (case decode_all buf 9 [] of
              Inl e \<Rightarrow> Inl e
            | Inr log \<Rightarrow> (case verify log of Inl e \<Rightarrow> Inl e | Inr _ \<Rightarrow> Inr log)))"

section \<open>Appended logs\<close>

fun append_all :: "audit_log \<Rightarrow> (bytes \<times> u64) list \<Rightarrow> audit_log" where
  "append_all log [] = log"
| "append_all log ((sql, ts) # rest) = append_all (fst (append_entry log sql ts)) rest"

definition last_hash :: "bytes \<Rightarrow> audit_log \<Rightarrow> bytes" where
  "last_hash z log = (if log = [] then z else ae_hash (last log))"

lemma verify_from_append:
  "verify_from i z (xs @ ys) = (case verify_from i z xs of Inl e \<Rightarrow> Inl e | Inr _ \<Rightarrow> verify_from (i + length xs) (last_hash z xs) ys)"
proof (induction xs arbitrary: i z)
  case Nil
  then show ?case by (simp add: last_hash_def)
next
  case (Cons x xs)
  have "last_hash z (x # xs) = last_hash (ae_hash x) xs" by (simp add: last_hash_def)
  then show ?case using Cons by (simp split: sum.split)
qed

lemma append_verifies: "verify log = Inr () \<Longrightarrow> verify (fst (append_entry log sql ts)) = Inr ()"
  by (simp add: verify_def append_entry_def Let_def verify_from_append last_hash_def)

lemma append_all_verifies: "verify log = Inr () \<Longrightarrow> verify (append_all log script) = Inr ()"
proof (induction log script rule: append_all.induct)
  case (2 log sql ts rest)
  then show ?case using append_verifies by simp
qed simp

text \<open>What a verified log looks like at its end.\<close>

definition payload :: "audit_entry \<Rightarrow> bytes" where
  "payload e = u64_le (ae_seq e) @ u64_le (ae_ts_ms e) @ ae_prev_hash e @ ae_sql e"

lemma verify_snoc:
  "verify (xs @ [e]) = Inr () \<longleftrightarrow> verify xs = Inr () \<and> ae_seq e = word_of_nat (length xs)
     \<and> ae_prev_hash e = last_hash (replicate HASH_LEN 0) xs \<and> ae_hash e = blake3 (payload e)"
  by (auto simp: verify_def verify_from_append compute_entry_hash_def payload_def split: sum.splits)

lemma verify_lengths_all: "verify log = Inr () \<Longrightarrow> \<forall>e\<in>set log. length (ae_prev_hash e) = HASH_LEN \<and> length (ae_hash e) = HASH_LEN"
proof (induction log rule: rev_induct)
  case (snoc x xs)
  have v: "verify xs = Inr ()" "ae_prev_hash x = last_hash (replicate HASH_LEN 0) xs" "ae_hash x = blake3 (payload x)"
    using snoc.prems(1) by (auto simp: verify_snoc)
  have "length (last_hash (replicate HASH_LEN 0) xs) = HASH_LEN"
    using snoc.IH[OF v(1)] by (simp add: last_hash_def)
  then show ?case using snoc v by (auto simp: HASH_LEN_def)
qed simp

lemmas verify_lengths = verify_lengths_all[rule_format]

section \<open>Round trip through the file\<close>

definition storable :: "audit_entry \<Rightarrow> bool" where
  "storable e = (length (ae_prev_hash e) = 32 \<and> length (ae_hash e) = 32 \<and> length (ae_sql e) < 2 ^ 32 \<and> utf8_valid (ae_sql e))"

lemma decode_entry_encoded:
  assumes "storable e" "encode_entry e = Some b" "buf = pre @ b @ post" "length buf < 2 ^ 64"
  shows "decode_entry buf (length pre) = Inr (e, length pre + length b)"
proof -
  let ?o = "length pre"
  define S T P H L Q where "S = u64_le (ae_seq e)" "T = u64_le (ae_ts_ms e)" "P = ae_prev_hash e" "H = ae_hash e"
    "L = u32_le (word_of_nat (length (ae_sql e)))" "Q = ae_sql e"
  note d = this
  have len: "length S = 8" "length T = 8" "length P = 32" "length H = 32" "length L = 4" using assms(1) by (auto simp: d storable_def)
  have b: "b = S @ T @ P @ H @ L @ Q" using assms(1,2) by (auto simp: encode_entry_def storable_def d)
  have buf: "buf = pre @ S @ T @ P @ H @ L @ Q @ post" by (simp add: assms(3) b)
  have s: "slice buf ?o (?o + 8) = S" "slice buf (?o + 8) (?o + 16) = T" "slice buf (?o + 16) (?o + 48) = P"
    "slice buf (?o + 48) (?o + 80) = H" "slice buf (?o + 80) (?o + 84) = L" "slice buf (?o + 84) (?o + 84 + length Q) = Q"
    unfolding buf using len
      slice_append[of ?o pre "?o + 8" S "T @ P @ H @ L @ Q @ post"] slice_append[of "?o + 8" "pre @ S" "?o + 16" T "P @ H @ L @ Q @ post"]
      slice_append[of "?o + 16" "pre @ S @ T" "?o + 48" P "H @ L @ Q @ post"] slice_append[of "?o + 48" "pre @ S @ T @ P" "?o + 80" H "L @ Q @ post"]
      slice_append[of "?o + 80" "pre @ S @ T @ P @ H" "?o + 84" L "Q @ post"]
      slice_append[of "?o + 84" "pre @ S @ T @ P @ H @ L" "?o + 84 + length Q" Q post] by simp_all
  have "unat (le_u32 L) = length Q" using assms(1) by (simp add: d storable_def unat_of_nat)
  moreover have "?o + 84 + length Q \<le> length buf" "length b = 84 + length Q" unfolding buf b using len by simp_all
  moreover have "checked_add ?o 84 = Some (?o + 84)" "checked_add (?o + 84) (length Q) = Some (?o + 84 + length Q)"
    using calculation(2) assms(4) by (simp_all add: checked_add_def)
  moreover have "utf8_valid Q" using assms(1) by (simp add: d storable_def)
  ultimately show ?thesis by (simp add: decode_entry_def s) (simp add: d)
qed

interpretation entry: cursor_codec "\<lambda>e b. storable e \<and> encode_entry e = Some b" decode_entry
  by unfold_locales (rule decode_entry_encoded, auto)

lemma decode_all_encoded:
  "\<forall>e\<in>set log. storable e \<Longrightarrow> encode_all log = Some bs \<Longrightarrow> buf = pre @ bs \<Longrightarrow> length buf < 2 ^ 64 \<Longrightarrow>
   decode_all buf (length pre) acc = Inr (acc @ log)"
proof (induction log arbitrary: bs pre acc)
  case Nil
  then show ?case by (subst decode_all.simps) simp
next
  case (Cons e log)
  obtain b bs' where b: "encode_entry e = Some b" "encode_all log = Some bs'" "bs = b @ bs'"
    using Cons.prems(2) by (auto split: option.splits)
  have "8 \<le> length b" using b(1) by (auto simp: encode_entry_def split: if_splits)
  then have lt: "length pre < length buf" using Cons.prems(3) b(3) by auto
  have d: "decode_entry buf (length pre) = Inr (e, length pre + length b)"
    unfolding Cons.prems(3) b(3) by (rule entry.decode_encoded) (use Cons.prems b in auto)
  have "decode_all buf (length (pre @ b)) (acc @ [e]) = Inr ((acc @ [e]) @ log)"
    by (rule Cons.IH[OF _ b(2)]) (use Cons.prems b(3) in auto)
  then show ?case using lt d by (subst decode_all.simps) simp
qed

lemma encode_all_Some: "\<forall>e\<in>set log. storable e \<Longrightarrow> \<exists>bs. encode_all log = Some bs"
  by (induction log) (auto simp: encode_entry_def storable_def)

lemma length_header [simp]: "length header_bytes = 9" "length FILE_MAGIC = 8"
  by (simp_all add: header_bytes_def FILE_MAGIC_def)

lemma append_all_sql:
  "e \<in> set (append_all log script) \<Longrightarrow> e \<in> set log \<or> (\<exists>sql ts. (sql, ts) \<in> set script \<and> ae_sql e = sql)"
proof (induction log script rule: append_all.induct)
  case (2 log sql ts rest)
  then show ?case by (auto simp: append_entry_def Let_def)
qed simp

text \<open>
  A log that was only appended to verifies, can be written, and is read back as it was. Every statement must be UTF-8 text
  shorter than four gibibytes, and the file must fit the address space.
\<close>

theorem audit_log_roundtrip:
  assumes "\<forall>(sql, ts)\<in>set script. utf8_valid sql \<and> length sql < 2 ^ 32"
    and "\<forall>b. serialize (append_all [] script) = Some b \<longrightarrow> length b < 2 ^ 64"
  shows "verify (append_all [] script) = Inr () \<and>
    (\<exists>b. serialize (append_all [] script) = Some b \<and> deserialize b = Inr (append_all [] script))"
proof -
  let ?log = "append_all [] script"
  have v: "verify ?log = Inr ()" by (rule append_all_verifies) (simp add: verify_def)
  have st: "\<forall>e\<in>set ?log. storable e"
    using assms(1) append_all_sql[of _ "[]" script] verify_lengths[OF v] by (fastforce simp: storable_def HASH_LEN_def)
  obtain bs where bs: "encode_all ?log = Some bs" using encode_all_Some[OF st] by blast
  then have b: "serialize ?log = Some (header_bytes @ bs)" by (simp add: serialize_def)
  have "decode_all (header_bytes @ bs) (length header_bytes) [] = Inr ([] @ ?log)"
    by (rule decode_all_encoded[OF st bs refl]) (use assms(2) b in simp)
  moreover have "take 8 (header_bytes @ bs) = FILE_MAGIC" "(header_bytes @ bs) ! 8 = FILE_VERSION"
    by (simp_all add: header_bytes_def nth_append)
  ultimately have "deserialize (header_bytes @ bs) = Inr ?log" using v by (simp add: deserialize_def)
  then show ?thesis using v b by blast
qed

theorem audit_log_roundtrip_witness:
  "\<exists>b. serialize (append_all [] [([83, 81], 5)]) = Some b \<and> deserialize b = Inr (append_all [] [([83, 81], 5)])"
proof -
  have "\<forall>b. serialize (append_all [] [([83, 81], 5)]) = Some b \<longrightarrow> length b < 2 ^ 64"
    by (simp add: append_entry_def Let_def serialize_def encode_entry_def compute_entry_hash_def HASH_LEN_def)
  then show ?thesis using audit_log_roundtrip[of "[([83, 81], 5)]"] by simp
qed



text \<open>
  Cutting entries off the end is not noticed: every prefix of a log that verifies verifies, so the deletion of the
  newest entries can only be seen by comparing with a hash kept elsewhere.
\<close>

theorem audit_truncation_accepted: "verify log = Inr () \<Longrightarrow> verify (take n log) = Inr ()"
  using verify_from_append[of 0 "replicate HASH_LEN 0" "take n log" "drop n log"]
  by (auto simp: verify_def split: sum.splits)

end
