(* ===== verification/Manifest.thy ===== *)
theory Manifest
  imports Codec_Spec Crc
begin

text \<open>
  The catalog manifest (\<open>spg-manifest/src/lib.rs\<close>): the file that ties a snapshot, its cold segments and
  the replay position of the log together, with its writer and its reader. A path is its bytes. After the
  checksum has been verified every read of the reader stays inside the body, the bytes before the trailer,
  so the loop over segments is stated on the body. A failed \<open>expect\<close> of the writer is \<open>None\<close>.
\<close>

definition MANIFEST_MAGIC :: bytes where "MANIFEST_MAGIC = map of_char ''SPGMAN01''"
definition MANIFEST_VERSION :: u8 where "MANIFEST_VERSION = 10"
definition FIXED_HEADER_LEN :: nat where "FIXED_HEADER_LEN = 8 + 1 + 4 + 4"
definition FOOTER_LEN :: nat where "FOOTER_LEN = 8 + 4"
definition SEGMENT_FIXED_LEN :: nat where "SEGMENT_FIXED_LEN = 4 + 4 + 4"

lemmas manifest_consts = FIXED_HEADER_LEN_def FOOTER_LEN_def SEGMENT_FIXED_LEN_def

record cold_segment_entry =
  cs_segment_id :: u32
  cs_path :: bytes
  cs_crc32 :: u32

record catalog_manifest =
  cm_catalog_crc32 :: u32
  cm_cold_segments :: "cold_segment_entry list"
  cm_wal_baseline_offset :: u64

datatype manifest_error =
    BadMagic bytes
  | UnsupportedVersion u8
  | Truncated nat nat nat
  | BadCrc32 u32 u32
  | PathNotUtf8 u32
  | TrailingBytes nat

section \<open>Writer\<close>

definition encoded_len :: "catalog_manifest \<Rightarrow> nat" where
  "encoded_len m = FIXED_HEADER_LEN + sum_list (map (\<lambda>s. SEGMENT_FIXED_LEN + length (cs_path s)) (cm_cold_segments m)) + FOOTER_LEN"

definition path_to_utf8 :: "bytes \<Rightarrow> bytes" where
  "path_to_utf8 p = (if utf8_valid p then p else [])"

definition segment_bytes :: "cold_segment_entry \<Rightarrow> bytes option" where
  "segment_bytes e =
     (let path_bytes = path_to_utf8 (cs_path e)
      in if 2 ^ 32 \<le> length path_bytes then None
         else Some (u32_le (cs_segment_id e) @ u32_le (word_of_nat (length path_bytes)) @ path_bytes @ u32_le (cs_crc32 e)))"

fun segments_bytes :: "cold_segment_entry list \<Rightarrow> bytes option" where
  "segments_bytes [] = Some []"
| "segments_bytes (e # es) =
     (case segment_bytes e of
        None \<Rightarrow> None
      | Some b \<Rightarrow> (case segments_bytes es of None \<Rightarrow> None | Some bs \<Rightarrow> Some (b @ bs)))"

definition manifest_serialize :: "catalog_manifest \<Rightarrow> bytes option" where
  "manifest_serialize m =
     (if 2 ^ 32 \<le> length (cm_cold_segments m) then None
      else (case segments_bytes (cm_cold_segments m) of
              None \<Rightarrow> None
            | Some segs \<Rightarrow>
                (let out = MANIFEST_MAGIC @ [MANIFEST_VERSION] @ u32_le (cm_catalog_crc32 m)
                           @ u32_le (word_of_nat (length (cm_cold_segments m))) @ segs @ u64_le (cm_wal_baseline_offset m);
                     crc = crc32 out
                 in Some (out @ u32_le crc))))"

section \<open>Reader\<close>

definition read_word :: "bytes \<Rightarrow> nat \<Rightarrow> u32" where
  "read_word bs off = le_u32 (slice bs off (off + 4))"

definition segment_decode :: "bytes \<Rightarrow> nat \<Rightarrow> manifest_error + cold_segment_entry \<times> nat" where
  "segment_decode body offset =
     (if length body < offset + SEGMENT_FIXED_LEN then Inl (Truncated offset SEGMENT_FIXED_LEN (length body - offset))
      else
        (let segment_id = read_word body offset;
             path_len = unat (read_word body (offset + 4));
             off1 = offset + 8
         in if length body < off1 + path_len + 4 then Inl (Truncated off1 (path_len + 4) (length body - off1))
            else
              (let path_bytes = slice body off1 (off1 + path_len)
               in if \<not> utf8_valid path_bytes then Inl (PathNotUtf8 segment_id)
                  else Inr (\<lparr>cs_segment_id = segment_id, cs_path = path_bytes, cs_crc32 = read_word body (off1 + path_len)\<rparr>,
                            off1 + path_len + 4))))"

definition manifest_deserialize :: "bytes \<Rightarrow> manifest_error + catalog_manifest" where
  "manifest_deserialize bs =
     (let min_len = FIXED_HEADER_LEN + FOOTER_LEN
      in if length bs < min_len then Inl (Truncated 0 min_len (length bs))
         else if take 8 bs \<noteq> MANIFEST_MAGIC then Inl (BadMagic (take 8 bs))
         else if bs ! 8 \<noteq> MANIFEST_VERSION then Inl (UnsupportedVersion (bs ! 8))
         else
           (let body_end = length bs - 4;
                trailing = le_u32 (drop body_end bs);
                body = take body_end bs;
                computed = crc32 body
            in if trailing \<noteq> computed then Inl (BadCrc32 trailing computed)
               else
                 (let catalog_crc32 = read_word bs 9;
                      num_segments = unat (read_word bs 13)
                  in and_then (decode_n segment_decode body 17 num_segments []) (\<lambda>(cold_segments, offset).
                       if body_end < offset + 8 then Inl (Truncated offset 8 (body_end - offset))
                       else
                         (let wal_baseline_offset = le_u64 (slice bs offset (offset + 8))
                          in if offset + 8 \<noteq> body_end then Inl (TrailingBytes (body_end - (offset + 8)))
                             else Inr \<lparr>cm_catalog_crc32 = catalog_crc32, cm_cold_segments = cold_segments,
                                       cm_wal_baseline_offset = wal_baseline_offset\<rparr>)))))"

section \<open>Round trip\<close>

lemma read_word_at: "off = length pre \<Longrightarrow> read_word (pre @ u32_le w @ post) off = w"
  using slice_append[of off pre "off + 4" "u32_le w" post] by (simp add: read_word_def)

lemma segment_decode_encoded:
  assumes "utf8_valid (cs_path e)" "segment_bytes e = Some b"
  shows "segment_decode (pre @ b @ post) (length pre) = Inr (e, length pre + length b)"
proof -
  let ?p = "cs_path e" and ?o = "length pre" and ?buf = "pre @ b @ post"
  let ?I = "u32_le (cs_segment_id e)" and ?L = "u32_le (word_of_nat (length (cs_path e)))" and ?K = "u32_le (cs_crc32 e)"
  have p: "length ?p < 2 ^ 32" "b = ?I @ ?L @ ?p @ ?K" using assms by (auto simp: segment_bytes_def path_to_utf8_def Let_def split: if_splits)
  have u: "unat (word_of_nat (length ?p) :: u32) = length ?p" using p(1) by (simp add: unat_of_nat)
  have r: "read_word ?buf ?o = cs_segment_id e" "read_word ?buf (?o + 4) = word_of_nat (length ?p)"
    "read_word ?buf (?o + 8 + length ?p) = cs_crc32 e" "slice ?buf (?o + 8) (?o + 8 + length ?p) = ?p"
    using read_word_at[of ?o pre "cs_segment_id e" "?L @ ?p @ ?K @ post"] read_word_at[of "?o + 4" "pre @ ?I" "word_of_nat (length ?p)" "?p @ ?K @ post"]
      read_word_at[of "?o + 8 + length ?p" "pre @ ?I @ ?L @ ?p" "cs_crc32 e" post]
      slice_append[of "?o + 8" "pre @ ?I @ ?L" "?o + 8 + length ?p" ?p "?K @ post"] by (simp_all add: p(2))
  have l: "\<not> length ?buf < ?o + SEGMENT_FIXED_LEN" "\<not> length ?buf < ?o + 8 + length ?p + 4" "?o + length b = ?o + 8 + length ?p + 4"
    by (simp_all add: p(2) SEGMENT_FIXED_LEN_def)
  show ?thesis unfolding segment_decode_def Let_def r u l(3) using l(1,2) assms(1) by simp
qed

interpretation segment: cursor_codec "\<lambda>e b. utf8_valid (cs_path e) \<and> segment_bytes e = Some b" segment_decode
  by unfold_locales (use segment_decode_encoded in auto)

lemma segments_encoded:
  "segments_bytes es = Some b \<Longrightarrow> \<forall>e\<in>set es. utf8_valid (cs_path e) \<Longrightarrow>
   encodes_all (\<lambda>e b. utf8_valid (cs_path e) \<and> segment_bytes e = Some b) es b"
  by (induction es arbitrary: b) (auto split: option.splits)

lemma segments_bytes_Some:
  "\<forall>e\<in>set es. utf8_valid (cs_path e) \<and> length (cs_path e) < 2 ^ 32 \<Longrightarrow>
   \<exists>b. segments_bytes es = Some b \<and> length b = sum_list (map (\<lambda>s. SEGMENT_FIXED_LEN + length (cs_path s)) es)"
  by (induction es) (auto simp: segment_bytes_def path_to_utf8_def SEGMENT_FIXED_LEN_def Let_def)

lemma length_magic [simp]: "length MANIFEST_MAGIC = 8" by (simp add: MANIFEST_MAGIC_def)


lemma serialize_sealed:
  assumes "manifest_serialize m = Some b"
  obtains out where "b = out @ u32_le (crc32 out)" "25 \<le> length out" "take 8 out = MANIFEST_MAGIC" "out ! 8 = MANIFEST_VERSION"
proof -
  obtain segs where "b = (let out = MANIFEST_MAGIC @ [MANIFEST_VERSION] @ u32_le (cm_catalog_crc32 m)
       @ u32_le (word_of_nat (length (cm_cold_segments m))) @ segs @ u64_le (cm_wal_baseline_offset m) in out @ u32_le (crc32 out))"
    using assms by (auto simp: manifest_serialize_def Let_def split: if_splits option.splits)
  then show ?thesis
    using that[of "MANIFEST_MAGIC @ [MANIFEST_VERSION] @ u32_le (cm_catalog_crc32 m)
       @ u32_le (word_of_nat (length (cm_cold_segments m))) @ segs @ u64_le (cm_wal_baseline_offset m)"]
    by (simp add: Let_def nth_append)
qed

text \<open>
  The manifest is read back as written: for segment paths that are UTF-8 text and counts and lengths that fit their
  fields, the writer succeeds, writes as many bytes as announced, and the reader returns the same manifest, the segments in
  their order.
\<close>

theorem manifest_roundtrip:
  assumes "\<forall>e\<in>set (cm_cold_segments m). utf8_valid (cs_path e) \<and> length (cs_path e) < 2 ^ 32"
    and "length (cm_cold_segments m) < 2 ^ 32" "encoded_len m < 2 ^ 64"
  shows "\<exists>b. manifest_serialize m = Some b \<and> length b = encoded_len m \<and> manifest_deserialize b = Inr m"
proof -
  let ?es = "cm_cold_segments m"
  obtain segs where segs: "segments_bytes ?es = Some segs" "length segs = sum_list (map (\<lambda>s. SEGMENT_FIXED_LEN + length (cs_path s)) ?es)"
    using segments_bytes_Some[OF assms(1)] by blast
  let ?C = "u32_le (cm_catalog_crc32 m)" and ?N = "u32_le (word_of_nat (length ?es))" and ?W = "u64_le (cm_wal_baseline_offset m)"
  define out where "out = MANIFEST_MAGIC @ [MANIFEST_VERSION] @ ?C @ ?N @ segs @ ?W"
  define b where "b = out @ u32_le (crc32 out)"
  have ser: "manifest_serialize m = Some b" using assms(2) segs(1) by (simp add: manifest_serialize_def Let_def out_def b_def)
  have len: "length out = 25 + length segs" "length b = encoded_len m" using segs(2) by (simp_all add: out_def b_def encoded_len_def manifest_consts)
  have hd: "take 8 b = MANIFEST_MAGIC" "b ! 8 = MANIFEST_VERSION" by (simp_all add: b_def out_def nth_append)
  have tl: "take (length b - 4) b = out" "le_u32 (drop (length b - 4) b) = crc32 out" by (simp_all add: b_def)
  have u: "unat (word_of_nat (length ?es) :: u32) = length ?es" using assms(2) by (simp add: unat_of_nat)
  have r: "read_word b 9 = cm_catalog_crc32 m" "read_word b 13 = word_of_nat (length ?es)"
    using read_word_at[of 9 "MANIFEST_MAGIC @ [MANIFEST_VERSION]" "cm_catalog_crc32 m" "?N @ segs @ ?W @ u32_le (crc32 out)"]
      read_word_at[of 13 "MANIFEST_MAGIC @ [MANIFEST_VERSION] @ ?C" "word_of_nat (length ?es)" "segs @ ?W @ u32_le (crc32 out)"]
    by (simp_all add: b_def out_def)
  let ?pre = "MANIFEST_MAGIC @ [MANIFEST_VERSION] @ ?C @ ?N"
  have "length (?pre @ segs @ ?W) < 2 ^ 64" using assms(3) len by (simp add: out_def b_def)
  from segment.decode_n_encoded[OF segments_encoded[OF segs(1)] this, of "[]"] assms(1)
  have d: "decode_n segment_decode out 17 (length ?es) [] = Inr (?es, 17 + length segs)" by (simp add: out_def)
  have w: "slice b (17 + length segs) (17 + length segs + 8) = ?W"
    using slice_append[of "17 + length segs" "?pre @ segs" "17 + length segs + 8" ?W "u32_le (crc32 out)"] by (simp add: b_def out_def)
  have be: "length b - 4 = 25 + length segs" "\<not> length b < FIXED_HEADER_LEN + FOOTER_LEN" using len by (simp_all add: b_def manifest_consts)
  have "manifest_deserialize b = Inr m"
    unfolding manifest_deserialize_def Let_def be(1) tl[unfolded be(1)] hd r u d and_then.simps prod.case w using be(2) by simp
  then show ?thesis using ser len by blast
qed

theorem manifest_roundtrip_witness:
  "\<exists>b. manifest_serialize \<lparr>cm_catalog_crc32 = 7, cm_cold_segments = [\<lparr>cs_segment_id = 1, cs_path = [97], cs_crc32 = 2\<rparr>], cm_wal_baseline_offset = 9\<rparr> = Some b
     \<and> length b = 42"
  using manifest_roundtrip[of "\<lparr>cm_catalog_crc32 = 7, cm_cold_segments = [\<lparr>cs_segment_id = 1, cs_path = [97], cs_crc32 = 2\<rparr>], cm_wal_baseline_offset = 9\<rparr>"]
  by (auto simp: encoded_len_def manifest_consts)

text \<open>
  C25: damage to a manifest is always noticed. Whatever four consecutive bytes, or fewer, of a written manifest are changed, in
  the header, the segment table, the log position, the checksum itself or across the border between body and checksum, the
  reader answers with an error and never with another manifest.
\<close>

theorem manifest_damage_detected:
  assumes "manifest_serialize m = Some (pre @ x @ post)" "length x = length y" "length x \<le> 4" "x \<noteq> y"
  shows "\<exists>e. manifest_deserialize (pre @ y @ post) = Inl e"
proof -
  let ?d = "pre @ y @ post"
  obtain out where out: "pre @ x @ post = out @ u32_le (crc32 out)" by (rule serialize_sealed[OF assms(1)])
  let ?n = "length ?d - 4"
  have "length ?d = length out + 4" using arg_cong[OF out, of length] assms(2) by simp
  then have t: "length (drop ?n ?d) = 4" by simp
  have "le_u32 (drop ?n ?d) \<noteq> crc_spec POLY (take ?n ?d)"
  proof (rule sealed_burst[where body=out and t="u32_le (crc32 out)" and pre=pre and post=post and x=x and y=y])
    show "le_u32 (u32_le (crc32 out)) = crc_spec POLY out" by (simp add: crc32_def crc_with_spec)
    show "take ?n ?d @ drop ?n ?d = ?d" by (rule append_take_drop_id)
    show "length (drop ?n ?d) = 4" by (rule t)
    show "out @ u32_le (crc32 out) = pre @ x @ post" by (rule out[symmetric])
  qed (use assms(2-4) in simp_all)
  then have "le_u32 (drop ?n ?d) \<noteq> crc32 (take ?n ?d)" by (simp add: crc32_def crc_with_spec)
  then show ?thesis by (simp add: manifest_deserialize_def Let_def)
qed

theorem manifest_damage_detected_witness:
  "\<exists>b x rest e. manifest_serialize \<lparr>cm_catalog_crc32 = 7, cm_cold_segments = [], cm_wal_baseline_offset = 9\<rparr> = Some (b @ [x] @ rest)
     \<and> manifest_deserialize (b @ [x + 1] @ rest) = Inl e"
proof -
  let ?m = "\<lparr>cm_catalog_crc32 = 7, cm_cold_segments = [], cm_wal_baseline_offset = 9\<rparr>"
  obtain b where b: "manifest_serialize ?m = Some b" by (simp add: manifest_serialize_def Let_def)
  obtain out where "b = out @ u32_le (crc32 out)" "25 \<le> length out" by (rule serialize_sealed[OF b])
  then have "b \<noteq> []" by auto
  then obtain x rest where "b = [] @ [x] @ rest" by (metis append_Cons append_Nil neq_Nil_conv)
  with b have s: "manifest_serialize ?m = Some ([] @ [x] @ rest)" by simp
  with manifest_damage_detected[OF s, of "[x + 1]"] show ?thesis by fastforce
qed

end
