(* ===== verification/Wire.thy ===== *)
theory Wire
  imports Codec_Spec
begin

text \<open>
  The native protocol (\<open>spg-wire/src/lib.rs\<close>): frames, values, and the builders and parsers of each
  message. Text is its UTF-8 bytes; floating point numbers are their bit patterns, which is all the codec
  looks at; \<open>i32\<close> and \<open>i64\<close> are words of that width.
\<close>

definition FRAME_HEADER_LEN :: nat where "FRAME_HEADER_LEN = 5"
definition MAX_PAYLOAD :: u32 where "MAX_PAYLOAD = 16 * 1024 * 1024"

datatype op = Ping | Pong | Auth | AuthUser | Query | RowDescription | DataRow | CommandComplete | ErrorResponse
  | Stats | StatsResponse | DataRowBatch | Error

datatype frame_error = ShortHeader | ShortPayload | PayloadTooLarge u32 | UnknownOp u8 | TruncatedPayload
  | InvalidUtf8 | UnknownWireType u8 | FieldTooLarge

fun op_byte :: "op \<Rightarrow> u8" where
  "op_byte Ping = 0x00" | "op_byte Pong = 0x01" | "op_byte Auth = 0x02" | "op_byte AuthUser = 0x03"
| "op_byte Query = 0x10" | "op_byte RowDescription = 0x11" | "op_byte DataRow = 0x12" | "op_byte CommandComplete = 0x13"
| "op_byte ErrorResponse = 0x14" | "op_byte Stats = 0x15" | "op_byte StatsResponse = 0x16" | "op_byte DataRowBatch = 0x17"
| "op_byte Error = 0xFF"

definition op_from_byte :: "u8 \<Rightarrow> frame_error + op" where
  "op_from_byte b =
     (if b = 0x00 then Inr Ping else if b = 0x01 then Inr Pong else if b = 0x02 then Inr Auth else if b = 0x03 then Inr AuthUser
      else if b = 0x10 then Inr Query else if b = 0x11 then Inr RowDescription else if b = 0x12 then Inr DataRow
      else if b = 0x13 then Inr CommandComplete else if b = 0x14 then Inr ErrorResponse else if b = 0x15 then Inr Stats
      else if b = 0x16 then Inr StatsResponse else if b = 0x17 then Inr DataRowBatch else if b = 0xFF then Inr Error
      else Inl (UnknownOp b))"

record frame =
  fr_op :: op
  fr_payload :: bytes

section \<open>Frames\<close>

definition frame_encode :: "frame \<Rightarrow> bytes \<Rightarrow> frame_error + bytes" where
  "frame_encode fr out =
     (if 2 ^ 32 \<le> length (fr_payload fr) then Inl (PayloadTooLarge (- 1))
      else (let len = word_of_nat (length (fr_payload fr)) :: u32
            in if MAX_PAYLOAD < len then Inl (PayloadTooLarge len)
               else Inr (out @ u32_le len @ [op_byte (fr_op fr)] @ fr_payload fr)))"

definition frame_decode :: "bytes \<Rightarrow> frame_error + frame \<times> nat" where
  "frame_decode buf =
     (if length buf < FRAME_HEADER_LEN then Inl ShortHeader
      else (let len = le_u32 [buf ! 0, buf ! 1, buf ! 2, buf ! 3]
            in if MAX_PAYLOAD < len then Inl (PayloadTooLarge len)
               else and_then (op_from_byte (buf ! 4)) (\<lambda>op.
                 (let payload_end = FRAME_HEADER_LEN + unat len
                  in if length buf < payload_end then Inl ShortPayload
                     else Inr (\<lparr>fr_op = op, fr_payload = slice buf FRAME_HEADER_LEN payload_end\<rparr>, payload_end)))))"

section \<open>Values\<close>

datatype wire_type = TNull | TInt | TBigInt | TFloat | TText | TBool | TVector

datatype wire_value = VNull | VInt u32 | VBigInt u64 | VFloat u64 | VText bytes | VBool bool | VVector "u32 list"

fun type_byte :: "wire_type \<Rightarrow> u8" where
  "type_byte TNull = 0" | "type_byte TInt = 1" | "type_byte TBigInt = 2" | "type_byte TFloat = 3" | "type_byte TText = 4"
| "type_byte TBool = 5" | "type_byte TVector = 6"

definition type_from_byte :: "u8 \<Rightarrow> frame_error + wire_type" where
  "type_from_byte b =
     (if b = 0 then Inr TNull else if b = 1 then Inr TInt else if b = 2 then Inr TBigInt else if b = 3 then Inr TFloat
      else if b = 4 then Inr TText else if b = 5 then Inr TBool else if b = 6 then Inr TVector else Inl (UnknownWireType b))"

fun value_type :: "wire_value \<Rightarrow> wire_type" where
  "value_type VNull = TNull" | "value_type (VInt _) = TInt" | "value_type (VBigInt _) = TBigInt" | "value_type (VFloat _) = TFloat"
| "value_type (VText _) = TText" | "value_type (VBool _) = TBool" | "value_type (VVector _) = TVector"

definition u32_len :: "'a list \<Rightarrow> frame_error + u32" where
  "u32_len xs = (if 2 ^ 32 \<le> length xs then Inl FieldTooLarge else Inr (word_of_nat (length xs)))"

definition u16_len :: "'a list \<Rightarrow> frame_error + u16" where
  "u16_len xs = (if 2 ^ 16 \<le> length xs then Inl FieldTooLarge else Inr (word_of_nat (length xs)))"

definition bool_byte :: "bool \<Rightarrow> u8" where "bool_byte b = (if b then 1 else 0)"

fun value_body :: "wire_value \<Rightarrow> frame_error + bytes" where
  "value_body VNull = Inr []"
| "value_body (VInt n) = Inr (u32_le n)"
| "value_body (VBigInt n) = Inr (u64_le n)"
| "value_body (VFloat x) = Inr (u64_le x)"
| "value_body (VText s) = and_then (u32_len s) (\<lambda>len. Inr (u32_le len @ s))"
| "value_body (VBool b) = Inr [bool_byte b]"
| "value_body (VVector v) = and_then (u32_len v) (\<lambda>dim. Inr (u32_le dim @ concat (map u32_le v)))"

definition value_encode :: "wire_value \<Rightarrow> frame_error + bytes" where
  "value_encode v = and_then (value_body v) (\<lambda>b. Inr (type_byte (value_type v) # b))"

definition read_u8 :: "bytes \<Rightarrow> nat \<Rightarrow> frame_error + u8 \<times> nat" where
  "read_u8 buf off = (if length buf \<le> off then Inl TruncatedPayload else Inr (buf ! off, off + 1))"

definition read_u16 :: "bytes \<Rightarrow> nat \<Rightarrow> frame_error + u16 \<times> nat" where
  "read_u16 buf off = (if length buf < off + 2 then Inl TruncatedPayload else Inr (le_u16 (slice buf off (off + 2)), off + 2))"

definition read_u32 :: "bytes \<Rightarrow> nat \<Rightarrow> frame_error + u32 \<times> nat" where
  "read_u32 buf off = (if length buf < off + 4 then Inl TruncatedPayload else Inr (le_u32 (slice buf off (off + 4)), off + 4))"

definition read_u64 :: "bytes \<Rightarrow> nat \<Rightarrow> frame_error + u64 \<times> nat" where
  "read_u64 buf off = (if length buf < off + 8 then Inl TruncatedPayload else Inr (le_u64 (slice buf off (off + 8)), off + 8))"

definition read_text :: "bytes \<Rightarrow> nat \<Rightarrow> nat \<Rightarrow> frame_error + bytes \<times> nat" where
  "read_text buf off len =
     (case checked_add off len of
        None \<Rightarrow> Inl FieldTooLarge
      | Some ending \<Rightarrow>
          (if length buf < ending then Inl TruncatedPayload
           else if \<not> utf8_valid (slice buf off ending) then Inl InvalidUtf8
           else Inr (slice buf off ending, ending)))"

definition value_decode :: "bytes \<Rightarrow> nat \<Rightarrow> frame_error + wire_value \<times> nat" where
  "value_decode buf off0 =
     and_then (read_u8 buf off0) (\<lambda>(tag, off).
       and_then (type_from_byte tag) (\<lambda>ty.
         case ty of
           TNull \<Rightarrow> Inr (VNull, off)
         | TInt \<Rightarrow> and_then (read_u32 buf off) (\<lambda>(n, off). Inr (VInt n, off))
         | TBigInt \<Rightarrow> and_then (read_u64 buf off) (\<lambda>(n, off). Inr (VBigInt n, off))
         | TFloat \<Rightarrow> and_then (read_u64 buf off) (\<lambda>(x, off). Inr (VFloat x, off))
         | TText \<Rightarrow> and_then (read_u32 buf off) (\<lambda>(len, off).
             and_then (read_text buf off (unat len)) (\<lambda>(s, ending). Inr (VText s, ending)))
         | TBool \<Rightarrow> and_then (read_u8 buf off) (\<lambda>(b, off). Inr (VBool (b \<noteq> 0), off))
         | TVector \<Rightarrow> and_then (read_u32 buf off) (\<lambda>(dim, off).
             and_then (decode_n read_u32 buf off (unat dim) []) (\<lambda>(v, off). Inr (VVector v, off)))))"

section \<open>Messages\<close>

record column_desc =
  cd_name :: bytes
  cd_ty :: wire_type
  cd_nullable :: bool

definition text_frame :: "op \<Rightarrow> bytes \<Rightarrow> frame" where "text_frame op s = \<lparr>fr_op = op, fr_payload = s\<rparr>"

definition parse_text :: "frame \<Rightarrow> frame_error + bytes" where
  "parse_text fr = (if utf8_valid (fr_payload fr) then Inr (fr_payload fr) else Inl InvalidUtf8)"

definition build_auth_user :: "bytes \<Rightarrow> bytes \<Rightarrow> frame_error + frame" where
  "build_auth_user user password =
     and_then (u16_len user) (\<lambda>user_len. Inr \<lparr>fr_op = AuthUser, fr_payload = u16_le user_len @ user @ password\<rparr>)"

definition parse_auth_user :: "frame \<Rightarrow> frame_error + bytes \<times> bytes" where
  "parse_auth_user fr =
     (if length (fr_payload fr) < 2 then Inl TruncatedPayload
      else (let user_len = unat (le_u16 [fr_payload fr ! 0, fr_payload fr ! 1])
            in if length (fr_payload fr) < 2 + user_len then Inl TruncatedPayload
               else (let user = slice (fr_payload fr) 2 (2 + user_len); pass = drop (2 + user_len) (fr_payload fr)
                     in if \<not> utf8_valid user then Inl InvalidUtf8 else if \<not> utf8_valid pass then Inl InvalidUtf8
                        else Inr (user, pass))))"

definition column_encode :: "column_desc \<Rightarrow> frame_error + bytes" where
  "column_encode c =
     and_then (u16_len (cd_name c)) (\<lambda>name_len.
       Inr ([type_byte (cd_ty c)] @ u16_le name_len @ cd_name c @ [bool_byte (cd_nullable c)]))"

definition column_decode :: "bytes \<Rightarrow> nat \<Rightarrow> frame_error + column_desc \<times> nat" where
  "column_decode buf off =
     and_then (read_u8 buf off) (\<lambda>(ty_byte, o1).
       and_then (type_from_byte ty_byte) (\<lambda>ty.
         and_then (read_u16 buf o1) (\<lambda>(name_len, o2).
           and_then (read_text buf o2 (unat name_len)) (\<lambda>(name, ending).
             and_then (read_u8 buf ending) (\<lambda>(nullable_byte, o3).
               Inr (\<lparr>cd_name = name, cd_ty = ty, cd_nullable = (nullable_byte \<noteq> 0)\<rparr>, o3))))))"

definition build_row_description :: "column_desc list \<Rightarrow> frame_error + frame" where
  "build_row_description cols =
     and_then (u16_len cols) (\<lambda>count.
       and_then (encode_each column_encode cols) (\<lambda>p. Inr \<lparr>fr_op = RowDescription, fr_payload = u16_le count @ p\<rparr>))"

definition parse_row_description :: "frame \<Rightarrow> frame_error + column_desc list" where
  "parse_row_description fr =
     and_then (read_u16 (fr_payload fr) 0) (\<lambda>(count, off).
       and_then (decode_n column_decode (fr_payload fr) off (unat count) []) (\<lambda>(cols, _). Inr cols))"

definition build_data_row :: "wire_value list \<Rightarrow> frame_error + frame" where
  "build_data_row values =
     and_then (u16_len values) (\<lambda>count.
       and_then (encode_each value_encode values) (\<lambda>p. Inr \<lparr>fr_op = DataRow, fr_payload = u16_le count @ p\<rparr>))"

definition parse_data_row :: "frame \<Rightarrow> frame_error + wire_value list" where
  "parse_data_row fr =
     and_then (read_u16 (fr_payload fr) 0) (\<lambda>(count, off).
       and_then (decode_n value_decode (fr_payload fr) off (unat count) []) (\<lambda>(out, _). Inr out))"

text \<open>The cell count of a batch is that of its first row; the rows are written without further counts.\<close>

definition build_data_row_batch :: "wire_value list list \<Rightarrow> frame_error + frame" where
  "build_data_row_batch rows =
     and_then (u16_len rows) (\<lambda>row_count.
       and_then (u16_len (case rows of [] \<Rightarrow> [] | row # _ \<Rightarrow> row)) (\<lambda>cell_count.
         and_then (encode_each (encode_each value_encode) rows) (\<lambda>p.
           Inr \<lparr>fr_op = DataRowBatch, fr_payload = u16_le row_count @ u16_le cell_count @ p\<rparr>)))"

definition parse_data_row_batch :: "frame \<Rightarrow> frame_error + wire_value list list" where
  "parse_data_row_batch fr =
     and_then (read_u16 (fr_payload fr) 0) (\<lambda>(row_count, off1).
       and_then (read_u16 (fr_payload fr) off1) (\<lambda>(cell_count, off).
         and_then (decode_n (\<lambda>buf off. decode_n value_decode buf off (unat cell_count) []) (fr_payload fr) off (unat row_count) [])
           (\<lambda>(rows, _). Inr rows)))"

definition build_command_complete :: "u64 \<Rightarrow> frame" where
  "build_command_complete affected = \<lparr>fr_op = CommandComplete, fr_payload = u64_le affected\<rparr>"

definition parse_command_complete :: "frame \<Rightarrow> frame_error + u64" where
  "parse_command_complete fr = and_then (read_u64 (fr_payload fr) 0) (\<lambda>(n, _). Inr n)"

section \<open>The readers read what was written\<close>

lemma read_u8_at: "off = length pre \<Longrightarrow> read_u8 (pre @ b # post) off = Inr (b, off + 1)"
  by (simp add: read_u8_def)

lemma read_u16_at: "off = length pre \<Longrightarrow> read_u16 (pre @ u16_le w @ post) off = Inr (w, off + 2)"
  using slice_append[of off pre "off + 2" "u16_le w" post] by (simp add: read_u16_def)

lemma read_u32_at: "off = length pre \<Longrightarrow> read_u32 (pre @ u32_le w @ post) off = Inr (w, off + 4)"
  using slice_append[of off pre "off + 4" "u32_le w" post] by (simp add: read_u32_def)

lemma read_u64_at: "off = length pre \<Longrightarrow> read_u64 (pre @ u64_le w @ post) off = Inr (w, off + 8)"
  using slice_append[of off pre "off + 8" "u64_le w" post] by (simp add: read_u64_def)

lemma read_text_at:
  "off = length pre \<Longrightarrow> utf8_valid s \<Longrightarrow> length (pre @ s @ post) < 2 ^ 64 \<Longrightarrow> read_text (pre @ s @ post) off (length s) = Inr (s, off + length s)"
  using slice_append[of off pre "off + length s" s post] by (simp add: read_text_def checked_add_def)

lemma type_byte_roundtrip [simp]: "type_from_byte (type_byte t) = Inr t"
  by (cases t) (simp_all add: type_from_byte_def)

lemma op_byte_roundtrip [simp]: "op_from_byte (op_byte p) = Inr p"
  by (cases p) (simp_all add: op_from_byte_def)

lemma u32_len_Inr: "u32_len xs = Inr n \<longleftrightarrow> length xs < 2 ^ 32 \<and> n = word_of_nat (length xs)"
  by (auto simp: u32_len_def)

lemma u16_len_Inr: "u16_len xs = Inr n \<longleftrightarrow> length xs < 2 ^ 16 \<and> n = word_of_nat (length xs)"
  by (auto simp: u16_len_def)

interpretation word32: cursor_codec "\<lambda>w b. b = u32_le w" read_u32
  by unfold_locales (simp add: read_u32_at)

lemma words_encoded: "encodes_all (\<lambda>w b. b = u32_le w) ws (concat (map u32_le ws))"
  by (induction ws) auto

definition ok_value :: "wire_value \<Rightarrow> bool" where
  "ok_value v = (case v of VText s \<Rightarrow> utf8_valid s | _ \<Rightarrow> True)"


lemma value_decode_encoded:
  assumes "ok_value v" "value_encode v = Inr b" "length (pre @ b @ post) < 2 ^ 64"
  shows "value_decode (pre @ b @ post) (length pre) = Inr (v, length pre + length b)"
proof -
  obtain body where body: "value_body v = Inr body" and b: "b = type_byte (value_type v) # body"
    using assms(2) by (auto simp: value_encode_def and_then_Inr)
  let ?p = "pre @ [type_byte (value_type v)]"
  have buf: "pre @ b @ post = ?p @ body @ post" by (simp add: b)
  have tag: "read_u8 (pre @ b @ post) (length pre) = Inr (type_byte (value_type v), length ?p)"
    using read_u8_at[of "length pre" pre "type_byte (value_type v)" "body @ post"] by (simp add: b)
  have len: "length pre + length b = length ?p + length body" by (simp add: b)
  have start: "value_decode (pre @ b @ post) (length pre) =
      (case value_type v of
           TNull \<Rightarrow> Inr (VNull, length ?p)
         | TInt \<Rightarrow> and_then (read_u32 (?p @ body @ post) (length ?p)) (\<lambda>(n, off). Inr (VInt n, off))
         | TBigInt \<Rightarrow> and_then (read_u64 (?p @ body @ post) (length ?p)) (\<lambda>(n, off). Inr (VBigInt n, off))
         | TFloat \<Rightarrow> and_then (read_u64 (?p @ body @ post) (length ?p)) (\<lambda>(x, off). Inr (VFloat x, off))
         | TText \<Rightarrow> and_then (read_u32 (?p @ body @ post) (length ?p)) (\<lambda>(len, off).
             and_then (read_text (?p @ body @ post) off (unat len)) (\<lambda>(s, ending). Inr (VText s, ending)))
         | TBool \<Rightarrow> and_then (read_u8 (?p @ body @ post) (length ?p)) (\<lambda>(b, off). Inr (VBool (b \<noteq> 0), off))
         | TVector \<Rightarrow> and_then (read_u32 (?p @ body @ post) (length ?p)) (\<lambda>(dim, off).
             and_then (decode_n read_u32 (?p @ body @ post) off (unat dim) []) (\<lambda>(v, off). Inr (VVector v, off))))"
    unfolding value_decode_def tag and_then.simps prod.case type_byte_roundtrip by (simp only: buf)
  show ?thesis
  proof (cases v)
    case (VInt n)
    then have "body = u32_le n" using body by simp
    then show ?thesis unfolding start len using read_u32_at[of "length ?p" ?p n post] by (simp add: VInt)
  next
    case (VBigInt n)
    then have "body = u64_le n" using body by simp
    then show ?thesis unfolding start len using read_u64_at[of "length ?p" ?p n post] by (simp add: VBigInt)
  next
    case (VFloat n)
    then have "body = u64_le n" using body by simp
    then show ?thesis unfolding start len using read_u64_at[of "length ?p" ?p n post] by (simp add: VFloat)
  next
    case (VText s)
    then have s: "length s < 2 ^ 32" "body = u32_le (word_of_nat (length s)) @ s" "utf8_valid s"
      using body assms(1) by (auto simp: and_then_Inr u32_len_Inr ok_value_def)
    let ?L = "u32_le (word_of_nat (length s))"
    have r: "read_u32 (?p @ body @ post) (length ?p) = Inr (word_of_nat (length s), length ?p + 4)"
      using read_u32_at[of "length ?p" ?p "word_of_nat (length s)" "s @ post"] by (simp add: s)
    have "length ((?p @ ?L) @ s @ post) < 2 ^ 64" using assms(3) unfolding buf s(2) by simp
    from read_text_at[OF _ s(3) this, of "length ?p + 4"]
    have t: "read_text (?p @ body @ post) (length ?p + 4) (length s) = Inr (s, length ?p + 4 + length s)" by (simp add: s(2))
    have u: "unat (word_of_nat (length s) :: u32) = length s" using s(1) by (simp add: unat_of_nat)
    show ?thesis unfolding start len using VText r t u by (simp add: s(2))
  next
    case (VBool x)
    then have "body = [bool_byte x]" using body by simp
    then show ?thesis unfolding start len using read_u8_at[of "length ?p" ?p "bool_byte x" post] by (simp add: VBool bool_byte_def)
  next
    case (VVector ws)
    then have s: "length ws < 2 ^ 32" "body = u32_le (word_of_nat (length ws)) @ concat (map u32_le ws)"
      using body by (auto simp: and_then_Inr u32_len_Inr)
    let ?L = "u32_le (word_of_nat (length ws))" and ?c = "concat (map u32_le ws)"
    have r: "read_u32 (?p @ body @ post) (length ?p) = Inr (word_of_nat (length ws), length ?p + 4)"
      using read_u32_at[of "length ?p" ?p "word_of_nat (length ws)" "?c @ post"] by (simp add: s)
    have "length ((?p @ ?L) @ ?c @ post) < 2 ^ 64" using assms(3) unfolding buf s(2) by simp
    from word32.decode_n_encoded[OF words_encoded this, of "[]"]
    have t: "decode_n read_u32 (?p @ body @ post) (length ?p + 4) (length ws) [] = Inr (ws, length ?p + 4 + length ?c)" by (simp add: s(2) add.commute)
    have u: "unat (word_of_nat (length ws) :: u32) = length ws" using s(1) by (simp add: unat_of_nat)
    show ?thesis unfolding start len using VVector r t u by (simp add: s(2))
  qed (use start len body in auto)
qed

interpretation wire_value: cursor_codec "\<lambda>v b. ok_value v \<and> value_encode v = Inr b" value_decode
  by unfold_locales (use value_decode_encoded in auto)

interpretation cells: fixed_rows "\<lambda>v b. ok_value v \<and> value_encode v = Inr b" value_decode n for n
  by unfold_locales

lemma column_decode_encoded:
  assumes "utf8_valid (cd_name c)" "column_encode c = Inr b" "length (pre @ b @ post) < 2 ^ 64"
  shows "column_decode (pre @ b @ post) (length pre) = Inr (c, length pre + length b)"
proof -
  let ?n = "cd_name c" and ?t = "type_byte (cd_ty c)" and ?z = "bool_byte (cd_nullable c)"
  have n: "length ?n < 2 ^ 16" "b = [?t] @ u16_le (word_of_nat (length ?n)) @ ?n @ [?z]"
    using assms(2) by (auto simp: column_encode_def and_then_Inr u16_len_Inr)
  let ?L = "u16_le (word_of_nat (length ?n))"
  have r1: "read_u8 (pre @ b @ post) (length pre) = Inr (?t, length pre + 1)"
    using read_u8_at[of "length pre" pre ?t "?L @ ?n @ [?z] @ post"] by (simp add: n(2))
  have r2: "read_u16 (pre @ b @ post) (length pre + 1) = Inr (word_of_nat (length ?n), length pre + 3)"
    using read_u16_at[of "length pre + 1" "pre @ [?t]" "word_of_nat (length ?n)" "?n @ [?z] @ post"] by (simp add: n(2))
  have r3: "read_text (pre @ b @ post) (length pre + 3) (length ?n) = Inr (?n, length pre + 3 + length ?n)"
    using read_text_at[of "length pre + 3" "pre @ [?t] @ ?L" ?n "[?z] @ post"] assms(1,3) by (simp add: n(2))
  have r4: "read_u8 (pre @ b @ post) (length pre + 3 + length ?n) = Inr (?z, length pre + 4 + length ?n)"
    using read_u8_at[of "length pre + 3 + length ?n" "pre @ [?t] @ ?L @ ?n" ?z post] by (simp add: n(2))
  have u: "unat (word_of_nat (length ?n) :: u16) = length ?n" using n(1) by (simp add: unat_of_nat)
  have len: "length pre + length b = length pre + 4 + length ?n" by (simp add: n(2))
  show ?thesis
    unfolding column_decode_def r1 and_then.simps prod.case type_byte_roundtrip r2 u r3 r4 len
    by (simp add: bool_byte_def)
qed

interpretation column: cursor_codec "\<lambda>c b. utf8_valid (cd_name c) \<and> column_encode c = Inr b" column_decode
  by unfold_locales (use column_decode_encoded in auto)


section \<open>Frames and messages\<close>

text \<open>
  Frames survive any splitting of the byte stream. A frame that was written, followed by anything, is read back with the
  number of bytes it took; and every proper prefix of it is answered with one of the two errors that mean "read more bytes and
  try again", never with another frame and never with a fatal error.
\<close>

theorem wire_frame_stream:
  assumes "frame_encode fr [] = Inr b"
  shows "frame_decode (b @ rest) = Inr (fr, length b)
    \<and> (\<forall>n<length b. frame_decode (take n b) = Inl ShortHeader \<or> frame_decode (take n b) = Inl ShortPayload)"
proof -
  define L :: u32 where "L = word_of_nat (length (fr_payload fr))"
  have f: "length (fr_payload fr) < 2 ^ 32" "\<not> MAX_PAYLOAD < L" "b = u32_le L @ [op_byte (fr_op fr)] @ fr_payload fr"
    using assms by (auto simp: frame_encode_def Let_def L_def split: if_splits)
  obtain w x y z where le: "u32_le L = [w, x, y, z]"
    using length_u32_le[of L] unfolding length_four by blast
  then have lw: "le_u32 [w, x, y, z] = L" using le_u32_u32_le[of L] by simp
  have uL: "unat L = length (fr_payload fr)" using f(1) by (simp add: L_def unat_of_nat)
  have "frame_decode (b @ rest) = Inr (fr, length b)"
    using f(2) by (simp add: frame_decode_def FRAME_HEADER_LEN_def f(3) le lw uL slice_def numeral_eq_Suc)
  moreover have "frame_decode (take n b) = Inl ShortHeader \<or> frame_decode (take n b) = Inl ShortPayload" if n: "n < length b" for n
  proof (cases "n < 5")
    case True
    then have "length (take n b) < FRAME_HEADER_LEN" by (simp add: FRAME_HEADER_LEN_def min_less_iff_disj)
    then show ?thesis unfolding frame_decode_def by simp
  next
    case False
    then obtain m where m: "n = 5 + m" by (metis le_Suc_ex not_less)
    have t: "take n b = [w, x, y, z, op_byte (fr_op fr)] @ take m (fr_payload fr)" by (simp add: f(3) le m numeral_eq_Suc)
    have lt: "length (take m (fr_payload fr)) < unat L" using n by (simp add: f(3) le m uL)
    show ?thesis unfolding t using f(2) lt by (simp add: frame_decode_def FRAME_HEADER_LEN_def lw numeral_eq_Suc)
  qed
  ultimately show ?thesis by blast
qed

theorem wire_frame_stream_witness: "frame_decode ([2, 0, 0, 0, 0x10, 72, 73] @ [9]) = Inr (\<lparr>fr_op = Query, fr_payload = [72, 73]\<rparr>, 7)"
proof -
  have "frame_encode \<lparr>fr_op = Query, fr_payload = [72, 73]\<rparr> [] = Inr [2, 0, 0, 0, 0x10, 72, 73]"
    by (simp add: frame_encode_def MAX_PAYLOAD_def le_bytes_eval)
  from wire_frame_stream[OF this, of "[9]"] show ?thesis by simp
qed

lemma parse_data_row_built:
  assumes "\<forall>v\<in>set vs. ok_value v" "build_data_row vs = Inr fr" "length (fr_payload fr) < 2 ^ 64"
  shows "parse_data_row fr = Inr vs"
proof -
  let ?L = "u16_le (word_of_nat (length vs))"
  obtain p where p: "length vs < 2 ^ 16" "encode_each value_encode vs = Inr p" "fr_payload fr = [] @ ?L @ p"
    using assms(2) by (auto simp: build_data_row_def and_then_Inr u16_len_Inr)
  have u: "unat (word_of_nat (length vs) :: u16) = length vs" using p(1) by (simp add: unat_of_nat)
  have r: "read_u16 (fr_payload fr) 0 = Inr (word_of_nat (length vs), 2)" using read_u16_at[of 0 "[]" "word_of_nat (length vs)" p] by (simp add: p(3))
  have "length (?L @ p @ []) < 2 ^ 64" using assms(3) by (simp add: p(3))
  from wire_value.decode_n_encoded[OF encode_each_encodes[OF p(2) assms(1)] this, of "[]"]
  have "decode_n value_decode (fr_payload fr) 2 (length vs) [] = Inr (vs, 2 + length p)" by (simp add: p(3))
  then show ?thesis by (simp add: parse_data_row_def r u)
qed

lemma parse_row_description_built:
  assumes "\<forall>c\<in>set cs. utf8_valid (cd_name c)" "build_row_description cs = Inr fr" "length (fr_payload fr) < 2 ^ 64"
  shows "parse_row_description fr = Inr cs"
proof -
  let ?L = "u16_le (word_of_nat (length cs))"
  obtain p where p: "length cs < 2 ^ 16" "encode_each column_encode cs = Inr p" "fr_payload fr = [] @ ?L @ p"
    using assms(2) by (auto simp: build_row_description_def and_then_Inr u16_len_Inr)
  have u: "unat (word_of_nat (length cs) :: u16) = length cs" using p(1) by (simp add: unat_of_nat)
  have r: "read_u16 (fr_payload fr) 0 = Inr (word_of_nat (length cs), 2)" using read_u16_at[of 0 "[]" "word_of_nat (length cs)" p] by (simp add: p(3))
  have "length (?L @ p @ []) < 2 ^ 64" using assms(3) by (simp add: p(3))
  from column.decode_n_encoded[OF encode_each_encodes[OF p(2) assms(1)] this, of "[]"]
  have "decode_n column_decode (fr_payload fr) 2 (length cs) [] = Inr (cs, 2 + length p)" by (simp add: p(3))
  then show ?thesis by (simp add: parse_row_description_def r u)
qed

lemma batch_encodes:
  "encode_each (encode_each value_encode) rows = Inr p \<Longrightarrow> \<forall>row\<in>set rows. length row = n \<and> (\<forall>v\<in>set row. ok_value v) \<Longrightarrow>
   encodes_all (\<lambda>xs b. length xs = n \<and> encodes_all (\<lambda>v b. ok_value v \<and> value_encode v = Inr b) xs b) rows p"
  by (induction rows arbitrary: p) (auto simp: and_then_Inr intro: encode_each_encodes)

lemma parse_data_row_batch_built:
  assumes "\<forall>row\<in>set rows. length row = n \<and> (\<forall>v\<in>set row. ok_value v)" "build_data_row_batch rows = Inr fr" "length (fr_payload fr) < 2 ^ 64"
  shows "parse_data_row_batch fr = Inr rows"
proof -
  define m where "m = length (case rows of [] \<Rightarrow> [] | row # _ \<Rightarrow> row)"
  let ?R = "u16_le (word_of_nat (length rows))" and ?C = "u16_le (word_of_nat m)"
  obtain p where p: "length rows < 2 ^ 16" "m < 2 ^ 16" "encode_each (encode_each value_encode) rows = Inr p" "fr_payload fr = ?R @ ?C @ p"
    using assms(2) by (auto simp: build_data_row_batch_def and_then_Inr u16_len_Inr m_def)
  have u: "unat (word_of_nat (length rows) :: u16) = length rows" "unat (word_of_nat m :: u16) = m" using p(1,2) by (simp_all add: unat_of_nat)
  have rows: "\<forall>row\<in>set rows. length row = m \<and> (\<forall>v\<in>set row. ok_value v)" using assms(1) by (auto simp: m_def split: list.splits)
  have r: "read_u16 (fr_payload fr) 0 = Inr (word_of_nat (length rows), 2)" "read_u16 (fr_payload fr) 2 = Inr (word_of_nat m, 4)"
    using read_u16_at[of 0 "[]" "word_of_nat (length rows)" "?C @ p"] read_u16_at[of 2 ?R "word_of_nat m" p] by (simp_all add: p(4))
  have "length ((?R @ ?C) @ p @ []) < 2 ^ 64" using assms(3) by (simp add: p(4))
  from cells.row.decode_n_encoded[OF batch_encodes[OF p(3) rows] this, of "[]"]
  have "decode_n (\<lambda>buf off. decode_n value_decode buf off m []) (fr_payload fr) 4 (length rows) [] = Inr (rows, 4 + length p)" by (simp add: p(4))
  then show ?thesis by (simp add: parse_data_row_batch_def r u)
qed

lemma parse_auth_user_built:
  assumes "build_auth_user user pass = Inr fr" "utf8_valid user" "utf8_valid pass"
  shows "parse_auth_user fr = Inr (user, pass)"
proof -
  obtain x y where xy: "u16_le (word_of_nat (length user)) = [x, y]"
    using length_u16_le[of "word_of_nat (length user)"] unfolding length_two by blast
  have p: "length user < 2 ^ 16" "fr_payload fr = [x, y] @ user @ pass"
    using assms(1) xy by (auto simp: build_auth_user_def and_then_Inr u16_len_Inr)
  have "unat (le_u16 [x, y]) = length user" using p(1) xy le_u16_u16_le[of "word_of_nat (length user)"] by (simp add: unat_of_nat)
  moreover have "slice (fr_payload fr) 2 (2 + length user) = user" using slice_append[of 2 "[x, y]" "2 + length user" user pass] by (simp add: p(2))
  ultimately show ?thesis using assms(2,3) by (simp add: parse_auth_user_def p(2) Let_def)
qed

text \<open>
  Every message is parsed back to what it was built from: a result row and a batch of rows (of one width, with their cells
  in order), a row description, user credentials, a command completion, and a text message, for values whose texts are UTF-8 and
  payloads of a size that memory can hold.
\<close>

theorem wire_messages_roundtrip:
  assumes "\<forall>row\<in>set rows. length row = n \<and> (\<forall>v\<in>set row. ok_value v)" "build_data_row_batch rows = Inr f1" "length (fr_payload f1) < 2 ^ 64"
    and "\<forall>v\<in>set vs. ok_value v" "build_data_row vs = Inr f2" "length (fr_payload f2) < 2 ^ 64"
    and "\<forall>c\<in>set cs. utf8_valid (cd_name c)" "build_row_description cs = Inr f3" "length (fr_payload f3) < 2 ^ 64"
    and "build_auth_user user pass = Inr f4" "utf8_valid user" "utf8_valid pass"
  shows "parse_data_row_batch f1 = Inr rows \<and> parse_data_row f2 = Inr vs \<and> parse_row_description f3 = Inr cs
    \<and> parse_auth_user f4 = Inr (user, pass) \<and> parse_command_complete (build_command_complete k) = Inr k
    \<and> parse_text (text_frame op user) = Inr user"
  using parse_data_row_batch_built[OF assms(1-3)] parse_data_row_built[OF assms(4-6)] parse_row_description_built[OF assms(7-9)]
    parse_auth_user_built[OF assms(10-12)] read_u64_at[of 0 "[]" k "[]"] assms(11)
  by (simp add: parse_command_complete_def build_command_complete_def parse_text_def text_frame_def)

theorem wire_messages_roundtrip_witness:
  "parse_data_row_batch \<lparr>fr_op = DataRowBatch, fr_payload = [1, 0, 1, 0, 5, 1]\<rparr> = Inr [[VBool True]]
   \<and> parse_auth_user \<lparr>fr_op = AuthUser, fr_payload = [1, 0, 97, 98]\<rparr> = Inr ([97], [98])"
proof -
  have "build_data_row_batch [[VBool True]] = Inr \<lparr>fr_op = DataRowBatch, fr_payload = [1, 0, 1, 0, 5, 1]\<rparr>"
    "build_data_row [VBool True] = Inr \<lparr>fr_op = DataRow, fr_payload = [1, 0, 5, 1]\<rparr>"
    "build_row_description [] = Inr \<lparr>fr_op = RowDescription, fr_payload = [0, 0]\<rparr>"
    "build_auth_user [97] [98] = Inr \<lparr>fr_op = AuthUser, fr_payload = [1, 0, 97, 98]\<rparr>"
    by (simp_all add: build_data_row_batch_def build_data_row_def build_row_description_def build_auth_user_def u16_len_def
        value_encode_def bool_byte_def le_bytes_eval)
  from wire_messages_roundtrip[OF _ this(1) _ _ this(2) _ _ this(3) _ this(4), of 1]
  show ?thesis by (simp add: ok_value_def)
qed

end
