(* ===== verification/Wal.thy ===== *)
theory Wal
  imports Lzss Crc
begin

text \<open>
  The write-ahead log of the server (\<open>spg-server/src/wal.rs\<close>): the framing of records in its three
  versions, the encoders of statements, and recovery. SQL text is its UTF-8 bytes; an \<open>i64\<close> clock
  reading is its 64 bits. The engine a recovered statement runs on is a parameter, the record
  \<open>engine_ops\<close> of the calls recovery makes: a statement the engine rejects is reported and skipped,
  so each call is a transformation of the engine state. The two environment settings of the
  compressor are a record. The wording of errors is reduced to their kind and their numbers, lines
  written to the standard error stream are left out.
\<close>

definition WAL_V2_SENTINEL :: u32 where "WAL_V2_SENTINEL = 0x80000000"
definition WAL_V3_FLAG :: u32 where "WAL_V3_FLAG = 0x40000000"
definition WAL_V3_SENTINEL :: u32 where "WAL_V3_SENTINEL = WAL_V2_SENTINEL OR WAL_V3_FLAG"

definition WAL_V3_TYPE_AUTO_COMMIT_SQL :: u8 where "WAL_V3_TYPE_AUTO_COMMIT_SQL = 0x01"
definition WAL_V3_TYPE_DURABILITY_CHECKPOINT :: u8 where "WAL_V3_TYPE_DURABILITY_CHECKPOINT = 0x02"
definition WAL_V3_TYPE_COMPRESSED_SQL :: u8 where "WAL_V3_TYPE_COMPRESSED_SQL = 0x03"
definition WAL_V3_TYPE_MYSQL_SQL :: u8 where "WAL_V3_TYPE_MYSQL_SQL = 0x04"
definition WAL_V3_TYPE_VOLATILE_INPUTS :: u8 where "WAL_V3_TYPE_VOLATILE_INPUTS = 0x05"
definition WAL_COMPRESS_ALGO_NONE :: u8 where "WAL_COMPRESS_ALGO_NONE = 0x00"
definition WAL_COMPRESS_ALGO_LZSS :: u8 where "WAL_COMPRESS_ALGO_LZSS = 0x01"

lemmas wal_tags = WAL_V3_TYPE_AUTO_COMMIT_SQL_def WAL_V3_TYPE_DURABILITY_CHECKPOINT_def WAL_V3_TYPE_COMPRESSED_SQL_def
  WAL_V3_TYPE_MYSQL_SQL_def WAL_V3_TYPE_VOLATILE_INPUTS_def WAL_COMPRESS_ALGO_NONE_def WAL_COMPRESS_ALGO_LZSS_def

datatype wal_error =
    SqlTooLarge
  | AliasesSentinel
  | PayloadTooLarge
  | BadVolatileInputs nat nat
  | SqlNotUtf8
  | EmptyPayload nat
  | BadCompression nat lzss_error
  | UnknownAlgo nat u8
  | BadMarker nat nat
  | UnknownType u8 nat
  | CrcMismatch nat u32 u32 nat

type_synonym volatiles = "(u64 \<times> u64) option"

record wal_settings =
  compression_enabled :: bool
  compression_min_bytes :: nat

record wal_metrics =
  wal_bytes_uncompressed_in :: u64
  wal_bytes_compressed_out :: u64

record 'e engine_ops =
  execute :: "bytes \<Rightarrow> 'e \<Rightarrow> 'e"
  replay_statement :: "u64 \<Rightarrow> u64 \<Rightarrow> bytes \<Rightarrow> 'e \<Rightarrow> 'e"
  in_mysql_dialect :: "'e \<Rightarrow> bool"
  set_mysql_dialect :: "bool \<Rightarrow> 'e \<Rightarrow> 'e"

section \<open>Writing records\<close>

definition encode_wal_record :: "bytes \<Rightarrow> wal_error + bytes" where
  "encode_wal_record sql =
     (if 2 ^ 32 \<le> length sql then Inl SqlTooLarge
      else
        (let len = word_of_nat (length sql) :: u32
         in if len AND WAL_V2_SENTINEL \<noteq> 0 then Inl AliasesSentinel
            else (let crc = crc32 sql in Inr (u32_le (len OR WAL_V2_SENTINEL) @ u32_le crc @ sql))))"

definition encode_wal_v3_record :: "u8 \<Rightarrow> bytes \<Rightarrow> wal_error + bytes" where
  "encode_wal_v3_record type_tag payload =
     (if 2 ^ 32 \<le> length payload then Inl PayloadTooLarge
      else
        (let len = word_of_nat (length payload) :: u32
         in if len AND (WAL_V2_SENTINEL OR WAL_V3_FLAG) \<noteq> 0 then Inl AliasesSentinel
            else (let crc = crc32 (type_tag # payload)
                  in Inr (u32_le (len OR WAL_V3_SENTINEL) @ u32_le crc @ type_tag # payload))))"

text \<open>The \<open>expect\<close> on the sixteen-byte record is the value \<open>None\<close>.\<close>

definition encode_wal_volatile_inputs :: "volatiles \<Rightarrow> bytes option" where
  "encode_wal_volatile_inputs volatiles =
     (case volatiles of
        None \<Rightarrow> Some []
      | Some (micros, random) \<Rightarrow>
          (case encode_wal_v3_record WAL_V3_TYPE_VOLATILE_INPUTS (u64_le micros @ u64_le random) of
             Inl _ \<Rightarrow> None
           | Inr entry \<Rightarrow> Some entry))"

definition encode_durability_marker :: "u64 \<Rightarrow> wal_error + bytes" where
  "encode_durability_marker byte_offset = encode_wal_v3_record WAL_V3_TYPE_DURABILITY_CHECKPOINT (u64_le byte_offset)"

definition wal_v3_auto_commit_size :: "bytes \<Rightarrow> u64" where
  "wal_v3_auto_commit_size sql = 9 + word_of_nat (length sql)"

definition encode_wal_auto_commit_sql :: "wal_settings \<Rightarrow> bytes \<Rightarrow> (wal_error + bytes) option" where
  "encode_wal_auto_commit_sql cfg sql =
     (if \<not> compression_enabled cfg \<or> length sql < compression_min_bytes cfg
      then Some (encode_wal_v3_record WAL_V3_TYPE_AUTO_COMMIT_SQL sql)
      else
        (case compress sql of
           None \<Rightarrow> None
         | Some compressed \<Rightarrow>
             if length sql \<le> length compressed + 1
             then Some (encode_wal_v3_record WAL_V3_TYPE_AUTO_COMMIT_SQL sql)
             else Some (encode_wal_v3_record WAL_V3_TYPE_COMPRESSED_SQL (WAL_COMPRESS_ALGO_LZSS # compressed))))"

definition count_in :: "bytes \<Rightarrow> wal_metrics \<Rightarrow> wal_metrics" where
  "count_in sql m = m\<lparr>wal_bytes_uncompressed_in := wal_bytes_uncompressed_in m + word_of_nat (length sql)\<rparr>"

definition count_out :: "wal_metrics \<Rightarrow> wal_error + bytes \<Rightarrow> wal_metrics \<times> (wal_error + bytes)" where
  "count_out m r =
     (case r of
        Inl e \<Rightarrow> (m, Inl e)
      | Inr out \<Rightarrow> (m\<lparr>wal_bytes_compressed_out := wal_bytes_compressed_out m + word_of_nat (length out)\<rparr>, Inr out))"

definition encode_wal_auto_commit_sql_metrics ::
  "wal_settings \<Rightarrow> bytes \<Rightarrow> wal_metrics \<Rightarrow> (wal_metrics \<times> (wal_error + bytes)) option" where
  "encode_wal_auto_commit_sql_metrics cfg sql m =
     (let m1 = count_in sql m
      in if \<not> compression_enabled cfg \<or> length sql < compression_min_bytes cfg
         then Some (count_out m1 (encode_wal_v3_record WAL_V3_TYPE_AUTO_COMMIT_SQL sql))
         else
           (case compress sql of
              None \<Rightarrow> None
            | Some compressed \<Rightarrow>
                if length sql \<le> length compressed + 1
                then Some (count_out m1 (encode_wal_v3_record WAL_V3_TYPE_AUTO_COMMIT_SQL sql))
                else Some (count_out m1
                       (encode_wal_v3_record WAL_V3_TYPE_COMPRESSED_SQL (WAL_COMPRESS_ALGO_LZSS # compressed)))))"

definition mysql_payload :: "wal_settings \<Rightarrow> bytes \<Rightarrow> bytes option" where
  "mysql_payload cfg sql =
     (if \<not> compression_enabled cfg \<or> length sql < compression_min_bytes cfg then Some (WAL_COMPRESS_ALGO_NONE # sql)
      else
        (case compress sql of
           None \<Rightarrow> None
         | Some compressed \<Rightarrow>
             if length sql \<le> length compressed + 1 then Some (WAL_COMPRESS_ALGO_NONE # sql)
             else Some (WAL_COMPRESS_ALGO_LZSS # compressed)))"

definition encode_wal_auto_commit_sql_mysql ::
  "wal_settings \<Rightarrow> bytes \<Rightarrow> wal_metrics \<Rightarrow> (wal_metrics \<times> (wal_error + bytes)) option" where
  "encode_wal_auto_commit_sql_mysql cfg sql m =
     (let m1 = count_in sql m
      in case mysql_payload cfg sql of
           None \<Rightarrow> None
         | Some payload \<Rightarrow> Some (count_out m1 (encode_wal_v3_record WAL_V3_TYPE_MYSQL_SQL payload)))"

section \<open>Reading frames\<close>

text \<open>
  One frame at an offset, as \<open>replay_wal_bytes_reporting\<close> and \<open>records_follow\<close> both read it: the type
  byte (version 3 only), the stored checksum (versions 2 and 3), the payload and the offset after it.
  Every way of running out of bytes is \<open>Torn\<close>.
\<close>

datatype frame_read = Torn | Frame "u8 option" "u32 option" bytes nat

definition read_frame :: "bytes \<Rightarrow> nat \<Rightarrow> frame_read" where
  "read_frame bs cur =
     (if length bs - cur < 4 then Torn
      else
        (let raw_len = le_u32 (slice bs cur (cur + 4));
             cur1 = cur + 4;
             is_v2 = (raw_len AND WAL_V2_SENTINEL \<noteq> 0);
             is_v3 = (is_v2 \<and> raw_len AND WAL_V3_FLAG \<noteq> 0);
             len_mask = (if is_v3 then NOT (WAL_V2_SENTINEL OR WAL_V3_FLAG) else NOT WAL_V2_SENTINEL);
             len = unat (raw_len AND len_mask)
         in if is_v2 \<and> length bs - cur1 < 4 then Torn
            else
              (let expected = (if is_v2 then Some (le_u32 (slice bs cur1 (cur1 + 4))) else None);
                   cur2 = (if is_v2 then cur1 + 4 else cur1)
               in if is_v3 \<and> length bs - cur2 < 1 then Torn
                  else
                    (let tag = (if is_v3 then Some (bs ! cur2) else None);
                         cur3 = (if is_v3 then cur2 + 1 else cur2)
                     in if length bs < cur3 + len then Torn
                        else Frame tag expected (slice bs cur3 (cur3 + len)) (cur3 + len)))))"

definition frame_crc :: "u8 option \<Rightarrow> bytes \<Rightarrow> u32" where
  "frame_crc tag payload = (case tag of Some t \<Rightarrow> crc32 (t # payload) | None \<Rightarrow> crc32 payload)"

lemma read_frame_advances: "read_frame bs cur = Frame tag crc payload nxt \<Longrightarrow> cur < nxt \<and> nxt \<le> length bs"
  by (auto simp: read_frame_def Let_def split: if_splits)

function follow_loop :: "bytes \<Rightarrow> nat \<Rightarrow> nat \<Rightarrow> bool" where
  "follow_loop bs cur seen =
     (if cur < length bs then
        (case read_frame bs cur of
           Torn \<Rightarrow> False
         | Frame tag expected payload nxt \<Rightarrow>
             if (case expected of Some c \<Rightarrow> frame_crc tag payload \<noteq> c | None \<Rightarrow> False) then False
             else follow_loop bs nxt (seen + 1))
      else 0 < seen)"
  by pat_completeness auto
termination
  by (relation "measure (\<lambda>(bs, cur, seen). length bs - cur)") (auto dest!: read_frame_advances)

declare follow_loop.simps [simp del]

definition records_follow :: "bytes \<Rightarrow> nat \<Rightarrow> bool" where
  "records_follow bs at = follow_loop bs at 0"

section \<open>Recovery\<close>

record wal_replay =
  applied :: nat
  valid_bytes :: nat

definition replay_execute_quarantining :: "'e engine_ops \<Rightarrow> 'e \<Rightarrow> bytes \<Rightarrow> volatiles \<Rightarrow> 'e" where
  "replay_execute_quarantining ops e sql volatiles =
     (case volatiles of
        Some (micros, random) \<Rightarrow> replay_statement ops micros random sql e
      | None \<Rightarrow> execute ops sql e)"

text \<open>The text of a MySQL record and of a compressed record, or the error that ends recovery.\<close>

definition mysql_text :: "bytes \<Rightarrow> nat \<Rightarrow> wal_error + bytes" where
  "mysql_text payload frame_off =
     (case payload of
        [] \<Rightarrow> Inl (EmptyPayload frame_off)
      | algo # rest \<Rightarrow>
          and_then
            (if algo = WAL_COMPRESS_ALGO_NONE then Inr rest
             else if algo = WAL_COMPRESS_ALGO_LZSS then
               (case decompress rest of Inl e \<Rightarrow> Inl (BadCompression frame_off e) | Inr raw \<Rightarrow> Inr raw)
             else Inl (UnknownAlgo frame_off algo))
            (\<lambda>raw. if utf8_valid raw then Inr raw else Inl SqlNotUtf8))"

definition compressed_text :: "bytes \<Rightarrow> nat \<Rightarrow> wal_error + bytes" where
  "compressed_text payload frame_off =
     (case payload of
        [] \<Rightarrow> Inl (EmptyPayload frame_off)
      | algo # compressed \<Rightarrow>
          and_then
            (if algo = WAL_COMPRESS_ALGO_LZSS then
               (case decompress compressed of Inl e \<Rightarrow> Inl (BadCompression frame_off e) | Inr raw \<Rightarrow> Inr raw)
             else Inl (UnknownAlgo frame_off algo))
            (\<lambda>raw. if utf8_valid raw then Inr raw else Inl SqlNotUtf8))"

text \<open>A dispatched record: whether it counts as applied, the engine, and the pending inputs.\<close>

definition dispatch_v3_record ::
  "'e engine_ops \<Rightarrow> u8 \<Rightarrow> bytes \<Rightarrow> nat \<Rightarrow> 'e \<Rightarrow> volatiles \<Rightarrow> wal_error + bool \<times> 'e \<times> volatiles" where
  "dispatch_v3_record ops tag payload frame_off e pending =
     (if tag = WAL_V3_TYPE_VOLATILE_INPUTS then
        (if length payload \<noteq> 16 then Inl (BadVolatileInputs frame_off (length payload))
         else Inr (False, e, Some (le_u64 (take 8 payload), le_u64 (drop 8 payload))))
      else if tag = WAL_V3_TYPE_AUTO_COMMIT_SQL then
        (if \<not> utf8_valid payload then Inl SqlNotUtf8
         else Inr (True, replay_execute_quarantining ops e payload pending, None))
      else if tag = WAL_V3_TYPE_MYSQL_SQL then
        and_then (mysql_text payload frame_off) (\<lambda>sql.
          let was = in_mysql_dialect ops e;
              e1 = set_mysql_dialect ops True e;
              e2 = replay_execute_quarantining ops e1 sql pending;
              e3 = set_mysql_dialect ops was e2
          in Inr (True, e3, None))
      else if tag = WAL_V3_TYPE_COMPRESSED_SQL then
        and_then (compressed_text payload frame_off) (\<lambda>sql.
          Inr (True, replay_execute_quarantining ops e sql pending, None))
      else if tag = WAL_V3_TYPE_DURABILITY_CHECKPOINT then
        (if length payload \<noteq> 8 then Inl (BadMarker frame_off (length payload))
         else Inr (False, e, pending))
      else Inl (UnknownType tag frame_off))"

text \<open>One accepted frame: the dispatch on its version.\<close>

definition accept_frame ::
  "'e engine_ops \<Rightarrow> u8 option \<Rightarrow> bytes \<Rightarrow> nat \<Rightarrow> 'e \<Rightarrow> volatiles \<Rightarrow> wal_error + bool \<times> 'e \<times> volatiles" where
  "accept_frame ops tag payload frame_off e pending =
     (case tag of
        Some t \<Rightarrow> dispatch_v3_record ops t payload frame_off e pending
      | None \<Rightarrow>
          if \<not> utf8_valid payload then Inl SqlNotUtf8
          else Inr (True, replay_execute_quarantining ops e payload None, pending))"

text \<open>
  The loop keeps the engine beside its result: an error ends recovery with the statements before it
  already applied.
\<close>

function replay_loop ::
  "'e engine_ops \<Rightarrow> bytes \<Rightarrow> nat \<Rightarrow> nat \<Rightarrow> volatiles \<Rightarrow> 'e \<Rightarrow> (wal_error + wal_replay) \<times> 'e" where
  "replay_loop ops bs cur n pending e =
     (if cur < length bs then
        (case read_frame bs cur of
           Torn \<Rightarrow> (Inr \<lparr>applied = n, valid_bytes = cur\<rparr>, e)
         | Frame tag expected payload nxt \<Rightarrow>
             (let actual = frame_crc tag payload
              in if (case expected of Some c \<Rightarrow> actual \<noteq> c | None \<Rightarrow> False) then
                   (if records_follow bs nxt then (Inl (CrcMismatch cur (the expected) actual (length payload)), e)
                    else (Inr \<lparr>applied = n, valid_bytes = cur\<rparr>, e))
                 else
                   (case accept_frame ops tag payload cur e pending of
                      Inl err \<Rightarrow> (Inl err, e)
                    | Inr (counted, e', pending') \<Rightarrow>
                        replay_loop ops bs nxt (if counted then n + 1 else n) pending' e')))
      else (Inr \<lparr>applied = n, valid_bytes = cur\<rparr>, e))"
  by pat_completeness auto
termination
  by (relation "measure (\<lambda>(ops, bs, cur, n, p, e). length bs - cur)") (auto dest!: read_frame_advances)

declare replay_loop.simps [simp del]

definition replay_wal_bytes_reporting :: "'e engine_ops \<Rightarrow> bytes \<Rightarrow> 'e \<Rightarrow> (wal_error + wal_replay) \<times> 'e" where
  "replay_wal_bytes_reporting ops bs e = replay_loop ops bs 0 0 None e"

definition replay_wal_bytes :: "'e engine_ops \<Rightarrow> bytes \<Rightarrow> 'e \<Rightarrow> (wal_error + nat) \<times> 'e" where
  "replay_wal_bytes ops bs e =
     (case replay_wal_bytes_reporting ops bs e of
        (Inl err, e') \<Rightarrow> (Inl err, e')
      | (Inr r, e') \<Rightarrow> (Inr (applied r), e'))"

section \<open>Frames and their reading\<close>

text \<open>A frame as the two encoders write it, by its type byte (none in version 2) and payload.\<close>

definition sentinel :: "u8 option \<Rightarrow> u32" where
  "sentinel tag = (case tag of None \<Rightarrow> WAL_V2_SENTINEL | Some _ \<Rightarrow> WAL_V3_SENTINEL)"

definition frame_body :: "u8 option \<Rightarrow> bytes \<Rightarrow> bytes" where
  "frame_body tag payload = (case tag of None \<Rightarrow> payload | Some t \<Rightarrow> t # payload)"

definition sealed_frame :: "u32 \<Rightarrow> u8 option \<Rightarrow> bytes \<Rightarrow> bytes" where
  "sealed_frame crc tag payload =
     u32_le (word_of_nat (length payload) OR sentinel tag) @ u32_le crc @ frame_body tag payload"

definition frame_ok :: "u8 option \<Rightarrow> bytes \<Rightarrow> bool" where
  "frame_ok tag payload \<longleftrightarrow> length payload < 2 ^ 32 \<and> (word_of_nat (length payload) :: u32) AND sentinel tag = 0
     \<and> (tag = None \<longrightarrow> (word_of_nat (length payload) :: u32) AND WAL_V3_FLAG = 0)"

lemma frame_crc_body: "frame_crc tag payload = crc32 (frame_body tag payload)"
  by (simp add: frame_crc_def frame_body_def split: option.split)

lemma length_sealed_frame:
  "length (sealed_frame crc tag payload) = 8 + length (frame_body tag payload)"
  "length (frame_body tag payload) = length payload + (if tag = None then 0 else 1)"
  by (auto simp: sealed_frame_def frame_body_def split: option.split)

lemma mask_bits:
  fixes w s :: u32
  assumes "w AND s = 0"
  shows "(w OR s) AND NOT s = w" and "(w OR s) AND s = s"
proof -
  have b: "\<not> (bit w n \<and> bit s n)" for n using assms by (metis bit_and_iff bit_0_eq bot_apply bot_bool_def)
  show "(w OR s) AND NOT s = w" by (rule bit_word_eqI) (use b in \<open>auto simp: bit_simps\<close>)
  show "(w OR s) AND s = s" by (rule bit_word_eqI) (use b in \<open>auto simp: bit_simps\<close>)
qed

lemma sentinel_sub: "WAL_V3_SENTINEL AND WAL_V2_SENTINEL = WAL_V2_SENTINEL" "WAL_V3_SENTINEL AND WAL_V3_FLAG = WAL_V3_FLAG"
  "WAL_V2_SENTINEL AND WAL_V3_FLAG = 0" "WAL_V2_SENTINEL \<noteq> 0" "WAL_V3_FLAG \<noteq> 0"
  by (simp_all add: WAL_V3_SENTINEL_def WAL_V2_SENTINEL_def WAL_V3_FLAG_def)

text \<open>What the header word of a frame tells the reader.\<close>

lemma header_word:
  assumes "frame_ok tag payload"
  defines "w \<equiv> word_of_nat (length payload) OR sentinel tag :: u32"
  shows "w AND WAL_V2_SENTINEL \<noteq> 0" and "(w AND WAL_V3_FLAG \<noteq> 0) = (tag \<noteq> None)"
    and "unat (w AND NOT (sentinel tag)) = length payload"
proof -
  let ?l = "word_of_nat (length payload) :: u32"
  have l: "length payload < 2 ^ 32" "?l AND sentinel tag = 0" using assms(1) by (simp_all add: frame_ok_def)
  have m: "w AND NOT (sentinel tag) = ?l" "w AND sentinel tag = sentinel tag" using mask_bits[OF l(2)] by (simp_all add: w_def)
  show "unat (w AND NOT (sentinel tag)) = length payload" using l(1) by (simp add: m(1) unat_of_nat)
  have sub: "w AND (sentinel tag AND x) = sentinel tag AND x" for x by (metis m(2) and.assoc)
  show "w AND WAL_V2_SENTINEL \<noteq> 0"
    using sub[of WAL_V2_SENTINEL] m(2) sentinel_sub by (cases tag) (auto simp: sentinel_def)
  show "(w AND WAL_V3_FLAG \<noteq> 0) = (tag \<noteq> None)"
  proof (cases tag)
    case None
    then have "?l AND WAL_V3_FLAG = 0" using assms(1) by (simp add: frame_ok_def)
    then show ?thesis using None sentinel_sub(3) by (simp add: w_def sentinel_def bit.conj_disj_distrib2)
  next
    case (Some t)
    then show ?thesis using sub[of WAL_V3_FLAG] sentinel_sub by (simp add: sentinel_def)
  qed
qed

lemma nth_after: "(pre @ r) ! (length pre + k) = r ! k"
  by (simp add: nth_append)

lemma read_sealed_frame:
  assumes "frame_ok tag payload"
  shows "read_frame (pre @ sealed_frame crc tag payload @ post) (length pre)
    = Frame tag (Some crc) payload (length pre + length (sealed_frame crc tag payload))"
proof -
  let ?w = "word_of_nat (length payload) OR sentinel tag :: u32" and ?b = "frame_body tag payload"
  have bs: "pre @ sealed_frame crc tag payload @ post = pre @ u32_le ?w @ u32_le crc @ ?b @ post" by (simp add: sealed_frame_def)
  note h = header_word[OF assms]
  show ?thesis
  proof (cases tag)
    case None
    with h show ?thesis unfolding bs
      by (simp add: read_frame_def Let_def length_sealed_frame sentinel_def slice_def frame_body_def)
  next
    case (Some t)
    with h show ?thesis unfolding bs
      by (simp add: read_frame_def Let_def length_sealed_frame sentinel_def slice_def frame_body_def
          WAL_V3_SENTINEL_def[symmetric] nth_append)
  qed
qed

lemma read_torn_frame:
  assumes "frame_ok tag payload" "t < length (sealed_frame crc tag payload)"
  shows "read_frame (pre @ take t (sealed_frame crc tag payload)) (length pre) = Torn"
proof (cases "t < 4")
  case True
  then have "length (pre @ take t (sealed_frame crc tag payload)) - length pre < 4" by simp
  then show ?thesis unfolding read_frame_def by (rule if_P)
next
  case False
  let ?w = "word_of_nat (length payload) OR sentinel tag :: u32" and ?f = "sealed_frame crc tag payload"
  define r where "r = take (t - 4) (u32_le crc @ frame_body tag payload)"
  have f: "take t ?f = u32_le ?w @ r" using False by (simp add: sealed_frame_def r_def)
  have t: "length r = t - 4" using assms(2) False by (simp add: r_def length_sealed_frame)
  note h = header_word[OF assms(1)]
  show ?thesis
  proof (cases tag)
    case None
    with h t assms(2) False show ?thesis unfolding f
      by (simp add: read_frame_def Let_def length_sealed_frame sentinel_def slice_def)
  next
    case (Some y)
    with h t assms(2) False show ?thesis unfolding f
      by (simp add: read_frame_def Let_def length_sealed_frame sentinel_def slice_def WAL_V3_SENTINEL_def[symmetric])
  qed
qed

section \<open>Replaying a sequence of frames\<close>

type_synonym frame = "u8 option \<times> bytes"

definition frame_bytes :: "frame \<Rightarrow> bytes" where
  "frame_bytes f = sealed_frame (frame_crc (fst f) (snd f)) (fst f) (snd f)"

abbreviation frames_bytes :: "frame list \<Rightarrow> bytes" where
  "frames_bytes fs \<equiv> concat (map frame_bytes fs)"

abbreviation frames_ok :: "frame list \<Rightarrow> bool" where
  "frames_ok fs \<equiv> \<forall>f\<in>set fs. frame_ok (fst f) (snd f)"

lemma frame_bytes_nonempty: "0 < length (frame_bytes f)" "frame_bytes f \<noteq> []"
proof -
  show "0 < length (frame_bytes f)" by (simp add: frame_bytes_def length_sealed_frame(1) del: length_greater_0_conv)
  then show "frame_bytes f \<noteq> []" by auto
qed

lemma encode_v3_frame:
  "encode_wal_v3_record tag payload = Inr b \<longleftrightarrow> frame_ok (Some tag) payload \<and> b = frame_bytes (Some tag, payload)"
  by (auto simp: encode_wal_v3_record_def frame_ok_def frame_bytes_def sealed_frame_def sentinel_def frame_body_def
      frame_crc_def WAL_V3_SENTINEL_def Let_def)

fun accept_all :: "'e engine_ops \<Rightarrow> frame list \<Rightarrow> nat \<Rightarrow> nat \<Rightarrow> volatiles \<Rightarrow> 'e \<Rightarrow> wal_error + nat \<times> volatiles \<times> 'e" where
  "accept_all ops [] off n pending e = Inr (n, pending, e)"
| "accept_all ops (f # fs) off n pending e =
     and_then (accept_frame ops (fst f) (snd f) off e pending) (\<lambda>(counted, e', pending').
       accept_all ops fs (off + length (frame_bytes f)) (if counted then n + 1 else n) pending' e')"

lemma accept_all_append:
  "accept_all ops (fs @ gs) off n pending e =
   and_then (accept_all ops fs off n pending e) (\<lambda>(n', pending', e'). accept_all ops gs (off + length (frames_bytes fs)) n' pending' e')"
proof (induction fs arbitrary: off n pending e)
  case (Cons f fs)
  then show ?case by (cases "accept_frame ops (fst f) (snd f) off e pending") (auto simp: add.assoc)
qed simp

text \<open>Frames that are whole are consumed one after the other, whatever follows them.\<close>

lemma replay_loop_frame:
  assumes "frame_ok (fst f) (snd f)"
    and "accept_frame ops (fst f) (snd f) (length pre) e pending = Inr (counted, e', pending')"
  shows "replay_loop ops (pre @ frame_bytes f @ post) (length pre) n pending e
    = replay_loop ops ((pre @ frame_bytes f) @ post) (length (pre @ frame_bytes f)) (if counted then n + 1 else n) pending' e'"
  using read_sealed_frame[OF assms(1), of pre "frame_crc (fst f) (snd f)" post] frame_bytes_nonempty(1)[of f] assms(2)
  by (subst replay_loop.simps) (simp add: frame_bytes_def[symmetric])

lemma replay_loop_frames:
  assumes "frames_ok fs" "accept_all ops fs (length pre) n pending e = Inr (n', pending', e')"
  shows "replay_loop ops (pre @ frames_bytes fs @ post) (length pre) n pending e
    = replay_loop ops ((pre @ frames_bytes fs) @ post) (length (pre @ frames_bytes fs)) n' pending' e'"
  using assms
proof (induction fs arbitrary: pre n pending e)
  case (Cons f fs)
  from Cons.prems(2) obtain c e1 p1 where a: "accept_frame ops (fst f) (snd f) (length pre) e pending = Inr (c, e1, p1)"
    and r: "accept_all ops fs (length (pre @ frame_bytes f)) (if c then n + 1 else n) p1 e1 = Inr (n', pending', e')"
    by (auto simp: and_then_Inr)
  have "frame_ok (fst f) (snd f)" "frames_ok fs" using Cons.prems(1) by auto
  with replay_loop_frame[OF _ a, of "frames_bytes fs @ post" n] Cons.IH[OF _ r] show ?case by simp
qed simp

lemma replay_loop_end: "replay_loop ops bs (length bs) n pending e = (Inr \<lparr>applied = n, valid_bytes = length bs\<rparr>, e)"
  by (subst replay_loop.simps) simp

lemma replay_loop_torn:
  assumes "frame_ok (fst f) (snd f)" "t < length (frame_bytes f)"
  shows "replay_loop ops (pre @ take t (frame_bytes f)) (length pre) n pending e = (Inr \<lparr>applied = n, valid_bytes = length pre\<rparr>, e)"
proof (cases t)
  case 0
  then show ?thesis using replay_loop_end[of ops pre n pending e] by simp
next
  case (Suc t')
  then have "length pre < length (pre @ take t (frame_bytes f))" using frame_bytes_nonempty(2)[of f] by (cases "frame_bytes f") simp_all
  then show ?thesis
    using read_torn_frame[of "fst f" "snd f" t "frame_crc (fst f) (snd f)" pre] assms
    by (subst replay_loop.simps) (simp add: frame_bytes_def[symmetric])
qed

text \<open>A prefix of a sequence of frames is some whole frames and a torn one.\<close>

lemma take_frames:
  assumes "r < length (frames_bytes fs)"
  obtains j t where "j < length fs" "t < length (frame_bytes (fs ! j))"
    "take r (frames_bytes fs) = frames_bytes (take j fs) @ take t (frame_bytes (fs ! j))"
  using assms
proof (induction fs arbitrary: r thesis)
  case (Cons f fs)
  show ?case
  proof (cases "r < length (frame_bytes f)")
    case True
    then show ?thesis by (intro Cons.prems(1)[of 0 r]) simp_all
  next
    case False
    then have "r - length (frame_bytes f) < length (frames_bytes fs)" using Cons.prems(2) by simp
    then obtain j t where "j < length fs" "t < length (frame_bytes (fs ! j))"
      "take (r - length (frame_bytes f)) (frames_bytes fs) = frames_bytes (take j fs) @ take t (frame_bytes (fs ! j))"
      by (rule Cons.IH[rotated])
    then show ?thesis using False by (intro Cons.prems(1)[of "Suc j" t]) simp_all
  qed
qed simp

lemma follow_loop_frames:
  "frames_ok fs \<Longrightarrow> follow_loop (pre @ frames_bytes fs) (length pre) seen \<longleftrightarrow> 0 < seen + length fs"
proof (induction fs arbitrary: pre seen)
  case Nil
  then show ?case by (subst follow_loop.simps) simp
next
  case (Cons f fs)
  have "frame_ok (fst f) (snd f)" "frames_ok fs" using Cons.prems by auto
  with read_sealed_frame[of "fst f" "snd f" pre "frame_crc (fst f) (snd f)" "frames_bytes fs"] Cons.IH[of "pre @ frame_bytes f" "Suc seen"]
    frame_bytes_nonempty(1)[of f]
  show ?case by (subst follow_loop.simps) (simp add: frame_bytes_def[symmetric])
qed

section \<open>Logged statements\<close>

text \<open>
  A statement as the commit paths log it: what it drew from the clock and the random generator goes
  in front of its own record.
\<close>

record logged_statement =
  ls_mysql :: bool
  ls_volatiles :: volatiles
  ls_sql :: bytes

definition statement_entry ::
  "wal_settings \<Rightarrow> logged_statement \<Rightarrow> wal_metrics \<Rightarrow> (wal_metrics \<times> (wal_error + bytes)) option" where
  "statement_entry cfg s m =
     (case (if ls_mysql s then encode_wal_auto_commit_sql_mysql cfg (ls_sql s) m
            else encode_wal_auto_commit_sql_metrics cfg (ls_sql s) m) of
        None \<Rightarrow> None
      | Some (m', Inl err) \<Rightarrow> Some (m', Inl err)
      | Some (m', Inr b) \<Rightarrow>
          (case encode_wal_volatile_inputs (ls_volatiles s) of
             None \<Rightarrow> None
           | Some inputs \<Rightarrow> Some (m', Inr (inputs @ b))))"

text \<open>What running a logged statement again does to the engine.\<close>

definition run_logged :: "'e engine_ops \<Rightarrow> logged_statement \<Rightarrow> 'e \<Rightarrow> 'e" where
  "run_logged ops s e =
     (if ls_mysql s
      then set_mysql_dialect ops (in_mysql_dialect ops e)
             (replay_execute_quarantining ops (set_mysql_dialect ops True e) (ls_sql s) (ls_volatiles s))
      else replay_execute_quarantining ops e (ls_sql s) (ls_volatiles s))"

definition logs :: "wal_settings \<Rightarrow> logged_statement \<Rightarrow> bytes \<Rightarrow> bool" where
  "logs cfg s b \<longleftrightarrow> utf8_valid (ls_sql s) \<and> length (ls_sql s) < 2 ^ 32 \<and> (\<exists>m m'. statement_entry cfg s m = Some (m', Inr b))"

lemma compressed_back:
  assumes "compress sql = Some c" "length sql < 2 ^ 32"
  shows "decompress c = Inr sql"
  using compress_decodes[OF assms(2)] assms(1) by auto

text \<open>The four shapes of a SQL record, and what recovery makes of each.\<close>

lemma accept_auto_commit:
  "utf8_valid sql \<Longrightarrow> accept_frame ops (Some WAL_V3_TYPE_AUTO_COMMIT_SQL) sql off e pending
     = Inr (True, replay_execute_quarantining ops e sql pending, None)"
  by (simp add: accept_frame_def dispatch_v3_record_def wal_tags)

lemma accept_compressed:
  "utf8_valid sql \<Longrightarrow> compressed_text p off = Inr sql \<Longrightarrow> accept_frame ops (Some WAL_V3_TYPE_COMPRESSED_SQL) p off e pending
     = Inr (True, replay_execute_quarantining ops e sql pending, None)"
  by (simp add: accept_frame_def dispatch_v3_record_def wal_tags)

lemma accept_mysql:
  "mysql_text p off = Inr sql \<Longrightarrow> accept_frame ops (Some WAL_V3_TYPE_MYSQL_SQL) p off e pending
     = Inr (True, set_mysql_dialect ops (in_mysql_dialect ops e)
         (replay_execute_quarantining ops (set_mysql_dialect ops True e) sql pending), None)"
  by (simp add: accept_frame_def dispatch_v3_record_def wal_tags Let_def)

lemma payload_texts:
  "utf8_valid sql \<Longrightarrow> decompress c = Inr sql \<Longrightarrow> compressed_text (WAL_COMPRESS_ALGO_LZSS # c) off = Inr sql"
  "utf8_valid sql \<Longrightarrow> decompress c = Inr sql \<Longrightarrow> mysql_text (WAL_COMPRESS_ALGO_LZSS # c) off = Inr sql"
  "utf8_valid sql \<Longrightarrow> mysql_text (WAL_COMPRESS_ALGO_NONE # sql) off = Inr sql"
  by (simp_all add: compressed_text_def mysql_text_def wal_tags)

lemma accept_inputs:
  "accept_frame ops (Some WAL_V3_TYPE_VOLATILE_INPUTS) (u64_le a @ u64_le b) off e pending = Inr (False, e, Some (a, b))"
  by (simp add: accept_frame_def dispatch_v3_record_def)

lemma sql_record_shape:
  assumes "(if mysql then encode_wal_auto_commit_sql_mysql cfg sql m else encode_wal_auto_commit_sql_metrics cfg sql m) = Some (m', Inr b)"
  obtains (raw) "\<not> mysql" "encode_wal_v3_record WAL_V3_TYPE_AUTO_COMMIT_SQL sql = Inr b"
    | (packed) c where "\<not> mysql" "compress sql = Some c" "encode_wal_v3_record WAL_V3_TYPE_COMPRESSED_SQL (WAL_COMPRESS_ALGO_LZSS # c) = Inr b"
    | (mysql_raw) "mysql" "encode_wal_v3_record WAL_V3_TYPE_MYSQL_SQL (WAL_COMPRESS_ALGO_NONE # sql) = Inr b"
    | (mysql_packed) c where "mysql" "compress sql = Some c" "encode_wal_v3_record WAL_V3_TYPE_MYSQL_SQL (WAL_COMPRESS_ALGO_LZSS # c) = Inr b"
proof (cases mysql)
  case True
  then show thesis using assms mysql_raw mysql_packed
    by (auto simp: encode_wal_auto_commit_sql_mysql_def mysql_payload_def Let_def count_out_def split: if_splits option.splits sum.splits)
next
  case False
  then show thesis using assms raw packed
    by (auto simp: encode_wal_auto_commit_sql_metrics_def Let_def count_out_def split: if_splits option.splits sum.splits)
qed

lemma sql_record_frame:
  fixes s :: logged_statement and ops :: "'e engine_ops"
  assumes "utf8_valid (ls_sql s)" "length (ls_sql s) < 2 ^ 32"
    and "(if ls_mysql s then encode_wal_auto_commit_sql_mysql cfg (ls_sql s) m
          else encode_wal_auto_commit_sql_metrics cfg (ls_sql s) m) = Some (m', Inr b)"
  shows "\<exists>f. frame_ok (fst f) (snd f) \<and> b = frame_bytes f
    \<and> (\<forall>(ops :: 'e engine_ops) off e pending.
        accept_frame ops (fst f) (snd f) off e pending = Inr (True, run_logged ops (s\<lparr>ls_volatiles := pending\<rparr>) e, None))"
  using assms(3)
proof (cases rule: sql_record_shape)
  case raw
  then show ?thesis using assms(1)
    by (intro exI[of _ "(Some WAL_V3_TYPE_AUTO_COMMIT_SQL, ls_sql s)"]) (simp add: encode_v3_frame accept_auto_commit run_logged_def)
next
  case (packed c)
  then show ?thesis using payload_texts(1)[OF assms(1) compressed_back[OF packed(2) assms(2)]] assms(1)
    by (intro exI[of _ "(Some WAL_V3_TYPE_COMPRESSED_SQL, WAL_COMPRESS_ALGO_LZSS # c)"])
      (simp add: encode_v3_frame accept_compressed[of "ls_sql s"] run_logged_def)
next
  case mysql_raw
  then show ?thesis using payload_texts(3)[OF assms(1)]
    by (intro exI[of _ "(Some WAL_V3_TYPE_MYSQL_SQL, WAL_COMPRESS_ALGO_NONE # ls_sql s)"])
      (simp add: encode_v3_frame accept_mysql[of _ _ "ls_sql s"] run_logged_def)
next
  case (mysql_packed c)
  then show ?thesis using payload_texts(2)[OF assms(1) compressed_back[OF mysql_packed(2) assms(2)]]
    by (intro exI[of _ "(Some WAL_V3_TYPE_MYSQL_SQL, WAL_COMPRESS_ALGO_LZSS # c)"])
      (simp add: encode_v3_frame accept_mysql[of _ _ "ls_sql s"] run_logged_def)
qed

text \<open>An entry is one or two frames; a proper beginning of it changes nothing but the pending inputs.\<close>

lemma entry_frames:
  fixes s :: logged_statement and ops :: "'e engine_ops"
  assumes "logs cfg s b"
  shows "\<exists>fs. frames_ok fs \<and> b = frames_bytes fs
    \<and> (\<forall>(ops :: 'e engine_ops) off n e. accept_all ops fs off n None e = Inr (n + 1, None, run_logged ops s e))
    \<and> (\<forall>(ops :: 'e engine_ops) off n e j. j < length fs \<longrightarrow> (\<exists>pending. accept_all ops (take j fs) off n None e = Inr (n, pending, e)))"
proof -
  obtain m m' where sql: "utf8_valid (ls_sql s)" "length (ls_sql s) < 2 ^ 32" and e: "statement_entry cfg s m = Some (m', Inr b)"
    using assms by (auto simp: logs_def)
  then obtain b1 b2 where enc: "(if ls_mysql s then encode_wal_auto_commit_sql_mysql cfg (ls_sql s) m
          else encode_wal_auto_commit_sql_metrics cfg (ls_sql s) m) = Some (m', Inr b2)"
    and vol: "encode_wal_volatile_inputs (ls_volatiles s) = Some b1" and b: "b = b1 @ b2"
    unfolding statement_entry_def
    by (auto split: option.splits sum.splits prod.splits simp del: if_split simp: if_splits)
  obtain f where f: "frame_ok (fst f) (snd f)" "b2 = frame_bytes f"
    "\<And>(ops :: 'e engine_ops) off e pending. accept_frame ops (fst f) (snd f) off e pending
       = Inr (True, run_logged ops (s\<lparr>ls_volatiles := pending\<rparr>) e, None)"
    using sql_record_frame[OF sql enc, where 'e='e] by blast
  show ?thesis
  proof (cases "ls_volatiles s")
    case None
    then have s: "s\<lparr>ls_volatiles := None\<rparr> = s" by simp
    from None vol have "b1 = []" by (simp add: encode_wal_volatile_inputs_def)
    then show ?thesis using f b s by (intro exI[of _ "[f]"]) simp
  next
    case (Some v)
    then obtain micros random where v: "ls_volatiles s = Some (micros, random)" by (cases v) simp
    then have s: "s\<lparr>ls_volatiles := Some (micros, random)\<rparr> = s" by simp
    let ?g = "(Some WAL_V3_TYPE_VOLATILE_INPUTS, u64_le micros @ u64_le random)"
    have "frame_ok (fst ?g) (snd ?g)" "b1 = frame_bytes ?g"
      using vol v by (auto simp: encode_wal_volatile_inputs_def encode_v3_frame split: sum.splits)
    then show ?thesis using f b s
      by (intro exI[of _ "[?g, f]"]) (auto simp: accept_inputs less_Suc_eq take_Cons')
  qed
qed

lemma replay_entries:
  fixes ops :: "'e engine_ops"
  assumes "list_all2 (logs cfg) ss bs"
  shows "replay_loop ops (pre @ concat bs @ post) (length pre) n None e
    = replay_loop ops ((pre @ concat bs) @ post) (length (pre @ concat bs)) (n + length ss) None (fold (run_logged ops) ss e)"
  using assms
proof (induction ss bs arbitrary: pre n e rule: list_all2_induct)
  case (Cons s ss b bs)
  obtain fs where "frames_ok fs" "b = frames_bytes fs" "accept_all ops fs (length pre) n None e = Inr (n + 1, None, run_logged ops s e)"
    using entry_frames[OF Cons.hyps(1), where 'e='e] by blast
  from replay_loop_frames[OF this(1,3), of "concat bs @ post"] this(2) Cons.IH[of "pre @ b" "n + 1" "run_logged ops s e"]
  show ?case by simp
qed simp

lemma replay_torn_entry:
  fixes ops :: "'e engine_ops"
  assumes "logs cfg s b" "r < length b"
  shows "\<exists>v \<le> r. replay_loop ops (pre @ take r b) (length pre) n None e = (Inr \<lparr>applied = n, valid_bytes = length pre + v\<rparr>, e)"
proof -
  obtain fs where fs: "frames_ok fs" "b = frames_bytes fs"
    and part: "\<forall>(ops :: 'e engine_ops) off n e j. j < length fs \<longrightarrow> (\<exists>pending. accept_all ops (take j fs) off n None e = Inr (n, pending, e))"
    using entry_frames[OF assms(1), where 'e='e] by metis
  obtain j t where j: "j < length fs" "t < length (frame_bytes (fs ! j))"
    and r: "take r b = frames_bytes (take j fs) @ take t (frame_bytes (fs ! j))"
    using take_frames[of r fs] assms(2) fs(2) by metis
  obtain pending where a: "accept_all ops (take j fs) (length pre) n None e = Inr (n, pending, e)" using part j(1) by metis
  have ok: "frames_ok (take j fs)" "frame_ok (fst (fs ! j)) (snd (fs ! j))" using fs(1) j(1) by (auto dest: in_set_takeD)
  have "replay_loop ops (pre @ take r b) (length pre) n None e
      = (Inr \<lparr>applied = n, valid_bytes = length (pre @ frames_bytes (take j fs))\<rparr>, e)"
    unfolding r replay_loop_frames[OF ok(1) a] by (rule replay_loop_torn[OF ok(2) j(2)])
  moreover have "length (frames_bytes (take j fs)) \<le> r" using arg_cong[OF r, of length] assms(2) by simp
  ultimately show ?thesis by (intro exI[of _ "length (frames_bytes (take j fs))"]) simp
qed

section \<open>What recovery gives back\<close>

lemma replay_prefix:
  fixes ops :: "'e engine_ops"
  assumes "list_all2 (logs cfg) ss bs"
  shows "\<exists>k v. k \<le> length ss \<and> (k < length ss \<longrightarrow> r < length (concat (take (Suc k) bs)))
    \<and> length (concat (take k bs)) \<le> v \<and> v \<le> r \<and> v \<le> length (concat bs)
    \<and> replay_loop ops (pre @ take r (concat bs)) (length pre) n None e
      = (Inr \<lparr>applied = n + k, valid_bytes = length pre + v\<rparr>, fold (run_logged ops) (take k ss) e)"
  using assms
proof (induction ss bs arbitrary: pre r n e rule: list_all2_induct)
  case Nil
  show ?case using replay_loop_end[of ops pre n None e] by (intro exI[of _ 0] exI[of _ 0]) simp
next
  case (Cons s ss b bs)
  show ?case
  proof (cases "r < length b")
    case True
    from replay_torn_entry[OF Cons.hyps(1) this, of ops pre n e] True show ?thesis
      by (fastforce intro: exI[of _ 0])
  next
    case False
    obtain k v where k: "k \<le> length ss" "k < length ss \<longrightarrow> r - length b < length (concat (take (Suc k) bs))"
      "length (concat (take k bs)) \<le> v" "v \<le> r - length b" "v \<le> length (concat bs)"
      and rep: "replay_loop ops ((pre @ b) @ take (r - length b) (concat bs)) (length (pre @ b)) (n + 1) None (run_logged ops s e)
        = (Inr \<lparr>applied = n + 1 + k, valid_bytes = length (pre @ b) + v\<rparr>, fold (run_logged ops) (take k ss) (run_logged ops s e))"
      using Cons.IH[of "r - length b" "pre @ b" "n + 1" "run_logged ops s e"] by blast
    have "list_all2 (logs cfg) [s] [b]" using Cons.hyps(1) by simp
    from replay_entries[OF this, of ops pre "take (r - length b) (concat bs)" n e] rep
    have "replay_loop ops (pre @ take r (concat (b # bs))) (length pre) n None e
      = (Inr \<lparr>applied = n + 1 + k, valid_bytes = length (pre @ b) + v\<rparr>, fold (run_logged ops) (take k ss) (run_logged ops s e))"
      using False by simp
    then show ?thesis using k False by (intro exI[of _ "Suc k"] exI[of _ "length b + v"]) auto
  qed
qed

text \<open>
  C3: recovery gives back exactly the statements that reached the log. Whatever statements were logged, in either
  dialect, compressed or not, with or without their clock and random inputs, and wherever a crash cut the file, recovery
  succeeds, runs again exactly the statements whose records are whole, in their order, in the dialect and with the inputs
  they ran under the first time, counts them, and reports a length to cut the file at that keeps all of them.
\<close>

theorem wal_recovers_prefix:
  assumes "list_all2 (logs cfg) ss bs"
  shows "\<exists>k v. k \<le> length ss \<and> (k < length ss \<longrightarrow> r < length (concat (take (Suc k) bs)))
    \<and> length (concat (take k bs)) \<le> v \<and> v \<le> r \<and> v \<le> length (concat bs)
    \<and> replay_wal_bytes_reporting ops (take r (concat bs)) e
      = (Inr \<lparr>applied = k, valid_bytes = v\<rparr>, fold (run_logged ops) (take k ss) e)"
  using replay_prefix[OF assms, of r ops "[]" 0 e] by (simp add: replay_wal_bytes_reporting_def)

lemma damaged_crc:
  assumes "frame_ok tag payload"
    and "crc' \<noteq> crc32 (frame_body tag payload) \<and> payload' = payload \<and> tag' = tag
      \<or> crc' = crc32 (frame_body tag payload) \<and> frame_body tag payload = p @ x @ q \<and> frame_body tag' payload' = p @ y @ q
        \<and> length x = length y \<and> length x \<le> 4 \<and> x \<noteq> y"
  shows "frame_crc tag' payload' \<noteq> crc'"
  using assms(2) burst_differs[of POLY x y p q] by (auto simp: frame_crc_body crc32_def crc_with_spec)

text \<open>A frame whose checksum fails, behind statements that are whole.\<close>

lemma replay_bad_frame:
  fixes ops :: "'e engine_ops"
  assumes "list_all2 (logs cfg) ss bs" "frame_ok tag payload" "frame_crc tag payload \<noteq> crc" "frames_ok fs"
  shows "replay_wal_bytes_reporting ops (concat bs @ sealed_frame crc tag payload @ frames_bytes fs) e
    = (if fs = [] then Inr \<lparr>applied = length ss, valid_bytes = length (concat bs)\<rparr>
       else Inl (CrcMismatch (length (concat bs)) crc (frame_crc tag payload) (length payload)), fold (run_logged ops) ss e)"
proof -
  let ?f = "sealed_frame crc tag payload" and ?b = "concat bs"
  have follow: "records_follow (?b @ ?f @ frames_bytes fs) (length ?b + length ?f) \<longleftrightarrow> fs \<noteq> []"
    using follow_loop_frames[OF assms(4), of "?b @ ?f" 0] by (simp add: records_follow_def)
  have "0 < length ?f" by (simp add: length_sealed_frame(1) del: length_greater_0_conv)
  then have "length ?b < length (?b @ ?f @ frames_bytes fs)" by simp
  then have stop: "replay_loop ops (?b @ ?f @ frames_bytes fs) (length ?b) n None e'
    = (if fs = [] then Inr \<lparr>applied = n, valid_bytes = length ?b\<rparr>
       else Inl (CrcMismatch (length ?b) crc (frame_crc tag payload) (length payload)), e')" for n e'
    using read_sealed_frame[OF assms(2), of ?b crc "frames_bytes fs"] follow assms(3)
    by (subst replay_loop.simps) simp
  show ?thesis
    using replay_entries[OF assms(1), of ops "[]" "?f @ frames_bytes fs" 0 e] stop[of "length ss"]
    by (simp add: replay_wal_bytes_reporting_def)
qed

text \<open>
  C26: a damaged record is never run. Let whole statements be logged, then a record whose checksum was changed, or whose body
  (type byte and payload) was changed within four consecutive bytes, then any number of whole records. Recovery runs the
  statements before the damage and none from it on: if nothing readable follows, it ends there and reports the file as valid up
  to the damaged record; otherwise it refuses to start.
\<close>

theorem wal_damage_detected:
  assumes "list_all2 (logs cfg) ss bs"
    and "encode_wal_v3_record tag payload = Inr (h @ c @ body)" "length h = 4" "length c = 4" "length c' = 4"
    and "c' \<noteq> c \<and> body' = body
      \<or> c' = c \<and> (\<exists>p x y q. body = p @ x @ q \<and> body' = p @ y @ q \<and> length x = length y \<and> length x \<le> 4 \<and> x \<noteq> y)"
    and "frames_ok fs"
  shows "\<exists>r. replay_wal_bytes_reporting ops (concat bs @ h @ c' @ body' @ frames_bytes fs) e = (r, fold (run_logged ops) ss e)
    \<and> (if fs = [] then r = Inr \<lparr>applied = length ss, valid_bytes = length (concat bs)\<rparr> else \<exists>err. r = Inl err)"
proof -
  have ok: "frame_ok (Some tag) payload" and b: "h @ c @ body = frame_bytes (Some tag, payload)"
    using assms(2) by (simp_all add: encode_v3_frame)
  then have parts: "h = u32_le (word_of_nat (length payload) OR sentinel (Some tag))" "c = u32_le (crc32 (tag # payload))" "body = tag # payload"
    using assms(3,4) by (simp_all add: frame_bytes_def sealed_frame_def frame_crc_def frame_body_def)
  have "length body' = length body" using assms(6) by auto
  then obtain tag' payload' where body': "body' = tag' # payload'" "length payload' = length payload"
    unfolding parts(3) by (cases body') auto
  then have ok': "frame_ok (Some tag') payload'" using ok by (simp add: frame_ok_def sentinel_def)
  have "le_u32 c' \<noteq> le_u32 c" if "c' \<noteq> c" using that assms(4,5) u32_le_le_u32 by metis
  then have "le_u32 c' \<noteq> crc32 (frame_body (Some tag) payload) \<and> payload' = payload \<and> Some tag' = Some tag
      \<or> (\<exists>p x y q. le_u32 c' = crc32 (frame_body (Some tag) payload) \<and> frame_body (Some tag) payload = p @ x @ q
          \<and> frame_body (Some tag') payload' = p @ y @ q \<and> length x = length y \<and> length x \<le> 4 \<and> x \<noteq> y)"
    using assms(6) unfolding parts body' by (auto simp: frame_body_def)
  then have bad: "frame_crc (Some tag') payload' \<noteq> le_u32 c'"
    using damaged_crc[OF ok, of "le_u32 c'" payload' "Some tag'"] by blast
  have "h @ c' @ body' = sealed_frame (le_u32 c') (Some tag') payload'"
    using assms(5) by (simp add: sealed_frame_def parts(1) body' sentinel_def frame_body_def u32_le_le_u32)
  then have "concat bs @ h @ c' @ body' @ frames_bytes fs = concat bs @ sealed_frame (le_u32 c') (Some tag') payload' @ frames_bytes fs"
    by (metis append.assoc)
  then show ?thesis using replay_bad_frame[OF assms(1) ok' bad assms(7), of ops e] by (simp only: ) simp
qed

text \<open>An engine whose state is the list of calls made, and a statement logged without compression.\<close>

definition trace_ops :: "(bytes \<times> volatiles) list engine_ops" where
  "trace_ops = \<lparr>execute = \<lambda>sql e. e @ [(sql, None)], replay_statement = \<lambda>a r sql e. e @ [(sql, Some (a, r))],
     in_mysql_dialect = \<lambda>e. False, set_mysql_dialect = \<lambda>b e. e\<rparr>"

definition plain_settings :: wal_settings where
  "plain_settings = \<lparr>compression_enabled = False, compression_min_bytes = 256\<rparr>"

definition sample_statement :: logged_statement where
  "sample_statement = \<lparr>ls_mysql = False, ls_volatiles = Some (5, 6), ls_sql = [65, 66]\<rparr>"

lemma sample_logged: "\<exists>b. logs plain_settings sample_statement b"
  by (simp add: logs_def statement_entry_def sample_statement_def plain_settings_def encode_wal_auto_commit_sql_metrics_def
      count_out_def encode_wal_volatile_inputs_def encode_wal_v3_record_def Let_def WAL_V2_SENTINEL_def WAL_V3_FLAG_def)

theorem wal_recovers_prefix_witness:
  "\<exists>b v. replay_wal_bytes_reporting trace_ops b [] = (Inr \<lparr>applied = 1, valid_bytes = v\<rparr>, [([65, 66], Some (5, 6))])
     \<and> v = length b"
proof -
  obtain b where b: "logs plain_settings sample_statement b" using sample_logged by blast
  then have l: "list_all2 (logs plain_settings) [sample_statement] [b]" by simp
  obtain k v where k: "k \<le> 1" "k < 1 \<longrightarrow> length b < length (concat (take (Suc k) [b]))"
    "length (concat (take k [b])) \<le> v" "v \<le> length b"
    and r: "replay_wal_bytes_reporting trace_ops (take (length b) (concat [b])) []
      = (Inr \<lparr>applied = k, valid_bytes = v\<rparr>, fold (run_logged trace_ops) (take k [sample_statement]) [])"
    using wal_recovers_prefix[OF l, of "length b" trace_ops "[]"] by auto
  from k have "k = 1" by (cases k) auto
  with k r show ?thesis
    by (intro exI[of _ b] exI[of _ v]) (simp add: run_logged_def sample_statement_def trace_ops_def replay_execute_quarantining_def)
qed

theorem wal_damage_detected_witness:
  "\<exists>b h c. encode_wal_v3_record 1 [65, 66] = Inr (h @ c @ [1, 65, 66]) \<and> logs plain_settings sample_statement b
     \<and> replay_wal_bytes_reporting trace_ops (b @ h @ c @ [1, 65, 67]) []
       = (Inr \<lparr>applied = 1, valid_bytes = length b\<rparr>, [([65, 66], Some (5, 6))])"
proof -
  obtain b where b: "logs plain_settings sample_statement b" using sample_logged by blast
  then have l: "list_all2 (logs plain_settings) [sample_statement] [b]" by simp
  have "\<exists>h c. encode_wal_v3_record 1 [65, 66] = Inr (h @ c @ [1, 65, 66]) \<and> length h = 4 \<and> length c = 4"
    by (intro exI[of _ "u32_le (2 OR WAL_V3_SENTINEL)"] exI[of _ "u32_le (crc32 [1, 65, 66])"])
      (simp add: encode_wal_v3_record_def Let_def WAL_V2_SENTINEL_def WAL_V3_FLAG_def)
  then obtain h c where hc: "encode_wal_v3_record 1 [65, 66] = Inr (h @ c @ [1, 65, 66])" "length h = 4" "length c = 4" by blast
  have "\<exists>p x y q. [1, 65, 66] = p @ x @ q \<and> [1, 65, 67 :: u8] = p @ y @ q \<and> length x = length y \<and> length x \<le> 4 \<and> x \<noteq> y"
    by (intro exI[of _ "[1, 65]"] exI[of _ "[66]"] exI[of _ "[67]"] exI[of _ "[]"]) simp
  with wal_damage_detected[OF l hc hc(3), of "[1, 65, 67]" "[]" trace_ops "[]"]
  have "replay_wal_bytes_reporting trace_ops (b @ h @ c @ [1, 65, 67]) []
      = (Inr \<lparr>applied = 1, valid_bytes = length b\<rparr>, fold (run_logged trace_ops) [sample_statement] [])" by simp
  then have "replay_wal_bytes_reporting trace_ops (b @ h @ c @ [1, 65, 67]) []
      = (Inr \<lparr>applied = 1, valid_bytes = length b\<rparr>, [([65, 66], Some (5, 6))])"
    by (simp add: run_logged_def sample_statement_def trace_ops_def replay_execute_quarantining_def)
  with b hc(1) show ?thesis by blast
qed

end
