(* ===== verification/Wal_Append.thy ===== *)
theory Wal_Append
  imports Wal Audit_Log
begin

text \<open>
  Appending to the log file and to the audit file (\<open>spg-server/src/wal.rs\<close>, \<open>main.rs\<close>). The answers of
  the operating system to one append (does \<open>stat\<close> succeed, how much of a failed write landed, does the
  sync and does the truncation succeed) are a record, so every failure is a branch. Lock poisoning,
  which needs an earlier panic, is left out; the process-wide counters are fields of the state.
\<close>

datatype io_error = StorageFull | StatFailed | WriteFailed | SyncFailed | AuditRefused | EncodeFailed wal_error

record os_outcome =
  meta_ok :: bool
  free_bytes :: "u64 option"
  landed :: "nat option"
  sync_ok :: bool
  truncate_ok :: bool
  tee_ok :: bool

record server_wal =
  wal_contents :: "bytes option"
  wal_quota_bytes :: "u64 option"
  wal_min_free_bytes :: "u64 option"
  wal_path_known :: bool
  fail_fsync_at :: "u64 option"
  fsync_calls :: u64
  wal_fsyncs :: u64
  wal_appends :: u64
  async_commit_dirty :: bool
  tee_contents :: "bytes option"

definition saturating_add :: "u64 \<Rightarrow> u64 \<Rightarrow> u64" where
  "saturating_add a b = (if unat a + unat b < 2 ^ 64 then a + b else - 1)"

text \<open>The quota and the free-space water mark, checked before any byte is written.\<close>

definition space_check :: "os_outcome \<Rightarrow> server_wal \<Rightarrow> bytes \<Rightarrow> nat \<Rightarrow> io_error + unit" where
  "space_check os st file n =
     (if (case wal_quota_bytes st of
            None \<Rightarrow> False
          | Some quota \<Rightarrow>
              (let current = (if meta_ok os then word_of_nat (length file) else 0)
               in quota < saturating_add current (word_of_nat n)))
      then Inl StorageFull
      else
        (case wal_min_free_bytes st of
           None \<Rightarrow> Inr ()
         | Some min_free \<Rightarrow>
             if \<not> wal_path_known st then Inr ()
             else (case free_bytes os of
                     None \<Rightarrow> Inl StatFailed
                   | Some free \<Rightarrow> if free < min_free then Inl StorageFull else Inr ())))"

definition client_fsync :: "os_outcome \<Rightarrow> server_wal \<Rightarrow> (io_error + unit) \<times> server_wal" where
  "client_fsync os st =
     (let st1 = st\<lparr>wal_fsyncs := wal_fsyncs st + 1\<rparr>
      in case fail_fsync_at st1 of
           None \<Rightarrow> (if sync_ok os then Inr () else Inl SyncFailed, st1)
         | Some k \<Rightarrow>
             (let st2 = st1\<lparr>fsync_calls := fsync_calls st1 + 1\<rparr>
              in if fsync_calls st2 = k then (Inl SyncFailed, st2)
                 else (if sync_ok os then Inr () else Inl SyncFailed, st2)))"

text \<open>\<open>set_len(pre_append_len)\<close>, whose own failure is ignored.\<close>

definition cut_back :: "os_outcome \<Rightarrow> nat \<Rightarrow> bytes \<Rightarrow> bytes" where
  "cut_back os pre_append_len now = (if truncate_ok os then take pre_append_len now else now)"

definition write_and_sync :: "os_outcome \<Rightarrow> server_wal \<Rightarrow> bytes \<Rightarrow> bytes \<Rightarrow> bool \<Rightarrow> (io_error + unit) \<times> server_wal" where
  "write_and_sync os st file entry sync =
     (if \<not> meta_ok os then (Inl StatFailed, st)
      else
        (let pre_append_len = length file
         in case landed os of
              Some k \<Rightarrow>
                (Inl WriteFailed, st\<lparr>wal_contents := Some (cut_back os pre_append_len (file @ take k entry))\<rparr>)
            | None \<Rightarrow>
                (let st1 = st\<lparr>wal_contents := Some (file @ entry)\<rparr>
                 in if sync then
                      (case client_fsync os st1 of
                         (Inl e, st2) \<Rightarrow> (Inl e, st2\<lparr>wal_contents := Some (cut_back os pre_append_len (file @ entry))\<rparr>)
                       | (Inr _, st2) \<Rightarrow> (Inr (), st2))
                    else (Inr (), st1\<lparr>async_commit_dirty := True\<rparr>))))"

definition append_to_tee :: "os_outcome \<Rightarrow> bytes \<Rightarrow> server_wal \<Rightarrow> server_wal" where
  "append_to_tee os batched st =
     (case tee_contents st of
        None \<Rightarrow> st
      | Some tee \<Rightarrow> if tee_ok os then st\<lparr>tee_contents := Some (tee @ batched)\<rparr> else st)"

definition append_wal_v3_group :: "os_outcome \<Rightarrow> server_wal \<Rightarrow> bytes list \<Rightarrow> bool \<Rightarrow> (io_error + unit) \<times> server_wal" where
  "append_wal_v3_group os st entries sync =
     (case wal_contents st of
        None \<Rightarrow> (Inr (), st)
      | Some file \<Rightarrow>
          if entries = [] then (Inr (), st)
          else
            (let batched = concat entries
             in case space_check os st file (length batched) of
                  Inl e \<Rightarrow> (Inl e, st)
                | Inr _ \<Rightarrow>
                    (case write_and_sync os st file batched sync of
                       (Inl e, st1) \<Rightarrow> (Inl e, st1)
                     | (Inr _, st1) \<Rightarrow> (Inr (), append_to_tee os batched st1))))"

text \<open>
  The append outside the commit queue: the inputs of the statement go in front as a version-3 record,
  the statement itself is a version-2 record unless it ran in the MySQL dialect. The outer option is a
  panic of the encoder.
\<close>

definition dialect_entry ::
  "wal_settings \<Rightarrow> wal_metrics \<Rightarrow> volatiles \<Rightarrow> bytes \<Rightarrow> bool \<Rightarrow> (wal_metrics \<times> (wal_error + bytes)) option" where
  "dialect_entry cfg m volatiles sql mysql =
     (case encode_wal_volatile_inputs volatiles of
        None \<Rightarrow> None
      | Some inputs \<Rightarrow>
          if mysql then
            map_option (\<lambda>(m', r). (m', and_then r (\<lambda>b. Inr (inputs @ b)))) (encode_wal_auto_commit_sql_mysql cfg sql m)
          else Some (m, and_then (encode_wal_record sql) (\<lambda>b. Inr (inputs @ b))))"

definition append_wal_dialect ::
  "os_outcome \<Rightarrow> wal_settings \<Rightarrow> wal_metrics \<Rightarrow> server_wal \<Rightarrow> volatiles \<Rightarrow> bytes \<Rightarrow> bool \<Rightarrow> bool
     \<Rightarrow> ((io_error + unit) \<times> server_wal \<times> wal_metrics) option" where
  "append_wal_dialect os cfg m st volatiles sql sync mysql =
     (case wal_contents st of
        None \<Rightarrow> Some (Inr (), st, m)
      | Some file \<Rightarrow>
          (let st1 = st\<lparr>wal_appends := wal_appends st + 1\<rparr>
           in case dialect_entry cfg m volatiles sql mysql of
                None \<Rightarrow> None
              | Some (m', Inl e) \<Rightarrow> Some (Inl (EncodeFailed e), st1, m')
              | Some (m', Inr entry) \<Rightarrow>
                  (case space_check os st1 file (length entry) of
                     Inl e \<Rightarrow> Some (Inl e, st1, m')
                   | Inr _ \<Rightarrow> (case write_and_sync os st1 file entry sync of (r, st2) \<Rightarrow> Some (r, st2, m')))))"

definition append_wal ::
  "os_outcome \<Rightarrow> wal_settings \<Rightarrow> wal_metrics \<Rightarrow> server_wal \<Rightarrow> volatiles \<Rightarrow> bytes \<Rightarrow> bool
     \<Rightarrow> ((io_error + unit) \<times> server_wal \<times> wal_metrics) option" where
  "append_wal os cfg m st volatiles sql sync = append_wal_dialect os cfg m st volatiles sql sync False"

definition append_durability_marker :: "os_outcome \<Rightarrow> server_wal \<Rightarrow> (io_error + u64) \<times> server_wal" where
  "append_durability_marker os st =
     (case wal_contents st of
        None \<Rightarrow> (Inr 0, st)
      | Some file \<Rightarrow>
          if \<not> meta_ok os then (Inl StatFailed, st)
          else
            (let pre_marker_offset = word_of_nat (length file)
             in case encode_durability_marker pre_marker_offset of
                  Inl e \<Rightarrow> (Inl (EncodeFailed e), st)
                | Inr entry \<Rightarrow>
                    (case space_check os st file (length entry) of
                       Inl e \<Rightarrow> (Inl e, st)
                     | Inr _ \<Rightarrow>
                         (case landed os of
                            Some k \<Rightarrow> (Inl WriteFailed, st\<lparr>wal_contents := Some (cut_back os (length file) (file @ take k entry))\<rparr>)
                          | None \<Rightarrow>
                              (let st1 = st\<lparr>wal_contents := Some (file @ entry), wal_fsyncs := wal_fsyncs st + 1\<rparr>
                               in if sync_ok os then (Inr pre_marker_offset, st1) else (Inl SyncFailed, st1))))))"

section \<open>The audit file\<close>

record audit_outcome =
  fault_fires :: bool
  now_ms :: u64
  open_ok :: bool
  audit_landed :: "nat option"

record audit_state =
  au_log :: audit_log
  au_file :: "bytes option"

text \<open>\<open>append_audit\<close>: the entry joins the log in memory, then its bytes are appended to the file.\<close>

definition append_audit :: "audit_outcome \<Rightarrow> audit_state \<Rightarrow> bytes \<Rightarrow> ((io_error + unit) \<times> audit_state) option" where
  "append_audit ao st sql =
     (if fault_fires ao then Some (Inl AuditRefused, st)
      else
        (let log = fst (append_entry (au_log st) sql (now_ms ao));
             st1 = st\<lparr>au_log := log\<rparr>
         in case au_file st of
              None \<Rightarrow> Some (Inr (), st1)
            | Some file \<Rightarrow>
                (case encode_entry (last log) of
                   None \<Rightarrow> None
                 | Some entry_bytes \<Rightarrow>
                     if \<not> open_ok ao then Some (Inl WriteFailed, st1)
                     else (case audit_landed ao of
                             Some k \<Rightarrow> Some (Inl WriteFailed, st1\<lparr>au_file := Some (file @ take k entry_bytes)\<rparr>)
                           | None \<Rightarrow> Some (Inr (), st1\<lparr>au_file := Some (file @ entry_bytes)\<rparr>)))))"

section \<open>What an append leaves behind\<close>

lemma client_fsync_contents [simp]: "wal_contents (snd (client_fsync os st)) = wal_contents st"
  by (simp add: client_fsync_def Let_def split: option.split)

lemma append_to_tee_contents [simp]: "wal_contents (append_to_tee os b st) = wal_contents st"
  by (simp add: append_to_tee_def split: option.split)

lemma write_and_sync_contents:
  assumes "write_and_sync os st file entry sync = (r, st')" "wal_contents st = Some file" "truncate_ok os"
  shows "wal_contents st' = Some (if r = Inr () then file @ entry else file)"
  using assms client_fsync_contents[of os "st\<lparr>wal_contents := Some (file @ entry)\<rparr>"]
  by (auto simp: write_and_sync_def cut_back_def Let_def simp del: client_fsync_contents
      split: if_splits option.splits prod.splits sum.splits)

text \<open>An append is all or nothing as long as the truncation that undoes a failed one succeeds.\<close>

lemma append_group_contents:
  assumes "append_wal_v3_group os st entries sync = (r, st')" "wal_contents st = Some file" "truncate_ok os"
  shows "wal_contents st' = Some (if r = Inr () then file @ concat entries else file)"
  using assms write_and_sync_contents[OF _ assms(2,3)]
  by (auto simp: append_wal_v3_group_def Let_def split: if_splits option.splits prod.splits sum.splits)

section \<open>Statements appended outside the commit queue\<close>

lemma v3_flag_bit: "(w :: u32) AND WAL_V3_FLAG = 0 \<longleftrightarrow> \<not> bit w 30" "(w :: u32) AND WAL_V2_SENTINEL = 0 \<longleftrightarrow> \<not> bit w 31"
proof -
  have f: "WAL_V3_FLAG = 2 ^ 30" "WAL_V2_SENTINEL = 2 ^ 31" by (simp_all add: WAL_V3_FLAG_def WAL_V2_SENTINEL_def)
  show "w AND WAL_V3_FLAG = 0 \<longleftrightarrow> \<not> bit w 30" unfolding f by (rule and_exp_eq_0_iff_not_bit)
  show "w AND WAL_V2_SENTINEL = 0 \<longleftrightarrow> \<not> bit w 31" unfolding f by (rule and_exp_eq_0_iff_not_bit)
qed

lemma length_bit: "bit (word_of_nat n :: u32) k \<longleftrightarrow> k < 32 \<and> odd (n div 2 ^ k)"
  by (simp add: bit_of_nat_iff possible_bit_def bit_iff_odd[of n])

lemma encode_v2_frame:
  assumes "encode_wal_record sql = Inr b" "length sql < 2 ^ 30"
  shows "frame_ok None sql" and "b = frame_bytes (None, sql)"
proof -
  have "(word_of_nat (length sql) :: u32) AND WAL_V3_FLAG = 0" using assms(2) by (simp add: v3_flag_bit length_bit)
  then show "frame_ok None sql" "b = frame_bytes (None, sql)" using assms(1)
    by (auto simp: encode_wal_record_def frame_ok_def frame_bytes_def sealed_frame_def sentinel_def frame_body_def frame_crc_def
        Let_def split: if_splits)
qed

text \<open>
  A statement appended outside the commit queue by a PostgreSQL session is replayed without the inputs
  written in front of it: recovery hands pending inputs to version-3 records only. The statement runs
  on the clock and the random state of the recovery, and its inputs stay pending for the next
  version-3 statement.
\<close>

lemma plain_append_loses_inputs:
  assumes "list_all2 (logs cfg) ss bs" "dialect_entry cfg m (Some (micros, random)) sql False = Some (m', Inr b)"
    and "utf8_valid sql" "length sql < 2 ^ 30"
  shows "replay_wal_bytes_reporting ops (concat bs @ b) e
    = (Inr \<lparr>applied = length ss + 1, valid_bytes = length (concat bs @ b)\<rparr>, execute ops sql (fold (run_logged ops) ss e))"
proof -
  let ?g = "(Some WAL_V3_TYPE_VOLATILE_INPUTS, u64_le micros @ u64_le random)" and ?f = "(None, sql) :: frame"
  obtain b1 b2 where b: "b = b1 @ b2" "encode_wal_volatile_inputs (Some (micros, random)) = Some b1" "encode_wal_record sql = Inr b2"
    using assms(2) by (auto simp: dialect_entry_def and_then_Inr split: option.splits)
  have g: "frame_ok (fst ?g) (snd ?g)" "b1 = frame_bytes ?g"
    using b(2) by (auto simp: encode_wal_volatile_inputs_def encode_v3_frame split: sum.splits)
  have f: "frame_ok (fst ?f) (snd ?f)" "b2 = frame_bytes ?f" using encode_v2_frame[OF b(3) assms(4)] by simp_all
  have "accept_all ops [?g, ?f] (length (concat bs)) n None e' = Inr (n + 1, Some (micros, random), execute ops sql e')" for n e'
    using assms(3) by (simp add: accept_inputs accept_frame_def[of ops None] replay_execute_quarantining_def)
  from replay_loop_frames[OF _ this, of "[]"] f g b(1)
  have "replay_loop ops (concat bs @ b) (length (concat bs)) n None e'
    = replay_loop ops (concat bs @ b) (length (concat bs @ b)) (n + 1) (Some (micros, random)) (execute ops sql e')" for n e'
    by simp
  then show ?thesis
    using replay_entries[OF assms(1), of ops "[]" b 0 e] replay_loop_end[of ops "concat bs @ b"]
    by (simp add: replay_wal_bytes_reporting_def)
qed

text \<open>
  A version-2 record of a gibibyte or more sets the bit that marks version 3, so it is read as a
  version-3 record: the encoder checks only the bit of its own version.
\<close>

lemma large_v2_record_misread:
  assumes "encode_wal_record sql = Inr b" "2 ^ 30 \<le> length sql"
  shows "read_frame b 0 \<noteq> Frame None crc body nxt"
proof -
  let ?w = "word_of_nat (length sql) OR WAL_V2_SENTINEL :: u32"
  have l: "length sql < 2 ^ 32" "\<not> bit (word_of_nat (length sql) :: u32) 31"
    and b: "b = u32_le ?w @ u32_le (crc32 sql) @ sql"
    using assms(1) by (auto simp: encode_wal_record_def Let_def v3_flag_bit split: if_splits)
  have "even (length sql div 2 ^ 31)" using l(2) by (simp add: length_bit)
  then have "length sql div 2 ^ 31 \<noteq> 1" by (metis odd_one)
  then have "length sql < 2 ^ 31" using l(1) div_nat_eqI[of "2 ^ 31" 1 "length sql"] by fastforce
  then have "length sql div 2 ^ 30 = 1" using assms(2) by (simp add: div_nat_eqI)
  then have "bit (word_of_nat (length sql) :: u32) 30" by (simp add: length_bit)
  moreover have "bit WAL_V2_SENTINEL 31" by (simp add: WAL_V2_SENTINEL_def bit_iff_odd drop_bit_eq_div)
  ultimately have "bit ?w 30" "bit ?w 31" by (simp_all add: bit_or_iff)
  then have v: "?w AND WAL_V2_SENTINEL \<noteq> 0" "?w AND WAL_V3_FLAG \<noteq> 0" by (simp_all only: v3_flag_bit not_not)
  have "slice b 0 (0 + 4) = u32_le ?w" by (simp add: b slice_def)
  then show ?thesis using v by (simp add: read_frame_def Let_def)
qed

section \<open>A failed audit append\<close>

text \<open>
  When the audit file cannot be opened, the entry stays in the log in memory and the error is
  returned; the next entry that reaches the file then carries a number that is one too high, and the
  file no longer loads.
\<close>

lemma encode_all_snoc:
  "encode_all log = Some bs \<Longrightarrow> encode_entry e = Some b \<Longrightarrow> encode_all (log @ [e]) = Some (bs @ b)"
  by (induction log arbitrary: bs) (auto split: option.splits)

lemma read_log_file:
  assumes "\<forall>e\<in>set log. storable e" "encode_all log = Some bs" "length bs + 9 < 2 ^ 64"
  shows "deserialize (header_bytes @ bs) = (case verify log of Inl e \<Rightarrow> Inl e | Inr _ \<Rightarrow> Inr log)"
proof -
  have "decode_all (header_bytes @ bs) (length header_bytes) [] = Inr ([] @ log)"
    by (rule decode_all_encoded[OF assms(1,2) refl]) (use assms(3) in simp)
  moreover have "take 8 (header_bytes @ bs) = FILE_MAGIC" "(header_bytes @ bs) ! 8 = FILE_VERSION"
    by (simp_all add: header_bytes_def nth_append)
  ultimately show ?thesis by (simp add: deserialize_def)
qed

lemma audit_gap_after_failed_append:
  assumes log: "\<forall>e\<in>set log. storable e" "verify log = Inr ()" "encode_all log = Some bs"
    and "\<not> fault_fires ao" "\<not> open_ok ao" "append_audit ao \<lparr>au_log = log, au_file = Some (header_bytes @ bs)\<rparr> sql = Some (r, st1)"
    and "\<not> fault_fires ao'" "open_ok ao'" "audit_landed ao' = None" "append_audit ao' st1 sql' = Some (r', st2)"
    and "utf8_valid sql'" "length sql' < 2 ^ 32" "length bs + 100 + length sql' < 2 ^ 64"
  shows "r = Inl WriteFailed \<and> r' = Inr () \<and> deserialize (the (au_file st2)) = Inl (BrokenChain (word_of_nat (length log + 1)))"
proof -
  let ?log1 = "fst (append_entry log sql (now_ms ao))"
  have st1: "st1 = \<lparr>au_log = ?log1, au_file = Some (header_bytes @ bs)\<rparr>" "r = Inl WriteFailed"
    using assms(4-6) by (auto simp: append_audit_def Let_def split: option.splits)
  have len1: "length ?log1 = length log + 1" by (simp add: append_entry_def Let_def)
  let ?log2 = "fst (append_entry ?log1 sql' (now_ms ao'))"
  define e2 where "e2 = last ?log2"
  have seq: "ae_seq e2 = word_of_nat (length log + 1)" "ae_sql e2 = sql'" and mem: "e2 \<in> set ?log2"
    using len1 by (simp_all add: e2_def append_entry_def Let_def)
  have "verify ?log2 = Inr ()" by (intro append_verifies log(2))
  from verify_lengths[OF this mem] have st: "storable e2" using assms(11,12) seq(2) by (simp add: storable_def HASH_LEN_def)
  obtain b2 where b2: "encode_entry e2 = Some b2" "au_file st2 = Some (header_bytes @ bs @ b2)" "r' = Inr ()"
    using assms(7-10) by (auto simp: append_audit_def st1 Let_def e2_def split: option.splits)
  have l2: "length b2 = 84 + length sql'" using b2(1) st seq(2) by (auto simp: encode_entry_def storable_def split: if_splits)
  have "deserialize (header_bytes @ bs @ b2) = (case verify (log @ [e2]) of Inl e \<Rightarrow> Inl e | Inr _ \<Rightarrow> Inr (log @ [e2]))"
    by (rule read_log_file) (use log(1) st encode_all_snoc[OF log(3) b2(1)] l2 assms(13) in auto)
  moreover have "(word_of_nat (length log + 1) :: u64) \<noteq> word_of_nat (length log)" by simp
  then have "verify (log @ [e2]) = Inl (BrokenChain (word_of_nat (length log + 1)))"
    using log(2) seq(1) by (simp add: verify_def verify_from_append del: of_nat_add)
  ultimately show ?thesis using st1(2) b2(2,3) by simp
qed

end
