(* ===== verification/Group_Commit.thy ===== *)
theory Group_Commit
  imports Wal_Append
begin

text \<open>
  Group commit (\<open>spg-server/src/wal.rs\<close>, \<open>main.rs\<close>): the commit queue, the election of a leader, and one
  iteration of the leader's loop with its stages: pull a group, run its statements, audit them, append
  them to the log in one write, and undo them if that failed. The server is a transition system whose
  steps are the arrival of a task and one iteration of the leader. The engine is a parameter, the
  record \<open>commit_engine\<close> of the calls the leader makes.
\<close>

section \<open>Which results are kept\<close>

datatype exec_result = ExecErr | CommandOk bool | RowsResult

text \<open>\<open>str::trim_start\<close>: the white space of Unicode, on UTF-8 bytes.\<close>

definition ascii_space :: "u8 \<Rightarrow> bool" where
  "ascii_space b = (9 \<le> b \<and> b \<le> 13 \<or> b = 32)"

fun trim_start :: "bytes \<Rightarrow> bytes" where
  "trim_start [] = []"
| "trim_start [a] = (if ascii_space a then [] else [a])"
| "trim_start [a, b] =
     (if ascii_space a then trim_start [b]
      else if a = 0xC2 \<and> (b = 0x85 \<or> b = 0xA0) then [] else [a, b])"
| "trim_start (a # b # c # rest) =
     (if ascii_space a then trim_start (b # c # rest)
      else if a = 0xC2 \<and> (b = 0x85 \<or> b = 0xA0) then trim_start (c # rest)
      else if a = 0xE1 \<and> b = 0x9A \<and> c = 0x80 then trim_start rest
      else if a = 0xE2 \<and> b = 0x80 \<and> (0x80 \<le> c \<and> c \<le> 0x8A \<or> c = 0xA8 \<or> c = 0xA9 \<or> c = 0xAF) then trim_start rest
      else if a = 0xE2 \<and> b = 0x81 \<and> c = 0x9F then trim_start rest
      else if a = 0xE3 \<and> b = 0x80 \<and> c = 0x80 then trim_start rest
      else a # b # c # rest)"

definition to_ascii_lowercase :: "bytes \<Rightarrow> bytes" where
  "to_ascii_lowercase = map (\<lambda>b. if 65 \<le> b \<and> b \<le> 90 then b + 32 else b)"

text \<open>\<open>u8::is_ascii_whitespace\<close> leaves out the vertical tab.\<close>

definition is_ascii_whitespace :: "u8 \<Rightarrow> bool" where
  "is_ascii_whitespace b = (b = 9 \<or> b = 10 \<or> b = 12 \<or> b = 13 \<or> b = 32)"

definition first_word :: "bytes \<Rightarrow> bytes" where
  "first_word s = takeWhile (\<lambda>b. \<not> is_ascii_whitespace b) (dropWhile is_ascii_whitespace s)"

fun contains_text :: "bytes \<Rightarrow> bytes \<Rightarrow> bool" where
  "contains_text [] kw = (kw = [])"
| "contains_text (b # s) kw = (take (length kw) (b # s) = kw \<or> contains_text s kw)"

definition ascii :: "string \<Rightarrow> bytes" where "ascii = map of_char"

definition sql_is_dmlish :: "bytes \<Rightarrow> bool" where
  "sql_is_dmlish sql =
     (let verb = to_ascii_lowercase (first_word (trim_start sql))
      in if verb \<in> {ascii ''insert'', ascii ''update'', ascii ''delete'', ascii ''merge''} then True
         else if verb = ascii ''with'' then
           (let lower = to_ascii_lowercase sql
            in list_ex (\<lambda>kw. contains_text lower (ascii kw)) [''insert'', ''update'', ''delete'', ''merge''])
         else False)"

definition commit_worthy :: "exec_result \<Rightarrow> bytes \<Rightarrow> bool" where
  "commit_worthy r sql = (case r of ExecErr \<Rightarrow> False | CommandOk _ \<Rightarrow> True | RowsResult \<Rightarrow> sql_is_dmlish sql)"

section \<open>State\<close>

record commit_task =
  ct_ack :: nat
  ct_sql :: bytes
  ct_cancelled :: bool
  ct_sync_commit :: bool
  ct_mysql :: bool

record commit_result =
  cr_result :: exec_result
  cr_wal :: "io_error + unit"
  cr_audited :: bool

record ('e, 'c) commit_engine =
  ce_replay :: "'e engine_ops"
  statement_volatiles :: "'e \<Rightarrow> volatiles"
  execute_in :: "bytes \<Rightarrow> bool \<Rightarrow> volatiles \<Rightarrow> 'e \<Rightarrow> exec_result \<times> 'e"
  catalog :: "'e \<Rightarrow> 'c"
  replace_catalog :: "'c \<Rightarrow> 'e \<Rightarrow> 'e"

record 'e commit_state =
  pending :: "commit_task list"
  leader_active :: bool
  engine :: 'e
  server :: server_wal
  metrics :: wal_metrics
  audit :: audit_state
  published :: "bytes list"
  acks :: "(commit_task \<times> commit_result) list"
  commit_window_us :: u64
  groups_solo :: u64
  groups_coalesced :: u64
  tasks_coalesced :: u64

record round_env =
  env_os :: os_outcome
  env_audit :: "nat \<Rightarrow> audit_outcome"
  pinned_delay :: "u64 option"

section \<open>Operations\<close>

definition enqueue_commit_task :: "commit_task \<Rightarrow> 'e commit_state \<Rightarrow> bool \<times> 'e commit_state" where
  "enqueue_commit_task t st =
     (let st1 = st\<lparr>pending := pending st @ [t]\<rparr>
      in if leader_active st1 then (False, st1) else (True, st1\<lparr>leader_active := True\<rparr>))"

definition adapt_commit_window :: "u64 option \<Rightarrow> nat \<Rightarrow> u64 \<Rightarrow> u64" where
  "adapt_commit_window pinned n cur =
     (case pinned of
        Some _ \<Rightarrow> cur
      | None \<Rightarrow>
          if 2 \<le> n then
            (let m = max cur 25; doubled = (if 2 * unat m < 2 ^ 64 then m * 2 else - 1) in min doubled 200)
          else cur div 2)"

definition count_group :: "nat \<Rightarrow> u64 option \<Rightarrow> 'e commit_state \<Rightarrow> 'e commit_state" where
  "count_group n pinned st =
     (let st1 = (if 2 \<le> n then st\<lparr>groups_coalesced := groups_coalesced st + 1, tasks_coalesced := tasks_coalesced st + word_of_nat n\<rparr>
                 else st\<lparr>groups_solo := groups_solo st + 1\<rparr>)
      in st1\<lparr>commit_window_us := adapt_commit_window pinned n (commit_window_us st1)\<rparr>)"

text \<open>A task that ran and is to be kept, with its result and its log bytes.\<close>

type_synonym prepared = "commit_task \<times> exec_result \<times> bytes"

text \<open>
  The loop over the group under the engine lock: encode first, then run. It gives the prepared tasks,
  the engine, the metrics and the acknowledgements sent on the way. A panic of the encoder is \<open>None\<close>.
\<close>

fun prepare_tasks ::
  "wal_settings \<Rightarrow> ('e, 'c) commit_engine \<Rightarrow> commit_task list \<Rightarrow> 'e \<Rightarrow> wal_metrics
     \<Rightarrow> (prepared list \<times> 'e \<times> wal_metrics \<times> (commit_task \<times> commit_result) list) option" where
  "prepare_tasks cfg eng [] e m = Some ([], e, m, [])"
| "prepare_tasks cfg eng (t # ts) e m =
     (let volatiles = statement_volatiles eng e
      in case statement_entry cfg \<lparr>ls_mysql = ct_mysql t, ls_volatiles = volatiles, ls_sql = ct_sql t\<rparr> m of
           None \<Rightarrow> None
         | Some (m1, Inl err) \<Rightarrow>
             map_option
               (\<lambda>(ps, e', m', as). (ps, e', m', (t, \<lparr>cr_result = ExecErr, cr_wal = Inl (EncodeFailed err), cr_audited = False\<rparr>) # as))
               (prepare_tasks cfg eng ts e m1)
         | Some (m1, Inr wal_bytes) \<Rightarrow>
             (case execute_in eng (ct_sql t) (ct_cancelled t) volatiles e of
                (r, e1) \<Rightarrow>
                  if \<not> commit_worthy r (ct_sql t) then
                    map_option
                      (\<lambda>(ps, e', m', as). (ps, e', m', (t, \<lparr>cr_result = r, cr_wal = Inr (), cr_audited = False\<rparr>) # as))
                      (prepare_tasks cfg eng ts e1 m1)
                  else
                    map_option (\<lambda>(ps, e', m', as). ((t, r, wal_bytes) # ps, e', m', as))
                      (prepare_tasks cfg eng ts e1 m1)))"

text \<open>The audit barrier: one entry for every statement that modified the catalog, until one fails.\<close>

fun audit_group ::
  "(nat \<Rightarrow> audit_outcome) \<Rightarrow> nat \<Rightarrow> prepared list \<Rightarrow> bool \<Rightarrow> audit_state
     \<Rightarrow> (io_error option \<times> bool \<times> nat \<times> audit_state) option" where
  "audit_group ao i [] any st = Some (None, any, i, st)"
| "audit_group ao i ((t, r, b) # ps) any st =
     (if r \<noteq> CommandOk True then audit_group ao i ps any st
      else
        (case append_audit (ao i) st (ct_sql t) of
           None \<Rightarrow> None
         | Some (Inr _, st1) \<Rightarrow> audit_group ao (i + 1) ps True st1
         | Some (Inl err, st1) \<Rightarrow> Some (Some err, any, i + 1, st1)))"

definition annul_audit :: bytes where
  "annul_audit = ascii ''-- spg: audit annul '' @ [0xE2, 0x80, 0x94] @ ascii '' preceding group rolled back                          (audit append failure before WAL)''"

definition annul_wal :: bytes where
  "annul_wal = ascii ''-- spg: audit annul '' @ [0xE2, 0x80, 0x94] @ ascii '' preceding group rolled back (WAL append failure)''"

definition annul :: "audit_outcome \<Rightarrow> bytes \<Rightarrow> audit_state \<Rightarrow> audit_state" where
  "annul out note st = (case append_audit out st note of None \<Rightarrow> st | Some (_, st1) \<Rightarrow> st1)"

definition ack_all :: "prepared list \<Rightarrow> io_error + unit \<Rightarrow> bool \<Rightarrow> (commit_task \<times> commit_result) list" where
  "ack_all ps outcome audited =
     map (\<lambda>(t, r, b). (t, \<lparr>cr_result = r, cr_wal = outcome, cr_audited = audited\<rparr>)) ps"

text \<open>Stages 3 to 5: the batched append, its undoing, and the acknowledgements.\<close>

definition flush_group ::
  "('e, 'c) commit_engine \<Rightarrow> round_env \<Rightarrow> prepared list \<Rightarrow> 'c \<Rightarrow> nat \<Rightarrow> 'e commit_state \<Rightarrow> 'e commit_state" where
  "flush_group eng env ps pre_image i st =
     (let entries = map (\<lambda>(t, r, b). b) ps;
          want_sync = list_ex (\<lambda>(t, r, b). ct_sync_commit t) ps;
          leader_audits = (au_file (audit st) \<noteq> None)
      in case append_wal_v3_group (env_os env) (server st) entries want_sync of
           (Inl e, server') \<Rightarrow>
             st\<lparr>server := server', engine := replace_catalog eng pre_image (engine st),
                audit := (if leader_audits then annul (env_audit env i) annul_wal (audit st) else audit st),
                acks := acks st @ ack_all ps (Inl e) leader_audits\<rparr>
         | (Inr _, server') \<Rightarrow>
             st\<lparr>server := server', published := published st @ map (\<lambda>(t, r, b). ct_sql t) ps,
                acks := acks st @ ack_all ps (Inr ()) leader_audits\<rparr>)"

text \<open>The iteration once the group has run: nothing to keep, or the audit barrier and the append.\<close>

definition finish_round ::
  "('e, 'c) commit_engine \<Rightarrow> round_env \<Rightarrow> prepared list \<Rightarrow> 'c \<Rightarrow> 'e commit_state \<Rightarrow> 'e commit_state option" where
  "finish_round eng env ps pre_image st =
     (if ps = [] then Some st
      else if au_file (audit st) = None then Some (flush_group eng env ps pre_image 0 st)
      else
        (case audit_group (env_audit env) 0 ps False (audit st) of
           None \<Rightarrow> None
         | Some (None, any, i, au) \<Rightarrow> Some (flush_group eng env ps pre_image i (st\<lparr>audit := au\<rparr>))
         | Some (Some err, any, i, au) \<Rightarrow>
             Some (st\<lparr>engine := replace_catalog eng pre_image (engine st),
                      audit := (if any then annul (env_audit env i) annul_audit au else au),
                      acks := acks st @ ack_all ps (Inl err) True\<rparr>)))"

text \<open>One iteration of \<open>run_leader_commit_round\<close>.\<close>

definition commit_round ::
  "wal_settings \<Rightarrow> ('e, 'c) commit_engine \<Rightarrow> nat \<Rightarrow> round_env \<Rightarrow> 'e commit_state \<Rightarrow> 'e commit_state option" where
  "commit_round cfg eng group_max env st =
     (if pending st = [] then Some (st\<lparr>leader_active := False\<rparr>)
      else
        (let take_n = min (length (pending st)) group_max;
             group = take take_n (pending st);
             st0 = count_group (length group) (pinned_delay env) (st\<lparr>pending := drop take_n (pending st)\<rparr>);
             pre_image = catalog eng (engine st0)
         in case prepare_tasks cfg eng group (engine st0) (metrics st0) of
              None \<Rightarrow> None
            | Some (ps, e1, m1, as) \<Rightarrow>
                finish_round eng env ps pre_image (st0\<lparr>engine := e1, metrics := m1, acks := acks st0 @ as\<rparr>)))"

section \<open>What the engine has to keep\<close>

text \<open>
  The engine is not part of this theory. The leader and recovery rely on four of its promises: running a
  statement leaves the dialect alone; a statement that is not kept leaves the catalog as it was (a failed
  autocommit statement rolls itself back); a kept statement run again by recovery, on an engine with the
  same catalog that speaks PostgreSQL, in the recorded dialect and with the recorded inputs, has the same
  effect on the catalog; and putting a catalog back puts it back.
\<close>

definition rejects_cleanly :: "('e, 'c) commit_engine \<Rightarrow> bool" where
  "rejects_cleanly eng \<longleftrightarrow> (\<forall>sql c v e. \<not> commit_worthy (fst (execute_in eng sql c v e)) sql
     \<longrightarrow> catalog eng (snd (execute_in eng sql c v e)) = catalog eng e)"

definition keeps_dialect :: "('e, 'c) commit_engine \<Rightarrow> bool" where
  "keeps_dialect eng \<longleftrightarrow> (\<forall>sql c v e. in_mysql_dialect (ce_replay eng) (snd (execute_in eng sql c v e)) = in_mysql_dialect (ce_replay eng) e)"

definition replays_alike :: "('e, 'c) commit_engine \<Rightarrow> bool" where
  "replays_alike eng \<longleftrightarrow> (\<forall>sql c v e e2. commit_worthy (fst (execute_in eng sql c v e)) sql \<and> catalog eng e2 = catalog eng e
     \<and> \<not> in_mysql_dialect (ce_replay eng) e2 \<longrightarrow>
     (let e3 = run_logged (ce_replay eng) \<lparr>ls_mysql = in_mysql_dialect (ce_replay eng) e, ls_volatiles = v, ls_sql = sql\<rparr> e2
      in catalog eng e3 = catalog eng (snd (execute_in eng sql c v e)) \<and> \<not> in_mysql_dialect (ce_replay eng) e3))"

definition restores_catalog :: "('e, 'c) commit_engine \<Rightarrow> bool" where
  "restores_catalog eng \<longleftrightarrow> (\<forall>c e. catalog eng (replace_catalog eng c e) = c
     \<and> in_mysql_dialect (ce_replay eng) (replace_catalog eng c e) = in_mysql_dialect (ce_replay eng) e)"

definition engine_laws :: "('e, 'c) commit_engine \<Rightarrow> bool" where
  "engine_laws eng \<longleftrightarrow> rejects_cleanly eng \<and> keeps_dialect eng \<and> replays_alike eng \<and> restores_catalog eng"

section \<open>The server as a transition system\<close>

text \<open>
  Steps: a task arrives, with the dialect read from the engine as \<open>commit_queue_execute\<close> reads it, or the
  leader runs an iteration. Every failure of the operating system may happen in an iteration but one: the
  truncation that undoes a failed append succeeds.
\<close>

inductive server_reach ::
  "wal_settings \<Rightarrow> ('e, 'c) commit_engine \<Rightarrow> nat \<Rightarrow> 'e \<Rightarrow> 'e commit_state \<Rightarrow> bool"
  for cfg :: wal_settings and eng :: "('e, 'c) commit_engine" and group_max :: nat and e0 :: 'e where
  start: "pending st = [] \<Longrightarrow> \<not> leader_active st \<Longrightarrow> engine st = e0 \<Longrightarrow> wal_contents (server st) = Some [] \<Longrightarrow>
    published st = [] \<Longrightarrow> acks st = [] \<Longrightarrow> server_reach cfg eng group_max e0 st"
| arrive: "server_reach cfg eng group_max e0 st \<Longrightarrow> utf8_valid (ct_sql t) \<Longrightarrow> length (ct_sql t) < 2 ^ 32 \<Longrightarrow>
    ct_mysql t = in_mysql_dialect (ce_replay eng) (engine st) \<Longrightarrow>
    server_reach cfg eng group_max e0 (snd (enqueue_commit_task t st))"
| lead: "server_reach cfg eng group_max e0 st \<Longrightarrow> leader_active st \<Longrightarrow> truncate_ok (env_os env) \<Longrightarrow>
    commit_round cfg eng group_max env st = Some st' \<Longrightarrow> server_reach cfg eng group_max e0 st'"

text \<open>The acknowledgements that promise durability: the statement was kept and the log took it.\<close>

definition durable :: "commit_task \<times> commit_result \<Rightarrow> bool" where
  "durable a \<longleftrightarrow> cr_wal (snd a) = Inr () \<and> commit_worthy (cr_result (snd a)) (ct_sql (fst a))"

abbreviation dialect :: "('e, 'c) commit_engine \<Rightarrow> 'e \<Rightarrow> bool" where
  "dialect eng e \<equiv> in_mysql_dialect (ce_replay eng) e"

definition task_ok :: "bool \<Rightarrow> commit_task \<Rightarrow> bool" where
  "task_ok d t \<longleftrightarrow> utf8_valid (ct_sql t) \<and> length (ct_sql t) < 2 ^ 32 \<and> ct_mysql t = d"

text \<open>
  The log is the records of some statements; running them on the engine recovery starts with gives the
  catalog in memory, and they are the published statements, in order.
\<close>

definition in_step :: "wal_settings \<Rightarrow> ('e, 'c) commit_engine \<Rightarrow> 'e \<Rightarrow> bytes option \<Rightarrow> bytes list \<Rightarrow> 'c \<Rightarrow> bool" where
  "in_step cfg eng r0 file sqls cat \<longleftrightarrow>
     (\<exists>ss bs. list_all2 (logs cfg) ss bs \<and> file = Some (concat bs) \<and> map ls_sql ss = sqls
        \<and> catalog eng (fold (run_logged (ce_replay eng)) ss r0) = cat \<and> \<not> dialect eng (fold (run_logged (ce_replay eng)) ss r0))"

definition server_inv :: "wal_settings \<Rightarrow> ('e, 'c) commit_engine \<Rightarrow> bool \<Rightarrow> 'e \<Rightarrow> 'e commit_state \<Rightarrow> bool" where
  "server_inv cfg eng d r0 st \<longleftrightarrow>
     dialect eng (engine st) = d \<and> (\<forall>t\<in>set (pending st). task_ok d t)
     \<and> published st = map (\<lambda>a. ct_sql (fst a)) (filter durable (acks st))
     \<and> in_step cfg eng r0 (wal_contents (server st)) (published st) (catalog eng (engine st))"

section \<open>Preparing a group\<close>

lemma run_kept:
  assumes "engine_laws eng" "execute_in eng sql c v e = (r, e1)" "commit_worthy r sql" "catalog eng e2 = catalog eng e" "\<not> dialect eng e2"
  shows "catalog eng (run_logged (ce_replay eng) \<lparr>ls_mysql = dialect eng e, ls_volatiles = v, ls_sql = sql\<rparr> e2) = catalog eng e1"
    and "\<not> dialect eng (run_logged (ce_replay eng) \<lparr>ls_mysql = dialect eng e, ls_volatiles = v, ls_sql = sql\<rparr> e2)"
  using assms unfolding engine_laws_def replays_alike_def Let_def by (metis fst_conv snd_conv)+

lemma run_rejected:
  "engine_laws eng \<Longrightarrow> execute_in eng sql c v e = (r, e1) \<Longrightarrow> \<not> commit_worthy r sql \<Longrightarrow> catalog eng e1 = catalog eng e"
  unfolding engine_laws_def rejects_cleanly_def by (metis fst_conv snd_conv)

lemma run_dialect: "engine_laws eng \<Longrightarrow> execute_in eng sql c v e = (r, e1) \<Longrightarrow> dialect eng e1 = dialect eng e"
  unfolding engine_laws_def keeps_dialect_def by (metis snd_conv)

text \<open>What the loop over the group establishes, as a relation between its tasks and its results.\<close>

definition prepared_ok ::
  "wal_settings \<Rightarrow> ('e, 'c) commit_engine \<Rightarrow> 'e \<Rightarrow> bool \<Rightarrow> prepared list \<times> 'e \<times> wal_metrics \<times> (commit_task \<times> commit_result) list \<Rightarrow> bool" where
  "prepared_ok cfg eng e2 d res \<longleftrightarrow>
     (case res of (ps, e', m', as) \<Rightarrow>
        dialect eng e' = d \<and> filter durable as = [] \<and> (\<forall>(t, r, b)\<in>set ps. commit_worthy r (ct_sql t))
        \<and> (\<exists>ss. list_all2 (logs cfg) ss (map (\<lambda>(t, r, b). b) ps) \<and> map ls_sql ss = map (\<lambda>(t, r, b). ct_sql t) ps
             \<and> catalog eng (fold (run_logged (ce_replay eng)) ss e2) = catalog eng e' \<and> \<not> dialect eng (fold (run_logged (ce_replay eng)) ss e2)))"

lemma prepare_tasks_ok:
  assumes "engine_laws eng"
  shows "prepare_tasks cfg eng ts e m = Some res \<Longrightarrow> \<forall>t\<in>set ts. task_ok (dialect eng e) t \<Longrightarrow> catalog eng e2 = catalog eng e
    \<Longrightarrow> \<not> dialect eng e2 \<Longrightarrow> prepared_ok cfg eng e2 (dialect eng e) res"
proof (induction ts arbitrary: e m e2 res)
  case Nil
  then show ?case by (auto simp: prepared_ok_def intro: exI[of _ "[]"])
next
  case (Cons t ts)
  let ?v = "statement_volatiles eng e"
  let ?s = "\<lparr>ls_mysql = ct_mysql t, ls_volatiles = ?v, ls_sql = ct_sql t\<rparr>"
  have t: "task_ok (dialect eng e) t" "\<forall>t\<in>set ts. task_ok (dialect eng e) t" using Cons.prems(2) by simp_all
  obtain m1 o1 where en: "statement_entry cfg ?s m = Some (m1, o1)"
    using Cons.prems(1) by (auto simp: Let_def split: option.splits)
  show ?case
  proof (cases o1)
    case (Inl err)
    then obtain ps e' m' as where p: "prepare_tasks cfg eng ts e m1 = Some (ps, e', m', as)"
      and res: "res = (ps, e', m', (t, \<lparr>cr_result = ExecErr, cr_wal = Inl (EncodeFailed err), cr_audited = False\<rparr>) # as)"
      using Cons.prems(1) en by (auto simp: Let_def)
    from Cons.IH[OF p t(2) Cons.prems(3,4)] show ?thesis by (auto simp: prepared_ok_def res durable_def)
  next
    case (Inr b)
    obtain r e1 where ex: "execute_in eng (ct_sql t) (ct_cancelled t) ?v e = (r, e1)" by fastforce
    have d1: "dialect eng e1 = dialect eng e" by (rule run_dialect[OF assms ex])
    show ?thesis
    proof (cases "commit_worthy r (ct_sql t)")
      case False
      then obtain ps e' m' as where p: "prepare_tasks cfg eng ts e1 m1 = Some (ps, e', m', as)"
        and res: "res = (ps, e', m', (t, \<lparr>cr_result = r, cr_wal = Inr (), cr_audited = False\<rparr>) # as)"
        using Cons.prems(1) en ex Inr by (auto simp: Let_def)
      have "catalog eng e2 = catalog eng e1" using run_rejected[OF assms ex False] Cons.prems(3) by simp
      from Cons.IH[OF p _ this Cons.prems(4)] t(2) False show ?thesis by (auto simp: prepared_ok_def res durable_def d1)
    next
      case True
      then obtain ps e' m' as where p: "prepare_tasks cfg eng ts e1 m1 = Some (ps, e', m', as)" and res: "res = ((t, r, b) # ps, e', m', as)"
        using Cons.prems(1) en ex Inr by (auto simp: Let_def)
      have s: "?s = \<lparr>ls_mysql = dialect eng e, ls_volatiles = ?v, ls_sql = ct_sql t\<rparr>" using t(1) by (simp add: task_ok_def)
      note kept = run_kept[OF assms ex True Cons.prems(3,4), folded s]
      have l: "logs cfg ?s b" using t(1) en Inr by (auto simp: logs_def task_ok_def)
      from Cons.IH[OF p _ kept] t(2) obtain ss where
        "dialect eng e' = dialect eng e" "filter durable as = []" "\<forall>(t, r, b)\<in>set ps. commit_worthy r (ct_sql t)"
        "list_all2 (logs cfg) ss (map (\<lambda>(t, r, b). b) ps)" "map ls_sql ss = map (\<lambda>(t, r, b). ct_sql t) ps"
        "catalog eng (fold (run_logged (ce_replay eng)) ss (run_logged (ce_replay eng) ?s e2)) = catalog eng e'"
        "\<not> dialect eng (fold (run_logged (ce_replay eng)) ss (run_logged (ce_replay eng) ?s e2))"
        by (auto simp: prepared_ok_def d1)
      then show ?thesis using l True unfolding prepared_ok_def res by (auto intro!: exI[of _ "?s # ss"])
    qed
  qed
qed

section \<open>One iteration\<close>

lemma in_step_append:
  assumes "in_step cfg eng r0 (Some file) sqls pre_image"
    and "\<And>e2. catalog eng e2 = pre_image \<Longrightarrow> \<not> dialect eng e2 \<Longrightarrow> prepared_ok cfg eng e2 d (ps, e', m', as)"
  shows "in_step cfg eng r0 (Some (file @ concat (map (\<lambda>(t, r, b). b) ps))) (sqls @ map (\<lambda>(t, r, b). ct_sql t) ps) (catalog eng e')"
proof -
  obtain ss bs where s: "list_all2 (logs cfg) ss bs" "file = concat bs" "map ls_sql ss = sqls"
    and c: "catalog eng (fold (run_logged (ce_replay eng)) ss r0) = pre_image" "\<not> dialect eng (fold (run_logged (ce_replay eng)) ss r0)"
    using assms(1) by (auto simp: in_step_def)
  obtain ss' where s': "list_all2 (logs cfg) ss' (map (\<lambda>(t, r, b). b) ps)" "map ls_sql ss' = map (\<lambda>(t, r, b). ct_sql t) ps"
    "catalog eng (fold (run_logged (ce_replay eng)) ss' (fold (run_logged (ce_replay eng)) ss r0)) = catalog eng e'"
    "\<not> dialect eng (fold (run_logged (ce_replay eng)) ss' (fold (run_logged (ce_replay eng)) ss r0))"
    using assms(2)[OF c] by (auto simp: prepared_ok_def)
  show ?thesis unfolding in_step_def
    by (rule exI[of _ "ss @ ss'"], rule exI[of _ "bs @ map (\<lambda>(t, r, b). b) ps"])
      (use s s' in \<open>auto intro: list_all2_appendI\<close>)
qed

lemma durable_acks:
  "filter durable (ack_all ps (Inl err) a) = []"
  "\<forall>(t, r, b)\<in>set ps. commit_worthy r (ct_sql t) \<Longrightarrow>
   map (\<lambda>a. ct_sql (fst a)) (filter durable (ack_all ps (Inr ()) a)) = map (\<lambda>(t, r, b). ct_sql t) ps"
  by (induction ps) (auto simp: ack_all_def durable_def)

text \<open>The state between preparing and flushing: the catalog is ahead of the log by the prepared tasks.\<close>

definition ahead ::
  "wal_settings \<Rightarrow> ('e, 'c) commit_engine \<Rightarrow> bool \<Rightarrow> 'e \<Rightarrow> prepared list \<Rightarrow> 'c \<Rightarrow> 'e commit_state \<Rightarrow> bool" where
  "ahead cfg eng d r0 ps pre_image st \<longleftrightarrow>
     (\<forall>t\<in>set (pending st). task_ok d t) \<and> published st = map (\<lambda>a. ct_sql (fst a)) (filter durable (acks st))
     \<and> in_step cfg eng r0 (wal_contents (server st)) (published st) pre_image
     \<and> (\<forall>e2. catalog eng e2 = pre_image \<longrightarrow> \<not> dialect eng e2 \<longrightarrow>
          (\<exists>m' as. prepared_ok cfg eng e2 d (ps, engine st, m', as)))"

lemma ahead_worthy:
  "ahead cfg eng d r0 ps pre_image st \<Longrightarrow> (\<forall>(t, r, b)\<in>set ps. commit_worthy r (ct_sql t)) \<and> dialect eng (engine st) = d"
  unfolding ahead_def in_step_def prepared_ok_def by fastforce

lemma ahead_undone:
  assumes "engine_laws eng" "ahead cfg eng d r0 ps pre_image st" "wal_contents server' = wal_contents (server st)"
  shows "server_inv cfg eng d r0 (st\<lparr>server := server', engine := replace_catalog eng pre_image (engine st), audit := au,
      acks := acks st @ ack_all ps (Inl err) a\<rparr>)"
  using assms(2,3) ahead_worthy[OF assms(2)] assms(1)
  by (auto simp: server_inv_def ahead_def durable_acks engine_laws_def restores_catalog_def)

lemma flush_group_inv:
  assumes "engine_laws eng" "ahead cfg eng d r0 ps pre_image st" "truncate_ok (env_os env)"
  shows "server_inv cfg eng d r0 (flush_group eng env ps pre_image i st)"
proof -
  let ?entries = "map (\<lambda>(t, r, b). b) ps" and ?sync = "list_ex (\<lambda>(t, r, b). ct_sync_commit t) ps"
  have step: "in_step cfg eng r0 (wal_contents (server st)) (published st) pre_image" using assms(2) unfolding ahead_def by blast
  then obtain f0 where f0: "wal_contents (server st) = Some f0" unfolding in_step_def by blast
  obtain o1 server' where ap: "append_wal_v3_group (env_os env) (server st) ?entries ?sync = (o1, server')" by fastforce
  note contents = append_group_contents[OF ap f0 assms(3)]
  show ?thesis
  proof (cases o1)
    case (Inl err)
    then have "wal_contents server' = wal_contents (server st)" using contents f0 by simp
    from ahead_undone[OF assms(1,2) this] show ?thesis using ap Inl by (simp add: flush_group_def Let_def)
  next
    case (Inr u)
    have w: "\<forall>(t, r, b)\<in>set ps. commit_worthy r (ct_sql t)" "dialect eng (engine st) = d" using ahead_worthy[OF assms(2)] by simp_all
    have "prepared_ok cfg eng e2 d (ps, engine st, undefined, [])" if "catalog eng e2 = pre_image" "\<not> dialect eng e2" for e2
      using assms(2) that unfolding ahead_def prepared_ok_def by (auto split: prod.splits)
    from in_step_append[OF step[unfolded f0] this]
    have "in_step cfg eng r0 (wal_contents server') (published st @ map (\<lambda>(t, r, b). ct_sql t) ps) (catalog eng (engine st))"
      using contents Inr by simp
    then show ?thesis using ap Inr w assms(2)
      by (auto simp: flush_group_def Let_def server_inv_def ahead_def durable_acks(2))
  qed
qed

lemma finish_round_inv:
  assumes "engine_laws eng" "ahead cfg eng d r0 ps pre_image st" "truncate_ok (env_os env)" "finish_round eng env ps pre_image st = Some st'"
  shows "server_inv cfg eng d r0 st'"
proof (cases "ps = []")
  case True
  have step: "in_step cfg eng r0 (wal_contents (server st)) (published st) pre_image" using assms(2) unfolding ahead_def by blast
  then obtain e2 where e2: "catalog eng e2 = pre_image" "\<not> dialect eng e2" unfolding in_step_def by blast
  then have "catalog eng (engine st) = pre_image" using assms(2) True unfolding ahead_def prepared_ok_def by auto
  then have "server_inv cfg eng d r0 st" using step ahead_worthy[OF assms(2)] assms(2) by (auto simp: server_inv_def ahead_def)
  then show ?thesis using assms(4) True by (simp add: finish_round_def)
next
  case False
  have au: "ahead cfg eng d r0 ps pre_image (st\<lparr>audit := au\<rparr>)" for au using assms(2) by (auto simp: ahead_def)
  from assms(4) False consider (quiet) "st' = flush_group eng env ps pre_image 0 st"
    | (flush) i au where "st' = flush_group eng env ps pre_image i (st\<lparr>audit := au\<rparr>)"
    | (undo) au err where "st' = st\<lparr>engine := replace_catalog eng pre_image (engine st), audit := au, acks := acks st @ ack_all ps (Inl err) True\<rparr>"
    by (auto simp: finish_round_def split: if_splits option.splits)
  then show ?thesis
  proof cases
    case quiet
    then show ?thesis using flush_group_inv[OF assms(1,2,3)] by simp
  next
    case flush
    then show ?thesis using flush_group_inv[OF assms(1) au assms(3)] by simp
  next
    case undo
    then show ?thesis using ahead_undone[OF assms(1,2) refl, where au=au and err=err and a=True] by simp
  qed
qed

lemma count_group_frame [simp]:
  "engine (count_group n p st) = engine st" "server (count_group n p st) = server st" "published (count_group n p st) = published st"
  "acks (count_group n p st) = acks st" "pending (count_group n p st) = pending st" "audit (count_group n p st) = audit st"
  by (simp_all add: count_group_def Let_def)

lemma commit_round_inv:
  assumes "engine_laws eng" "server_inv cfg eng d r0 st" "truncate_ok (env_os env)" "commit_round cfg eng group_max env st = Some st'"
  shows "server_inv cfg eng d r0 st'"
proof (cases "pending st = []")
  case True
  then show ?thesis using assms(2,4) by (auto simp: commit_round_def server_inv_def)
next
  case False
  let ?n = "min (length (pending st)) group_max"
  define st0 where "st0 = count_group (length (take ?n (pending st))) (pinned_delay env) (st\<lparr>pending := drop ?n (pending st)\<rparr>)"
  have inv: "dialect eng (engine st) = d" "\<forall>t\<in>set (pending st). task_ok d t"
    "published st = map (\<lambda>a. ct_sql (fst a)) (filter durable (acks st))"
    and step: "in_step cfg eng r0 (wal_contents (server st)) (published st) (catalog eng (engine st))"
    using assms(2) unfolding server_inv_def by blast+
  have e0: "engine st0 = engine st" by (simp add: st0_def)
  obtain ps e1 m1 as where p: "prepare_tasks cfg eng (take ?n (pending st)) (engine st) (metrics st0) = Some (ps, e1, m1, as)"
    and fin: "finish_round eng env ps (catalog eng (engine st)) (st0\<lparr>engine := e1, metrics := m1, acks := acks st0 @ as\<rparr>) = Some st'"
    using assms(4) False unfolding commit_round_def Let_def st0_def[symmetric] by (auto simp: e0 split: option.splits)
  have ok: "prepared_ok cfg eng e2 d (ps, e1, m1, as)" if "catalog eng e2 = catalog eng (engine st)" "\<not> dialect eng e2" for e2
    using prepare_tasks_ok[OF assms(1) p, of e2] that inv(1,2) by (auto dest: in_set_takeD)
  obtain r2 where "catalog eng r2 = catalog eng (engine st)" "\<not> dialect eng r2" using step unfolding in_step_def by blast
  from ok[OF this] have as: "filter durable as = []" by (simp add: prepared_ok_def)
  have "\<forall>t\<in>set (drop ?n (pending st)). task_ok d t" using inv(2) by (meson in_set_dropD)
  then have "ahead cfg eng d r0 ps (catalog eng (engine st)) (st0\<lparr>engine := e1, metrics := m1, acks := acks st0 @ as\<rparr>)"
    unfolding ahead_def using inv(3) step ok as by (auto simp: st0_def)
  from finish_round_inv[OF assms(1) this assms(3) fin] show ?thesis .
qed

section \<open>Memory and log in step\<close>

lemma server_reach_inv:
  assumes "engine_laws eng" "catalog eng r0 = catalog eng e0" "\<not> dialect eng r0" "server_reach cfg eng group_max e0 st"
  shows "server_inv cfg eng (dialect eng e0) r0 st"
  using assms(4)
proof (induction rule: server_reach.induct)
  case (start st)
  then show ?case using assms(2,3) by (auto simp: server_inv_def in_step_def intro: exI[of _ "[]"])
next
  case (arrive st t)
  then show ?case by (auto simp: server_inv_def enqueue_commit_task_def Let_def task_ok_def)
next
  case (lead st env st')
  then show ?case using commit_round_inv[OF assms(1)] by blast
qed


text \<open>An engine whose catalog is the list of statements kept, with the inputs they saw.\<close>

definition list_ops :: "((bytes \<times> volatiles) list \<times> bool) engine_ops" where
  "list_ops = \<lparr>execute = \<lambda>sql (c, d). (c @ [(sql, None)], d), replay_statement = \<lambda>a r sql (c, d). (c @ [(sql, Some (a, r))], d),
     in_mysql_dialect = snd, set_mysql_dialect = \<lambda>b (c, d). (c, b)\<rparr>"

definition list_engine :: "((bytes \<times> volatiles) list \<times> bool, (bytes \<times> volatiles) list) commit_engine" where
  "list_engine = \<lparr>ce_replay = list_ops, statement_volatiles = \<lambda>(c, d). Some (word_of_nat (length c), 7),
     execute_in = \<lambda>sql cancelled v (c, d). if cancelled then (ExecErr, (c, d)) else (CommandOk True, (c @ [(sql, v)], d)),
     catalog = fst, replace_catalog = \<lambda>c (c', d). (c, d)\<rparr>"

lemma list_engine_laws: "engine_laws list_engine"
proof -
  have "rejects_cleanly list_engine" "keeps_dialect list_engine" "restores_catalog list_engine"
    by (auto simp: rejects_cleanly_def keeps_dialect_def restores_catalog_def list_engine_def list_ops_def commit_worthy_def)
  moreover have "replays_alike list_engine"
    by (auto simp: replays_alike_def list_engine_def list_ops_def commit_worthy_def run_logged_def replay_execute_quarantining_def
        Let_def split: option.splits)
  ultimately show ?thesis by (simp add: engine_laws_def)
qed

definition sample_task :: commit_task where
  "sample_task = \<lparr>ct_ack = 1, ct_sql = [65, 66], ct_cancelled = False, ct_sync_commit = True, ct_mysql = False\<rparr>"

definition fresh_server :: "((bytes \<times> volatiles) list \<times> bool) commit_state" where
  "fresh_server = \<lparr>pending = [], leader_active = False, engine = ([], False),
     server = \<lparr>wal_contents = Some [], wal_quota_bytes = None, wal_min_free_bytes = None, wal_path_known = True, fail_fsync_at = None,
       fsync_calls = 0, wal_fsyncs = 0, wal_appends = 0, async_commit_dirty = False, tee_contents = None\<rparr>,
     metrics = \<lparr>wal_bytes_uncompressed_in = 0, wal_bytes_compressed_out = 0\<rparr>, audit = \<lparr>au_log = [], au_file = None\<rparr>,
     published = [], acks = [], commit_window_us = 0, groups_solo = 0, groups_coalesced = 0, tasks_coalesced = 0\<rparr>"

definition calm :: round_env where
  "calm = \<lparr>env_os = \<lparr>meta_ok = True, free_bytes = None, landed = None, sync_ok = True, truncate_ok = True, tee_ok = True\<rparr>,
     env_audit = \<lambda>_. \<lparr>fault_fires = False, now_ms = 0, open_ok = True, audit_landed = None\<rparr>, pinned_delay = None\<rparr>"

lemma sample_round:
  "\<exists>st b. commit_round plain_settings list_engine 16 calm (snd (enqueue_commit_task sample_task fresh_server)) = Some st
     \<and> acks st = [(sample_task, \<lparr>cr_result = CommandOk True, cr_wal = Inr (), cr_audited = False\<rparr>)]
     \<and> engine st = ([([65, 66], Some (0, 7))], False) \<and> wal_contents (server st) = Some b"
  by (simp add: commit_round_def enqueue_commit_task_def fresh_server_def sample_task_def count_group_def list_engine_def
      plain_settings_def calm_def finish_round_def flush_group_def statement_entry_def encode_wal_auto_commit_sql_metrics_def
      count_out_def encode_wal_volatile_inputs_def encode_wal_v3_record_def Let_def WAL_V2_SENTINEL_def WAL_V3_FLAG_def
      commit_worthy_def append_wal_v3_group_def space_check_def write_and_sync_def client_fsync_def append_to_tee_def ack_all_def)


end
