(* ===== verification/Bloom.thy ===== *)
theory Bloom
  imports Crc
begin

text \<open>
  The Bloom filter of cold segments (\<open>spg-storage/src/bloom.rs\<close>): hashing, insertion, the membership
  test and the file form. The constructor computes two ceilings in floating point; they are its
  arguments here, and all that is derived from them is modelled. An index out of range and the
  \<open>usize\<close> overflow of a length computed from the header are bounded by the word count, which fits
  the address space.
\<close>

definition BLOOM_MAGIC :: u32 where "BLOOM_MAGIC = 0xB100F11E"
definition FNV_OFFSET_BASIS :: u64 where "FNV_OFFSET_BASIS = 0xcbf29ce484222325"
definition FNV_PRIME :: u64 where "FNV_PRIME = 0x00000001000001b3"
definition NUM_HASHES_MAX :: u32 where "NUM_HASHES_MAX = 32"

datatype bloom_error =
    BloomTooShort nat nat
  | BloomBadMagic u32
  | BloomBadShape
  | BloomBadCrc u32 u32
  | BadNumHashes u32

record bloom_filter =
  bf_bits :: "u64 list"
  bf_num_bits :: u64
  bf_num_hashes :: u32

section \<open>Hashing\<close>

definition fnv1a_64 :: "bytes \<Rightarrow> u64" where
  "fnv1a_64 bs = foldl (\<lambda>h b. (h XOR ucast b) * FNV_PRIME) FNV_OFFSET_BASIS bs"

definition splitmix64 :: "u64 \<Rightarrow> u64" where
  "splitmix64 x0 =
     (let x1 = x0 + 0x9e3779b97f4a7c15;
          x2 = (x1 XOR drop_bit 30 x1) * 0xbf58476d1ce4e5b9;
          x3 = (x2 XOR drop_bit 27 x2) * 0x94d049bb133111eb
      in x3 XOR drop_bit 31 x3)"

definition derive_hash_pair :: "bytes \<Rightarrow> u64 \<times> u64" where
  "derive_hash_pair key =
     (let h1 = fnv1a_64 key; h2 = splitmix64 h1
      in (h1, if h2 = 0 then 0xdeadbeefdeadbeef else h2))"

definition mix :: "u64 \<Rightarrow> u64 \<Rightarrow> nat \<Rightarrow> u64 \<Rightarrow> u64" where
  "mix h1 h2 i num_bits = (h1 + word_of_nat i * h2) mod num_bits"

section \<open>Construction\<close>

definition with_target_fp_rate :: "u64 \<Rightarrow> u64 \<Rightarrow> bloom_filter" where
  "with_target_fp_rate m_ceil k_ceil =
     (let m_ceil_bits = max m_ceil 64;
          num_words = (m_ceil_bits + 63) div 64;
          num_bits = num_words * 64;
          num_hashes = min (max (ucast k_ceil) 1) NUM_HASHES_MAX
      in \<lparr>bf_bits = replicate (unat num_words) 0, bf_num_bits = num_bits, bf_num_hashes = num_hashes\<rparr>)"

definition from_params :: "u64 \<Rightarrow> u32 \<Rightarrow> u64 list \<Rightarrow> bloom_error + bloom_filter" where
  "from_params num_bits num_hashes bits =
     (if num_bits = 0 \<or> num_bits mod 64 \<noteq> 0 then Inl BloomBadShape
      else if num_hashes = 0 \<or> NUM_HASHES_MAX < num_hashes then Inl (BadNumHashes num_hashes)
      else if word_of_nat (length bits) \<noteq> num_bits div 64 then Inl BloomBadShape
      else Inr \<lparr>bf_bits = bits, bf_num_bits = num_bits, bf_num_hashes = num_hashes\<rparr>)"

section \<open>Insertion and test\<close>

definition set_position :: "u64 \<Rightarrow> u64 list \<Rightarrow> u64 list" where
  "set_position bit_idx bits =
     (let word_idx = unat (bit_idx div 64); bit_in_word = unat (bit_idx mod 64)
      in bits[word_idx := bits ! word_idx OR push_bit bit_in_word 1])"

fun insert_loop :: "u64 \<Rightarrow> u64 \<Rightarrow> u64 \<Rightarrow> nat list \<Rightarrow> u64 list \<Rightarrow> u64 list" where
  "insert_loop h1 h2 num_bits [] bits = bits"
| "insert_loop h1 h2 num_bits (i # is) bits = insert_loop h1 h2 num_bits is (set_position (mix h1 h2 i num_bits) bits)"

definition bf_insert :: "bytes \<Rightarrow> bloom_filter \<Rightarrow> bloom_filter" where
  "bf_insert key f =
     (case derive_hash_pair key of
        (h1, h2) \<Rightarrow> f\<lparr>bf_bits := insert_loop h1 h2 (bf_num_bits f) [0..<unat (bf_num_hashes f)] (bf_bits f)\<rparr>)"

definition position_set :: "u64 list \<Rightarrow> u64 \<Rightarrow> bool" where
  "position_set bits bit_idx =
     (let word_idx = unat (bit_idx div 64); bit_in_word = unat (bit_idx mod 64)
      in bits ! word_idx AND push_bit bit_in_word 1 \<noteq> 0)"

definition bf_contains :: "bloom_filter \<Rightarrow> bytes \<Rightarrow> bool" where
  "bf_contains f key =
     (case derive_hash_pair key of
        (h1, h2) \<Rightarrow> list_all (\<lambda>i. position_set (bf_bits f) (mix h1 h2 i (bf_num_bits f))) [0..<unat (bf_num_hashes f)])"

section \<open>File form\<close>

definition bf_encoded_len :: "bloom_filter \<Rightarrow> nat" where
  "bf_encoded_len f = 20 + length (bf_bits f) * 8"

definition bf_to_bytes :: "bloom_filter \<Rightarrow> bytes" where
  "bf_to_bytes f =
     (let head = u64_le (bf_num_bits f) @ u32_le (bf_num_hashes f);
          body = concat (map u64_le (bf_bits f));
          body_crc = crc32 (head @ body)
      in u32_le BLOOM_MAGIC @ head @ u32_le body_crc @ body)"

fun read_words :: "nat \<Rightarrow> bytes \<Rightarrow> u64 list" where
  "read_words 0 bs = []"
| "read_words (Suc n) bs = le_u64 (take 8 bs) # read_words n (drop 8 bs)"

definition bf_from_bytes :: "bytes \<Rightarrow> bloom_error + bloom_filter" where
  "bf_from_bytes input =
     (if length input < 20 then Inl (BloomTooShort (length input) 20)
      else
        (let magic = le_u32 (slice input 0 4)
         in if magic \<noteq> BLOOM_MAGIC then Inl (BloomBadMagic magic)
            else
              (let num_bits = le_u64 (slice input 4 12);
                   num_hashes = le_u32 (slice input 12 16);
                   crc_stored = le_u32 (slice input 16 20)
               in if num_bits = 0 \<or> num_bits mod 64 \<noteq> 0 then Inl BloomBadShape
                  else
                    (let expected_words = unat (num_bits div 64);
                         expected_body_bytes = expected_words * 8
                     in if length input \<noteq> 20 + expected_body_bytes then Inl BloomBadShape
                        else
                          (let crc_computed = crc32 (slice input 4 16 @ drop 20 input)
                           in if crc_computed \<noteq> crc_stored then Inl (BloomBadCrc crc_stored crc_computed)
                              else from_params num_bits num_hashes (read_words expected_words (drop 20 input)))))))"

section \<open>Well-formed filters\<close>

definition bf_ok :: "bloom_filter \<Rightarrow> bool" where
  "bf_ok f \<longleftrightarrow> bf_num_bits f \<noteq> 0 \<and> bf_num_bits f mod 64 = 0 \<and> length (bf_bits f) = unat (bf_num_bits f div 64)
     \<and> 0 < bf_num_hashes f \<and> bf_num_hashes f \<le> NUM_HASHES_MAX"

lemma constructor_ok:
  assumes "unat m_ceil < 2 ^ 63"
  shows "bf_ok (with_target_fp_rate m_ceil k_ceil)"
proof -
  let ?m = "max m_ceil 64"
  let ?w = "(?m + 63) div 64"
  have m: "64 \<le> unat ?m" "unat ?m < 2 ^ 63 + 1" using assms by (auto simp: max_def word_le_nat_alt)
  have u: "unat (?m + 63) = unat ?m + 63" using m by (subst unat_add_lem[THEN iffD1]) auto
  have w: "unat ?w = (unat ?m + 63) div 64" by (simp add: unat_div u)
  then have wb: "1 \<le> unat ?w" "unat ?w * 64 < 2 ^ 64" using m by auto
  then have n: "unat (?w * 64) = unat ?w * 64" by (subst unat_mult_lem[THEN iffD1]) auto
  have "?w * 64 \<noteq> 0" using n wb(1) by (metis mult_is_0 not_one_le_zero unat_0 zero_neq_numeral)
  moreover have "?w * 64 mod 64 = 0" by (rule word_unat_eq_iff[THEN iffD2]) (simp add: unat_mod n)
  moreover have "unat (?w * 64 div 64) = unat ?w" by (simp add: unat_div n)
  moreover have "0 < max (ucast k_ceil) (1 :: u32)" using less_le_trans[of 0 1 "max (ucast k_ceil) (1 :: u32)"] by simp
  then have "0 < min (max (ucast k_ceil) 1) NUM_HASHES_MAX" by (simp add: NUM_HASHES_MAX_def del: less_max_iff_disj)
  ultimately show ?thesis by (simp add: bf_ok_def with_target_fp_rate_def Let_def)
qed

lemma position_set_bit: "position_set bits q \<longleftrightarrow> bit (bits ! unat (q div 64)) (unat (q mod 64))"
  by (simp add: position_set_def Let_def push_bit_of_1 and_exp_eq_0_iff_not_bit)

lemma length_set_position [simp]: "length (set_position p bits) = length bits"
  by (simp add: set_position_def Let_def)

lemma set_position_keeps: "position_set bits q \<Longrightarrow> position_set (set_position p bits) q"
  by (cases "unat (p div 64) < length bits")
    (auto simp: position_set_bit set_position_def Let_def nth_list_update bit_or_iff list_update_beyond)

lemma set_position_sets:
  assumes "unat (p div 64) < length bits"
  shows "position_set (set_position p bits) p"
proof -
  have "unat (p mod 64) < 64" by (simp add: unat_mod)
  then show ?thesis using assms by (simp add: position_set_bit set_position_def Let_def bit_or_iff push_bit_of_1 bit_exp_iff possible_bit_def)
qed

lemma length_insert_loop [simp]: "length (insert_loop h1 h2 n is bits) = length bits"
  by (induction "is" arbitrary: bits) simp_all

lemma insert_loop_keeps: "position_set bits q \<Longrightarrow> position_set (insert_loop h1 h2 n is bits) q"
  by (induction "is" arbitrary: bits) (simp_all add: set_position_keeps)

lemma insert_loop_sets:
  assumes "\<And>i. unat (mix h1 h2 i n div 64) < length bits" "i \<in> set is"
  shows "position_set (insert_loop h1 h2 n is bits) (mix h1 h2 i n)"
  using assms
proof (induction "is" arbitrary: bits)
  case (Cons j "is")
  then show ?case
    using insert_loop_keeps[OF set_position_sets, of "mix h1 h2 j n" bits] by (cases "i = j") auto
qed simp

lemma mix_in_range:
  assumes "bf_ok f"
  shows "unat (mix h1 h2 i (bf_num_bits f) div 64) < length (bf_bits f)"
proof -
  let ?n = "unat (bf_num_bits f)"
  have "?n mod 64 = unat (bf_num_bits f mod 64)" by (simp add: unat_mod)
  then have n: "?n \<noteq> 0" "?n mod 64 = 0" using assms by (simp_all add: bf_ok_def unat_eq_0)
  have "unat (mix h1 h2 i (bf_num_bits f)) < ?n" using n(1) by (simp add: mix_def unat_mod)
  moreover have "?n = ?n div 64 * 64" using n(2) by presburger
  ultimately have "unat (mix h1 h2 i (bf_num_bits f)) div 64 < ?n div 64" by (simp add: less_mult_imp_div_less)
  then show ?thesis using assms by (simp add: bf_ok_def unat_div)
qed

lemma insert_ok: "bf_ok f \<Longrightarrow> bf_ok (bf_insert key f)"
  by (simp add: bf_ok_def bf_insert_def split: prod.split)

lemma insert_params [simp]: "bf_num_bits (bf_insert key f) = bf_num_bits f" "bf_num_hashes (bf_insert key f) = bf_num_hashes f"
  "length (bf_bits (bf_insert key f)) = length (bf_bits f)"
  by (simp_all add: bf_insert_def split: prod.split)

lemma insert_contains:
  assumes "bf_ok f"
  shows "bf_contains (bf_insert key f) key"
  using insert_loop_sets[of "fst (derive_hash_pair key)" "snd (derive_hash_pair key)" "bf_num_bits f" "bf_bits f"] mix_in_range[OF assms]
  by (auto simp: bf_contains_def bf_insert_def list_all_iff split: prod.splits)

lemma insert_keeps: "bf_contains f key' \<Longrightarrow> bf_contains (bf_insert key f) key'"
  by (auto simp: bf_contains_def bf_insert_def list_all_iff insert_loop_keeps split: prod.splits)

text \<open>A filter built by insertions never denies a key that was inserted.\<close>

lemma no_false_negative:
  assumes "bf_ok f"
  shows "bf_ok (foldl (\<lambda>f k. bf_insert k f) f ks) \<and> (\<forall>k\<in>set ks. bf_contains (foldl (\<lambda>f k. bf_insert k f) f ks) k)"
proof -
  have "(\<forall>k. bf_contains f k \<longrightarrow> bf_contains (foldl (\<lambda>f k. bf_insert k f) f ks) k) \<and> bf_ok (foldl (\<lambda>f k. bf_insert k f) f ks)
    \<and> (\<forall>k\<in>set ks. bf_contains (foldl (\<lambda>f k. bf_insert k f) f ks) k)"
    using assms by (induction ks arbitrary: f) (auto simp: insert_ok insert_keeps insert_contains)
  then show ?thesis by blast
qed

section \<open>Round trip\<close>

lemma read_words_written: "read_words (length ws) (concat (map u64_le ws) @ rest) = ws"
  by (induction ws) simp_all

lemma length_words: "length (concat (map u64_le ws)) = 8 * length ws"
  by (induction ws) simp_all

lemma bloom_roundtrip:
  assumes "bf_ok f"
  shows "bf_from_bytes (bf_to_bytes f) = Inr f" and "length (bf_to_bytes f) = bf_encoded_len f"
proof -
  let ?N = "u64_le (bf_num_bits f)" and ?H = "u32_le (bf_num_hashes f)" and ?B = "concat (map u64_le (bf_bits f))"
  let ?crc = "crc32 ((?N @ ?H) @ ?B)"
  have b: "bf_to_bytes f = u32_le BLOOM_MAGIC @ ?N @ ?H @ u32_le ?crc @ ?B" by (simp add: bf_to_bytes_def Let_def)
  then show len: "length (bf_to_bytes f) = bf_encoded_len f" by (simp add: bf_encoded_len_def length_words)
  have s: "slice (bf_to_bytes f) 0 4 = u32_le BLOOM_MAGIC" "slice (bf_to_bytes f) 4 12 = ?N" "slice (bf_to_bytes f) 12 16 = ?H"
    "slice (bf_to_bytes f) 16 20 = u32_le ?crc" "slice (bf_to_bytes f) 4 16 = ?N @ ?H" "drop 20 (bf_to_bytes f) = ?B"
    by (simp_all add: b slice_def)
  have r: "read_words (unat (bf_num_bits f div 64)) ?B = bf_bits f" "word_of_nat (length (bf_bits f)) = bf_num_bits f div 64"
    using assms read_words_written[of "bf_bits f" "[]"] by (simp_all add: bf_ok_def)
  have "length (bf_to_bytes f) = 20 + unat (bf_num_bits f div 64) * 8" using len assms by (simp add: bf_encoded_len_def bf_ok_def)
  then show "bf_from_bytes (bf_to_bytes f) = Inr f" using assms
    by (simp add: bf_from_bytes_def Let_def s r from_params_def bf_ok_def word_gt_0 not_less)
qed

text \<open>The prime of the 64-bit FNV hash is \<open>2^40 + 2^8 + 0xb3\<close>; the constant of the source is \<open>2^32 + 2^8 + 0xb3\<close>.\<close>

lemma fnv_prime_not_standard: "FNV_PRIME \<noteq> 2 ^ 40 + 2 ^ 8 + 0xb3" "FNV_PRIME = 2 ^ 32 + 2 ^ 8 + 0xb3"
  by (simp_all add: FNV_PRIME_def)

end
