(* ===== verification/Segment_Page.thy ===== *)
theory Segment_Page
  imports Prelude
begin

text \<open>
  Pages of a cold segment (\<open>spg-storage/src/segment.rs\<close>): the layout of rows in a page, the search for
  a key inside a page and the walk over its rows. A failed \<open>expect\<close> is \<open>None\<close>.
\<close>

type_synonym seg_row = "u64 \<times> bytes"

definition resize_bytes :: "nat \<Rightarrow> bytes \<Rightarrow> bytes" where
  "resize_bytes n bs = take n bs @ replicate (n - length bs) 0"

text \<open>A row as it lives on a page, and the position of each row in it.\<close>

definition row_bytes :: "seg_row \<Rightarrow> bytes" where
  "row_bytes r = u64_le (fst r) @ u32_le (word_of_nat (length (snd r))) @ snd r"

fun row_offsets :: "nat \<Rightarrow> bytes list \<Rightarrow> nat list" where
  "row_offsets pos [] = []"
| "row_offsets pos (r # rs) = pos # row_offsets (pos + length r) rs"

definition serialise_page :: "bytes list \<Rightarrow> nat \<Rightarrow> bytes option" where
  "serialise_page rows page_size_bytes =
     (let num_rows = length rows;
          header_total = 4 + num_rows * 4;
          offsets = row_offsets header_total rows
      in if 2 ^ 32 \<le> num_rows \<or> list_ex (\<lambda>off. 2 ^ 32 \<le> off) offsets then None
         else Some (resize_bytes page_size_bytes
                (u32_le (word_of_nat num_rows) @ concat (map (\<lambda>off. u32_le (word_of_nat off)) offsets) @ concat rows)))"

definition page_offsets :: "bytes \<Rightarrow> nat \<Rightarrow> nat list" where
  "page_offsets page num_rows = map (\<lambda>i. unat (le_u32 (slice page (4 + i * 4) (4 + i * 4 + 4)))) [0..<num_rows]"

function page_search :: "bytes \<Rightarrow> nat list \<Rightarrow> u64 \<Rightarrow> nat \<Rightarrow> nat \<Rightarrow> bytes option" where
  "page_search page offsets key lo hi =
     (if lo < hi then
        (let mid = (lo + hi) div 2;
             row_off = offsets ! mid
         in if length page < row_off + 8 then None
            else
              (let row_key = le_u64 (slice page row_off (row_off + 8))
               in if row_key < key then page_search page offsets key (Suc mid) hi
                  else if key < row_key then page_search page offsets key lo mid
                  else
                    (let plen_off = row_off + 8
                     in if length page < plen_off + 4 then None
                        else
                          (let plen = unat (le_u32 (slice page plen_off (plen_off + 4)));
                               payload_start = plen_off + 4;
                               payload_end = payload_start + plen
                           in if length page < payload_end then None
                              else Some (slice page payload_start payload_end)))))
      else None)"
  by pat_completeness auto
termination
  by (relation "measure (\<lambda>(page, offsets, key, lo, hi). hi - lo)") auto

declare page_search.simps [simp del]

definition decode_page_lookup :: "bytes \<Rightarrow> u64 \<Rightarrow> bytes option" where
  "decode_page_lookup page key =
     (if length page < 4 then None
      else
        (let num_rows = unat (le_u32 (slice page 0 4))
         in if num_rows = 0 then None
            else if length page < 4 + num_rows * 4 then None
            else page_search page (page_offsets page num_rows) key 0 num_rows))"

fun page_rows :: "bytes \<Rightarrow> nat list \<Rightarrow> seg_row list" where
  "page_rows page [] = []"
| "page_rows page (row_off # offsets) =
     (if length page < row_off + 12 then []
      else
        (let key = le_u64 (slice page row_off (row_off + 8));
             plen = unat (le_u32 (slice page (row_off + 8) (row_off + 12)));
             payload_start = row_off + 12;
             payload_end = payload_start + plen
         in if length page < payload_end then []
            else (key, slice page payload_start payload_end) # page_rows page offsets))"

definition decode_page_iter :: "bytes \<Rightarrow> seg_row list" where
  "decode_page_iter page =
     (if length page < 4 then []
      else
        (let num_rows = unat (le_u32 (slice page 0 4))
         in if num_rows = 0 then []
            else if length page < 4 + num_rows * 4 then []
            else page_rows page (page_offsets page num_rows)))"

section \<open>What a page holds\<close>

definition natural_size :: "seg_row list \<Rightarrow> nat" where
  "natural_size rs = 4 + length rs * 4 + sum_list (map (\<lambda>r. length (row_bytes r)) rs)"

text \<open>A page that holds the given rows.\<close>

definition page_holds :: "seg_row list \<Rightarrow> bytes \<Rightarrow> bool" where
  "page_holds rs page \<longleftrightarrow> rs \<noteq> [] \<and> (\<forall>r\<in>set rs. length (snd r) < 2 ^ 32)
     \<and> (\<exists>size. natural_size rs \<le> size \<and> serialise_page (map row_bytes rs) size = Some page)"

lemma length_row_bytes [simp]: "length (row_bytes r) = 12 + length (snd r)"
  by (simp add: row_bytes_def)

lemma length_row_offsets [simp]: "length (row_offsets pos rows) = length rows"
  by (induction rows arbitrary: pos) simp_all

lemma nth_row_offsets: "i < length rows \<Longrightarrow> row_offsets pos rows ! i = pos + length (concat (take i rows))"
  by (induction rows arbitrary: pos i) (auto simp: nth_Cons' take_Cons')

lemma length_offset_words: "length (concat (map (\<lambda>off. u32_le (f off)) offs)) = 4 * length offs"
  by (induction offs) simp_all

lemma offset_word_at: "i < length offs \<Longrightarrow> take 4 (drop (i * 4) (concat (map (\<lambda>off. u32_le (f off)) offs) @ rest)) = u32_le (f (offs ! i))"
proof (induction offs arbitrary: i)
  case (Cons a offs)
  then show ?case by (cases i) simp_all
qed simp

text \<open>The parts of a page: count, offsets, rows, padding.\<close>

lemma page_parts:
  assumes "page_holds rs page"
  defines "offs \<equiv> row_offsets (4 + length rs * 4) (map row_bytes rs)"
  obtains pad where "page = u32_le (word_of_nat (length rs)) @ concat (map (\<lambda>off. u32_le (word_of_nat off)) offs) @ concat (map row_bytes rs) @ pad"
    and "length rs < 2 ^ 32" and "\<forall>off\<in>set offs. off < 2 ^ 32"
proof -
  obtain size where s: "natural_size rs \<le> size" "serialise_page (map row_bytes rs) size = Some page"
    using assms(1) by (auto simp: page_holds_def)
  let ?b = "u32_le (word_of_nat (length rs)) @ concat (map (\<lambda>off. u32_le (word_of_nat off)) offs) @ concat (map row_bytes rs)"
  have "length ?b = natural_size rs"
    by (simp add: natural_size_def length_concat comp_def offs_def sum_list_triv)
  then have "resize_bytes size ?b = ?b @ replicate (size - length ?b) 0" using s(1) by (simp add: resize_bytes_def)
  moreover have "page = resize_bytes size ?b" "length rs < 2 ^ 32" "\<forall>off\<in>set offs. off < 2 ^ 32"
    using s(2) by (auto simp: serialise_page_def Let_def offs_def list_ex_iff not_le split: if_splits)
  ultimately show thesis using that[of "replicate (size - length ?b) 0"] by simp
qed

lemma page_reads:
  assumes "page_holds rs page"
  shows "4 + length rs * 4 \<le> length page" "unat (le_u32 (slice page 0 4)) = length rs"
    "page_offsets page (length rs) = row_offsets (4 + length rs * 4) (map row_bytes rs)"
proof -
  let ?offs = "row_offsets (4 + length rs * 4) (map row_bytes rs)"
  obtain pad where p: "page = u32_le (word_of_nat (length rs)) @ concat (map (\<lambda>off. u32_le (word_of_nat off)) ?offs) @ concat (map row_bytes rs) @ pad"
    and n: "length rs < 2 ^ 32" "\<forall>off\<in>set ?offs. off < 2 ^ 32" by (rule page_parts[OF assms])
  show "4 + length rs * 4 \<le> length page" by (simp add: p length_offset_words)
  show "unat (le_u32 (slice page 0 4)) = length rs" using n(1) by (simp add: p slice_def unat_of_nat)
  show "page_offsets page (length rs) = ?offs"
  proof (rule nth_equalityI)
    fix i assume "i < length (page_offsets page (length rs))"
    then have i: "i < length rs" by (simp add: page_offsets_def)
    have "slice page (4 + i * 4) (4 + i * 4 + 4) = u32_le (word_of_nat (?offs ! i))"
      using offset_word_at[of i ?offs word_of_nat "concat (map row_bytes rs) @ pad"] i
      by (simp add: p slice_def)
    moreover have "?offs ! i < 2 ^ 32" using n(2) i by simp
    ultimately show "page_offsets page (length rs) ! i = ?offs ! i" using i by (simp add: page_offsets_def unat_of_nat)
  qed (simp add: page_offsets_def)
qed

lemma page_row_at:
  assumes "page_holds rs page" "i < length rs"
  obtains post where "drop (row_offsets (4 + length rs * 4) (map row_bytes rs) ! i) page = row_bytes (rs ! i) @ post"
proof -
  let ?offs = "row_offsets (4 + length rs * 4) (map row_bytes rs)"
  obtain pad where p: "page = u32_le (word_of_nat (length rs)) @ concat (map (\<lambda>off. u32_le (word_of_nat off)) ?offs) @ concat (map row_bytes rs) @ pad"
    by (rule page_parts[OF assms(1)])
  have "concat (map row_bytes rs) = concat (take i (map row_bytes rs)) @ row_bytes (rs ! i) @ concat (drop (Suc i) (map row_bytes rs))"
    using assms(2) id_take_nth_drop[of i "map row_bytes rs"] by (metis concat.simps(2) concat_append length_map nth_map)
  then have "drop (?offs ! i) page = row_bytes (rs ! i) @ concat (drop (Suc i) (map row_bytes rs)) @ pad"
    using assms(2) by (simp add: p nth_row_offsets length_offset_words)
  then show thesis using that by blast
qed

lemma row_fields:
  assumes "drop off page = row_bytes r @ post" "length (snd r) < 2 ^ 32"
  shows "off + 12 + length (snd r) \<le> length page" "le_u64 (slice page off (off + 8)) = fst r"
    "unat (le_u32 (slice page (off + 8) (off + 12))) = length (snd r)" "slice page (off + 12) (off + 12 + length (snd r)) = snd r"
proof -
  have "length page - off = 12 + length (snd r) + length post" using arg_cong[OF assms(1), of length] by simp
  then show "off + 12 + length (snd r) \<le> length page" by linarith
  have d: "drop (off + k) page = drop k (row_bytes r @ post)" for k using assms(1) by (metis add.commute drop_drop)
  show "le_u64 (slice page off (off + 8)) = fst r" by (simp add: slice_def assms(1)) (simp add: row_bytes_def)
  show "unat (le_u32 (slice page (off + 8) (off + 12))) = length (snd r)" using assms(2)
    by (simp add: slice_def d) (simp add: row_bytes_def unat_of_nat)
  show "slice page (off + 12) (off + 12 + length (snd r)) = snd r"
    by (simp add: slice_def d) (simp add: row_bytes_def)
qed

lemma page_row_fields:
  assumes "page_holds rs page" "i < length rs"
  defines "off \<equiv> row_offsets (4 + length rs * 4) (map row_bytes rs) ! i"
  shows "off + 12 + length (snd (rs ! i)) \<le> length page" "le_u64 (slice page off (off + 8)) = fst (rs ! i)"
    "unat (le_u32 (slice page (off + 8) (off + 12))) = length (snd (rs ! i))"
    "slice page (off + 12) (off + 12 + length (snd (rs ! i))) = snd (rs ! i)"
proof -
  obtain post where d: "drop off page = row_bytes (rs ! i) @ post" using page_row_at[OF assms(1,2)] unfolding off_def by blast
  have l: "length (snd (rs ! i)) < 2 ^ 32" using assms(1,2) by (simp add: page_holds_def)
  show "off + 12 + length (snd (rs ! i)) \<le> length page" "le_u64 (slice page off (off + 8)) = fst (rs ! i)"
    "unat (le_u32 (slice page (off + 8) (off + 12))) = length (snd (rs ! i))"
    "slice page (off + 12) (off + 12 + length (snd (rs ! i))) = snd (rs ! i)" by (rule row_fields[OF d l])+
qed

section \<open>Reading it back\<close>

text \<open>The search in a page is the binary search of the slice library on the keys of its rows.\<close>

lemma page_search_bsearch:
  assumes "page_holds rs page" "hi \<le> length rs"
  defines "offs \<equiv> row_offsets (4 + length rs * 4) (map row_bytes rs)"
  shows "page_search page offs key lo hi =
    (case bsearch_loop (map fst rs) key lo hi of Inl _ \<Rightarrow> None | Inr i \<Rightarrow> Some (snd (rs ! i)))"
  using assms(2)
proof (induction "map fst rs" key lo hi rule: bsearch_loop.induct)
  case (1 key lo hi)
  show ?case
  proof (cases "lo < hi")
    case True
    define mid where "mid = lo + (hi - lo) div 2"
    have mid: "(lo + hi) div 2 = mid" "mid < hi" "mid < length rs" using True 1(3) by (auto simp: mid_def)
    note f = page_row_fields[OF assms(1) mid(3), folded offs_def]
    have key: "le_u64 (slice page (offs ! mid) (offs ! mid + 8)) = map fst rs ! mid" using f(2) mid(3) by simp
    have f': "\<not> length page < 12 + offs ! mid + length (snd (rs ! mid))"
      "unat (le_u32 (slice page (offs ! mid + 8) (12 + offs ! mid))) = length (snd (rs ! mid))"
      "slice page (12 + offs ! mid) (12 + offs ! mid + length (snd (rs ! mid))) = snd (rs ! mid)"
      using f by (simp_all add: add.commute)
    have eq: "page_search page offs key lo hi =
        (if map fst rs ! mid < key then page_search page offs key (Suc mid) hi
         else if key < map fst rs ! mid then page_search page offs key lo mid else Some (snd (rs ! mid)))"
      using True f(1) f' by (subst page_search.simps) (simp add: mid(1) key Let_def)
    have ih: "map fst rs ! mid \<noteq> key \<Longrightarrow> map fst rs ! mid < key \<Longrightarrow> page_search page offs key (Suc mid) hi =
        (case bsearch_loop (map fst rs) key (Suc mid) hi of Inl _ \<Rightarrow> None | Inr i \<Rightarrow> Some (snd (rs ! i)))"
      "map fst rs ! mid \<noteq> key \<Longrightarrow> \<not> map fst rs ! mid < key \<Longrightarrow> page_search page offs key lo mid =
        (case bsearch_loop (map fst rs) key lo mid of Inl _ \<Rightarrow> None | Inr i \<Rightarrow> Some (snd (rs ! i)))"
      using 1(1)[OF True mid_def] 1(2)[OF True mid_def] 1(3) mid(2) by simp_all
    show ?thesis unfolding eq bsearch_loop.simps[of _ key lo hi] using True ih by (auto simp: mid_def[symmetric] Let_def)
  qed (simp add: page_search.simps bsearch_loop.simps)
qed

lemma map_of_nth_distinct: "distinct (map fst rs) \<Longrightarrow> i < length rs \<Longrightarrow> map_of rs (fst (rs ! i)) = Some (snd (rs ! i))"
  by (simp add: map_of_eq_Some_iff)

lemma page_lookup_exact:
  assumes "page_holds rs page" "sorted_wrt (<) (map fst rs)"
  shows "decode_page_lookup page key = map_of rs key"
proof -
  have ne: "rs \<noteq> []" using assms(1) by (simp add: page_holds_def)
  have "decode_page_lookup page key = (case bsearch_loop (map fst rs) key 0 (length rs) of Inl _ \<Rightarrow> None | Inr i \<Rightarrow> Some (snd (rs ! i)))"
    using page_reads[OF assms(1)] ne page_search_bsearch[OF assms(1), of "length rs" key 0]
    by (simp add: decode_page_lookup_def Let_def)
  also have "bsearch_loop (map fst rs) key 0 (length rs) = binary_search (map fst rs) key" by (simp add: binary_search_def)
  also have "(case binary_search (map fst rs) key of Inl _ \<Rightarrow> None | Inr i \<Rightarrow> Some (snd (rs ! i))) = map_of rs key"
  proof (cases "binary_search (map fst rs) key")
    case (Inl i)
    then have "key \<notin> set (map fst rs)" using binary_search_found[OF assms(2), of key] by auto
    then have "map_of rs key = None" by (simp add: map_of_eq_None_iff)
    then show ?thesis using Inl by simp
  next
    case (Inr i)
    have "distinct (map fst rs)" using assms(2) by (simp add: strict_sorted_iff)
    then show ?thesis using Inr binary_search_Inr[OF assms(2) Inr] map_of_nth_distinct[of rs i] by auto
  qed
  finally show ?thesis .
qed

lemma page_rows_from:
  assumes "page_holds rs page" "i \<le> length rs"
  shows "page_rows page (drop i (row_offsets (4 + length rs * 4) (map row_bytes rs))) = drop i rs"
  using assms(2)
proof (induction "length rs - i" arbitrary: i)
  case (Suc n)
  then have i: "i < length rs" by simp
  let ?offs = "row_offsets (4 + length rs * 4) (map row_bytes rs)"
  have "drop i ?offs = ?offs ! i # drop (Suc i) ?offs" "drop i rs = rs ! i # drop (Suc i) rs"
    using i by (simp_all add: Cons_nth_drop_Suc)
  moreover have "page_rows page (drop (Suc i) ?offs) = drop (Suc i) rs" using Suc i by simp
  ultimately show ?case using page_row_fields[OF assms(1) i] by (simp add: Let_def)
qed simp

lemma page_iter_exact: "page_holds rs page \<Longrightarrow> decode_page_iter page = rs"
  using page_reads[of rs page] page_rows_from[of rs page 0] by (auto simp: decode_page_iter_def Let_def)

end
