(* ===== verification/Segment.thy ===== *)
theory Segment
  imports Segment_Page Bloom
begin

text \<open>
  The writer of cold segments (\<open>spg-storage/src/segment.rs\<close>, \<open>encode_segment\<close>): rows are packed into
  pages, a row larger than a page gets a page of its own, a page index and a Bloom filter go in front
  and a checksum at the end. A result is \<open>Inl\<close> of an error or \<open>Inr\<close> of the value; a failed \<open>expect\<close>
  is \<open>None\<close>. The two ceilings the filter's constructor computes in floating point are arguments.
\<close>

definition SEGMENT_MAGIC :: bytes where "SEGMENT_MAGIC = [0x53, 0x50, 0x47, 0x53, 0x45, 0x47, 1, 0]"
definition SEGMENT_MAGIC_V2 :: bytes where "SEGMENT_MAGIC_V2 = [0x53, 0x50, 0x47, 0x53, 0x45, 0x47, 2, 0]"
definition SEGMENT_MAGIC_V3 :: bytes where "SEGMENT_MAGIC_V3 = [0x53, 0x50, 0x47, 0x53, 0x45, 0x47, 3, 0]"
definition SEGMENT_MAGIC_V4 :: bytes where "SEGMENT_MAGIC_V4 = [0x53, 0x50, 0x47, 0x53, 0x45, 0x47, 4, 0]"
definition HEADER_FIXED_LEN :: nat where "HEADER_FIXED_LEN = 8 + 4 + 4 + 4 + 8 + 8 + 4"
definition FOOTER_LEN :: nat where "FOOTER_LEN = 4"

lemmas segment_consts = SEGMENT_MAGIC_def SEGMENT_MAGIC_V2_def SEGMENT_MAGIC_V3_def SEGMENT_MAGIC_V4_def
  HEADER_FIXED_LEN_def FOOTER_LEN_def

datatype segment_error =
    TooShort nat nat
  | BadMagic bytes
  | BadShape
  | BadCrc u32 u32
  | BloomError bloom_error
  | UnsortedKey u64 u64
  | KeyNotInPage u64
  | PageOutOfRange u32 u32
  | CompressionDecodeFailed
  | UnknownCompressionAlgo u8

record segment_meta =
  sm_num_rows :: u64
  sm_num_pages :: u32
  sm_page_size_bytes :: u32
  sm_min_pk :: u64
  sm_max_pk :: u64
  sm_total_bytes :: nat

record page_index_entry =
  pi_first_pk :: u64
  pi_file_offset :: u32

section \<open>Writer\<close>

record segment_state =
  ss_bloom :: bloom_filter
  ss_pages :: "bytes list"
  ss_pages_bytes_total :: nat
  ss_page_index :: "page_index_entry list"
  ss_row_bytes_in_page :: "bytes list"
  ss_first_pk_in_page :: "u64 option"
  ss_last_key :: "u64 option"
  ss_min_pk :: "u64 option"
  ss_max_pk :: u64
  ss_total_rows :: u64

definition segment_start :: "bloom_filter \<Rightarrow> segment_state" where
  "segment_start bloom = \<lparr>ss_bloom = bloom, ss_pages = [], ss_pages_bytes_total = 0, ss_page_index = [],
     ss_row_bytes_in_page = [], ss_first_pk_in_page = None, ss_last_key = None, ss_min_pk = None, ss_max_pk = 0, ss_total_rows = 0\<rparr>"

text \<open>One page appended to the region, with its index entry.\<close>

definition push_page :: "u64 \<Rightarrow> bytes list \<Rightarrow> nat \<Rightarrow> segment_state \<Rightarrow> segment_state option" where
  "push_page first_pk rows psize st =
     (if 2 ^ 32 \<le> ss_pages_bytes_total st then None
      else (case serialise_page rows psize of
              None \<Rightarrow> None
            | Some page \<Rightarrow>
                Some (st\<lparr>ss_page_index := ss_page_index st @ [\<lparr>pi_first_pk = first_pk, pi_file_offset = word_of_nat (ss_pages_bytes_total st)\<rparr>],
                         ss_pages_bytes_total := ss_pages_bytes_total st + length page,
                         ss_pages := ss_pages st @ [page]\<rparr>)))"

definition finalise_page :: "nat \<Rightarrow> segment_state \<Rightarrow> segment_state option" where
  "finalise_page psize st =
     (if ss_row_bytes_in_page st = [] then Some st
      else (case ss_first_pk_in_page st of
              None \<Rightarrow> None
            | Some first_pk \<Rightarrow>
                map_option (\<lambda>st1. st1\<lparr>ss_row_bytes_in_page := [], ss_first_pk_in_page := None\<rparr>)
                  (push_page first_pk (ss_row_bytes_in_page st) psize st)))"

definition add_to_page :: "u64 \<Rightarrow> bytes \<Rightarrow> segment_state \<Rightarrow> segment_state" where
  "add_to_page key row st =
     st\<lparr>ss_first_pk_in_page := (case ss_first_pk_in_page st of None \<Rightarrow> Some key | Some pk \<Rightarrow> Some pk),
        ss_row_bytes_in_page := ss_row_bytes_in_page st @ [row]\<rparr>"

text \<open>Where a row goes: into the current page, into a fresh one, or into a jumbo page.\<close>

definition place_row :: "nat \<Rightarrow> u64 \<Rightarrow> bytes \<Rightarrow> segment_state \<Rightarrow> segment_state option" where
  "place_row psize key row st =
     (let proposed_num_rows = length (ss_row_bytes_in_page st) + 1;
          proposed_size = 4 + proposed_num_rows * 4 + (sum_list (map length (ss_row_bytes_in_page st)) + length row)
      in if psize < proposed_size then
           Option.bind (finalise_page psize st) (\<lambda>st1.
             if psize < 4 + 4 + length row then push_page key [row] (4 + 4 + length row) st1
             else Some (add_to_page key row st1))
         else Some (add_to_page key row st))"

definition note_key :: "u64 \<Rightarrow> segment_state \<Rightarrow> segment_state" where
  "note_key key st =
     st\<lparr>ss_last_key := Some key,
        ss_min_pk := (case ss_min_pk st of None \<Rightarrow> Some key | Some pk \<Rightarrow> Some pk),
        ss_max_pk := key,
        ss_total_rows := ss_total_rows st + 1,
        ss_bloom := bf_insert (u64_le key) (ss_bloom st)\<rparr>"

definition unsorted_after :: "u64 option \<Rightarrow> u64 \<Rightarrow> bool" where
  "unsorted_after last_key key = (case last_key of None \<Rightarrow> False | Some prev \<Rightarrow> key \<le> prev)"

definition encode_row :: "nat \<Rightarrow> seg_row \<Rightarrow> segment_state \<Rightarrow> (segment_error + segment_state) option" where
  "encode_row psize r st =
     (if unsorted_after (ss_last_key st) (fst r) then Some (Inl (UnsortedKey (the (ss_last_key st)) (fst r)))
      else if 2 ^ 32 \<le> length (snd r) then Some (Inl BadShape)
      else map_option Inr (place_row psize (fst r) (row_bytes r) (note_key (fst r) st)))"

fun encode_rows :: "nat \<Rightarrow> seg_row list \<Rightarrow> segment_state \<Rightarrow> (segment_error + segment_state) option" where
  "encode_rows psize [] st = Some (Inr st)"
| "encode_rows psize (r # rs) st =
     (case encode_row psize r st of
        None \<Rightarrow> None
      | Some (Inl e) \<Rightarrow> Some (Inl e)
      | Some (Inr st1) \<Rightarrow> encode_rows psize rs st1)"

definition encode_index_entry :: "page_index_entry \<Rightarrow> bytes" where
  "encode_index_entry e = u64_le (pi_first_pk e) @ u32_le (pi_file_offset e)"

definition encode_page_index :: "page_index_entry list \<Rightarrow> bytes option" where
  "encode_page_index index =
     (if 2 ^ 32 \<le> length index then None
      else Some (u32_le (word_of_nat (length index)) @ concat (map encode_index_entry index)))"

definition segment_body :: "u32 \<Rightarrow> u32 \<Rightarrow> u32 \<Rightarrow> u64 \<Rightarrow> u64 \<Rightarrow> bytes \<Rightarrow> bytes \<Rightarrow> bytes list \<Rightarrow> bytes" where
  "segment_body num_rows num_pages page_size_bytes min_pk max_pk bloom_bytes page_index_bytes pages =
     u32_le num_rows @ u32_le num_pages @ u32_le page_size_bytes @ u64_le min_pk @ u64_le max_pk
     @ u32_le (word_of_nat (length bloom_bytes)) @ bloom_bytes
     @ u32_le (word_of_nat (length page_index_bytes)) @ page_index_bytes @ concat pages"

definition assemble_segment :: "u32 \<Rightarrow> segment_state \<Rightarrow> (segment_error + bytes \<times> segment_meta) option" where
  "assemble_segment page_size_bytes st =
     (if 2 ^ 32 \<le> length (ss_pages st) then Some (Inl BadShape)
      else if 2 ^ 32 \<le> unat (ss_total_rows st) then Some (Inl BadShape)
      else (case ss_min_pk st of
              None \<Rightarrow> None
            | Some min_pk \<Rightarrow>
                (let bloom_bytes = bf_to_bytes (ss_bloom st)
                 in case encode_page_index (ss_page_index st) of
                      None \<Rightarrow> None
                    | Some page_index_bytes \<Rightarrow>
                        if 2 ^ 32 \<le> length bloom_bytes \<or> 2 ^ 32 \<le> length page_index_bytes then None
                        else
                          (let num_pages = word_of_nat (length (ss_pages st));
                               body = segment_body (ucast (ss_total_rows st)) num_pages page_size_bytes min_pk (ss_max_pk st)
                                        bloom_bytes page_index_bytes (ss_pages st);
                               out = SEGMENT_MAGIC_V4 @ body @ u32_le (crc32 body)
                           in Some (Inr (out, \<lparr>sm_num_rows = ss_total_rows st, sm_num_pages = num_pages,
                                sm_page_size_bytes = page_size_bytes, sm_min_pk = min_pk, sm_max_pk = ss_max_pk st, sm_total_bytes = length out\<rparr>))))))"

definition encode_segment :: "u64 \<Rightarrow> u64 \<Rightarrow> seg_row list \<Rightarrow> u32 \<Rightarrow> (segment_error + bytes \<times> segment_meta) option" where
  "encode_segment m_ceil k_ceil rows page_size_bytes =
     (if page_size_bytes < 256 \<or> 65536 < page_size_bytes then Some (Inl BadShape)
      else if rows = [] then Some (Inl BadShape)
      else (case encode_rows (unat page_size_bytes) rows (segment_start (with_target_fp_rate m_ceil k_ceil)) of
              None \<Rightarrow> None
            | Some (Inl e) \<Rightarrow> Some (Inl e)
            | Some (Inr st) \<Rightarrow>
                (case finalise_page (unat page_size_bytes) st of
                   None \<Rightarrow> None
                 | Some st1 \<Rightarrow> assemble_segment page_size_bytes st1)))"

section \<open>What the writer keeps\<close>

text \<open>
  The pages written so far as groups of rows with the page that holds them. The index lists, for each
  group, its first key and the place of its page in the region.
\<close>

type_synonym groups = "(seg_row list \<times> bytes) list"

definition group_rows :: "groups \<Rightarrow> seg_row list" where "group_rows gs = concat (map fst gs)"
definition group_pages :: "groups \<Rightarrow> bytes" where "group_pages gs = concat (map snd gs)"

definition page_start :: "groups \<Rightarrow> nat \<Rightarrow> nat" where "page_start gs i = length (group_pages (take i gs))"

definition index_of :: "groups \<Rightarrow> page_index_entry list" where
  "index_of gs = map (\<lambda>i. \<lparr>pi_first_pk = fst (hd (fst (gs ! i))), pi_file_offset = word_of_nat (page_start gs i)\<rparr>) [0..<length gs]"

definition groups_ok :: "groups \<Rightarrow> bool" where
  "groups_ok gs \<longleftrightarrow> (\<forall>g\<in>set gs. page_holds (fst g) (snd g)) \<and> (\<forall>i<length gs. page_start gs i < 2 ^ 32)"

definition key_part :: "bloom_filter \<Rightarrow> seg_row list \<Rightarrow> segment_state \<Rightarrow> bool" where
  "key_part f0 done st \<longleftrightarrow> sorted_wrt (<) (map fst done)
     \<and> ss_last_key st = (if done = [] then None else Some (fst (last done)))
     \<and> ss_min_pk st = (if done = [] then None else Some (fst (hd done)))
     \<and> ss_max_pk st = (if done = [] then 0 else fst (last done))
     \<and> ss_total_rows st = word_of_nat (length done)
     \<and> ss_bloom st = foldl (\<lambda>f k. bf_insert k f) f0 (map (\<lambda>r. u64_le (fst r)) done)"

text \<open>The region never outgrows one page for each row and the rows themselves.\<close>

definition region_bound :: "nat \<Rightarrow> seg_row list \<Rightarrow> nat" where
  "region_bound psize rs = sum_list (map (\<lambda>r. psize + 20 + length (snd r)) rs)"

definition region_part :: "nat \<Rightarrow> groups \<Rightarrow> bool" where
  "region_part psize gs \<longleftrightarrow> length (group_pages gs) \<le> region_bound psize (group_rows gs) \<and> length gs \<le> length (group_rows gs)"

definition written :: "nat \<Rightarrow> groups \<Rightarrow> segment_state \<Rightarrow> bool" where
  "written psize gs st \<longleftrightarrow> groups_ok gs \<and> region_part psize gs
     \<and> ss_pages st = map snd gs \<and> ss_pages_bytes_total st = length (group_pages gs) \<and> ss_page_index st = index_of gs"

definition pending :: "nat \<Rightarrow> seg_row list \<Rightarrow> segment_state \<Rightarrow> bool" where
  "pending psize cur st \<longleftrightarrow> ss_row_bytes_in_page st = map row_bytes cur \<and> (\<forall>r\<in>set cur. length (snd r) < 2 ^ 32)
     \<and> (cur \<noteq> [] \<longrightarrow> natural_size cur \<le> psize) \<and> ss_first_pk_in_page st = (if cur = [] then None else Some (fst (hd cur)))"

definition page_part :: "nat \<Rightarrow> seg_row list \<Rightarrow> segment_state \<Rightarrow> bool" where
  "page_part psize done st \<longleftrightarrow> (\<exists>gs cur. done = group_rows gs @ cur \<and> written psize gs st \<and> pending psize cur st)"

lemma group_simps [simp]: "group_rows [] = []" "group_pages [] = []" "group_rows (gs @ hs) = group_rows gs @ group_rows hs"
  "group_pages (gs @ hs) = group_pages gs @ group_pages hs" "group_rows [g] = fst g" "group_pages [g] = snd g"
  by (simp_all add: group_rows_def group_pages_def)

lemma page_start_snoc: "i \<le> length gs \<Longrightarrow> page_start (gs @ [g]) i = page_start gs i"
  by (simp add: page_start_def)

lemma page_start_full: "page_start gs (length gs) = length (group_pages gs)"
  by (simp add: page_start_def)

lemma index_of_snoc: "index_of (gs @ [g]) = index_of gs @ [\<lparr>pi_first_pk = fst (hd (fst g)), pi_file_offset = word_of_nat (length (group_pages gs))\<rparr>]"
  by (simp add: index_of_def page_start_snoc page_start_full nth_append)

lemma groups_ok_snoc: "groups_ok gs \<Longrightarrow> page_holds (fst g) (snd g) \<Longrightarrow> length (group_pages gs) < 2 ^ 32 \<Longrightarrow> groups_ok (gs @ [g])"
  by (auto simp: groups_ok_def page_start_snoc page_start_full less_Suc_eq)

lemma page_width:
  assumes "serialise_page rows psize = Some page" shows "length page = psize"
  using assms by (auto simp: serialise_page_def Let_def resize_bytes_def split: if_splits)


definition same_keys :: "segment_state \<Rightarrow> segment_state \<Rightarrow> bool" where
  "same_keys st st1 \<longleftrightarrow> ss_last_key st1 = ss_last_key st \<and> ss_min_pk st1 = ss_min_pk st \<and> ss_max_pk st1 = ss_max_pk st \<and> ss_total_rows st1 = ss_total_rows st \<and> ss_bloom st1 = ss_bloom st"

lemma serialise_natural:
  assumes "natural_size rs \<le> n" "n < 2 ^ 32"
  shows "\<exists>page. serialise_page (map row_bytes rs) n = Some page"
proof -
  have "off < 2 ^ 32" if o: "off \<in> set (row_offsets (4 + length rs * 4) (map row_bytes rs))" for off
  proof -
    obtain i where "i < length rs" "off = row_offsets (4 + length rs * 4) (map row_bytes rs) ! i"
      using o by (auto simp: in_set_conv_nth)
    then have i: "off = 4 + length rs * 4 + length (concat (take i (map row_bytes rs)))" by (simp add: nth_row_offsets)
    have "length (concat (take i (map row_bytes rs))) \<le> length (concat (map row_bytes rs))"
      by (metis append_take_drop_id concat_append length_append le_add1)
    also have "\<dots> = sum_list (map (\<lambda>r. length (row_bytes r)) rs)" by (simp add: length_concat comp_def)
    finally show ?thesis using assms i by (simp add: natural_size_def)
  qed
  moreover have "length rs < 2 ^ 32" using assms by (simp add: natural_size_def)
  ultimately show ?thesis by (auto simp: serialise_page_def Let_def list_ex_iff not_le)
qed

lemma region_bound_append [simp]: "region_bound psize (xs @ ys) = region_bound psize xs + region_bound psize ys" "region_bound psize [] = 0"
  by (simp_all add: region_bound_def)

lemma region_bound_page: "rs \<noteq> [] \<Longrightarrow> psize \<le> region_bound psize rs"
  by (cases rs) (simp_all add: region_bound_def)

lemma push_page_written:
  assumes "written psize gs st" "rs \<noteq> []" "\<forall>r\<in>set rs. length (snd r) < 2 ^ 32" "natural_size rs \<le> n" "n \<le> region_bound psize rs"
    and "push_page (fst (hd rs)) (map row_bytes rs) n st = Some st1"
  obtains page where "written psize (gs @ [(rs, page)]) st1"
    "same_keys st st1" "ss_row_bytes_in_page st1 = ss_row_bytes_in_page st" "ss_first_pk_in_page st1 = ss_first_pk_in_page st"
proof -
  obtain page where p: "serialise_page (map row_bytes rs) n = Some page" "ss_pages_bytes_total st < 2 ^ 32"
    "st1 = st\<lparr>ss_page_index := ss_page_index st @ [\<lparr>pi_first_pk = fst (hd rs), pi_file_offset = word_of_nat (ss_pages_bytes_total st)\<rparr>],
       ss_pages_bytes_total := ss_pages_bytes_total st + length page, ss_pages := ss_pages st @ [page]\<rparr>"
    using assms(6) by (auto simp: push_page_def split: if_splits option.splits)
  have w: "groups_ok gs" "region_part psize gs" "ss_pages st = map snd gs" "ss_pages_bytes_total st = length (group_pages gs)" "ss_page_index st = index_of gs"
    using assms(1) by (simp_all add: written_def)
  have "page_holds rs page" using assms(2-4) p(1) by (auto simp: page_holds_def)
  then have "groups_ok (gs @ [(rs, page)])" using groups_ok_snoc[OF w(1), of "(rs, page)"] p(2) w(4) by simp
  moreover have "region_part psize (gs @ [(rs, page)])"
    using w(2) assms(2,5) page_width[OF p(1)] by (cases rs) (auto simp: region_part_def)
  ultimately have "written psize (gs @ [(rs, page)]) st1" by (simp add: written_def p(3) w(3-5) index_of_snoc)
  then show thesis using that[of page] by (simp add: p(3) same_keys_def)
qed

lemma finalise_page_part:
  assumes "page_part psize done st" "finalise_page psize st = Some st1"
  shows "\<exists>gs. done = group_rows gs \<and> written psize gs st1 \<and> pending psize [] st1"
    "same_keys st st1"
proof -
  obtain gs cur where p: "done = group_rows gs @ cur" "written psize gs st" "pending psize cur st" using assms(1) by (auto simp: page_part_def)
  have "(\<exists>gs. done = group_rows gs \<and> written psize gs st1 \<and> pending psize [] st1)
    \<and> same_keys st st1"
  proof (cases "cur = []")
    case False
    then obtain st2 where st2: "push_page (fst (hd cur)) (map row_bytes cur) psize st = Some st2"
      "st1 = st2\<lparr>ss_row_bytes_in_page := [], ss_first_pk_in_page := None\<rparr>"
      using assms(2) p(3) by (auto simp: finalise_page_def pending_def)
    obtain page where page: "written psize (gs @ [(cur, page)]) st2"
      "same_keys st st2" using push_page_written[OF p(2) False _ _ region_bound_page[OF False] st2(1)] p(3) False by (auto simp: pending_def)
    have "written psize (gs @ [(cur, page)]) st1" using page(1) by (simp add: st2(2) written_def)
    moreover have "done = group_rows (gs @ [(cur, page)])" using p(1) by simp
    moreover have "pending psize [] st1" by (simp add: st2(2) pending_def)
    moreover have "same_keys st st1" using page(2) by (simp add: st2(2) same_keys_def)
    ultimately show ?thesis by blast
  qed (use assms(2) p in \<open>auto simp: finalise_page_def pending_def same_keys_def\<close>)
  then show "\<exists>gs. done = group_rows gs \<and> written psize gs st1 \<and> pending psize [] st1"
    "same_keys st st1"
    by blast+
qed


lemma push_page_succeeds:
  assumes "written psize gs st" "natural_size rs \<le> n" "n < 2 ^ 32" "length (group_pages gs) < 2 ^ 32"
  shows "\<exists>st1. push_page pk (map row_bytes rs) n st = Some st1"
  using serialise_natural[OF assms(2,3)] assms(1,4) by (auto simp: push_page_def written_def)

lemma finalise_page_succeeds:
  assumes "page_part psize done st" "region_bound psize done < 2 ^ 32"
  shows "\<exists>st1. finalise_page psize st = Some st1"
proof -
  obtain gs cur where p: "done = group_rows gs @ cur" "written psize gs st" "pending psize cur st" using assms(1) by (auto simp: page_part_def)
  have g: "length (group_pages gs) < 2 ^ 32" using p(1,2) assms(2) by (simp add: written_def region_part_def)
  show ?thesis
  proof (cases "cur = []")
    case False
    have "psize < 2 ^ 32" using region_bound_page[OF False, of psize] assms(2) p(1) by simp
    moreover have "natural_size cur \<le> psize" using p(3) False by (simp add: pending_def)
    ultimately show ?thesis using push_page_succeeds[OF p(2) _ _ g, of cur psize "fst (hd cur)"] p(3) False
      by (auto simp: finalise_page_def pending_def)
  qed (use p(3) in \<open>simp add: finalise_page_def pending_def\<close>)
qed

lemma add_to_page_part:
  assumes "written psize gs st" "pending psize cur st" "natural_size (cur @ [r]) \<le> psize" "length (snd r) < 2 ^ 32"
  shows "page_part psize (group_rows gs @ cur @ [r]) (add_to_page (fst r) (row_bytes r) st)"
  unfolding page_part_def
  by (rule exI[of _ gs], rule exI[of _ "cur @ [r]"]) (use assms in \<open>auto simp: written_def pending_def add_to_page_def\<close>)

lemma natural_size_snoc: "natural_size (cur @ [r]) = 4 + (length cur + 1) * 4 + (sum_list (map length (map row_bytes cur)) + length (row_bytes r))"
  by (simp add: natural_size_def comp_def)

lemma natural_size_single: "natural_size [r] = 4 + 4 + length (row_bytes r)"
  by (simp add: natural_size_def)

lemma same_keys_add [simp]: "same_keys st (add_to_page k row st)"
  by (simp add: same_keys_def add_to_page_def)

lemma place_row_part:
  assumes "page_part psize done st" "length (snd r) < 2 ^ 32" "place_row psize (fst r) (row_bytes r) st = Some st1"
  shows "page_part psize (done @ [r]) st1 \<and> same_keys st st1"
proof -
  obtain gs cur where p: "done = group_rows gs @ cur" "written psize gs st" "pending psize cur st" using assms(1) by (auto simp: page_part_def)
  have rows: "ss_row_bytes_in_page st = map row_bytes cur" using p(3) by (simp add: pending_def)
  show ?thesis
  proof (cases "psize < natural_size (cur @ [r])")
    case False
    then have "st1 = add_to_page (fst r) (row_bytes r) st" using assms(3) natural_size_snoc[of cur r] by (simp add: place_row_def Let_def rows)
    then show ?thesis using add_to_page_part[OF p(2,3) _ assms(2)] False p(1) by simp
  next
    case True
    then obtain st2 where st2: "finalise_page psize st = Some st2"
      "(if psize < 4 + 4 + length (row_bytes r) then push_page (fst r) [row_bytes r] (4 + 4 + length (row_bytes r)) st2 else Some (add_to_page (fst r) (row_bytes r) st2)) = Some st1"
      using assms(3) natural_size_snoc[of cur r] by (auto simp: place_row_def Let_def rows bind_eq_Some_conv)
    obtain hs where hs: "done = group_rows hs" "written psize hs st2" "pending psize [] st2"
      using finalise_page_part(1)[OF assms(1) st2(1)] by blast
    have sk: "same_keys st st2" by (rule finalise_page_part(2)[OF assms(1) st2(1)])
    show ?thesis
    proof (cases "psize < natural_size [r]")
      case True
      then have push: "push_page (fst (hd [r])) (map row_bytes [r]) (natural_size [r]) st2 = Some st1" using st2(2) by (simp add: natural_size_single)
      have "natural_size [r] \<le> region_bound psize [r]" by (simp add: natural_size_def region_bound_def)
      then obtain page where page: "written psize (hs @ [([r], page)]) st1" "same_keys st2 st1"
        "ss_row_bytes_in_page st1 = ss_row_bytes_in_page st2" "ss_first_pk_in_page st1 = ss_first_pk_in_page st2"
        using push_page_written[OF hs(2) _ _ _ _ push] assms(2) by auto
      have "pending psize [] st1" using page(3,4) hs(3) by (simp add: pending_def)
      then have "page_part psize (done @ [r]) st1" unfolding page_part_def
        by (intro exI[of _ "hs @ [([r], page)]"] exI[of _ "[]"]) (use page(1) hs(1) in simp)
      then show ?thesis using sk page(2) by (simp add: same_keys_def)
    next
      case False
      then have "st1 = add_to_page (fst r) (row_bytes r) st2" using st2(2) by (simp add: natural_size_single)
      then show ?thesis using add_to_page_part[OF hs(2,3) _ assms(2)] False hs(1) sk by (simp add: same_keys_def add_to_page_def)
    qed
  qed
qed

lemma place_row_succeeds:
  assumes "page_part psize done st" "region_bound psize (done @ [r]) < 2 ^ 32"
  shows "\<exists>st1. place_row psize (fst r) (row_bytes r) st = Some st1"
proof -
  have rb: "region_bound psize done < 2 ^ 32" using assms(2) by simp
  obtain st2 where st2: "finalise_page psize st = Some st2" using finalise_page_succeeds[OF assms(1) rb] by blast
  obtain hs where hs: "done = group_rows hs" "written psize hs st2" using finalise_page_part(1)[OF assms(1) st2] by blast
  have "natural_size [r] < 2 ^ 32" using assms(2) by (simp add: natural_size_def region_bound_def)
  moreover have "length (group_pages hs) < 2 ^ 32" using hs rb by (simp add: written_def region_part_def)
  ultimately obtain st3 where "push_page (fst r) [row_bytes r] (4 + 4 + length (row_bytes r)) st2 = Some st3"
    using push_page_succeeds[OF hs(2), of "[r]" "natural_size [r]" "fst r"] by (auto simp: natural_size_single)
  then show ?thesis using st2 by (simp add: place_row_def Let_def)
qed

lemma page_part_note [simp]: "page_part psize done (note_key k st) = page_part psize done st"
  by (simp add: page_part_def written_def pending_def note_key_def)


definition writer_inv :: "nat \<Rightarrow> bloom_filter \<Rightarrow> seg_row list \<Rightarrow> segment_state \<Rightarrow> bool" where
  "writer_inv psize f0 done st \<longleftrightarrow> key_part f0 done st \<and> page_part psize done st"

lemma writer_inv_start: "writer_inv psize f0 [] (segment_start f0)"
proof -
  have "written psize [] (segment_start f0)" "pending psize [] (segment_start f0)"
    by (simp_all add: written_def pending_def groups_ok_def region_part_def index_of_def segment_start_def)
  then have "page_part psize [] (segment_start f0)" unfolding page_part_def by (intro exI[of _ "[]"]) simp
  then show ?thesis by (simp add: writer_inv_def key_part_def segment_start_def)
qed

lemma sorted_snoc_last: "sorted_wrt (<) (ks @ [k]) \<longleftrightarrow> sorted_wrt (<) ks \<and> (ks = [] \<or> last ks < (k :: u64))"
proof (cases ks rule: rev_cases)
  case (snoc js j)
  then show ?thesis by (auto simp: sorted_wrt_append)
qed simp

lemma key_part_note:
  assumes "key_part f0 done st" "\<not> unsorted_after (ss_last_key st) k"
  shows "key_part f0 (done @ [(k, v)]) (note_key k st)"
proof (cases "done = []")
  case False
  then have "fst (last done) < k" using assms by (simp add: key_part_def unsorted_after_def)
  then show ?thesis using assms(1) False
    by (simp add: key_part_def note_key_def sorted_snoc_last last_map)
qed (use assms in \<open>simp add: key_part_def note_key_def\<close>)

lemma key_part_same: "key_part f0 done st \<Longrightarrow> same_keys st st1 \<Longrightarrow> key_part f0 done st1"
  by (simp add: key_part_def same_keys_def)

lemma encode_row_inv:
  assumes "writer_inv psize f0 done st" "encode_row psize r st = Some (Inr st1)"
  shows "writer_inv psize f0 (done @ [r]) st1"
proof -
  have e: "\<not> unsorted_after (ss_last_key st) (fst r)" "length (snd r) < 2 ^ 32" "place_row psize (fst r) (row_bytes r) (note_key (fst r) st) = Some st1"
    using assms(2) by (auto simp: encode_row_def split: if_splits)
  have pp: "page_part psize done (note_key (fst r) st)" using assms(1) by (simp add: writer_inv_def)
  have "key_part f0 (done @ [r]) (note_key (fst r) st)"
    using assms(1) e(1) key_part_note[of f0 "done" st "fst r" "snd r"] by (simp add: writer_inv_def)
  then show ?thesis using place_row_part[OF pp e(2,3)] by (auto simp: writer_inv_def elim: key_part_same)
qed

lemma encode_rows_inv: "writer_inv psize f0 done st \<Longrightarrow> encode_rows psize rs st = Some (Inr st1) \<Longrightarrow> writer_inv psize f0 (done @ rs) st1"
proof (induction rs arbitrary: "done" st)
  case (Cons r rs)
  then obtain st2 where "encode_row psize r st = Some (Inr st2)" "encode_rows psize rs st2 = Some (Inr st1)"
    by (auto split: option.splits sum.splits)
  then show ?case using Cons.IH[of "done @ [r]" st2] encode_row_inv[OF Cons.prems(1)] by simp
qed simp

lemma row_below_bound: "r \<in> set rs \<Longrightarrow> length (snd r) \<le> region_bound psize rs"
  by (induction rs) (auto simp: region_bound_def)

lemma encode_row_succeeds:
  assumes "writer_inv psize f0 done st" "sorted_wrt (<) (map fst (done @ [r]))" "region_bound psize (done @ [r]) < 2 ^ 32"
  shows "\<exists>st1. encode_row psize r st = Some (Inr st1)"
proof -
  have pp: "page_part psize done (note_key (fst r) st)" using assms(1) by (simp add: writer_inv_def)
  have "ss_last_key st = (if done = [] then None else Some (fst (last done)))" using assms(1) by (simp add: writer_inv_def key_part_def)
  then have "\<not> unsorted_after (ss_last_key st) (fst r)"
    using assms(2) by (auto simp: unsorted_after_def sorted_snoc_last last_map)
  moreover have "\<not> 2 ^ 32 \<le> length (snd r)" using assms(3) row_below_bound[of r "done @ [r]" psize] by simp
  ultimately show ?thesis using place_row_succeeds[OF pp assms(3)] by (auto simp: encode_row_def)
qed

lemma encode_rows_succeed:
  "writer_inv psize f0 done st \<Longrightarrow> sorted_wrt (<) (map fst (done @ rs)) \<Longrightarrow> region_bound psize (done @ rs) < 2 ^ 32
    \<Longrightarrow> \<exists>st1. encode_rows psize rs st = Some (Inr st1)"
proof (induction rs arbitrary: "done" st)
  case (Cons r rs)
  have s: "sorted_wrt (<) (map fst (done @ [r]))" "region_bound psize (done @ [r]) < 2 ^ 32"
    using Cons.prems(2,3) by (auto simp: sorted_wrt_append region_bound_def)
  obtain st2 where st2: "encode_row psize r st = Some (Inr st2)" using encode_row_succeeds[OF Cons.prems(1) s] by blast
  then show ?case using Cons.IH[OF encode_row_inv[OF Cons.prems(1) st2]] Cons.prems(2,3) by simp
qed simp

lemma encode_rows_append:
  "encode_rows psize (xs @ ys) st = (case encode_rows psize xs st of Some (Inr st1) \<Rightarrow> encode_rows psize ys st1 | r \<Rightarrow> r)"
proof (induction xs arbitrary: st)
  case (Cons x xs)
  show ?case by (cases "encode_row psize x st") (auto simp: Cons.IH split: sum.split)
qed simp

text \<open>The first key that does not ascend is reported with its predecessor.\<close>

lemma encode_unsorted:
  assumes "xs \<noteq> []" "sorted_wrt (<) (map fst xs)" "fst r \<le> fst (last xs)" "region_bound (unat ps) xs < 2 ^ 32" "256 \<le> ps" "ps \<le> 65536"
  shows "encode_segment m k (xs @ r # ys) ps = Some (Inl (UnsortedKey (fst (last xs)) (fst r)))"
proof -
  let ?f0 = "with_target_fp_rate m k"
  obtain st where st: "encode_rows (unat ps) xs (segment_start ?f0) = Some (Inr st)"
    using encode_rows_succeed[OF writer_inv_start, of xs "unat ps"] assms(2,4) by auto
  have "writer_inv (unat ps) ?f0 xs st" using encode_rows_inv[OF writer_inv_start st] by simp
  then have "ss_last_key st = Some (fst (last xs))" using assms(1) by (simp add: writer_inv_def key_part_def)
  then show ?thesis using assms(3,5,6) by (simp add: encode_segment_def not_less encode_rows_append st encode_row_def unsorted_after_def)
qed


section \<open>The file a successful call returns\<close>

definition segment_form :: "u32 \<Rightarrow> seg_row list \<Rightarrow> groups \<Rightarrow> bloom_filter \<Rightarrow> bytes \<Rightarrow> bytes \<Rightarrow> segment_meta \<Rightarrow> bool" where
  "segment_form ps rows gs f ib out meta \<longleftrightarrow>
     (let body = segment_body (word_of_nat (length rows)) (word_of_nat (length gs)) ps (fst (hd rows)) (fst (last rows)) (bf_to_bytes f) ib (map snd gs)
      in rows = group_rows gs \<and> rows \<noteq> [] \<and> groups_ok gs \<and> sorted_wrt (<) (map fst rows) \<and> length gs < 2 ^ 32
        \<and> bf_ok f \<and> (\<forall>r\<in>set rows. bf_contains f (u64_le (fst r))) \<and> length (bf_to_bytes f) < 2 ^ 32
        \<and> encode_page_index (index_of gs) = Some ib \<and> length ib < 2 ^ 32
        \<and> out = SEGMENT_MAGIC_V4 @ body @ u32_le (crc32 body)
        \<and> meta = \<lparr>sm_num_rows = word_of_nat (length rows), sm_num_pages = word_of_nat (length gs), sm_page_size_bytes = ps,
            sm_min_pk = fst (hd rows), sm_max_pk = fst (last rows), sm_total_bytes = length out\<rparr>
        \<and> unat (word_of_nat (length rows) :: u64) < 2 ^ 32)"

lemma len64: "(2 :: nat) ^ LENGTH(64) = 2 ^ 64" by simp

lemma segment_formD:
  assumes "segment_form ps rows gs f ib out meta"
  defines "body \<equiv> segment_body (word_of_nat (length rows)) (word_of_nat (length gs)) ps (fst (hd rows)) (fst (last rows)) (bf_to_bytes f) ib (map snd gs)"
  shows "rows = group_rows gs" "rows \<noteq> []" "groups_ok gs" "sorted_wrt (<) (map fst rows)" "length gs < 2 ^ 32"
    "bf_ok f" "\<forall>r\<in>set rows. bf_contains f (u64_le (fst r))" "length (bf_to_bytes f) < 2 ^ 32"
    "encode_page_index (index_of gs) = Some ib" "length ib < 2 ^ 32" "out = SEGMENT_MAGIC_V4 @ body @ u32_le (crc32 body)"
    "meta = \<lparr>sm_num_rows = word_of_nat (length rows), sm_num_pages = word_of_nat (length gs), sm_page_size_bytes = ps,
            sm_min_pk = fst (hd rows), sm_max_pk = fst (last rows), sm_total_bytes = length out\<rparr>"
    "length rows < 2 ^ 64 \<Longrightarrow> length rows < 2 ^ 32"
  using assms(1) unfolding segment_form_def Let_def body_def by (blast+, metis mod_less unat_of_nat len64)

lemma narrow_count: "ucast (word_of_nat n :: u64) = (word_of_nat n :: u32)"
  by (simp add: unsigned_of_nat word_of_nat_eq_iff)

lemma length_bits_inserted: "length (bf_bits (foldl (\<lambda>f k. bf_insert k f) f ks)) = length (bf_bits f)"
  by (induction ks arbitrary: f) simp_all

lemma encode_segment_form:
  assumes "encode_segment m k rows ps = Some (Inr (out, meta))" "unat m < 2 ^ 63"
  shows "\<exists>gs f ib. segment_form ps rows gs f ib out meta \<and> region_part (unat ps) gs \<and> bf_encoded_len f = bf_encoded_len (with_target_fp_rate m k)"
proof -
  let ?f0 = "with_target_fp_rate m k"
  obtain st st1 where e: "rows \<noteq> []" "encode_rows (unat ps) rows (segment_start ?f0) = Some (Inr st)"
    "finalise_page (unat ps) st = Some st1" "assemble_segment ps st1 = Some (Inr (out, meta))"
    using assms(1) by (auto simp: encode_segment_def split: if_splits option.splits sum.splits)
  have inv: "key_part ?f0 rows st" "page_part (unat ps) rows st" using encode_rows_inv[OF writer_inv_start e(2)] by (simp_all add: writer_inv_def)
  obtain gs where gs: "rows = group_rows gs" "written (unat ps) gs st1" using finalise_page_part(1)[OF inv(2) e(3)] by blast
  have kp: "key_part ?f0 rows st1" by (rule key_part_same[OF inv(1) finalise_page_part(2)[OF inv(2) e(3)]])
  have bl: "ss_bloom st1 = foldl (\<lambda>f k. bf_insert k f) ?f0 (map (\<lambda>r. u64_le (fst r)) rows)" using kp by (simp add: key_part_def)
  have ok: "bf_ok (ss_bloom st1)" "\<forall>r\<in>set rows. bf_contains (ss_bloom st1) (u64_le (fst r))"
    using no_false_negative[OF constructor_ok[OF assms(2)], of k "map (\<lambda>r. u64_le (fst r)) rows"] unfolding bl by auto
  have w: "groups_ok gs" "ss_pages st1 = map snd gs" "ss_page_index st1 = index_of gs" using gs(2) by (simp_all add: written_def)
  have kf: "ss_min_pk st1 = Some (fst (hd rows))" "ss_max_pk st1 = fst (last rows)" "ss_total_rows st1 = word_of_nat (length rows)" "sorted_wrt (<) (map fst rows)"
    using kp e(1) by (simp_all add: key_part_def)
  obtain ib where ib: "encode_page_index (index_of gs) = Some ib" using e(4) by (auto simp: assemble_segment_def kf w Let_def split: if_splits option.splits)
  have b: "length gs < 2 ^ 32" "unat (word_of_nat (length rows) :: u64) < 2 ^ 32" "length (bf_to_bytes (ss_bloom st1)) < 2 ^ 32" "length ib < 2 ^ 32"
    using e(4) by (auto simp: assemble_segment_def kf w ib Let_def split: if_splits)
  have "segment_form ps rows gs (ss_bloom st1) ib out meta" unfolding segment_form_def Let_def
    using e(4) b w(1) gs(1) e(1) kf(4) ok ib narrow_count[of "length rows"] by (auto simp: assemble_segment_def kf(1-3) w(2,3) ib Let_def)
  moreover have "region_part (unat ps) gs" using gs(2) by (simp add: written_def)
  moreover have "bf_encoded_len (ss_bloom st1) = bf_encoded_len ?f0" by (simp add: bl bf_encoded_len_def length_bits_inserted)
  ultimately show ?thesis by blast
qed

lemma encode_segment_succeeds:
  assumes "rows \<noteq> []" "sorted_wrt (<) (map fst rows)" "256 \<le> ps" "ps \<le> 65536" "region_bound (unat ps) rows < 2 ^ 32"
    and "unat m < 2 ^ 63" "bf_encoded_len (with_target_fp_rate m k) < 2 ^ 32"
  shows "\<exists>out meta. encode_segment m k rows ps = Some (Inr (out, meta))"
proof -
  let ?f0 = "with_target_fp_rate m k"
  obtain st where st: "encode_rows (unat ps) rows (segment_start ?f0) = Some (Inr st)"
    using encode_rows_succeed[OF writer_inv_start, of rows "unat ps"] assms(2,5) by auto
  have inv: "key_part ?f0 rows st" "page_part (unat ps) rows st" using encode_rows_inv[OF writer_inv_start st] by (simp_all add: writer_inv_def)
  obtain st1 where st1: "finalise_page (unat ps) st = Some st1" using finalise_page_succeeds[OF inv(2) assms(5)] by blast
  obtain gs where gs: "rows = group_rows gs" "written (unat ps) gs st1" using finalise_page_part(1)[OF inv(2) st1] by blast
  have kp: "key_part ?f0 rows st1" by (rule key_part_same[OF inv(1) finalise_page_part(2)[OF inv(2) st1]])
  have n: "16 * length rows \<le> region_bound (unat ps) rows" by (induction rows) (simp_all add: region_bound_def)
  have g: "length gs \<le> length rows" "ss_pages st1 = map snd gs" "ss_page_index st1 = index_of gs" using gs by (simp_all add: written_def region_part_def)
  have ib: "encode_page_index (index_of gs) = Some (u32_le (word_of_nat (length gs)) @ concat (map encode_index_entry (index_of gs)))"
    "length (concat (map encode_index_entry (index_of gs))) = 12 * length gs"
    using g(1) n assms(5) by (simp_all add: encode_page_index_def index_of_def length_concat comp_def encode_index_entry_def sum_list_triv)
  have "ss_bloom st1 = foldl (\<lambda>f k. bf_insert k f) ?f0 (map (\<lambda>r. u64_le (fst r)) rows)" using kp by (simp add: key_part_def)
  then have bl: "length (bf_to_bytes (ss_bloom st1)) < 2 ^ 32" using assms(7)
    by (simp add: bf_to_bytes_def Let_def length_words bf_encoded_len_def length_bits_inserted)
  have t: "unat (word_of_nat (length rows) :: u64) < 2 ^ 32" using n assms(5) by (simp add: unsigned_of_nat take_bit_eq_mod)
  have "ss_min_pk st1 = Some (fst (hd rows))" "ss_total_rows st1 = word_of_nat (length rows)" using kp assms(1) by (simp_all add: key_part_def)
  then have "\<exists>out meta. assemble_segment ps st1 = Some (Inr (out, meta))"
    using bl ib t g n assms(5) by (auto simp: assemble_segment_def Let_def not_le)
  then show ?thesis using assms(1,3,4) st st1 by (simp add: encode_segment_def not_less)
qed

end
