(* ===== verification/Segment_Read.thy ===== *)
theory Segment_Read
  imports Segment
begin

text \<open>
  The reader of cold segments (\<open>spg-storage/src/segment.rs\<close>): header, filter and page index are parsed
  and checked once, a lookup probes the filter, the index and one page, a scan walks the pages. A slice
  whose start lies behind its end panics: \<open>None\<close>.
\<close>

record segment_metadata =
  sd_meta :: segment_meta
  sd_bloom :: bloom_filter
  sd_page_index :: "page_index_entry list"
  sd_codec_version :: u8
  sd_pages_start_offset :: nat

section \<open>Parsing\<close>

definition read_index_entry :: "bytes \<Rightarrow> nat \<Rightarrow> page_index_entry" where
  "read_index_entry input off = \<lparr>pi_first_pk = le_u64 (slice input off (off + 8)), pi_file_offset = le_u32 (slice input (off + 8) (off + 12))\<rparr>"

definition parse_page_index :: "bytes \<Rightarrow> segment_error + page_index_entry list" where
  "parse_page_index input =
     (if length input < 4 then Inl BadShape
      else
        (let count = unat (le_u32 (slice input 0 4));
             expected = 4 + count * 12
         in if length input \<noteq> expected then Inl BadShape
            else Inr (map (\<lambda>i. read_index_entry input (4 + i * 12)) [0..<count])))"

definition codec_of_magic :: "bytes \<Rightarrow> u8 option" where
  "codec_of_magic magic =
     (if magic = SEGMENT_MAGIC_V4 then Some 47 else if magic = SEGMENT_MAGIC_V3 then Some 46 else if magic = SEGMENT_MAGIC then Some 0 else None)"

definition lift_bloom :: "bloom_error + 'a \<Rightarrow> segment_error + 'a" where
  "lift_bloom r = (case r of Inl e \<Rightarrow> Inl (BloomError e) | Inr x \<Rightarrow> Inr x)"

text \<open>The checks on the page region and the checksum, once the header has been read.\<close>

definition check_region :: "bytes \<Rightarrow> u8 \<Rightarrow> u32 \<Rightarrow> u32 \<Rightarrow> page_index_entry list \<Rightarrow> nat \<Rightarrow> segment_error + unit" where
  "check_region bs codec_version num_pages page_size_bytes page_index pages_start_offset =
     (let pages_total_bytes = unat num_pages * unat page_size_bytes;
          expected_total = pages_start_offset + pages_total_bytes + FOOTER_LEN;
          exact_len_applies = (codec_version = 0)
      in if length bs < pages_start_offset + FOOTER_LEN
            \<or> list_ex (\<lambda>e. length bs - FOOTER_LEN < pages_start_offset + unat (pi_file_offset e)) page_index
         then Inl BadShape
         else if exact_len_applies \<and> length bs \<noteq> expected_total then Inl BadShape
         else
           (let stored_crc_off = length bs - FOOTER_LEN;
                stored_crc = le_u32 (slice bs stored_crc_off (stored_crc_off + 4));
                computed_crc = crc32 (slice bs 8 stored_crc_off)
            in if computed_crc \<noteq> stored_crc then Inl (BadCrc stored_crc computed_crc) else Inr ()))"

definition parse_segment_metadata :: "bytes \<Rightarrow> segment_error + segment_metadata" where
  "parse_segment_metadata bs =
     (if length bs < HEADER_FIXED_LEN + FOOTER_LEN then Inl (TooShort (length bs) (HEADER_FIXED_LEN + FOOTER_LEN))
      else (case codec_of_magic (take 8 bs) of
              None \<Rightarrow> Inl (BadMagic (take 8 bs))
            | Some codec_version \<Rightarrow>
                (let num_rows = le_u32 (slice bs 8 12);
                     num_pages = le_u32 (slice bs 12 16);
                     page_size_bytes = le_u32 (slice bs 16 20);
                     min_pk = le_u64 (slice bs 20 28);
                     max_pk = le_u64 (slice bs 28 36);
                     bloom_len = unat (le_u32 (slice bs 36 40));
                     bloom_offset = HEADER_FIXED_LEN
                 in if length bs < bloom_offset + bloom_len + 4 then Inl (TooShort (length bs) (bloom_offset + bloom_len + 4))
                    else and_then (lift_bloom (bf_from_bytes (slice bs bloom_offset (bloom_offset + bloom_len)))) (\<lambda>bloom.
                      let page_index_len_off = bloom_offset + bloom_len;
                          page_index_len = unat (le_u32 (slice bs page_index_len_off (page_index_len_off + 4)));
                          page_index_off = page_index_len_off + 4
                      in if length bs < page_index_off + page_index_len then Inl (TooShort (length bs) (page_index_off + page_index_len))
                         else and_then (parse_page_index (slice bs page_index_off (page_index_off + page_index_len))) (\<lambda>page_index.
                           let pages_start_offset = page_index_off + page_index_len
                           in and_then (check_region bs codec_version num_pages page_size_bytes page_index pages_start_offset) (\<lambda>_.
                                Inr \<lparr>sd_meta = \<lparr>sm_num_rows = ucast num_rows, sm_num_pages = num_pages, sm_page_size_bytes = page_size_bytes,
                                        sm_min_pk = min_pk, sm_max_pk = max_pk, sm_total_bytes = length bs\<rparr>,
                                     sd_bloom = bloom, sd_page_index = page_index, sd_codec_version = codec_version,
                                     sd_pages_start_offset = pages_start_offset\<rparr>))))))"

section \<open>Lookup and scan\<close>

definition segment_might_contain :: "segment_metadata \<Rightarrow> u64 \<Rightarrow> bool" where
  "segment_might_contain md key =
     (if key < sm_min_pk (sd_meta md) \<or> sm_max_pk (sd_meta md) < key then False
      else bf_contains (sd_bloom md) (u64_le key))"

definition page_end_of :: "segment_metadata \<Rightarrow> bytes \<Rightarrow> nat \<Rightarrow> nat" where
  "page_end_of md bs i =
     (case slice_get (sd_page_index md) (i + 1) of
        Some e \<Rightarrow> sd_pages_start_offset md + unat (pi_file_offset e)
      | None \<Rightarrow> length bs - FOOTER_LEN)"

definition segment_lookup :: "segment_metadata \<Rightarrow> bytes \<Rightarrow> u64 \<Rightarrow> bytes option" where
  "segment_lookup md bs key =
     (if \<not> segment_might_contain md key then None
      else
        (let candidate = (case binary_search (map pi_first_pk (sd_page_index md)) key of
                            Inr i \<Rightarrow> Some i
                          | Inl 0 \<Rightarrow> None
                          | Inl (Suc i) \<Rightarrow> Some i)
         in case candidate of
              None \<Rightarrow> None
            | Some i \<Rightarrow>
                (let page_off = sd_pages_start_offset md + unat (pi_file_offset (sd_page_index md ! i));
                     page_end = page_end_of md bs i
                 in if length bs - FOOTER_LEN < page_end \<or> page_end \<le> page_off then None
                    else decode_page_lookup (slice bs page_off page_end) key)))"

fun scan_pages :: "segment_metadata \<Rightarrow> bytes \<Rightarrow> nat list \<Rightarrow> seg_row list option" where
  "scan_pages md bs [] = Some []"
| "scan_pages md bs (i # is) =
     (let pages_end = length bs - FOOTER_LEN;
          off = sd_pages_start_offset md + unat (pi_file_offset (sd_page_index md ! i));
          page_end = min (page_end_of md bs i) pages_end
      in if page_end < off then None
         else map_option ((@) (decode_page_iter (slice bs off page_end))) (scan_pages md bs is))"

definition segment_scan :: "segment_metadata \<Rightarrow> bytes \<Rightarrow> seg_row list option" where
  "segment_scan md bs = scan_pages md bs [0..<length (sd_page_index md)]"

section \<open>A written file is read back\<close>

lemma index_entry_at:
  "i < length es \<Longrightarrow> read_index_entry (u32_le c @ concat (map encode_index_entry es)) (4 + i * 12) = es ! i"
proof (induction es arbitrary: i c)
  case (Cons e es)
  have e: "length (encode_index_entry e) = 12" by (simp add: encode_index_entry_def)
  show ?case
  proof (cases i)
    case 0
    then show ?thesis by (simp add: read_index_entry_def slice_def encode_index_entry_def)
  next
    case (Suc j)
    have "read_index_entry (u32_le c @ concat (map encode_index_entry (e # es))) (4 + i * 12) = read_index_entry (u32_le c @ concat (map encode_index_entry es)) (4 + j * 12)"
      by (simp add: Suc read_index_entry_def slice_def e add.commute)
    then show ?thesis using Cons Suc by simp
  qed
qed simp

lemma page_index_roundtrip:
  assumes "encode_page_index es = Some ib"
  shows "parse_page_index ib = Inr es"
proof -
  have ib: "ib = u32_le (word_of_nat (length es)) @ concat (map encode_index_entry es)" "length es < 2 ^ 32"
    using assms by (auto simp: encode_page_index_def split: if_splits)
  have "length ib = 4 + length es * 12" by (simp add: ib(1) length_concat comp_def encode_index_entry_def sum_list_triv)
  moreover have "unat (le_u32 (slice ib 0 4)) = length es" using ib(2) by (simp add: ib(1) slice_def unat_of_nat)
  moreover have "map (\<lambda>i. read_index_entry ib (4 + i * 12)) [0..<length es] = es"
    by (rule nth_equalityI) (simp_all add: ib(1) index_entry_at)
  ultimately show ?thesis by (simp add: parse_page_index_def Let_def)
qed

definition parsed_form :: "segment_meta \<Rightarrow> groups \<Rightarrow> bloom_filter \<Rightarrow> bytes \<Rightarrow> segment_metadata" where
  "parsed_form meta gs f ib =
     \<lparr>sd_meta = meta, sd_bloom = f, sd_page_index = index_of gs, sd_codec_version = 47,
      sd_pages_start_offset = 44 + length (bf_to_bytes f) + length ib\<rparr>"

lemma crc_at_end: "slice (pre @ u32_le c) (length pre) (length pre + 4) = u32_le c"
  by (simp add: slice_def)

lemma page_start_le: "page_start gs i \<le> length (group_pages gs)"
  unfolding page_start_def by (metis append_take_drop_id group_simps(4) le_add1 length_append)

lemma parse_written:
  assumes "segment_form ps rows gs f ib out meta" "length rows < 2 ^ 64"
  shows "parse_segment_metadata out = Inr (parsed_form meta gs f ib)"
    "out = take (44 + length (bf_to_bytes f) + length ib) out @ group_pages gs @ drop (length out - 4) out" "length out = 48 + length (bf_to_bytes f) + length ib + length (group_pages gs)"
proof -
  note F = segment_formD[OF assms(1)]
  define B where "B = bf_to_bytes f"
  define body where "body = segment_body (word_of_nat (length rows)) (word_of_nat (length gs)) ps (fst (hd rows)) (fst (last rows)) (bf_to_bytes f) ib (map snd gs)"
  have out: "out = SEGMENT_MAGIC_V4 @ body @ u32_le (crc32 body)" using F(11) by (simp add: body_def)
  have ob: "out = SEGMENT_MAGIC_V4 @ u32_le (word_of_nat (length rows)) @ u32_le (word_of_nat (length gs)) @ u32_le ps @ u64_le (fst (hd rows)) @ u64_le (fst (last rows))
     @ u32_le (word_of_nat (length B)) @ B @ u32_le (word_of_nat (length ib)) @ ib @ group_pages gs @ u32_le (crc32 body)"
    by (simp add: out, simp add: body_def segment_body_def group_pages_def B_def)
  have m: "length SEGMENT_MAGIC_V4 = 8" by (simp add: SEGMENT_MAGIC_V4_def)
  show len: "length out = 48 + length (bf_to_bytes f) + length ib + length (group_pages gs)" by (simp add: ob m B_def)
  show "out = take (44 + length (bf_to_bytes f) + length ib) out @ group_pages gs @ drop (length out - 4) out"
    by (simp add: len, simp add: ob m B_def)
  have t: "take 8 out = SEGMENT_MAGIC_V4" by (simp add: out m)
  have s: "slice out 8 12 = u32_le (word_of_nat (length rows))" "slice out 12 16 = u32_le (word_of_nat (length gs))" "slice out 16 20 = u32_le ps"
    "slice out 20 28 = u64_le (fst (hd rows))" "slice out 28 36 = u64_le (fst (last rows))" "slice out 36 40 = u32_le (word_of_nat (length B))"
    "slice out 40 (40 + length B) = B" "slice out (40 + length B) (44 + length B) = u32_le (word_of_nat (length ib))"
    "slice out (44 + length B) (44 + length B + length ib) = ib"
    by (simp_all add: ob slice_def m)
  have c: "slice out 8 (length out - 4) = body" "slice out (length out - 4) (length out) = u32_le (crc32 body)"
    by (simp_all add: out slice_def m)
  have "unat (word_of_nat (page_start gs i) :: u32) = page_start gs i" if "i < length gs" for i
    using F(3) that by (simp add: groups_ok_def unat_of_nat)
  then have i: "\<not> list_ex (\<lambda>e. length out - 4 < 44 + length B + length ib + unat (pi_file_offset e)) (index_of gs)"
    by (auto simp: list_ex_iff index_of_def len B_def not_less page_start_le)
  have "check_region out 47 (word_of_nat (length gs)) ps (index_of gs) (44 + length B + length ib) = Inr ()"
    using i c len by (simp add: check_region_def Let_def FOOTER_LEN_def B_def add.assoc)
  moreover have "codec_of_magic SEGMENT_MAGIC_V4 = Some 47" by (simp add: codec_of_magic_def)
  moreover have "bf_from_bytes B = Inr f" using bloom_roundtrip(1)[OF F(6)] by (simp add: B_def)
  moreover have "parse_page_index ib = Inr (index_of gs)" by (rule page_index_roundtrip[OF F(9)])
  moreover have "unat (word_of_nat (length B) :: u32) = length B" "unat (word_of_nat (length ib) :: u32) = length ib"
    using F(8,10) by (simp_all add: B_def unat_of_nat)
  moreover have "(ucast (word_of_nat (length rows) :: u32) :: u64) = word_of_nat (length rows)"
    using F(13)[OF assms(2)] by (simp add: unsigned_of_nat take_bit_eq_mod)
  ultimately show "parse_segment_metadata out = Inr (parsed_form meta gs f ib)"
    unfolding parse_segment_metadata_def t by (simp add: s[unfolded B_def] Let_def len B_def HEADER_FIXED_LEN_def FOOTER_LEN_def lift_bloom_def parsed_form_def F(12))
qed


lemma page_start_Suc: "i < length gs \<Longrightarrow> page_start gs (Suc i) = page_start gs i + length (snd (gs ! i))"
  by (simp add: page_start_def take_Suc_conv_app_nth)

lemma page_at:
  assumes "i < length gs"
  shows "slice (pre @ group_pages gs @ post) (length pre + page_start gs i) (length pre + page_start gs (Suc i)) = snd (gs ! i)"
proof -
  have "group_pages gs = group_pages (take i gs) @ snd (gs ! i) @ group_pages (drop (Suc i) gs)"
    using id_take_nth_drop[OF assms] group_simps(4,6) by (metis append_Cons append_Nil)
  then have "pre @ group_pages gs @ post = (pre @ group_pages (take i gs)) @ snd (gs ! i) @ (group_pages (drop (Suc i) gs) @ post)" by simp
  moreover have "length (pre @ group_pages (take i gs)) = length pre + page_start gs i" by (simp add: page_start_def)
  ultimately show ?thesis using page_start_Suc[OF assms] by (metis slice_append add.assoc)
qed

lemma index_of_nth [simp]: "i < length gs \<Longrightarrow> index_of gs ! i = \<lparr>pi_first_pk = fst (hd (fst (gs ! i))), pi_file_offset = word_of_nat (page_start gs i)\<rparr>"
  by (simp add: index_of_def)

lemma length_index_of [simp]: "length (index_of gs) = length gs"
  by (simp add: index_of_def)

lemma page_nonempty: "page_holds rs page \<Longrightarrow> 0 < length page"
  using page_reads(1)[of rs page] by (cases page) simp_all

lemma page_bounds:
  assumes "segment_form ps rows gs f ib out meta" "length rows < 2 ^ 64" "i < length gs"
  defines "md \<equiv> parsed_form meta gs f ib"
  defines "off \<equiv> sd_pages_start_offset md + unat (pi_file_offset (sd_page_index md ! i))"
  shows "off < page_end_of md out i" "page_end_of md out i \<le> length out - FOOTER_LEN" "slice out off (page_end_of md out i) = snd (gs ! i)"
proof -
  note F = segment_formD[OF assms(1)] and W = parse_written[OF assms(1,2)]
  define S where "S = 44 + length (bf_to_bytes f) + length ib"
  have small: "page_start gs j < 2 ^ 32" if "j < length gs" for j using F(3) that by (simp add: groups_ok_def)
  have off: "off = S + page_start gs i" using assms(3) small by (simp add: off_def md_def parsed_form_def S_def unat_of_nat)
  have pend: "page_end_of md out i = S + page_start gs (Suc i)"
  proof (cases "Suc i < length gs")
    case True
    then show ?thesis using small[OF True] by (simp add: page_end_of_def slice_get_def md_def parsed_form_def S_def unat_of_nat)
  next
    case False
    then have "Suc i = length gs" using assms(3) by simp
    then show ?thesis using False W(3) page_start_full[of gs] by (simp add: page_end_of_def slice_get_def md_def parsed_form_def S_def FOOTER_LEN_def)
  qed
  have "gs ! i \<in> set gs" using assms(3) by simp
  then show "off < page_end_of md out i" using page_nonempty[of "fst (gs ! i)" "snd (gs ! i)"] F(3)
    by (simp add: off pend page_start_Suc[OF assms(3)] groups_ok_def)
  show "page_end_of md out i \<le> length out - FOOTER_LEN" using page_start_le[of gs "Suc i"] W(3) by (simp add: pend S_def FOOTER_LEN_def)
  have "length (take S out) = S" using W(3) by (simp add: S_def)
  then show "slice out off (page_end_of md out i) = snd (gs ! i)"
    using page_at[OF assms(3), of "take S out" "drop (length out - 4) out"] W(2) by (simp add: off pend S_def)
qed

section \<open>Scan\<close>

lemma scan_pages_exact:
  assumes "segment_form ps rows gs f ib out meta" "length rows < 2 ^ 64" "i \<le> length gs"
  shows "scan_pages (parsed_form meta gs f ib) out [i..<length gs] = Some (group_rows (drop i gs))"
  using assms(3)
proof (induction "length gs - i" arbitrary: i)
  case (Suc n)
  then have i: "i < length gs" by simp
  note B = page_bounds[OF assms(1,2) i]
  have ih: "scan_pages (parsed_form meta gs f ib) out [Suc i..<length gs] = Some (group_rows (drop (Suc i) gs))" using Suc i by simp
  have "page_holds (fst (gs ! i)) (snd (gs ! i))" using segment_formD(3)[OF assms(1)] i by (simp add: groups_ok_def)
  then have it: "decode_page_iter (snd (gs ! i)) = fst (gs ! i)" by (rule page_iter_exact)
  have r: "group_rows (drop i gs) = fst (gs ! i) @ group_rows (drop (Suc i) gs)"
    using i by (simp add: group_rows_def Cons_nth_drop_Suc[symmetric])
  show ?case using B ih unfolding upt_conv_Cons[OF i] r by (simp add: Let_def min_absorb1 it)
qed (simp add: group_rows_def)

lemma scan_written:
  assumes "segment_form ps rows gs f ib out meta" "length rows < 2 ^ 64"
  shows "segment_scan (parsed_form meta gs f ib) out = Some rows"
  using scan_pages_exact[OF assms, of 0] segment_formD(1)[OF assms(1)] by (simp add: segment_scan_def parsed_form_def)


section \<open>Lookup\<close>

definition ascending :: "groups \<Rightarrow> bool" where
  "ascending gs \<longleftrightarrow> sorted_wrt (\<lambda>g h. \<forall>r\<in>set (fst g). \<forall>r'\<in>set (fst h). fst r < fst r') gs \<and> (\<forall>g\<in>set gs. fst g \<noteq> [] \<and> sorted_wrt (<) (map fst (fst g)))"

lemma group_rows_Cons: "group_rows (g # gs) = fst g @ group_rows gs"
  by (simp add: group_rows_def)

lemma set_group_rows: "set (group_rows gs) = (\<Union>g\<in>set gs. set (fst g))"
  by (simp add: group_rows_def)

lemma ascending_groups:
  assumes "sorted_wrt (<) (map fst (group_rows gs))" "groups_ok gs"
  shows "ascending gs"
proof -
  have "\<forall>g\<in>set gs. fst g \<noteq> []" using assms(2) by (simp add: groups_ok_def page_holds_def)
  with assms(1) show ?thesis
    by (induction gs) (auto simp: ascending_def group_rows_Cons sorted_wrt_append set_group_rows)
qed

lemma in_group_between:
  assumes "ascending gs" "i < length gs" "fst (hd (fst (gs ! i))) \<le> key" "Suc i < length gs \<Longrightarrow> key < fst (hd (fst (gs ! Suc i)))"
  shows "map_of (group_rows gs) key = map_of (fst (gs ! i)) key"
proof -
  have split: "group_rows gs = group_rows (take i gs) @ fst (gs ! i) @ group_rows (drop (Suc i) gs)"
    using id_take_nth_drop[OF assms(2)] by (metis group_simps(3) group_rows_Cons)
  have hd_in: "hd (fst (gs ! j)) \<in> set (fst (gs ! j))" if "j < length gs" for j using assms(1) that by (simp add: ascending_def)
  have sep: "fst r < fst r'" if "j < k" "k < length gs" "r \<in> set (fst (gs ! j))" "r' \<in> set (fst (gs ! k))" for j k r r'
    using assms(1) that sorted_wrt_nth_less unfolding ascending_def by blast
  have low: "fst r < key" if r: "r \<in> set (group_rows (take i gs))" for r
  proof -
    obtain g where g: "g \<in> set (take i gs)" "r \<in> set (fst g)" using r by (auto simp: set_group_rows)
    obtain j where j: "j < i" "j < length gs" "g = gs ! j" using g(1) by (auto simp: in_set_conv_nth)
    have "fst r < fst (hd (fst (gs ! i)))" by (rule sep[OF j(1) assms(2) _ hd_in[OF assms(2)]]) (use g(2) j(3) in simp)
    then show ?thesis using assms(3) by (rule less_le_trans)
  qed
  have high: "key < fst r" if r: "r \<in> set (group_rows (drop (Suc i) gs))" for r
  proof -
    obtain g where g: "g \<in> set (drop (Suc i) gs)" "r \<in> set (fst g)" using r by (auto simp: set_group_rows)
    then obtain d where "d < length gs - Suc i" "g = gs ! (Suc i + d)" by (auto simp: in_set_conv_nth)
    then obtain j where j: "Suc i \<le> j" "j < length gs" "r \<in> set (fst (gs ! j))" using g(2) by (metis le_add1 less_diff_conv add.commute)
    have "fst (hd (fst (gs ! Suc i))) \<le> fst r"
    proof (cases "j = Suc i")
      case True
      have so: "sorted_wrt (<) (map fst (fst (gs ! j)))" using assms(1) j(2) by (simp add: ascending_def)
      then show ?thesis using j(3) True by (cases "fst (gs ! j)") auto
    next
      case False
      then show ?thesis using sep[of "Suc i" j "hd (fst (gs ! Suc i))" r] j hd_in[of "Suc i"] by simp
    qed
    then show ?thesis using assms(4) j(1,2) by (meson le_less_trans less_le_trans)
  qed
  have "map_of (group_rows (take i gs)) key = None" "map_of (group_rows (drop (Suc i) gs)) key = None"
    using low high by (force simp: map_of_eq_None_iff)+
  then show ?thesis by (simp add: split map_add_def split: option.split)
qed

lemma before_groups:
  assumes "ascending gs" "\<forall>i<length gs. key < fst (hd (fst (gs ! i)))"
  shows "map_of (group_rows gs) key = None"
proof -
  have "key < fst r" if "r \<in> set (fst g)" "g \<in> set gs" for g r
  proof -
    have "key < fst (hd (fst g))" "fst g \<noteq> []" "sorted_wrt (<) (map fst (fst g))" using assms that(2) by (auto simp: in_set_conv_nth ascending_def)
    then show ?thesis using that(1) by (cases "fst g") auto
  qed
  then show ?thesis by (force simp: map_of_eq_None_iff set_group_rows)
qed

lemma firsts_sorted:
  assumes "ascending gs"
  shows "sorted_wrt (<) (map (\<lambda>g. fst (hd (fst g))) gs)"
  proof -
  have "fst (hd (fst (gs ! i))) < fst (hd (fst (gs ! j)))" if "i < j" "j < length gs" for i j
  proof -
    have "fst (gs ! i) \<noteq> []" "fst (gs ! j) \<noteq> []" using assms that by (simp_all add: ascending_def)
    then have "hd (fst (gs ! i)) \<in> set (fst (gs ! i))" "hd (fst (gs ! j)) \<in> set (fst (gs ! j))" by simp_all
    then show ?thesis using assms that sorted_wrt_nth_less[of _ gs i j] unfolding ascending_def by blast
  qed
  then show ?thesis by (simp add: sorted_wrt_iff_nth_less)
qed

lemma index_keys: "map pi_first_pk (index_of gs) = map (\<lambda>g. fst (hd (fst g))) gs"
  by (rule nth_equalityI) simp_all

lemma might_contain_written:
  assumes "segment_form ps rows gs f ib out meta" "key \<in> fst ` set rows"
  shows "segment_might_contain (parsed_form meta gs f ib) key"
proof -
  note F = segment_formD[OF assms(1)]
  have "fst (hd rows) \<le> key" using F(2,4) assms(2) by (cases rows) auto
  moreover have "key \<le> fst (last rows)" using F(2,4) assms(2) by (cases rows rule: rev_cases) (auto simp: sorted_wrt_append)
  moreover have "bf_contains f (u64_le key)" using F(7) assms(2) by auto
  ultimately show ?thesis by (simp add: segment_might_contain_def parsed_form_def F(12) not_less)
qed

lemma lookup_written:
  assumes "segment_form ps rows gs f ib out meta" "length rows < 2 ^ 64"
  shows "segment_lookup (parsed_form meta gs f ib) out key = map_of rows key"
proof (cases "segment_might_contain (parsed_form meta gs f ib) key")
  case False
  then have "key \<notin> fst ` set rows" using might_contain_written[OF assms(1), of key] by blast
  then have "map_of rows key = None" by (simp add: map_of_eq_None_iff)
  then show ?thesis using False by (simp add: segment_lookup_def)
next
  case True
  note F = segment_formD[OF assms(1)]
  let ?md = "parsed_form meta gs f ib" and ?fs = "map (\<lambda>g. fst (hd (fst g))) gs"
  have asc: "ascending gs" by (rule ascending_groups) (use F(1,3,4) in simp_all)
  note fs = firsts_sorted[OF asc]
  have page: "(let page_off = sd_pages_start_offset ?md + unat (pi_file_offset (sd_page_index ?md ! i)); page_end = page_end_of ?md out i
      in if length out - FOOTER_LEN < page_end \<or> page_end \<le> page_off then None else decode_page_lookup (slice out page_off page_end) key) = map_of rows key"
    if i: "i < length gs" "?fs ! i \<le> key" "Suc i < length gs \<Longrightarrow> key < ?fs ! Suc i" for i
  proof -
    have "page_holds (fst (gs ! i)) (snd (gs ! i))" "sorted_wrt (<) (map fst (fst (gs ! i)))"
      using F(3) asc i(1) by (simp_all add: groups_ok_def ascending_def)
    then have "decode_page_lookup (snd (gs ! i)) key = map_of (fst (gs ! i)) key" by (rule page_lookup_exact)
    then show ?thesis using page_bounds[OF assms i(1)] in_group_between[OF asc i(1)] i F(1) by (simp add: Let_def not_less not_le)
  qed
  have ix: "map pi_first_pk (sd_page_index ?md) = ?fs" by (simp add: parsed_form_def index_keys)
  show ?thesis
  proof (cases "binary_search ?fs key")
    case (Inr i)
    then have "i < length gs" "?fs ! i = key" using binary_search_Inr[OF fs Inr] by simp_all
    moreover have "key < ?fs ! Suc i" if "Suc i < length gs" using sorted_wrt_nth_less[OF fs, of i "Suc i"] that calculation by simp
    ultimately show ?thesis using page[of i] True Inr by (simp only: segment_lookup_def ix) simp
  next
    case (Inl j)
    note b = binary_search_Inl[OF fs Inl]
    show ?thesis
    proof (cases j)
      case 0
      then have "map_of rows key = None" using before_groups[OF asc, of key] b F(1) by simp
      then show ?thesis using True Inl 0 by (simp only: segment_lookup_def ix) simp
    next
      case (Suc i)
      then show ?thesis using page[of i] b True Inl by (simp only: segment_lookup_def ix) (auto simp: less_imp_le)
    qed
  qed
qed


section \<open>Damage\<close>

lemma accepted_crc:
  assumes "parse_segment_metadata bs = Inr md"
  shows "44 \<le> length bs" "le_u32 (drop (length bs - 4) bs) = crc_spec POLY (slice bs 8 (length bs - 4))"
proof -
  show l: "44 \<le> length bs" using assms by (auto simp: parse_segment_metadata_def HEADER_FIXED_LEN_def FOOTER_LEN_def split: if_splits)
  obtain cv np ps pix so where "check_region bs cv np ps pix so = Inr ()"
    using assms by (auto simp: parse_segment_metadata_def Let_def and_then_Inr split: if_splits option.splits)
  then have "le_u32 (slice bs (length bs - 4) (length bs - 4 + 4)) = crc32 (slice bs 8 (length bs - 4))"
    by (auto simp: check_region_def Let_def FOOTER_LEN_def split: if_splits)
  moreover have "slice bs (length bs - 4) (length bs - 4 + 4) = drop (length bs - 4) bs" using l by (simp add: slice_def)
  ultimately show "le_u32 (drop (length bs - 4) bs) = crc_spec POLY (slice bs 8 (length bs - 4))" by (simp add: crc32_def crc_with_spec)
qed

lemma damage_rejected:
  assumes "parse_segment_metadata (pre @ x @ post) = Inr md" "8 \<le> length pre" "length x = length y" "length x \<le> 4" "x \<noteq> y"
  shows "\<exists>e. parse_segment_metadata (pre @ y @ post) = Inl e"
proof (cases "parse_segment_metadata (pre @ y @ post)")
  case (Inr md')
  let ?o = "pre @ x @ post" and ?d = "pre @ y @ post"
  have l: "length ?d = length ?o" using assms(3) by simp
  have p: "slice bs 8 (length bs - 4) @ drop (length bs - 4) bs = drop 8 bs" if "44 \<le> length bs" for bs :: bytes
  proof -
    have "drop (length bs - 4) bs = drop (length bs - 4 - 8) (drop 8 bs)" using that by simp
    then show ?thesis unfolding slice_def by (simp only: append_take_drop_id)
  qed
  note A = accepted_crc[OF assms(1)] and B = accepted_crc[OF Inr]
  have "drop 8 ?o = drop 8 pre @ x @ post" "drop 8 ?d = drop 8 pre @ y @ post" using assms(2) by simp_all
  then have "le_u32 (drop (length ?d - 4) ?d) \<noteq> crc_spec POLY (slice ?d 8 (length ?d - 4))"
    using sealed_burst[of POLY "drop (length ?o - 4) ?o" "drop (length ?d - 4) ?d" "slice ?o 8 (length ?o - 4)" "drop 8 pre" x post "slice ?d 8 (length ?d - 4)" y]
      p[OF A(1)] p[OF B(1)] A B assms(3-5) by (simp del: drop_append)
  then show ?thesis using B(2) by simp
qed simp

end
