(* ===== verification/Segment_Envelope.thy ===== *)
theory Segment_Envelope
  imports Segment_Read Lzss
begin

text \<open>
  Around the segment codec (\<open>spg-storage/src/segment.rs\<close>): the two readers, the compression envelope
  with its sidecar of key ranges, and the derivation of those ranges. A failed \<open>expect\<close> is \<open>None\<close>.
\<close>

definition BRIN_SIDECAR_MAGIC :: bytes where "BRIN_SIDECAR_MAGIC = [0x42, 0x52, 0x49, 0x4E]"
definition SEGMENT_V2_HEADER_LEN :: nat where "SEGMENT_V2_HEADER_LEN = 8 + 1 + 4"
definition SEGMENT_COMPRESS_ALGO_NONE :: u8 where "SEGMENT_COMPRESS_ALGO_NONE = 0"
definition SEGMENT_COMPRESS_ALGO_LZSS :: u8 where "SEGMENT_COMPRESS_ALGO_LZSS = 1"

lemmas envelope_consts = BRIN_SIDECAR_MAGIC_def SEGMENT_V2_HEADER_LEN_def SEGMENT_COMPRESS_ALGO_NONE_def SEGMENT_COMPRESS_ALGO_LZSS_def

record brin_summary =
  bs_page_index :: u32
  bs_min_key :: u64
  bs_max_key :: u64

section \<open>Envelope\<close>

definition wrap_v2_envelope :: "bytes \<Rightarrow> bool \<Rightarrow> bytes option" where
  "wrap_v2_envelope v1_bytes compress_flag =
     (if \<not> compress_flag then Some v1_bytes
      else (case compress v1_bytes of
              None \<Rightarrow> None
            | Some compressed \<Rightarrow>
                if length v1_bytes \<le> length compressed + SEGMENT_V2_HEADER_LEN then Some v1_bytes
                else if 2 ^ 32 \<le> length v1_bytes then None
                else Some (SEGMENT_MAGIC_V2 @ [SEGMENT_COMPRESS_ALGO_LZSS] @ u32_le (word_of_nat (length v1_bytes)) @ compressed)))"

definition encode_summary :: "brin_summary \<Rightarrow> bytes" where
  "encode_summary s = u32_le (bs_page_index s) @ u64_le (bs_min_key s) @ u64_le (bs_max_key s)"

definition wrap_v2_envelope_with_brin :: "bytes \<Rightarrow> brin_summary list \<Rightarrow> bool \<Rightarrow> bytes option" where
  "wrap_v2_envelope_with_brin v1_bytes summaries compress_flag =
     (if summaries = [] then wrap_v2_envelope v1_bytes compress_flag
      else if 2 ^ 32 \<le> length summaries then None
      else
        (let inner = BRIN_SIDECAR_MAGIC @ u32_le (word_of_nat (length summaries)) @ concat (map encode_summary summaries) @ v1_bytes
         in wrap_v2_envelope inner compress_flag))"

definition read_summary :: "bytes \<Rightarrow> nat \<Rightarrow> brin_summary" where
  "read_summary decoded off =
     \<lparr>bs_page_index = le_u32 (slice decoded off (off + 4)), bs_min_key = le_u64 (slice decoded (off + 4) (off + 12)),
      bs_max_key = le_u64 (slice decoded (off + 12) (off + 20))\<rparr>"

definition parse_brin_sidecar_then_v1 :: "bytes \<Rightarrow> segment_error + bytes \<times> brin_summary list" where
  "parse_brin_sidecar_then_v1 decoded =
     (if length decoded < 8 then Inl BadShape
      else
        (let n_summaries = unat (le_u32 (slice decoded 4 8));
             summaries_end = 8 + n_summaries * 20
         in if length decoded < summaries_end then Inl BadShape
            else Inr (drop summaries_end decoded, map (\<lambda>i. read_summary decoded (8 + i * 20)) [0..<n_summaries])))"

definition decode_inner :: "u8 \<Rightarrow> nat \<Rightarrow> bytes \<Rightarrow> segment_error + bytes" where
  "decode_inner algo inner_len inner =
     (if algo = SEGMENT_COMPRESS_ALGO_NONE then (if length inner \<noteq> inner_len then Inl BadShape else Inr inner)
      else if algo = SEGMENT_COMPRESS_ALGO_LZSS then
        (case decompress inner of
           Inl e \<Rightarrow> Inl CompressionDecodeFailed
         | Inr decompressed \<Rightarrow> if length decompressed \<noteq> inner_len then Inl BadShape else Inr decompressed)
      else Inl (UnknownCompressionAlgo algo))"

definition unwrap_v2_envelope :: "bytes \<Rightarrow> segment_error + bytes \<times> brin_summary list" where
  "unwrap_v2_envelope bs =
     (if length bs < 8 \<or> take 8 bs \<noteq> SEGMENT_MAGIC_V2 then Inr (bs, [])
      else if length bs < SEGMENT_V2_HEADER_LEN then Inl (TooShort (length bs) SEGMENT_V2_HEADER_LEN)
      else and_then (decode_inner (bs ! 8) (unat (le_u32 (slice bs 9 13))) (drop SEGMENT_V2_HEADER_LEN bs)) (\<lambda>decoded.
        if 4 \<le> length decoded \<and> take 4 decoded = BRIN_SIDECAR_MAGIC then parse_brin_sidecar_then_v1 decoded
        else Inr (decoded, [])))"

section \<open>Readers\<close>

record segment_reader =
  sr_bytes :: bytes
  sr_metadata :: segment_metadata

record owned_segment =
  og_bytes :: bytes
  og_metadata :: segment_metadata
  og_brin_summaries :: "brin_summary list"

definition reader_open :: "bytes \<Rightarrow> segment_error + segment_reader" where
  "reader_open bs =
     (if 8 \<le> length bs \<and> take 8 bs = SEGMENT_MAGIC_V2 then Inl BadShape
      else and_then (parse_segment_metadata bs) (\<lambda>md. Inr \<lparr>sr_bytes = bs, sr_metadata = md\<rparr>))"

definition reader_lookup :: "segment_reader \<Rightarrow> u64 \<Rightarrow> bytes option" where
  "reader_lookup rd key = segment_lookup (sr_metadata rd) (sr_bytes rd) key"

definition reader_scan :: "segment_reader \<Rightarrow> seg_row list option" where
  "reader_scan rd = segment_scan (sr_metadata rd) (sr_bytes rd)"

definition owned_from_bytes :: "bytes \<Rightarrow> segment_error + owned_segment" where
  "owned_from_bytes bs =
     and_then (unwrap_v2_envelope bs) (\<lambda>(v1, brin).
       and_then (parse_segment_metadata v1) (\<lambda>md. Inr \<lparr>og_bytes = v1, og_metadata = md, og_brin_summaries = brin\<rparr>))"

definition owned_might_contain :: "owned_segment \<Rightarrow> u64 \<Rightarrow> bool" where
  "owned_might_contain sg key = segment_might_contain (og_metadata sg) key"

definition owned_lookup :: "owned_segment \<Rightarrow> u64 \<Rightarrow> bytes option" where
  "owned_lookup sg key = segment_lookup (og_metadata sg) (og_bytes sg) key"

definition owned_scan :: "owned_segment \<Rightarrow> seg_row list option" where
  "owned_scan sg = segment_scan (og_metadata sg) (og_bytes sg)"

section \<open>Key ranges of the pages\<close>

text \<open>The inner loop advances to the page of the key; the index of the next page is checked by the slice access.\<close>

function brin_advance :: "u64 list \<Rightarrow> nat \<Rightarrow> u64 \<Rightarrow> nat \<Rightarrow> nat option" where
  "brin_advance page_starts num_pages key cur =
     (if cur + 1 < num_pages then
        (case slice_get page_starts (cur + 1) of
           None \<Rightarrow> None
         | Some p \<Rightarrow> if p \<le> key then brin_advance page_starts num_pages key (cur + 1) else Some cur)
      else Some cur)"
  by pat_completeness auto
termination
  by (relation "measure (\<lambda>(_, n, _, cur). n - cur)") auto

declare brin_advance.simps [simp del]

fun brin_loop :: "u64 list \<Rightarrow> nat \<Rightarrow> u64 list \<Rightarrow> u64 option list \<Rightarrow> u64 option list \<Rightarrow> nat \<Rightarrow> (u64 option list \<times> u64 option list) option" where
  "brin_loop page_starts num_pages [] mins maxs cur = Some (mins, maxs)"
| "brin_loop page_starts num_pages (key # keys) mins maxs cur =
     (case brin_advance page_starts num_pages key cur of
        None \<Rightarrow> None
      | Some p \<Rightarrow>
          brin_loop page_starts num_pages keys
            (if mins ! p = None then mins[p := Some key] else mins) (maxs[p := Some key]) p)"

definition derive_brin_summaries :: "bytes \<Rightarrow> (segment_error + brin_summary list) option" where
  "derive_brin_summaries v1_bytes =
     (case reader_open v1_bytes of
        Inl e \<Rightarrow> Some (Inl e)
      | Inr rd \<Rightarrow>
          (let num_pages = unat (sm_num_pages (sd_meta (sr_metadata rd)))
           in if num_pages = 0 then Some (Inr [])
              else (case reader_scan rd of
                      None \<Rightarrow> None
                    | Some rows \<Rightarrow>
                        (case brin_loop (map pi_first_pk (sd_page_index (sr_metadata rd))) num_pages (map fst rows)
                                (replicate num_pages None) (replicate num_pages None) 0 of
                           None \<Rightarrow> None
                         | Some (mins, maxs) \<Rightarrow>
                             Some (Inr (concat (map (\<lambda>p. case (mins ! p, maxs ! p) of
                                 (Some mn, Some mx) \<Rightarrow> [\<lparr>bs_page_index = word_of_nat p, bs_min_key = mn, bs_max_key = mx\<rparr>]
                               | _ \<Rightarrow> []) [0..<num_pages])))))))"


section \<open>Wrapping and unwrapping\<close>

lemma envelope_opens:
  assumes "compress v1 = Some z" "decompress z = Inr v1" "length v1 < 2 ^ 32"
  defines "w \<equiv> SEGMENT_MAGIC_V2 @ [SEGMENT_COMPRESS_ALGO_LZSS] @ u32_le (word_of_nat (length v1)) @ z"
  shows "unwrap_v2_envelope w = (if 4 \<le> length v1 \<and> take 4 v1 = BRIN_SIDECAR_MAGIC then parse_brin_sidecar_then_v1 v1 else Inr (v1, []))"
proof -
  have l: "length SEGMENT_MAGIC_V2 = 8" by (simp add: SEGMENT_MAGIC_V2_def)
  have "take 8 w = SEGMENT_MAGIC_V2" "\<not> length w < 13" "w ! 8 = SEGMENT_COMPRESS_ALGO_LZSS" "slice w 9 13 = u32_le (word_of_nat (length v1))" "drop 13 w = z"
    by (simp_all add: w_def l slice_def nth_append)
  moreover have "decode_inner SEGMENT_COMPRESS_ALGO_LZSS (length v1) z = Inr v1"
    using assms(2) by (simp add: decode_inner_def envelope_consts)
  moreover have "unat (word_of_nat (length v1) :: u32) = length v1" using assms(3) by (simp add: unat_of_nat)
  ultimately show ?thesis unfolding unwrap_v2_envelope_def by (simp add: SEGMENT_V2_HEADER_LEN_def)
qed

lemma wrap_cases:
  assumes "length v1 < 2 ^ 32"
  obtains "wrap_v2_envelope v1 c = Some v1" | z where "c" "compress v1 = Some z" "decompress z = Inr v1" "length z + 13 < length v1"
    "wrap_v2_envelope v1 c = Some (SEGMENT_MAGIC_V2 @ [SEGMENT_COMPRESS_ALGO_LZSS] @ u32_le (word_of_nat (length v1)) @ z)"
proof -
  obtain z where z: "compress v1 = Some z" "decompress z = Inr v1" using compress_decodes[OF assms] by blast
  show thesis
  proof (cases "c \<and> length z + 13 < length v1")
    case True
    then have "wrap_v2_envelope v1 c = Some (SEGMENT_MAGIC_V2 @ [SEGMENT_COMPRESS_ALGO_LZSS] @ u32_le (word_of_nat (length v1)) @ z)"
      using z(1) assms unfolding wrap_v2_envelope_def by (simp add: SEGMENT_V2_HEADER_LEN_def)
    then show thesis using that(2) z True by blast
  next
    case False
    then have "wrap_v2_envelope v1 c = Some v1" using z(1) unfolding wrap_v2_envelope_def by (auto simp: SEGMENT_V2_HEADER_LEN_def)
    then show thesis by (rule that(1))
  qed
qed

lemma wrap_roundtrip:
  assumes "length v1 < 2 ^ 32" "take 8 v1 = SEGMENT_MAGIC_V4"
  shows "\<exists>w. wrap_v2_envelope v1 c = Some w \<and> unwrap_v2_envelope w = Inr (v1, [])"
proof -
  have ne: "take 8 v1 \<noteq> SEGMENT_MAGIC_V2" using assms(2) by (simp add: segment_consts)
  have "take 4 v1 = take 4 (take 8 v1)" by simp
  then have nb: "take 4 v1 \<noteq> BRIN_SIDECAR_MAGIC" unfolding assms(2) by (simp add: segment_consts envelope_consts)
  show ?thesis
  proof (cases rule: wrap_cases[OF assms(1), of c])
    case 1
    then show ?thesis using ne by (simp add: unwrap_v2_envelope_def)
  next
    case (2 z)
    then show ?thesis using envelope_opens[OF 2(2,3) assms(1)] nb by simp
  qed
qed

lemma summary_at:
  "i < length ss \<Longrightarrow> read_summary (h @ concat (map encode_summary ss) @ rest) (length h + i * 20) = ss ! i"
proof (induction ss arbitrary: i h)
  case (Cons e ss)
  have e: "length (encode_summary e) = 20" by (simp add: encode_summary_def)
  show ?case
  proof (cases i)
    case 0
    then show ?thesis by (simp add: read_summary_def slice_def encode_summary_def)
  next
    case (Suc j)
    then show ?thesis using Cons.IH[of j "h @ encode_summary e"] Cons.prems e by (simp add: add.assoc)
  qed
qed simp

lemma sidecar_roundtrip:
  assumes "length ss < 2 ^ 32"
  shows "parse_brin_sidecar_then_v1 (BRIN_SIDECAR_MAGIC @ u32_le (word_of_nat (length ss)) @ concat (map encode_summary ss) @ v1) = Inr (v1, ss)"
proof -
  let ?d = "BRIN_SIDECAR_MAGIC @ u32_le (word_of_nat (length ss)) @ concat (map encode_summary ss) @ v1"
  have m: "length BRIN_SIDECAR_MAGIC = 4" by (simp add: BRIN_SIDECAR_MAGIC_def)
  have c: "length (concat (map encode_summary ss)) = length ss * 20" by (simp add: length_concat comp_def encode_summary_def sum_list_triv)
  have n: "unat (le_u32 (slice ?d 4 8)) = length ss" using assms by (simp add: slice_def m unat_of_nat)
  have "map (\<lambda>i. read_summary ?d (8 + i * 20)) [0..<length ss] = ss"
    by (rule nth_equalityI) (use summary_at[of _ ss "BRIN_SIDECAR_MAGIC @ u32_le (word_of_nat (length ss))" v1] in \<open>simp_all add: m\<close>)
  moreover have "drop (8 + length ss * 20) ?d = v1" by (simp add: m c)
  moreover have "\<not> length ?d < 8 + length ss * 20" by (simp add: m c)
  ultimately show ?thesis unfolding parse_brin_sidecar_then_v1_def n by simp
qed

text \<open>With a sidecar, the envelope gives back both parts when it compressed; otherwise the bytes have no magic a reader knows.\<close>

lemma brin_envelope:
  assumes "ss \<noteq> []" "length v1 + 8 + length ss * 20 < 2 ^ 32" "wrap_v2_envelope_with_brin v1 ss c = Some w"
  shows "(take 8 w = SEGMENT_MAGIC_V2 \<and> unwrap_v2_envelope w = Inr (v1, ss))
    \<or> (take 4 w = BRIN_SIDECAR_MAGIC \<and> (36 \<le> length v1 \<longrightarrow> owned_from_bytes w = Inl (BadMagic (take 8 w))))"
proof -
  let ?inner = "BRIN_SIDECAR_MAGIC @ u32_le (word_of_nat (length ss)) @ concat (map encode_summary ss) @ v1"
  have n: "length ss < 2 ^ 32" using assms(2) by simp
  have m: "length BRIN_SIDECAR_MAGIC = 4" by (simp add: BRIN_SIDECAR_MAGIC_def)
  have li: "length ?inner = length v1 + 8 + length ss * 20" by (simp add: m length_concat comp_def encode_summary_def sum_list_triv)
  have l: "length ?inner < 2 ^ 32" using assms(2) by (simp only: li)
  have w: "wrap_v2_envelope ?inner c = Some w" using assms(1,3) n by (simp add: wrap_v2_envelope_with_brin_def Let_def)
  show ?thesis
  proof (cases rule: wrap_cases[OF l, of c])
    case 1
    then have wi: "w = ?inner" using w by simp
    then have t4: "take 4 w = BRIN_SIDECAR_MAGIC" by (simp add: m)
    have t48: "take 4 (take 8 w) = BRIN_SIDECAR_MAGIC" using t4 by simp
    have t8: "take 8 w \<noteq> SEGMENT_MAGIC_V2" "codec_of_magic (take 8 w) = None"
      by (rule notI, use t48 in \<open>simp add: segment_consts envelope_consts del: take_take\<close>)
        (use t48 in \<open>auto simp: codec_of_magic_def segment_consts envelope_consts simp del: take_take\<close>)
    have "parse_segment_metadata w = Inl (BadMagic (take 8 w))" if "36 \<le> length v1"
      using that t8(2) wi li assms(1) by (cases ss) (simp_all add: parse_segment_metadata_def HEADER_FIXED_LEN_def FOOTER_LEN_def)
    then have "36 \<le> length v1 \<longrightarrow> owned_from_bytes w = Inl (BadMagic (take 8 w))"
      using t8(1) by (simp add: owned_from_bytes_def unwrap_v2_envelope_def)
    then show ?thesis using t4 by blast
  next
    case (2 z)
    then have "unwrap_v2_envelope w = Inr (v1, ss)" using envelope_opens[OF 2(2,3) l] w sidecar_roundtrip[OF n, of v1] by (simp add: m)
    moreover have "take 8 w = SEGMENT_MAGIC_V2" using 2(5) w by (simp add: SEGMENT_MAGIC_V2_def)
    ultimately show ?thesis by blast
  qed
qed


section \<open>The derived key ranges\<close>

abbreviation firsts :: "groups \<Rightarrow> u64 list" where "firsts gs \<equiv> map (\<lambda>g. fst (hd (fst g))) gs"

lemma first_below_key:
  assumes "ascending gs" "p < length gs" "r \<in> set (fst (gs ! p))" "q \<le> p"
  shows "firsts gs ! q \<le> fst r"
proof -
  have q: "hd (fst (gs ! q)) \<in> set (fst (gs ! q))" using assms(1,2,4) by (simp add: ascending_def)
  show ?thesis
  proof (cases "q = p")
    case True
    have "sorted_wrt (<) (map fst (fst (gs ! p)))" using assms(1,2) by (simp add: ascending_def)
    then show ?thesis using assms(2,3) True by (cases "fst (gs ! p)") auto
  next
    case False
    then have "q < p" using assms(4) by simp
    then show ?thesis using assms(1-3) q sorted_wrt_nth_less[of _ gs q p] unfolding ascending_def by (fastforce intro: less_imp_le)
  qed
qed

lemma key_below_next:
  assumes "ascending gs" "Suc p < length gs" "r \<in> set (fst (gs ! p))"
  shows "fst r < firsts gs ! Suc p"
proof -
  have "hd (fst (gs ! Suc p)) \<in> set (fst (gs ! Suc p))" using assms(1,2) by (simp add: ascending_def)
  then show ?thesis using assms sorted_wrt_nth_less[of _ gs p "Suc p"] unfolding ascending_def by fastforce
qed

lemma brin_advance_to:
  assumes "ascending gs" "p < length gs" "r \<in> set (fst (gs ! p))" "cur \<le> p"
  shows "brin_advance (firsts gs) (length gs) (fst r) cur = Some p"
  using assms(4)
proof (induction "p - cur" arbitrary: cur)
  case 0
  then have "cur = p" by simp
  then show ?case using key_below_next[OF assms(1) _ assms(3)] by (subst brin_advance.simps) (auto simp: slice_get_def not_le)
next
  case (Suc n)
  then have lt: "cur < p" by simp
  then have "firsts gs ! Suc cur \<le> fst r" using first_below_key[OF assms(1-3), of "Suc cur"] by simp
  then show ?case using lt assms(2) Suc.hyps(1)[of "Suc cur"] Suc.hyps(2) by (subst brin_advance.simps) (simp add: slice_get_def)
qed

lemma brin_loop_group:
  assumes "ascending gs" "p < length gs" "set rs \<subseteq> set (fst (gs ! p))" "rs \<noteq> []" "cur \<le> p" "p < length mins" "length mins = length maxs"
  shows "brin_loop (firsts gs) (length gs) (map fst rs @ keys) mins maxs cur =
    brin_loop (firsts gs) (length gs) keys (if mins ! p = None then mins[p := Some (fst (hd rs))] else mins) (maxs[p := Some (fst (last rs))]) p"
  using assms(3-7)
proof (induction rs arbitrary: cur mins maxs)
  case (Cons r rs)
  have adv: "brin_advance (firsts gs) (length gs) (fst r) cur = Some p"
    using brin_advance_to[OF assms(1,2) _ Cons.prems(3)] Cons.prems(1) by simp
  show ?case
  proof (cases "rs = []")
    case False
    let ?mins = "if mins ! p = None then mins[p := Some (fst r)] else mins" and ?maxs = "maxs[p := Some (fst r)]"
    have "?mins ! p \<noteq> None" using Cons.prems(4) by (cases "mins ! p = None") simp_all
    then show ?thesis using adv False Cons.IH[of p ?mins ?maxs] Cons.prems by simp
  qed (simp add: adv)
qed simp

definition first_of :: "groups \<Rightarrow> nat \<Rightarrow> u64 option" where "first_of gs q = Some (fst (hd (fst (gs ! q))))"
definition last_of :: "groups \<Rightarrow> nat \<Rightarrow> u64 option" where "last_of gs q = Some (fst (last (fst (gs ! q))))"

lemma fill_slot: "p < n \<Longrightarrow> (map f [0..<p] @ replicate (n - p) None)[p := f p] = map f [0..<Suc p] @ replicate (n - Suc p) None"
  by (cases "n - p") (simp_all add: list_update_append)

lemma brin_loop_groups:
  assumes "ascending gs" "p \<le> length gs" "cur \<le> p"
  shows "brin_loop (firsts gs) (length gs) (map fst (group_rows (drop p gs)))
      (map (first_of gs) [0..<p] @ replicate (length gs - p) None) (map (last_of gs) [0..<p] @ replicate (length gs - p) None) cur =
    Some (map (first_of gs) [0..<length gs], map (last_of gs) [0..<length gs])"
  using assms(2,3)
proof (induction "length gs - p" arbitrary: p cur)
  case (Suc n)
  then have p: "p < length gs" by simp
  have ne: "fst (gs ! p) \<noteq> []" using assms(1) p by (simp add: ascending_def)
  have r: "map fst (group_rows (drop p gs)) = map fst (fst (gs ! p)) @ map fst (group_rows (drop (Suc p) gs))"
    using p by (simp add: group_rows_def Cons_nth_drop_Suc[symmetric])
  let ?mins = "map (first_of gs) [0..<p] @ replicate (length gs - p) None" and ?maxs = "map (last_of gs) [0..<p] @ replicate (length gs - p) None"
  have "?mins ! p = None" using p by (simp add: nth_append)
  then have "brin_loop (firsts gs) (length gs) (map fst (group_rows (drop p gs))) ?mins ?maxs cur =
      brin_loop (firsts gs) (length gs) (map fst (group_rows (drop (Suc p) gs))) (?mins[p := first_of gs p]) (?maxs[p := last_of gs p]) p"
    unfolding r using brin_loop_group[OF assms(1) p subset_refl ne Suc.prems(2), of ?mins ?maxs] p by (simp add: first_of_def last_of_def)
  also have "\<dots> = Some (map (first_of gs) [0..<length gs], map (last_of gs) [0..<length gs])"
    unfolding fill_slot[OF p] using Suc.hyps(1)[of "Suc p" p] Suc.hyps(2) p by simp
  finally show ?case .
qed (simp add: group_rows_def)

lemma concat_singletons: "concat (map (\<lambda>i. [f i]) xs) = map f xs"
  by (induction xs) simp_all

lemma collect_pages:
  assumes "\<And>p. p < n \<Longrightarrow> xs ! p = Some (a p)" "\<And>p. p < n \<Longrightarrow> ys ! p = Some (b p)"
  shows "concat (map (\<lambda>p. case xs ! p of None \<Rightarrow> [] | Some mn \<Rightarrow> (case ys ! p of None \<Rightarrow> [] | Some mx \<Rightarrow> [g p mn mx])) [0..<n]) = map (\<lambda>p. g p (a p) (b p)) [0..<n]"
    (is "concat (map ?F _) = _")
proof -
  have "map ?F [0..<n] = map (\<lambda>p. [g p (a p) (b p)]) [0..<n]" by (rule map_cong) (simp_all add: assms)
  then show ?thesis by (simp only: concat_singletons)
qed

lemma reader_of_written:
  assumes "segment_form ps rows gs f ib out meta" "length rows < 2 ^ 64"
  shows "reader_open out = Inr \<lparr>sr_bytes = out, sr_metadata = parsed_form meta gs f ib\<rparr>"
proof -
  have "take 8 out \<noteq> SEGMENT_MAGIC_V2" using segment_formD(11)[OF assms(1)] by (simp add: segment_consts)
  then show ?thesis using parse_written(1)[OF assms] by (simp add: reader_open_def)
qed

text \<open>One range for each page, from its first key to its last.\<close>

lemma derive_written:
  assumes "segment_form ps rows gs f ib out meta" "length rows < 2 ^ 64"
  shows "derive_brin_summaries out =
    Some (Inr (map (\<lambda>p. \<lparr>bs_page_index = word_of_nat p, bs_min_key = fst (hd (fst (gs ! p))), bs_max_key = fst (last (fst (gs ! p)))\<rparr>) [0..<length gs]))"
proof -
  note F = segment_formD[OF assms(1)]
  have asc: "ascending gs" by (rule ascending_groups) (use F(1,3,4) in simp_all)
  have n: "unat (word_of_nat (length gs) :: u32) = length gs" using F(5) by (simp add: unat_of_nat)
  have "gs \<noteq> []" using F(1,2) by auto
  moreover have "reader_scan \<lparr>sr_bytes = out, sr_metadata = parsed_form meta gs f ib\<rparr> = Some rows"
    using scan_written[OF assms] by (simp add: reader_scan_def)
  moreover have "brin_loop (firsts gs) (length gs) (map fst rows) (replicate (length gs) None) (replicate (length gs) None) 0 =
      Some (map (first_of gs) [0..<length gs], map (last_of gs) [0..<length gs])"
    using brin_loop_groups[OF asc, of 0 0] F(1) by simp
  ultimately show ?thesis unfolding derive_brin_summaries_def reader_of_written[OF assms]
    by (simp add: Let_def parsed_form_def F(12) n index_keys)
      (rule collect_pages, simp_all add: first_of_def last_of_def)
qed


text \<open>The ranges cover every key, touch only keys of the segment and do not overlap.\<close>

lemma ranges_cover:
  assumes "segment_form ps rows gs f ib out meta" "length rows < 2 ^ 64"
  shows "\<exists>ss. derive_brin_summaries out = Some (Inr ss) \<and> length ss = unat (sm_num_pages meta)
    \<and> (\<forall>r\<in>set rows. \<exists>s\<in>set ss. bs_min_key s \<le> fst r \<and> fst r \<le> bs_max_key s)
    \<and> sorted_wrt (\<lambda>s t. bs_max_key s < bs_min_key t) ss"
proof -
  note F = segment_formD[OF assms(1)]
  have asc: "ascending gs" by (rule ascending_groups) (use F(1,3,4) in simp_all)
  define ss where "ss = map (\<lambda>p. \<lparr>bs_page_index = word_of_nat p, bs_min_key = fst (hd (fst (gs ! p))), bs_max_key = fst (last (fst (gs ! p)))\<rparr>) [0..<length gs]"
  have n: "length ss = unat (sm_num_pages meta)" using F(5) by (simp add: ss_def F(12) unat_of_nat)
  have "\<exists>s\<in>set ss. bs_min_key s \<le> fst r \<and> fst r \<le> bs_max_key s" if r: "r \<in> set rows" for r
  proof -
    obtain p where p: "p < length gs" "r \<in> set (fst (gs ! p))" using r F(1) by (auto simp: set_group_rows in_set_conv_nth[of _ gs])
    have so: "sorted_wrt (<) (map fst (fst (gs ! p)))" using asc p(1) by (simp add: ascending_def)
    have "fst (hd (fst (gs ! p))) \<le> fst r" using so p(2) by (cases "fst (gs ! p)") auto
    moreover have "fst r \<le> fst (last (fst (gs ! p)))" using so p(2) by (cases "fst (gs ! p)" rule: rev_cases) (auto simp: sorted_wrt_append)
    ultimately show ?thesis using p(1) by (auto simp: ss_def)
  qed
  moreover have "fst (last (fst (gs ! p))) < fst (hd (fst (gs ! q)))" if "p < q" "q < length gs" for p q
  proof -
    have "last (fst (gs ! p)) \<in> set (fst (gs ! p))" "hd (fst (gs ! q)) \<in> set (fst (gs ! q))" using asc that by (simp_all add: ascending_def)
    then show ?thesis using asc that sorted_wrt_nth_less[of _ gs p q] unfolding ascending_def by blast
  qed
  then have "sorted_wrt (\<lambda>s t. bs_max_key s < bs_min_key t) ss" by (auto simp: ss_def sorted_wrt_iff_nth_less)
  ultimately show ?thesis using derive_written[OF assms] n unfolding ss_def by blast
qed

section \<open>Properties\<close>

lemma file_length:
  assumes "segment_form ps rows gs f ib out meta" "length rows < 2 ^ 64"
  shows "length out = 52 + bf_encoded_len f + 12 * length gs + length (group_pages gs)"
proof -
  note F = segment_formD[OF assms(1)]
  have "length ib = 4 + 12 * length gs" using F(9)
    by (auto simp: encode_page_index_def length_concat comp_def encode_index_entry_def sum_list_triv split: if_splits)
  then show ?thesis using parse_written(3)[OF assms] bloom_roundtrip(2)[OF F(6)] by simp
qed

text \<open>A written segment, wrapped and loaded again.\<close>

lemma loaded_form:
  assumes "segment_form ps rows gs f ib out meta" "length rows < 2 ^ 64" "length out < 2 ^ 32"
  shows "\<exists>w. wrap_v2_envelope out c = Some w \<and> owned_from_bytes w = Inr \<lparr>og_bytes = out, og_metadata = parsed_form meta gs f ib, og_brin_summaries = []\<rparr>"
proof -
  have "take 8 out = SEGMENT_MAGIC_V4" using segment_formD(11)[OF assms(1)] by (simp add: SEGMENT_MAGIC_V4_def)
  then obtain w where "wrap_v2_envelope out c = Some w" "unwrap_v2_envelope w = Inr (out, [])" using wrap_roundtrip[OF assms(3)] by blast
  then show ?thesis using parse_written(1)[OF assms(1,2)] by (simp add: owned_from_bytes_def)
qed

text \<open>
  C5: a cold segment answers exactly for the rows it was written from. For ascending keys, an accepted page size and a
  total that fits the four-byte offsets, the writer returns a file; wrapped with or without compression and loaded
  again, its lookup of every key gives the row's payload or nothing as the rows say, its filter denies no stored key,
  and its scan returns the rows in order. Rows larger than a page are among them.
\<close>

theorem segment_lookup_exact:
  assumes "rows \<noteq> []" "sorted_wrt (<) (map fst rows)" "256 \<le> ps" "ps \<le> 65536"
    and "region_bound (unat ps) rows < 2 ^ 31" "unat m < 2 ^ 63" "bf_encoded_len (with_target_fp_rate m k) < 2 ^ 30"
  shows "\<exists>out meta w sg. encode_segment m k rows ps = Some (Inr (out, meta)) \<and> wrap_v2_envelope out c = Some w \<and> owned_from_bytes w = Inr sg
    \<and> (\<forall>key. owned_lookup sg key = map_of rows key) \<and> (\<forall>key\<in>fst ` set rows. owned_might_contain sg key) \<and> owned_scan sg = Some rows"
proof -
  obtain out meta where e: "encode_segment m k rows ps = Some (Inr (out, meta))"
    using encode_segment_succeeds[OF assms(1-4) _ assms(6), of k] assms(5,7) by auto
  obtain gs f ib where sf: "segment_form ps rows gs f ib out meta" and B: "region_part (unat ps) gs" "bf_encoded_len f = bf_encoded_len (with_target_fp_rate m k)"
    using encode_segment_form[OF e assms(6)] by blast
  have "256 \<le> unat ps" using assms(3) by (simp add: word_le_nat_alt)
  then have n: "200 * length rows \<le> region_bound (unat ps) rows" by (induction rows) (simp_all add: region_bound_def)
  then have l: "length rows < 2 ^ 64" using assms(5) by simp
  have "length out < 2 ^ 32" using file_length[OF sf l] B n assms(5,7) segment_formD(1)[OF sf] by (auto simp: region_part_def)
  then obtain w where w: "wrap_v2_envelope out c = Some w"
    "owned_from_bytes w = Inr \<lparr>og_bytes = out, og_metadata = parsed_form meta gs f ib, og_brin_summaries = []\<rparr>"
    using loaded_form[OF sf l] by blast
  show ?thesis
    by (intro exI[of _ out] exI[of _ meta] exI[of _ w] exI[of _ "\<lparr>og_bytes = out, og_metadata = parsed_form meta gs f ib, og_brin_summaries = []\<rparr>"])
      (use e w lookup_written[OF sf l] might_contain_written[OF sf] scan_written[OF sf l] in
        \<open>simp add: owned_lookup_def owned_might_contain_def owned_scan_def\<close>)
qed


theorem segment_lookup_exact_witness:
  "\<exists>out meta w sg. encode_segment 64 7 [(1, [7]), (5, []), (9, replicate 300 1)] 256 = Some (Inr (out, meta)) \<and> wrap_v2_envelope out True = Some w
    \<and> owned_from_bytes w = Inr sg \<and> (\<forall>key. owned_lookup sg key = map_of [(1, [7]), (5, []), (9, replicate 300 1)] key)
    \<and> (\<forall>key\<in>fst ` set [(1, [7 :: u8]), (5, []), (9, replicate 300 1)]. owned_might_contain sg key) \<and> owned_scan sg = Some [(1, [7]), (5, []), (9, replicate 300 1)]"
  by (rule segment_lookup_exact)
    (simp_all add: region_bound_def bf_encoded_len_def with_target_fp_rate_def Let_def)

text \<open>
  C27: a damaged cold segment is not read. Any change of up to four consecutive bytes behind the magic of a written file
  makes loading it an error.
\<close>

theorem segment_damage_detected:
  assumes "encode_segment m k rows ps = Some (Inr (pre @ x @ post, meta))" "unat m < 2 ^ 63" "length rows < 2 ^ 64"
    and "8 \<le> length pre" "length x = length y" "length x \<le> 4" "x \<noteq> y"
  shows "\<exists>e. owned_from_bytes (pre @ y @ post) = Inl e"
proof -
  obtain gs f ib where sf: "segment_form ps rows gs f ib (pre @ x @ post) meta" using encode_segment_form[OF assms(1,2)] by blast
  have "take 8 (pre @ y @ post) = take 8 (pre @ x @ post)" using assms(4) by simp
  also have "\<dots> = SEGMENT_MAGIC_V4" unfolding segment_formD(11)[OF sf] by (simp add: SEGMENT_MAGIC_V4_def)
  finally have "unwrap_v2_envelope (pre @ y @ post) = Inr (pre @ y @ post, [])" unfolding unwrap_v2_envelope_def by (simp add: segment_consts)
  then show ?thesis using damage_rejected[OF parse_written(1)[OF sf assms(3)] assms(4-7)] by (auto simp: owned_from_bytes_def)
qed

theorem segment_damage_detected_witness:
  "\<exists>out meta e. encode_segment 64 7 [(1, [7])] 256 = Some (Inr (out, meta)) \<and> owned_from_bytes (take 8 out @ [NOT (out ! 8)] @ drop 9 out) = Inl e"
proof -
  obtain out meta where e: "encode_segment 64 7 [(1, [7])] 256 = Some (Inr (out, meta))"
    using encode_segment_succeeds[of "[(1, [7])]" 256 64 7] by (auto simp: region_bound_def bf_encoded_len_def with_target_fp_rate_def Let_def)
  obtain gs f ib where sf: "segment_form 256 [(1, [7])] gs f ib out meta" using encode_segment_form[OF e] by auto
  have l: "8 < length out" using parse_written(3)[OF sf] by simp
  then have o: "out = take 8 out @ [out ! 8] @ drop 9 out" using id_take_nth_drop[OF l] by simp
  have "NOT (out ! 8) \<noteq> out ! 8" 
  proof
    assume "NOT (out ! 8) = out ! 8"
    then have "bit (NOT (out ! 8)) 0 = bit (out ! 8) 0" by simp
    then show False by (simp add: bit_not_iff)
  qed
  then have "\<exists>e. owned_from_bytes (take 8 out @ [NOT (out ! 8)] @ drop 9 out) = Inl e"
    using segment_damage_detected[of 64 7 "[(1, [7])]" 256 "take 8 out" "[out ! 8]" "drop 9 out" meta "[NOT (out ! 8)]"] e o l by simp
  then show ?thesis using e by blast
qed

text \<open>Without compression, or with data that does not shrink, a sidecar makes the file unreadable.\<close>

lemma sidecar_needs_compression:
  assumes "ss \<noteq> []" "length v1 + 8 + length ss * 20 < 2 ^ 32" "36 \<le> length v1"
  shows "\<exists>w. wrap_v2_envelope_with_brin v1 ss False = Some w \<and> owned_from_bytes w = Inl (BadMagic (take 8 w))"
proof -
  obtain w where w: "wrap_v2_envelope_with_brin v1 ss False = Some w" using assms(1,2) by (simp add: wrap_v2_envelope_with_brin_def wrap_v2_envelope_def Let_def)
  then have "take 4 w = BRIN_SIDECAR_MAGIC" using assms(1,2) by (auto simp: wrap_v2_envelope_with_brin_def wrap_v2_envelope_def Let_def BRIN_SIDECAR_MAGIC_def split: if_splits)
  then have t: "take 4 (take 8 w) = BRIN_SIDECAR_MAGIC" by simp
  have "take 8 w \<noteq> SEGMENT_MAGIC_V2" by (rule notI, use t in \<open>simp add: segment_consts envelope_consts del: take_take\<close>)
  then show ?thesis using brin_envelope[OF assms(1,2) w] w assms(3) by blast
qed

end
