(* ===== verification/Envelope.thy ===== *)
theory Envelope
  imports Crc
begin

text \<open>
  The snapshot envelope of the engine (\<open>spg-engine/src/envelope.rs\<close>): length-prefixed sections behind a
  magic and a version byte, with a checksum at the end, and the reader of all five versions.
  A section length that does not fit its field panics: \<open>None\<close>.
\<close>

definition ENVELOPE_MAGIC :: bytes where "ENVELOPE_MAGIC = [0x53, 0x50, 0x47, 0x45, 0x4E, 0x56, 0x30, 0x31]"
definition ENVELOPE_VERSION_V1 :: u8 where "ENVELOPE_VERSION_V1 = 1"
definition ENVELOPE_VERSION_V2 :: u8 where "ENVELOPE_VERSION_V2 = 2"
definition ENVELOPE_VERSION_V3 :: u8 where "ENVELOPE_VERSION_V3 = 3"
definition ENVELOPE_VERSION_V4 :: u8 where "ENVELOPE_VERSION_V4 = 4"
definition ENVELOPE_VERSION_V5 :: u8 where "ENVELOPE_VERSION_V5 = 5"

lemmas envelope_versions = ENVELOPE_VERSION_V1_def ENVELOPE_VERSION_V2_def ENVELOPE_VERSION_V3_def
  ENVELOPE_VERSION_V4_def ENVELOPE_VERSION_V5_def

definition put_section :: "bytes \<Rightarrow> bytes option" where
  "put_section bs = (if 2 ^ 32 \<le> length bs then None else Some (u32_le (word_of_nat (length bs)) @ bs))"

fun put_sections :: "bytes list \<Rightarrow> bytes option" where
  "put_sections [] = Some []"
| "put_sections (bs # rest) =
     (case put_section bs of None \<Rightarrow> None | Some a \<Rightarrow> map_option ((@) a) (put_sections rest))"

definition build_envelope :: "bytes \<Rightarrow> bytes \<Rightarrow> bytes \<Rightarrow> bytes \<Rightarrow> bytes \<Rightarrow> bytes option" where
  "build_envelope catalog users pubs subs stats =
     (case put_sections [catalog, users, pubs, subs, stats] of
        None \<Rightarrow> None
      | Some sections \<Rightarrow>
          (let out = ENVELOPE_MAGIC @ [ENVELOPE_VERSION_V5] @ sections
           in Some (out @ u32_le (crc32 out))))"

datatype envelope_parse =
    Bare
  | Pair bytes bytes "bytes option" "bytes option" "bytes option"
  | CrcMismatch u32 u32

text \<open>One section of the later versions: the bytes and the offset behind them, or nothing.\<close>

definition take_section :: "bytes \<Rightarrow> nat \<Rightarrow> (bytes \<times> nat) option" where
  "take_section buf p =
     (if length buf < p + 4 then None
      else
        (let len = unat (le_u32 (slice buf p (p + 4)))
         in if length buf < p + 4 + len then None else Some (slice buf (p + 4) (p + 4 + len), p + 4 + len)))"

definition opt_section :: "bool \<Rightarrow> bytes \<Rightarrow> nat \<Rightarrow> (bytes option \<times> nat) option" where
  "opt_section present buf p = (if present then map_option (\<lambda>(s, q). (Some s, q)) (take_section buf p) else Some (None, p))"

text \<open>The first section also has to leave room for the length of the second.\<close>

definition take_catalog :: "bytes \<Rightarrow> nat \<Rightarrow> (bytes \<times> nat) option" where
  "take_catalog buf p =
     (if length buf < p + 4 then None
      else
        (let cat_len = unat (le_u32 (slice buf p (p + 4)))
         in if length buf < p + 4 + cat_len + 4 then None else Some (slice buf (p + 4) (p + 4 + cat_len), p + 4 + cat_len)))"

definition check_end :: "u8 \<Rightarrow> bytes \<Rightarrow> nat \<Rightarrow> envelope_parse \<Rightarrow> envelope_parse" where
  "check_end version buf p result =
     (if version \<in> {ENVELOPE_VERSION_V2, ENVELOPE_VERSION_V3, ENVELOPE_VERSION_V4, ENVELOPE_VERSION_V5} then
        (if p + 4 \<noteq> length buf then Bare
         else
           (let expected = le_u32 (slice buf p (p + 4));
                computed = crc32 (take p buf)
            in if expected \<noteq> computed then CrcMismatch expected computed else result))
      else if p \<noteq> length buf then Bare
      else result)"

definition split_envelope :: "bytes \<Rightarrow> envelope_parse" where
  "split_envelope buf =
     (if length buf < 8 + 1 + 4 \<or> take 8 buf \<noteq> ENVELOPE_MAGIC then Bare
      else
        (let version = buf ! 8
         in if version \<notin> {ENVELOPE_VERSION_V1, ENVELOPE_VERSION_V2, ENVELOPE_VERSION_V3, ENVELOPE_VERSION_V4, ENVELOPE_VERSION_V5} then Bare
            else (case take_catalog buf 9 of
                    None \<Rightarrow> Bare
                  | Some (catalog, p1) \<Rightarrow>
                      (case take_section buf p1 of
                         None \<Rightarrow> Bare
                       | Some (users, p2) \<Rightarrow>
                           (case opt_section (version \<in> {ENVELOPE_VERSION_V3, ENVELOPE_VERSION_V4, ENVELOPE_VERSION_V5}) buf p2 of
                              None \<Rightarrow> Bare
                            | Some (pubs, p3) \<Rightarrow>
                                (case opt_section (version \<in> {ENVELOPE_VERSION_V4, ENVELOPE_VERSION_V5}) buf p3 of
                                   None \<Rightarrow> Bare
                                 | Some (subs, p4) \<Rightarrow>
                                     (case opt_section (version = ENVELOPE_VERSION_V5) buf p4 of
                                        None \<Rightarrow> Bare
                                      | Some (stats, p5) \<Rightarrow> check_end version buf p5 (Pair catalog users pubs subs stats))))))))"

section \<open>Reading back\<close>

lemma take_section_at:
  assumes "length s < 2 ^ 32"
  shows "take_section (pre @ u32_le (word_of_nat (length s)) @ s @ post) (length pre) = Some (s, length pre + 4 + length s)"
proof -
  have "slice (pre @ u32_le (word_of_nat (length s)) @ s @ post) (length pre) (length pre + 4) = u32_le (word_of_nat (length s))" by (simp add: slice_def)
  moreover have "slice (pre @ u32_le (word_of_nat (length s)) @ s @ post) (length pre + 4) (length pre + 4 + length s) = s" by (simp add: slice_def)
  moreover have "unat (word_of_nat (length s) :: u32) = length s" using assms by (simp add: unat_of_nat)
  ultimately show ?thesis by (simp add: take_section_def)
qed

lemma take_catalog_section: "take_section buf p = Some (s, q) \<Longrightarrow> q + 4 \<le> length buf \<Longrightarrow> take_catalog buf p = Some (s, q)"
  by (auto simp: take_section_def take_catalog_def Let_def split: if_splits)

lemma build_parts:
  assumes "build_envelope catalog users pubs subs stats = Some buf"
  obtains "\<forall>s\<in>{catalog, users, pubs, subs, stats}. length s < 2 ^ 32"
    "buf = (ENVELOPE_MAGIC @ [ENVELOPE_VERSION_V5] @ concat (map (\<lambda>s. u32_le (word_of_nat (length s)) @ s) [catalog, users, pubs, subs, stats]))
       @ u32_le (crc32 (ENVELOPE_MAGIC @ [ENVELOPE_VERSION_V5] @ concat (map (\<lambda>s. u32_le (word_of_nat (length s)) @ s) [catalog, users, pubs, subs, stats])))"
  using assms by (auto simp: build_envelope_def put_section_def Let_def split: if_splits option.splits)

lemma build_succeeds:
  assumes "\<forall>s\<in>{catalog, users, pubs, subs, stats}. length s < 2 ^ 32"
  shows "\<exists>buf. build_envelope catalog users pubs subs stats = Some buf"
  using assms by (simp add: build_envelope_def put_section_def Let_def)

text \<open>The sections behind any nine bytes are found where they were written.\<close>

definition sec :: "bytes \<Rightarrow> bytes" where "sec s = u32_le (word_of_nat (length s)) @ s"

definition after :: "bytes list \<Rightarrow> nat" where "after ss = 9 + length (concat (map sec ss))"

lemma section_found:
  assumes "length h = 9" "length s < 2 ^ 32"
  shows "take_section (h @ concat (map sec ss) @ sec s @ post) (after ss) = Some (s, after (ss @ [s]))"
  using take_section_at[OF assms(2), of "h @ concat (map sec ss)" post] assms(1) by (simp add: sec_def after_def)

lemma sections_found:
  fixes crc :: u32
  assumes "length h = 9" "\<forall>s\<in>{c, u, p, b, t}. length s < 2 ^ 32"
  defines "buf \<equiv> h @ concat (map sec [c, u, p, b, t]) @ u32_le crc"
  shows "take_catalog buf 9 = Some (c, after [c])" "take_section buf (after [c]) = Some (u, after [c, u])"
    "take_section buf (after [c, u]) = Some (p, after [c, u, p])" "take_section buf (after [c, u, p]) = Some (b, after [c, u, p, b])"
    "take_section buf (after [c, u, p, b]) = Some (t, after [c, u, p, b, t])" "length buf = after [c, u, p, b, t] + 4"
proof -
  show len: "length buf = after [c, u, p, b, t] + 4" by (simp add: buf_def after_def assms(1))
  have "take_section buf 9 = Some (c, after [c])" using section_found[OF assms(1), of c "[]"] assms(2) by (simp add: buf_def after_def)
  then show "take_catalog buf 9 = Some (c, after [c])" by (rule take_catalog_section) (simp add: len after_def)
  show "take_section buf (after [c]) = Some (u, after [c, u])" "take_section buf (after [c, u]) = Some (p, after [c, u, p])"
    "take_section buf (after [c, u, p]) = Some (b, after [c, u, p, b])" "take_section buf (after [c, u, p, b]) = Some (t, after [c, u, p, b, t])"
    using section_found[OF assms(1), of u "[c]" "sec p @ sec b @ sec t @ u32_le crc"] section_found[OF assms(1), of p "[c, u]" "sec b @ sec t @ u32_le crc"]
      section_found[OF assms(1), of b "[c, u, p]" "sec t @ u32_le crc"] section_found[OF assms(1), of t "[c, u, p, b]" "u32_le crc"] assms(2)
    by (simp_all add: buf_def)
qed

lemma after_less: "after ss + 4 \<le> after (ss @ [s])"
  by (simp add: after_def sec_def)

lemma build_layout:
  assumes "build_envelope c u p b t = Some buf"
  defines "body \<equiv> concat (map sec [c, u, p, b, t])"
  shows "\<forall>s\<in>{c, u, p, b, t}. length s < 2 ^ 32" "buf = (ENVELOPE_MAGIC @ [ENVELOPE_VERSION_V5]) @ body @ u32_le (crc32 (ENVELOPE_MAGIC @ [ENVELOPE_VERSION_V5] @ body))"
  using build_parts[OF assms(1)] by (auto simp: body_def sec_def)

lemma envelope_reads_back:
  assumes "build_envelope catalog users pubs subs stats = Some buf"
  shows "split_envelope buf = Pair catalog users (Some pubs) (Some subs) (Some stats)"
proof -
  define h where "h = ENVELOPE_MAGIC @ [ENVELOPE_VERSION_V5]"
  define crc where "crc = crc32 (h @ concat (map sec [catalog, users, pubs, subs, stats]))"
  have sm: "\<forall>s\<in>{catalog, users, pubs, subs, stats}. length s < 2 ^ 32"
    and buf: "buf = h @ concat (map sec [catalog, users, pubs, subs, stats]) @ u32_le crc"
    using build_layout[OF assms] by (simp_all only: h_def crc_def append_assoc)
  have h: "length h = 9" by (simp add: h_def ENVELOPE_MAGIC_def)
  note F = sections_found[OF h sm, of crc, folded buf]
  have "slice buf (after [catalog, users, pubs, subs, stats]) (after [catalog, users, pubs, subs, stats] + 4) = u32_le crc"
    "crc32 (take (after [catalog, users, pubs, subs, stats]) buf) = crc"
    by (simp_all add: buf h after_def slice_def crc_def)
  moreover have "buf ! 8 = ENVELOPE_VERSION_V5" "take 8 buf = ENVELOPE_MAGIC" by (simp_all add: buf h_def ENVELOPE_MAGIC_def)
  moreover have "\<not> length buf < 8 + 1 + 4" using F(6) by (simp add: after_def)
  ultimately show ?thesis using F unfolding split_envelope_def Let_def
    by (simp add: opt_section_def check_end_def Let_def envelope_versions)
qed

section \<open>Damage\<close>

text \<open>Whatever is accepted under a version with a checksum carries the right one.\<close>

lemma accepted_checksum:
  assumes "split_envelope buf = Pair a b c d e" "buf ! 8 \<noteq> ENVELOPE_VERSION_V1"
  shows "4 \<le> length buf" "le_u32 (drop (length buf - 4) buf) = crc_spec POLY (take (length buf - 4) buf)"
proof -
  obtain p where p: "p + 4 = length buf" "le_u32 (slice buf p (length buf)) = crc32 (take p buf)"
    using assms by (auto simp: split_envelope_def Let_def check_end_def split: if_splits option.splits prod.splits)
  then show "4 \<le> length buf" by simp
  have "p = length buf - 4" using p(1) by simp
  then show "le_u32 (drop (length buf - 4) buf) = crc_spec POLY (take (length buf - 4) buf)"
    using p by (simp add: slice_def crc32_def crc_with_spec)
qed

lemma envelope_damage_refused:
  assumes "build_envelope catalog users pubs subs stats = Some (pre @ x @ post)" "9 \<le> length pre" "length x = length y" "length x \<le> 4" "x \<noteq> y"
  shows "split_envelope (pre @ y @ post) \<noteq> Pair a b c d e"
proof
  assume P: "split_envelope (pre @ y @ post) = Pair a b c d e"
  let ?o = "pre @ x @ post" and ?d = "pre @ y @ post"
  have v: "?o ! 8 = ENVELOPE_VERSION_V5" unfolding build_layout(2)[OF assms(1)] by (simp add: ENVELOPE_MAGIC_def)
  then have "?o ! 8 \<noteq> ENVELOPE_VERSION_V1" "?d ! 8 \<noteq> ENVELOPE_VERSION_V1" using assms(2) by (simp_all add: nth_append envelope_versions)
  note A = accepted_checksum[OF envelope_reads_back[OF assms(1)] this(1)] and B = accepted_checksum[OF P this(2)]
  have "le_u32 (drop (length ?d - 4) ?d) \<noteq> crc_spec POLY (take (length ?d - 4) ?d)"
    by (rule sealed_burst[of POLY "drop (length ?o - 4) ?o" "drop (length ?d - 4) ?d" "take (length ?o - 4) ?o" pre x post "take (length ?d - 4) ?d" y])
      (use A B assms(3-5) in \<open>simp_all only: poly_top append_take_drop_id length_drop\<close>, simp_all)
  then show False using B(2) by simp
qed

text \<open>A changed version byte never makes the reader accept the sections under another version.\<close>

lemma other_version_refused:
  assumes "build_envelope catalog users pubs subs stats = Some buf" "v \<noteq> ENVELOPE_VERSION_V5"
  shows "split_envelope (buf[8 := v]) = Bare"
proof -
  define h where "h = ENVELOPE_MAGIC @ [v]"
  define crc where "crc = crc32 (ENVELOPE_MAGIC @ [ENVELOPE_VERSION_V5] @ concat (map sec [catalog, users, pubs, subs, stats]))"
  note L = build_layout[OF assms(1)]
  have h: "length h = 9" by (simp add: h_def ENVELOPE_MAGIC_def)
  have buf: "buf[8 := v] = h @ concat (map sec [catalog, users, pubs, subs, stats]) @ u32_le crc"
    unfolding L(2) crc_def h_def by (simp add: ENVELOPE_MAGIC_def)
  note F = sections_found[OF h L(1), of crc, folded buf]
  have v: "buf[8 := v] ! 8 = v" unfolding buf by (simp add: h_def ENVELOPE_MAGIC_def)
  have "after [catalog, users] + 12 \<le> after [catalog, users, pubs, subs, stats]" "after [catalog, users, pubs] + 8 \<le> after [catalog, users, pubs, subs, stats]"
    "after [catalog, users, pubs, subs] + 4 \<le> after [catalog, users, pubs, subs, stats]" by (simp_all add: after_def sec_def)
  then show ?thesis using F assms(2) unfolding split_envelope_def Let_def v
    by (auto simp: opt_section_def check_end_def)
qed

section \<open>Properties\<close>

text \<open>
  C29: a snapshot is read back as it was written, and damage is not. For sections that fit their length fields the
  envelope exists and splits into the same five sections; no change of up to four consecutive bytes behind the version
  byte, and no change of the version byte, yields sections.
\<close>

theorem envelope_sound:
  assumes "\<forall>s\<in>{catalog, users, pubs, subs, stats}. length s < 2 ^ 32"
  shows "\<exists>buf. build_envelope catalog users pubs subs stats = Some buf
    \<and> split_envelope buf = Pair catalog users (Some pubs) (Some subs) (Some stats)
    \<and> (\<forall>pre x y post a b c d e. buf = pre @ x @ post \<and> 9 \<le> length pre \<and> length x = length y \<and> length x \<le> 4 \<and> x \<noteq> y \<longrightarrow> split_envelope (pre @ y @ post) \<noteq> Pair a b c d e)
    \<and> (\<forall>v. v \<noteq> ENVELOPE_VERSION_V5 \<longrightarrow> split_envelope (buf[8 := v]) = Bare)"
proof -
  obtain buf where b: "build_envelope catalog users pubs subs stats = Some buf" using build_succeeds[OF assms] by blast
  show ?thesis
    by (rule exI[of _ buf]) (use b envelope_reads_back[OF b] other_version_refused[OF b] envelope_damage_refused in blast)
qed

theorem envelope_sound_witness:
  "\<exists>buf. build_envelope [1] [] [2, 3] [] [4] = Some buf \<and> split_envelope buf = Pair [1] [] (Some [2, 3]) (Some []) (Some [4])
    \<and> split_envelope (buf[8 := 2]) = Bare"
proof -
  have s: "\<forall>s\<in>{[1], [], [2, 3], [], [4 :: u8]}. length s < 2 ^ 32" by simp
  show ?thesis using envelope_sound[OF s] by (fastforce simp: ENVELOPE_VERSION_V5_def)
qed

end
