(* ===== verification/Parsort.thy ===== *)
theory Parsort
  imports Prelude "HOL-Library.Sorting_Algorithms"
begin

text \<open>
  Sorting across threads (\<open>spg-engine/src/parsort.rs\<close>). A comparison closure is a comparator of the
  library. The stable sort of the slice library is the stable sort of the library; its unstable sort
  promises a sorted permutation and no more, so it is an argument of the model. Threads of a scope
  work on disjoint runs and are joined, so their results do not depend on the interleaving. The
  counter of leased threads is a transition system of its own at the end.
\<close>

definition MIN_PARALLEL :: nat where "MIN_PARALLEL = 65536"
definition MIN_CHUNK :: nat where "MIN_CHUNK = 16384"
definition MAX_PARTS :: nat where "MAX_PARTS = 8"

record workers =
  per_sort :: nat
  per_process :: nat

definition workers_serial :: workers where "workers_serial = \<lparr>per_sort = 0, per_process = 0\<rparr>"

definition lease_amount :: "nat \<Rightarrow> nat \<Rightarrow> nat \<Rightarrow> nat" where
  "lease_amount held want cap = min want (cap - held)"

definition parts_for :: "nat \<Rightarrow> nat \<Rightarrow> nat" where
  "parts_for n extra_workers =
     (if n < MIN_PARALLEL \<or> extra_workers = 0 then 1
      else min (min (extra_workers + 1) (n div MIN_CHUNK)) MAX_PARTS)"

section \<open>Merging\<close>

fun merge_loop :: "'a comparator \<Rightarrow> 'a list \<Rightarrow> 'a list \<Rightarrow> 'a list \<Rightarrow> 'a list" where
  "merge_loop cmp (x # a) (y # b) out =
     (if compare cmp x y = Greater then merge_loop cmp (x # a) b (out @ [y]) else merge_loop cmp a (y # b) (out @ [x]))"
| "merge_loop cmp (x # a) [] out = out @ x # a"
| "merge_loop cmp [] (y # b) out = out @ y # b"
| "merge_loop cmp [] [] out = out"

definition merge_two :: "'a comparator \<Rightarrow> 'a list \<Rightarrow> 'a list \<Rightarrow> 'a list" where
  "merge_two cmp a b = merge_loop cmp a b []"

fun pair_runs :: "'a list list \<Rightarrow> ('a list \<times> 'a list option) list" where
  "pair_runs [] = []"
| "pair_runs [a] = [(a, None)]"
| "pair_runs (a # b # rest) = (a, Some b) # pair_runs rest"

definition merge_round :: "'a comparator \<Rightarrow> 'a list list \<Rightarrow> 'a list list" where
  "merge_round cmp runs = map (\<lambda>(a, b). case b of None \<Rightarrow> a | Some b \<Rightarrow> merge_two cmp a b) (pair_runs runs)"

lemma length_pair_runs: "length (pair_runs runs) = (length runs + 1) div 2"
  by (induction runs rule: pair_runs.induct) simp_all

function merge_rounds :: "'a comparator \<Rightarrow> 'a list list \<Rightarrow> 'a list list" where
  "merge_rounds cmp runs = (if 1 < length runs then merge_rounds cmp (merge_round cmp runs) else runs)"
  by pat_completeness auto
termination
  by (relation "measure (\<lambda>(_, runs). length runs)") (auto simp: merge_round_def length_pair_runs)

declare merge_rounds.simps [simp del]

section \<open>Sorting\<close>

text \<open>The pieces: the first \<open>rem\<close> of them are one element longer.\<close>

fun split_runs :: "nat \<Rightarrow> nat \<Rightarrow> nat list \<Rightarrow> 'a list \<Rightarrow> 'a list list" where
  "split_runs bse rem [] src = []"
| "split_runs bse rem (i # is) src =
     (let k = bse + (if i < rem then 1 else 0) in take k src # split_runs bse rem is (drop k src))"

definition sort_piece :: "('a list \<Rightarrow> 'a list) \<Rightarrow> 'a comparator \<Rightarrow> bool \<Rightarrow> 'a list \<Rightarrow> 'a list" where
  "sort_piece sort_unstable cmp stably v = (if stably then Sorting_Algorithms.sort cmp v else sort_unstable v)"

text \<open>\<open>held\<close> is the value of the counter on which the lease was taken.\<close>

definition sort_in :: "('a list \<Rightarrow> 'a list) \<Rightarrow> nat \<Rightarrow> 'a list \<Rightarrow> workers \<Rightarrow> 'a comparator \<Rightarrow> bool \<Rightarrow> 'a list" where
  "sort_in sort_unstable held v how cmp stably =
     (let n = length v;
          wanted = parts_for n (per_sort how);
          lease = lease_amount held (wanted - 1) (per_process how);
          parts = lease + 1
      in if parts < 2 then sort_piece sort_unstable cmp stably v
         else
           (let runs = split_runs (n div parts) (n mod parts) [0..<parts] v;
                sorted_runs = map (sort_piece sort_unstable cmp stably) runs;
                merged = merge_rounds cmp sorted_runs
            in if merged = [] then [] else last merged))"

definition sort_total :: "('a list \<Rightarrow> 'a list) \<Rightarrow> nat \<Rightarrow> 'a list \<Rightarrow> workers \<Rightarrow> 'a comparator \<Rightarrow> 'a list" where
  "sort_total sort_unstable held v how cmp = sort_in sort_unstable held v how cmp False"

definition sort_total_stable :: "('a list \<Rightarrow> 'a list) \<Rightarrow> nat \<Rightarrow> 'a list \<Rightarrow> workers \<Rightarrow> 'a comparator \<Rightarrow> 'a list" where
  "sort_total_stable sort_unstable held v how cmp = sort_in sort_unstable held v how cmp True"

section \<open>The result is that of one stable sort\<close>

lemma merge_loop_merge: "merge_loop cmp a b out = out @ Sorting_Algorithms.merge cmp a b"
  by (induction cmp a b out rule: merge_loop.induct) simp_all

lemma merge_sorted: "merge_two cmp (Sorting_Algorithms.sort cmp a) (Sorting_Algorithms.sort cmp b) = Sorting_Algorithms.sort cmp (a @ b)"
proof -
  let ?m = "Sorting_Algorithms.merge cmp (Sorting_Algorithms.sort cmp a) (Sorting_Algorithms.sort cmp b)"
  have "Sorting_Algorithms.sort cmp (a @ b) = ?m"
  proof (rule sort_eqI)
    show "mset (a @ b) = mset ?m" by (simp add: mset_merge)
    show "Sorting_Algorithms.sorted cmp ?m" by (rule sorted_merge) simp_all
    show "stable_segment cmp y (a @ b) = stable_segment cmp y ?m" for y
      by (simp add: filter_merge stable_sort merge_stable_segments)
  qed
  then show ?thesis by (simp add: merge_two_def merge_loop_merge)
qed

fun pair_chunks :: "'a list list \<Rightarrow> 'a list list" where
  "pair_chunks [] = []"
| "pair_chunks [a] = [a]"
| "pair_chunks (a # b # rest) = (a @ b) # pair_chunks rest"

lemma merge_round_chunks: "merge_round cmp (map (Sorting_Algorithms.sort cmp) cs) = map (Sorting_Algorithms.sort cmp) (pair_chunks cs)"
  by (induction cs rule: pair_chunks.induct) (simp_all add: merge_round_def merge_sorted)

lemma concat_pair_chunks: "concat (pair_chunks cs) = concat cs"
  by (induction cs rule: pair_chunks.induct) simp_all

lemma pair_chunks_shorter: "1 < length cs \<Longrightarrow> length (pair_chunks cs) < length cs" "cs \<noteq> [] \<Longrightarrow> pair_chunks cs \<noteq> []"
proof -
  have "length (pair_chunks cs) = (length cs + 1) div 2" by (induction cs rule: pair_chunks.induct) simp_all
  then show "1 < length cs \<Longrightarrow> length (pair_chunks cs) < length cs" by simp
  show "cs \<noteq> [] \<Longrightarrow> pair_chunks cs \<noteq> []" by (cases cs rule: pair_chunks.cases) simp_all
qed

lemma merge_rounds_sorted:
  "cs \<noteq> [] \<Longrightarrow> merge_rounds cmp (map (Sorting_Algorithms.sort cmp) cs) = [Sorting_Algorithms.sort cmp (concat cs)]"
proof (induction cs rule: length_induct)
  case (1 cs)
  show ?case
  proof (cases "1 < length cs")
    case True
    then show ?thesis using 1 pair_chunks_shorter[of cs]
      by (subst merge_rounds.simps) (simp add: merge_round_chunks concat_pair_chunks)
  next
    case False
    then obtain c where "cs = [c]" using 1(2) by (cases cs) auto
    then show ?thesis by (simp add: merge_rounds.simps)
  qed
qed

lemma concat_split_runs: "concat (split_runs bse rem is src) = take (sum_list (map (\<lambda>i. bse + (if i < rem then 1 else 0)) is)) src"
  by (induction "is" arbitrary: src) (auto simp: Let_def take_add)

lemma length_split_runs [simp]: "length (split_runs bse rem is src) = length is"
  by (induction "is" arbitrary: src) (simp_all add: Let_def)

lemma pieces_cover: "sum_list (map (\<lambda>i. n div p + (if i < n mod p then 1 else 0)) [0..<p]) = n" if "0 < p" for n p :: nat
proof -
  have "sum_list (map (\<lambda>i. if i < m then 1 else 0) [0..<p]) = min m p" for m p :: nat by (induction p) auto
  then show ?thesis using that by (simp add: sum_list_addf sum_list_triv min_def mod_less_divisor less_imp_le)
qed

text \<open>What the unstable sort of the slice library promises.\<close>

definition sorts_somehow :: "'a comparator \<Rightarrow> ('a list \<Rightarrow> 'a list) \<Rightarrow> bool" where
  "sorts_somehow cmp us \<longleftrightarrow> (\<forall>v. mset (us v) = mset v \<and> Sorting_Algorithms.sorted cmp (us v))"

definition strict_on :: "'a comparator \<Rightarrow> 'a list \<Rightarrow> bool" where
  "strict_on cmp v \<longleftrightarrow> (\<forall>x\<in>set v. \<forall>y\<in>set v. compare cmp x y = Equiv \<longrightarrow> x = y)"

lemma filter_same: "mset xs = mset ys \<Longrightarrow> (\<And>x. x \<in> set xs \<Longrightarrow> P x \<Longrightarrow> x = a) \<Longrightarrow> filter P xs = filter P ys"
proof -
  assume m: "mset xs = mset ys" and a: "\<And>x. x \<in> set xs \<Longrightarrow> P x \<Longrightarrow> x = a"
  have s: "set xs = set ys" using m by (metis set_mset_mset)
  have "filter P zs = replicate (length (filter P zs)) a" if "set zs \<subseteq> set xs" for zs
    using that a by (intro replicate_eqI) auto
  moreover have "length (filter P xs) = length (filter P ys)" using m by (metis mset_filter size_mset)
  ultimately show ?thesis using s by (metis order_refl)
qed

lemma piece_exact:
  assumes "stably \<or> strict_on cmp v" "sorts_somehow cmp us"
  shows "sort_piece us cmp stably v = Sorting_Algorithms.sort cmp v"
proof (cases stably)
  case False
  have "Sorting_Algorithms.sort cmp v = us v"
  proof (rule sort_eqI)
    show "mset v = mset (us v)" "Sorting_Algorithms.sorted cmp (us v)" using assms(2) by (simp_all add: sorts_somehow_def)
    then show "stable_segment cmp y v = stable_segment cmp y (us v)" if "y \<in> set v" for y
      using assms(1) False that by (intro filter_same[of _ _ _ y]) (auto simp: strict_on_def)
  qed
  then show ?thesis using False by (simp add: sort_piece_def)
qed (simp add: sort_piece_def)

lemma sort_in_exact:
  assumes "stably \<or> strict_on cmp v" "sorts_somehow cmp us"
  shows "sort_in us held v how cmp stably = Sorting_Algorithms.sort cmp v"
proof -
  define p where "p = lease_amount held (parts_for (length v) (per_sort how) - 1) (per_process how) + 1"
  define cs where "cs = split_runs (length v div p) (length v mod p) [0..<p] v"
  have c: "concat cs = v" using pieces_cover[of p "length v"] by (simp add: cs_def concat_split_runs p_def)
  have "length cs = p" "p \<noteq> 0" by (simp_all add: cs_def p_def)
  then have "cs \<noteq> []" by auto
  moreover have "map (sort_piece us cmp stably) cs = map (Sorting_Algorithms.sort cmp) cs"
  proof (rule map_cong[OF refl])
    fix x assume "x \<in> set cs"
    then have "set x \<subseteq> set v" using c by auto
    then show "sort_piece us cmp stably x = Sorting_Algorithms.sort cmp x" using assms by (intro piece_exact) (auto simp: strict_on_def)
  qed
  ultimately have m: "merge_rounds cmp (map (sort_piece us cmp stably) cs) = [Sorting_Algorithms.sort cmp v]"
    using merge_rounds_sorted[of cs cmp] by (metis c)
  have "sort_in us held v how cmp stably = (if p < 2 then sort_piece us cmp stably v
      else if merge_rounds cmp (map (sort_piece us cmp stably) cs) = [] then [] else last (merge_rounds cmp (map (sort_piece us cmp stably) cs)))"
    unfolding sort_in_def Let_def cs_def p_def by (rule refl)
  then show ?thesis using piece_exact[OF assms] by (simp add: m)
qed


section \<open>The counter of leased threads\<close>

text \<open>
  \<open>take_lease\<close> as each sort runs it: a load of the counter, compare-and-exchange attempts that may
  fail for no reason, the sort itself, and the subtraction when the lease is dropped. Sort \<open>i\<close> wants
  \<open>want i\<close> threads and was given the process-wide limit \<open>cap i\<close>.
\<close>

datatype lease_pc = At_start | At_exchange nat | Sorting nat | Returned

record lease_state =
  ls_leased :: nat
  ls_pcs :: "lease_pc list"

definition goto_pc :: "nat \<Rightarrow> lease_pc \<Rightarrow> lease_state \<Rightarrow> lease_state" where
  "goto_pc i pc s = s\<lparr>ls_pcs := (ls_pcs s)[i := pc]\<rparr>"

definition take_lease_step :: "(nat \<Rightarrow> nat) \<Rightarrow> (nat \<Rightarrow> nat) \<Rightarrow> bool \<Rightarrow> nat \<Rightarrow> lease_state \<Rightarrow> lease_state" where
  "take_lease_step want cap spurious i s =
     (case ls_pcs s ! i of
        At_start \<Rightarrow> goto_pc i (At_exchange (ls_leased s)) s
      | At_exchange held \<Rightarrow>
          (let take = lease_amount held (want i) (cap i)
           in if take = 0 then goto_pc i (Sorting 0) s
              else if ls_leased s = held \<and> \<not> spurious then goto_pc i (Sorting take) (s\<lparr>ls_leased := held + take\<rparr>)
              else goto_pc i (At_exchange (ls_leased s)) s)
      | Sorting n \<Rightarrow> goto_pc i Returned (s\<lparr>ls_leased := ls_leased s - n\<rparr>)
      | Returned \<Rightarrow> s)"

inductive lease_reachable :: "(nat \<Rightarrow> nat) \<Rightarrow> (nat \<Rightarrow> nat) \<Rightarrow> nat \<Rightarrow> lease_state \<Rightarrow> bool" for want cap n where
  lease_init: "lease_reachable want cap n \<lparr>ls_leased = 0, ls_pcs = replicate n At_start\<rparr>"
| lease_step: "lease_reachable want cap n s \<Longrightarrow> i < n \<Longrightarrow> lease_reachable want cap n (take_lease_step want cap spurious i s)"

fun held_by :: "lease_pc \<Rightarrow> nat" where
  "held_by (Sorting n) = n"
| "held_by _ = 0"

definition lease_inv :: "(nat \<Rightarrow> nat) \<Rightarrow> (nat \<Rightarrow> nat) \<Rightarrow> nat \<Rightarrow> nat \<Rightarrow> lease_state \<Rightarrow> bool" where
  "lease_inv want cap n limit s \<longleftrightarrow> length (ls_pcs s) = n \<and> ls_leased s = sum_list (map held_by (ls_pcs s)) \<and> ls_leased s \<le> limit
     \<and> (\<forall>i<n. held_by (ls_pcs s ! i) \<le> want i)"

lemma sum_held_update:
  "i < length pcs \<Longrightarrow> sum_list (map held_by (pcs[i := pc])) + held_by (pcs ! i) = sum_list (map held_by pcs) + held_by pc"
  by (induction pcs arbitrary: i) (auto split: nat.splits)

lemma goto_pc_inv:
  assumes "lease_inv want cap n limit s" "i < n" "held_by pc \<le> want i" "leased + held_by (ls_pcs s ! i) = ls_leased s + held_by pc" "leased \<le> limit"
  shows "lease_inv want cap n limit (goto_pc i pc (s\<lparr>ls_leased := leased\<rparr>))"
  using assms sum_held_update[of i "ls_pcs s" pc] by (auto simp: lease_inv_def goto_pc_def nth_list_update)

lemma goto_same: "goto_pc i pc s = goto_pc i pc (s\<lparr>ls_leased := ls_leased s\<rparr>)"
  by simp

lemma take_lease_inv:
  assumes "lease_inv want cap n limit s" "i < n" "cap i \<le> limit"
  shows "lease_inv want cap n limit (take_lease_step want cap spurious i s)"
proof (cases "ls_pcs s ! i")
  case At_start
  have le: "ls_leased s \<le> limit" using assms(1) by (simp add: lease_inv_def)
  show ?thesis using goto_pc_inv[OF assms(1,2), of "At_exchange (ls_leased s)" "ls_leased s"] At_start le by (simp add: take_lease_step_def)
next
  case (At_exchange held)
  let ?t = "lease_amount held (want i) (cap i)"
  have le: "ls_leased s \<le> limit" using assms(1) by (simp add: lease_inv_def)
  have t: "?t \<le> want i" "?t \<noteq> 0 \<Longrightarrow> held + ?t \<le> limit" using assms(3) by (auto simp: lease_amount_def)
  show ?thesis
    using goto_pc_inv[OF assms(1,2), of "Sorting 0" "ls_leased s"] goto_pc_inv[OF assms(1,2), of "At_exchange (ls_leased s)" "ls_leased s"]
      goto_pc_inv[OF assms(1,2), of "Sorting ?t" "held + ?t"] At_exchange le t by (auto simp: take_lease_step_def Let_def)
next
  case (Sorting k)
  have "held_by (ls_pcs s ! i) \<in> set (map held_by (ls_pcs s))" using assms(1,2) by (simp add: lease_inv_def)
  then have "k \<le> ls_leased s" using assms(1) Sorting member_le_sum_list by (fastforce simp: lease_inv_def)
  moreover have "ls_leased s \<le> limit" using assms(1) by (simp add: lease_inv_def)
  ultimately show ?thesis using goto_pc_inv[OF assms(1,2), of Returned "ls_leased s - k"] Sorting by (simp add: take_lease_step_def)
next
  case Returned
  then show ?thesis using assms(1) by (simp add: take_lease_step_def)
qed

lemma lease_reachable_inv:
  assumes "lease_reachable want cap n s" "\<forall>i<n. cap i \<le> limit"
  shows "lease_inv want cap n limit s"
  using assms(1)
proof induction
  case lease_init
  show ?case by (simp add: lease_inv_def)
next
  case (lease_step s i spurious)
  then show ?case using take_lease_inv assms(2) by blast
qed

text \<open>When every sort has returned, no thread is leased.\<close>

lemma leases_returned:
  assumes "lease_reachable want cap n s" "\<forall>pc\<in>set (ls_pcs s). pc = Returned"
  shows "ls_leased s = 0"
proof -
  obtain limit where "\<forall>i<n. cap i \<le> limit" using finite_nat_set_iff_bounded_le[of "cap ` {..<n}"] by auto
  then have "ls_leased s = sum_list (map held_by (ls_pcs s))" using lease_reachable_inv[OF assms(1)] by (simp add: lease_inv_def)
  then show ?thesis using assms(2) by (auto simp: sum_list_eq_0_iff)
qed

section \<open>Properties\<close>

text \<open>
  C28: sorting across threads gives what one stable sort gives. For every setting of the two worker limits and
  whatever other sorts hold at the time, the result is the stable sort of the input: without ties when the pieces
  go through the unstable sort, and with ties in their input order on the stable path.
\<close>

theorem parallel_sort_exact:
  assumes "sorts_somehow cmp us"
  shows "sort_total_stable us held v how cmp = Sorting_Algorithms.sort cmp v
    \<and> (strict_on cmp v \<longrightarrow> sort_total us held v how cmp = Sorting_Algorithms.sort cmp v)"
  using sort_in_exact[OF _ assms, of _ v held how] by (simp add: sort_total_def sort_total_stable_def)

theorem parallel_sort_exact_witness:
  "sort_total_stable (Sorting_Algorithms.sort default) 0 ([2, 1, 3 :: nat]) \<lparr>per_sort = 2, per_process = 8\<rparr> default
     = Sorting_Algorithms.sort default [2, 1, 3]
   \<and> (strict_on default [2, 1, 3 :: nat] \<and> sort_total (Sorting_Algorithms.sort default) 0 [2, 1, 3 :: nat] \<lparr>per_sort = 2, per_process = 8\<rparr> default
     = Sorting_Algorithms.sort default [2, 1, 3])"
  using parallel_sort_exact[of "default :: nat comparator" "Sorting_Algorithms.sort default" 0 "[2, 1, 3]" "\<lparr>per_sort = 2, per_process = 8\<rparr>"]
  by (simp add: sorts_somehow_def strict_on_def)

text \<open>
  The process-wide limit on sort threads holds under every interleaving. Whatever the order in which sorts load
  the counter, exchange it, fail to and give back, the counter is the sum of what running sorts hold, it never exceeds
  the largest limit given, no sort holds more than it wanted, and when all have returned it is zero.
\<close>

theorem lease_limit_holds:
  assumes "lease_reachable want cap n s" "\<forall>i<n. cap i \<le> limit"
  shows "ls_leased s = sum_list (map held_by (ls_pcs s)) \<and> ls_leased s \<le> limit \<and> (\<forall>i<n. held_by (ls_pcs s ! i) \<le> want i)
    \<and> ((\<forall>pc\<in>set (ls_pcs s). pc = Returned) \<longrightarrow> ls_leased s = 0)"
  using lease_reachable_inv[OF assms] leases_returned[OF assms(1)] by (auto simp: lease_inv_def)

theorem lease_limit_holds_witness:
  "lease_reachable (\<lambda>_. 2) (\<lambda>_. 3) 2 \<lparr>ls_leased = 2, ls_pcs = [Sorting 2, At_start]\<rparr> \<and> (2 :: nat) \<le> 3"
proof -
  let ?w = "\<lambda>_ :: nat. 2 :: nat" and ?c = "\<lambda>_ :: nat. 3 :: nat"
  have "lease_reachable ?w ?c 2 (take_lease_step ?w ?c False 0 (take_lease_step ?w ?c False 0 \<lparr>ls_leased = 0, ls_pcs = replicate 2 At_start\<rparr>))"
    by (intro lease_step lease_init) simp_all
  then have r: "lease_reachable ?w ?c 2 \<lparr>ls_leased = 2, ls_pcs = [Sorting 2, At_start]\<rparr>"
    by (simp add: take_lease_step_def goto_pc_def lease_amount_def numeral_2_eq_2)
  show ?thesis using r lease_limit_holds[OF r, of 3] by simp
qed

end
