(* ===== verification/Rust_Str.thy ===== *)
theory Rust_Str
  imports Prelude
begin

text \<open>
  The operations of the standard library on strings that several components use, on the bytes of the
  string: searching, splitting, joining, ASCII case and decimal rendering. A pattern of one character
  is an ASCII character, so it is one byte.
\<close>

definition str_find :: "u8 \<Rightarrow> bytes \<Rightarrow> nat option" where
  "str_find b s = (let i = length (takeWhile (\<lambda>c. c \<noteq> b) s) in if i < length s then Some i else None)"

definition strip_prefix :: "bytes \<Rightarrow> bytes \<Rightarrow> bytes option" where
  "strip_prefix pre s = (if take (length pre) s = pre then Some (drop (length pre) s) else None)"

function str_split :: "u8 \<Rightarrow> bytes \<Rightarrow> bytes list" where
  "str_split b s = (if b \<in> set s then takeWhile (\<lambda>c. c \<noteq> b) s # str_split b (drop 1 (dropWhile (\<lambda>c. c \<noteq> b) s)) else [s])"
  by pat_completeness auto
termination
proof (relation "measure (\<lambda>(b, s). length s)", goal_cases)
  case (2 b s)
  then have "dropWhile (\<lambda>c. c \<noteq> b) s \<noteq> []" by (simp add: dropWhile_eq_Nil_conv)
  moreover have "length (dropWhile (\<lambda>c. c \<noteq> b) s) \<le> length s" by (rule length_dropWhile_le)
  ultimately show ?case by (cases "dropWhile (\<lambda>c. c \<noteq> b) s") auto
qed simp

declare str_split.simps [simp del]

definition str_rfind :: "bytes \<Rightarrow> bytes \<Rightarrow> nat option" where
  "str_rfind pat s = List.find (\<lambda>i. take (length pat) (drop i s) = pat) (rev [0..<length s])"

function dec_bytes :: "nat \<Rightarrow> bytes" where
  "dec_bytes n = (if n < 10 then [word_of_nat (48 + n)] else dec_bytes (n div 10) @ [word_of_nat (48 + n mod 10)])"
  by pat_completeness auto
termination by (relation "measure id") auto

declare dec_bytes.simps [simp del]

definition ascii_lower :: "u8 \<Rightarrow> u8" where "ascii_lower b = (if 65 \<le> b \<and> b \<le> 90 then b + 32 else b)"
definition to_ascii_lowercase :: "bytes \<Rightarrow> bytes" where "to_ascii_lowercase n = map ascii_lower n"
definition eq_ignore_ascii_case :: "bytes \<Rightarrow> bytes \<Rightarrow> bool" where
  "eq_ignore_ascii_case a b = (to_ascii_lowercase a = to_ascii_lowercase b)"

text \<open>Cells written one after the other with a separator between them.\<close>

fun join_with :: "u8 \<Rightarrow> bytes list \<Rightarrow> bytes" where
  "join_with d [] = []"
| "join_with d [s] = s"
| "join_with d (s # t # ss) = s @ d # join_with d (t # ss)"

lemma split_none: "b \<notin> set s \<Longrightarrow> str_split b s = [s]"
  by (subst str_split.simps) simp

lemma split_cons: "b \<notin> set a \<Longrightarrow> str_split b (a @ b # s) = a # str_split b s"
  by (subst str_split.simps) (simp add: takeWhile_append2 dropWhile_append2, simp add: takeWhile_eq_all_conv takeWhile_append dropWhile_append)

lemma split_join: "ss \<noteq> [] \<Longrightarrow> \<forall>s\<in>set ss. d \<notin> set s \<Longrightarrow> str_split d (join_with d ss) = ss"
  by (induction d ss rule: join_with.induct) (simp_all add: split_none split_cons)

lemma find_first: "b \<notin> set a \<Longrightarrow> str_find b (a @ b # s) = Some (length a)"
proof -
  assume "b \<notin> set a"
  then have "takeWhile (\<lambda>c. c \<noteq> b) (a @ b # s) = a" by (induction a) auto
  then show ?thesis by (simp add: str_find_def)
qed

lemma find_end: "b \<notin> set s \<Longrightarrow> str_find b s = None"
proof -
  assume "b \<notin> set s"
  then have "takeWhile (\<lambda>c. c \<noteq> b) s = s" by (induction s) auto
  then show ?thesis unfolding str_find_def Let_def by (simp only: less_irrefl if_False)
qed

text \<open>Pieces of valid UTF-8 make valid UTF-8.\<close>

lemma ascii_utf8: "\<forall>b\<in>set s. b < 128 \<Longrightarrow> utf8_valid s"
  by (induction s) auto

text \<open>A character of several bytes: its lead byte, and bytes that are not ASCII.\<close>

lemma utf8_char:
  assumes v: "utf8_valid (a # rest)" and a: "\<not> a < 0x80"
  obtains u rest' where "rest = u @ rest'" "\<forall>c\<in>set u. 0x80 \<le> c" "utf8_valid rest'" "\<And>r. utf8_valid (a # u @ r) = utf8_valid r"
proof -
  obtain b rest1 where r: "rest = b # rest1" using v a by (cases rest) simp_all
  show thesis
  proof (cases "0xC2 \<le> a \<and> a \<le> 0xDF")
    case True
    have "is_cont b" "utf8_valid rest1" using v a True by (simp_all add: r)
    then show thesis using True a by (intro that[of "[b]" rest1]) (simp_all add: r is_cont_def)
  next
    case two: False
    obtain c rest2 where r1: "rest1 = c # rest2" using v a two by (cases rest1) (simp_all only: r utf8_valid.simps if_False list.case)
    have lo: "0x80 \<le> b" if "0xA0 \<le> b \<or> 0x90 \<le> b \<or> 0x80 \<le> b" using that by (auto intro: order_trans[rotated])
    show thesis
    proof (cases "0xE0 \<le> a \<and> a \<le> 0xEF")
      case True
      then have "a = 0xE0 \<or> 0xE1 \<le> a \<and> a \<le> 0xEF" by (auto simp: word_le_nat_alt word_unat_eq_iff)
      then consider "a = 0xE0" | "a = 0xED" | "a \<noteq> 0xE0" "a \<noteq> 0xED" "0xE1 \<le> a \<and> a \<le> 0xEF" by blast
      then have bc: "0x80 \<le> b \<and> is_cont c \<and> utf8_valid rest2 \<and> (\<forall>t. utf8_valid (a # b # c # t) = utf8_valid t)"
      proof cases
        case 3
        have n: "(0xC2 \<le> a \<and> a \<le> 0xDF) = False" using two by blast
        have u: "utf8_valid (a # b # c # t) = (is_cont b \<and> is_cont c \<and> utf8_valid t)" for t
          using 3 by (simp only: utf8_valid.simps list.case a n if_False if_True simp_thms)
        show ?thesis using v unfolding r r1 u by (simp add: is_cont_def)
      qed (use v lo in \<open>simp_all add: r r1 is_cont_def\<close>)
      then show thesis by (intro that[of "[b, c]" rest2]) (simp_all add: r r1 is_cont_def del: utf8_valid.simps)
    next
      case False
      then have n: "a \<noteq> 0xE0" "a \<noteq> 0xED" "\<not> (0xE1 \<le> a \<and> a \<le> 0xEF)" by (auto intro: order_trans[rotated])
      obtain d rest3 where r2: "rest2 = d # rest3" using v a two n by (cases rest2) (simp_all only: r r1 utf8_valid.simps if_False list.case)
      have "0x80 \<le> b" "is_cont c" "is_cont d" "utf8_valid rest3" "\<And>t. utf8_valid (a # b # c # d # t) = utf8_valid t"
        using v a two n lo by (auto simp: r r1 r2 is_cont_def)
      then show thesis by (intro that[of "[b, c, d]" rest3]) (simp_all add: r r1 r2 is_cont_def del: utf8_valid.simps)
    qed
  qed
qed

lemma utf8_append: "utf8_valid a \<Longrightarrow> utf8_valid (a @ b) = utf8_valid b"
proof (induction "length a" arbitrary: a rule: less_induct)
  case less
  show ?case
  proof (cases a)
    case (Cons x rest)
    show ?thesis
    proof (cases "x < 0x80")
      case False
      obtain u rest' where "rest = u @ rest'" "utf8_valid rest'" "\<And>r. utf8_valid (x # u @ r) = utf8_valid r"
        using less.prems False unfolding Cons by (rule utf8_char) blast
      then show ?thesis using less.hyps[of rest'] by (simp add: Cons del: utf8_valid.simps)
    qed (use less Cons in simp)
  qed simp
qed

definition ascii_map :: "(u8 \<Rightarrow> bytes) \<Rightarrow> bool" where
  "ascii_map f \<longleftrightarrow> (\<forall>c. if c < 128 then \<forall>b\<in>set (f c). b < 128 else f c = [c])"

lemma utf8_map:
  assumes "ascii_map f" "utf8_valid s"
  shows "utf8_valid (concat (map f s))"
  using assms(2)
proof (induction "length s" arbitrary: s rule: less_induct)
  case less
  have keep: "f c = [c]" if "0x80 \<le> c" for c using assms(1) that by (simp add: ascii_map_def)
  show ?case
  proof (cases s)
    case (Cons x rest)
    show ?thesis
    proof (cases "x < 0x80")
      case True
      then have "utf8_valid (f x)" using assms(1) by (intro ascii_utf8) (simp add: ascii_map_def)
      then show ?thesis using less Cons True by (simp add: utf8_append)
    next
      case False
      obtain u rest' where u: "rest = u @ rest'" "\<forall>c\<in>set u. 0x80 \<le> c" "utf8_valid rest'" "\<And>r. utf8_valid (x # u @ r) = utf8_valid r"
        using less.prems False unfolding Cons by (rule utf8_char) blast
      have "concat (map f u) = u" using u(2) keep by (induction u) auto
      then show ?thesis using less.hyps[of rest'] u(3,4) keep[of x] False by (simp add: Cons u(1) not_less del: utf8_valid.simps)
    qed
  qed simp
qed

end
