(* ===== verification/Users.thy ===== *)
theory Users
  imports Rust_Collections Rust_Str Blake3 Sha256 "HOL-Library.List_Lexorder"
begin

text \<open>
  The user table (\<open>spg-engine/src/users.rs\<close>): roles and their attributes, the stored forms of a
  password, role membership and its closures. A name is its UTF-8 bytes, in whose order the maps are
  kept. The digests of the \<open>sha1\<close> and \<open>sha2\<close> crates are parameters; all that is assumed of them is
  the length of a digest.
\<close>

type_synonym name = bytes

definition SALT_LEN :: nat where "SALT_LEN = 16"
definition HASH_LEN :: nat where "HASH_LEN = 32"
definition MYSQL_NATIVE_HASH_LEN :: nat where "MYSQL_NATIVE_HASH_LEN = 20"
definition CACHING_SHA2_HASH_LEN :: nat where "CACHING_SHA2_HASH_LEN = 32"
definition SCRAM_SALT_LEN :: nat where "SCRAM_SALT_LEN = 16"
definition SCRAM_DEFAULT_ITERS :: u32 where "SCRAM_DEFAULT_ITERS = 4096"

lemmas user_lengths = SALT_LEN_def HASH_LEN_def MYSQL_NATIVE_HASH_LEN_def CACHING_SHA2_HASH_LEN_def SCRAM_SALT_LEN_def

record digest_crates =
  dc_sha1 :: "bytes \<Rightarrow> bytes"
  dc_sha256 :: "bytes \<Rightarrow> bytes"

definition digest_lengths :: "digest_crates \<Rightarrow> bool" where
  "digest_lengths dc \<longleftrightarrow> (\<forall>x. length (dc_sha1 dc x) = 20) \<and> (\<forall>x. length (dc_sha256 dc x) = 32)"

datatype role = Admin | ReadWrite | ReadOnly

fun can_read :: "role \<Rightarrow> bool" where "can_read r = True"
fun can_write :: "role \<Rightarrow> bool" where "can_write r = (r = Admin \<or> r = ReadWrite)"
fun can_manage_users :: "role \<Rightarrow> bool" where "can_manage_users r = (r = Admin)"

record scram_secrets =
  scr_iters :: u32
  scr_salt :: bytes
  scr_stored_key :: bytes
  scr_server_key :: bytes

record user_record =
  ur_role :: role
  ur_salt :: bytes
  ur_hash :: bytes
  ur_scram :: "scram_secrets option"
  ur_mysql_native :: "bytes option"
  ur_caching_sha2 :: "bytes option"
  ur_can_login :: bool
  ur_password_declared :: bool
  ur_inherit :: bool
  ur_superuser :: bool

record user_store =
  st_users :: "(name, user_record) btmap"
  st_memberships :: "(name, name btset) btmap"

datatype user_error = Exists | NotFound | InvalidRole | EmptyName | EmptyPassword

section \<open>Stored forms of a password\<close>

definition derive_hash :: "bytes \<Rightarrow> bytes \<Rightarrow> bytes" where
  "derive_hash salt password = blake3 (salt @ password)"

definition compute_mysql_native_hash :: "digest_crates \<Rightarrow> bytes \<Rightarrow> bytes" where
  "compute_mysql_native_hash dc password = dc_sha1 dc (dc_sha1 dc password)"

definition compute_caching_sha2_hash :: "digest_crates \<Rightarrow> bytes \<Rightarrow> bytes" where
  "compute_caching_sha2_hash dc password = dc_sha256 dc (dc_sha256 dc password)"

definition CLIENT_KEY :: bytes where "CLIENT_KEY = [0x43, 0x6C, 0x69, 0x65, 0x6E, 0x74, 0x20, 0x4B, 0x65, 0x79]"
definition SERVER_KEY :: bytes where "SERVER_KEY = [0x53, 0x65, 0x72, 0x76, 0x65, 0x72, 0x20, 0x4B, 0x65, 0x79]"

definition compute_scram_secrets :: "bytes \<Rightarrow> bytes \<Rightarrow> u32 \<Rightarrow> scram_secrets" where
  "compute_scram_secrets password salt iters =
     (let salted = pbkdf2_sha256_32 password salt (unat iters);
          client_key = hmac_sha256 salted CLIENT_KEY;
          stored_key = sha256 client_key;
          server_key = hmac_sha256 salted SERVER_KEY
      in \<lparr>scr_iters = iters, scr_salt = salt, scr_stored_key = stored_key, scr_server_key = server_key\<rparr>)"

text \<open>The comparison that does not stop at the first difference.\<close>

definition constant_time_eq :: "nat \<Rightarrow> bytes \<Rightarrow> bytes \<Rightarrow> bool" where
  "constant_time_eq n a b = (foldl (\<lambda>diff i. diff OR (a ! i XOR b ! i)) 0 [0..<n] = 0)"

definition user_verify :: "user_record \<Rightarrow> bytes \<Rightarrow> bool" where
  "user_verify r password = constant_time_eq HASH_LEN (derive_hash (ur_salt r) password) (ur_hash r)"

definition has_credentials :: "user_record \<Rightarrow> bool" where
  "has_credentials r = (ur_can_login r \<and> ur_password_declared r)"

definition verify_caching_sha2_password :: "digest_crates \<Rightarrow> user_record \<Rightarrow> bytes \<Rightarrow> bytes \<Rightarrow> bool" where
  "verify_caching_sha2_password dc r scramble client_response =
     (case ur_caching_sha2 r of
        None \<Rightarrow> False
      | Some stored \<Rightarrow>
          if length client_response \<noteq> CACHING_SHA2_HASH_LEN then False
          else if length scramble \<noteq> 20 then False
          else
            (let mask = dc_sha256 dc (scramble @ stored);
                 recovered = map (\<lambda>i. client_response ! i XOR mask ! i) [0..<CACHING_SHA2_HASH_LEN];
                 candidate = dc_sha256 dc recovered
             in constant_time_eq HASH_LEN candidate stored))"

definition verify_mysql_native_password :: "digest_crates \<Rightarrow> user_record \<Rightarrow> bytes \<Rightarrow> bytes \<Rightarrow> bool" where
  "verify_mysql_native_password dc r scramble client_response =
     (case ur_mysql_native r of
        None \<Rightarrow> False
      | Some stored \<Rightarrow>
          if length client_response \<noteq> MYSQL_NATIVE_HASH_LEN then False
          else if length scramble \<noteq> 20 then False
          else
            (let mask = dc_sha1 dc (scramble @ stored);
                 recovered = map (\<lambda>i. client_response ! i XOR mask ! i) [0..<MYSQL_NATIVE_HASH_LEN];
                 candidate = dc_sha1 dc recovered
             in constant_time_eq MYSQL_NATIVE_HASH_LEN candidate stored))"

section \<open>The table\<close>

definition store_new :: user_store where "store_new = \<lparr>st_users = [], st_memberships = []\<rparr>"

definition store_get :: "user_store \<Rightarrow> name \<Rightarrow> user_record option" where
  "store_get st n = bm_get (st_users st) n"

definition store_create :: "digest_crates \<Rightarrow> name \<Rightarrow> bytes \<Rightarrow> role \<Rightarrow> bytes \<Rightarrow> user_store \<Rightarrow> user_error + user_store" where
  "store_create dc n password rl salt st =
     (if n = [] then Inl EmptyName
      else if password = [] then Inl EmptyPassword
      else if store_get st n \<noteq> None then Inl Exists
      else Inr (st\<lparr>st_users := bm_insert n
        \<lparr>ur_role = rl, ur_salt = salt, ur_hash = derive_hash salt password, ur_scram = None,
         ur_mysql_native = Some (compute_mysql_native_hash dc password), ur_caching_sha2 = Some (compute_caching_sha2_hash dc password),
         ur_can_login = True, ur_password_declared = True, ur_inherit = True, ur_superuser = (rl = Admin)\<rparr> (st_users st)\<rparr>))"

definition update_user :: "name \<Rightarrow> (user_record \<Rightarrow> user_record) \<Rightarrow> user_store \<Rightarrow> user_store" where
  "update_user n f st = (case store_get st n of None \<Rightarrow> st | Some r \<Rightarrow> st\<lparr>st_users := bm_insert n (f r) (st_users st)\<rparr>)"

definition set_attributes :: "name \<Rightarrow> bool \<Rightarrow> bool \<Rightarrow> bool \<Rightarrow> user_store \<Rightarrow> user_store" where
  "set_attributes n can_login inherit superuser =
     update_user n (\<lambda>r. r\<lparr>ur_can_login := can_login, ur_inherit := inherit, ur_superuser := superuser\<rparr>)"

definition set_password_declared :: "name \<Rightarrow> bool \<Rightarrow> user_store \<Rightarrow> user_store" where
  "set_password_declared n declared = update_user n (\<lambda>r. r\<lparr>ur_password_declared := declared\<rparr>)"

definition UNREACHABLE :: bytes where
  "UNREACHABLE = [0, 0x75, 0x6E, 0x72, 0x65, 0x61, 0x63, 0x68, 0x61, 0x62, 0x6C, 0x65]"

definition set_password :: "digest_crates \<Rightarrow> name \<Rightarrow> bytes option \<Rightarrow> bytes \<Rightarrow> user_store \<Rightarrow> user_error + user_store" where
  "set_password dc n password salt st =
     (if store_get st n = None then Inl NotFound
      else (case password of
              Some p \<Rightarrow>
                if p = [] then Inl EmptyPassword
                else Inr (update_user n (\<lambda>r. r\<lparr>ur_salt := salt, ur_hash := derive_hash salt p,
                       ur_mysql_native := Some (compute_mysql_native_hash dc p), ur_caching_sha2 := Some (compute_caching_sha2_hash dc p),
                       ur_password_declared := True\<rparr>) st)
            | None \<Rightarrow>
                (let anti = take SALT_LEN (blake3 salt)
                 in Inr (update_user n (\<lambda>r. r\<lparr>ur_salt := salt, ur_hash := derive_hash anti UNREACHABLE,
                       ur_mysql_native := None, ur_caching_sha2 := None, ur_scram := None, ur_password_declared := False\<rparr>) st))))"

definition enable_scram :: "name \<Rightarrow> bytes \<Rightarrow> bytes \<Rightarrow> u32 \<Rightarrow> user_store \<Rightarrow> user_error + user_store" where
  "enable_scram n password salt iters st =
     (if store_get st n = None then Inl NotFound
      else Inr (update_user n (\<lambda>r. r\<lparr>ur_scram := Some (compute_scram_secrets password salt iters)\<rparr>) st))"

definition store_verify :: "user_store \<Rightarrow> name \<Rightarrow> bytes \<Rightarrow> role option" where
  "store_verify st n password =
     (case store_get st n of None \<Rightarrow> None | Some r \<Rightarrow> if user_verify r password then Some (ur_role r) else None)"

definition store_drop :: "name \<Rightarrow> user_store \<Rightarrow> (user_error + unit) \<times> user_store" where
  "store_drop n st =
     (let st1 = st\<lparr>st_memberships := map (\<lambda>(m, rs). (m, bs_remove n rs)) (bm_remove n (st_memberships st))\<rparr>
      in (case store_get st n of
            None \<Rightarrow> (Inl NotFound, st1)
          | Some _ \<Rightarrow> (Inr (), st1\<lparr>st_users := bm_remove n (st_users st1)\<rparr>)))"

section \<open>Membership\<close>

definition add_member :: "name \<Rightarrow> name \<Rightarrow> user_store \<Rightarrow> user_store" where
  "add_member rl member st =
     st\<lparr>st_memberships := bm_insert member (bs_insert rl (case bm_get (st_memberships st) member of None \<Rightarrow> [] | Some s \<Rightarrow> s)) (st_memberships st)\<rparr>"

definition drop_member :: "name \<Rightarrow> name \<Rightarrow> user_store \<Rightarrow> user_store" where
  "drop_member rl member st =
     (case bm_get (st_memberships st) member of
        None \<Rightarrow> st
      | Some s \<Rightarrow>
          (let s1 = bs_remove rl s
           in st\<lparr>st_memberships := (if s1 = [] then bm_remove member (st_memberships st) else bm_insert member s1 (st_memberships st))\<rparr>))"

definition memberships_of :: "user_store \<Rightarrow> name \<Rightarrow> name list" where
  "memberships_of st member = (case bm_get (st_memberships st) member of None \<Rightarrow> [] | Some s \<Rightarrow> s)"

definition all_memberships :: "user_store \<Rightarrow> (name \<times> name) list" where
  "all_memberships st = concat (map (\<lambda>(m, rs). map (\<lambda>r. (m, r)) rs) (st_memberships st))"

definition inherits :: "user_store \<Rightarrow> name \<Rightarrow> bool" where
  "inherits st n = (case store_get st n of None \<Rightarrow> True | Some r \<Rightarrow> ur_inherit r)"

text \<open>The queue is a stack; its top is the head of the list.\<close>

definition all_roles :: "user_store \<Rightarrow> name set" where
  "all_roles st = \<Union> (set ` snd ` set (st_memberships st))"

lemma finite_all_roles [simp]: "finite (all_roles st)"
  by (auto simp: all_roles_def)

lemma memberships_in_roles: "set (memberships_of st m) \<subseteq> all_roles st"
proof (cases "bm_get (st_memberships st) m")
  case (Some s)
  then have "(m, s) \<in> set (st_memberships st)" by (rule bm_get_Some_in)
  then show ?thesis using Some by (force simp: memberships_of_def all_roles_def)
qed (simp add: memberships_of_def)

function effective_loop :: "user_store \<Rightarrow> name list \<Rightarrow> name btset \<Rightarrow> name btset" where
  "effective_loop st [] out = out"
| "effective_loop st (r # queue) out =
     (if bs_contains out r then effective_loop st queue out
      else effective_loop st (if inherits st r then rev (memberships_of st r) @ queue else queue) (bs_insert r out))"
  by pat_completeness auto
termination
proof (relation "measures [\<lambda>(st, queue, out). card ((set queue \<union> all_roles st) - set out), \<lambda>(st, queue, out). length queue]", goal_cases)
  case (2 st r queue out)
  have "card ((set queue \<union> all_roles st) - set out) \<le> card ((set (r # queue) \<union> all_roles st) - set out)" by (rule card_mono) auto
  then show ?case by (simp add: le_less)
next
  case (3 st r queue out)
  let ?q = "if inherits st r then rev (memberships_of st r) @ queue else queue"
  have "(set ?q \<union> all_roles st) - set (bs_insert r out) \<subset> (set (r # queue) \<union> all_roles st) - set out"
    using 3 memberships_in_roles[of st r] by (auto simp: bs_contains_def)
  then have "card ((set ?q \<union> all_roles st) - set (bs_insert r out)) < card ((set (r # queue) \<union> all_roles st) - set out)"
    by (rule psubset_card_mono[rotated]) simp
  then show ?case by simp
qed simp

definition effective_roles :: "user_store \<Rightarrow> name \<Rightarrow> name btset" where
  "effective_roles st rl =
     (if \<not> inherits st rl then bs_insert rl []
      else effective_loop st (rev (memberships_of st rl)) (bs_insert rl []))"


fun push_roles :: "name list \<Rightarrow> name list \<times> name btset \<Rightarrow> name list \<times> name btset" where
  "push_roles [] (queue, seen) = (queue, seen)"
| "push_roles (r # rs) (queue, seen) =
     (let l = to_ascii_lowercase r
      in if bs_contains seen l then push_roles rs (queue, seen) else push_roles rs (r # queue, bs_insert l seen))"

fun push_entries :: "(name, name btset) btmap \<Rightarrow> name \<Rightarrow> name list \<times> name btset \<Rightarrow> name list \<times> name btset" where
  "push_entries [] cur qs = qs"
| "push_entries ((m, roles) # rest) cur qs =
     push_entries rest cur (if eq_ignore_ascii_case m cur then push_roles roles qs else qs)"

text \<open>What one step of the search adds: the lower-case names of the new roles, one queue element for each.\<close>

lemma push_roles_adds:
  "\<exists>new. push_roles rs (queue, seen) = (new @ queue, snd (push_roles rs (queue, seen)))
    \<and> set (snd (push_roles rs (queue, seen))) = set seen \<union> to_ascii_lowercase ` set new
    \<and> to_ascii_lowercase ` set rs \<subseteq> set seen \<union> to_ascii_lowercase ` set new
    \<and> set new \<subseteq> set rs \<and> to_ascii_lowercase ` set new \<inter> set seen = {}"
proof (induction rs arbitrary: queue seen)
  case (Cons r rs)
  let ?l = "to_ascii_lowercase r"
  show ?case
  proof (cases "?l \<in> set seen")
    case True
    then show ?thesis using Cons.IH[of queue seen] by (auto simp: bs_contains_def)
  next
    case False
    obtain new where n: "push_roles rs (r # queue, bs_insert ?l seen) = (new @ r # queue, snd (push_roles rs (r # queue, bs_insert ?l seen)))"
      "set (snd (push_roles rs (r # queue, bs_insert ?l seen))) = set (bs_insert ?l seen) \<union> to_ascii_lowercase ` set new"
      "to_ascii_lowercase ` set rs \<subseteq> set (bs_insert ?l seen) \<union> to_ascii_lowercase ` set new"
      "set new \<subseteq> set rs" "to_ascii_lowercase ` set new \<inter> set (bs_insert ?l seen) = {}"
      using Cons.IH[of "r # queue" "bs_insert ?l seen"] by blast
    show ?thesis
      by (rule exI[of _ "new @ [r]"]) (use n False in \<open>auto simp: bs_contains_def Let_def\<close>)
  qed
qed simp

definition lower_edges :: "user_store \<Rightarrow> (name \<times> name) set" where
  "lower_edges st = {(to_ascii_lowercase m, to_ascii_lowercase r) | m r rs. (m, rs) \<in> set (st_memberships st) \<and> r \<in> set rs}"

definition entry_edges :: "(name, name btset) btmap \<Rightarrow> name \<Rightarrow> name set" where
  "entry_edges ms cur = {r. \<exists>m rs. (m, rs) \<in> set ms \<and> eq_ignore_ascii_case m cur \<and> r \<in> set rs}"

lemma push_entries_adds:
  "\<exists>new. fst (push_entries ms cur (queue, seen)) = new @ queue
    \<and> set (snd (push_entries ms cur (queue, seen))) = set seen \<union> to_ascii_lowercase ` set new
    \<and> to_ascii_lowercase ` entry_edges ms cur \<subseteq> set seen \<union> to_ascii_lowercase ` set new
    \<and> set new \<subseteq> entry_edges ms cur \<and> to_ascii_lowercase ` set new \<inter> set seen = {}"
proof (induction ms arbitrary: queue seen)
  case Nil
  show ?case by (simp add: entry_edges_def)
next
  case (Cons e ms)
  obtain m rs where e: "e = (m, rs)" by fastforce
  show ?case
  proof (cases "eq_ignore_ascii_case m cur")
    case False
    then have "entry_edges (e # ms) cur = entry_edges ms cur" using e by (auto simp: entry_edges_def)
    then show ?thesis using Cons.IH[of queue seen] False e by simp
  next
    case True
    then have ee: "entry_edges (e # ms) cur = set rs \<union> entry_edges ms cur" using e by (auto simp: entry_edges_def)
    obtain new seen1 where n: "push_roles rs (queue, seen) = (new @ queue, seen1)" "set seen1 = set seen \<union> to_ascii_lowercase ` set new"
      "to_ascii_lowercase ` set rs \<subseteq> set seen \<union> to_ascii_lowercase ` set new" "set new \<subseteq> set rs" "to_ascii_lowercase ` set new \<inter> set seen = {}"
      using push_roles_adds[of rs queue seen] by (elim exE conjE) (rule that)
    obtain new2 where k: "fst (push_entries ms cur (new @ queue, seen1)) = new2 @ new @ queue"
      "set (snd (push_entries ms cur (new @ queue, seen1))) = set seen1 \<union> to_ascii_lowercase ` set new2"
      "to_ascii_lowercase ` entry_edges ms cur \<subseteq> set seen1 \<union> to_ascii_lowercase ` set new2"
      "set new2 \<subseteq> entry_edges ms cur" "to_ascii_lowercase ` set new2 \<inter> set seen1 = {}"
      using Cons.IH[of "new @ queue" seen1] by blast
    let ?p = "push_entries (e # ms) cur (queue, seen)"
    have p: "?p = push_entries ms cur (new @ queue, seen1)" using True e n(1) by simp
    have "fst ?p = (new2 @ new) @ queue" using k(1) by (simp add: p)
    moreover have "set (snd ?p) = set seen \<union> to_ascii_lowercase ` set (new2 @ new)" unfolding p k(2) n(2) by auto
    moreover have "to_ascii_lowercase ` (set rs \<union> entry_edges ms cur) \<subseteq> set seen \<union> to_ascii_lowercase ` set (new2 @ new)"
      using n(3) k(3) n(2) by (simp only: image_Un set_append) blast
    moreover have "set (new2 @ new) \<subseteq> set rs \<union> entry_edges ms cur" using n(4) k(4) by (simp only: set_append) blast
    moreover have "to_ascii_lowercase ` set (new2 @ new) \<inter> set seen = {}" using n(2,5) k(5) by (simp only: image_Un set_append) blast
    ultimately show ?thesis unfolding ee by blast
  qed
qed

function transitive_loop :: "user_store \<Rightarrow> name list \<Rightarrow> name btset \<Rightarrow> name btset" where
  "transitive_loop st [] seen = seen"
| "transitive_loop st (cur # queue) seen =
     (case push_entries (st_memberships st) cur (queue, seen) of (queue1, seen1) \<Rightarrow> transitive_loop st queue1 seen1)"
  by pat_completeness auto
termination
proof (relation "measures [\<lambda>(st, queue, seen). card (to_ascii_lowercase ` all_roles st - set seen), \<lambda>(st, queue, seen). length queue]", goal_cases)
  case (2 st cur queue seen queue1 seen1)
  obtain new where n: "queue1 = new @ queue" "set seen1 = set seen \<union> to_ascii_lowercase ` set new"
    "set new \<subseteq> entry_edges (st_memberships st) cur" "to_ascii_lowercase ` set new \<inter> set seen = {}"
    using push_entries_adds[of "st_memberships st" cur queue seen, folded 2] unfolding fst_conv snd_conv by blast
  have r: "entry_edges (st_memberships st) cur \<subseteq> all_roles st" by (force simp: entry_edges_def all_roles_def)
  show ?case
  proof (cases "new = []")
    case False
    then obtain a where a: "a \<in> set new" by (cases new) auto
    then have "to_ascii_lowercase a \<in> to_ascii_lowercase ` all_roles st - set seen" "to_ascii_lowercase a \<in> set seen1" using n(2-4) r by blast+
    then have "to_ascii_lowercase ` all_roles st - set seen1 \<subset> to_ascii_lowercase ` all_roles st - set seen" using n(2) by blast
    then show ?thesis by (simp add: psubset_card_mono)
  qed (use n in simp)
qed simp

definition memberships_of_transitive :: "user_store \<Rightarrow> name \<Rightarrow> name btset" where
  "memberships_of_transitive st member = transitive_loop st [member] []"


section \<open>The closures are reachability\<close>

definition inherit_edges :: "user_store \<Rightarrow> (name \<times> name) set" where
  "inherit_edges st = {(a, b). inherits st a \<and> b \<in> set (memberships_of st a)}"

lemma effective_loop_closed:
  assumes "\<forall>x\<in>set out. (rl, x) \<in> (inherit_edges st)\<^sup>*" "\<forall>q\<in>set queue. (rl, q) \<in> (inherit_edges st)\<^sup>*"
    and "\<forall>x\<in>set out. \<forall>y. (x, y) \<in> inherit_edges st \<longrightarrow> y \<in> set out \<union> set queue" "rl \<in> set out"
  shows "set (effective_loop st queue out) = (inherit_edges st)\<^sup>* `` {rl}"
  using assms
proof (induction st queue out rule: effective_loop.induct)
  case (1 st out)
  have "y \<in> set out" if "(rl, y) \<in> (inherit_edges st)\<^sup>*" for y
    using that 1(4) 1(3) by (induction rule: rtrancl_induct) auto
  then show ?case using 1(1) by auto
next
  case (2 st r queue out)
  show ?case
  proof (cases "bs_contains out r")
    case True
    then show ?thesis using 2 by (auto simp: bs_contains_def)
  next
    case False
    let ?q = "if inherits st r then rev (memberships_of st r) @ queue else queue"
    have r: "(rl, r) \<in> (inherit_edges st)\<^sup>*" using 2(4) by simp
    have "set (effective_loop st ?q (bs_insert r out)) = (inherit_edges st)\<^sup>* `` {rl}"
    proof (rule 2(2)[OF False])
      show "\<forall>x\<in>set (bs_insert r out). (rl, x) \<in> (inherit_edges st)\<^sup>*" using 2(3) r by simp
      show "\<forall>q\<in>set ?q. (rl, q) \<in> (inherit_edges st)\<^sup>*"
        using 2(4) r by (auto simp: inherit_edges_def intro: rtrancl_into_rtrancl)
      show "\<forall>x\<in>set (bs_insert r out). \<forall>y. (x, y) \<in> inherit_edges st \<longrightarrow> y \<in> set (bs_insert r out) \<union> set ?q"
        using 2(5) by (auto simp: inherit_edges_def)
      show "rl \<in> set (bs_insert r out)" using 2(6) by simp
    qed
    then show ?thesis using False by simp
  qed
qed

lemma effective_roles_reachable: "set (effective_roles st rl) = (inherit_edges st)\<^sup>* `` {rl}"
proof (cases "inherits st rl")
  case True
  then have "set (effective_loop st (rev (memberships_of st rl)) (bs_insert rl [])) = (inherit_edges st)\<^sup>* `` {rl}"
    by (intro effective_loop_closed) (auto simp: inherit_edges_def)
  then show ?thesis using True by (simp add: effective_roles_def)
next
  case False
  then have "y = rl" if "(rl, y) \<in> (inherit_edges st)\<^sup>*" for y
    using that by (auto simp: inherit_edges_def elim: converse_rtranclE)
  then show ?thesis using False by (auto simp: effective_roles_def)
qed

lemma entry_edges_lower:
  "to_ascii_lowercase ` entry_edges (st_memberships st) cur = {y. (to_ascii_lowercase cur, y) \<in> lower_edges st}"
  unfolding entry_edges_def lower_edges_def eq_ignore_ascii_case_def by (rule set_eqI) (simp add: image_iff, metis)

lemma transitive_loop_closed:
  assumes "\<forall>x\<in>set seen. (to_ascii_lowercase member, x) \<in> (lower_edges st)\<^sup>+"
    and "\<forall>q\<in>set queue. (to_ascii_lowercase member, to_ascii_lowercase q) \<in> (lower_edges st)\<^sup>*"
    and "\<forall>x\<in>insert (to_ascii_lowercase member) (set seen). x \<in> to_ascii_lowercase ` set queue \<or> (\<forall>y. (x, y) \<in> lower_edges st \<longrightarrow> y \<in> set seen)"
  shows "set (transitive_loop st queue seen) = {y. (to_ascii_lowercase member, y) \<in> (lower_edges st)\<^sup>+}"
  using assms
proof (induction st queue seen rule: transitive_loop.induct)
  case (1 st seen)
  have "y \<in> set seen" if "(to_ascii_lowercase member, y) \<in> (lower_edges st)\<^sup>+" for y
    using that 1(3) by (induction rule: trancl_induct) auto
  then show ?case using 1(1) by auto
next
  case (2 st cur queue seen)
  obtain queue1 seen1 where p: "push_entries (st_memberships st) cur (queue, seen) = (queue1, seen1)" by fastforce
  let ?m = "to_ascii_lowercase member" and ?c = "to_ascii_lowercase cur"
  obtain new where n: "queue1 = new @ queue" "set seen1 = set seen \<union> to_ascii_lowercase ` set new"
    "to_ascii_lowercase ` entry_edges (st_memberships st) cur \<subseteq> set seen \<union> to_ascii_lowercase ` set new"
    "set new \<subseteq> entry_edges (st_memberships st) cur"
    using push_entries_adds[of "st_memberships st" cur queue seen] unfolding p fst_conv snd_conv by blast
  have c: "(?m, ?c) \<in> (lower_edges st)\<^sup>*" using 2(3) by simp
  have succ: "(?c, to_ascii_lowercase a) \<in> lower_edges st" if "a \<in> set new" for a
    using n(4) that entry_edges_lower[of st cur] by blast
  have all_succ: "\<forall>y. (?c, y) \<in> lower_edges st \<longrightarrow> y \<in> set seen1" using n(3) unfolding entry_edges_lower n(2) by blast
  have new: "(?m, to_ascii_lowercase a) \<in> (lower_edges st)\<^sup>+" if "a \<in> set new" for a
    using c succ[OF that] by (rule rtrancl_into_trancl1)
  have "set (transitive_loop st queue1 seen1) = {y. (?m, y) \<in> (lower_edges st)\<^sup>+}"
  proof (rule 2(1)[OF p[symmetric]])
    show "\<forall>x\<in>set seen1. (?m, x) \<in> (lower_edges st)\<^sup>+" using 2(2) new unfolding n(2) by blast
    show "\<forall>q\<in>set queue1. (?m, to_ascii_lowercase q) \<in> (lower_edges st)\<^sup>*" using 2(3) new n(1) by (auto intro: trancl_into_rtrancl)
    show "\<forall>x\<in>insert ?m (set seen1). x \<in> to_ascii_lowercase ` set queue1 \<or> (\<forall>y. (x, y) \<in> lower_edges st \<longrightarrow> y \<in> set seen1)"
    proof
      fix x assume "x \<in> insert ?m (set seen1)"
      then consider "x \<in> to_ascii_lowercase ` set new" | "x = ?c" | "x \<in> insert ?m (set seen)" "x \<noteq> ?c" unfolding n(2) by blast
      then show "x \<in> to_ascii_lowercase ` set queue1 \<or> (\<forall>y. (x, y) \<in> lower_edges st \<longrightarrow> y \<in> set seen1)"
      proof cases
        case 2
        then show ?thesis using all_succ by simp
      next
        case 3
        then have "x \<in> to_ascii_lowercase ` set (cur # queue) \<or> (\<forall>y. (x, y) \<in> lower_edges st \<longrightarrow> y \<in> set seen)" using "2.prems"(3) by blast
        then show ?thesis using 3(2) n(1,2) by auto
      qed (use n(1) in auto)
    qed
  qed
  then show ?case by (simp add: p)
qed

lemma memberships_of_transitive_reachable:
  "set (memberships_of_transitive st member) = {y. (to_ascii_lowercase member, y) \<in> (lower_edges st)\<^sup>+}"
  unfolding memberships_of_transitive_def by (rule transitive_loop_closed) auto


section \<open>Well-formed tables\<close>

definition scram_ok :: "scram_secrets \<Rightarrow> bool" where
  "scram_ok s \<longleftrightarrow> length (scr_salt s) = SCRAM_SALT_LEN \<and> length (scr_stored_key s) = HASH_LEN \<and> length (scr_server_key s) = HASH_LEN"

definition user_ok :: "user_record \<Rightarrow> bool" where
  "user_ok r \<longleftrightarrow> length (ur_salt r) = SALT_LEN \<and> length (ur_hash r) = HASH_LEN \<and> pred_option scram_ok (ur_scram r)
     \<and> pred_option (\<lambda>h. length h = MYSQL_NATIVE_HASH_LEN) (ur_mysql_native r) \<and> pred_option (\<lambda>h. length h = CACHING_SHA2_HASH_LEN) (ur_caching_sha2 r)"

definition store_ok :: "user_store \<Rightarrow> bool" where
  "store_ok st \<longleftrightarrow> bm_inv (st_users st) \<and> bm_inv (st_memberships st) \<and> (\<forall>r\<in>snd ` set (st_users st). user_ok r)
     \<and> (\<forall>rs\<in>snd ` set (st_memberships st). ascending rs)"

lemma length_hash_forms [simp]: "length (derive_hash salt p) = HASH_LEN" "digest_lengths dc \<Longrightarrow> length (compute_mysql_native_hash dc p) = MYSQL_NATIVE_HASH_LEN"
  "digest_lengths dc \<Longrightarrow> length (compute_caching_sha2_hash dc p) = CACHING_SHA2_HASH_LEN"
  by (simp_all add: derive_hash_def compute_mysql_native_hash_def compute_caching_sha2_hash_def digest_lengths_def user_lengths)

lemma scram_secrets_ok: "length salt = SCRAM_SALT_LEN \<Longrightarrow> scram_ok (compute_scram_secrets p salt iters)"
  by (simp add: scram_ok_def compute_scram_secrets_def Let_def user_lengths hmac_sha256_spec)

lemma store_ok_get: "store_ok st \<Longrightarrow> store_get st n = Some r \<Longrightarrow> user_ok r"
  unfolding store_ok_def store_get_def by (force dest!: bm_get_Some_in)

lemma store_ok_put:
  assumes "store_ok st" "user_ok r"
  shows "store_ok (st\<lparr>st_users := bm_insert n r (st_users st)\<rparr>)"
proof -
  have "\<forall>x\<in>snd ` set (bm_insert n r (st_users st)). user_ok x"
    using set_bm_insert_subset[of n r "st_users st"] assms by (fastforce simp: store_ok_def)
  then show ?thesis using assms by (simp add: store_ok_def bm_inv_insert)
qed

lemma update_user_ok:
  assumes "store_ok st" "\<And>r. store_get st n = Some r \<Longrightarrow> user_ok r \<Longrightarrow> user_ok (f r)"
  shows "store_ok (update_user n f st)"
proof (cases "store_get st n")
  case (Some r)
  then show ?thesis using assms(2)[OF Some store_ok_get[OF assms(1) Some]] store_ok_put[OF assms(1)] by (simp add: update_user_def)
qed (use assms(1) in \<open>simp add: update_user_def\<close>)

lemma store_ok_members:
  assumes "store_ok st" "bm_inv ms" "\<forall>rs\<in>snd ` set ms. ascending rs"
  shows "store_ok (st\<lparr>st_memberships := ms\<rparr>)"
  using assms by (simp add: store_ok_def)

lemma member_set_ascending: "store_ok st \<Longrightarrow> bm_get (st_memberships st) m = Some s \<Longrightarrow> ascending s"
  unfolding store_ok_def by (force dest!: bm_get_Some_in)

lemma members_put:
  assumes "store_ok st" "ascending s"
  shows "store_ok (st\<lparr>st_memberships := bm_insert m s (st_memberships st)\<rparr>)"
proof (rule store_ok_members[OF assms(1)])
  show "bm_inv (bm_insert m s (st_memberships st))" using assms(1) by (simp add: store_ok_def bm_inv_insert)
  show "\<forall>rs\<in>snd ` set (bm_insert m s (st_memberships st)). ascending rs"
    using assms set_bm_insert_subset[of m s "st_memberships st"] by (fastforce simp: store_ok_def)
qed

lemma add_member_ok:
  assumes "store_ok st"
  shows "store_ok (add_member rl m st)"
proof -
  have "ascending (case bm_get (st_memberships st) m of None \<Rightarrow> [] | Some s \<Rightarrow> s)"
    using member_set_ascending[OF assms] by (cases "bm_get (st_memberships st) m") simp_all
  then show ?thesis unfolding add_member_def by (intro members_put[OF assms] ascending_bs_insert)
qed

lemma drop_member_ok:
  assumes "store_ok st"
  shows "store_ok (drop_member rl m st)"
proof (cases "bm_get (st_memberships st) m")
  case (Some s)
  have "ascending (bs_remove rl s)" using member_set_ascending[OF assms Some] by (rule ascending_bs_remove)
  then have "store_ok (st\<lparr>st_memberships := bm_insert m (bs_remove rl s) (st_memberships st)\<rparr>)" by (rule members_put[OF assms])
  moreover have "store_ok (st\<lparr>st_memberships := bm_remove m (st_memberships st)\<rparr>)"
    by (rule store_ok_members[OF assms]) (use assms in \<open>auto simp: store_ok_def bm_remove_def intro: bm_inv_filter\<close>)
  ultimately show ?thesis using Some by (simp add: drop_member_def Let_def)
qed (use assms in \<open>simp add: drop_member_def\<close>)

lemma store_drop_ok:
  assumes "store_ok st"
  shows "store_ok (snd (store_drop n st))"
proof -
  let ?ms = "map (\<lambda>(m, rs). (m, bs_remove n rs)) (bm_remove n (st_memberships st))"
  have "bm_inv ?ms" using assms by (simp add: bm_inv_map_values store_ok_def bm_inv_remove)
  moreover have "\<forall>rs\<in>snd ` set ?ms. ascending rs" using assms by (auto simp: store_ok_def bm_remove_def)
  ultimately have o: "store_ok (st\<lparr>st_memberships := ?ms\<rparr>)" by (rule store_ok_members[OF assms])
  then have "store_ok (st\<lparr>st_memberships := ?ms, st_users := bm_remove n (st_users st)\<rparr>)"
    by (auto simp: store_ok_def bm_remove_def intro: bm_inv_filter)
  then show ?thesis using o by (simp add: store_drop_def Let_def split: option.split)
qed

text \<open>Every table the operations build from the empty one.\<close>

inductive user_reachable :: "digest_crates \<Rightarrow> user_store \<Rightarrow> bool" for dc where
  ur_new: "user_reachable dc store_new"
| ur_create: "user_reachable dc st \<Longrightarrow> length salt = SALT_LEN \<Longrightarrow> store_create dc n p rl salt st = Inr st1 \<Longrightarrow> user_reachable dc st1"
| ur_attributes: "user_reachable dc st \<Longrightarrow> user_reachable dc (set_attributes n l i s st)"
| ur_declared: "user_reachable dc st \<Longrightarrow> user_reachable dc (set_password_declared n d st)"
| ur_password: "user_reachable dc st \<Longrightarrow> length salt = SALT_LEN \<Longrightarrow> set_password dc n po salt st = Inr st1 \<Longrightarrow> user_reachable dc st1"
| ur_scram: "user_reachable dc st \<Longrightarrow> length salt = SCRAM_SALT_LEN \<Longrightarrow> enable_scram n p salt iters st = Inr st1 \<Longrightarrow> user_reachable dc st1"
| ur_drop: "user_reachable dc st \<Longrightarrow> user_reachable dc (snd (store_drop n st))"
| ur_add: "user_reachable dc st \<Longrightarrow> user_reachable dc (add_member rl m st)"
| ur_revoke: "user_reachable dc st \<Longrightarrow> user_reachable dc (drop_member rl m st)"

lemma create_ok:
  assumes "store_ok st" "digest_lengths dc" "length salt = SALT_LEN" "store_create dc n p rl salt st = Inr st1"
  shows "store_ok st1"
  using assms(4) by (auto simp: store_create_def user_ok_def assms(2,3) split: if_splits intro!: store_ok_put[OF assms(1)])

lemma set_password_ok:
  assumes "store_ok st" "digest_lengths dc" "length salt = SALT_LEN" "set_password dc n po salt st = Inr st1"
  shows "store_ok st1"
  using assms(4) by (auto simp: set_password_def Let_def user_ok_def assms(2,3) split: if_splits option.splits intro!: update_user_ok[OF assms(1)])

lemma enable_scram_ok:
  assumes "store_ok st" "length salt = SCRAM_SALT_LEN" "enable_scram n p salt iters st = Inr st1"
  shows "store_ok st1"
  using assms(3) by (auto simp: enable_scram_def user_ok_def scram_secrets_ok[OF assms(2)] split: if_splits intro!: update_user_ok[OF assms(1)])

lemma reachable_ok: "user_reachable dc st \<Longrightarrow> digest_lengths dc \<Longrightarrow> store_ok st"
proof (induction rule: user_reachable.induct)
  case ur_new
  show ?case by (simp add: store_ok_def store_new_def bm_inv_def)
next
  case (ur_attributes st n l i s)
  then show ?case unfolding set_attributes_def by (intro update_user_ok) (simp_all add: user_ok_def)
next
  case (ur_declared st n d)
  then show ?case unfolding set_password_declared_def by (intro update_user_ok) (simp_all add: user_ok_def)
qed (blast intro: create_ok set_password_ok enable_scram_ok store_drop_ok add_member_ok drop_member_ok)+


section \<open>Passwords\<close>

lemma or_fold_zero: "foldl (\<lambda>diff i. diff OR f i) d is = 0 \<longleftrightarrow> d = 0 \<and> (\<forall>i\<in>set is. f i = 0)" for f :: "nat \<Rightarrow> u8"
  by (induction "is" arbitrary: d) (auto simp: or_eq_0_iff)

lemma xor_zero_iff: "(x XOR y = 0) = (x = y)" for x y :: u8
  by (auto simp: bit_eq_iff bit_xor_iff)

lemma constant_time_eq_iff: "length a = n \<Longrightarrow> length b = n \<Longrightarrow> constant_time_eq n a b \<longleftrightarrow> a = b"
  unfolding constant_time_eq_def or_fold_zero xor_zero_iff list_eq_iff_nth_eq by (simp add: Ball_def)

text \<open>What a MySQL client sends for a password and the server's scramble.\<close>

definition native_response :: "digest_crates \<Rightarrow> bytes \<Rightarrow> bytes \<Rightarrow> bytes" where
  "native_response dc p scramble = map2 (XOR) (dc_sha1 dc p) (dc_sha1 dc (scramble @ dc_sha1 dc (dc_sha1 dc p)))"

definition caching_response :: "digest_crates \<Rightarrow> bytes \<Rightarrow> bytes \<Rightarrow> bytes" where
  "caching_response dc p scramble = map2 (XOR) (dc_sha256 dc p) (dc_sha256 dc (scramble @ dc_sha256 dc (dc_sha256 dc p)))"

lemma unmask: "length a = n \<Longrightarrow> length m = n \<Longrightarrow> map (\<lambda>i. map2 (XOR) a m ! i XOR m ! i) [0..<n] = (a :: bytes)"
  by (rule nth_equalityI) (simp_all add: xor.assoc)

lemma native_accepted:
  assumes "digest_lengths dc" "ur_mysql_native r = Some (compute_mysql_native_hash dc p)" "length scramble = 20"
  shows "verify_mysql_native_password dc r scramble (native_response dc p scramble)"
proof -
  have l: "\<And>x. length (dc_sha1 dc x) = 20" using assms(1) by (simp add: digest_lengths_def)
  then show ?thesis using assms(2,3) unmask[OF l l, of p "scramble @ dc_sha1 dc (dc_sha1 dc p)"]
    by (simp add: verify_mysql_native_password_def native_response_def compute_mysql_native_hash_def user_lengths Let_def constant_time_eq_iff)
qed

lemma caching_accepted:
  assumes "digest_lengths dc" "ur_caching_sha2 r = Some (compute_caching_sha2_hash dc p)" "length scramble = 20"
  shows "verify_caching_sha2_password dc r scramble (caching_response dc p scramble)"
proof -
  have l: "\<And>x. length (dc_sha256 dc x) = 32" using assms(1) by (simp add: digest_lengths_def)
  then show ?thesis using assms(2,3) unmask[OF l l, of p "scramble @ dc_sha256 dc (dc_sha256 dc p)"]
    by (simp add: verify_caching_sha2_password_def caching_response_def compute_caching_sha2_hash_def user_lengths Let_def constant_time_eq_iff)
qed

text \<open>A record whose stored forms are those of a password.\<close>

definition holds_password :: "digest_crates \<Rightarrow> user_record \<Rightarrow> bytes \<Rightarrow> bool" where
  "holds_password dc r p \<longleftrightarrow> ur_hash r = derive_hash (ur_salt r) p \<and> ur_mysql_native r = Some (compute_mysql_native_hash dc p)
     \<and> ur_caching_sha2 r = Some (compute_caching_sha2_hash dc p) \<and> ur_password_declared r"

lemma user_verify_iff: "length (ur_hash r) = HASH_LEN \<Longrightarrow> user_verify r q \<longleftrightarrow> derive_hash (ur_salt r) q = ur_hash r"
  by (simp add: user_verify_def constant_time_eq_iff)

lemma store_get_update [simp]: "store_get (update_user n f st) m = (if m = n then map_option f (store_get st n) else store_get st m)"
  by (auto simp: update_user_def store_get_def split: option.split)

lemma create_holds:
  assumes "store_create dc n p rl salt st = Inr st1"
  shows "\<exists>r. store_get st1 n = Some r \<and> holds_password dc r p \<and> ur_salt r = salt \<and> ur_role r = rl" "m \<noteq> n \<Longrightarrow> store_get st1 m = store_get st m"
  using assms by (auto simp: store_create_def store_get_def holds_password_def split: if_splits)

lemma set_password_holds:
  assumes "set_password dc n (Some p) salt st = Inr st1"
  shows "\<exists>r. store_get st1 n = Some r \<and> holds_password dc r p \<and> ur_salt r = salt \<and> Some (ur_role r) = map_option ur_role (store_get st n)"
    "m \<noteq> n \<Longrightarrow> store_get st1 m = store_get st m"
  using assms by (auto simp: set_password_def holds_password_def split: if_splits)

text \<open>Clearing a password leaves only the table's own hash, which verifies a text only on a collision with the hash of another input.\<close>

lemma cleared_password:
  assumes "set_password dc n None salt st = Inr st1" "store_get st1 n = Some r"
  shows "\<not> has_credentials r" "ur_scram r = None" "\<not> verify_mysql_native_password dc r scramble resp" "\<not> verify_caching_sha2_password dc r scramble resp"
    "user_verify r q \<Longrightarrow> blake3 (salt @ q) = blake3 (take SALT_LEN (blake3 salt) @ UNREACHABLE)"
proof -
  obtain r0 where r0: "store_get st n = Some r0" using assms(1) by (cases "store_get st n") (simp_all add: set_password_def)
  have "st1 = update_user n (\<lambda>r. r\<lparr>ur_salt := salt, ur_hash := derive_hash (take SALT_LEN (blake3 salt)) UNREACHABLE,
      ur_mysql_native := None, ur_caching_sha2 := None, ur_scram := None, ur_password_declared := False\<rparr>) st"
    using assms(1) r0 by (simp add: set_password_def Let_def)
  then have r: "r = r0\<lparr>ur_salt := salt, ur_hash := derive_hash (take SALT_LEN (blake3 salt)) UNREACHABLE,
      ur_mysql_native := None, ur_caching_sha2 := None, ur_scram := None, ur_password_declared := False\<rparr>"
    using assms(2) r0 by simp
  then show "\<not> has_credentials r" "ur_scram r = None" "\<not> verify_mysql_native_password dc r scramble resp" "\<not> verify_caching_sha2_password dc r scramble resp"
    by (simp_all add: has_credentials_def verify_mysql_native_password_def verify_caching_sha2_password_def)
  show "blake3 (salt @ q) = blake3 (take SALT_LEN (blake3 salt) @ UNREACHABLE)" if "user_verify r q"
    using that user_verify_iff[of r q] by (simp add: r) (simp add: derive_hash_def)
qed

text \<open>Dropping a name that is not a user reports an error and still removes its memberships.\<close>

lemma failed_drop_revokes:
  "fst (store_drop n st) = Inl NotFound \<longleftrightarrow> store_get st n = None"
  "memberships_of (snd (store_drop n st)) n = []"
  by (auto simp: store_drop_def Let_def memberships_of_def bm_get_map_values split: option.splits)

section \<open>Properties\<close>


definition const_digests :: digest_crates where
  "const_digests = \<lparr>dc_sha1 = \<lambda>x. replicate 20 0, dc_sha256 = \<lambda>x. sha256 x\<rparr>"

lemma const_digest_lengths: "digest_lengths const_digests"
  by (simp add: digest_lengths_def const_digests_def)




text \<open>
  C32: the two closures of role membership are reachability, and their searches end on every table, cyclic grants
  included. The roles whose privileges a role holds are those reached from it through memberships of roles that
  inherit; the roles a policy applies to are the lower-case names reached through at least one grant when names are
  compared without regard to case.
\<close>

theorem role_closures_exact:
  "set (effective_roles st rl) = (inherit_edges st)\<^sup>* `` {rl}
   \<and> set (memberships_of_transitive st member) = {y. (to_ascii_lowercase member, y) \<in> (lower_edges st)\<^sup>+}"
  using effective_roles_reachable memberships_of_transitive_reachable by blast

end
