(* ===== verification/Users_Codec.thy ===== *)
theory Users_Codec
  imports Users Codec_Spec
begin

text \<open>
  The user table in a snapshot (\<open>spg-engine/src/users.rs\<close>, \<open>serialize_users\<close>, \<open>deserialize_users\<close>): six
  formats, told apart by the first byte. A name or a count that does not fit its field panics: \<open>None\<close>.
  The reading loops collect what they read and put it into the table in that order.
\<close>

definition SCRAM_FORMAT_MARKER :: u8 where "SCRAM_FORMAT_MARKER = 0xff"
definition MYSQL_NATIVE_FORMAT_MARKER :: u8 where "MYSQL_NATIVE_FORMAT_MARKER = 0xfe"
definition CACHING_SHA2_FORMAT_MARKER :: u8 where "CACHING_SHA2_FORMAT_MARKER = 0xfd"
definition ROLE_ATTRS_FORMAT_MARKER :: u8 where "ROLE_ATTRS_FORMAT_MARKER = 0xfc"
definition PASSWORD_DECLARED_FORMAT_MARKER :: u8 where "PASSWORD_DECLARED_FORMAT_MARKER = 0xfb"

lemmas format_markers = SCRAM_FORMAT_MARKER_def MYSQL_NATIVE_FORMAT_MARKER_def CACHING_SHA2_FORMAT_MARKER_def
  ROLE_ATTRS_FORMAT_MARKER_def PASSWORD_DECLARED_FORMAT_MARKER_def

section \<open>Writer\<close>

fun role_byte :: "role \<Rightarrow> u8" where
  "role_byte Admin = 0" | "role_byte ReadWrite = 1" | "role_byte ReadOnly = 2"

definition bool_byte :: "bool \<Rightarrow> u8" where "bool_byte b = (if b then 1 else 0)"

definition put_name :: "name \<Rightarrow> bytes" where "put_name n = u16_le (word_of_nat (length n)) @ n"

definition put_scram :: "scram_secrets option \<Rightarrow> bytes" where
  "put_scram s = (case s of None \<Rightarrow> [0] | Some s \<Rightarrow> [1] @ u32_le (scr_iters s) @ scr_salt s @ scr_stored_key s @ scr_server_key s)"

definition put_hash :: "bytes option \<Rightarrow> bytes" where
  "put_hash h = (case h of None \<Rightarrow> [0] | Some h \<Rightarrow> [1] @ h)"

definition put_user :: "name \<times> user_record \<Rightarrow> bytes" where
  "put_user u =
     (let r = snd u
      in put_name (fst u) @ [role_byte (ur_role r)] @ ur_salt r @ ur_hash r @ put_scram (ur_scram r) @ put_hash (ur_mysql_native r)
         @ put_hash (ur_caching_sha2 r) @ [bool_byte (ur_can_login r), bool_byte (ur_inherit r), bool_byte (ur_superuser r), bool_byte (ur_password_declared r)])"

definition put_pair :: "name \<times> name \<Rightarrow> bytes" where
  "put_pair mr = put_name (fst mr) @ put_name (snd mr)"

definition serialize_users :: "user_store \<Rightarrow> bytes option" where
  "serialize_users st =
     (let pairs = all_memberships st
      in if 2 ^ 32 \<le> length (st_users st) \<or> 2 ^ 32 \<le> length pairs
            \<or> list_ex (\<lambda>u. 2 ^ 16 \<le> length (fst u)) (st_users st) \<or> list_ex (\<lambda>(m, r). 2 ^ 16 \<le> length m \<or> 2 ^ 16 \<le> length r) pairs
         then None
         else Some ([PASSWORD_DECLARED_FORMAT_MARKER] @ u32_le (word_of_nat (length (st_users st))) @ concat (map put_user (st_users st))
                @ u32_le (word_of_nat (length pairs)) @ concat (map put_pair pairs)))"

section \<open>Reader\<close>

datatype user_deserialize_error = Truncated | BadRole u8 | InvalidUtf8

definition take_at :: "bytes \<Rightarrow> nat \<Rightarrow> nat \<Rightarrow> user_deserialize_error + bytes \<times> nat" where
  "take_at buf p n = (if length buf < p + n then Inl Truncated else Inr (slice buf p (p + n), p + n))"

record user_format =
  uf_scram :: bool
  uf_mysql_native :: bool
  uf_caching_sha2 :: bool
  uf_role_attrs :: bool
  uf_password_declared :: bool

definition format_of :: "bytes \<Rightarrow> user_format \<times> nat" where
  "format_of buf =
     (let fmt = (\<lambda>a b c d e. \<lparr>uf_scram = a, uf_mysql_native = b, uf_caching_sha2 = c, uf_role_attrs = d, uf_password_declared = e\<rparr>)
      in if buf \<noteq> [] \<and> hd buf = PASSWORD_DECLARED_FORMAT_MARKER then (fmt True True True True True, 1)
         else if buf \<noteq> [] \<and> hd buf = ROLE_ATTRS_FORMAT_MARKER then (fmt True True True True False, 1)
         else if buf \<noteq> [] \<and> hd buf = CACHING_SHA2_FORMAT_MARKER then (fmt True True True False False, 1)
         else if buf \<noteq> [] \<and> hd buf = MYSQL_NATIVE_FORMAT_MARKER then (fmt True True False False False, 1)
         else if buf \<noteq> [] \<and> hd buf = SCRAM_FORMAT_MARKER then (fmt True False False False False, 1)
         else (fmt False False False False False, 0))"

definition get_name :: "bytes \<Rightarrow> nat \<Rightarrow> user_deserialize_error + name \<times> nat" where
  "get_name buf p =
     and_then (take_at buf p 2) (\<lambda>(nl, p1).
     and_then (take_at buf p1 (unat (le_u16 nl))) (\<lambda>(n, p2).
       if utf8_valid n then Inr (n, p2) else Inl InvalidUtf8))"

definition get_role :: "bytes \<Rightarrow> nat \<Rightarrow> user_deserialize_error + role \<times> nat" where
  "get_role buf p =
     and_then (take_at buf p 1) (\<lambda>(b, p1).
       if hd b = 0 then Inr (Admin, p1) else if hd b = 1 then Inr (ReadWrite, p1) else if hd b = 2 then Inr (ReadOnly, p1) else Inl (BadRole (hd b)))"

definition get_scram :: "bool \<Rightarrow> bytes \<Rightarrow> nat \<Rightarrow> user_deserialize_error + scram_secrets option \<times> nat" where
  "get_scram present buf p =
     (if \<not> present then Inr (None, p)
      else and_then (take_at buf p 1) (\<lambda>(flag, p1).
        if hd flag = 1 then
          and_then (take_at buf p1 4) (\<lambda>(iters, p2).
          and_then (take_at buf p2 SCRAM_SALT_LEN) (\<lambda>(salt, p3).
          and_then (take_at buf p3 HASH_LEN) (\<lambda>(stored_key, p4).
          and_then (take_at buf p4 HASH_LEN) (\<lambda>(server_key, p5).
            Inr (Some \<lparr>scr_iters = le_u32 iters, scr_salt = salt, scr_stored_key = stored_key, scr_server_key = server_key\<rparr>, p5)))))
        else Inr (None, p1)))"

definition get_hash :: "bool \<Rightarrow> nat \<Rightarrow> bytes \<Rightarrow> nat \<Rightarrow> user_deserialize_error + bytes option \<times> nat" where
  "get_hash present len buf p =
     (if \<not> present then Inr (None, p)
      else and_then (take_at buf p 1) (\<lambda>(flag, p1).
        if hd flag = 1 then and_then (take_at buf p1 len) (\<lambda>(h, p2). Inr (Some h, p2)) else Inr (None, p1)))"

definition get_attrs :: "bool \<Rightarrow> role \<Rightarrow> bytes \<Rightarrow> nat \<Rightarrow> user_deserialize_error + (bool \<times> bool \<times> bool) \<times> nat" where
  "get_attrs present rl buf p =
     (if present then and_then (take_at buf p 3) (\<lambda>(b, p1). Inr ((b ! 0 = 1, b ! 1 = 1, b ! 2 = 1), p1))
      else Inr ((True, True, rl = Admin), p))"

definition get_declared :: "bool \<Rightarrow> bool \<Rightarrow> bytes \<Rightarrow> nat \<Rightarrow> user_deserialize_error + bool \<times> nat" where
  "get_declared present can_login buf p =
     (if present then and_then (take_at buf p 1) (\<lambda>(b, p1). Inr (hd b = 1, p1)) else Inr (can_login, p))"

definition get_user :: "user_format \<Rightarrow> bytes \<Rightarrow> nat \<Rightarrow> user_deserialize_error + (name \<times> user_record) \<times> nat" where
  "get_user f buf p =
     and_then (get_name buf p) (\<lambda>(n, p1).
     and_then (get_role buf p1) (\<lambda>(rl, p2).
     and_then (take_at buf p2 SALT_LEN) (\<lambda>(salt, p3).
     and_then (take_at buf p3 HASH_LEN) (\<lambda>(hsh, p4).
     and_then (get_scram (uf_scram f) buf p4) (\<lambda>(scram, p5).
     and_then (get_hash (uf_mysql_native f) MYSQL_NATIVE_HASH_LEN buf p5) (\<lambda>(native, p6).
     and_then (get_hash (uf_caching_sha2 f) CACHING_SHA2_HASH_LEN buf p6) (\<lambda>(caching, p7).
     and_then (get_attrs (uf_role_attrs f) rl buf p7) (\<lambda>((can_login, inherit, superuser), p8).
     and_then (get_declared (uf_password_declared f) can_login buf p8) (\<lambda>(declared, p9).
       Inr ((n, \<lparr>ur_role = rl, ur_salt = salt, ur_hash = hsh, ur_scram = scram, ur_mysql_native = native, ur_caching_sha2 = caching,
                 ur_can_login = can_login, ur_password_declared = declared, ur_inherit = inherit, ur_superuser = superuser\<rparr>), p9))))))))))"

definition get_pair :: "bytes \<Rightarrow> nat \<Rightarrow> user_deserialize_error + (name \<times> name) \<times> nat" where
  "get_pair buf p = and_then (get_name buf p) (\<lambda>(m, p1). and_then (get_name buf p1) (\<lambda>(r, p2). Inr ((m, r), p2)))"

definition insert_users :: "(name \<times> user_record) list \<Rightarrow> user_store" where
  "insert_users us = foldl (\<lambda>st u. st\<lparr>st_users := bm_insert (fst u) (snd u) (st_users st)\<rparr>) store_new us"

definition deserialize_users :: "bytes \<Rightarrow> user_deserialize_error + user_store" where
  "deserialize_users buf =
     (case format_of buf of (f, p0) \<Rightarrow>
      and_then (take_at buf p0 4) (\<lambda>(count, p1).
      and_then (decode_n (get_user f) buf p1 (unat (le_u32 count)) []) (\<lambda>(us, p2).
      and_then (if uf_role_attrs f then
                  and_then (take_at buf p2 4) (\<lambda>(mcount, p3). decode_n get_pair buf p3 (unat (le_u32 mcount)) [])
                else Inr ([], p2)) (\<lambda>(pairs, p4).
        if p4 \<noteq> length buf then Inl Truncated
        else Inr (foldl (\<lambda>st mr. add_member (snd mr) (fst mr) st) (insert_users us) pairs)))))"

section \<open>Reading what was written\<close>

lemma take_at_mid: "n = length x \<Longrightarrow> take_at (pre @ x @ post) (length pre) n = Inr (x, length pre + n)"
  by (simp add: take_at_def slice_def)

text \<open>A reader that finds a value where its encoding lies, and ends behind it.\<close>

definition reads :: "(bytes \<Rightarrow> nat \<Rightarrow> 'e + 'a \<times> nat) \<Rightarrow> bytes \<Rightarrow> 'a \<Rightarrow> bool" where
  "reads get x v \<longleftrightarrow> (\<forall>pre post. get (pre @ x @ post) (length pre) = Inr (v, length pre + length x))"

lemma readsD: "reads get x v \<Longrightarrow> buf = pre @ x @ post \<Longrightarrow> p = length pre \<Longrightarrow> get buf p = Inr (v, p + length x)"
  by (simp add: reads_def)

lemma reads_take: "n = length x \<Longrightarrow> reads (\<lambda>buf p. take_at buf p n) x x"
  by (simp add: reads_def take_at_mid)

lemma reads_bind:
  assumes "reads g x v" "reads (h v) y w"
  shows "reads (\<lambda>buf p. and_then (g buf p) (\<lambda>(a, q). h a buf q)) (x @ y) w"
  unfolding reads_def
proof (intro allI)
  fix pre post
  have "g (pre @ (x @ y) @ post) (length pre) = Inr (v, length pre + length x)"
    by (rule readsD[OF assms(1), of _ _ "y @ post"]) simp_all
  moreover have "h v (pre @ (x @ y) @ post) (length pre + length x) = Inr (w, length pre + length x + length y)"
    by (rule readsD[OF assms(2), of _ "pre @ x"]) simp_all
  ultimately show "and_then (g (pre @ (x @ y) @ post) (length pre)) (\<lambda>(a, q). h a (pre @ (x @ y) @ post) q) = Inr (w, length pre + length (x @ y))" by simp
qed

lemma reads_bind_last:
  assumes "reads g x v" "h v = w"
  shows "reads (\<lambda>buf p. and_then (g buf p) (\<lambda>(a, q). Inr (h a, q))) x w"
  using assms unfolding reads_def by simp

lemma reads_name:
  assumes "length n < 2 ^ 16" "utf8_valid n"
  shows "reads get_name (put_name n) n"
  unfolding get_name_def[abs_def] put_name_def
proof (rule reads_bind[OF reads_take])
  let ?l = "u16_le (word_of_nat (length n) :: u16)"
  have "unat (le_u16 ?l) = length n" using assms(1) by (simp add: unat_of_nat)
  then show "reads (\<lambda>buf q. and_then (take_at buf q (unat (le_u16 ?l))) (\<lambda>(n, p2). if utf8_valid n then Inr (n, p2) else Inl InvalidUtf8)) n n"
    using reads_take[of "length n" n] assms(2) by (simp add: reads_def)
qed simp

lemma reads_byte: "reads (\<lambda>buf p. take_at buf p 1) [b] [b]"
  by (rule reads_take) simp

lemma reads_role: "reads get_role [role_byte r] r"
  using reads_byte[of "role_byte r"] unfolding reads_def get_role_def by (cases r) simp_all

lemma reads_scram: "pred_option scram_ok s \<Longrightarrow> reads (get_scram True) (put_scram s) s"
proof (cases s)
  case None
  then show ?thesis using reads_byte[of 0] by (simp add: reads_def get_scram_def put_scram_def)
next
  case (Some t)
  assume "pred_option scram_ok s"
  then have t: "length (scr_salt t) = SCRAM_SALT_LEN" "length (scr_stored_key t) = HASH_LEN" "length (scr_server_key t) = HASH_LEN"
    using Some by (simp_all add: scram_ok_def)
  have "reads (\<lambda>buf p1. and_then (take_at buf p1 4) (\<lambda>(iters, p2).
          and_then (take_at buf p2 SCRAM_SALT_LEN) (\<lambda>(salt, p3).
          and_then (take_at buf p3 HASH_LEN) (\<lambda>(stored_key, p4).
          and_then (take_at buf p4 HASH_LEN) (\<lambda>(server_key, p5).
            Inr (Some \<lparr>scr_iters = le_u32 iters, scr_salt = salt, scr_stored_key = stored_key, scr_server_key = server_key\<rparr>, p5))))))
      (u32_le (scr_iters t) @ scr_salt t @ scr_stored_key t @ scr_server_key t) (Some t)"
    by (rule reads_bind[OF reads_take], simp, rule reads_bind[OF reads_take], simp add: t, rule reads_bind[OF reads_take], simp add: t,
        rule reads_bind_last[OF reads_take], simp_all add: t)
  then have "reads (\<lambda>buf p. and_then (take_at buf p 1) (\<lambda>(flag, p1). (\<lambda>flag buf p1. if hd flag = 1 then
          and_then (take_at buf p1 4) (\<lambda>(iters, p2).
          and_then (take_at buf p2 SCRAM_SALT_LEN) (\<lambda>(salt, p3).
          and_then (take_at buf p3 HASH_LEN) (\<lambda>(stored_key, p4).
          and_then (take_at buf p4 HASH_LEN) (\<lambda>(server_key, p5).
            Inr (Some \<lparr>scr_iters = le_u32 iters, scr_salt = salt, scr_stored_key = stored_key, scr_server_key = server_key\<rparr>, p5)))))
        else Inr (None, p1)) flag buf p1)) ([1] @ u32_le (scr_iters t) @ scr_salt t @ scr_stored_key t @ scr_server_key t) (Some t)"
    by (intro reads_bind[OF reads_byte]) simp
  then show ?thesis by (simp add: get_scram_def[abs_def] put_scram_def Some)
qed

lemma reads_hash: "pred_option (\<lambda>h. length h = n) h \<Longrightarrow> reads (get_hash True n) (put_hash h) h"
proof (cases h)
  case None
  then show ?thesis using reads_byte[of 0] by (simp add: reads_def get_hash_def put_hash_def)
next
  case (Some x)
  assume "pred_option (\<lambda>h. length h = n) h"
  then have n: "n = length x" using Some by simp
  have "reads (\<lambda>buf p. and_then (take_at buf p 1) (\<lambda>(flag, p1). (\<lambda>flag buf p1.
        if hd flag = 1 then and_then (take_at buf p1 n) (\<lambda>(h, p2). Inr (Some h, p2)) else Inr (None, p1)) flag buf p1)) ([1] @ x) (Some x)"
    by (intro reads_bind[OF reads_byte]) (use reads_take[OF n] in \<open>simp add: reads_def\<close>)
  then show ?thesis by (simp add: get_hash_def[abs_def] put_hash_def Some)
qed

lemma bool_byte_1 [simp]: "bool_byte b = 1 \<longleftrightarrow> b"
  by (simp add: bool_byte_def)

lemma reads_attrs: "reads (get_attrs True rl) [bool_byte a, bool_byte b, bool_byte c] (a, b, c)"
  using reads_take[of 3 "[bool_byte a, bool_byte b, bool_byte c]"] by (simp add: reads_def get_attrs_def)

lemma reads_declared: "reads (get_declared True x) [bool_byte a] a"
  using reads_byte[of "bool_byte a"] by (simp add: reads_def get_declared_def)

definition current_format :: user_format where
  "current_format = \<lparr>uf_scram = True, uf_mysql_native = True, uf_caching_sha2 = True, uf_role_attrs = True, uf_password_declared = True\<rparr>"

lemma put_user_parts:
  "put_user (n, r) = put_name n @ [role_byte (ur_role r)] @ ur_salt r @ ur_hash r @ put_scram (ur_scram r) @ put_hash (ur_mysql_native r)
     @ put_hash (ur_caching_sha2 r) @ [bool_byte (ur_can_login r), bool_byte (ur_inherit r), bool_byte (ur_superuser r)] @ [bool_byte (ur_password_declared r)]"
  by (simp add: put_user_def)

lemma reads_user:
  assumes "length n < 2 ^ 16" "utf8_valid n" "user_ok r"
  shows "reads (get_user current_format) (put_user (n, r)) (n, r)"
proof -
  have r: "SALT_LEN = length (ur_salt r)" "HASH_LEN = length (ur_hash r)" using assms(3) by (simp_all add: user_ok_def)
  have o: "pred_option scram_ok (ur_scram r)" "pred_option (\<lambda>h. length h = MYSQL_NATIVE_HASH_LEN) (ur_mysql_native r)"
    "pred_option (\<lambda>h. length h = CACHING_SHA2_HASH_LEN) (ur_caching_sha2 r)" using assms(3) by (simp_all add: user_ok_def)
  show ?thesis unfolding put_user_parts get_user_def[abs_def] current_format_def user_format.simps
    by (rule reads_bind[OF reads_name[OF assms(1,2)]], rule reads_bind[OF reads_role], rule reads_bind[OF reads_take[OF r(1)]],
        rule reads_bind[OF reads_take[OF r(2)]], rule reads_bind[OF reads_scram[OF o(1)]], rule reads_bind[OF reads_hash[OF o(2)]],
        rule reads_bind[OF reads_hash[OF o(3)]], rule reads_bind[OF reads_attrs], unfold prod.case,
        rule reads_bind_last[OF reads_declared], simp)
qed


lemma reads_pair:
  assumes "length (fst mr) < 2 ^ 16" "length (snd mr) < 2 ^ 16" "utf8_valid (fst mr)" "utf8_valid (snd mr)"
  shows "reads get_pair (put_pair mr) mr"
  unfolding get_pair_def[abs_def] put_pair_def
  by (rule reads_bind[OF reads_name[OF assms(1,3)]], rule reads_bind_last[OF reads_name[OF assms(2,4)]], simp)

text \<open>Both readers are cursor codecs, so the counted loops over them give back the lists.\<close>

definition writes_user :: "name \<times> user_record \<Rightarrow> bytes \<Rightarrow> bool" where
  "writes_user u b \<longleftrightarrow> length (fst u) < 2 ^ 16 \<and> utf8_valid (fst u) \<and> user_ok (snd u) \<and> b = put_user u"

definition writes_pair :: "name \<times> name \<Rightarrow> bytes \<Rightarrow> bool" where
  "writes_pair mr b \<longleftrightarrow> length (fst mr) < 2 ^ 16 \<and> length (snd mr) < 2 ^ 16 \<and> utf8_valid (fst mr) \<and> utf8_valid (snd mr) \<and> b = put_pair mr"

interpretation user_codec: cursor_codec writes_user "get_user current_format"
  by unfold_locales (use reads_user in \<open>auto simp: writes_user_def reads_def\<close>)

interpretation pair_codec: cursor_codec writes_pair get_pair
  by unfold_locales (use reads_pair in \<open>auto simp: writes_pair_def reads_def\<close>)

lemma encodes_all_concat: "(\<forall>x\<in>set xs. enc x (f x)) \<Longrightarrow> encodes_all enc xs (concat (map f xs))"
  by (induction xs) auto

section \<open>Rebuilding the table\<close>

lemma bm_insert_last: "\<forall>x\<in>set m. fst x < k \<Longrightarrow> bm_insert k v m = m @ [(k, v)]"
  by (induction m) auto

lemma insert_users_ascending:
  "bm_inv (us :: (name, user_record) btmap) \<Longrightarrow> insert_users us = \<lparr>st_users = us, st_memberships = []\<rparr>"
proof (induction us rule: rev_induct)
  case Nil
  show ?case by (simp add: insert_users_def store_new_def)
next
  case (snoc u us)
  have "bm_inv us" "\<forall>x\<in>set us. fst x < fst u" using snoc.prems by (auto simp: bm_inv_def sorted_wrt_append)
  then show ?case using snoc.IH bm_insert_last[of us "fst u" "snd u"] by (simp add: insert_users_def)
qed

definition tidy :: "user_store \<Rightarrow> user_store" where
  "tidy st = st\<lparr>st_memberships := filter (\<lambda>e. snd e \<noteq> []) (st_memberships st)\<rparr>"

lemma bs_insert_last: "\<forall>x\<in>set s. x < k \<Longrightarrow> bs_insert k s = s @ [k]"
  by (induction s) auto

lemma add_roles:
  assumes "\<forall>x\<in>set ms. fst x < m" "ascending rs" "rs \<noteq> []"
  shows "foldl (\<lambda>st mr. add_member (snd mr) (fst mr) st) \<lparr>st_users = us, st_memberships = ms\<rparr> (map (\<lambda>r. (m, r)) rs)
    = \<lparr>st_users = us, st_memberships = ms @ [(m, rs)]\<rparr>"
  using assms(2,3)
proof (induction rs rule: rev_induct)
  case (snoc r rs)
  have none: "bm_get ms m = None" using assms(1) by (force simp: bm_get_def map_of_eq_None_iff)
  show ?case
  proof (cases "rs = []")
    case True
    then show ?thesis using assms(1) none by (simp add: add_member_def bm_insert_last)
  next
    case False
    have a: "ascending rs" "\<forall>x\<in>set rs. x < r" using snoc.prems(1) by (auto simp: sorted_wrt_append)
    have g: "bm_get (ms @ [(m, rs)]) m = Some rs" using none by (simp add: bm_get_def map_add_def)
    have "bm_insert m (rs @ [r]) (ms @ [(m, rs)]) = ms @ [(m, rs @ [r])]" using assms(1) by (induction ms) auto
    then show ?thesis using snoc.IH[OF a(1) False] g bs_insert_last[OF a(2)] by (simp add: add_member_def)
  qed
qed simp

lemma rebuild_members:
  assumes "bm_inv ms" "\<forall>rs\<in>snd ` set ms. ascending rs"
  shows "foldl (\<lambda>st mr. add_member (snd mr) (fst mr) st) \<lparr>st_users = us, st_memberships = []\<rparr> (concat (map (\<lambda>(m, rs). map (\<lambda>r. (m, r)) rs) ms))
    = \<lparr>st_users = us, st_memberships = filter (\<lambda>e. snd e \<noteq> []) ms\<rparr>"
  using assms
proof (induction ms rule: rev_induct)
  case (snoc e ms)
  obtain m rs where e: "e = (m, rs)" by fastforce
  have i: "bm_inv ms" "\<forall>x\<in>set ms. fst x < m" using snoc.prems(1) e by (auto simp: bm_inv_def sorted_wrt_append)
  show ?case
  proof (cases "rs = []")
    case False
    have "\<forall>x\<in>set (filter (\<lambda>e. snd e \<noteq> []) ms). fst x < m" using i(2) by auto
    then show ?thesis using snoc.IH[OF i(1)] snoc.prems(2) e False add_roles[of "filter (\<lambda>e. snd e \<noteq> []) ms" m rs us] by simp
  qed (use snoc.IH[OF i(1)] snoc.prems(2) e in simp)
qed simp


definition utf8_names :: "user_store \<Rightarrow> bool" where
  "utf8_names st \<longleftrightarrow> (\<forall>u\<in>set (st_users st). utf8_valid (fst u)) \<and> (\<forall>mr\<in>set (all_memberships st). utf8_valid (fst mr) \<and> utf8_valid (snd mr))"

lemma deserialize_serialized:
  assumes "store_ok st" "utf8_names st" "serialize_users st = Some buf" "length buf < 2 ^ 64"
  shows "deserialize_users buf = Inr (tidy st)"
proof -
  define us where "us = st_users st"
  define pairs where "pairs = all_memberships st"
  define U where "U = concat (map put_user us)"
  define P where "P = concat (map put_pair pairs)"
  let ?nu = "u32_le (word_of_nat (length us) :: u32)" and ?np = "u32_le (word_of_nat (length pairs) :: u32)"
  have sz: "length us < 2 ^ 32" "length pairs < 2 ^ 32" "\<forall>u\<in>set us. length (fst u) < 2 ^ 16" "\<forall>mr\<in>set pairs. length (fst mr) < 2 ^ 16 \<and> length (snd mr) < 2 ^ 16"
    and buf: "buf = [PASSWORD_DECLARED_FORMAT_MARKER] @ ?nu @ U @ ?np @ P"
    using assms(3) by (auto simp: serialize_users_def Let_def us_def pairs_def U_def P_def list_ex_iff not_le split: if_splits)
  have "encodes_all writes_user us U" unfolding U_def
    by (rule encodes_all_concat) (use sz(3) assms(1,2) in \<open>auto simp: writes_user_def us_def store_ok_def utf8_names_def\<close>)
  then have du: "decode_n (get_user current_format) buf 5 (length us) [] = Inr (us, 5 + length U)"
    using user_codec.decode_n_encoded[of us U "[PASSWORD_DECLARED_FORMAT_MARKER] @ ?nu" "?np @ P" "[]"] assms(4) by (simp add: buf)
  have "encodes_all writes_pair pairs P" unfolding P_def
    by (rule encodes_all_concat) (use sz(4) assms(2) in \<open>auto simp: writes_pair_def pairs_def utf8_names_def\<close>)
  then have dp: "decode_n get_pair buf (9 + length U) (length pairs) [] = Inr (pairs, 9 + length U + length P)"
    using pair_codec.decode_n_encoded[of pairs P "[PASSWORD_DECLARED_FORMAT_MARKER] @ ?nu @ U @ ?np" "[]" "[]"] assms(4) by (simp add: buf)
  have t: "take_at buf 1 4 = Inr (?nu, 5)" using take_at_mid[of 4 ?nu "[PASSWORD_DECLARED_FORMAT_MARKER]" "U @ ?np @ P"] by (simp add: buf)
  have t2: "take_at buf (5 + length U) 4 = Inr (?np, 9 + length U)"
    using take_at_mid[of 4 ?np "[PASSWORD_DECLARED_FORMAT_MARKER] @ ?nu @ U" P] by (simp add: buf)
  have f: "format_of buf = (current_format, 1)" by (simp add: format_of_def buf current_format_def Let_def)
  have n: "unat (word_of_nat (length us) :: u32) = length us" "unat (word_of_nat (length pairs) :: u32) = length pairs"
    using sz(1,2) by (simp_all add: unat_of_nat)
  have l: "9 + length U + length P = length buf" by (simp add: buf)
  have "deserialize_users buf = Inr (foldl (\<lambda>st mr. add_member (snd mr) (fst mr) st) (insert_users us) pairs)"
    unfolding deserialize_users_def f using t t2 du dp n l by (simp add: current_format_def)
  also have "foldl (\<lambda>st mr. add_member (snd mr) (fst mr) st) (insert_users us) pairs = tidy st"
  proof -
    have "insert_users us = \<lparr>st_users = us, st_memberships = []\<rparr>" using assms(1) by (intro insert_users_ascending) (simp add: us_def store_ok_def)
    moreover have "foldl (\<lambda>st mr. add_member (snd mr) (fst mr) st) \<lparr>st_users = us, st_memberships = []\<rparr> pairs
        = \<lparr>st_users = us, st_memberships = filter (\<lambda>e. snd e \<noteq> []) (st_memberships st)\<rparr>"
      unfolding pairs_def all_memberships_def by (rule rebuild_members) (use assms(1) in \<open>simp_all add: store_ok_def\<close>)
    ultimately show ?thesis by (simp add: tidy_def us_def)
  qed
  finally show ?thesis .
qed

lemma effective_loop_cong:
  assumes "\<And>n. store_get st1 n = store_get st n" "\<And>n. memberships_of st1 n = memberships_of st n"
  shows "effective_loop st1 q out = effective_loop st q out"
  using assms
proof (induction st q out rule: effective_loop.induct)
  case (2 st r queue out)
  have "inherits st1 r = inherits st r" using 2(3) by (simp add: inherits_def)
  then show ?case using 2 by (cases "bs_contains out r"; cases "inherits st r") simp_all
qed simp

text \<open>Dropping the empty membership sets changes nothing a reader of the table can see.\<close>

lemma tidy_same:
  assumes "store_ok st"
  shows "store_get (tidy st) n = store_get st n" "memberships_of (tidy st) n = memberships_of st n"
    "effective_roles (tidy st) n = effective_roles st n"
proof -
  have i: "bm_inv (st_memberships st)" using assms by (simp add: store_ok_def)
  show g: "store_get (tidy st) n = store_get st n" for n by (simp add: tidy_def store_get_def)
  show m: "memberships_of (tidy st) n = memberships_of st n" for n
    using bm_get_filter[OF i, of "\<lambda>k v. v \<noteq> []" n] by (auto simp: memberships_of_def tidy_def case_prod_unfold split: option.splits)
  have "effective_loop (tidy st) q out = effective_loop st q out" for q out by (rule effective_loop_cong) (simp_all add: g m)
  then show "effective_roles (tidy st) n = effective_roles st n" by (simp add: effective_roles_def inherits_def g m)
qed

text \<open>
  The oldest format starts with the low byte of the number of users, so a table of 255 users (251 to 255, or any
  number with such a low byte) is taken for a later format.
\<close>

lemma old_table_misread:
  "fst (format_of (u32_le 255 @ rest)) = \<lparr>uf_scram = True, uf_mysql_native = False, uf_caching_sha2 = False, uf_role_attrs = False, uf_password_declared = False\<rparr>"
  "fst (format_of (u32_le 251 @ rest)) = current_format"
  by (simp_all add: format_of_def Let_def le_bytes_eval format_markers current_format_def)

section \<open>Properties\<close>

text \<open>
  C33: a snapshot keeps the user table. Writing a well-formed table and reading it back gives the same users with all
  their stored verifiers and attributes and the same memberships; sets left empty by dropped roles are not written, which
  no lookup and no role closure can tell.
\<close>

theorem users_roundtrip:
  assumes "store_ok st" "utf8_names st" "serialize_users st = Some buf" "length buf < 2 ^ 64"
  shows "\<exists>st1. deserialize_users buf = Inr st1 \<and> st_users st1 = st_users st \<and> (\<forall>n. memberships_of st1 n = memberships_of st n)
    \<and> (\<forall>n. effective_roles st1 n = effective_roles st n)"
  using deserialize_serialized[OF assms] tidy_same[OF assms(1)] by (simp add: tidy_def)

theorem users_roundtrip_witness:
  "\<exists>buf st1. serialize_users (add_member [98] [97] store_new) = Some buf \<and> deserialize_users buf = Inr st1
    \<and> (\<forall>n. memberships_of st1 n = memberships_of (add_member [98] [97] store_new) n)"
proof -
  let ?st = "add_member [98] [97] store_new :: user_store"
  have o: "store_ok ?st" by (rule add_member_ok) (simp add: store_ok_def store_new_def bm_inv_def)
  have st: "?st = \<lparr>st_users = [], st_memberships = [([97], [[98]])]\<rparr>" by (simp add: add_member_def store_new_def bm_get_def)
  have u: "utf8_names ?st" by (simp add: st utf8_names_def all_memberships_def)
  obtain buf where b: "serialize_users ?st = Some buf" "length buf < 2 ^ 64"
    by (simp add: st serialize_users_def all_memberships_def Let_def put_pair_def put_name_def)
  show ?thesis using users_roundtrip[OF o u b] b(1) by blast
qed

end
