(* ===== verification/Scram.thy ===== *)
theory Scram
  imports Users Base64
begin

text \<open>
  SCRAM-SHA-256 (\<open>spg-server/src/scram.rs\<close>) and the exchange that uses it (\<open>scram_auth\<close> in
  \<open>pgwire.rs\<close>). Messages are their bytes. What the connection delivers, the random nonce and the hash
  of the TLS certificate are arguments; the exchange is cut where the server waits for the client, and
  an error frame is a value that says which check refused.
\<close>

definition COMMA :: u8 where "COMMA = 44"
definition CB_NAME :: bytes where
  "CB_NAME = [116, 108, 115, 45, 115, 101, 114, 118, 101, 114, 45, 101, 110, 100, 45, 112, 111, 105, 110, 116]"
definition MECH_PLUS :: bytes where
  "MECH_PLUS = [83, 67, 82, 65, 77, 45, 83, 72, 65, 45, 50, 53, 54, 45, 80, 76, 85, 83]"
definition MECH :: bytes where "MECH = [83, 67, 82, 65, 77, 45, 83, 72, 65, 45, 50, 53, 54]"

section \<open>Messages\<close>

datatype scram_error = BadInitial | BadFinal | NonceMismatch | ProofMismatch

datatype gs2_cbind_flag = NotSupported | SupportedNotUsed | Required

record client_first =
  cf_gs2_header :: bytes
  cf_cbind_flag :: gs2_cbind_flag
  cf_bare :: bytes
  cf_client_nonce :: bytes

definition parse_flag :: "bytes \<Rightarrow> scram_error + gs2_cbind_flag" where
  "parse_flag flag_str =
     (if flag_str = [110] then Inr NotSupported
      else if flag_str = [121] then Inr SupportedNotUsed
      else (case strip_prefix [112, 61] flag_str of
              Some n \<Rightarrow> if n \<noteq> CB_NAME then Inl BadInitial else Inr Required
            | None \<Rightarrow> Inl BadInitial))"

text \<open>The last attribute with the prefix wins.\<close>

definition last_attr :: "bytes \<Rightarrow> bytes list \<Rightarrow> bytes option" where
  "last_attr pre attrs = foldl (\<lambda>acc a. case strip_prefix pre a of Some v \<Rightarrow> Some v | None \<Rightarrow> acc) None attrs"

definition parse_client_first :: "bytes \<Rightarrow> scram_error + client_first" where
  "parse_client_first msg =
     (case str_find COMMA msg of
        None \<Rightarrow> Inl BadInitial
      | Some c1 \<Rightarrow>
          (case str_find COMMA (drop (c1 + 1) msg) of
             None \<Rightarrow> Inl BadInitial
           | Some i \<Rightarrow>
               (let c2 = c1 + 1 + i;
                    gs2_header = take (c2 + 1) msg;
                    bare = drop (c2 + 1) msg
                in and_then (parse_flag (take c1 msg)) (\<lambda>flag.
                     case last_attr [114, 61] (str_split COMMA bare) of
                       None \<Rightarrow> Inl BadInitial
                     | Some nonce \<Rightarrow> Inr \<lparr>cf_gs2_header = gs2_header, cf_cbind_flag = flag, cf_bare = bare, cf_client_nonce = nonce\<rparr>))))"

definition channel_binding_c_value :: "bytes \<Rightarrow> bytes \<Rightarrow> bytes" where
  "channel_binding_c_value gs2_header cbind_data = encode (gs2_header @ cbind_data)"

definition build_server_first :: "bytes \<Rightarrow> scram_secrets \<Rightarrow> bytes" where
  "build_server_first combined_nonce secrets =
     [114, 61] @ combined_nonce @ [44, 115, 61] @ encode (scr_salt secrets) @ [44, 105, 61] @ dec_bytes (unat (scr_iters secrets))"

record client_final =
  cn_without_proof :: bytes
  cn_channel_binding :: bytes
  cn_combined_nonce :: bytes
  cn_client_proof :: bytes

text \<open>The loop tries the nonce prefix first; an attribute has only one of the two.\<close>

definition parse_client_final :: "bytes \<Rightarrow> scram_error + client_final" where
  "parse_client_final msg =
     (case str_rfind [44, 112, 61] msg of
        None \<Rightarrow> Inl BadFinal
      | Some p_idx \<Rightarrow>
          (let without_proof = take p_idx msg;
               proof_b64 = drop (p_idx + 3) msg
           in case decode proof_b64 of
                Inl _ \<Rightarrow> Inl BadFinal
              | Inr decoded \<Rightarrow>
                  if length decoded \<noteq> OUT_LEN then Inl BadFinal
                  else (case last_attr [114, 61] (str_split COMMA without_proof) of
                          None \<Rightarrow> Inl BadFinal
                        | Some nonce \<Rightarrow>
                            (case last_attr [99, 61] (str_split COMMA without_proof) of
                               None \<Rightarrow> Inl BadFinal
                             | Some cb \<Rightarrow> Inr \<lparr>cn_without_proof = without_proof, cn_channel_binding = cb,
                                             cn_combined_nonce = nonce, cn_client_proof = decoded\<rparr>))))"

definition auth_message :: "bytes \<Rightarrow> bytes \<Rightarrow> bytes \<Rightarrow> bytes" where
  "auth_message bare server_first without_proof = bare @ [44] @ server_first @ [44] @ without_proof"

definition verify_and_sign :: "scram_secrets \<Rightarrow> bytes \<Rightarrow> bytes \<Rightarrow> bytes \<Rightarrow> bytes \<Rightarrow> scram_error + bytes" where
  "verify_and_sign secrets bare server_first without_proof client_proof =
     (let msg = auth_message bare server_first without_proof;
          client_signature = hmac_sha256 (scr_stored_key secrets) msg;
          client_key = map (\<lambda>i. client_proof ! i XOR client_signature ! i) [0..<OUT_LEN];
          computed_stored = sha256 client_key
      in if \<not> constant_time_eq 32 computed_stored (scr_stored_key secrets) then Inl ProofMismatch
         else Inr ([118, 61] @ encode (hmac_sha256 (scr_server_key secrets) msg)))"

section \<open>The exchange\<close>

datatype refusal =
    ExpectedInitial | MechUnterminated | PlusUnavailable | MechUnsupported | MissingLength | FirstTruncated
  | FirstNotUtf8 | BadMessage scram_error | FlagWithoutPlus | PlusWithoutFlag | DowngradeDetected | NoVerifier
  | RngFailure | ExpectedResponse | FinalNotUtf8 | BindingMismatch | NonceDiffers | ProofRefused scram_error

text \<open>What the server keeps while it waits for the client's proof.\<close>

record pending_auth =
  pa_first :: client_first
  pa_cbind_data :: bytes
  pa_secrets :: scram_secrets
  pa_combined_nonce :: bytes
  pa_server_first :: bytes

definition choose_mechanism :: "bool \<Rightarrow> bytes \<Rightarrow> refusal + bool" where
  "choose_mechanism advertise_plus mech =
     (if mech = MECH_PLUS then (if \<not> advertise_plus then Inl PlusUnavailable else Inr True)
      else if mech = MECH then Inr False
      else Inl MechUnsupported)"

definition check_flag :: "bool \<Rightarrow> gs2_cbind_flag \<Rightarrow> bool \<Rightarrow> refusal + unit" where
  "check_flag advertise_plus flag using_plus =
     (case flag of
        Required \<Rightarrow> if using_plus then Inr () else Inl FlagWithoutPlus
      | NotSupported \<Rightarrow> if using_plus then Inl PlusWithoutFlag else Inr ()
      | SupportedNotUsed \<Rightarrow> if using_plus then Inl PlusWithoutFlag else if advertise_plus then Inl DowngradeDetected else Inr ())"

definition client_first_text :: "bytes \<Rightarrow> nat \<Rightarrow> refusal + bytes" where
  "client_first_text body cur =
     (if length body < cur + 4 then Inl MissingLength
      else
        (let cf_len = unat (be_u32 (slice body cur (cur + 4)))
         in if length body < cur + 4 + cf_len then Inl FirstTruncated
            else
              (let txt = slice body (cur + 4) (cur + 4 + cf_len)
               in if utf8_valid txt then Inr txt else Inl FirstNotUtf8)))"

definition lift_bad :: "scram_error + 'a \<Rightarrow> refusal + 'a" where
  "lift_bad r = (case r of Inl e \<Rightarrow> Inl (BadMessage e) | Inr x \<Rightarrow> Inr x)"

definition lookup_secrets :: "user_store \<Rightarrow> name \<Rightarrow> scram_secrets option" where
  "lookup_secrets st user = Option.bind (store_get st user) ur_scram"

text \<open>Up to the message with the combined nonce, the salt and the iteration count.\<close>

definition scram_begin :: "bytes option \<Rightarrow> user_store \<Rightarrow> name \<Rightarrow> bytes option \<Rightarrow> u8 \<Rightarrow> bytes \<Rightarrow> refusal + pending_auth" where
  "scram_begin cbind_hash st user nonce tag body =
     (if tag \<noteq> 112 then Inl ExpectedInitial
      else (case str_find 0 body of
              None \<Rightarrow> Inl MechUnterminated
            | Some mech_end \<Rightarrow>
                (let mech = (if utf8_valid (take mech_end body) then take mech_end body else [])
                 in and_then (choose_mechanism (cbind_hash \<noteq> None) mech) (\<lambda>using_plus.
                    and_then (client_first_text body (mech_end + 1)) (\<lambda>txt.
                    and_then (lift_bad (parse_client_first txt)) (\<lambda>cf.
                    and_then (check_flag (cbind_hash \<noteq> None) (cf_cbind_flag cf) using_plus) (\<lambda>_.
                      let cbind_data = (if using_plus then case cbind_hash of Some h \<Rightarrow> h | None \<Rightarrow> [] else [])
                      in case lookup_secrets st user of
                           None \<Rightarrow> Inl NoVerifier
                         | Some secrets \<Rightarrow>
                             (case nonce of
                                None \<Rightarrow> Inl RngFailure
                              | Some server_nonce \<Rightarrow>
                                  (let combined = cf_client_nonce cf @ server_nonce
                                   in Inr \<lparr>pa_first = cf, pa_cbind_data = cbind_data, pa_secrets = secrets,
                                        pa_combined_nonce = combined, pa_server_first = build_server_first combined secrets\<rparr>)))))))))"

text \<open>From the client's proof to the server's signature and the role of the user, read again from the table.\<close>

definition scram_finish :: "pending_auth \<Rightarrow> user_store \<Rightarrow> name \<Rightarrow> u8 \<Rightarrow> bytes \<Rightarrow> refusal + bytes \<times> role option" where
  "scram_finish pa st user tag body =
     (if tag \<noteq> 112 then Inl ExpectedResponse
      else if \<not> utf8_valid body then Inl FinalNotUtf8
      else and_then (lift_bad (parse_client_final body)) (\<lambda>cn.
        let expected_c = channel_binding_c_value (cf_gs2_header (pa_first pa)) (pa_cbind_data pa)
        in if cn_channel_binding cn \<noteq> expected_c then Inl BindingMismatch
           else if cn_combined_nonce cn \<noteq> pa_combined_nonce pa then Inl NonceDiffers
           else (case verify_and_sign (pa_secrets pa) (cf_bare (pa_first pa)) (pa_server_first pa) (cn_without_proof cn) (cn_client_proof cn) of
                   Inl e \<Rightarrow> Inl (ProofRefused e)
                 | Inr signature \<Rightarrow> Inr (signature, map_option ur_role (store_get st user)))))"

section \<open>Strings that hold no comma\<close>

lemma find_append: "List.find P (xs @ ys) = (case List.find P xs of None \<Rightarrow> List.find P ys | Some x \<Rightarrow> Some x)"
  by (induction xs) simp_all

lemma rfind_last:
  assumes "COMMA \<notin> set z"
  shows "str_rfind [44, 112, 61] (s @ [44, 112, 61] @ z) = Some (length s)"
proof -
  let ?m = "s @ [44, 112, 61] @ z" and ?P = "\<lambda>i. take 3 (drop i (s @ [44, 112, 61] @ z)) = [44, 112, 61 :: u8]"
  have later: "\<not> ?P i" if i: "length s < i" for i
  proof -
    obtain k where "i = length s + Suc k" using i less_iff_Suc_add by auto
    then have d: "drop i ?m = drop k ([112, 61] @ z)" by simp
    have "44 \<notin> set ([112, 61] @ z)" using assms by (simp add: COMMA_def)
    then have "44 \<notin> set (drop i ?m)" unfolding d by (meson in_set_dropD)
    then show ?thesis by (metis in_set_takeD list.set_intros(1))
  qed
  have here: "?P (length s)" by simp
  define n where "n = length ?m"
  have n: "length s < n" by (simp add: n_def)
  have "[0..<n] = [0..<length s] @ length s # [Suc (length s)..<n]"
    using upt_add_eq_append[of 0 "length s" "n - length s"] upt_conv_Cons[OF n] n by simp
  then have r: "rev [0..<n] = rev [Suc (length s)..<n] @ length s # rev [0..<length s]" by simp
  have "List.find ?P (rev [Suc (length s)..<n]) = None" using later by (auto simp: find_None_iff)
  then have "List.find ?P (rev [0..<n]) = Some (length s)" unfolding r using here
    by (simp add: find_append)
  moreover have "length [44, 112, 61 :: u8] = 3" by simp
  ultimately show ?thesis unfolding str_rfind_def n_def by (simp only:)
qed


text \<open>Base64 text and decimal numbers are ASCII and hold no comma.\<close>

definition plain :: "bytes \<Rightarrow> bool" where "plain s \<longleftrightarrow> (\<forall>b\<in>set s. b < 128 \<and> b \<noteq> COMMA)"

lemma plain_append [simp]: "plain (a @ b) \<longleftrightarrow> plain a \<and> plain b" "plain (c # b) \<longleftrightarrow> (c < 128 \<and> c \<noteq> COMMA) \<and> plain b" "plain []"
  by (auto simp: plain_def)

lemma plain_no_comma: "plain s \<Longrightarrow> COMMA \<notin> set s"
  by (auto simp: plain_def)

lemma alpha_plain: "plain ALPHA"
  by (simp add: ALPHA_def COMMA_def)

lemma sextet_plain: "sextet n k < 128 \<and> sextet n k \<noteq> COMMA"
proof -
  have "drop_bit k n AND 0x3f = take_bit 6 (drop_bit k n)" by (rule sextet_value)
  then have "unat (drop_bit k n AND 0x3f) < 64" using take_bit_nat_less_exp[of 6 "unat (drop_bit k n)"] by (simp add: unsigned_take_bit_eq)
  moreover have "length ALPHA = 64" by (simp add: ALPHA_def)
  ultimately have "sextet n k \<in> set ALPHA" by (simp add: sextet_def)
  then show ?thesis using alpha_plain by (simp add: plain_def)
qed

lemma encode_plain: "plain (encode xs)"
  by (induction xs rule: encode.induct) (simp_all add: sextet_plain sextet_plain[unfolded COMMA_def] Let_def PAD_def COMMA_def)

section \<open>An honest client\<close>

text \<open>The three forms of the header a client may send, and what it has to match.\<close>

fun gs2_header :: "gs2_cbind_flag \<Rightarrow> bytes" where
  "gs2_header NotSupported = [110, 44, 44]"
| "gs2_header SupportedNotUsed = [121, 44, 44]"
| "gs2_header Required = [112, 61] @ CB_NAME @ [44, 44]"

definition client_bare :: "bytes \<Rightarrow> bytes \<Rightarrow> bytes" where
  "client_bare user nonce = [110, 61] @ user @ [44, 114, 61] @ nonce"

definition final_without_proof :: "bytes \<Rightarrow> bytes \<Rightarrow> bytes \<Rightarrow> bytes" where
  "final_without_proof gs2 cbind combined = [99, 61] @ encode (gs2 @ cbind) @ [44, 114, 61] @ combined"

definition client_proof :: "bytes \<Rightarrow> scram_secrets \<Rightarrow> bytes \<Rightarrow> bytes" where
  "client_proof password secrets msg =
     (let salted = pbkdf2_sha256_32 password (scr_salt secrets) (unat (scr_iters secrets));
          client_key = hmac_sha256 salted CLIENT_KEY
      in map2 (XOR) client_key (hmac_sha256 (sha256 client_key) msg))"

definition client_final_message :: "bytes \<Rightarrow> pending_auth \<Rightarrow> bytes \<Rightarrow> bytes \<Rightarrow> bytes" where
  "client_final_message password pa bare cbind =
     (let wp = final_without_proof (cf_gs2_header (pa_first pa)) cbind (pa_combined_nonce pa)
      in wp @ [44, 112, 61] @ encode (client_proof password (pa_secrets pa) (auth_message bare (pa_server_first pa) wp)))"

lemma strip_simps [simp]: "strip_prefix pre (pre @ s) = Some s"
  by (simp add: strip_prefix_def)

lemma parse_honest_first:
  assumes "plain user" "plain nonce"
  shows "parse_client_first (gs2_header flag @ client_bare user nonce) =
    Inr \<lparr>cf_gs2_header = gs2_header flag, cf_cbind_flag = flag, cf_bare = client_bare user nonce, cf_client_nonce = nonce\<rparr>"
proof -
  define fs where "fs = (case flag of NotSupported \<Rightarrow> [110] | SupportedNotUsed \<Rightarrow> [121] | Required \<Rightarrow> [112, 61] @ CB_NAME)"
  have g: "gs2_header flag = fs @ [44, 44]" by (cases flag) (simp_all add: fs_def)
  have c: "COMMA \<notin> set fs" by (cases flag) (simp_all add: fs_def COMMA_def CB_NAME_def)
  have f1: "str_find COMMA (gs2_header flag @ client_bare user nonce) = Some (length fs)"
    using find_first[OF c, of "44 # client_bare user nonce"] by (simp add: g COMMA_def)
  have f2: "str_find COMMA (drop (length fs + 1) (gs2_header flag @ client_bare user nonce)) = Some 0"
    using find_first[of COMMA "[]" "client_bare user nonce"] by (simp add: g COMMA_def)
  have fl: "parse_flag fs = Inr flag" by (cases flag) (simp_all add: fs_def parse_flag_def strip_prefix_def CB_NAME_def)
  have "COMMA \<notin> set ([110, 61] @ user)" "COMMA \<notin> set ([114, 61] @ nonce)" using assms by (auto simp: COMMA_def plain_def)
  then have sp: "str_split COMMA (client_bare user nonce) = [[110, 61] @ user, [114, 61] @ nonce]"
    using split_cons[of COMMA "[110, 61] @ user" "[114, 61] @ nonce"] split_none[of COMMA "[114, 61] @ nonce"]
    by (simp add: client_bare_def COMMA_def)
  have "last_attr [114, 61] [[110, 61] @ user, [114, 61] @ nonce] = Some nonce" by (simp add: last_attr_def strip_prefix_def)
  then show ?thesis using f1 f2 fl sp by (simp add: parse_client_first_def Let_def) (simp add: g)
qed

lemma decode_encode: "decode (encode xs) = Inr xs"
  using decode_quads_encode[of xs] by (simp add: decode_def)

lemma parse_honest_final:
  assumes "plain combined" "length pf = OUT_LEN"
  shows "parse_client_final (final_without_proof gs2 cbind combined @ [44, 112, 61] @ encode pf) =
    Inr \<lparr>cn_without_proof = final_without_proof gs2 cbind combined, cn_channel_binding = encode (gs2 @ cbind), cn_combined_nonce = combined, cn_client_proof = pf\<rparr>"
proof -
  let ?wp = "final_without_proof gs2 cbind combined"
  have r: "str_rfind [44, 112, 61] (?wp @ [44, 112, 61] @ encode pf) = Some (length ?wp)"
    by (rule rfind_last) (rule plain_no_comma[OF encode_plain])
  have "COMMA \<notin> set ([99, 61] @ encode (gs2 @ cbind))" "COMMA \<notin> set ([114, 61] @ combined)"
    using assms(1) encode_plain[of "gs2 @ cbind"] by (auto simp: COMMA_def plain_def)
  then have sp: "str_split COMMA ?wp = [[99, 61] @ encode (gs2 @ cbind), [114, 61] @ combined]"
    using split_cons[of COMMA "[99, 61] @ encode (gs2 @ cbind)" "[114, 61] @ combined"] split_none[of COMMA "[114, 61] @ combined"]
    by (simp add: final_without_proof_def COMMA_def)
  have "last_attr [114, 61] [[99, 61] @ encode (gs2 @ cbind), [114, 61] @ combined] = Some combined"
    "last_attr [99, 61] [[99, 61] @ encode (gs2 @ cbind), [114, 61] @ combined] = Some (encode (gs2 @ cbind))"
    by (simp_all add: last_attr_def strip_prefix_def)
  then show ?thesis unfolding parse_client_final_def r using assms(2) by (simp add: sp decode_encode)
qed


lemma length_hmac_256 [simp]: "length (hmac_sha256 k m) = 32"
  by (simp add: hmac_sha256_spec)

lemma verify_honest:
  assumes "secrets = compute_scram_secrets password salt iters"
  shows "verify_and_sign secrets bare sf wp (client_proof password secrets (auth_message bare sf wp))
    = Inr ([118, 61] @ encode (hmac_sha256 (scr_server_key secrets) (auth_message bare sf wp)))"
proof -
  define ck where "ck = hmac_sha256 (pbkdf2_sha256_32 password salt (unat iters)) CLIENT_KEY"
  have s: "scr_stored_key secrets = sha256 ck" "scr_salt secrets = salt" "scr_iters secrets = iters"
    by (simp_all add: assms compute_scram_secrets_def Let_def ck_def)
  let ?m = "hmac_sha256 (sha256 ck) (auth_message bare sf wp)"
  have "map (\<lambda>i. map2 (XOR) ck ?m ! i XOR ?m ! i) [0..<32] = ck" by (rule unmask) (simp_all add: ck_def)
  then show ?thesis
    by (simp add: verify_and_sign_def client_proof_def Let_def s constant_time_eq_iff OUT_LEN_def flip: ck_def)
qed

text \<open>Which header a client may use, given what the server offered, and the mechanism it names.\<close>

definition flag_fits :: "bytes option \<Rightarrow> gs2_cbind_flag \<Rightarrow> bool" where
  "flag_fits cb flag \<longleftrightarrow> (case flag of NotSupported \<Rightarrow> True | SupportedNotUsed \<Rightarrow> cb = None | Required \<Rightarrow> cb \<noteq> None)"

definition mech_of :: "gs2_cbind_flag \<Rightarrow> bytes" where "mech_of flag = (if flag = Required then MECH_PLUS else MECH)"

definition bound_data :: "bytes option \<Rightarrow> gs2_cbind_flag \<Rightarrow> bytes" where
  "bound_data cb flag = (case cb of Some h \<Rightarrow> if flag = Required then h else [] | None \<Rightarrow> [])"

definition initial_body :: "bytes \<Rightarrow> bytes \<Rightarrow> bytes" where
  "initial_body mech txt = mech @ [0] @ u32_be (word_of_nat (length txt)) @ txt"

lemma be_u32_u32_be [simp]: "be_u32 (u32_be w) = w"
  by (simp add: be_u32_def u32_be_def)

lemma mech_facts: "(0 :: u8) \<notin> set (mech_of flag)" "utf8_valid (mech_of flag)"
  by (simp_all add: mech_of_def MECH_PLUS_def MECH_def)

lemma small_u32: "n < 2 ^ 32 \<Longrightarrow> unat (word_of_nat n :: u32) = n"
  by (simp add: unat_of_nat)

lemma begin_honest:
  assumes "lookup_secrets st user = Some secrets" "plain uname" "plain nonce" "flag_fits cb flag"
    and "length (gs2_header flag @ client_bare uname nonce) < 2 ^ 32"
  defines "cf \<equiv> \<lparr>cf_gs2_header = gs2_header flag, cf_cbind_flag = flag, cf_bare = client_bare uname nonce, cf_client_nonce = nonce\<rparr>"
  shows "scram_begin cb st user (Some sn) 112 (initial_body (mech_of flag) (gs2_header flag @ client_bare uname nonce)) =
    Inr \<lparr>pa_first = cf, pa_cbind_data = bound_data cb flag, pa_secrets = secrets, pa_combined_nonce = nonce @ sn,
         pa_server_first = build_server_first (nonce @ sn) secrets\<rparr>"
proof -
  let ?t = "gs2_header flag @ client_bare uname nonce"
  let ?b = "initial_body (mech_of flag) ?t"
  have f: "str_find 0 ?b = Some (length (mech_of flag))" using find_first[OF mech_facts(1)] by (simp add: initial_body_def)
  have m: "take (length (mech_of flag)) ?b = mech_of flag" by (simp add: initial_body_def)
  have b: "?b = (mech_of flag @ [0]) @ u32_be (word_of_nat (length ?t)) @ ?t" by (simp add: initial_body_def)
  have l: "unat (word_of_nat (length ?t) :: u32) = length ?t" by (rule small_u32[OF assms(5)])
  have s1: "slice ?b (length (mech_of flag) + 1) (length (mech_of flag) + 1 + 4) = u32_be (word_of_nat (length ?t))"
    unfolding b slice_def by simp
  have s2: "slice ?b (length (mech_of flag) + 1 + 4) (length (mech_of flag) + 1 + 4 + length ?t) = ?t"
    unfolding b slice_def by simp
  have lb: "length ?b = length (mech_of flag) + 1 + 4 + length ?t" by (simp add: initial_body_def)
  have "\<forall>x\<in>set ?t. x < 128" using assms(2,3) by (cases flag) (auto simp: plain_def client_bare_def CB_NAME_def)
  then have u: "utf8_valid ?t" by (rule ascii_utf8)
  have ct: "client_first_text ?b (length (mech_of flag) + 1) = Inr ?t"
    unfolding client_first_text_def s1 be_u32_u32_be l s2 Let_def lb using u by simp
  have ch: "choose_mechanism (cb \<noteq> None) (mech_of flag) = Inr (flag = Required)"
    using assms(4) by (cases flag) (auto simp: choose_mechanism_def mech_of_def MECH_def MECH_PLUS_def flag_fits_def)
  have ck: "check_flag (cb \<noteq> None) flag (flag = Required) = Inr ()"
    using assms(4) by (cases flag) (auto simp: check_flag_def flag_fits_def)
  have bd: "(if flag = Required then case cb of Some h \<Rightarrow> h | None \<Rightarrow> [] else []) = bound_data cb flag"
    by (simp add: bound_data_def split: option.split)
  show ?thesis unfolding scram_begin_def f option.case m
    using ct ch ck parse_honest_first[OF assms(2,3), of flag] assms(1)
    by (simp add: mech_facts(2) lift_bad_def Let_def cf_def flip: bd)
qed

lemma finish_honest:
  assumes "pa_secrets pa = compute_scram_secrets password salt iters" "plain (pa_combined_nonce pa)" "store_get st user = Some r"
  defines "msg \<equiv> client_final_message password pa (cf_bare (pa_first pa)) (pa_cbind_data pa)"
  shows "scram_finish pa st user 112 msg = Inr ([118, 61] @ encode (hmac_sha256 (scr_server_key (pa_secrets pa))
     (auth_message (cf_bare (pa_first pa)) (pa_server_first pa) (final_without_proof (cf_gs2_header (pa_first pa)) (pa_cbind_data pa) (pa_combined_nonce pa)))), Some (ur_role r))"
proof -
  let ?wp = "final_without_proof (cf_gs2_header (pa_first pa)) (pa_cbind_data pa) (pa_combined_nonce pa)"
  define pf where "pf = client_proof password (pa_secrets pa) (auth_message (cf_bare (pa_first pa)) (pa_server_first pa) ?wp)"
  have msg: "msg = ?wp @ [44, 112, 61] @ encode pf" by (simp add: msg_def client_final_message_def Let_def pf_def)
  have l: "length pf = OUT_LEN" by (simp add: pf_def client_proof_def Let_def OUT_LEN_def)
  have "\<forall>x\<in>set msg. x < 128" using assms(2) encode_plain by (auto simp: msg final_without_proof_def plain_def)
  then have "utf8_valid msg" by (rule ascii_utf8)
  then show ?thesis using parse_honest_final[OF assms(2) l, of "cf_gs2_header (pa_first pa)" "pa_cbind_data pa"]
      verify_honest[OF assms(1), of "cf_bare (pa_first pa)" "pa_server_first pa" ?wp] assms(3)
    unfolding scram_finish_def msg by (simp add: lift_bad_def Let_def channel_binding_c_value_def pf_def)
qed


lemma begin_accepted:
  assumes "scram_begin cb st user nonce tag body = Inr pa"
  obtains mech using_plus cf secrets sn where "choose_mechanism (cb \<noteq> None) mech = Inr using_plus"
    "check_flag (cb \<noteq> None) (cf_cbind_flag cf) using_plus = Inr ()" "lookup_secrets st user = Some secrets" "nonce = Some sn"
    "pa = \<lparr>pa_first = cf, pa_cbind_data = (if using_plus then case cb of Some h \<Rightarrow> h | None \<Rightarrow> [] else []), pa_secrets = secrets,
      pa_combined_nonce = cf_client_nonce cf @ sn, pa_server_first = build_server_first (cf_client_nonce cf @ sn) secrets\<rparr>"
proof -
  obtain mech_end where me: "str_find 0 body = Some mech_end" using assms by (cases "str_find 0 body") (simp_all add: scram_begin_def split: if_splits)
  have t: "tag = 112" using assms by (simp add: scram_begin_def split: if_splits)
  define mech where "mech = (if utf8_valid (take mech_end body) then take mech_end body else [])"
  note E = assms[unfolded scram_begin_def me option.case t Let_def, folded mech_def, simplified, unfolded and_then_Inr]
  from E obtain using_plus cf where b: "choose_mechanism (\<exists>y. cb = Some y) mech = Inr using_plus" "check_flag (\<exists>y. cb = Some y) (cf_cbind_flag cf) using_plus = Inr ()"
    and r: "(case lookup_secrets st user of None \<Rightarrow> Inl NoVerifier
       | Some secrets \<Rightarrow> (case nonce of None \<Rightarrow> Inl RngFailure
          | Some server_nonce \<Rightarrow> Inr \<lparr>pa_first = cf, pa_cbind_data = (if using_plus then case cb of Some h \<Rightarrow> h | None \<Rightarrow> [] else []), pa_secrets = secrets,
              pa_combined_nonce = cf_client_nonce cf @ server_nonce, pa_server_first = build_server_first (cf_client_nonce cf @ server_nonce) secrets\<rparr>)) = Inr pa"
    by (elim exE conjE, intro that) (assumption, simp, assumption)
  obtain secrets sn where "lookup_secrets st user = Some secrets" "nonce = Some sn" using r by (auto split: option.splits)
  then show thesis using that[of mech using_plus cf secrets sn] b r by (simp add: not_None_eq)
qed

section \<open>Properties\<close>



text \<open>
  C7: nothing else is accepted. A successful exchange shows that the client echoed the nonce of this exchange, that its
  channel binding decodes to the header it sent followed by the server's certificate hash when the mechanism binds the
  channel, that a client that could have bound but was told it could not is refused, and that the proof yields, under
  the signature of exactly these messages, a key whose hash is the stored key of the user.
\<close>

theorem scram_acceptance_sound:
  assumes "scram_begin cb st user nonce tag body = Inr pa" "scram_finish pa st1 user tag1 body1 = Inr (sig, rl)" "store_ok st"
  shows "\<exists>cn sn secrets. parse_client_final body1 = Inr cn \<and> nonce = Some sn \<and> lookup_secrets st user = Some secrets
    \<and> cn_combined_nonce cn = cf_client_nonce (pa_first pa) @ sn
    \<and> decode (cn_channel_binding cn) = Inr (cf_gs2_header (pa_first pa) @ bound_data cb (cf_cbind_flag (pa_first pa)))
    \<and> flag_fits cb (cf_cbind_flag (pa_first pa))
    \<and> sha256 (map2 (XOR) (cn_client_proof cn) (hmac_sha256 (scr_stored_key secrets)
        (auth_message (cf_bare (pa_first pa)) (pa_server_first pa) (cn_without_proof cn)))) = scr_stored_key secrets"
proof -
  obtain mech using_plus cf secrets sn where b: "choose_mechanism (cb \<noteq> None) mech = Inr using_plus"
    "check_flag (cb \<noteq> None) (cf_cbind_flag cf) using_plus = Inr ()" "lookup_secrets st user = Some secrets" "nonce = Some sn"
    and pa: "pa = \<lparr>pa_first = cf, pa_cbind_data = (if using_plus then case cb of Some h \<Rightarrow> h | None \<Rightarrow> [] else []), pa_secrets = secrets,
      pa_combined_nonce = cf_client_nonce cf @ sn, pa_server_first = build_server_first (cf_client_nonce cf @ sn) secrets\<rparr>"
    by (rule begin_accepted[OF assms(1)])
  obtain cn where c: "parse_client_final body1 = Inr cn" "cn_channel_binding cn = channel_binding_c_value (cf_gs2_header (pa_first pa)) (pa_cbind_data pa)"
    "cn_combined_nonce cn = pa_combined_nonce pa"
    and v: "verify_and_sign (pa_secrets pa) (cf_bare (pa_first pa)) (pa_server_first pa) (cn_without_proof cn) (cn_client_proof cn) = Inr sig"
    using assms(2) by (auto simp: scram_finish_def Let_def and_then_Inr lift_bad_def split: if_splits sum.splits)
  have us: "using_plus = (cf_cbind_flag cf = Required)" "flag_fits cb (cf_cbind_flag cf)"
    using b(1,2) by (auto simp: check_flag_def choose_mechanism_def flag_fits_def split: gs2_cbind_flag.splits if_splits)
  then have d: "pa_cbind_data pa = bound_data cb (cf_cbind_flag cf)" by (simp add: pa bound_data_def split: option.split)
  obtain r where "store_get st user = Some r" "ur_scram r = Some secrets" using b(3) by (auto simp: lookup_secrets_def bind_eq_Some_conv)
  then have "scram_ok secrets" using store_ok_get[OF assms(3)] by (fastforce simp: user_ok_def)
  then have l: "length (scr_stored_key secrets) = 32" by (simp add: scram_ok_def HASH_LEN_def)
  have p: "length (cn_client_proof cn) = 32" using c(1) by (auto simp: parse_client_final_def OUT_LEN_def Let_def split: if_splits option.splits sum.splits)
  let ?h = "hmac_sha256 (scr_stored_key secrets) (auth_message (cf_bare (pa_first pa)) (pa_server_first pa) (cn_without_proof cn))"
  have "map (\<lambda>i. cn_client_proof cn ! i XOR ?h ! i) [0..<OUT_LEN] = map2 (XOR) (cn_client_proof cn) ?h"
    by (rule nth_equalityI) (simp_all add: OUT_LEN_def p)
  then have "sha256 (map2 (XOR) (cn_client_proof cn) ?h) = scr_stored_key secrets"
    using v l by (auto simp: verify_and_sign_def Let_def pa constant_time_eq_iff split: if_splits)
  then show ?thesis using c b(3,4) us(2) d by (intro exI[of _ cn] exI[of _ sn] exI[of _ secrets])
    (simp add: channel_binding_c_value_def decode_encode pa)
qed


definition sample_user :: user_record where
  "sample_user = \<lparr>ur_role = ReadOnly, ur_salt = replicate 16 0, ur_hash = replicate 32 0, ur_scram = Some (compute_scram_secrets [1] (replicate 16 0) 1),
     ur_mysql_native = None, ur_caching_sha2 = None, ur_can_login = True, ur_password_declared = True, ur_inherit = True, ur_superuser = False\<rparr>"

definition sample_store :: user_store where
  "sample_store = \<lparr>st_users = [([97], sample_user)], st_memberships = []\<rparr>"

lemma sample_ok: "store_ok sample_store" "store_get sample_store [97] = Some sample_user"
  by (simp_all add: sample_store_def store_ok_def sample_user_def user_ok_def user_lengths bm_inv_def scram_secrets_ok store_get_def bm_get_def)

theorem scram_acceptance_sound_witness:
  "\<exists>pa sig rl body body1 cn. scram_begin (Some [7]) sample_store [97] (Some [99]) 112 body = Inr pa \<and> scram_finish pa sample_store [97] 112 body1 = Inr (sig, rl)
    \<and> store_ok sample_store \<and> parse_client_final body1 = Inr cn \<and> decode (cn_channel_binding cn) = Inr (gs2_header Required @ [7])"
proof -
  let ?sec = "compute_scram_secrets [1] (replicate 16 0) 1"
  let ?body = "initial_body (mech_of Required) (gs2_header Required @ client_bare [97] [98])"
  have h: "lookup_secrets sample_store [97] = Some ?sec" "plain [97]" "plain [98]" "flag_fits (Some [7]) Required"
    "length (gs2_header Required @ client_bare [97] [98]) < 2 ^ 32"
    by (simp_all add: lookup_secrets_def sample_ok COMMA_def flag_fits_def client_bare_def CB_NAME_def) (simp add: sample_user_def)
  obtain pa where b: "scram_begin (Some [7]) sample_store [97] (Some [99]) 112 ?body = Inr pa" "pa_secrets pa = ?sec" "pa_combined_nonce pa = [98, 99]"
    "cf_gs2_header (pa_first pa) = gs2_header Required" "cf_cbind_flag (pa_first pa) = Required"
    using begin_honest[OF h, of "[99]"] by auto
  have "plain (pa_combined_nonce pa)" by (simp add: b(3) COMMA_def)
  then obtain sig rl body1 where f: "scram_finish pa sample_store [97] 112 body1 = Inr (sig, rl)"
    using finish_honest[OF b(2) _ sample_ok(2)] by blast
  have "bound_data (Some [7]) Required = [7]" by (simp add: bound_data_def)
  then obtain cn where "parse_client_final body1 = Inr cn" "decode (cn_channel_binding cn) = Inr (gs2_header Required @ [7])"
    using scram_acceptance_sound[OF b(1) f sample_ok(1)] unfolding b(4,5) by metis
  then show ?thesis using b(1) f sample_ok(1) by blast
qed

end
