(* ===== verification/Copy_Format.thy ===== *)
theory Copy_Format
  imports Rust_Str
begin

text \<open>
  The two formats of \<open>COPY\<close> (\<open>spg-engine/src/copy.rs\<close>): writing one row as a text or CSV record,
  reading it back, and finding where a CSV record ends. Delimiter, quote and escape are one-byte
  characters (the parser refuses others) and a string is its bytes, so a character of several bytes
  never meets one of them.
\<close>

type_synonym copy_cell = "bytes option"

section \<open>Text format\<close>

definition unescape_char :: "u8 \<Rightarrow> u8" where
  "unescape_char n =
     (if n = 98 then 8 else if n = 102 then 12 else if n = 110 then 10 else if n = 114 then 13
      else if n = 116 then 9 else if n = 118 then 11 else if n = 92 then 92 else n)"

fun unescape :: "bytes \<Rightarrow> bytes" where
  "unescape [] = []"
| "unescape [c] = [c]"
| "unescape (c # n # cs) = (if c = 92 then unescape_char n # unescape cs else c # unescape (n # cs))"

definition decode_copy_text_row_opts :: "bytes \<Rightarrow> u8 \<Rightarrow> bytes \<Rightarrow> copy_cell list" where
  "decode_copy_text_row_opts line delimiter null_string =
     map (\<lambda>cell. if cell = null_string then None else Some (unescape cell)) (str_split delimiter line)"

definition escape_char :: "u8 \<Rightarrow> u8 \<Rightarrow> bytes" where
  "escape_char delimiter c =
     (if c = 92 then [92, 92] else if c = 9 then [92, 116] else if c = 10 then [92, 110] else if c = 13 then [92, 114]
      else if c = 8 then [92, 98] else if c = 12 then [92, 102] else if c = 11 then [92, 118]
      else if c = delimiter then [92, c] else [c])"

definition text_cell :: "u8 \<Rightarrow> bytes \<Rightarrow> copy_cell \<Rightarrow> bytes" where
  "text_cell delimiter null_str cell =
     (case cell of None \<Rightarrow> null_str | Some s \<Rightarrow> concat (map (escape_char delimiter) s))"

definition encode_copy_text_cells_opts :: "copy_cell list \<Rightarrow> u8 \<Rightarrow> bytes \<Rightarrow> bytes" where
  "encode_copy_text_cells_opts cells delimiter null_str = join_with delimiter (map (text_cell delimiter null_str) cells)"

section \<open>CSV format\<close>

text \<open>
  The reader's position is the part of the record not read yet. Inside quotes: what the field holds,
  and the rest behind the closing quote.
\<close>

function quoted_content :: "u8 \<Rightarrow> u8 \<Rightarrow> bytes \<Rightarrow> bytes \<times> bytes" where
  "quoted_content q e [] = ([], [])"
| "quoted_content q e (c # cs) =
     (if c = e \<and> cs \<noteq> [] \<and> (hd cs = q \<or> hd cs = e) then map_prod (Cons (hd cs)) id (quoted_content q e (tl cs))
      else if c = q then ([], cs)
      else map_prod (Cons c) id (quoted_content q e cs))"
  by pat_completeness auto
termination by (relation "measure (\<lambda>(q, e, s). length s)") auto

lemma quoted_content_shorter: "length (snd (quoted_content q e s)) \<le> length s"
proof (induction q e s rule: quoted_content.induct)
  case (2 q e c cs)
  show ?case
  proof (cases "c = e \<and> cs \<noteq> [] \<and> (hd cs = q \<or> hd cs = e)")
    case True
    then have "length (snd (quoted_content q e (tl cs))) \<le> length (tl cs)" using 2 by blast
    then show ?thesis using True by simp
  qed (use 2 in auto)
qed simp

definition csv_field :: "u8 \<Rightarrow> u8 \<Rightarrow> u8 \<Rightarrow> bytes \<Rightarrow> bytes \<Rightarrow> copy_cell \<times> bytes" where
  "csv_field d q e null_str s =
     (if s \<noteq> [] \<and> hd s = q then
        (case quoted_content q e (tl s) of (content, rest) \<Rightarrow> (Some content, dropWhile (\<lambda>c. c \<noteq> d) rest))
      else
        (let content = takeWhile (\<lambda>c. c \<noteq> d) s
         in (if content = null_str then None else Some content, dropWhile (\<lambda>c. c \<noteq> d) s)))"

lemma csv_field_shorter: "length (snd (csv_field d q e null_str s)) \<le> length s"
proof (cases "s \<noteq> [] \<and> hd s = q")
  case True
  then obtain content rest where q: "quoted_content q e (tl s) = (content, rest)" by fastforce
  then have "length rest \<le> length (tl s)" using quoted_content_shorter[of q e "tl s"] by simp
  then show ?thesis using True length_dropWhile_le[of "\<lambda>c. c \<noteq> d" rest] by (auto simp: csv_field_def q)
qed (auto simp: csv_field_def Let_def length_dropWhile_le)

function decode_fields :: "u8 \<Rightarrow> u8 \<Rightarrow> u8 \<Rightarrow> bytes \<Rightarrow> bytes \<Rightarrow> copy_cell list" where
  "decode_fields d q e null_str s =
     (let fr = csv_field d q e null_str s
      in fst fr # (if snd fr \<noteq> [] \<and> hd (snd fr) = d then decode_fields d q e null_str (tl (snd fr)) else []))"
  by pat_completeness auto
termination
proof (relation "measure (\<lambda>(d, q, e, n, s). length s)", goal_cases)
  case (2 d q e n s fr)
  then have "length (tl (snd fr)) < length (snd fr)" by (cases "snd fr") auto
  moreover have "length (snd fr) \<le> length s" using 2(1) csv_field_shorter[of d q e n s] by simp
  ultimately show ?case by simp
qed simp

declare decode_fields.simps [simp del]

definition decode_copy_csv_record_escaped :: "bytes \<Rightarrow> u8 \<Rightarrow> u8 \<Rightarrow> u8 \<Rightarrow> bytes \<Rightarrow> copy_cell list" where
  "decode_copy_csv_record_escaped record delimiter quote escape null_str = decode_fields delimiter quote escape null_str record"

function record_end_loop :: "u8 \<Rightarrow> u8 \<Rightarrow> u8 \<Rightarrow> bool \<Rightarrow> bool \<Rightarrow> bytes \<Rightarrow> nat option" where
  "record_end_loop d q e in_quote at_field_start [] = None"
| "record_end_loop d q e in_quote at_field_start (b # buf) =
     (if in_quote then
        (if b = e \<and> buf \<noteq> [] \<and> (hd buf = q \<or> hd buf = e) then map_option (\<lambda>n. n + 2) (record_end_loop d q e True at_field_start (tl buf))
         else map_option Suc (record_end_loop d q e (b \<noteq> q) at_field_start buf))
      else if b = q \<and> at_field_start then map_option Suc (record_end_loop d q e True False buf)
      else if b = 10 then Some 1
      else map_option Suc (record_end_loop d q e False (b = d) buf))"
  by pat_completeness auto
termination by (relation "measure (\<lambda>(d, q, e, iq, fs, s). length s)") auto

definition csv_record_end_escaped :: "bytes \<Rightarrow> u8 \<Rightarrow> u8 \<Rightarrow> u8 \<Rightarrow> nat option" where
  "csv_record_end_escaped buf delimiter quote escape = record_end_loop delimiter quote escape False True buf"

definition csv_quoted :: "u8 \<Rightarrow> u8 \<Rightarrow> bytes \<Rightarrow> bytes" where
  "csv_quoted q e s = concat (map (\<lambda>c. if c = q \<or> c = e then [e, c] else [c]) s)"

definition needs_quote :: "u8 \<Rightarrow> u8 \<Rightarrow> u8 \<Rightarrow> bool \<Rightarrow> bytes \<Rightarrow> bytes \<Rightarrow> bool" where
  "needs_quote d q e forced null_str s \<longleftrightarrow>
     forced \<or> s = null_str \<or> list_ex (\<lambda>c. c = d \<or> c = q \<or> c = e \<or> c = 10 \<or> c = 13) s"

definition csv_cell :: "u8 \<Rightarrow> u8 \<Rightarrow> u8 \<Rightarrow> bool \<Rightarrow> bytes \<Rightarrow> copy_cell \<Rightarrow> bytes" where
  "csv_cell d q e forced null_str cell =
     (case cell of
        None \<Rightarrow> null_str
      | Some s \<Rightarrow> if needs_quote d q e forced null_str s then q # csv_quoted q e s @ [q] else s)"

definition forced_at :: "bool list option \<Rightarrow> nat \<Rightarrow> bool" where
  "forced_at force i = (case force of None \<Rightarrow> False | Some f \<Rightarrow> i < length f \<and> f ! i)"

definition encode_copy_csv_cells_opts :: "copy_cell list \<Rightarrow> u8 \<Rightarrow> u8 \<Rightarrow> u8 \<Rightarrow> bool list option \<Rightarrow> bytes \<Rightarrow> bytes" where
  "encode_copy_csv_cells_opts cells d q e force_quote null_str =
     join_with d (map (\<lambda>(i, cell). csv_cell d q e (forced_at force_quote i) null_str cell) (zip [0..<length cells] cells))"

section \<open>Text records\<close>

definition text_delimiter :: "u8 \<Rightarrow> bool" where "text_delimiter d \<longleftrightarrow> d < 128 \<and> d \<notin> {10, 13, 92, 98, 102, 110, 114, 116, 118}"

lemma unescape_plain: "c \<noteq> 92 \<Longrightarrow> unescape (c # t) = c # unescape t"
  by (cases t) simp_all

lemma unescape_escape: "text_delimiter d \<Longrightarrow> unescape (concat (map (escape_char d) s)) = s"
proof (induction s)
  case (Cons c s)
  then show ?case
    by (cases "\<exists>n. escape_char d c = [92, n]")
       (auto simp: escape_char_def unescape_char_def unescape_plain text_delimiter_def split: if_splits)
qed simp

lemma escaped_bytes: "b \<in> set (escape_char d c) \<Longrightarrow> b \<in> {92, 116, 110, 114, 98, 102, 118} \<or> b = c \<and> c \<notin> {9, 10, 13, 8, 12, 11}"
  by (auto simp: escape_char_def split: if_splits)

text \<open>A cell the format can carry: the delimiter in it is one that is written as a letter.\<close>

definition text_cell_ok :: "u8 \<Rightarrow> bytes \<Rightarrow> copy_cell \<Rightarrow> bool" where
  "text_cell_ok d null_str cell \<longleftrightarrow>
     (case cell of None \<Rightarrow> True | Some s \<Rightarrow> (d \<notin> set s \<or> d \<in> {8, 9, 11, 12}) \<and> text_cell d null_str (Some s) \<noteq> null_str)"

lemma text_cell_bytes:
  assumes "text_delimiter d" "text_cell_ok d null_str cell" "b \<in> {d, 10, 13}" "b \<notin> set null_str"
  shows "b \<notin> set (text_cell d null_str cell)"
proof (cases cell)
  case (Some s)
  show ?thesis
  proof
    assume "b \<in> set (text_cell d null_str cell)"
    then obtain c where c: "c \<in> set s" "b \<in> set (escape_char d c)" by (auto simp: Some text_cell_def)
    then show False using escaped_bytes[OF c(2)] assms by (auto simp: Some text_cell_ok_def text_delimiter_def)
  qed
qed (use assms in \<open>simp add: text_cell_def\<close>)

lemma text_row_back:
  assumes d: "text_delimiter d" and cells: "cells \<noteq> []" "\<forall>c\<in>set cells. text_cell_ok d null_str c" and n: "d \<notin> set null_str"
  shows "decode_copy_text_row_opts (encode_copy_text_cells_opts cells d null_str) d null_str = cells"
proof -
  have "str_split d (join_with d (map (text_cell d null_str) cells)) = map (text_cell d null_str) cells"
    using cells text_cell_bytes[OF d _ _ n] by (intro split_join) auto
  moreover have "(if text_cell d null_str c = null_str then None else Some (unescape (text_cell d null_str c))) = c" if c: "c \<in> set cells" for c
  proof -
    have "text_cell_ok d null_str c" using c cells(2) by blast
    then show ?thesis using unescape_escape[OF d] by (cases c rule: option.exhaust) (simp_all add: text_cell_ok_def text_cell_def)
  qed
  ultimately show ?thesis
    by (simp add: decode_copy_text_row_opts_def encode_copy_text_cells_opts_def comp_def map_idI)
qed

section \<open>CSV records\<close>

definition csv_options :: "u8 \<Rightarrow> u8 \<Rightarrow> u8 \<Rightarrow> bytes \<Rightarrow> bool" where
  "csv_options d q e null_str \<longleftrightarrow>
     d < 128 \<and> q < 128 \<and> e < 128 \<and> d \<noteq> q \<and> d \<notin> {10, 13} \<and> q \<notin> {10, 13} \<and> set null_str \<inter> {d, q, 10, 13} = {}"

text \<open>What a quoted field is followed by: nothing, the delimiter, or the end of the line.\<close>

definition after_field :: "u8 \<Rightarrow> u8 \<Rightarrow> bytes \<Rightarrow> bool" where "after_field q e t \<longleftrightarrow> t = [] \<or> e \<noteq> q \<or> hd t \<noteq> q"

lemma quoted_back: "after_field q e t \<Longrightarrow> quoted_content q e (csv_quoted q e s @ q # t) = (s, t)"
proof (induction s)
  case Nil
  then show ?case by (auto simp: csv_quoted_def after_field_def)
next
  case (Cons c s)
  then show ?case by (simp add: csv_quoted_def)
qed

lemma record_end_quoted:
  "after_field q e t \<Longrightarrow> record_end_loop d q e True False (csv_quoted q e s @ q # t) =
     map_option (\<lambda>n. n + length (csv_quoted q e s) + 1) (record_end_loop d q e False False t)"
proof (induction s)
  case Nil
  then show ?case by (auto simp: csv_quoted_def after_field_def)
next
  case (Cons c s)
  then show ?case by (simp add: csv_quoted_def option.map_comp comp_def)
qed

lemma record_end_plain:
  "q \<notin> set s \<Longrightarrow> 10 \<notin> set s \<Longrightarrow> t \<noteq> [] \<Longrightarrow> hd t \<noteq> q \<Longrightarrow>
   record_end_loop d q e False fs (s @ t) = map_option (\<lambda>n. n + length s) (record_end_loop d q e False False t)"
proof (induction s arbitrary: fs)
  case Nil
  then show ?case by (cases t) (simp_all add: option.map_ident)
next
  case (Cons c s)
  then show ?case by (auto simp add: option.map_comp comp_def)
qed

lemma csv_cell_cases:
  assumes "csv_options d q e null_str"
  obtains (plain) s where "csv_cell d q e f null_str cell = s" "set s \<inter> {d, q, 10, 13} = {}" "(if s = null_str then None else Some s) = cell"
  | (quoted) s where "csv_cell d q e f null_str cell = q # csv_quoted q e s @ [q]" "cell = Some s"
proof (cases cell)
  case None
  then show thesis using assms by (intro plain[of null_str]) (simp_all add: csv_cell_def csv_options_def)
next
  case (Some s)
  show thesis
  proof (cases "needs_quote d q e f null_str s")
    case True
    then show thesis using Some by (intro quoted[of s]) (simp_all add: csv_cell_def)
  next
    case False
    then have "set s \<inter> {d, q, 10, 13} = {}" "s \<noteq> null_str" by (auto simp: needs_quote_def list_ex_iff)
    then show thesis using Some False by (intro plain[of s]) (simp_all add: csv_cell_def)
  qed
qed

lemma csv_field_back:
  assumes o: "csv_options d q e null_str" and t: "t = [] \<or> hd t = d"
  shows "csv_field d q e null_str (csv_cell d q e f null_str cell @ t) = (cell, t)"
  using o
proof (cases rule: csv_cell_cases[where f = f and cell = cell])
  case (plain s)
  have c: "(s @ t \<noteq> [] \<and> hd (s @ t) = q) = False" using plain(2) t o by (cases s) (auto simp: csv_options_def)
  have w: "takeWhile (\<lambda>c. c \<noteq> d) (s @ t) = s" "dropWhile (\<lambda>c. c \<noteq> d) (s @ t) = t"
    using plain(2) t by (induction s) (cases t; auto)+
  show ?thesis by (simp only: csv_field_def plain(1) c if_False Let_def w plain(3))
next
  case (quoted s)
  have "after_field q e t" using t o by (auto simp: after_field_def csv_options_def)
  moreover have "dropWhile (\<lambda>c. c \<noteq> d) t = t" using t by (cases t) auto
  ultimately show ?thesis unfolding quoted(1) by (simp add: csv_field_def quoted(2) quoted_back)
qed

lemma csv_end_back:
  assumes o: "csv_options d q e null_str" and t: "b \<in> {d, 10}"
  shows "record_end_loop d q e False True (csv_cell d q e f null_str cell @ b # t) =
    map_option (\<lambda>n. n + length (csv_cell d q e f null_str cell)) (record_end_loop d q e False False (b # t))"
  using o
proof (cases rule: csv_cell_cases[where f = f and cell = cell])
  case (plain s)
  then show ?thesis using record_end_plain[of q s "b # t" d e True] t o by (auto simp: csv_options_def)
next
  case (quoted s)
  have "after_field q e (b # t)" using t o by (auto simp: after_field_def csv_options_def)
  then show ?thesis unfolding quoted(1) using record_end_quoted[of q e "b # t" d s]
    by (simp add: option.map_comp comp_def del: record_end_loop.simps(2)) (simp add: option.map_comp comp_def)
qed

text \<open>A row is a list of cells, each with its mark whether quotes are forced.\<close>

definition csv_cells :: "u8 \<Rightarrow> u8 \<Rightarrow> u8 \<Rightarrow> bytes \<Rightarrow> (bool \<times> copy_cell) list \<Rightarrow> bytes" where
  "csv_cells d q e null_str fcs = join_with d (map (\<lambda>(f, cell). csv_cell d q e f null_str cell) fcs)"

lemma csv_cells_simps:
  "csv_cells d q e n [(f, c)] = csv_cell d q e f n c"
  "fcs \<noteq> [] \<Longrightarrow> csv_cells d q e n ((f, c) # fcs) = csv_cell d q e f n c @ d # csv_cells d q e n fcs"
  by (simp_all add: csv_cells_def, cases fcs, simp_all)

lemma encode_csv_cells:
  "encode_copy_csv_cells_opts cells d q e force n = csv_cells d q e n (map (\<lambda>(i, c). (forced_at force i, c)) (zip [0..<length cells] cells))"
  by (simp add: encode_copy_csv_cells_opts_def csv_cells_def comp_def split_def)

lemma csv_row_back:
  assumes o: "csv_options d q e n"
  shows "fcs \<noteq> [] \<Longrightarrow> decode_fields d q e n (csv_cells d q e n fcs) = map snd fcs"
proof (induction fcs)
  case (Cons fc fcs)
  obtain f c where fc: "fc = (f, c)" by (cases fc)
  show ?case
  proof (cases "fcs = []")
    case True
    then show ?thesis using csv_field_back[OF o, of "[]" f c] by (subst decode_fields.simps) (simp add: fc csv_cells_simps)
  next
    case False
    then show ?thesis using Cons csv_field_back[OF o, of "d # csv_cells d q e n fcs" f c]
      by (subst decode_fields.simps) (simp add: fc csv_cells_simps)
  qed
qed simp

lemma csv_end_row:
  assumes o: "csv_options d q e n"
  shows "fcs \<noteq> [] \<Longrightarrow> record_end_loop d q e False True (csv_cells d q e n fcs @ 10 # t) = Some (length (csv_cells d q e n fcs) + 1)"
proof (induction fcs)
  case (Cons fc fcs)
  obtain f c where fc: "fc = (f, c)" by (cases fc)
  have dq: "d \<noteq> q" "d \<noteq> 10" "q \<noteq> 10" using o by (simp_all add: csv_options_def)
  show ?case
  proof (cases "fcs = []")
    case True
    then show ?thesis using csv_end_back[OF o, of 10 f c t] dq by (simp add: fc csv_cells_simps)
  next
    case False
    then show ?thesis using Cons csv_end_back[OF o, of d f c "csv_cells d q e n fcs @ 10 # t"] dq by (simp add: fc csv_cells_simps)
  qed
qed simp

text \<open>The last byte of a record is never a carriage return, and a record of valid cells is valid.\<close>

lemma join_empty: "join_with d (t # ss) = [] \<longleftrightarrow> t = [] \<and> ss = []"
  by (cases ss) auto

lemma join_last: "ss \<noteq> [] \<Longrightarrow> join_with d ss \<noteq> [] \<Longrightarrow> last (join_with d ss) = (if last ss = [] then d else last (last ss))"
  by (induction d ss rule: join_with.induct) (auto simp: last_append join_empty)

lemma join_utf8: "d < 128 \<Longrightarrow> \<forall>s\<in>set ss. utf8_valid s \<Longrightarrow> utf8_valid (join_with d ss)"
  by (induction d ss rule: join_with.induct) (simp_all add: utf8_append)

lemma csv_cell_utf8:
  assumes "csv_options d q e n" "utf8_valid n" "\<forall>s. cell = Some s \<longrightarrow> utf8_valid s"
  shows "utf8_valid (csv_cell d q e f n cell)"
proof -
  have "ascii_map (\<lambda>c. if c = q \<or> c = e then [e, c] else [c])" using assms(1) by (auto simp: ascii_map_def csv_options_def)
  then have "utf8_valid s \<Longrightarrow> utf8_valid (csv_quoted q e s)" for s unfolding csv_quoted_def by (rule utf8_map)
  then show ?thesis using assms by (auto simp: csv_cell_def csv_options_def utf8_append split: option.split)
qed

lemma csv_cell_last:
  assumes "csv_options d q e n" "csv_cell d q e f n cell \<noteq> []"
  shows "last (csv_cell d q e f n cell) \<noteq> 13"
  using assms(1)
proof (cases rule: csv_cell_cases[where f = f and cell = cell])
  case (plain s)
  have "last s \<in> set s" using assms(2) unfolding plain(1) by (rule last_in_set)
  then show ?thesis using plain(2) unfolding plain(1) by blast
next
  case (quoted s)
  then show ?thesis using assms(1) by (simp add: csv_options_def)
qed

lemma text_cell_utf8:
  assumes "text_delimiter d" "utf8_valid n" "\<forall>s. cell = Some s \<longrightarrow> utf8_valid s"
  shows "utf8_valid (text_cell d n cell)"
proof -
  have "ascii_map (escape_char d)" using assms(1) by (auto simp: ascii_map_def escape_char_def text_delimiter_def)
  then show ?thesis using assms by (auto simp: text_cell_def utf8_map split: option.split)
qed

end
