(* ===== verification/Copy_Reader.thy ===== *)
theory Copy_Reader
  imports Copy_Format
begin

text \<open>
  \<open>COPY\<close> as the statement runs it (\<open>spg-engine/src/copy.rs\<close>, \<open>copy_from.rs\<close>): its options and the checks
  on them, the encoder of \<open>COPY TO\<close>, the reader of \<open>COPY FROM\<close> with header, skipped rows and end marker,
  and the account of rejected rows. Line counts are natural numbers.
\<close>

section \<open>Options\<close>

datatype copy_format = Text_format | Csv_format | Json_format
datatype copy_on_error = Stop | Ignore | SetNull
datatype copy_log_verbosity = Default_verbosity | Verbose | Silent

record copy_options =
  co_format :: copy_format
  co_header :: bool
  co_header_match :: bool
  co_delimiter :: "u8 option"
  co_null_str :: "bytes option"
  co_quote :: "u8 option"
  co_escape :: "u8 option"
  co_force_quote :: "bytes list option"
  co_force_not_null :: "bytes list option"
  co_force_null :: "bytes list option"
  co_on_error :: "copy_on_error option"
  co_reject_limit :: "nat option"
  co_log_verbosity :: copy_log_verbosity
  co_skip :: nat

datatype copy_opt = FORCE_QUOTE | FORCE_NOT_NULL | FORCE_NULL | QUOTE | ESCAPE | ON_ERROR | SKIP

datatype copy_error =
  RequiresCsv copy_opt
| WrongDirection copy_opt bool
| MatchInCopyTo
| JsonInCopyTo
| JsonOnlyStdin
| NoSuchColumn bytes
| NotReferenced copy_opt bytes
| HeaderCount nat nat
| HeaderMismatch nat copy_cell bytes
| InvalidEncoding
| ExtraData
| MissingData bytes
| RejectLimit nat

definition check_force :: "bool \<Rightarrow> bool \<Rightarrow> bool \<times> copy_opt \<times> bool \<Rightarrow> copy_error + unit" where
  "check_force is_csv to_direction p =
     (case p of (present, name, to_only) \<Rightarrow>
        if \<not> present then Inr ()
        else if \<not> is_csv then Inl (RequiresCsv name)
        else if to_only \<noteq> to_direction then Inl (WrongDirection name to_direction)
        else Inr ())"

definition validate_copy_option_direction :: "copy_options \<Rightarrow> bool \<Rightarrow> copy_error + unit" where
  "validate_copy_option_direction opts to_direction =
     (let csv = (co_format opts = Csv_format)
      in and_then (check_force csv to_direction (co_force_quote opts \<noteq> None, FORCE_QUOTE, True)) (\<lambda>_.
         and_then (check_force csv to_direction (co_force_not_null opts \<noteq> None, FORCE_NOT_NULL, False)) (\<lambda>_.
         and_then (check_force csv to_direction (co_force_null opts \<noteq> None, FORCE_NULL, False)) (\<lambda>_.
           if to_direction then
             (if co_on_error opts \<noteq> None then Inl (WrongDirection ON_ERROR to_direction)
              else if co_header_match opts then Inl MatchInCopyTo
              else if 0 < co_skip opts then Inl (WrongDirection SKIP to_direction)
              else if co_format opts = Json_format then Inl JsonInCopyTo
              else Inr ())
           else Inr ()))))"

record copy_target =
  ct_names :: "bytes list"
  ct_table_columns :: "bytes list"

definition check_listed_column :: "copy_opt \<Rightarrow> bytes \<Rightarrow> copy_target \<Rightarrow> copy_error + unit" where
  "check_listed_column opt column target =
     (if \<not> list_ex (\<lambda>c. eq_ignore_ascii_case c column) (ct_table_columns target) then Inl (NoSuchColumn column)
      else if \<not> list_ex (\<lambda>c. eq_ignore_ascii_case c column) (ct_names target) then Inl (NotReferenced opt column)
      else Inr ())"

definition check_quote_escape :: "bool \<Rightarrow> copy_options \<Rightarrow> copy_error + unit" where
  "check_quote_escape csv opts =
     (if \<not> csv \<and> co_quote opts \<noteq> None then Inl (RequiresCsv QUOTE)
      else if \<not> csv \<and> co_escape opts \<noteq> None then Inl (RequiresCsv ESCAPE)
      else Inr ())"

definition or_default :: "'a option \<Rightarrow> 'a \<Rightarrow> 'a" where "or_default x y = (case x of None \<Rightarrow> y | Some z \<Rightarrow> z)"

definition copy_delimiter :: "bool \<Rightarrow> copy_options \<Rightarrow> u8" where
  "copy_delimiter csv opts = or_default (co_delimiter opts) (if csv then 44 else 9)"
definition copy_quote :: "copy_options \<Rightarrow> u8" where "copy_quote opts = or_default (co_quote opts) 34"
definition copy_escape :: "copy_options \<Rightarrow> u8" where "copy_escape opts = or_default (co_escape opts) (copy_quote opts)"
definition copy_null :: "bool \<Rightarrow> copy_options \<Rightarrow> bytes" where
  "copy_null csv opts = or_default (co_null_str opts) (if csv then [] else [92, 78])"

section \<open>COPY TO\<close>

record copy_to_encoder =
  te_csv :: bool
  te_delimiter :: u8
  te_quote :: u8
  te_escape :: u8
  te_force :: "bool list option"
  te_null_str :: bytes

fun position :: "('a \<Rightarrow> bool) \<Rightarrow> 'a list \<Rightarrow> nat option" where
  "position p [] = None"
| "position p (x # xs) = (if p x then Some 0 else map_option Suc (position p xs))"

fun force_mask :: "copy_target option \<Rightarrow> bytes list \<Rightarrow> bytes list \<Rightarrow> bool list \<Rightarrow> copy_error + bool list" where
  "force_mask target out_names [] marks = Inr marks"
| "force_mask target out_names (c # cols) marks =
     and_then (case target of None \<Rightarrow> Inr () | Some t \<Rightarrow> check_listed_column FORCE_QUOTE c t) (\<lambda>_.
       case position (\<lambda>n. eq_ignore_ascii_case n c) out_names of
         None \<Rightarrow> Inl (NotReferenced FORCE_QUOTE c)
       | Some pos \<Rightarrow> force_mask target out_names cols (marks[pos := True]))"

definition encoder_new :: "copy_options \<Rightarrow> bytes list \<Rightarrow> copy_target option \<Rightarrow> copy_error + copy_to_encoder" where
  "encoder_new opts out_names target =
     and_then (validate_copy_option_direction opts True) (\<lambda>_.
       let csv = (co_format opts = Csv_format)
       in and_then (check_quote_escape csv opts) (\<lambda>_.
          and_then (case co_force_quote opts of
                      None \<Rightarrow> Inr None
                    | Some [] \<Rightarrow> Inr (Some (replicate (length out_names) True))
                    | Some cols \<Rightarrow> and_then (force_mask target out_names cols (replicate (length out_names) False)) (\<lambda>m. Inr (Some m))) (\<lambda>force.
            Inr \<lparr>te_csv = csv, te_delimiter = copy_delimiter csv opts, te_quote = copy_quote opts, te_escape = copy_escape opts,
                 te_force = force, te_null_str = copy_null csv opts\<rparr>)))"

definition encoder_encode :: "copy_to_encoder \<Rightarrow> copy_cell list \<Rightarrow> bytes" where
  "encoder_encode te cells =
     (if te_csv te then encode_copy_csv_cells_opts cells (te_delimiter te) (te_quote te) (te_escape te) (te_force te) (te_null_str te)
      else encode_copy_text_cells_opts cells (te_delimiter te) (te_null_str te))"

definition copy_to_payload :: "copy_options \<Rightarrow> bytes list \<Rightarrow> copy_target option \<Rightarrow> copy_cell list list \<Rightarrow> copy_error + bytes" where
  "copy_to_payload opts names target rows =
     and_then (encoder_new opts names target) (\<lambda>te.
       Inr (concat (map (\<lambda>cells. encoder_encode te cells @ [10]) ((if co_header opts then [map Some names] else []) @ rows))))"

section \<open>COPY FROM\<close>

datatype copy_record = Row nat "copy_cell list" | Consumed | End

record copy_from_reader =
  cr_csv :: bool
  cr_delimiter :: u8
  cr_quote :: u8
  cr_escape :: u8
  cr_null_str :: bytes
  cr_header_pending :: bool
  cr_skip_left :: nat
  cr_next_line :: nat

fun check_columns :: "copy_opt \<Rightarrow> bytes list \<Rightarrow> copy_target \<Rightarrow> copy_error + unit" where
  "check_columns opt [] target = Inr ()"
| "check_columns opt (c # cols) target = and_then (check_listed_column opt c target) (\<lambda>_. check_columns opt cols target)"

definition reader_new :: "copy_options \<Rightarrow> copy_target \<Rightarrow> copy_error + copy_from_reader" where
  "reader_new opts target =
     and_then (validate_copy_option_direction opts False) (\<lambda>_.
       if co_format opts = Json_format then Inl JsonOnlyStdin
       else
         (let csv = (co_format opts = Csv_format)
          in and_then (check_quote_escape csv opts) (\<lambda>_.
             and_then (check_columns FORCE_NOT_NULL (or_default (co_force_not_null opts) []) target) (\<lambda>_.
             and_then (check_columns FORCE_NULL (or_default (co_force_null opts) []) target) (\<lambda>_.
               Inr \<lparr>cr_csv = csv, cr_delimiter = copy_delimiter csv opts, cr_quote = copy_quote opts, cr_escape = copy_escape opts,
                    cr_null_str = copy_null csv opts, cr_header_pending = co_header opts, cr_skip_left = co_skip opts, cr_next_line = 1\<rparr>)))))"

definition split_end :: "copy_from_reader \<Rightarrow> bytes \<Rightarrow> nat option" where
  "split_end rd buf =
     (if cr_csv rd then csv_record_end_escaped buf (cr_delimiter rd) (cr_quote rd) (cr_escape rd)
      else map_option Suc (str_find 10 buf))"

definition listed_at :: "copy_target \<Rightarrow> bytes list option \<Rightarrow> nat \<Rightarrow> bool" where
  "listed_at target cols idx =
     (case cols of
        None \<Rightarrow> False
      | Some [] \<Rightarrow> True
      | Some cs \<Rightarrow> idx < length (ct_names target) \<and> list_ex (\<lambda>w. eq_ignore_ascii_case w (ct_names target ! idx)) cs)"

definition force_cell :: "copy_options \<Rightarrow> copy_target \<Rightarrow> bytes \<Rightarrow> nat \<times> copy_cell \<Rightarrow> copy_cell" where
  "force_cell opts target null_str p =
     (case p of (idx, cell) \<Rightarrow>
        let cell1 = (if listed_at target (co_force_not_null opts) idx \<and> cell = None then Some [] else cell)
        in if listed_at target (co_force_null opts) idx \<and> cell1 = Some null_str then None else cell1)"

definition reader_decode :: "copy_options \<Rightarrow> copy_target \<Rightarrow> copy_from_reader \<Rightarrow> bytes \<Rightarrow> copy_cell list" where
  "reader_decode opts target rd record =
     (if \<not> cr_csv rd then decode_copy_text_row_opts record (cr_delimiter rd) (cr_null_str rd)
      else (let values = decode_copy_csv_record_escaped record (cr_delimiter rd) (cr_quote rd) (cr_escape rd) (cr_null_str rd)
            in map (force_cell opts target (cr_null_str rd)) (zip [0..<length values] values)))"

fun match_names :: "nat \<Rightarrow> copy_cell list \<Rightarrow> bytes list \<Rightarrow> copy_error + unit" where
  "match_names i (got # gs) (want # ws) = (if got = Some want then match_names (i + 1) gs ws else Inl (HeaderMismatch (i + 1) got want))"
| "match_names i gs ws = Inr ()"

definition match_header :: "copy_target \<Rightarrow> copy_cell list \<Rightarrow> copy_error + unit" where
  "match_header target names =
     (if length names \<noteq> length (ct_names target) then Inl (HeaderCount (length names) (length (ct_names target)))
      else match_names 0 names (ct_names target))"

definition strip_cr :: "bytes \<Rightarrow> bytes" where
  "strip_cr record = (if record \<noteq> [] \<and> last record = 13 then butlast record else record)"

definition reader_read ::
  "copy_options \<Rightarrow> copy_target \<Rightarrow> copy_from_reader \<Rightarrow> bytes \<Rightarrow> copy_error + copy_record \<times> copy_from_reader" where
  "reader_read opts target rd raw =
     (let record = strip_cr raw;
          line = cr_next_line rd;
          rd1 = rd\<lparr>cr_next_line := line + 1 + count_list record 10\<rparr>
      in if record = [92, 46] then Inr (End, rd1)
         else (let values = reader_decode opts target rd1 record
               in if cr_header_pending rd1 then
                    and_then (if co_header_match opts then match_header target values else Inr ()) (\<lambda>_.
                      Inr (Consumed, rd1\<lparr>cr_header_pending := False\<rparr>))
                  else if 0 < cr_skip_left rd1 then Inr (Consumed, rd1\<lparr>cr_skip_left := cr_skip_left rd1 - 1\<rparr>)
                  else Inr (Row line values, rd1)))"

lemma record_end_bounds: "record_end_loop d q e iq fs buf = Some n \<Longrightarrow> 0 < n \<and> n \<le> length buf"
proof (induction d q e iq fs buf arbitrary: n rule: record_end_loop.induct)
  case (2 d q e iq fs b buf)
  have t: "length (tl buf) + 2 \<le> length (b # buf)" if "buf \<noteq> []" using that by (cases buf) auto
  show ?case
  proof (cases "iq \<and> b = e \<and> buf \<noteq> [] \<and> (hd buf = q \<or> hd buf = e)")
    case True
    then obtain m where "record_end_loop d q e True fs (tl buf) = Some m" "n = m + 2" using "2.prems" by auto
    then show ?thesis using "2.IH"(1) True t by fastforce
  next
    case False
    then show ?thesis using "2.prems" "2.IH" by (fastforce split: if_splits)
  qed
qed simp

lemma split_end_bounds: "split_end rd buf = Some n \<Longrightarrow> 0 < n \<and> n \<le> length buf"
  by (auto simp: split_end_def csv_record_end_escaped_def str_find_def Let_def dest: record_end_bounds split: if_splits)

function read_all_loop ::
  "copy_options \<Rightarrow> copy_target \<Rightarrow> copy_from_reader \<Rightarrow> bytes \<Rightarrow> (nat \<times> copy_cell list) list \<Rightarrow> copy_error + (nat \<times> copy_cell list) list" where
  "read_all_loop opts target rd rest rows =
     (if rest = [] then Inr rows
      else
        (case (case split_end rd rest of Some n \<Rightarrow> (take (n - 1) rest, drop n rest) | None \<Rightarrow> (rest, [])) of
           (record, rest1) \<Rightarrow>
             if \<not> utf8_valid record then Inl InvalidEncoding
             else (case reader_read opts target rd record of
                     Inl err \<Rightarrow> Inl err
                   | Inr (Row line values, rd1) \<Rightarrow> read_all_loop opts target rd1 rest1 (rows @ [(line, values)])
                   | Inr (Consumed, rd1) \<Rightarrow> read_all_loop opts target rd1 rest1 rows
                   | Inr (End, rd1) \<Rightarrow> Inr rows)))"
  by pat_completeness auto
termination
  by (relation "measure (\<lambda>(opts, t, rd, rest, rows). length rest)") (auto dest!: split_end_bounds split: option.splits)

declare read_all_loop.simps [simp del]

definition read_all :: "copy_options \<Rightarrow> copy_target \<Rightarrow> copy_from_reader \<Rightarrow> bytes \<Rightarrow> copy_error + (nat \<times> copy_cell list) list" where
  "read_all opts target rd data = read_all_loop opts target rd data []"

definition check_arity :: "copy_target \<Rightarrow> copy_cell list \<Rightarrow> copy_error + unit" where
  "check_arity target values =
     (if length (ct_names target) < length values then Inl ExtraData
      else if length values < length (ct_names target) then Inl (MissingData (ct_names target ! length values))
      else Inr ())"

section \<open>Rejected rows\<close>

record copy_row_errors =
  re_on_error :: copy_on_error
  re_verbosity :: copy_log_verbosity
  re_reject_limit :: "nat option"
  re_skipped :: nat

definition row_errors_new :: "copy_options \<Rightarrow> copy_row_errors" where
  "row_errors_new opts = \<lparr>re_on_error = or_default (co_on_error opts) Stop, re_verbosity = co_log_verbosity opts,
     re_reject_limit = co_reject_limit opts, re_skipped = 0\<rparr>"

definition row_skip :: "copy_row_errors \<Rightarrow> (copy_error + bool) \<times> copy_row_errors" where
  "row_skip re =
     (let re1 = re\<lparr>re_skipped := re_skipped re + 1\<rparr>
      in case re_reject_limit re1 of
           Some limit \<Rightarrow> if limit < re_skipped re1 then (Inl (RejectLimit limit), re1) else (Inr (re_verbosity re1 = Verbose), re1)
         | None \<Rightarrow> (Inr (re_verbosity re1 = Verbose), re1))"

section \<open>Reading what was written\<close>

text \<open>What the loop needs of one record, whatever the format.\<close>

definition carried :: "copy_options \<Rightarrow> copy_target \<Rightarrow> copy_from_reader \<Rightarrow> copy_to_encoder \<Rightarrow> copy_cell list \<Rightarrow> bool" where
  "carried opts target rd te cells \<longleftrightarrow>
     (let r = encoder_encode te cells
      in (\<forall>t. split_end rd (r @ 10 # t) = Some (length r + 1)) \<and> utf8_valid r \<and> strip_cr r = r \<and> r \<noteq> [92, 46]
         \<and> reader_decode opts target rd r = cells)"

definition same_format :: "copy_from_reader \<Rightarrow> copy_from_reader \<Rightarrow> bool" where
  "same_format rd rd' \<longleftrightarrow> (\<exists>h k n. rd' = rd\<lparr>cr_header_pending := h, cr_skip_left := k, cr_next_line := n\<rparr>)"

lemma carried_same: "same_format rd rd' \<Longrightarrow> carried opts target rd' te cells = carried opts target rd te cells"
  by (auto simp: same_format_def carried_def split_end_def reader_decode_def)

lemma read_carried:
  assumes "carried opts target rd te cells" "\<not> cr_header_pending rd" "cr_skip_left rd = 0"
  obtains rd1 where "same_format rd rd1" "\<not> cr_header_pending rd1" "cr_skip_left rd1 = 0"
    "\<And>t rows. read_all_loop opts target rd (encoder_encode te cells @ 10 # t) rows = read_all_loop opts target rd1 t (rows @ [(cr_next_line rd, cells)])"
proof -
  let ?r = "encoder_encode te cells"
  define rd1 where "rd1 = rd\<lparr>cr_next_line := cr_next_line rd + 1 + count_list ?r 10\<rparr>"
  have c: "split_end rd (?r @ 10 # t) = Some (length ?r + 1)" "utf8_valid ?r" "strip_cr ?r = ?r" "?r \<noteq> [92, 46]" "reader_decode opts target rd ?r = cells" for t
    using assms(1) by (simp_all add: carried_def Let_def)
  have "reader_decode opts target rd1 ?r = reader_decode opts target rd ?r" by (simp add: rd1_def reader_decode_def)
  then have d: "reader_decode opts target rd1 ?r = cells" using c(5) by (rule trans)
  have "reader_read opts target rd ?r = Inr (Row (cr_next_line rd) cells, rd1)"
    using assms(2,3) c(3,4) d by (simp add: reader_read_def Let_def flip: rd1_def) (simp add: rd1_def)
  then have "read_all_loop opts target rd (?r @ 10 # t) rows = read_all_loop opts target rd1 t (rows @ [(cr_next_line rd, cells)])" for t rows
    using c(1,2) by (subst read_all_loop.simps) simp
  moreover have "rd1 = rd\<lparr>cr_header_pending := cr_header_pending rd, cr_skip_left := cr_skip_left rd, cr_next_line := cr_next_line rd + 1 + count_list ?r 10\<rparr>"
    by (simp add: rd1_def)
  then have "same_format rd rd1" unfolding same_format_def by blast
  ultimately show thesis using assms(2,3) by (intro that[of rd1]) (simp_all add: rd1_def)
qed

lemma same_format_trans: "same_format a b \<Longrightarrow> same_format b c \<Longrightarrow> same_format a c"
  unfolding same_format_def by fastforce

lemma read_all_carried:
  assumes "\<forall>cells\<in>set rows. carried opts target rd te cells" "\<not> cr_header_pending rd" "cr_skip_left rd = 0"
  shows "\<exists>res. read_all_loop opts target rd (concat (map (\<lambda>cells. encoder_encode te cells @ [10]) rows)) acc = Inr (acc @ res) \<and> map snd res = rows"
  using assms
proof (induction rows arbitrary: rd acc)
  case Nil
  then show ?case by (simp add: read_all_loop.simps)
next
  case (Cons cells rows)
  obtain rd1 where rd1: "same_format rd rd1" "\<not> cr_header_pending rd1" "cr_skip_left rd1 = 0"
    "\<And>t acc. read_all_loop opts target rd (encoder_encode te cells @ 10 # t) acc = read_all_loop opts target rd1 t (acc @ [(cr_next_line rd, cells)])"
    using read_carried[of opts target rd te cells] Cons.prems by auto
  have "\<forall>cells\<in>set rows. carried opts target rd1 te cells" using Cons.prems(1) carried_same[OF rd1(1)] by simp
  then obtain res where "read_all_loop opts target rd1 (concat (map (\<lambda>cells. encoder_encode te cells @ [10]) rows)) (acc @ [(cr_next_line rd, cells)])
      = Inr ((acc @ [(cr_next_line rd, cells)]) @ res)" "map snd res = rows"
    using Cons.IH[OF _ rd1(2,3)] by blast
  then show ?case using rd1(4) by (intro exI[of _ "(cr_next_line rd, cells) # res"]) simp
qed

lemma read_header_carried:
  assumes "carried opts target rd te cells" "cr_header_pending rd" "\<not> co_header_match opts"
  obtains rd1 where "same_format rd rd1" "\<not> cr_header_pending rd1" "cr_skip_left rd1 = cr_skip_left rd"
    "\<And>t rows. read_all_loop opts target rd (encoder_encode te cells @ 10 # t) rows = read_all_loop opts target rd1 t rows"
proof -
  let ?r = "encoder_encode te cells"
  define rd1 where "rd1 = rd\<lparr>cr_header_pending := False, cr_next_line := cr_next_line rd + 1 + count_list ?r 10\<rparr>"
  have c: "split_end rd (?r @ 10 # t) = Some (length ?r + 1)" "utf8_valid ?r" "strip_cr ?r = ?r" "?r \<noteq> [92, 46]" for t
    using assms(1) by (simp_all add: carried_def Let_def)
  have "reader_read opts target rd ?r = Inr (Consumed, rd1)"
    using assms(2,3) c(3,4) by (simp add: reader_read_def Let_def rd1_def)
  then have "read_all_loop opts target rd (?r @ 10 # t) rows = read_all_loop opts target rd1 t rows" for t rows
    using c(1,2) by (subst read_all_loop.simps) simp
  moreover have "rd1 = rd\<lparr>cr_header_pending := False, cr_skip_left := cr_skip_left rd, cr_next_line := cr_next_line rd + 1 + count_list ?r 10\<rparr>"
    by (simp add: rd1_def)
  then have "same_format rd rd1" unfolding same_format_def by blast
  ultimately show thesis by (intro that[of rd1]) (simp_all add: rd1_def)
qed

text \<open>Options and rows that survive: what the two formats need, and no record that reads as the end marker.\<close>

definition copy_options_ok :: "copy_options \<Rightarrow> bool" where
  "copy_options_ok opts \<longleftrightarrow>
     (let csv = (co_format opts = Csv_format); d = copy_delimiter csv opts; n = copy_null csv opts
      in utf8_valid n \<and> n \<noteq> [92, 46] \<and> d \<notin> {92, 46}
         \<and> (if csv then csv_options d (copy_quote opts) (copy_escape opts) n else text_delimiter d \<and> set n \<inter> {d, 10, 13} = {}))"

definition copy_row_ok :: "copy_options \<Rightarrow> copy_cell list \<Rightarrow> bool" where
  "copy_row_ok opts cells \<longleftrightarrow>
     cells \<noteq> [] \<and> (\<forall>s. Some s \<in> set cells \<longrightarrow> utf8_valid s)
     \<and> (if co_format opts = Csv_format then cells \<noteq> [Some [92, 46]]
        else \<forall>c\<in>set cells. text_cell_ok (copy_delimiter False opts) (copy_null False opts) c)"

definition reader_of :: "copy_options \<Rightarrow> copy_from_reader" where
  "reader_of opts =
     (let csv = (co_format opts = Csv_format)
      in \<lparr>cr_csv = csv, cr_delimiter = copy_delimiter csv opts, cr_quote = copy_quote opts, cr_escape = copy_escape opts,
          cr_null_str = copy_null csv opts, cr_header_pending = co_header opts, cr_skip_left = co_skip opts, cr_next_line = 1\<rparr>)"

lemma join_ends: "d \<notin> set x \<Longrightarrow> join_with d ss = x \<Longrightarrow> ss = [] \<or> ss = [x]"
  by (cases "(d, ss)" rule: join_with.cases) auto

lemma join_strip:
  assumes "\<forall>s\<in>set ss. s \<noteq> [] \<longrightarrow> last s \<noteq> 13" "d \<noteq> 13"
  shows "strip_cr (join_with d ss) = join_with d ss"
proof (cases "ss = [] \<or> join_with d ss = []")
  case False
  then have "last (join_with d ss) \<noteq> 13" using join_last[of ss d] assms by (auto split: if_splits)
  then show ?thesis by (simp add: strip_cr_def)
qed (auto simp: strip_cr_def)

lemma csv_carried:
  assumes o: "csv_options d q e n" "utf8_valid n" "n \<noteq> [92, 46]" "d \<notin> {92, 46}"
    and rd: "cr_csv rd" "cr_delimiter rd = d" "cr_quote rd = q" "cr_escape rd = e" "cr_null_str rd = n"
    and te: "te_csv te" "te_delimiter te = d" "te_quote te = q" "te_escape te = e" "te_null_str te = n"
    and force: "co_force_not_null opts = None" "co_force_null opts = None"
    and cells: "cells \<noteq> []" "\<forall>s. Some s \<in> set cells \<longrightarrow> utf8_valid s" "cells \<noteq> [Some [92, 46]]"
  shows "carried opts target rd te cells"
proof -
  define fcs where "fcs = map (\<lambda>(i, c). (forced_at (te_force te) i, c)) (zip [0..<length cells] cells)"
  have f: "fcs \<noteq> []" "map snd fcs = cells" using cells(1) by (auto simp: fcs_def comp_def split_def zip_eq_Nil_iff map_snd_zip)
  have fs: "snd fc \<in> set cells" if fc: "fc \<in> set fcs" for fc
  proof -
    have "snd fc \<in> set (map snd fcs)" using fc by simp
    then show ?thesis unfolding f(2) .
  qed
  have r: "encoder_encode te cells = csv_cells d q e n fcs" by (simp add: encoder_encode_def te encode_csv_cells fcs_def)
  have ends: "\<forall>t. split_end rd (csv_cells d q e n fcs @ 10 # t) = Some (length (csv_cells d q e n fcs) + 1)"
    using csv_end_row[OF o(1) f(1)] by (simp add: split_end_def rd csv_record_end_escaped_def)
  have utf: "utf8_valid (csv_cells d q e n fcs)" unfolding csv_cells_def
  proof (rule join_utf8)
    show "d < 128" using o(1) by (simp add: csv_options_def)
    show "\<forall>s\<in>set (map (\<lambda>(f, cell). csv_cell d q e f n cell) fcs). utf8_valid s"
    proof
      fix s
      assume "s \<in> set (map (\<lambda>(f, cell). csv_cell d q e f n cell) fcs)"
      then obtain fl c where c: "(fl, c) \<in> set fcs" "s = csv_cell d q e fl n c" by auto
      have "\<forall>s. c = Some s \<longrightarrow> utf8_valid s" using fs[OF c(1)] cells(2) by auto
      then show "utf8_valid s" unfolding c(2) by (rule csv_cell_utf8[OF o(1,2)])
    qed
  qed
  have strip: "strip_cr (csv_cells d q e n fcs) = csv_cells d q e n fcs" unfolding csv_cells_def
    using csv_cell_last[OF o(1)] o(1) by (intro join_strip) (auto simp: csv_options_def)
  have dots: "csv_cells d q e n fcs \<noteq> [92, 46]"
  proof
    assume a: "csv_cells d q e n fcs = [92, 46]"
    then have "map (\<lambda>(f, cell). csv_cell d q e f n cell) fcs = [[92, 46]]"
      using join_ends[of d "[92, 46]"] o(4) f(1) by (auto simp: csv_cells_def)
    then obtain fl c where c: "fcs = [(fl, c)]" "csv_cell d q e fl n c = [92, 46]" by (cases fcs) auto
    from o(1) show False
    proof (cases rule: csv_cell_cases[where f = fl and cell = c])
      case (plain s)
      then show False using c o(3) cells(3) f(2) by (auto split: if_splits)
    next
      case (quoted s)
      then show False using c(2) by (auto simp: append_eq_Cons_conv)
    qed
  qed
  have lst: "force_cell opts target n (i, c) = c" for i c by (simp add: force_cell_def listed_at_def force)
  have "reader_decode opts target rd (csv_cells d q e n fcs) = map (force_cell opts target n) (zip [0..<length cells] cells)"
    using csv_row_back[OF o(1) f(1)] by (simp add: reader_decode_def rd decode_copy_csv_record_escaped_def f(2) Let_def)
  moreover have "map (force_cell opts target n) (zip [0..<length cells] cells) = map snd (zip [0..<length cells] cells)"
    by (rule map_cong) (auto simp: lst)
  ultimately have dec: "reader_decode opts target rd (csv_cells d q e n fcs) = cells" by (simp add: map_snd_zip)
  show ?thesis unfolding carried_def r Let_def using ends utf strip dots dec by blast
qed

lemma escaped_not_dots:
  assumes "text_delimiter d" "d \<noteq> 46"
  shows "concat (map (escape_char d) s) \<noteq> [92, 46]"
proof (cases s)
  case (Cons c s')
  then show ?thesis using assms by (auto simp: escape_char_def append_eq_Cons_conv)
qed simp

lemma text_carried:
  assumes o: "text_delimiter d" "set n \<inter> {d, 10, 13} = {}" "utf8_valid n" "n \<noteq> [92, 46]" "d \<notin> {92, 46}"
    and rd: "\<not> cr_csv rd" "cr_delimiter rd = d" "cr_null_str rd = n"
    and te: "\<not> te_csv te" "te_delimiter te = d" "te_null_str te = n"
    and cells: "cells \<noteq> []" "\<forall>s. Some s \<in> set cells \<longrightarrow> utf8_valid s" "\<forall>c\<in>set cells. text_cell_ok d n c"
  shows "carried opts target rd te cells"
proof -
  define r where "r = join_with d (map (text_cell d n) cells)"
  have e: "encoder_encode te cells = r" by (simp add: encoder_encode_def te encode_copy_text_cells_opts_def r_def)
  have d: "d < 128" "d \<noteq> 10" "d \<noteq> 13" using o(1) by (simp_all add: text_delimiter_def)
  have free: "b \<notin> set (text_cell d n c)" if "b \<in> {10, 13}" "c \<in> set cells" for b c
    using text_cell_bytes[OF o(1), of n c b] cells(3) that o(2) by auto
  have jb: "b \<notin> set (join_with d ss)" if "b \<noteq> d" "\<forall>s\<in>set ss. b \<notin> set s" for b ss
    using that by (induction d ss rule: join_with.induct) auto
  have nl: "10 \<notin> set r" unfolding r_def using free d by (intro jb) auto
  have ends: "\<forall>t. split_end rd (r @ 10 # t) = Some (length r + 1)" by (simp add: split_end_def rd find_first[OF nl])
  have "13 \<notin> set r" unfolding r_def using free d by (intro jb) auto
  then have strip: "strip_cr r = r" using last_in_set[of r] by (metis strip_cr_def)
  have utf: "utf8_valid r" unfolding r_def
  proof (rule join_utf8[OF d(1)])
    have "utf8_valid (text_cell d n c)" if "c \<in> set cells" for c
      using that cells(2) by (intro text_cell_utf8[OF o(1,3)]) auto
    then show "\<forall>s\<in>set (map (text_cell d n) cells). utf8_valid s" by simp
  qed
  have dots: "r \<noteq> [92, 46]"
  proof
    assume "r = [92, 46]"
    then have "map (text_cell d n) cells = [[92, 46]]" using join_ends[of d "[92, 46]"] o(5) cells(1) by (auto simp: r_def)
    then obtain c where "cells = [c]" "text_cell d n c = [92, 46]" by (cases cells) auto
    then show False using o(4,5) escaped_not_dots[OF o(1)] by (cases c) (auto simp: text_cell_def)
  qed
  have "d \<notin> set n" using o(2) by blast
  then have "reader_decode opts target rd r = cells"
    using text_row_back[OF o(1) cells(1,3)] by (simp add: reader_decode_def rd r_def encode_copy_text_cells_opts_def)
  then show ?thesis unfolding carried_def e Let_def using ends utf strip dots by blast
qed

lemma encoder_new_facts:
  assumes "encoder_new opts names tgt = Inr te"
  shows "te_csv te = (co_format opts = Csv_format)" "te_delimiter te = copy_delimiter (co_format opts = Csv_format) opts"
    "te_quote te = copy_quote opts" "te_escape te = copy_escape opts" "te_null_str te = copy_null (co_format opts = Csv_format) opts"
    "co_force_not_null opts = None" "co_force_null opts = None" "\<not> co_header_match opts" "co_skip opts = 0"
    "reader_new (opts\<lparr>co_force_quote := None\<rparr>) target = Inr (reader_of opts)"
proof -
  have v: "validate_copy_option_direction opts True = Inr ()" "check_quote_escape (co_format opts = Csv_format) opts = Inr ()"
    and te: "te_csv te = (co_format opts = Csv_format)" "te_delimiter te = copy_delimiter (co_format opts = Csv_format) opts"
    "te_quote te = copy_quote opts" "te_escape te = copy_escape opts" "te_null_str te = copy_null (co_format opts = Csv_format) opts"
    using assms by (auto simp: encoder_new_def and_then_Inr Let_def)
  have f: "co_force_not_null opts = None" "co_force_null opts = None" "\<not> co_header_match opts" "co_skip opts = 0" "co_format opts \<noteq> Json_format"
    using v(1) by (auto simp: validate_copy_option_direction_def check_force_def and_then_Inr Let_def split: if_splits)
  have q: "check_quote_escape c (opts\<lparr>co_force_quote := None\<rparr>) = check_quote_escape c opts" for c by (simp add: check_quote_escape_def)
  have d: "copy_delimiter c (opts\<lparr>co_force_quote := None\<rparr>) = copy_delimiter c opts" "copy_null c (opts\<lparr>co_force_quote := None\<rparr>) = copy_null c opts"
    "copy_quote (opts\<lparr>co_force_quote := None\<rparr>) = copy_quote opts" "copy_escape (opts\<lparr>co_force_quote := None\<rparr>) = copy_escape opts" for c
    by (simp_all add: copy_delimiter_def copy_null_def copy_quote_def copy_escape_def)
  have "validate_copy_option_direction (opts\<lparr>co_force_quote := None\<rparr>) False = Inr ()"
    using f by (simp add: validate_copy_option_direction_def check_force_def Let_def)
  then show "reader_new (opts\<lparr>co_force_quote := None\<rparr>) target = Inr (reader_of opts)"
    using f v(2) by (simp add: reader_new_def q d Let_def or_default_def reader_of_def)
  show "te_csv te = (co_format opts = Csv_format)" "te_delimiter te = copy_delimiter (co_format opts = Csv_format) opts"
    "te_quote te = copy_quote opts" "te_escape te = copy_escape opts" "te_null_str te = copy_null (co_format opts = Csv_format) opts"
    by (rule te)+
  show "co_force_not_null opts = None" "co_force_null opts = None" "\<not> co_header_match opts" "co_skip opts = 0" by (rule f)+
qed

lemma row_carried:
  assumes te: "encoder_new opts names tgt = Inr te" and o: "copy_options_ok opts" and r: "copy_row_ok opts cells"
  shows "carried (opts\<lparr>co_force_quote := None\<rparr>) target (reader_of opts) te cells"
proof (cases "co_format opts = Csv_format")
  case True
  then show ?thesis using o r encoder_new_facts[OF te]
    by (intro csv_carried[of "copy_delimiter True opts" "copy_quote opts" "copy_escape opts" "copy_null True opts"])
       (simp_all add: copy_options_ok_def copy_row_ok_def reader_of_def Let_def)
next
  case False
  then show ?thesis using o r encoder_new_facts[OF te]
    by (intro text_carried[of "copy_delimiter False opts" "copy_null False opts"])
       (simp_all add: copy_options_ok_def copy_row_ok_def reader_of_def Let_def)
qed


definition plain_options :: copy_options where
  "plain_options = \<lparr>co_format = Csv_format, co_header = True, co_header_match = False, co_delimiter = None, co_null_str = None,
     co_quote = None, co_escape = None, co_force_quote = Some [], co_force_not_null = None, co_force_null = None, co_on_error = None,
     co_reject_limit = None, co_log_verbosity = Default_verbosity, co_skip = 0\<rparr>"


text \<open>
  Two rows that are lost. A CSV row of one cell with the text of the end marker is written bare, and the
  reader stops there; a text cell that holds a printable delimiter is written with a backslash, and the
  reader splits at the delimiter before it looks at backslashes.
\<close>

lemma csv_end_marker_lost:
  defines "opts \<equiv> plain_options\<lparr>co_header := False, co_force_quote := None\<rparr>"
  shows "copy_to_payload opts [[97]] None [[Some [92, 46]], [Some [49]]] = Inr [92, 46, 10, 49, 10]"
    "\<exists>rd. reader_new opts target = Inr rd \<and> read_all opts target rd [92, 46, 10, 49, 10] = Inr []"
proof -
  show "copy_to_payload opts [[97]] None [[Some [92, 46]], [Some [49]]] = Inr [92, 46, 10, 49, 10]"
    by (simp add: opts_def copy_to_payload_def encoder_new_def validate_copy_option_direction_def check_force_def check_quote_escape_def plain_options_def Let_def
        encoder_encode_def encode_copy_csv_cells_opts_def csv_cell_def needs_quote_def forced_at_def copy_delimiter_def copy_null_def copy_quote_def copy_escape_def or_default_def)
  have "reader_new opts target = Inr (reader_of opts)"
    by (simp add: opts_def reader_new_def validate_copy_option_direction_def check_force_def check_quote_escape_def plain_options_def Let_def or_default_def reader_of_def)
  moreover have "split_end (reader_of opts) [92, 46, 10, 49, 10] = Some (Suc (Suc (Suc 0)))"
    by (simp add: split_end_def csv_record_end_escaped_def reader_of_def Let_def opts_def plain_options_def copy_delimiter_def copy_quote_def copy_escape_def or_default_def)
  then have "read_all opts target (reader_of opts) [92, 46, 10, 49, 10] = Inr []"
    by (subst read_all_def, subst read_all_loop.simps) (simp add: reader_read_def strip_cr_def Let_def)
  ultimately show "\<exists>rd. reader_new opts target = Inr rd \<and> read_all opts target rd [92, 46, 10, 49, 10] = Inr []" by blast
qed

lemma text_delimiter_lost:
  "decode_copy_text_row_opts (encode_copy_text_cells_opts [Some [97, 124, 98]] 124 [92, 78]) 124 [92, 78] = [Some [97, 92], Some [98]]"
  by (simp add: encode_copy_text_cells_opts_def text_cell_def escape_char_def decode_copy_text_row_opts_def str_split.simps)

end
