(* ===== verification/Cursor.thy ===== *)
theory Cursor
  imports Mvcc_Table Rust_Collections "HOL-Library.List_Lexorder"
begin

text \<open>
  Server-side cursors (\<open>spg-engine/src/cursor.rs\<close>) and the byte budget of a batch (\<open>bytebudget.rs\<close>):
  the position model and every direction of \<open>FETCH\<close>, cursors that produce their rows on demand from the
  row store, and the cursors of a session across \<open>DECLARE\<close>, \<open>FETCH\<close>, \<open>MOVE\<close>, \<open>CLOSE\<close>, \<open>COMMIT\<close> and \<open>ROLLBACK\<close>.
  The \<open>WHERE\<close> clause and the projection of a cursor's statement are one function from a row to an error,
  nothing, or the projected row; the size of a projected row is a function as well.
\<close>

section \<open>Byte budget\<close>

definition USIZE_MAX :: nat where "USIZE_MAX = 2 ^ 64 - 1"

record byte_budget =
  bb_limit :: nat
  bb_used :: nat

definition budget_new :: "nat option \<Rightarrow> byte_budget" where
  "budget_new limit = \<lparr>bb_limit = (case limit of Some n \<Rightarrow> n | None \<Rightarrow> USIZE_MAX), bb_used = 0\<rparr>"

definition budget_charge :: "nat \<Rightarrow> byte_budget \<Rightarrow> bool \<times> byte_budget" where
  "budget_charge n b =
     (let b1 = b\<lparr>bb_used := min USIZE_MAX (bb_used b + n)\<rparr> in (\<not> bb_limit b1 < bb_used b1, b1))"

definition budget_release :: "nat \<Rightarrow> byte_budget \<Rightarrow> byte_budget" where
  "budget_release n b = b\<lparr>bb_used := bb_used b - n\<rparr>"

section \<open>Positions\<close>

datatype cursor_direction =
  Next | Prior | First | Last | Absolute int | Relative int | Count int | AllRows | Backward int | BackwardAll

record lazy_scan =
  lz_snapshot :: snapshot
  lz_last_rowid :: "row_id option"
  lz_slot_hint :: nat
  lz_done :: bool

record 'o open_cursor =
  oc_rows :: "'o list"
  oc_pos :: nat
  oc_scroll :: "bool option"
  oc_hold :: bool
  oc_held :: bool
  oc_lazy :: "lazy_scan option"

datatype 'e cursor_error =
  NoTransaction | CursorExists bytes | NoSuchCursor bytes | ForwardOnly | QueryBytesExceeded nat | EvalFailed 'e

definition absolute_pos :: "int \<Rightarrow> nat \<Rightarrow> nat" where
  "absolute_pos k n =
     (if 0 < k then min (nat k) (n + 1)
      else if k < 0 then (if n < nat (- k) then 0 else n + 1 - nat (- k))
      else 0)"

definition is_backward :: "'o open_cursor \<Rightarrow> cursor_direction \<Rightarrow> bool" where
  "is_backward c d =
     (let n = length (oc_rows c)
      in case d of
           Prior \<Rightarrow> True | BackwardAll \<Rightarrow> True
         | Backward k \<Rightarrow> 0 < k
         | Count k \<Rightarrow> k < 0
         | First \<Rightarrow> 1 < oc_pos c
         | Last \<Rightarrow> n + 1 < oc_pos c
         | Absolute k \<Rightarrow> absolute_pos k n < oc_pos c
         | Relative k \<Rightarrow> k < 0
         | Next \<Rightarrow> False | AllRows \<Rightarrow> False)"

text \<open>The loops of a step take the rows, the position and the number of rows still to take.\<close>

fun step_forward :: "'o list \<Rightarrow> nat \<Rightarrow> nat \<Rightarrow> 'o list \<Rightarrow> nat \<times> 'o list" where
  "step_forward rs 0 pos out = (pos, out)"
| "step_forward rs (Suc k) pos out =
     (if pos \<le> length rs then
        (if pos = length rs then (length rs + 1, out)
         else step_forward rs k (pos + 1) (out @ [rs ! pos]))
      else (pos, out))"

fun step_backward :: "'o list \<Rightarrow> nat \<Rightarrow> nat \<Rightarrow> 'o list \<Rightarrow> nat \<times> 'o list" where
  "step_backward rs 0 pos out = (pos, out)"
| "step_backward rs (Suc k) pos out =
     (if 1 \<le> pos then
        (if pos = 1 then (0, out) else step_backward rs k (pos - 1) (out @ [rs ! (pos - 2)]))
      else (pos, out))"

definition land_on :: "'o list \<Rightarrow> nat \<Rightarrow> nat \<times> 'o list" where
  "land_on rs i =
     (if 1 \<le> i \<and> i \<le> length rs then (i, [rs ! (i - 1)]) else if i = 0 then (0, []) else (length rs + 1, []))"

definition land_on_clamped :: "'o list \<Rightarrow> nat \<Rightarrow> nat \<times> 'o list" where
  "land_on_clamped rs target =
     (let t = min target (length rs + 1) in (t, if 1 \<le> t \<and> t \<le> length rs then [rs ! (t - 1)] else []))"

definition motion :: "'o list \<Rightarrow> nat \<Rightarrow> cursor_direction \<Rightarrow> nat \<times> 'o list" where
  "motion rs pos d =
     (case d of
        Next \<Rightarrow> step_forward rs 1 pos []
      | Count k \<Rightarrow> if 0 \<le> k then step_forward rs (nat k) pos [] else step_backward rs (nat (- k)) pos []
      | AllRows \<Rightarrow> step_forward rs USIZE_MAX pos []
      | Prior \<Rightarrow> step_backward rs 1 pos []
      | Backward k \<Rightarrow> if 0 \<le> k then step_backward rs (nat k) pos [] else step_forward rs (nat (- k)) pos []
      | BackwardAll \<Rightarrow> step_backward rs USIZE_MAX pos []
      | First \<Rightarrow> land_on rs 1
      | Last \<Rightarrow> land_on rs (length rs)
      | Absolute k \<Rightarrow> land_on_clamped rs (absolute_pos k (length rs))
      | Relative k \<Rightarrow> land_on_clamped rs (nat (max 0 (min (int USIZE_MAX) (int pos + k)))))"

definition cursor_fetch :: "cursor_direction \<Rightarrow> 'o open_cursor \<Rightarrow> ('e cursor_error + 'o list) \<times> 'o open_cursor" where
  "cursor_fetch d c =
     (if oc_scroll c = Some False \<and> is_backward c d then (Inl ForwardOnly, c)
      else (case motion (oc_rows c) (oc_pos c) d of (pos, out) \<Rightarrow> (Inr out, c\<lparr>oc_pos := pos\<rparr>)))"

section \<open>Rows on demand\<close>

fun fill_loop ::
  "('r \<Rightarrow> 'e + 'o option) \<Rightarrow> ('o \<Rightarrow> nat) \<Rightarrow> row_id list \<Rightarrow> nat option \<Rightarrow> (nat \<times> 'r) list \<Rightarrow> nat \<Rightarrow> byte_budget
   \<Rightarrow> lazy_scan \<Rightarrow> 'o list \<Rightarrow> ('e cursor_error + unit) \<times> lazy_scan \<times> 'o list" where
  "fill_loop ev size_of ids want [] produced b lz out = (Inr (), lz\<lparr>lz_done := True\<rparr>, out)"
| "fill_loop ev size_of ids want ((i, r) # scan) produced b lz out =
     (if (case want of None \<Rightarrow> False | Some w \<Rightarrow> w \<le> produced) then (Inr (), lz, out)
      else
        (let lz1 = (case slice_get ids i of None \<Rightarrow> lz | Some rid \<Rightarrow> lz\<lparr>lz_last_rowid := Some rid, lz_slot_hint := i + 1\<rparr>)
         in case ev r of
              Inl e \<Rightarrow> (Inl (EvalFailed e), lz1, out)
            | Inr None \<Rightarrow> fill_loop ev size_of ids want scan produced b lz1 out
            | Inr (Some v) \<Rightarrow>
                (case budget_charge (size_of v) b of
                   (ok, b1) \<Rightarrow>
                     if ok then fill_loop ev size_of ids want scan (produced + 1) b1 lz1 (out @ [v])
                     else (Inl (QueryBytesExceeded (bb_limit b1)), lz1, out))))"

definition cursor_fill ::
  "('r \<Rightarrow> 'e + 'o option) \<Rightarrow> ('o \<Rightarrow> nat) \<Rightarrow> nat option \<Rightarrow> 'r table option \<Rightarrow> nat option \<Rightarrow> lazy_scan \<Rightarrow> 'o list
   \<Rightarrow> ('e cursor_error + unit) \<times> lazy_scan \<times> 'o list" where
  "cursor_fill ev size_of max_query_bytes tbl want lz out =
     (if lz_done lz then (Inr (), lz, out)
      else
        (case tbl of
           None \<Rightarrow> (Inr (), lz\<lparr>lz_done := True\<rparr>, out)
         | Some t \<Rightarrow>
             (let start = (case lz_last_rowid lz of None \<Rightarrow> 0 | Some rid \<Rightarrow> resume_slot_after t rid (lz_slot_hint lz))
              in fill_loop ev size_of (rowids t) want (scan_visible_from t start (lz_snapshot lz)) 0 (budget_new max_query_bytes) lz out)))"

definition lazy_need :: "cursor_direction \<Rightarrow> nat \<Rightarrow> nat option" where
  "lazy_need d pos =
     (case d of
        Next \<Rightarrow> Some (pos + 1)
      | Count k \<Rightarrow> if 0 \<le> k then Some (min USIZE_MAX (pos + nat k)) else Some 0
      | Relative k \<Rightarrow> if 0 \<le> k then Some (min USIZE_MAX (pos + nat k)) else Some 0
      | Absolute k \<Rightarrow> if 0 \<le> k then Some (nat k) else Some 0
      | First \<Rightarrow> Some 1
      | Prior \<Rightarrow> Some 0 | Backward k \<Rightarrow> Some 0 | BackwardAll \<Rightarrow> Some 0
      | AllRows \<Rightarrow> None | Last \<Rightarrow> None)"

definition produce_for ::
  "('r \<Rightarrow> 'e + 'o option) \<Rightarrow> ('o \<Rightarrow> nat) \<Rightarrow> nat option \<Rightarrow> 'r table option \<Rightarrow> cursor_direction \<Rightarrow> 'o open_cursor
   \<Rightarrow> ('e cursor_error + unit) \<times> 'o open_cursor" where
  "produce_for ev size_of mx tbl d c =
     (case oc_lazy c of
        None \<Rightarrow> (Inr (), c)
      | Some lz \<Rightarrow>
          (let fill = (\<lambda>want. case cursor_fill ev size_of mx tbl want lz (oc_rows c) of
                                (res, lz1, out) \<Rightarrow> (res, c\<lparr>oc_rows := out, oc_lazy := Some lz1\<rparr>));
               (outcome, c1) = (if lz_done lz then (Inr (), c)
                                else (case lazy_need d (oc_pos c) of
                                        None \<Rightarrow> fill None
                                      | Some n \<Rightarrow> if n - length (oc_rows c) = 0 then (Inr (), c) else fill (Some (n - length (oc_rows c)))))
           in (outcome, if (case oc_lazy c1 of None \<Rightarrow> False | Some lz1 \<Rightarrow> lz_done lz1) then c1\<lparr>oc_lazy := None\<rparr> else c1)))"

section \<open>The cursors of a session\<close>

type_synonym 'o cursors = "(bytes, 'o open_cursor) btmap"

definition exec_declare_cursor ::
  "bool \<Rightarrow> bytes \<Rightarrow> bool option \<Rightarrow> bool \<Rightarrow> snapshot + 'o list \<Rightarrow> 'o cursors \<Rightarrow> 'e cursor_error + 'o cursors" where
  "exec_declare_cursor tx_open name scroll hold source cs =
     (if \<not> tx_open then Inl NoTransaction
      else if bm_get cs name \<noteq> None then Inl (CursorExists name)
      else
        (let (out, lazy) = (case source of
               Inl snap \<Rightarrow> ([], Some \<lparr>lz_snapshot = snap, lz_last_rowid = None, lz_slot_hint = 0, lz_done = False\<rparr>)
             | Inr out \<Rightarrow> (out, None))
         in Inr (bm_insert name \<lparr>oc_rows = out, oc_pos = 0, oc_scroll = scroll, oc_hold = hold, oc_held = False, oc_lazy = lazy\<rparr> cs)))"

definition cursor_produce_for ::
  "('r \<Rightarrow> 'e + 'o option) \<Rightarrow> ('o \<Rightarrow> nat) \<Rightarrow> nat option \<Rightarrow> 'r table option \<Rightarrow> bytes \<Rightarrow> cursor_direction \<Rightarrow> 'o cursors
   \<Rightarrow> ('e cursor_error + unit) \<times> 'o cursors" where
  "cursor_produce_for ev size_of mx tbl name d cs =
     (case bm_get cs name of
        None \<Rightarrow> (Inl (NoSuchCursor name), cs)
      | Some cur \<Rightarrow> (case produce_for ev size_of mx tbl d cur of (outcome, cur1) \<Rightarrow> (outcome, bm_insert name cur1 (bm_remove name cs))))"

definition exec_fetch_cursor ::
  "('r \<Rightarrow> 'e + 'o option) \<Rightarrow> ('o \<Rightarrow> nat) \<Rightarrow> nat option \<Rightarrow> 'r table option \<Rightarrow> bytes \<Rightarrow> cursor_direction \<Rightarrow> 'o cursors
   \<Rightarrow> ('e cursor_error + 'o list) \<times> 'o cursors" where
  "exec_fetch_cursor ev size_of mx tbl name d cs =
     (case cursor_produce_for ev size_of mx tbl name d cs of
        (Inl e, cs1) \<Rightarrow> (Inl e, cs1)
      | (Inr _, cs1) \<Rightarrow>
          (case bm_get cs1 name of
             None \<Rightarrow> (Inl (NoSuchCursor name), cs1)
           | Some cur \<Rightarrow> (case cursor_fetch d cur of (res, cur1) \<Rightarrow> (res, bm_insert name cur1 cs1))))"

definition exec_move_cursor ::
  "('r \<Rightarrow> 'e + 'o option) \<Rightarrow> ('o \<Rightarrow> nat) \<Rightarrow> nat option \<Rightarrow> 'r table option \<Rightarrow> bytes \<Rightarrow> cursor_direction \<Rightarrow> 'o cursors
   \<Rightarrow> ('e cursor_error + nat) \<times> 'o cursors" where
  "exec_move_cursor ev size_of mx tbl name d cs =
     (case exec_fetch_cursor ev size_of mx tbl name d cs of
        (Inl e, cs1) \<Rightarrow> (Inl e, cs1)
      | (Inr out, cs1) \<Rightarrow> (Inr (length out), cs1))"

definition exec_close_cursor :: "bytes option \<Rightarrow> 'o cursors \<Rightarrow> ('e cursor_error + unit) \<times> 'o cursors" where
  "exec_close_cursor name cs =
     (case name of
        Some n \<Rightarrow> if bm_get cs n = None then (Inl (NoSuchCursor n), cs) else (Inr (), bm_remove n cs)
      | None \<Rightarrow> (Inr (), []))"

definition cursors_on_commit :: "'o cursors \<Rightarrow> 'o cursors" where
  "cursors_on_commit cs = map (\<lambda>(n, c). (n, c\<lparr>oc_held := True\<rparr>)) (filter (\<lambda>(n, c). oc_hold c) cs)"

definition cursors_on_rollback :: "'o cursors \<Rightarrow> 'o cursors" where
  "cursors_on_rollback cs = filter (\<lambda>(n, c). oc_held c) cs"

section \<open>Motion\<close>

lemma step_forward_eq:
  "step_forward rs k pos out =
     (if length rs < pos then (pos, out)
      else if pos + k \<le> length rs then (pos + k, out @ take k (drop pos rs))
      else (length rs + 1, out @ drop pos rs))"
proof (induction rs k pos out rule: step_forward.induct)
  case (2 rs k pos out)
  show ?case
  proof (cases "pos < length rs")
    case True
    then have "drop pos rs = rs ! pos # drop (Suc pos) rs" by (rule Cons_nth_drop_Suc[symmetric])
    then show ?thesis using 2 True by simp
  qed auto
qed auto

lemma step_backward_eq:
  "pos \<le> length rs + 1 \<Longrightarrow> step_backward rs k pos out =
     (if k < pos then (pos - k, out @ rev (take k (drop (pos - 1 - k) rs)))
      else if k = 0 then (pos, out) else (0, out @ rev (take (pos - 1) rs)))"
proof (induction rs k pos out rule: step_backward.induct)
  case (2 rs k pos out)
  show ?case
  proof (cases "1 < pos")
    case True
    then obtain p where p: "pos = Suc (Suc p)" by (cases pos; cases "pos - 1"; simp)
    have l: "p < length rs" using 2(2) p by simp
    then have t: "take (Suc p) rs = take p rs @ [rs ! p]" by (rule take_Suc_conv_app_nth)
    have d: "take (Suc k) (drop (p - k) rs) = take k (drop (p - k) rs) @ [rs ! p]" if "k \<le> p"
      using l that take_Suc_conv_app_nth[of k "drop (p - k) rs"] by (simp add: nth_drop)
    have i: "step_backward rs k (Suc p) (out @ [rs ! p]) = (if k < Suc p then (Suc p - k, (out @ [rs ! p]) @ rev (take k (drop (Suc p - 1 - k) rs)))
      else if k = 0 then (Suc p, out @ [rs ! p]) else (0, (out @ [rs ! p]) @ rev (take (Suc p - 1) rs)))" using 2(1)[of] 2(2) p by simp
    have e: "step_backward rs (Suc k) pos out = step_backward rs k (Suc p) (out @ [rs ! p])" by (simp add: p)
    show ?thesis
    proof (cases "k \<le> p")
      case True
      then show ?thesis unfolding e i using d by (simp add: p)
    next
      case False
      then show ?thesis unfolding e i using t by (simp add: p)
    qed
  qed (cases pos; auto)
qed auto

text \<open>The directions whose rows the production in advance covers.\<close>

definition answerable :: "cursor_direction \<Rightarrow> bool" where
  "answerable d = (case d of Absolute k \<Rightarrow> 0 \<le> k | Backward k \<Rightarrow> 0 \<le> k | _ \<Rightarrow> True)"

lemma motion_prefix:
  assumes "rs = rs1 @ rs2" "pos \<le> length rs1" "length rs < USIZE_MAX" "answerable d" "lazy_need d pos = Some n" "n \<le> length rs1"
  shows "motion rs1 pos d = motion rs pos d \<and> fst (motion rs pos d) \<le> length rs1"
proof -
  have f: "step_forward rs1 k pos [] = step_forward rs k pos [] \<and> fst (step_forward rs k pos []) \<le> length rs1" if "pos + k \<le> length rs1" for k
    using that assms(1,2) by (simp add: step_forward_eq)
  have b: "step_backward rs1 k pos [] = step_backward rs k pos [] \<and> fst (step_backward rs k pos []) \<le> length rs1" for k
    using assms(1,2) by (auto simp: step_backward_eq)
  have l: "land_on_clamped rs1 t = land_on_clamped rs t \<and> fst (land_on_clamped rs t) \<le> length rs1" if "t \<le> length rs1" for t
    using that assms(1) by (auto simp: land_on_clamped_def Let_def nth_append)
  have u: "length rs1 < USIZE_MAX" using assms(1,3) by simp
  show ?thesis
  proof (cases d)
    case (Absolute k)
    then have "nat k \<le> length rs1" "0 \<le> k" using assms(4-6) by (auto simp: answerable_def lazy_need_def split: if_splits)
    then have "absolute_pos k (length rs1) = nat k" "absolute_pos k (length rs) = nat k" using assms(1) by (auto simp: absolute_pos_def)
    then show ?thesis using l[of "nat k"] \<open>nat k \<le> length rs1\<close> by (simp add: motion_def Absolute)
  next
    case (Relative k)
    have "nat (max 0 (min (int USIZE_MAX) (int pos + k))) \<le> length rs1" using assms(2,5,6) u by (auto simp: Relative lazy_need_def split: if_splits)
    then show ?thesis using l by (simp add: motion_def Relative)
  next
    case (Count k)
    then have "0 \<le> k \<Longrightarrow> pos + nat k \<le> length rs1" using assms(5,6) u by (simp add: lazy_need_def)
    then show ?thesis using f b by (simp add: motion_def Count)
  next
    case First
    then have "1 \<le> length rs1" using assms(5,6) by (simp add: lazy_need_def)
    then show ?thesis using assms(1) by (cases rs1) (simp_all add: motion_def First land_on_def)
  qed (use assms f[of 1] b in \<open>auto simp: motion_def lazy_need_def answerable_def simp del: step_backward.simps\<close>)
qed

lemma backward_prefix:
  assumes "oc_rows c = rs1" "oc_rows c' = rs1 @ rs2" "oc_pos c' = oc_pos c" "oc_pos c \<le> length rs1" "answerable d"
    and "lazy_need d (oc_pos c) = Some n" "n \<le> length rs1"
  shows "is_backward c d = is_backward c' d"
proof (cases d)
  case (Absolute k)
  then have "absolute_pos k (length rs1) = nat k" "absolute_pos k (length (rs1 @ rs2)) = nat k"
    using assms(5-7) by (auto simp: absolute_pos_def answerable_def lazy_need_def split: if_splits)
  then show ?thesis by (simp add: is_backward_def Absolute assms(1-3))
qed (use assms(1-4) in \<open>simp_all add: is_backward_def\<close>)

section \<open>Rows on demand are the rows\<close>

definition outs :: "('r \<Rightarrow> 'e + 'o option) \<Rightarrow> ('i \<times> 'r) list \<Rightarrow> 'o list" where
  "outs ev xs = List.map_filter (\<lambda>x. case ev (snd x) of Inr v \<Rightarrow> v | Inl _ \<Rightarrow> None) xs"

lemma outs_simps [simp]:
  "outs ev [] = []" "outs ev (xs @ ys) = outs ev xs @ outs ev ys"
  "outs ev (x # xs) = (case ev (snd x) of Inr (Some v) \<Rightarrow> v # outs ev xs | _ \<Rightarrow> outs ev xs)"
  by (simp_all add: outs_def map_filter_def split: sum.splits option.splits)

lemma outs_relabel: "outs ev (map (\<lambda>(i, r). (f i, r)) xs) = outs ev xs"
  by (induction xs) (auto split: sum.splits option.splits)

lemma length_outs: "length (outs ev xs) \<le> length xs"
  by (induction xs) (auto split: sum.splits option.splits)

lemma charge_unlimited: "bb_limit b = USIZE_MAX \<Longrightarrow> fst (budget_charge n b) \<and> bb_limit (snd (budget_charge n b)) = USIZE_MAX"
  by (simp add: budget_charge_def Let_def)

text \<open>Where a batch leaves the scan: behind the last row it looked at.\<close>

definition behind :: "row_id list \<Rightarrow> (nat \<times> 'r) list \<Rightarrow> lazy_scan \<Rightarrow> lazy_scan" where
  "behind ids xs lz = (if xs = [] then lz else lz\<lparr>lz_last_rowid := Some (ids ! fst (last xs)), lz_slot_hint := fst (last xs) + 1\<rparr>)"

lemma behind_Cons: "behind ids ((i, r) # xs) lz = behind ids xs (lz\<lparr>lz_last_rowid := Some (ids ! i), lz_slot_hint := i + 1\<rparr>)"
  by (simp add: behind_def)

lemma fill_loop_exact:
  assumes "\<forall>(i, r)\<in>set scan. i < length ids \<and> (\<exists>v. ev r = Inr v)" "bb_limit b = USIZE_MAX" "\<not> lz_done lz"
  shows "\<exists>xs ys. scan = xs @ ys \<and> fill_loop ev size_of ids want scan produced b lz out = (Inr (), (behind ids xs lz)\<lparr>lz_done := (ys = [])\<rparr>, out @ outs ev xs)
    \<and> (ys = [] \<or> (\<exists>w. want = Some w \<and> w \<le> produced + length (outs ev xs)))"
  using assms
proof (induction scan arbitrary: produced b lz out)
  case Nil
  then show ?case by (simp add: behind_def)
next
  case (Cons x scan)
  obtain i r where x: "x = (i, r)" by (cases x)
  show ?case
  proof (cases "case want of None \<Rightarrow> False | Some w \<Rightarrow> w \<le> produced")
    case True
    then obtain w where "want = Some w" "w \<le> produced" by (cases want) simp_all
    moreover have "lz\<lparr>lz_done := False\<rparr> = lz" using Cons.prems(3) by simp
    ultimately show ?thesis by (intro exI[of _ "[]"] exI[of _ "x # scan"]) (simp add: x behind_def)
  next
    case False
    define lz1 where "lz1 = lz\<lparr>lz_last_rowid := Some (ids ! i), lz_slot_hint := i + 1\<rparr>"
    have g: "slice_get ids i = Some (ids ! i)" using Cons.prems(1) by (simp add: x slice_get_def)
    have p: "\<forall>(i, r)\<in>set scan. i < length ids \<and> (\<exists>v. ev r = Inr v)" "\<not> lz_done lz1" using Cons.prems by (simp_all add: lz1_def)
    obtain v where v: "ev r = Inr v" using Cons.prems(1) by (auto simp: x)
    show ?thesis
    proof (cases v)
      case None
      obtain xs ys where "scan = xs @ ys" "fill_loop ev size_of ids want scan produced b lz1 out = (Inr (), (behind ids xs lz1)\<lparr>lz_done := (ys = [])\<rparr>, out @ outs ev xs)"
        "ys = [] \<or> (\<exists>w. want = Some w \<and> w \<le> produced + length (outs ev xs))"
        using Cons.IH[OF p(1) Cons.prems(2) p(2)] by blast
      moreover have "fill_loop ev size_of ids want (x # scan) produced b lz out = fill_loop ev size_of ids want scan produced b lz1 out"
        using False by (simp add: x g v None lz1_def)
      ultimately show ?thesis by (intro exI[of _ "x # xs"] exI[of _ ys]) (simp add: x behind_Cons v None lz1_def)
    next
      case (Some o1)
      obtain b1 where b1: "budget_charge (size_of o1) b = (True, b1)" "bb_limit b1 = USIZE_MAX"
        using charge_unlimited[OF Cons.prems(2), of "size_of o1"] by (cases "budget_charge (size_of o1) b") simp
      obtain xs ys where "scan = xs @ ys"
        "fill_loop ev size_of ids want scan (produced + 1) b1 lz1 (out @ [o1]) = (Inr (), (behind ids xs lz1)\<lparr>lz_done := (ys = [])\<rparr>, (out @ [o1]) @ outs ev xs)"
        "ys = [] \<or> (\<exists>w. want = Some w \<and> w \<le> produced + 1 + length (outs ev xs))"
        using Cons.IH[OF p(1) b1(2) p(2)] by blast
      moreover have "fill_loop ev size_of ids want (x # scan) produced b lz out = fill_loop ev size_of ids want scan (produced + 1) b1 lz1 (out @ [o1])"
        using False by (simp add: x g v Some lz1_def b1)
      ultimately show ?thesis by (intro exI[of _ "x # xs"] exI[of _ ys]) (simp add: x behind_Cons v Some lz1_def)
    qed
  qed
qed

text \<open>The resumed scan yields the rows of the snapshot that come behind the last one consumed.\<close>

lemma shown_ids_ascending: "table_inv t \<Longrightarrow> sorted_wrt (<) (map fst (shown_rows t s))"
proof -
  assume "table_inv t"
  then have l: "length (headers t) = length (rows t)" "length (rowids t) = length (rows t)" and a: "ascending (rowids t)"
    by (auto simp: table_inv_def lockstep_def)
  have m: "map fst (shown_rows t s) = map ((!) (rowids t)) (shown t s)"
    by (simp add: shown_rows_def scan_visible_shown[OF l(1)] comp_def split_def)
  have "sorted_wrt (<) (shown t s)" "\<forall>i\<in>set (shown t s). i < length (rowids t)" using l(2) by (auto simp: shown_def sorted_wrt_filter)
  then have "sorted_wrt (\<lambda>i j. rowids t ! i < rowids t ! j) (shown t s)"
    using sorted_wrt_nth_less[OF a] by (auto intro: sorted_wrt_mono_rel[of "shown t s" "(<)"])
  then show ?thesis unfolding m by (simp add: sorted_wrt_map)
qed

lemma filter_behind:
  fixes pre :: "('a::linorder \<times> 'r) list"
  assumes "sorted_wrt (<) (map fst (pre @ rest))" "pre \<noteq> []"
  shows "filter (\<lambda>x. fst (last pre) < fst x) (pre @ rest) = rest"
proof -
  have "\<not> fst (last pre) < fst x" if x: "x \<in> set pre" for x
  proof -
    obtain i where i: "i < length pre" "x = pre ! i" using x by (auto simp: in_set_conv_nth)
    have "sorted_wrt (<) (map fst pre)" using assms(1) by (simp add: sorted_wrt_append)
    then have "i < length pre - 1 \<Longrightarrow> fst (pre ! i) < fst (pre ! (length pre - 1))" using sorted_wrt_nth_less[of "(<)" "map fst pre" i "length pre - 1"] i by simp
    moreover have "i < length pre - 1 \<or> i = length pre - 1" using i by linarith
    ultimately have "fst (pre ! i) \<le> fst (pre ! (length pre - 1))" by (elim disjE) (simp_all add: less_imp_le)
    then show ?thesis using assms(2) i by (simp add: last_conv_nth)
  qed
  moreover have "fst (last pre) < fst x" if "x \<in> set rest" for x
    using assms that by (auto simp: sorted_wrt_append)
  ultimately show ?thesis by (simp add: filter_empty_conv filter_id_conv)
qed

definition scan_at :: "row_id option \<Rightarrow> (row_id \<times> 'r) list \<Rightarrow> bool" where
  "scan_at rid pre \<longleftrightarrow> rid = (if pre = [] then None else Some (fst (last pre)))"

lemma resumed_scan:
  assumes inv: "table_inv t" and v: "shown_rows t s = pre @ rest" and r: "scan_at rid pre"
  shows "map (\<lambda>(i, row). (rowids t ! i, row)) (scan_visible_from t (case rid of None \<Rightarrow> 0 | Some x \<Rightarrow> resume_slot_after t x hint) s) = rest"
    "\<forall>(i, row)\<in>set (scan_visible_from t n s). i < length (rowids t)"
proof -
  have l: "length (headers t) = length (rows t)" "length (rowids t) = length (rows t)" and a: "ascending (rowids t)"
    using inv by (auto simp: table_inv_def lockstep_def)
  show "\<forall>(i, row)\<in>set (scan_visible_from t n s). i < length (rowids t)"
    unfolding scan_visible_from_shown[OF l(1)] using l(2) by (auto simp: shown_def)
  show "map (\<lambda>(i, row). (rowids t ! i, row)) (scan_visible_from t (case rid of None \<Rightarrow> 0 | Some x \<Rightarrow> resume_slot_after t x hint) s) = rest"
  proof (cases "pre = []")
    case True
    then show ?thesis using v r by (simp add: scan_at_def shown_rows_def scan_visible_from_shown[OF l(1)] scan_visible_shown[OF l(1)])
  next
    case False
    define x where "x = fst (last pre)"
    have "filter (\<lambda>i. resume_slot_after t x hint \<le> i) (shown t s) = filter (\<lambda>i. x < rowids t ! i) (shown t s)"
      using resume_slot_split[OF a, of _ x hint] l(2) by (auto simp: shown_def intro!: filter_cong)
    then have "map (\<lambda>(i, row). (rowids t ! i, row)) (scan_visible_from t (resume_slot_after t x hint) s) = filter (\<lambda>y. x < fst y) (shown_rows t s)"
      unfolding scan_visible_from_shown[OF l(1)] shown_rows_def scan_visible_shown[OF l(1)] by (simp add: filter_map comp_def)
    also have "\<dots> = rest" unfolding v x_def using shown_ids_ascending[OF inv, of s] False by (intro filter_behind) (simp_all add: v)
    finally show ?thesis using r False by (simp add: scan_at_def x_def)
  qed
qed

text \<open>
  A cursor that produces on demand, beside the cursor over the whole result: the same position, and
  its rows are what the scan has passed.
\<close>

definition lazy_rel :: "('r \<Rightarrow> 'e + 'o option) \<Rightarrow> snapshot \<Rightarrow> (row_id \<times> 'r) list \<Rightarrow> 'o open_cursor \<Rightarrow> 'o open_cursor \<Rightarrow> bool" where
  "lazy_rel ev s v c e \<longleftrightarrow>
     oc_rows e = outs ev v \<and> oc_lazy e = None \<and> oc_pos c = oc_pos e \<and> oc_scroll c = oc_scroll e
     \<and> (case oc_lazy c of
           None \<Rightarrow> oc_rows c = outs ev v
         | Some lz \<Rightarrow> \<not> lz_done lz \<and> lz_snapshot lz = s \<and> oc_pos c \<le> length (oc_rows c)
             \<and> (\<exists>pre rest. v = pre @ rest \<and> oc_rows c = outs ev pre \<and> scan_at (lz_last_rowid lz) pre))"

lemma last_relabel: "xs \<noteq> [] \<Longrightarrow> fst (last (map (\<lambda>(i, r). (f i, r)) xs)) = f (fst (last xs))"
  by (simp add: last_map split_def)

lemma behind_scan:
  "scan_at (lz_last_rowid lz) pre \<Longrightarrow> scan_at (lz_last_rowid (behind ids xs lz)) (pre @ map (\<lambda>(i, r). (ids ! i, r)) xs)"
  by (auto simp: scan_at_def behind_def last_relabel)

lemma fill_exact:
  assumes "table_inv t" "shown_rows t (lz_snapshot lz) = pre @ rest" "scan_at (lz_last_rowid lz) pre" "\<not> lz_done lz"
    and "\<forall>x\<in>set (pre @ rest). \<exists>v. ev (snd x) = Inr v"
  obtains xs ys lz1 where "rest = xs @ ys" "cursor_fill ev size_of None (Some t) want lz out = (Inr (), lz1, out @ outs ev xs)"
    "lz_done lz1 = (ys = [])" "lz_snapshot lz1 = lz_snapshot lz" "scan_at (lz_last_rowid lz1) (pre @ xs)"
    "ys = [] \<or> (\<exists>w. want = Some w \<and> w \<le> length (outs ev xs))"
proof -
  define scan where "scan = scan_visible_from t (case lz_last_rowid lz of None \<Rightarrow> 0 | Some x \<Rightarrow> resume_slot_after t x (lz_slot_hint lz)) (lz_snapshot lz)"
  have r: "map (\<lambda>(i, row). (rowids t ! i, row)) scan = rest" "\<forall>(i, row)\<in>set scan. i < length (rowids t)"
    unfolding scan_def by (rule resumed_scan[OF assms(1-3)])+
  have "\<exists>v. ev row = Inr v" if x: "(i, row) \<in> set scan" for i row
  proof -
    have "(rowids t ! i, row) \<in> set rest" unfolding r(1)[symmetric] using x by force
    then show ?thesis using assms(5) by force
  qed
  then have p: "\<forall>(i, row)\<in>set scan. i < length (rowids t) \<and> (\<exists>v. ev row = Inr v)" using r(2) by blast
  have "bb_limit (budget_new None) = USIZE_MAX" by (simp add: budget_new_def)
  from fill_loop_exact[OF p this assms(4), of size_of want 0 out]
  obtain xs ys where xy: "scan = xs @ ys"
    "fill_loop ev size_of (rowids t) want scan 0 (budget_new None) lz out = (Inr (), (behind (rowids t) xs lz)\<lparr>lz_done := (ys = [])\<rparr>, out @ outs ev xs)"
    "ys = [] \<or> (\<exists>w. want = Some w \<and> w \<le> length (outs ev xs))" by auto
  let ?m = "map (\<lambda>(i, row). (rowids t ! i, row))"
  have f: "cursor_fill ev size_of None (Some t) want lz out = (Inr (), (behind (rowids t) xs lz)\<lparr>lz_done := (ys = [])\<rparr>, out @ outs ev xs)"
    unfolding cursor_fill_def using assms(4) xy(2) by (simp add: scan_def)
  show thesis
    using behind_scan[OF assms(3), of "rowids t" xs] f xy r(1)
    by (intro that[of "?m xs" "?m ys" "(behind (rowids t) xs lz)\<lparr>lz_done := (ys = [])\<rparr>"]) (auto simp: outs_relabel behind_def)
qed

lemma produce_exact:
  assumes rel: "lazy_rel ev s v c e" and t: "table_inv t" "shown_rows t s = v" and ev: "\<forall>x\<in>set v. \<exists>y. ev (snd x) = Inr y"
  obtains c1 where "produce_for ev size_of None (Some t) d c = (Inr (), c1)" "lazy_rel ev s v c1 e"
    "oc_lazy c1 = None \<or> (\<exists>n. lazy_need d (oc_pos c1) = Some n \<and> n \<le> length (oc_rows c1))"
proof (cases "oc_lazy c")
  case None
  then show thesis using rel by (intro that[of c]) (simp_all add: produce_for_def)
next
  case (Some lz)
  obtain pre rest where lz: "\<not> lz_done lz" "lz_snapshot lz = s" "oc_pos c \<le> length (oc_rows c)" "v = pre @ rest" "oc_rows c = outs ev pre" "scan_at (lz_last_rowid lz) pre"
    using rel Some by (auto simp: lazy_rel_def)
  show thesis
  proof (cases "\<exists>n. lazy_need d (oc_pos c) = Some n \<and> n \<le> length (oc_rows c)")
    case True
    then show thesis using rel Some lz(1) by (intro that[of c]) (auto simp: produce_for_def)
  next
    case False
    define want where "want = (case lazy_need d (oc_pos c) of None \<Rightarrow> None | Some n \<Rightarrow> Some (n - length (oc_rows c)))"
    have sh: "shown_rows t (lz_snapshot lz) = pre @ rest" using t(2) lz(2,4) by simp
    obtain xs ys lz1 where f: "rest = xs @ ys" "cursor_fill ev size_of None (Some t) want lz (oc_rows c) = (Inr (), lz1, oc_rows c @ outs ev xs)"
      "lz_done lz1 = (ys = [])" "lz_snapshot lz1 = lz_snapshot lz" "scan_at (lz_last_rowid lz1) (pre @ xs)"
      "ys = [] \<or> (\<exists>w. want = Some w \<and> w \<le> length (outs ev xs))"
      using fill_exact[OF t(1) sh lz(6,1)] ev lz(4) by blast
    define c1 where "c1 = c\<lparr>oc_rows := oc_rows c @ outs ev xs, oc_lazy := (if ys = [] then None else Some lz1)\<rparr>"
    have p: "produce_for ev size_of None (Some t) d c = (Inr (), c1)"
      using False lz(1) f(2,3) by (auto simp: produce_for_def Some want_def c1_def split: option.splits)
    have "lazy_rel ev s v c1 e"
    proof (cases "ys = []")
      case True
      then show ?thesis using rel lz f(1) by (simp add: lazy_rel_def c1_def)
    next
      case False
      then have "v = (pre @ xs) @ ys \<and> oc_rows c1 = outs ev (pre @ xs) \<and> scan_at (lz_last_rowid lz1) (pre @ xs)" using lz f(1,5) by (simp add: c1_def)
      then have "\<exists>pre rest. v = pre @ rest \<and> oc_rows c1 = outs ev pre \<and> scan_at (lz_last_rowid lz1) pre" by blast
      then show ?thesis using rel lz(1-3) f(3,4) False by (simp add: lazy_rel_def c1_def)
    qed
    moreover have "oc_lazy c1 = None \<or> (\<exists>n. lazy_need d (oc_pos c1) = Some n \<and> n \<le> length (oc_rows c1))"
      using f(6) by (auto simp: c1_def want_def split: option.splits)
    ultimately show thesis using p by (intro that[of c1])
  qed
qed

lemma fetch_exact:
  assumes rel: "lazy_rel ev s v c e" and d: "answerable d" "length v < USIZE_MAX"
    and n: "oc_lazy c = None \<or> (\<exists>n. lazy_need d (oc_pos c) = Some n \<and> n \<le> length (oc_rows c))"
  shows "\<exists>res c1 e1. cursor_fetch d c = (res, c1) \<and> cursor_fetch d e = (res, e1) \<and> lazy_rel ev s v c1 e1"
proof (cases "oc_lazy c")
  case None
  then have "oc_rows c = oc_rows e" "oc_pos c = oc_pos e" "oc_scroll c = oc_scroll e" using rel by (simp_all add: lazy_rel_def)
  moreover from this have "is_backward c d = is_backward e d" by (simp add: is_backward_def cong: cursor_direction.case_cong)
  moreover obtain pos out where "motion (oc_rows e) (oc_pos e) d = (pos, out)" by fastforce
  ultimately show ?thesis using rel None by (simp add: cursor_fetch_def lazy_rel_def)
next
  case (Some lz)
  obtain pre rest where lz: "oc_pos c \<le> length (oc_rows c)" "v = pre @ rest" "oc_rows c = outs ev pre"
    using rel Some by (auto simp: lazy_rel_def)
  have e: "oc_rows e = oc_rows c @ outs ev rest" "oc_pos e = oc_pos c" "oc_scroll e = oc_scroll c" using rel lz by (auto simp: lazy_rel_def)
  obtain k where k: "lazy_need d (oc_pos c) = Some k" "k \<le> length (oc_rows c)" using n Some by auto
  have "length (oc_rows e) < USIZE_MAX" using length_outs[of ev v] d(2) rel by (simp add: lazy_rel_def)
  then have m: "motion (oc_rows c) (oc_pos c) d = motion (oc_rows e) (oc_pos c) d" "fst (motion (oc_rows e) (oc_pos c) d) \<le> length (oc_rows c)"
    using motion_prefix[OF e(1) lz(1) _ d(1) k] by simp_all
  have b: "is_backward c d = is_backward e d" using backward_prefix[OF refl e(1,2) lz(1) d(1) k] .
  obtain pos out where po: "motion (oc_rows e) (oc_pos c) d = (pos, out)" by fastforce
  then show ?thesis using rel Some m by (auto simp: cursor_fetch_def b e(2,3) lazy_rel_def)
qed

section \<open>Sessions\<close>

fun fetch_run ::
  "('r \<Rightarrow> 'e + 'o option) \<Rightarrow> ('o \<Rightarrow> nat) \<Rightarrow> nat option \<Rightarrow> bytes \<Rightarrow> ('r table \<times> cursor_direction) list \<Rightarrow> 'o cursors \<Rightarrow> ('e cursor_error + 'o list) list" where
  "fetch_run ev size_of mx name [] cs = []"
| "fetch_run ev size_of mx name ((t, d) # steps) cs =
     (case exec_fetch_cursor ev size_of mx (Some t) name d cs of (res, cs1) \<Rightarrow> res # fetch_run ev size_of mx name steps cs1)"

lemma exec_fetch_at:
  assumes "bm_get cs name = Some c" "produce_for ev size_of mx tbl d c = (Inr (), c1)" "cursor_fetch d c1 = (res, c2)"
  shows "\<exists>cs1. exec_fetch_cursor ev size_of mx tbl name d cs = (res, cs1) \<and> bm_get cs1 name = Some c2"
  using assms by (simp add: exec_fetch_cursor_def cursor_produce_for_def)

lemma fetch_run_exact:
  fixes ev :: "'a \<Rightarrow> 'b + 'c option"
  assumes "\<forall>(t, d)\<in>set steps. table_inv t \<and> shown_rows t s = v \<and> answerable d" "\<forall>x\<in>set v. \<exists>y. ev (snd x) = Inr y" "length v < USIZE_MAX"
    and "bm_get cs name = Some c" "bm_get es name = Some e" "lazy_rel ev s v c e"
  shows "fetch_run ev size_of None name steps cs = fetch_run ev size_of mx name steps es"
  using assms
proof (induction steps arbitrary: cs es c e)
  case (Cons x steps)
  obtain t d where x: "x = (t, d)" by (cases x)
  have t: "table_inv t" "shown_rows t s = v" "answerable d" using Cons.prems(1) by (simp_all add: x)
  obtain c1 where c1: "produce_for ev size_of None (Some t) d c = (Inr (), c1)" "lazy_rel ev s v c1 e"
    "oc_lazy c1 = None \<or> (\<exists>n. lazy_need d (oc_pos c1) = Some n \<and> n \<le> length (oc_rows c1))"
    using produce_exact[OF Cons.prems(6) t(1,2) Cons.prems(2)] by blast
  have e1: "produce_for ev size_of mx (Some t) d e = (Inr (), e)" using c1(2) by (simp add: produce_for_def lazy_rel_def)
  obtain c2 e2 and res :: "'b cursor_error + 'c list" where f: "cursor_fetch d c1 = (res, c2)" "cursor_fetch d e = (res, e2)" "lazy_rel ev s v c2 e2"
    using fetch_exact[OF c1(2) t(3) Cons.prems(3) c1(3)] by blast
  obtain cs1 where cs1: "exec_fetch_cursor ev size_of None (Some t) name d cs = (res, cs1)" "bm_get cs1 name = Some c2"
    using exec_fetch_at[OF Cons.prems(4) c1(1) f(1)] by blast
  obtain es1 where es1: "exec_fetch_cursor ev size_of mx (Some t) name d es = (res, es1)" "bm_get es1 name = Some e2"
    using exec_fetch_at[OF Cons.prems(5) e1 f(2)] by blast
  have "fetch_run ev size_of None name steps cs1 = fetch_run ev size_of mx name steps es1"
    using Cons.prems(1-3) cs1(2) es1(2) f(3) by (intro Cons.IH) auto
  then show ?case by (simp add: x cs1(1) es1(1))
qed simp


lemma example_table:
  obtains t where "table_reach (\<lambda>_. True) t" "length (shown_rows t snapshot_unbounded) = 1" "map snd (shown_rows t snapshot_unbounded) = [''a'']"
proof -
  obtain t where t: "insert_with_xmin (\<lambda>_. True) (table_new 1) ''a'' 5 = Inr t" by (rule insert_example)
  have "table_reach (\<lambda>_. True) t" by (rule reach_ins[OF reach_new t]) (simp add: table_new_def)
  moreover have r: "shown_rows t snapshot_unbounded = [(1, ''a'')]" using t
    by (auto simp: insert_with_xmin_def insert_keyed_def alloc_rowid_def XMIN_FROZEN_def Let_def table_new_def shown_rows_def scan_visible_def
      header_visible_def snapshot_unbounded_def visible_def header_alive_def ips_empty_def XMAX_ALIVE_def)
  ultimately show thesis by (intro that[of t]) simp_all
qed


section \<open>Directions the production in advance leaves out\<close>

text \<open>Counting from the end of a cursor that has produced nothing yet finds no row, while the cursor over the whole result
  finds its last one; so does a negative backward count.\<close>

lemma fetch_from_end_lost:
  "fst (cursor_fetch (Absolute (- 1)) (snd (produce_for ev size_of mx tbl (Absolute (- 1)) \<lparr>oc_rows = [], oc_pos = 0, oc_scroll = sc, oc_hold = h, oc_held = h', oc_lazy = Some lz\<rparr>)))
     = Inr []"
  "fst (cursor_fetch (Absolute (- 1)) \<lparr>oc_rows = rs @ [x], oc_pos = 0, oc_scroll = sc, oc_hold = h, oc_held = h', oc_lazy = None\<rparr>) = Inr [x]"
  "fst (cursor_fetch (Backward (- 1)) (snd (produce_for ev size_of mx tbl (Backward (- 1)) \<lparr>oc_rows = [], oc_pos = 0, oc_scroll = sc, oc_hold = h, oc_held = h', oc_lazy = Some lz\<rparr>)))
     = Inr []"
  "fst (cursor_fetch (Backward (- 1)) \<lparr>oc_rows = x # rs, oc_pos = 0, oc_scroll = sc, oc_hold = h, oc_held = h', oc_lazy = None\<rparr>) = Inr [x]"
  by (simp_all add: produce_for_def lazy_need_def cursor_fetch_def is_backward_def motion_def land_on_clamped_def absolute_pos_def Let_def split: if_splits)

section \<open>Transactions\<close>

text \<open>The cursors a session keeps across the end of a transaction.\<close>

lemma cursors_after_commit:
  assumes "bm_inv cs"
  shows "bm_get (cursors_on_commit cs) n = (case bm_get cs n of Some c \<Rightarrow> if oc_hold c then Some (c\<lparr>oc_held := True\<rparr>) else None | None \<Rightarrow> None)"
    "bm_get (cursors_on_rollback cs) n = (case bm_get cs n of Some c \<Rightarrow> if oc_held c then Some c else None | None \<Rightarrow> None)"
  using bm_get_filter[OF assms, of "\<lambda>_. oc_hold" n] bm_get_filter[OF assms, of "\<lambda>_. oc_held" n]
  by (auto simp: cursors_on_commit_def cursors_on_rollback_def bm_get_map_values split: option.splits)

lemma commit_then_rollback: "bm_inv cs \<Longrightarrow> cursors_on_rollback (cursors_on_commit cs) = cursors_on_commit cs"
  by (auto simp: cursors_on_commit_def cursors_on_rollback_def filter_map comp_def split_def intro!: filter_cong)

end
