(* ===== verification/Civil.thy ===== *)
theory Civil
  imports Prelude
begin

text \<open>
  The civil calendar: day numbers against year, month and day, as the time zone reader
  (\<open>spg-tzif/src/lib.rs\<close>, 64-bit day numbers) and the engine (\<open>spg-engine/src/eval.rs\<close>,
  \<open>eval/format.rs\<close>, 32-bit day numbers) compute them, and month arithmetic. Both conversions are proved
  against the walk of the calendar day by day.
\<close>

section \<open>Time zone reader\<close>

definition wrap32 :: "int \<Rightarrow> int" where "wrap32 x = signed_take_bit 31 x"

definition is_leap :: "int \<Rightarrow> bool" where
  "is_leap y = (y mod 4 = 0 \<and> y mod 100 \<noteq> 0 \<or> y mod 400 = 0)"

definition days_in_month :: "int \<Rightarrow> nat \<Rightarrow> nat" where
  "days_in_month y m =
     (if m \<in> {1, 3, 5, 7, 8, 10, 12} then 31
      else if m \<in> {4, 6, 9, 11} then 30
      else if m = 2 then (if is_leap y then 29 else 28)
      else 30)"

definition days_from_civil :: "int \<Rightarrow> nat \<Rightarrow> nat \<Rightarrow> int" where
  "days_from_civil y m d =
     (let y_adj = (if m \<le> 2 then y - 1 else y);
          era = y_adj div 400;
          yoe = y_adj - era * 400;
          doy = int ((153 * (if 2 < m then m - 3 else m + 9) + 2) div 5 + d - 1);
          doe = yoe * 365 + yoe div 4 - yoe div 100 + doy
      in era * 146097 + doe - 719468)"

definition civil_from_days :: "int \<Rightarrow> int \<times> nat \<times> nat" where
  "civil_from_days days =
     (let z = days + 719468;
          era = z div 146097;
          doe = z - era * 146097;
          yoe = (doe - doe div 1460 + doe div 36524 - doe div 146096) div 365;
          y = yoe + era * 400;
          doy = doe - (365 * yoe + yoe div 4 - yoe div 100);
          mp = (5 * doy + 2) div 153;
          d = doy - (153 * mp + 2) div 5 + 1;
          m = (if mp < 10 then mp + 3 else mp - 9);
          y1 = (if m \<le> 2 then y + 1 else y)
      in (wrap32 y1, nat m, nat d))"

section \<open>Engine\<close>

definition eval_days_in_month :: "int \<Rightarrow> nat \<Rightarrow> nat" where
  "eval_days_in_month y m =
     (if m \<in> {1, 3, 5, 7, 8, 10, 12} then 31
      else if m = 2 then (if y mod 4 = 0 \<and> (y mod 100 \<noteq> 0 \<or> y mod 400 = 0) then 29 else 28)
      else 30)"

definition I32_MAX :: int where "I32_MAX = 2147483647"

definition I32_MIN :: int where "I32_MIN = - 2147483648"

definition i32_try_from :: "int \<Rightarrow> int option" where
  "i32_try_from x = (if I32_MIN \<le> x \<and> x \<le> I32_MAX then Some x else None)"

definition unwrap_or :: "'a option \<Rightarrow> 'a \<Rightarrow> 'a" where
  "unwrap_or x d = (case x of Some v \<Rightarrow> v | None \<Rightarrow> d)"

definition eval_days_from_civil :: "int \<Rightarrow> nat \<Rightarrow> nat \<Rightarrow> int" where
  "eval_days_from_civil y m d =
     (let y_adj = (if m \<le> 2 then y - 1 else y);
          era = y_adj div 400;
          yoe = nat (y_adj - era * 400);
          doy = (153 * (if 2 < m then m - 3 else m + 9) + 2) div 5 + (d - 1);
          doe = yoe * 365 + yoe div 4 - yoe div 100 + doy;
          total = era * 146097 + int doe - 719468
      in unwrap_or (i32_try_from total) I32_MAX)"

definition eval_civil_from_days :: "int \<Rightarrow> int \<times> nat \<times> nat" where
  "eval_civil_from_days days =
     (let z = days + 719468;
          era = z div 146097;
          doe = nat (z - era * 146097);
          yoe = ((doe - doe div 1460) + doe div 36524 - doe div 146096) div 365;
          y_base = int yoe + era * 400;
          doy = doe - (365 * yoe + yoe div 4 - yoe div 100);
          mp = (5 * doy + 2) div 153;
          d = (doy - (153 * mp + 2) div 5) + 1;
          m = (if mp < 10 then mp + 3 else mp - 9);
          y = (if m \<le> 2 then y_base + 1 else y_base)
      in (wrap32 y, m, d))"

definition add_months_to_civil :: "int \<Rightarrow> nat \<Rightarrow> nat \<Rightarrow> int \<Rightarrow> int \<times> nat \<times> nat" where
  "add_months_to_civil y m d months =
     (let total_months = y * 12 + int m - 1 + months;
          new_year = unwrap_or (i32_try_from (total_months div 12)) I32_MAX;
          new_month = nat (total_months mod 12) + 1;
          max_day = eval_days_in_month new_year new_month
      in (new_year, new_month, min d max_day))"

section \<open>The walk of the calendar\<close>

definition valid_date :: "int \<times> nat \<times> nat \<Rightarrow> bool" where
  "valid_date = (\<lambda>(y, m, d). 1 \<le> m \<and> m \<le> 12 \<and> 1 \<le> d \<and> d \<le> days_in_month y m)"

definition next_date :: "int \<times> nat \<times> nat \<Rightarrow> int \<times> nat \<times> nat" where
  "next_date = (\<lambda>(y, m, d).
     if d < days_in_month y m then (y, m, d + 1) else if m < 12 then (y, m + 1, 1) else (y + 1, 1, 1))"

lemma month_cases: "1 \<le> m \<Longrightarrow> m \<le> (12::nat) \<Longrightarrow> m \<in> {1, 2, 3, 4, 5, 6, 7, 8, 9, 10, 11, 12}"
  unfolding insert_iff empty_iff by presburger

lemma eval_days_in_month_eq: "eval_days_in_month y m = days_in_month y m"
proof -
  have "(y mod 4 = 0 \<and> (y mod 100 \<noteq> 0 \<or> y mod 400 = 0)) = is_leap y" unfolding is_leap_def by presburger
  then show ?thesis by (simp add: eval_days_in_month_def days_in_month_def)
qed

lemma wrap32_id: "- (2 ^ 31) \<le> x \<Longrightarrow> x < 2 ^ 31 \<Longrightarrow> wrap32 x = x"
  by (simp add: wrap32_def signed_take_bit_int_eq_self_iff)

definition year_start :: "int \<Rightarrow> int" where
  "year_start y = 365 * y + y div 4 - y div 100 + y div 400"

definition doy_of :: "nat \<Rightarrow> nat \<Rightarrow> nat" where
  "doy_of m d = (153 * (if 2 < m then m - 3 else m + 9) + 2) div 5 + d - 1"

lemma days_closed: "days_from_civil y m d = year_start (if m \<le> 2 then y - 1 else y) + int (doy_of m d) - 719468"
proof -
  have e: "(a div 400) * 146097 + ((a - a div 400 * 400) * 365 + (a - a div 400 * 400) div 4 - (a - a div 400 * 400) div 100) = year_start a" for a :: int
  proof -
    have "(a - a div 400 * 400) div 4 = a div 4 - a div 400 * 100" "(a - a div 400 * 400) div 100 = a div 100 - a div 400 * 4"
      using div_mult_self1[of 4 a "- (a div 400 * 100)"] div_mult_self1[of 100 a "- (a div 400 * 4)"] by (simp_all add: algebra_simps)
    then show ?thesis by (simp add: year_start_def)
  qed
  show ?thesis unfolding days_from_civil_def Let_def doy_of_def[symmetric] e[symmetric] by linarith
qed

lemma div_pred: "0 < k \<Longrightarrow> y div k = (y - 1) div k + (if y mod k = 0 then 1 else (0::int))"
proof -
  assume k: "0 < k"
  have y: "y = k * (y div k) + y mod k" by simp
  have r: "0 \<le> y mod k" "y mod k < k" using k by simp_all
  show ?thesis
  proof (cases "y mod k = 0")
    case True
    then have "y - 1 = k * (y div k - 1) + (k - 1)" using y by (simp add: algebra_simps)
    then have "(y - 1) div k = y div k - 1" by (rule int_div_pos_eq) (use k in simp_all)
    then show ?thesis using True by simp
  next
    case False
    then have "y - 1 = k * (y div k) + (y mod k - 1)" using y by linarith
    then have "(y - 1) div k = y div k" by (rule int_div_pos_eq) (use r False in linarith)+
    then show ?thesis using False by simp
  qed
qed

lemma year_start_Suc: "year_start y = year_start (y - 1) + 365 + (if is_leap y then 1 else 0)"
proof -
  have c: "y mod 400 = 0 \<Longrightarrow> y mod 100 = 0" "y mod 100 = 0 \<Longrightarrow> y mod 4 = 0"
    using dvd_trans[of 100 400 y] dvd_trans[of 4 100 y] by (simp_all add: mod_eq_0_iff_dvd)
  define a b c' where "a = (y - 1) div 4" and "b = (y - 1) div 100" and "c' = (y - 1) div 400"
  have e: "y div 4 = a + (if y mod 4 = 0 then 1 else 0)" "y div 100 = b + (if y mod 100 = 0 then 1 else 0)" "y div 400 = c' + (if y mod 400 = 0 then 1 else 0)"
    unfolding a_def b_def c'_def by (rule div_pred, simp)+
  have l: "is_leap y = (if y mod 4 = 0 then if y mod 100 = 0 then y mod 400 = 0 else True else False)" using c by (auto simp: is_leap_def)
  have "(if y mod 4 = 0 then 1 else 0) - (if y mod 100 = 0 then 1 else 0) + (if y mod 400 = 0 then 1 else 0) = (if is_leap y then 1 else (0::int))"
    unfolding l using c by (cases "y mod 400 = 0"; cases "y mod 100 = 0"; cases "y mod 4 = 0"; simp only: if_True if_False simp_thms; simp)
  then show ?thesis unfolding year_start_def e a_def[symmetric] b_def[symmetric] c'_def[symmetric] by (simp only: algebra_simps)
qed

lemma days_next:
  assumes "valid_date (y, m, d)"
  shows "(case next_date (y, m, d) of (y', m', d') \<Rightarrow> days_from_civil y' m' d') = days_from_civil y m d + 1"
proof -
  have m: "m \<in> {1, 2, 3, 4, 5, 6, 7, 8, 9, 10, 11, 12}" and d: "1 \<le> d" "d \<le> days_in_month y m" using assms month_cases[of m] by (auto simp: valid_date_def)
  show ?thesis
  proof (cases "d < days_in_month y m")
    case True
    then show ?thesis using d by (simp add: next_date_def days_closed doy_of_def)
  next
    case False
    then have "d = days_in_month y m" using d by simp
    then show ?thesis using m year_start_Suc[of y] by (auto simp: next_date_def days_closed days_in_month_def doy_of_def)
  qed
qed

lemma next_valid: "valid_date x \<Longrightarrow> valid_date (next_date x)"
proof -
  assume v: "valid_date x"
  obtain y m d where x: "x = (y, m, d)" by (cases x)
  have p: "1 \<le> days_in_month y k" for y k by (simp add: days_in_month_def)
  show ?thesis using v p[of y "m + 1"] p[of "y + 1" 1] by (auto simp: x valid_date_def next_date_def)
qed

section \<open>Day number to date\<close>

definition yoe_of :: "int \<Rightarrow> int" where
  "yoe_of doe = (doe - doe div 1460 + doe div 36524 - doe div 146096) div 365"

definition yoe_start :: "int \<Rightarrow> int" where
  "yoe_start y = 365 * y + y div 4 - y div 100"

lemma minus_div_mono: "a \<le> b \<Longrightarrow> 0 < k \<Longrightarrow> a - a div k \<le> b - b div (k::int)"
proof -
  assume ab: "a \<le> b" and k: "0 < k"
  have "(a + (b - a)) div k \<le> a div k + (b - a)"
  proof -
    have "(a + (b - a)) div k \<le> (a + k * (b - a)) div k" using ab k by (intro zdiv_mono1) (use mult_right_mono[of 1 k "b - a"] in simp_all)
    also have "\<dots> = a div k + (b - a)" using k by simp
    finally show ?thesis .
  qed
  then show ?thesis by simp
qed

lemma yoe_mono: assumes "a \<le> b" shows "yoe_of a \<le> yoe_of b"
proof -
  have e: "x div 146096 = (x div 36524) div (4::int)" for x :: int by (simp add: div_mult2_eq[symmetric] zdiv_zmult2_eq[symmetric])
  have "a div 36524 - a div 146096 \<le> b div 36524 - b div 146096"
    unfolding e by (rule minus_div_mono) (use assms in \<open>auto intro: zdiv_mono1\<close>)
  moreover have "a - a div 1460 \<le> b - b div 1460" using assms by (intro minus_div_mono) simp_all
  ultimately show ?thesis unfolding yoe_of_def by (intro zdiv_mono1) linarith+
qed

lemma yoe_steps: "list_all (\<lambda>y. yoe_of (yoe_start y - 1) < y \<and> y \<le> yoe_of (yoe_start y)) [1..399]"
  by code_simp

lemma doy_steps: "list_all (\<lambda>doy. let mp = (5 * doy + 2) div 153; d = doy - (153 * mp + 2) div 5 + 1
    in 0 \<le> mp \<and> mp \<le> 11 \<and> 1 \<le> d \<and> d \<le> [31, 30, 31, 30, 31, 31, 30, 31, 30, 31, 31, 29] ! nat mp) [0..365::int]"
  by code_simp

lemma month_steps: "list_all (\<lambda>mp. list_all (\<lambda>d. let doy = (153 * mp + 2) div 5 + d - 1; mp' = (5 * doy + 2) div 153
    in 0 \<le> doy \<and> doy \<le> 365 \<and> mp' = mp \<and> doy - (153 * mp' + 2) div 5 + 1 = d) [1..[31, 30, 31, 30, 31, 31, 30, 31, 30, 31, 31, 29] ! nat mp]) [0..11::int]"
  by code_simp

lemma yoe_range:
  assumes "0 \<le> doe" "doe < 146097"
  shows "0 \<le> yoe_of doe" "yoe_of doe \<le> 399" "yoe_start (yoe_of doe) \<le> doe" "yoe_of doe < 399 \<Longrightarrow> doe < yoe_start (yoe_of doe + 1)"
proof -
  have "yoe_of 0 \<le> yoe_of doe" "yoe_of doe \<le> yoe_of 146096" using assms by (auto intro: yoe_mono)
  then show r: "0 \<le> yoe_of doe" "yoe_of doe \<le> 399" by (simp_all add: yoe_of_def)
  have s: "yoe_of (yoe_start y - 1) < y \<and> y \<le> yoe_of (yoe_start y)" if "1 \<le> y" "y \<le> 399" for y
    using yoe_steps that by (simp add: list_all_iff)
  show "yoe_start (yoe_of doe) \<le> doe"
  proof (rule ccontr)
    assume a: "\<not> yoe_start (yoe_of doe) \<le> doe"
    then have "1 \<le> yoe_of doe" using r(1) assms(1) by (cases "yoe_of doe = 0") (auto simp: yoe_start_def)
    then show False using s[of "yoe_of doe"] r(2) yoe_mono[of doe "yoe_start (yoe_of doe) - 1"] a by linarith
  qed
  show "doe < yoe_start (yoe_of doe + 1)" if "yoe_of doe < 399"
    using s[of "yoe_of doe + 1"] r(1) that yoe_mono[of "yoe_start (yoe_of doe + 1)" doe] by linarith
qed

lemma year_start_era: "0 \<le> y \<Longrightarrow> y < 400 \<Longrightarrow> year_start (y + era * 400) = yoe_start y + era * 146097"
proof -
  assume y: "0 \<le> y" "y < 400"
  have "(y + era * 400) div 4 = y div 4 + era * 100" "(y + era * 400) div 100 = y div 100 + era * 4" "(y + era * 400) div 400 = era"
    using y div_mult_self1[of 4 y "era * 100"] div_mult_self1[of 100 y "era * 4"] by simp_all
  then show ?thesis by (simp add: year_start_def yoe_start_def)
qed

lemma is_leap_era: "is_leap (y + era * 400) = is_leap y"
  using mod_mult_self1[of y "era * 100" 4] mod_mult_self1[of y "era * 4" 100] by (simp add: is_leap_def mult.commute)

text \<open>The parts of a day number: the year that starts in March, and the day of it.\<close>

lemma march_year:
  assumes "z = n + 719468"
  defines "era \<equiv> z div 146097"
  defines "doe \<equiv> z - era * 146097"
  defines "doy \<equiv> doe - yoe_start (yoe_of doe)"
  shows "n + 719468 = year_start (yoe_of doe + era * 400) + doy" "0 \<le> doy" "doy < 365 + (if is_leap (yoe_of doe + era * 400 + 1) then 1 else 0)"
proof -
  have "doe = z mod 146097" unfolding doe_def era_def by (simp add: minus_div_mult_eq_mod)
  then have d: "0 \<le> doe" "doe < 146097" by simp_all
  note r = yoe_range[OF d]
  show "n + 719468 = year_start (yoe_of doe + era * 400) + doy"
    unfolding doy_def using year_start_era[of "yoe_of doe" era] r(1,2) assms(1) by (simp add: doe_def)
  show "0 \<le> doy" using r(3) by (simp add: doy_def)
  have l: "is_leap (yoe_of doe + era * 400 + 1) = is_leap (yoe_of doe + 1)" using is_leap_era[of "yoe_of doe + 1" era] by (simp add: ac_simps)
  show "doy < 365 + (if is_leap (yoe_of doe + era * 400 + 1) then 1 else 0)"
  proof (cases "yoe_of doe < 399")
    case True
    have "yoe_start (yoe_of doe + 1) = yoe_start (yoe_of doe) + 365 + (if is_leap (yoe_of doe + 1) then 1 else 0)"
      using year_start_Suc[of "yoe_of doe + 1"] year_start_era[of "yoe_of doe + 1" 0] year_start_era[of "yoe_of doe" 0] r(1) True by simp
    then show ?thesis using r(4) True l by (simp add: doy_def)
  next
    case False
    then have "yoe_of doe = 399" using r(2) by simp
    then show ?thesis using d(2) l by (simp add: doy_def yoe_start_def is_leap_def)
  qed
qed

lemma day_of_march_year:
  assumes "0 \<le> doy" "doy < 365 + (if is_leap (y + 1) then 1 else 0)"
  defines "mp \<equiv> (5 * doy + 2) div 153"
  defines "d \<equiv> doy - (153 * mp + 2) div 5 + 1"
  defines "m \<equiv> (if mp < 10 then mp + 3 else mp - 9)"
  shows "valid_date (if m \<le> 2 then y + 1 else y, nat m, nat d) \<and> int (doy_of (nat m) (nat d)) = doy \<and> (m \<le> 2) = (10 \<le> mp)"
proof -
  have b: "doy \<in> {0..365}" using assms(1,2) by (auto split: if_splits)
  then have s: "0 \<le> mp" "mp \<le> 11" "1 \<le> d" "d \<le> [31, 30, 31, 30, 31, 31, 30, 31, 30, 31, 31, 29] ! nat mp"
    using doy_steps unfolding list_all_iff set_upto Let_def mp_def d_def by blast+
  have e: "doy = (153 * mp + 2) div 5 + d - 1" by (simp add: d_def)
  have mp: "mp \<in> {0, 1, 2, 3, 4, 5, 6, 7, 8, 9, 10, 11}" using s(1,2) unfolding insert_iff empty_iff by presburger
  show ?thesis using mp s(3,4) e assms(2)
    by (elim insertE emptyE) (auto simp: m_def valid_date_def days_in_month_def doy_of_def nat_le_iff split: if_splits)
qed

lemma civil_exact:
  obtains y m d where "civil_from_days n = (wrap32 y, m, d)" "valid_date (y, m, d)" "days_from_civil y m d = n"
proof -
  define z where "z = n + 719468"
  define era where "era = z div 146097"
  define doe where "doe = z - era * 146097"
  define doy where "doy = doe - yoe_start (yoe_of doe)"
  define y where "y = yoe_of doe + era * 400"
  define mp where "mp = (5 * doy + 2) div 153"
  define d where "d = doy - (153 * mp + 2) div 5 + 1"
  define m where "m = (if mp < 10 then mp + 3 else mp - 9)"
  have p: "n + 719468 = year_start y + doy" "0 \<le> doy" "doy < 365 + (if is_leap (y + 1) then 1 else 0)"
    using march_year[OF z_def] unfolding era_def[symmetric] doe_def[symmetric] doy_def[symmetric] y_def[symmetric] .
  have q: "valid_date (if m \<le> 2 then y + 1 else y, nat m, nat d)" "int (doy_of (nat m) (nat d)) = doy"
    using day_of_march_year[OF p(2,3)] unfolding mp_def[symmetric] d_def[symmetric] m_def[symmetric] by blast+
  have c: "civil_from_days n = (wrap32 (if m \<le> 2 then y + 1 else y), nat m, nat d)"
    unfolding civil_from_days_def Let_def yoe_of_def[symmetric] yoe_start_def[symmetric] z_def[symmetric] era_def[symmetric] doe_def[symmetric] doy_def[symmetric] mp_def[symmetric] d_def[symmetric] m_def[symmetric] y_def[symmetric] ..
  have "(nat m \<le> 2) = (m \<le> 2)" by (simp add: nat_le_iff)
  then have "days_from_civil (if m \<le> 2 then y + 1 else y) (nat m) (nat d) = n" using p(1) q(2) by (simp add: days_closed)
  then show thesis using c q(1) by (intro that)
qed

lemma year_start_mono: "a \<le> b \<Longrightarrow> year_start a + 365 * (b - a) \<le> year_start b"
proof (induction "nat (b - a)" arbitrary: b)
  case (Suc k)
  then have "year_start a + 365 * (b - 1 - a) \<le> year_start (b - 1)" by (intro Suc.hyps(1)) linarith+
  then show ?case using year_start_Suc[of b] by (simp split: if_splits)
qed simp

lemma doy_inverse:
  assumes "valid_date (y, m, d)"
  defines "a \<equiv> (if m \<le> 2 then y - 1 else y)"
  shows "int (doy_of m d) < 365 + (if is_leap (a + 1) then 1 else 0)"
    and "m = nat (let mp = (5 * int (doy_of m d) + 2) div 153 in if mp < 10 then mp + 3 else mp - 9)"
    and "d = nat (let mp = (5 * int (doy_of m d) + 2) div 153 in int (doy_of m d) - (153 * mp + 2) div 5 + 1)"
proof -
  define mp :: int where "mp = int (if 2 < m then m - 3 else m + 9)"
  have m: "m \<in> {1, 2, 3, 4, 5, 6, 7, 8, 9, 10, 11, 12}" and d: "1 \<le> d" "d \<le> days_in_month y m" using assms(1) month_cases[of m] by (auto simp: valid_date_def)
  have l: "int d \<le> [31, 30, 31, 30, 31, 31, 30, 31, 30, 31, 31, 29] ! nat mp" "mp \<in> {0..11}"
    using m d(2) by (elim insertE emptyE; simp add: mp_def days_in_month_def split: if_splits)+
  have e: "int (doy_of m d) = (153 * mp + 2) div 5 + int d - 1" using d(1) by (simp add: doy_of_def mp_def zdiv_int of_nat_diff)
  have "mp \<in> set [0..11]" "int d \<in> set [1..[31, 30, 31, 30, 31, 31, 30, 31, 30, 31, 31, 29] ! nat mp]" using l d(1) by simp_all
  then have s: "(5 * int (doy_of m d) + 2) div 153 = mp" "int (doy_of m d) - (153 * mp + 2) div 5 + 1 = int d"
    using month_steps unfolding list_all_iff Let_def e by metis+
  show "m = nat (let mp = (5 * int (doy_of m d) + 2) div 153 in if mp < 10 then mp + 3 else mp - 9)"
    unfolding Let_def s(1) using m by (auto simp: mp_def)
  show "d = nat (let mp = (5 * int (doy_of m d) + 2) div 153 in int (doy_of m d) - (153 * mp + 2) div 5 + 1)"
    unfolding Let_def s(1) s(2) by simp
  show "int (doy_of m d) < 365 + (if is_leap (a + 1) then 1 else 0)"
    using m d by (elim insertE emptyE; simp add: a_def doy_of_def days_in_month_def split: if_splits)
qed

lemma days_inj:
  assumes "valid_date (y, m, d)" "valid_date (y', m', d')" "days_from_civil y m d = days_from_civil y' m' d'"
  shows "(y, m, d) = (y', m', d')"
proof -
  define a b where "a = (if m \<le> 2 then y - 1 else y)" and "b = (if m' \<le> 2 then y' - 1 else y')"
  have l: "int (doy_of m d) < year_start (a + 1) - year_start a" "int (doy_of m' d') < year_start (b + 1) - year_start b"
    using doy_inverse(1)[OF assms(1)] doy_inverse(1)[OF assms(2)] year_start_Suc[of "a + 1"] year_start_Suc[of "b + 1"] by (simp_all add: a_def b_def split: if_splits)
  have e: "year_start a + int (doy_of m d) = year_start b + int (doy_of m' d')" using assms(3) by (simp add: days_closed a_def b_def)
  have "a = b" using l e year_start_mono[of "a + 1" b] year_start_mono[of "b + 1" a] by (cases "a < b"; cases "b < a") auto
  then have "doy_of m d = doy_of m' d'" using e by simp
  then have md: "m = m'" "d = d'" using doy_inverse(2,3)[OF assms(1)] doy_inverse(2,3)[OF assms(2)] by metis+
  then show ?thesis using \<open>a = b\<close> by (simp add: a_def b_def split: if_splits)
qed

lemma civil_of_date:
  assumes "valid_date (y, m, d)"
  shows "civil_from_days (days_from_civil y m d) = (wrap32 y, m, d)"
  using civil_exact[of "days_from_civil y m d"] days_inj[OF assms] by (metis prod.inject)

section \<open>The conversions are the calendar\<close>

lemma year_bound:
  assumes "days_from_civil y m d = n" "valid_date (y, m, d)" "- (2 ^ 36) \<le> n" "n \<le> 2 ^ 36"
  shows "- (2 ^ 30) \<le> y" "y < 2 ^ 30"
proof -
  define a where "a = (if m \<le> 2 then y - 1 else y)"
  have e: "year_start a + int (doy_of m d) = n + 719468" using assms(1) by (simp add: days_closed a_def)
  have d: "int (doy_of m d) < 366" using doy_inverse(1)[OF assms(2)] by (simp split: if_splits)
  have z: "year_start 0 = 0" by (simp add: year_start_def)
  have "365 * a \<le> year_start a \<or> a < 0" "year_start a \<le> 365 * a \<or> 0 < a" using year_start_mono[of 0 a] year_start_mono[of a 0] z by (simp_all, linarith+)
  then have "- (2 ^ 30) < a \<and> a < 2 ^ 30 - 1" using e d assms(3,4) by (cases "0 < a") auto
  then show "- (2 ^ 30) \<le> y" "y < 2 ^ 30" by (auto simp: a_def split: if_splits)
qed

lemma civil_in_range:
  assumes "- (2 ^ 36) \<le> n" "n \<le> 2 ^ 36"
  obtains y m d where "civil_from_days n = (y, m, d)" "valid_date (y, m, d)" "days_from_civil y m d = n" "- (2 ^ 30) \<le> y" "y < 2 ^ 30"
proof -
  obtain y m d where c: "civil_from_days n = (wrap32 y, m, d)" "valid_date (y, m, d)" "days_from_civil y m d = n" by (rule civil_exact)
  have b: "- (2 ^ 30) \<le> y" "y < 2 ^ 30" by (rule year_bound[OF c(3,2) assms])+
  then have "wrap32 y = y" by (intro wrap32_id) simp_all
  then show thesis using c b by (intro that) simp_all
qed

text \<open>C37: The conversion from day numbers to dates walks the calendar: day 0 is 1 January 1970, and the day after a day is the
  next date, with months of 28 to 31 days and leap years by the Gregorian rule. The conversion from dates is its inverse in both
  directions.\<close>

theorem civil_calendar_exact:
  assumes "- (2 ^ 36) \<le> n" "n < 2 ^ 36" "valid_date (y, m, d)" "- (2 ^ 31) \<le> y" "y < 2 ^ 31"
  shows "civil_from_days 0 = (1970, 1, 1) \<and> civil_from_days (n + 1) = next_date (civil_from_days n)
    \<and> valid_date (civil_from_days n) \<and> (case civil_from_days n of (y, m, d) \<Rightarrow> days_from_civil y m d) = n
    \<and> civil_from_days (days_from_civil y m d) = (y, m, d)"
proof -
  obtain a b c where n: "civil_from_days n = (a, b, c)" "valid_date (a, b, c)" "days_from_civil a b c = n" "- (2 ^ 30) \<le> a" "a < 2 ^ 30"
    using civil_in_range[of n] assms(1,2) by auto
  obtain a' b' c' where x: "next_date (a, b, c) = (a', b', c')" by (cases "next_date (a, b, c)")
  have v: "valid_date (a', b', c')" using next_valid[OF n(2)] by (simp add: x)
  have "days_from_civil a' b' c' = n + 1" using days_next[OF n(2)] n(3) by (simp add: x)
  then have s: "civil_from_days (n + 1) = (wrap32 a', b', c')" using civil_of_date[OF v] by simp
  have "a' \<in> {a, a + 1}" using x by (auto simp: next_date_def split: if_splits)
  then have "wrap32 a' = a'" using n(4,5) by (intro wrap32_id) auto
  moreover have "civil_from_days 0 = (1970, 1, 1)" by code_simp
  moreover have "wrap32 y = y" using assms(4,5) by (rule wrap32_id)
  ultimately show ?thesis using n s x civil_of_date[OF assms(3)] by simp
qed

theorem civil_calendar_exact_witness: "civil_from_days (11015 + 1) = (2000, 2, 29) \<and> civil_from_days (days_from_civil 2024 2 29) = (2024, 2, 29)"
proof -
  have v: "valid_date (2024, 2, 29)" by (simp add: valid_date_def days_in_month_def is_leap_def)
  have "civil_from_days 11015 = (2000, 2, 28)" by code_simp
  then show ?thesis using civil_calendar_exact[of 11015, OF _ _ v] by (simp add: next_date_def days_in_month_def is_leap_def)
qed

text \<open>The engine's conversions are the same on its 32-bit day numbers.\<close>

lemma eval_yoe: "int (((x - x div 1460) + x div 36524 - x div 146096) div 365) = yoe_of (int x)"
proof -
  have "x div 146096 \<le> x div 36524" by (rule div_le_mono2) simp_all
  then have "int ((x - x div 1460) + x div 36524 - x div 146096) = int x - int x div 1460 + int x div 36524 - int x div 146096"
    by (simp add: zdiv_int of_nat_diff)
  then show ?thesis unfolding yoe_of_def by (simp only: zdiv_int of_nat_numeral)
qed

lemma eval_civil_eq: "eval_civil_from_days n = civil_from_days n"
proof -
  define z where "z = n + 719468"
  define era where "era = z div 146097"
  define doe where "doe = z - era * 146097"
  define yoe where "yoe = yoe_of doe"
  define doy where "doy = doe - yoe_start yoe"
  define mp where "mp = (5 * doy + 2) div 153"
  define d where "d = doy - (153 * mp + 2) div 5 + 1"
  have "doe = z mod 146097" unfolding doe_def era_def by (simp add: minus_div_mult_eq_mod)
  then have r: "0 \<le> doe" "doe < 146097" by simp_all
  have y: "0 \<le> yoe" "yoe_start yoe \<le> doe" using yoe_range(1,3)[OF r] by (simp_all add: yoe_def)
  have p: "0 \<le> doy" "doy < 365 + (if is_leap (yoe + era * 400 + 1) then 1 else 0)"
    using march_year(2,3)[OF z_def] unfolding era_def[symmetric] doe_def[symmetric] yoe_def[symmetric] doy_def[symmetric] .
  then have "doy \<in> {0..365}" by (auto split: if_splits)
  then have q: "0 \<le> mp" "mp \<le> 11" "1 \<le> d" using doy_steps unfolding list_all_iff set_upto Let_def mp_def d_def by blast+
  have yn: "((nat doe - nat doe div 1460) + nat doe div 36524 - nat doe div 146096) div 365 = nat yoe"
    using eval_yoe[of "nat doe"] r(1) unfolding yoe_def by (metis nat_int int_nat_eq)
  have "nat yoe div 100 \<le> nat yoe div 4" by (rule div_le_mono2) simp_all
  then have "int (365 * nat yoe + nat yoe div 4 - nat yoe div 100) = yoe_start yoe" using y(1) by (simp add: yoe_start_def zdiv_int of_nat_diff)
  then have dn: "nat doe - (365 * nat yoe + nat yoe div 4 - nat yoe div 100) = nat doy" using y(2) r(1) unfolding doy_def by linarith
  have mn: "(5 * nat doy + 2) div 153 = nat mp" using p(1) by (simp add: mp_def nat_div_distrib nat_add_distrib nat_mult_distrib)
  have tn: "(nat doy - (153 * nat mp + 2) div 5) + 1 = nat d"
  proof -
    have "int ((153 * nat mp + 2) div 5) = (153 * mp + 2) div 5" using q(1) by (simp add: zdiv_int)
    then show ?thesis using q(3) p(1) unfolding d_def by linarith
  qed
  have kn: "(if nat mp < 10 then nat mp + 3 else nat mp - 9) = nat (if mp < 10 then mp + 3 else mp - 9)" using q(1) by auto
  have k: "(nat (if mp < 10 then mp + 3 else mp - 9) \<le> 2) = ((if mp < 10 then mp + 3 else mp - 9) \<le> 2)" by (simp add: nat_le_iff)
  have "civil_from_days n = (wrap32 (if (if mp < 10 then mp + 3 else mp - 9) \<le> 2 then yoe + era * 400 + 1 else yoe + era * 400), nat (if mp < 10 then mp + 3 else mp - 9), nat d)"
    unfolding civil_from_days_def Let_def yoe_of_def[symmetric] yoe_start_def[symmetric] z_def[symmetric] era_def[symmetric] doe_def[symmetric] yoe_def[symmetric] doy_def[symmetric] mp_def[symmetric] d_def[symmetric] ..
  moreover have "eval_civil_from_days n = (wrap32 (if (if mp < 10 then mp + 3 else mp - 9) \<le> 2 then yoe + era * 400 + 1 else yoe + era * 400), nat (if mp < 10 then mp + 3 else mp - 9), nat d)"
    unfolding eval_civil_from_days_def Let_def z_def[symmetric] era_def[symmetric] doe_def[symmetric] yn dn mn tn kn k using y(1) by simp
  ultimately show ?thesis by simp
qed

lemma eval_days_eq:
  assumes "1 \<le> d"
  shows "eval_days_from_civil y m d = unwrap_or (i32_try_from (days_from_civil y m d)) I32_MAX"
proof -
  define a where "a = (if m \<le> 2 then y - 1 else y)"
  define yoe where "yoe = a - a div 400 * 400"
  have "yoe = a mod 400" by (simp add: yoe_def minus_div_mult_eq_mod)
  then have y: "0 \<le> yoe" by simp
  have "nat yoe div 100 \<le> nat yoe div 4" by (rule div_le_mono2) simp_all
  then have i: "int (nat yoe * 365 + nat yoe div 4 - nat yoe div 100 + k) = yoe * 365 + yoe div 4 - yoe div 100 + int k" for k
    using y by (simp add: zdiv_int of_nat_diff)
  have "(153 * (if 2 < m then m - 3 else m + 9) + 2) div 5 + (d - 1) = (153 * (if 2 < m then m - 3 else m + 9) + 2) div 5 + d - 1" using assms by simp
  then show ?thesis unfolding eval_days_from_civil_def days_from_civil_def Let_def a_def[symmetric] yoe_def[symmetric] i by simp
qed

section \<open>Months\<close>

text \<open>Adding months moves by exactly that many months and keeps the day, or takes the last day of a shorter month.\<close>

lemma add_months_exact:
  assumes "valid_date (y, m, d)" "I32_MIN \<le> (y * 12 + int m - 1 + k) div 12" "(y * 12 + int m - 1 + k) div 12 \<le> I32_MAX"
    and "add_months_to_civil y m d k = (y', m', d')"
  shows "valid_date (y', m', d') \<and> y' * 12 + int m' = y * 12 + int m + k \<and> d' = min d (days_in_month y' m')"
proof -
  define t where "t = y * 12 + int m - 1 + k"
  have e: "y' = t div 12" "m' = nat (t mod 12) + 1" "d' = min d (days_in_month y' m')"
    using assms(2-4) by (auto simp: add_months_to_civil_def Let_def t_def i32_try_from_def unwrap_or_def eval_days_in_month_eq)
  have "1 \<le> days_in_month y' m'" by (simp add: days_in_month_def)
  moreover have "0 \<le> t mod 12" "t mod 12 < 12" by simp_all
  moreover have "t = 12 * (t div 12) + t mod 12" by simp
  moreover from calculation have "1 \<le> m'" "m' \<le> 12" "y' * 12 + int m' = t + 1" unfolding e by linarith+
  ultimately show ?thesis using assms(1) e(3) unfolding valid_date_def by (auto simp: t_def)
qed

end
