(* ===== verification/Date_Text.thy ===== *)
theory Date_Text
  imports Civil Decimal_Text
begin

text \<open>
  Dates as text (\<open>format_date\<close> and \<open>parse_date_literal\<close> of \<open>spg-engine/src/eval/format.rs\<close>): the ISO form with its
  era, the compact form, Julian days, ordinal days, month names and the three field orders. Text is ASCII.
  What is printed is read back, up to the leap days before the common era.
\<close>

section \<open>Text\<close>

definition char_lower :: "char \<Rightarrow> char" where
  "char_lower c = (if 65 \<le> (of_char c :: nat) \<and> (of_char c :: nat) \<le> 90 then char_of (of_char c + 32 :: nat) else c)"

definition eq_ignore_case :: "string \<Rightarrow> string \<Rightarrow> bool" where
  "eq_ignore_case a b = (map char_lower a = map char_lower b)"

definition is_alphabetic :: "char \<Rightarrow> bool" where
  "is_alphabetic c = (65 \<le> (of_char c :: nat) \<and> (of_char c :: nat) \<le> 90 \<or> 97 \<le> (of_char c :: nat) \<and> (of_char c :: nat) \<le> 122)"

definition all_digits :: "string \<Rightarrow> bool" where "all_digits s = list_all is_ascii_digit s"

definition strip_suffix :: "string \<Rightarrow> string \<Rightarrow> string option" where
  "strip_suffix s t = (if length t \<le> length s \<and> drop (length s - length t) s = t then Some (take (length s - length t) s) else None)"

definition split_first :: "(char \<Rightarrow> bool) \<Rightarrow> string \<Rightarrow> (string \<times> string) option" where
  "split_first p s = (case dropWhile (\<lambda>c. \<not> p c) s of [] \<Rightarrow> None | _ # r \<Rightarrow> Some (takeWhile (\<lambda>c. \<not> p c) s, r))"

fun split_on :: "(char \<Rightarrow> bool) \<Rightarrow> string \<Rightarrow> string list" where
  "split_on p [] = [[]]"
| "split_on p (c # s) = (if p c then [] # split_on p s else (case split_on p s of w # ws \<Rightarrow> (c # w) # ws | [] \<Rightarrow> [[c]]))"

definition parse_i32 :: "string \<Rightarrow> int option" where "parse_i32 s = i32_try_from (int (parse_u32 s))"

definition pad_zeros :: "nat \<Rightarrow> nat \<Rightarrow> string" where
  "pad_zeros w n = replicate (w - length (dec_string n)) (CHR ''0'') @ dec_string n"

section \<open>Printing\<close>

definition ymd_text :: "int \<Rightarrow> nat \<Rightarrow> nat \<Rightarrow> string" where
  "ymd_text y m d = pad_zeros 4 (nat y) @ ''-'' @ pad_zeros 2 m @ ''-'' @ pad_zeros 2 d"

definition format_date :: "int \<Rightarrow> string" where
  "format_date days =
     (if days = I32_MAX then ''infinity''
      else if days = I32_MIN then ''-infinity''
      else (case eval_civil_from_days days of
              (y, m, d) \<Rightarrow> if y \<le> 0 then ymd_text (1 - y) m d @ '' BC'' else ymd_text y m d))"

section \<open>Parsing\<close>

datatype date_order = Mdy | Dmy | Ymd

definition date_days_in_pg_range :: "int \<Rightarrow> bool" where
  "date_days_in_pg_range days =
     (if days = I32_MAX \<or> days = I32_MIN then True
      else (case eval_civil_from_days days of
              (y, m, d) \<Rightarrow>
                if 5874897 < y then False
                else if y < - 4713 then False
                else if y = - 4713 then 11 < m \<or> m = 11 \<and> 24 \<le> d
                else True))"

definition MONTH_FULL :: "string list" where
  "MONTH_FULL = [''January'', ''February'', ''March'', ''April'', ''May'', ''June'', ''July'', ''August'', ''September'',
     ''October'', ''November'', ''December'']"

definition MONTH_ABBR :: "string list" where
  "MONTH_ABBR = [''Jan'', ''Feb'', ''Mar'', ''Apr'', ''May'', ''Jun'', ''Jul'', ''Aug'', ''Sep'', ''Oct'', ''Nov'', ''Dec'']"

fun position_of :: "('a \<Rightarrow> bool) \<Rightarrow> 'a list \<Rightarrow> nat option" where
  "position_of p [] = None"
| "position_of p (x # xs) = (if p x then Some 0 else map_option Suc (position_of p xs))"

definition month_of :: "string \<Rightarrow> nat option" where
  "month_of t =
     map_option (\<lambda>i. i + 1)
       (case position_of (\<lambda>a. eq_ignore_case a t) MONTH_ABBR of Some i \<Rightarrow> Some i | None \<Rightarrow> position_of (\<lambda>f. eq_ignore_case f t) MONTH_FULL)"

text \<open>The day number of fields that passed the range checks.\<close>

definition checked_days :: "int \<Rightarrow> nat \<Rightarrow> nat \<Rightarrow> int option" where
  "checked_days y m d =
     (if \<not> (1 \<le> m \<and> m \<le> 12) \<or> d < 1 \<or> eval_days_in_month y m < d then None else Some (eval_days_from_civil y m d))"

fun month_tokens :: "string list \<Rightarrow> nat option \<Rightarrow> string list \<Rightarrow> (nat option \<times> string list) option" where
  "month_tokens [] month nums = Some (month, nums)"
| "month_tokens (t # ts) month nums =
     (case month_of t of
        Some m \<Rightarrow> if month \<noteq> None then None else month_tokens ts (Some m) nums
      | None \<Rightarrow> if all_digits t then month_tokens ts month (nums @ [t]) else None)"

definition parse_month_name_date :: "string \<Rightarrow> date_order \<Rightarrow> int option" where
  "parse_month_name_date s order =
     (let tokens = filter (\<lambda>t. t \<noteq> []) (split_on (\<lambda>c. c \<in> {CHR '' '', CHR '','', CHR ''-''}) s)
      in if length tokens \<noteq> 3 then None
         else (case month_tokens tokens None [] of
                 Some (Some m, [n0, n1]) \<Rightarrow>
                   (let pick = (\<lambda>ys ds.
                          (case parse_i32 ys of
                             None \<Rightarrow> None
                           | Some y \<Rightarrow>
                               checked_days (if length ys \<le> 2 then y + (if y < 70 then 2000 else 1900) else y) m (parse_u32 ds)))
                    in if 3 \<le> length n0 \<and> 3 \<le> length n1 then None
                       else if 3 \<le> length n0 then pick n0 n1
                       else if 3 \<le> length n1 then pick n1 n0
                       else if order = Ymd then pick n0 n1 else pick n1 n0)
               | _ \<Rightarrow> None))"

definition is_sep :: "char \<Rightarrow> bool" where "is_sep c = (c \<in> {CHR ''-'', CHR ''/'', CHR ''.''})"

text \<open>The ordinal form; the outer \<open>None\<close> goes on with the other forms.\<close>

definition parse_ordinal :: "string \<Rightarrow> int option option" where
  "parse_ordinal s =
     (case split_first is_sep s of
        None \<Rightarrow> None
      | Some (ya, dd) \<Rightarrow>
          if 3 \<le> length ya \<and> length dd = 3 \<and> \<not> list_ex (\<lambda>c. is_sep c \<or> c = CHR '' '') dd \<and> all_digits ya \<and> all_digits dd then
            (case parse_i32 ya of
               None \<Rightarrow> Some None
             | Some y \<Rightarrow>
                 (let doy = int (parse_u32 dd)
                  in if y \<noteq> 0 \<and> 1 \<le> doy \<and> doy \<le> 366 then
                       (let days = wrap32 (eval_days_from_civil y 1 1 + doy - 1)
                        in if fst (eval_civil_from_days days) = y then Some (Some days) else Some None)
                     else None))
          else None)"

definition expand_year :: "string \<Rightarrow> int option" where
  "expand_year t =
     (if length t = 4 then parse_i32 t
      else if length t = 1 \<or> length t = 2 then
        (case parse_i32 t of None \<Rightarrow> None | Some n \<Rightarrow> Some (if n < 70 then 2000 + n else 1900 + n))
      else None)"

definition parse_numeric :: "string \<Rightarrow> date_order \<Rightarrow> int option" where
  "parse_numeric s order =
     (case split_first is_sep s of
        None \<Rightarrow> None
      | Some (fa, s1) \<Rightarrow>
          (case split_first is_sep s1 of
             None \<Rightarrow> None
           | Some (fb, fc) \<Rightarrow>
               if list_ex (\<lambda>c. is_sep c \<or> c = CHR '' '') fc then None
               else if list_ex (\<lambda>p. p = [] \<or> \<not> all_digits p) [fa, fb, fc] then None
               else if 3 \<le> length fa \<and> length fb \<le> 2 \<and> length fc \<le> 2 then
                 (case parse_i32 fa of
                    None \<Rightarrow> None
                  | Some y \<Rightarrow> if y = 0 then None else checked_days y (parse_u32 fb) (parse_u32 fc))
               else
                 (case (case order of Mdy \<Rightarrow> (fc, fa, fb) | Dmy \<Rightarrow> (fc, fb, fa) | Ymd \<Rightarrow> (fa, fb, fc)) of
                    (ys, ms, ds) \<Rightarrow>
                      if 2 < length ms \<or> 2 < length ds then None
                      else (case expand_year ys of
                              None \<Rightarrow> None
                            | Some y \<Rightarrow> checked_days y (parse_u32 ms) (parse_u32 ds)))))"

definition parse_forms :: "string \<Rightarrow> date_order \<Rightarrow> int option" where
  "parse_forms s order =
     (if eq_ignore_case s ''epoch'' then Some (eval_days_from_civil 1970 1 1)
      else if eq_ignore_case s ''infinity'' \<or> eq_ignore_case s ''+infinity'' then Some I32_MAX
      else if eq_ignore_case s ''-infinity'' then Some I32_MIN
      else if length s = 8 \<and> all_digits s then
        (case parse_i32 (take 4 s) of
           None \<Rightarrow> None
         | Some y \<Rightarrow> checked_days y (parse_u32 (take 2 (drop 4 s))) (parse_u32 (drop 6 s)))
      else if list_ex is_alphabetic s then
        (case s of
           c # jd \<Rightarrow>
             if c \<in> {CHR ''J'', CHR ''j''} \<and> jd \<noteq> [] \<and> all_digits jd then
               (if int (parse_u32 jd) < 2 ^ 63 then i32_try_from (int (parse_u32 jd) - 2440588) else None)
             else parse_month_name_date s order
         | [] \<Rightarrow> parse_month_name_date s order)
      else (case parse_ordinal s of Some r \<Rightarrow> r | None \<Rightarrow> parse_numeric s order))"

definition strip_era :: "string list \<Rightarrow> string \<Rightarrow> string option" where
  "strip_era ts s = List.find (\<lambda>_. True) (List.map_filter (strip_suffix s) ts)"

lemma strip_suffix_shorter: "strip_suffix s t = Some b \<Longrightarrow> length b + length t = length s"
  by (auto simp: strip_suffix_def split: if_splits)

lemma strip_era_shorter: "strip_era ts s = Some b \<Longrightarrow> \<forall>t\<in>set ts. t \<noteq> [] \<Longrightarrow> length b < length s"
proof -
  assume a: "strip_era ts s = Some b" "\<forall>t\<in>set ts. t \<noteq> []"
  then have "b \<in> set (List.map_filter (strip_suffix s) ts)" by (auto simp: strip_era_def find_Some_iff)
  then obtain t where "t \<in> set ts" "strip_suffix s t = Some b" by (auto simp: map_filter_def)
  then have "t \<noteq> []" "length b + length t = length s" using a(2) strip_suffix_shorter[of s t b] by blast+
  then show ?thesis by (cases t) simp_all
qed

lemma str_trim_shorter: "length (str_trim s) \<le> length s"
  unfolding str_trim_def by (metis length_rev length_dropWhile_le order_trans)

function parse_date_literal_unranged :: "string \<Rightarrow> date_order \<Rightarrow> int option" where
  "parse_date_literal_unranged s0 order =
     (let s = str_trim s0
      in case strip_era ['' BC'', '' bc'', '' Bc''] s of
           Some base \<Rightarrow>
             (case parse_date_literal_unranged base order of
                None \<Rightarrow> None
              | Some days \<Rightarrow> (case eval_civil_from_days days of (y, m, d) \<Rightarrow> if y < 1 then None else Some (eval_days_from_civil (1 - y) m d)))
         | None \<Rightarrow>
             (case strip_era ['' AD'', '' ad''] s of
                Some base \<Rightarrow>
                  (case parse_date_literal_unranged base order of
                     None \<Rightarrow> None
                   | Some days \<Rightarrow> if date_days_in_pg_range days then Some days else None)
              | None \<Rightarrow> parse_forms s order))"
  by pat_completeness auto
termination
  by (relation "measure (length \<circ> fst)") (use strip_era_shorter str_trim_shorter in \<open>fastforce intro: less_le_trans\<close>)+

declare parse_date_literal_unranged.simps [simp del]

definition parse_date_literal_ordered :: "string \<Rightarrow> date_order \<Rightarrow> int option" where
  "parse_date_literal_ordered s order =
     (case parse_date_literal_unranged s order of None \<Rightarrow> None | Some d \<Rightarrow> if date_days_in_pg_range d then Some d else None)"

definition parse_date_literal :: "string \<Rightarrow> int option" where
  "parse_date_literal s = parse_date_literal_ordered s Mdy"

section \<open>What is printed is read back\<close>

lemma pad_zeros_correct:
  "parse_u32 (pad_zeros w n) = n" "all_digits (pad_zeros w n)" "w \<le> length (pad_zeros w n)" "pad_zeros w n \<noteq> []"
  "n < 10 ^ w \<Longrightarrow> 0 < w \<Longrightarrow> length (pad_zeros w n) = w"
proof -
  note d = dec_string_correct[of n]
  show "parse_u32 (pad_zeros w n) = n" "all_digits (pad_zeros w n)" "w \<le> length (pad_zeros w n)" "pad_zeros w n \<noteq> []"
    using d by (auto simp: pad_zeros_def all_digits_def parse_append list_all_iff)
  show "n < 10 ^ w \<Longrightarrow> 0 < w \<Longrightarrow> length (pad_zeros w n) = w"
    using dec_string_length[of n w] by (simp add: pad_zeros_def)
qed

lemma digit_char_facts: "is_ascii_digit c \<Longrightarrow> \<not> is_sep c \<and> \<not> is_alphabetic c \<and> \<not> is_whitespace c \<and> c \<noteq> CHR '' '' \<and> char_lower c = c"
  by (auto simp: is_ascii_digit_def is_sep_def is_alphabetic_def is_whitespace_def char_lower_def)

lemma split_first_digits: "all_digits a \<Longrightarrow> split_first is_sep (a @ CHR ''-'' # r) = Some (a, r)"
  by (induction a) (auto simp: all_digits_def split_first_def digit_char_facts is_sep_def[of "CHR ''-''"] split: list.splits)

lemma eq_ignore_digit:
  assumes "is_ascii_digit c" "\<not> is_ascii_digit (char_lower k)"
  shows "\<not> eq_ignore_case (c # r) (k # t)"
  using assms digit_char_facts[of c] by (auto simp: eq_ignore_case_def)

lemma month_bounds: "valid_date (y, m, d) \<Longrightarrow> m < 100 \<and> d < 100"
  by (auto simp: valid_date_def days_in_month_def split: if_splits)

lemma ymd_digits:
  obtains c r where "ymd_text y m d = c # r" "is_ascii_digit c"
  using pad_zeros_correct(2,4)[of 4 "nat y"] by (cases "pad_zeros 4 (nat y)") (auto simp: ymd_text_def all_digits_def)

lemma ymd_last: "is_ascii_digit (last (ymd_text y m d))"
  using pad_zeros_correct(2,4)[of 2 d] by (simp add: ymd_text_def all_digits_def list_all_iff)

lemma parse_ymd:
  assumes "m < 100" "d < 100" "1 \<le> y" "y \<le> I32_MAX"
  shows "parse_forms (ymd_text y m d) order = checked_days y m d"
proof -
  let ?s = "ymd_text y m d"
  obtain c r where s: "?s = c # r" "is_ascii_digit c" by (rule ymd_digits)
  have e: "\<not> eq_ignore_case ?s ''epoch''" "\<not> eq_ignore_case ?s ''infinity''" "\<not> eq_ignore_case ?s ''+infinity''" "\<not> eq_ignore_case ?s ''-infinity''"
    unfolding s(1) by (rule eq_ignore_digit[OF s(2)]; simp add: char_lower_def is_ascii_digit_def)+
  have n: "\<not> all_digits ?s" by (simp add: ymd_text_def all_digits_def is_ascii_digit_def)
  have a: "\<not> list_ex is_alphabetic ?s"
    using pad_zeros_correct(2)[of 4 "nat y"] pad_zeros_correct(2)[of 2 m] pad_zeros_correct(2)[of 2 d] digit_char_facts
    by (auto simp: ymd_text_def list_ex_iff all_digits_def list_all_iff is_alphabetic_def[of "CHR ''-''"])
  have b: "length (pad_zeros 2 m) = 2" "length (pad_zeros 2 d) = 2" using assms(1,2) by (simp_all add: pad_zeros_correct(5))
  have f1: "split_first is_sep ?s = Some (pad_zeros 4 (nat y), pad_zeros 2 m @ CHR ''-'' # pad_zeros 2 d)"
    unfolding ymd_text_def using split_first_digits[OF pad_zeros_correct(2)[of 4 "nat y"]] by simp
  have f2: "split_first is_sep (pad_zeros 2 m @ CHR ''-'' # pad_zeros 2 d) = Some (pad_zeros 2 m, pad_zeros 2 d)"
    by (rule split_first_digits[OF pad_zeros_correct(2)])
  have o1: "parse_ordinal ?s = None" using b by (simp add: parse_ordinal_def f1)
  have i: "parse_i32 (pad_zeros 4 (nat y)) = Some y" using assms(3,4) by (simp add: parse_i32_def pad_zeros_correct i32_try_from_def I32_MIN_def)
  have sp: "\<not> list_ex (\<lambda>c. is_sep c \<or> c = CHR '' '') (pad_zeros 2 d)"
    using pad_zeros_correct(2)[of 2 d] digit_char_facts by (auto simp: list_ex_iff all_digits_def list_all_iff)
  have l: "3 \<le> length (pad_zeros 4 (nat y))" using pad_zeros_correct(3)[of 4 "nat y"] by linarith
  have "parse_numeric ?s order = checked_days y m d"
    unfolding parse_numeric_def f1 using f2 sp b i l assms(3) by (simp add: pad_zeros_correct(1,2,4))
  then show ?thesis using e n a o1 by (simp add: parse_forms_def)
qed

lemma strip_suffix_append: "strip_suffix (s @ t) t = Some s"
  by (simp add: strip_suffix_def)

lemma strip_suffix_last: "t \<noteq> [] \<Longrightarrow> last s \<noteq> last t \<Longrightarrow> strip_suffix s t = None"
  by (auto simp: strip_suffix_def) (metis append_take_drop_id last_append)

lemma plain_unranged:
  assumes "s \<noteq> []" "\<not> is_whitespace (hd s)" "\<not> is_whitespace (last s)" "last s \<notin> {CHR ''C'', CHR ''c'', CHR ''D'', CHR ''d''}"
  shows "parse_date_literal_unranged s order = parse_forms s order"
  using assms by (simp add: parse_date_literal_unranged.simps[of s] str_trim_idem strip_era_def map_filter_def strip_suffix_last)

lemma unranged_ymd:
  assumes "m < 100" "d < 100" "1 \<le> y" "y \<le> I32_MAX"
  shows "parse_date_literal_unranged (ymd_text y m d) order = checked_days y m d"
proof -
  obtain c r where s: "ymd_text y m d = c # r" "is_ascii_digit c" by (rule ymd_digits)
  have l: "is_ascii_digit (last (ymd_text y m d))" by (rule ymd_last)
  then have "last (ymd_text y m d) \<notin> {CHR ''C'', CHR ''c'', CHR ''D'', CHR ''d''}" by (auto simp: is_ascii_digit_def)
  then show ?thesis using plain_unranged[of "ymd_text y m d" order] parse_ymd[OF assms, of order] s l digit_char_facts by simp
qed

lemma unranged_bc:
  assumes "m < 100" "d < 100" "1 \<le> y" "y \<le> I32_MAX"
  shows "parse_date_literal_unranged (ymd_text y m d @ '' BC'') order =
    (case checked_days y m d of None \<Rightarrow> None
     | Some days \<Rightarrow> (case eval_civil_from_days days of (y, m, d) \<Rightarrow> if y < 1 then None else Some (eval_days_from_civil (1 - y) m d)))"
proof -
  obtain c r where s: "ymd_text y m d = c # r" "is_ascii_digit c" by (rule ymd_digits)
  have t: "str_trim (ymd_text y m d @ '' BC'') = ymd_text y m d @ '' BC''"
    using s digit_char_facts[of c] by (intro str_trim_idem) (simp_all add: is_whitespace_def)
  have e: "strip_era ['' BC'', '' bc'', '' Bc''] (ymd_text y m d @ '' BC'') = Some (ymd_text y m d)"
    using strip_suffix_append[of "ymd_text y m d" "'' BC''"] by (simp add: strip_era_def map_filter_def)
  show ?thesis by (subst parse_date_literal_unranged.simps) (simp add: Let_def t e unranged_ymd[OF assms])
qed

lemma civil_in_i32:
  assumes "I32_MIN \<le> n" "n \<le> I32_MAX"
  obtains y m d where "eval_civil_from_days n = (y, m, d)" "valid_date (y, m, d)" "days_from_civil y m d = n" "eval_days_from_civil y m d = n"
proof -
  have "- (2 ^ 36) \<le> n" "n \<le> 2 ^ 36" using assms by (simp_all add: I32_MIN_def I32_MAX_def)
  then obtain y m d where c: "civil_from_days n = (y, m, d)" "valid_date (y, m, d)" "days_from_civil y m d = n" by (rule civil_in_range)
  moreover have "eval_days_from_civil y m d = n" using c(2,3) assms by (simp add: eval_days_eq valid_date_def i32_try_from_def unwrap_or_def)
  ultimately show thesis by (intro that[of y m d]) (simp_all add: eval_civil_eq)
qed

lemma int_div_le_self: "0 \<le> a \<Longrightarrow> 0 < k \<Longrightarrow> a div k \<le> (a::int)"
  using zdiv_mono2[of a 1 k] by simp

lemma small_years:
  assumes "valid_date (y, m, d)" "1 \<le> y" "y \<le> 5000"
  shows "eval_civil_from_days (eval_days_from_civil y m d) = (y, m, d)"
proof -
  define a where "a = (if m \<le> 2 then y - 1 else y)"
  have a: "0 \<le> a" "a \<le> 5000" using assms(2,3) by (auto simp: a_def)
  have "a div 4 \<le> a" "0 \<le> a div 100" "a div 400 \<le> a" "0 \<le> a div 4" "0 \<le> a div 400" "a div 100 \<le> a" using a(1) by (simp_all add: pos_imp_zdiv_nonneg_iff int_div_le_self)
  then have "- 5000 \<le> year_start a" "year_start a \<le> 367 * 5000" using a by (simp_all add: year_start_def)
  moreover have "int (doy_of m d) < 366" using doy_inverse(1)[OF assms(1)] by (simp split: if_splits)
  ultimately have "I32_MIN \<le> days_from_civil y m d" "days_from_civil y m d \<le> I32_MAX" by (simp_all add: days_closed a_def[symmetric] I32_MIN_def I32_MAX_def)
  then have "eval_days_from_civil y m d = days_from_civil y m d" using assms(1) by (simp add: eval_days_eq valid_date_def i32_try_from_def unwrap_or_def)
  moreover have "wrap32 y = y" using assms(2,3) by (intro wrap32_id) simp_all
  ultimately show ?thesis using civil_of_date[OF assms(1)] by (simp add: eval_civil_eq)
qed

lemma finite_date_text:
  assumes n: "I32_MIN < n" "n < I32_MAX" and c: "eval_civil_from_days n = (y, m, d)" "- 4713 \<le> y" "y \<le> 5874897"
  shows "parse_date_literal_unranged (format_date n) order = (if y \<le> 0 \<and> m = 2 \<and> d = 29 then None else Some n)"
proof -
  have v: "valid_date (y, m, d)" "eval_days_from_civil y m d = n"
    using civil_in_i32[of n] n c(1) by (metis less_imp_le prod.inject)+
  have b: "m < 100" "d < 100" using month_bounds[OF v(1)] by simp_all
  show ?thesis
  proof (cases "y \<le> 0")
    case False
    then have "checked_days y m d = Some n" using v by (simp add: checked_days_def valid_date_def eval_days_in_month_eq)
    then show ?thesis using False n c unranged_ymd[OF b, of y order] by (simp add: format_date_def I32_MAX_def)
  next
    case True
    have f: "format_date n = ymd_text (1 - y) m d @ '' BC''" using True n c(1) by (simp add: format_date_def)
    have p: "parse_date_literal_unranged (format_date n) order = (case checked_days (1 - y) m d of None \<Rightarrow> None
       | Some days \<Rightarrow> (case eval_civil_from_days days of (y, m, d) \<Rightarrow> if y < 1 then None else Some (eval_days_from_civil (1 - y) m d)))"
      unfolding f using True c(2) by (intro unranged_bc[OF b]) (simp_all add: I32_MAX_def)
    show ?thesis
    proof (cases "m = 2 \<and> d = 29")
      case leap: True
      then have "is_leap y" using v(1) by (auto simp: valid_date_def days_in_month_def split: if_splits)
      then have "y mod 4 = 0" using dvd_trans[of 4 400 y] by (auto simp: is_leap_def mod_eq_0_iff_dvd)
      then have "(1 - y) mod 4 \<noteq> 0" by presburger
      then have "\<not> is_leap (1 - y)" using dvd_trans[of 4 400 "1 - y"] by (auto simp: is_leap_def mod_eq_0_iff_dvd)
      then have "checked_days (1 - y) m d = None" using leap by (simp add: checked_days_def eval_days_in_month_eq days_in_month_def)
      then show ?thesis using p True leap by simp
    next
      case False
      then have v': "valid_date (1 - y, m, d)" using v(1) by (auto simp: valid_date_def days_in_month_def split: if_splits)
      then have "eval_civil_from_days (eval_days_from_civil (1 - y) m d) = (1 - y, m, d)" using True c(2) by (intro small_years) simp_all
      moreover have "checked_days (1 - y) m d = Some (eval_days_from_civil (1 - y) m d)"
        using v' by (simp add: checked_days_def valid_date_def eval_days_in_month_eq)
      ultimately show ?thesis using p v(2) True False by simp
    qed
  qed
qed

text \<open>C38: A date printed is read back as the same day number, whatever the field order in force, for every day in the range of the
  type and the two infinities, with one exception: the leap days before the common era are printed and not read back.\<close>

theorem date_text_roundtrip:
  assumes "I32_MIN \<le> n" "n \<le> I32_MAX" "date_days_in_pg_range n"
  shows "parse_date_literal_ordered (format_date n) order =
    (case eval_civil_from_days n of (y, m, d) \<Rightarrow> if y \<le> 0 \<and> m = 2 \<and> d = 29 then None else Some n)"
proof -
  obtain y m d where c: "eval_civil_from_days n = (y, m, d)" by (cases "eval_civil_from_days n")
  consider "n = I32_MAX" | "n = I32_MIN" | "I32_MIN < n" "n < I32_MAX" using assms(1,2) by linarith
  then show ?thesis
  proof cases
    case 1
    have "parse_date_literal_unranged ''infinity'' order = Some I32_MAX"
      by (subst plain_unranged) (simp_all add: is_whitespace_def parse_forms_def eq_ignore_case_def char_lower_def)
    moreover have "eval_civil_from_days I32_MAX = (5881580, 7, 11)" unfolding eval_civil_eq by code_simp
    ultimately show ?thesis using assms(3) by (simp add: 1 parse_date_literal_ordered_def format_date_def)
  next
    case 2
    have "parse_date_literal_unranged ''-infinity'' order = Some I32_MIN"
      by (subst plain_unranged) (simp_all add: is_whitespace_def parse_forms_def eq_ignore_case_def char_lower_def)
    moreover have "eval_civil_from_days I32_MIN = (- 5877641, 6, 23)" unfolding eval_civil_eq by code_simp
    moreover have "I32_MIN \<noteq> I32_MAX" by (simp add: I32_MIN_def I32_MAX_def)
    ultimately show ?thesis using assms(3) by (simp add: 2 parse_date_literal_ordered_def format_date_def)
  next
    case 3
    then have "- 4713 \<le> y" "y \<le> 5874897" using assms(3) c by (auto simp: date_days_in_pg_range_def split: if_splits)
    then show ?thesis using finite_date_text[OF 3 c, of order] assms(3) by (simp add: parse_date_literal_ordered_def c)
  qed
qed

theorem date_text_roundtrip_witness:
  "parse_date_literal_ordered (format_date 19782) Dmy = Some 19782 \<and> parse_date_literal_ordered (format_date (- 719469)) Mdy = None
    \<and> eval_civil_from_days (- 719469) = (0, 2, 29)"
proof -
  have c: "eval_civil_from_days 19782 = (2024, 2, 29)" "eval_civil_from_days (- 719469) = (0, 2, 29)" unfolding eval_civil_eq by code_simp+
  then have r: "date_days_in_pg_range 19782" "date_days_in_pg_range (- 719469)" by (simp_all add: date_days_in_pg_range_def)
  show ?thesis using date_text_roundtrip[OF _ _ r(1), of Dmy] date_text_roundtrip[OF _ _ r(2), of Mdy] c by (simp add: I32_MIN_def I32_MAX_def)
qed

section \<open>Dates that are read wrongly\<close>

text \<open>A leap day of an era year that has none is taken as the next day, and years past the range are read as infinity.\<close>

lemma ymd_examples: "ymd_text 4 2 29 = ''0004-02-29''" "ymd_text 4 3 1 = ''0004-03-01''" "ymd_text 6000000 1 1 = ''6000000-01-01''"
  by (simp_all add: ymd_text_def pad_zeros_def dec_string.simps digit_char_def, code_simp+)

lemma era_leap_day_rolls:
  "parse_date_literal_unranged ''0004-02-29 BC'' order = Some (days_from_civil (- 3) 3 1)" "\<not> valid_date (- 3, 2, 29)" "valid_date (- 3, 3, 1)"
proof -
  have v: "valid_date (4, 2, 29)" by (simp add: valid_date_def days_in_month_def is_leap_def)
  have "checked_days 4 2 29 = Some (eval_days_from_civil 4 2 29)" by (simp add: checked_days_def eval_days_in_month_def)
  moreover have "eval_civil_from_days (eval_days_from_civil 4 2 29) = (4, 2, 29)" using v by (intro small_years) simp_all
  moreover have "eval_days_from_civil (- 3) 2 29 = days_from_civil (- 3) 3 1"
    by (simp add: eval_days_eq days_closed year_start_def doy_of_def i32_try_from_def unwrap_or_def I32_MIN_def I32_MAX_def)
  ultimately show "parse_date_literal_unranged ''0004-02-29 BC'' order = Some (days_from_civil (- 3) 3 1)"
    using unranged_bc[of 2 29 4 order] by (simp add: ymd_examples I32_MAX_def)
  show "\<not> valid_date (- 3, 2, 29)" "valid_date (- 3, 3, 1)" by (simp_all add: valid_date_def days_in_month_def is_leap_def)
qed

lemma far_years_are_infinity: "parse_date_literal_ordered ''6000000-01-01'' order = Some I32_MAX"
proof -
  have "checked_days 6000000 1 1 = Some I32_MAX"
    by (simp add: checked_days_def eval_days_in_month_def eval_days_eq days_closed year_start_def doy_of_def i32_try_from_def unwrap_or_def I32_MAX_def)
  then show ?thesis using unranged_ymd[of 1 1 6000000 order, unfolded ymd_examples]
    by (simp add: parse_date_literal_ordered_def date_days_in_pg_range_def I32_MAX_def)
qed

end
