(* ===== verification/Tz_Rule.thy ===== *)
theory Tz_Rule
  imports Civil "HOL-Library.Monad_Syntax"
begin

text \<open>
  The rule line of a time zone file (\<open>PosixTz\<close> of \<open>spg-tzif/src/lib.rs\<close>): its parser and the offset it gives at an
  instant. Instants are seconds since the epoch; the 64-bit arithmetic on offsets read from the text wraps. Text is
  kept as its bytes: every byte the parser looks for is ASCII.
\<close>

definition wrap64 :: "int \<Rightarrow> int" where "wrap64 x = signed_take_bit 63 x"

record local_type =
  utoff_secs :: int
  is_dst :: bool

datatype tz_rule_day = JulianNoLeap nat | ZeroBased nat | MonthWeekDay nat nat nat

record tz_rule =
  rule_day :: tz_rule_day
  at_local_secs :: int

record posix_tz =
  pt_std :: local_type
  pt_std_name :: bytes
  pt_dst :: "(local_type \<times> bytes \<times> tz_rule \<times> tz_rule) option"

section \<open>Parser\<close>

definition byte_digit :: "u8 \<Rightarrow> bool" where "byte_digit b = (48 \<le> b \<and> b \<le> 57)"

definition byte_alphabetic :: "u8 \<Rightarrow> bool" where "byte_alphabetic b = (65 \<le> b \<and> b \<le> 90 \<or> 97 \<le> b \<and> b \<le> 122)"

definition strip_byte :: "u8 \<Rightarrow> bytes \<Rightarrow> bytes option" where
  "strip_byte b s = (case s of c # r \<Rightarrow> if c = b then Some r else None | [] \<Rightarrow> None)"

definition take_name :: "bytes \<Rightarrow> (bytes \<times> bytes) option" where
  "take_name s =
     (case strip_byte 60 s of
        Some stripped \<Rightarrow>
          (case dropWhile (\<lambda>c. c \<noteq> 62) stripped of [] \<Rightarrow> None | _ # r \<Rightarrow> Some (takeWhile (\<lambda>c. c \<noteq> 62) stripped, r))
      | None \<Rightarrow>
          (let name = takeWhile byte_alphabetic s
           in if length name < 3 then None else Some (name, dropWhile byte_alphabetic s)))"

fun offset_loop :: "bytes \<Rightarrow> nat \<Rightarrow> bool \<Rightarrow> int list \<Rightarrow> bool \<times> int list \<times> bytes" where
  "offset_loop [] fi seen fs = (seen, fs, [])"
| "offset_loop (c # s) fi seen fs =
     (if byte_digit c then offset_loop s fi True (fs[fi := wrap64 (fs ! fi * 10 + int (unat (c - 48)))])
      else if c = 58 \<and> fi < 2 \<and> seen then offset_loop s (fi + 1) seen fs
      else (seen, fs, c # s))"

definition take_offset :: "bytes \<Rightarrow> (int \<times> bytes) option" where
  "take_offset s0 =
     (let (neg, s) = (case s0 of c # r \<Rightarrow> if c = 43 \<or> c = 45 then (c = 45, r) else (False, s0) | [] \<Rightarrow> (False, s0))
      in case offset_loop s 0 False [0, 0, 0] of
           (seen, fs, rest) \<Rightarrow>
             if \<not> seen then None
             else (let secs = wrap64 (fs ! 0 * 3600 + fs ! 1 * 60 + fs ! 2) in Some (if neg then wrap64 (- secs) else secs, rest)))"

definition take_num :: "bytes \<Rightarrow> (nat \<times> bytes) option" where
  "take_num s =
     (let ds = takeWhile byte_digit s; n = foldl (\<lambda>v c. v * 10 + unat (c - 48)) 0 ds
      in if ds = [] then None else if 2 ^ 32 \<le> n then None else Some (n, dropWhile byte_digit s))"

definition take_month_day :: "bytes \<Rightarrow> (tz_rule_day \<times> bytes) option" where
  "take_month_day r0 =
     do {
       (m, r1) \<leftarrow> take_num r0;
       r2 \<leftarrow> strip_byte 46 r1;
       (w, r3) \<leftarrow> take_num r2;
       r4 \<leftarrow> strip_byte 46 r3;
       (d, r5) \<leftarrow> take_num r4;
       if m < 256 \<and> w < 256 \<and> d < 256 then Some (MonthWeekDay m w d, r5) else None
     }"

definition take_rule :: "bytes \<Rightarrow> (tz_rule \<times> bytes) option" where
  "take_rule s =
     do {
       (day, rest) \<leftarrow> (case strip_byte 77 s of
           Some r \<Rightarrow> take_month_day r
         | None \<Rightarrow>
             (case strip_byte 74 s of
                Some r \<Rightarrow> do { (n, r1) \<leftarrow> take_num r; if n < 65536 then Some (JulianNoLeap n, r1) else None }
              | None \<Rightarrow> do { (n, r1) \<leftarrow> take_num s; if n < 65536 then Some (ZeroBased n, r1) else None }));
       (secs, rest1) \<leftarrow> (case strip_byte 47 rest of Some r \<Rightarrow> take_offset r | None \<Rightarrow> Some (2 * 3600, rest));
       Some (\<lparr>rule_day = day, at_local_secs = secs\<rparr>, rest1)
     }"

definition posix_parse :: "bytes \<Rightarrow> posix_tz option" where
  "posix_parse s =
     do {
       (std_name, r1) \<leftarrow> take_name s;
       (std_off_west, r2) \<leftarrow> take_offset r1;
       let std = \<lparr>utoff_secs = wrap64 (- std_off_west), is_dst = False\<rparr>;
       if r2 = [] then Some \<lparr>pt_std = std, pt_std_name = std_name, pt_dst = None\<rparr>
       else do {
         (dst_name, r3) \<leftarrow> take_name r2;
         (dst_off, r4) \<leftarrow> (if r3 = [] \<or> strip_byte 44 r3 \<noteq> None then Some (wrap64 (utoff_secs std + 3600), r3)
                            else map_option (\<lambda>(off, r). (wrap64 (- off), r)) (take_offset r3));
         r5 \<leftarrow> strip_byte 44 r4;
         (start, r6) \<leftarrow> take_rule r5;
         r7 \<leftarrow> strip_byte 44 r6;
         (stop, r8) \<leftarrow> take_rule r7;
         if r8 \<noteq> [] then None
         else Some \<lparr>pt_std = std, pt_std_name = std_name, pt_dst = Some (\<lparr>utoff_secs = dst_off, is_dst = True\<rparr>, dst_name, start, stop)\<rparr>
       }
     }"

section \<open>Evaluation\<close>

fun week_loop :: "nat \<Rightarrow> int \<Rightarrow> int \<Rightarrow> int" where
  "week_loop 0 limit day = day"
| "week_loop (Suc k) limit day = (if day + 7 < limit then week_loop k limit (day + 7) else day)"

definition month_week_day :: "int \<Rightarrow> nat \<Rightarrow> nat \<Rightarrow> nat \<Rightarrow> int" where
  "month_week_day year m w dow =
     (let first = days_from_civil year m 1;
          first_dow = (first + 4) mod 7;
          day = first + (int dow - first_dow) mod 7;
          days_in = int (days_in_month year m)
      in week_loop (w - 1) (first + days_in) day)"

definition rule_utc :: "tz_rule \<Rightarrow> int \<Rightarrow> int \<Rightarrow> int" where
  "rule_utc rule year local_off_secs =
     (let day = (case rule_day rule of
            JulianNoLeap n \<Rightarrow>
              (let jan1 = days_from_civil year 1 1; feb28 = days_from_civil year 2 28; d = jan1 + (int n - 1)
               in if feb28 < d \<and> is_leap year then d + 1 else d)
          | ZeroBased n \<Rightarrow> days_from_civil year 1 1 + int n
          | MonthWeekDay m w dow \<Rightarrow> month_week_day year m w dow)
      in wrap64 (day * 86400 + at_local_secs rule - local_off_secs))"

definition posix_type_at_utc :: "posix_tz \<Rightarrow> int \<Rightarrow> local_type \<times> bytes" where
  "posix_type_at_utc p utc_secs =
     (case pt_dst p of
        None \<Rightarrow> (pt_std p, pt_std_name p)
      | Some (dst, dst_name, start, stop) \<Rightarrow>
          (let year = fst (civil_from_days (utc_secs div 86400));
               start_utc = rule_utc start year (utoff_secs (pt_std p));
               end_utc = rule_utc stop year (utoff_secs dst);
               in_dst = (if start_utc \<le> end_utc then start_utc \<le> utc_secs \<and> utc_secs < end_utc
                         else start_utc \<le> utc_secs \<or> utc_secs < end_utc)
           in if in_dst then (dst, dst_name) else (pt_std p, pt_std_name p)))"

section \<open>Days named by month, week and weekday\<close>

lemma week_loop_exact: "week_loop k limit day = day + 7 * min (int k) (max 0 ((limit - 1 - day) div 7))"
proof (induction k arbitrary: day)
  case (Suc k)
  have d: "(limit - 1 - (day + 7)) div 7 = (limit - 1 - day) div 7 - 1" using div_mult_self1[of 7 "limit - 1 - day" "- 1"] by (simp add: algebra_simps)
  show ?case
  proof (cases "day + 7 < limit")
    case True
    then have "1 \<le> (limit - 1 - day) div 7" by linarith
    then show ?thesis using True Suc[of "day + 7"] unfolding week_loop.simps d by (simp add: min_def max_def)
  next
    case False
    then have "(limit - 1 - day) div 7 < 1" by linarith
    then show ?thesis using False by simp
  qed
qed simp

text \<open>The day is in its month and on its weekday, and it is the one in the given week, or the last in the month when the month has no
  such week.\<close>

lemma month_week_day_exact:
  fixes y :: int and m w dow :: nat
  assumes "1 \<le> m" "m \<le> 12" "1 \<le> w" "dow < 7"
  defines "first \<equiv> days_from_civil y m 1"
  defines "day \<equiv> month_week_day y m w dow"
  shows "first \<le> day" "day < first + int (days_in_month y m)" "(day + 4) mod 7 = int dow"
    "(first + 7 * (int w - 1) \<le> day \<and> day < first + 7 * int w) \<or> first + int (days_in_month y m) \<le> day + 7 \<and> day < first + 7 * (int w - 1)"
proof -
  define r where "r = (int dow - (first + 4) mod 7) mod 7"
  define n where "n = int (days_in_month y m)"
  define q where "q = min (int (w - 1)) (max 0 ((first + n - 1 - (first + r)) div 7))"
  have d: "day = first + r + 7 * q" unfolding day_def month_week_day_def Let_def first_def[symmetric] r_def[symmetric] n_def[symmetric] week_loop_exact q_def ..
  have r: "0 \<le> r" "r < 7" by (simp_all add: r_def)
  have n: "28 \<le> n" by (simp add: n_def days_in_month_def)
  have k: "7 * ((n - 1 - r) div 7) \<le> n - 1 - r" "n - 1 - r < 7 * ((n - 1 - r) div 7) + 7" by linarith+
  have q: "q = min (int w - 1) ((n - 1 - r) div 7)" using assms(3) r n by (simp add: q_def of_nat_diff pos_imp_zdiv_nonneg_iff)
  show "first \<le> day" "day < first + int (days_in_month y m)" using d r k q n assms(3) unfolding n_def[symmetric] by linarith+
  have "(r + ((first + 4) mod 7)) mod 7 = int dow mod 7" unfolding r_def by (simp add: mod_simps)
  then have "(first + r + 4) mod 7 = int dow" using assms(4) by (simp add: mod_simps algebra_simps)
  then show "(day + 4) mod 7 = int dow" using d mod_mult_self1[of "first + r + 4" q 7] by (simp add: algebra_simps)
  show "(first + 7 * (int w - 1) \<le> day \<and> day < first + 7 * int w) \<or> first + int (days_in_month y m) \<le> day + 7 \<and> day < first + 7 * (int w - 1)"
    unfolding n_def[symmetric] using d r k q by (cases "int w - 1 \<le> (n - 1 - r) div 7") auto
qed

section \<open>Boundaries of a year\<close>

text \<open>The line for a zone that keeps daylight saving time all year, \<open>EST5EDT,0/0,J365/25\<close>, is read; but an instant is compared with the
  boundaries of its own year only, and in the first hours of a year (five in this zone) the standard offset is answered.\<close>

definition all_year_dst :: bytes where
  "all_year_dst = [69, 83, 84, 53, 69, 68, 84, 44, 48, 47, 48, 44, 74, 51, 54, 53, 47, 50, 53]"

lemma wrap64_id: "- (2 ^ 63) \<le> x \<Longrightarrow> x < 2 ^ 63 \<Longrightarrow> wrap64 x = x"
  by (simp add: wrap64_def signed_take_bit_int_eq_self_iff)

lemma all_year_dst_parsed:
  "posix_parse all_year_dst = Some \<lparr>pt_std = \<lparr>utoff_secs = - 18000, is_dst = False\<rparr>, pt_std_name = [69, 83, 84],
     pt_dst = Some (\<lparr>utoff_secs = - 14400, is_dst = True\<rparr>, [69, 68, 84], \<lparr>rule_day = ZeroBased 0, at_local_secs = 0\<rparr>, \<lparr>rule_day = JulianNoLeap 365, at_local_secs = 90000\<rparr>)\<rparr>"
  by (simp add: posix_parse_def all_year_dst_def take_name_def strip_byte_def byte_alphabetic_def take_offset_def byte_digit_def take_rule_def take_num_def
      Let_def wrap64_id)

lemma new_year_days: "days_from_civil 2024 1 1 = 19723" "days_from_civil 2024 2 28 = 19781" "days_from_civil 2023 1 1 = 19358" "days_from_civil 2023 2 28 = 19416"
  "fst (civil_from_days 19723) = 2024" "fst (civil_from_days 19722) = 2023" "is_leap 2024" "\<not> is_leap 2023"
  by (simp_all add: days_closed year_start_def doy_of_def is_leap_def, code_simp+)

lemma new_year_standard:
  assumes "posix_parse all_year_dst = Some p"
  shows "utoff_secs (fst (posix_type_at_utc p (days_from_civil 2024 1 1 * 86400 - 1))) = - 14400"
    "utoff_secs (fst (posix_type_at_utc p (days_from_civil 2024 1 1 * 86400 + 3600))) = - 18000"
    "utoff_secs (fst (posix_type_at_utc p (days_from_civil 2024 1 1 * 86400 + 18000))) = - 14400"
  using assms unfolding all_year_dst_parsed
  by (auto simp: posix_type_at_utc_def rule_utc_def Let_def new_year_days[unfolded One_nat_def] wrap64_id)

end
