(* ===== verification/Tzif.thy ===== *)
theory Tzif
  imports Tz_Rule Rust_Str Rust_Collections
begin

text \<open>
  Time zone files and zones (\<open>spg-tzif/src/lib.rs\<close>): the reader of the binary format, the local time at an
  instant, the instant of a local reading, and the zone cache. Indexing out of range is \<open>None\<close> in the lookups; a zone
  that was read never gets there.
\<close>

record zone =
  transitions :: "int list"
  type_idx :: "nat list"
  types :: "local_type list"
  abbrs :: "bytes list"
  first_type :: local_type
  first_abbr :: bytes
  footer :: "posix_tz option"

section \<open>Lookups\<close>

definition type_of_idx :: "zone \<Rightarrow> nat \<Rightarrow> (local_type \<times> bytes) option" where
  "type_of_idx z i = do { ti \<leftarrow> slice_get (type_idx z) i; t \<leftarrow> slice_get (types z) ti; a \<leftarrow> slice_get (abbrs z) ti; Some (t, a) }"

definition type_and_abbr_at_utc :: "zone \<Rightarrow> int \<Rightarrow> (local_type \<times> bytes) option" where
  "type_and_abbr_at_utc z utc_secs =
     (if transitions z \<noteq> [] \<and> last (transitions z) \<le> utc_secs then
        (case footer z of
           Some f \<Rightarrow> Some (posix_type_at_utc f utc_secs)
         | None \<Rightarrow> type_of_idx z (length (transitions z) - 1))
      else
        (case partition_point (\<lambda>t. t \<le> utc_secs) (transitions z) of
           0 \<Rightarrow>
             (case (transitions z, footer z) of
                ([], Some f) \<Rightarrow> Some (posix_type_at_utc f utc_secs)
              | _ \<Rightarrow> Some (first_type z, first_abbr z))
         | Suc n \<Rightarrow> type_of_idx z n))"

definition type_at_utc :: "zone \<Rightarrow> int \<Rightarrow> local_type option" where
  "type_at_utc z utc_secs = map_option fst (type_and_abbr_at_utc z utc_secs)"

definition utc_offset :: "zone \<Rightarrow> int \<Rightarrow> int option" where
  "utc_offset z utc_secs = map_option utoff_secs (type_at_utc z utc_secs)"

definition valid_offset :: "zone \<Rightarrow> int \<Rightarrow> local_type \<Rightarrow> bool option" where
  "valid_offset z local_secs t = map_option (\<lambda>off. off = utoff_secs t) (utc_offset z (wrap64 (local_secs - utoff_secs t)))"

definition local_to_utc :: "zone \<Rightarrow> int \<Rightarrow> int option" where
  "local_to_utc z local_secs =
     do {
       off_before \<leftarrow> utc_offset z (wrap64 (local_secs - 86400));
       off_after \<leftarrow> utc_offset z (wrap64 (local_secs + 86400));
       if off_before = off_after then Some (wrap64 (local_secs - off_before))
       else do {
         tb \<leftarrow> type_at_utc z (wrap64 (local_secs - 86400));
         ta \<leftarrow> type_at_utc z (wrap64 (local_secs + 86400));
         let t_before = \<lparr>utoff_secs = off_before, is_dst = is_dst tb\<rparr>;
         let t_after = \<lparr>utoff_secs = off_after, is_dst = is_dst ta\<rparr>;
         vb \<leftarrow> valid_offset z local_secs t_before;
         va \<leftarrow> valid_offset z local_secs t_after;
         Some (if vb \<and> va then (if is_dst t_before \<and> \<not> is_dst t_after then wrap64 (local_secs - utoff_secs t_after) else wrap64 (local_secs - utoff_secs t_before))
               else if vb then wrap64 (local_secs - utoff_secs t_before)
               else if va then wrap64 (local_secs - utoff_secs t_after)
               else wrap64 (local_secs - utoff_secs t_before))
       }
     }"

section \<open>Reading a file\<close>

definition get_range :: "bytes \<Rightarrow> nat \<Rightarrow> nat \<Rightarrow> bytes option" where
  "get_range b from till = (if from \<le> till \<and> till \<le> length b then Some (take (till - from) (drop from b)) else None)"

definition from_be_bytes :: "bytes \<Rightarrow> nat" where "from_be_bytes bs = foldl (\<lambda>v b. v * 256 + unat b) 0 bs"

definition be_u32 :: "bytes \<Rightarrow> nat \<Rightarrow> nat option" where "be_u32 b pos = map_option from_be_bytes (get_range b pos (pos + 4))"

definition be_i32 :: "bytes \<Rightarrow> nat \<Rightarrow> int option" where
  "be_i32 b pos = map_option (\<lambda>bs. signed_take_bit 31 (int (from_be_bytes bs))) (get_range b pos (pos + 4))"

definition be_i64 :: "bytes \<Rightarrow> nat \<Rightarrow> int option" where
  "be_i64 b pos = map_option (\<lambda>bs. signed_take_bit 63 (int (from_be_bytes bs))) (get_range b pos (pos + 8))"

record counts =
  isutcnt :: nat
  isstdcnt :: nat
  leapcnt :: nat
  timecnt :: nat
  typecnt :: nat
  charcnt :: nat

definition parse_header :: "bytes \<Rightarrow> nat \<Rightarrow> (u8 \<times> counts) option" where
  "parse_header b pos =
     do {
       magic \<leftarrow> get_range b pos (pos + 4);
       if magic \<noteq> [84, 90, 105, 102] then None
       else do {
         version \<leftarrow> slice_get b (pos + 4);
         ut \<leftarrow> be_u32 b (pos + 20);
         std \<leftarrow> be_u32 b (pos + 24);
         leap \<leftarrow> be_u32 b (pos + 28);
         time \<leftarrow> be_u32 b (pos + 32);
         typ \<leftarrow> be_u32 b (pos + 36);
         chr \<leftarrow> be_u32 b (pos + 40);
         Some (version, \<lparr>isutcnt = ut, isstdcnt = std, leapcnt = leap, timecnt = time, typecnt = typ, charcnt = chr\<rparr>)
       }
     }"

definition data_block_len :: "counts \<Rightarrow> nat \<Rightarrow> nat" where
  "data_block_len c time_size =
     timecnt c * time_size + timecnt c + typecnt c * 6 + charcnt c + leapcnt c * (time_size + 4) + isstdcnt c + isutcnt c"

fun collect_opt :: "('a \<Rightarrow> 'b option) \<Rightarrow> 'a list \<Rightarrow> 'b list option" where
  "collect_opt f [] = Some []"
| "collect_opt f (x # xs) = do { y \<leftarrow> f x; ys \<leftarrow> collect_opt f xs; Some (y # ys) }"

definition read_time :: "bytes \<Rightarrow> nat \<Rightarrow> nat \<Rightarrow> nat \<Rightarrow> int option" where
  "read_time b pos time_size i = (if time_size = 8 then be_i64 b (pos + i * 8) else be_i32 b (pos + i * 4))"

definition read_type_idx :: "bytes \<Rightarrow> nat \<Rightarrow> nat \<Rightarrow> nat \<Rightarrow> nat option" where
  "read_type_idx b idx_at cnt i = do { v \<leftarrow> slice_get b (idx_at + i); if cnt \<le> unat v then None else Some (unat v) }"

definition read_type :: "bytes \<Rightarrow> nat \<Rightarrow> nat \<Rightarrow> (local_type \<times> nat) option" where
  "read_type b types_at i =
     do {
       utoff \<leftarrow> be_i32 b (types_at + i * 6);
       dst \<leftarrow> slice_get b (types_at + i * 6 + 4);
       desig \<leftarrow> slice_get b (types_at + i * 6 + 5);
       Some (\<lparr>utoff_secs = utoff, is_dst = dst \<noteq> 0\<rparr>, unat desig)
     }"

text \<open>\<open>String::from_utf8_lossy\<close>: the length of the valid sequence, or of the broken one that one replacement character stands for.\<close>

definition utf8_step :: "bytes \<Rightarrow> bool \<times> nat" where
  "utf8_step s =
     (let byte = (\<lambda>i. if i < length s then s ! i else 0);
          second = (\<lambda>lo hi. lo \<le> byte 1 \<and> byte 1 \<le> hi);
          a = byte 0
      in if a < 0x80 then (True, 1)
         else if 0xC2 \<le> a \<and> a \<le> 0xDF then (if is_cont (byte 1) then (True, 2) else (False, 1))
         else if 0xE0 \<le> a \<and> a \<le> 0xEF then
           (if \<not> (if a = 0xE0 then second 0xA0 0xBF else if a = 0xED then second 0x80 0x9F else is_cont (byte 1)) then (False, 1)
            else if is_cont (byte 2) then (True, 3) else (False, 2))
         else if 0xF0 \<le> a \<and> a \<le> 0xF4 then
           (if \<not> (if a = 0xF0 then second 0x90 0xBF else if a = 0xF4 then second 0x80 0x8F else is_cont (byte 1)) then (False, 1)
            else if \<not> is_cont (byte 2) then (False, 2)
            else if is_cont (byte 3) then (True, 4) else (False, 3))
         else (False, 1))"

lemma utf8_step_pos: "0 < snd (utf8_step s)"
  by (simp add: utf8_step_def Let_def)

function from_utf8_lossy :: "bytes \<Rightarrow> bytes" where
  "from_utf8_lossy s =
     (if s = [] then []
      else (case utf8_step s of
              (ok, n) \<Rightarrow> (if ok then take n s else [0xEF, 0xBF, 0xBD]) @ from_utf8_lossy (drop n s)))"
  by pat_completeness auto
termination
  by (relation "measure length") (use utf8_step_pos in \<open>auto intro!: diff_less, metis snd_conv\<close>)

declare from_utf8_lossy.simps [simp del]

definition designation :: "bytes \<Rightarrow> nat \<Rightarrow> bytes" where
  "designation pool di = from_utf8_lossy (takeWhile (\<lambda>c. c \<noteq> 0) (drop di pool))"

definition parse_block :: "bytes \<Rightarrow> nat \<Rightarrow> counts \<Rightarrow> nat \<Rightarrow> zone option" where
  "parse_block b pos c time_size =
     do {
       ts \<leftarrow> collect_opt (read_time b pos time_size) [0..<timecnt c];
       let idx_at = pos + timecnt c * time_size;
       idx \<leftarrow> collect_opt (read_type_idx b idx_at (typecnt c)) [0..<timecnt c];
       let types_at = idx_at + timecnt c;
       tys \<leftarrow> collect_opt (read_type b types_at) [0..<typecnt c];
       if tys = [] then None
       else do {
         let chars_at = types_at + typecnt c * 6;
         pool \<leftarrow> get_range b chars_at (chars_at + charcnt c);
         let ltypes = map fst tys;
         let names = map (\<lambda>t. designation pool (snd t)) tys;
         let first_i = (case List.find (\<lambda>i. \<not> is_dst (ltypes ! i)) [0..<length ltypes] of Some i \<Rightarrow> i | None \<Rightarrow> 0);
         Some \<lparr>transitions = ts, type_idx = idx, types = ltypes, abbrs = names, first_type = ltypes ! first_i, first_abbr = names ! first_i, footer = None\<rparr>
       }
     }"

definition read_footer :: "bytes \<Rightarrow> nat \<Rightarrow> posix_tz option option" where
  "read_footer b footer_at =
     (if slice_get b footer_at \<noteq> Some 10 then None
      else (let rest = drop (footer_at + 1) b; line = takeWhile (\<lambda>c. c \<noteq> 10) rest
            in if length line < length rest \<and> utf8_valid line then Some (posix_parse line) else None))"

definition parse_tzif :: "bytes \<Rightarrow> zone option" where
  "parse_tzif b =
     do {
       (version, c1) \<leftarrow> parse_header b 0;
       let v1_end = 44 + data_block_len c1 4;
       if version = 0 then parse_block b 44 c1 4
       else do {
         (_, c2) \<leftarrow> parse_header b v1_end;
         let block_at = v1_end + 44;
         z \<leftarrow> parse_block b block_at c2 8;
         Some (case read_footer b (block_at + data_block_len c2 8) of Some f \<Rightarrow> z\<lparr>footer := f\<rparr> | None \<Rightarrow> z)
       }
     }"

section \<open>Zones by name\<close>

record tzdb =
  db_names :: "bytes \<Rightarrow> bytes option"
  db_cache :: "bytes \<Rightarrow> zone option"

definition canonical :: "tzdb \<Rightarrow> bytes \<Rightarrow> bytes option" where
  "canonical db name = db_names db (to_ascii_lowercase name)"

definition db_zone :: "(bytes \<Rightarrow> bytes option) \<Rightarrow> tzdb \<Rightarrow> bytes \<Rightarrow> zone option \<times> tzdb" where
  "db_zone files db name =
     (case canonical db name of
        None \<Rightarrow> (None, db)
      | Some canon \<Rightarrow>
          (case db_cache db canon of
             Some z \<Rightarrow> (Some z, db)
           | None \<Rightarrow>
               (case files canon of
                  None \<Rightarrow> (None, db)
                | Some b \<Rightarrow>
                    (case parse_tzif b of
                       None \<Rightarrow> (None, db)
                     | Some z \<Rightarrow> (Some z, db\<lparr>db_cache := (db_cache db)(canon \<mapsto> z)\<rparr>)))))"

definition tz_offset_at :: "zone \<Rightarrow> int \<Rightarrow> int option" where
  "tz_offset_at z utc_micros = map_option (\<lambda>off. wrap64 (off * 1000000)) (utc_offset z (utc_micros div 1000000))"

definition tz_local_to_utc :: "zone \<Rightarrow> int \<Rightarrow> int option" where
  "tz_local_to_utc z local_micros =
     map_option (\<lambda>u. wrap64 (u * 1000000 + local_micros mod 1000000)) (local_to_utc z (local_micros div 1000000))"

section \<open>A zone that was read has an answer for every instant\<close>

definition zone_ok :: "zone \<Rightarrow> bool" where
  "zone_ok z \<longleftrightarrow> length (type_idx z) = length (transitions z) \<and> (\<forall>ti\<in>set (type_idx z). ti < length (types z)) \<and> length (abbrs z) = length (types z)"

lemma collect_opt_Some: "collect_opt f xs = Some ys \<Longrightarrow> length ys = length xs \<and> (\<forall>y\<in>set ys. \<exists>x\<in>set xs. f x = Some y)"
  by (induction xs arbitrary: ys) (fastforce simp: bind_eq_Some_conv)+

lemma parse_block_ok:
  assumes "parse_block b pos c n = Some z"
  shows "zone_ok z"
proof -
  obtain ts where t: "collect_opt (read_time b pos n) [0..<timecnt c] = Some ts" using assms by (auto simp: parse_block_def Let_def bind_eq_Some_conv)
  obtain idx where x: "collect_opt (read_type_idx b (pos + timecnt c * n) (typecnt c)) [0..<timecnt c] = Some idx" using assms by (auto simp: parse_block_def Let_def bind_eq_Some_conv)
  obtain tys where y: "collect_opt (read_type b (pos + timecnt c * n + timecnt c)) [0..<typecnt c] = Some tys" "tys \<noteq> []"
    using assms by (auto simp: parse_block_def Let_def bind_eq_Some_conv split: if_splits)
  note p = t x y(1)
  have z: "transitions z = ts" "type_idx z = idx" "types z = map fst tys" "length (abbrs z) = length tys"
    using assms y(2) by (auto simp: parse_block_def Let_def p bind_eq_Some_conv)
  have "\<forall>ti\<in>set idx. ti < typecnt c" using collect_opt_Some[OF p(2)] by (auto simp: read_type_idx_def bind_eq_Some_conv not_le split: if_splits)
  then show ?thesis using collect_opt_Some[OF p(1)] collect_opt_Some[OF p(2)] collect_opt_Some[OF p(3)] z by (simp add: zone_ok_def)
qed

lemma parse_tzif_ok: "parse_tzif b = Some z \<Longrightarrow> zone_ok z"
  unfolding parse_tzif_def Let_def using parse_block_ok
  by (auto simp: bind_eq_Some_conv zone_ok_def split: if_splits prod.splits option.splits)

lemma type_of_idx_ok: "zone_ok z \<Longrightarrow> i < length (transitions z) \<Longrightarrow> type_of_idx z i = Some (types z ! (type_idx z ! i), abbrs z ! (type_idx z ! i))"
  by (simp add: zone_ok_def type_of_idx_def slice_get_def)

lemma lookup_total: assumes "zone_ok z" shows "\<exists>r. type_and_abbr_at_utc z t = Some r"
proof -
  let ?ts = "transitions z"
  have p: "partition_point (\<lambda>x. x \<le> t) ?ts \<le> length ?ts" by simp
  show ?thesis
  proof (cases "?ts \<noteq> [] \<and> last ?ts \<le> t")
    case True
    then have "length ?ts - 1 < length ?ts" by simp
    then show ?thesis using True type_of_idx_ok[OF assms] by (cases "footer z") (simp_all add: type_and_abbr_at_utc_def)
  next
    case no: False
    show ?thesis
    proof (cases "partition_point (\<lambda>x. x \<le> t) ?ts")
      case 0
      then show ?thesis using no by (cases ?ts; cases "footer z") (simp_all add: type_and_abbr_at_utc_def)
    next
      case (Suc n)
      then have "n < length ?ts" using p by simp
      moreover have "type_and_abbr_at_utc z t = type_of_idx z n" unfolding type_and_abbr_at_utc_def if_not_P[OF no] Suc by simp
      ultimately show ?thesis using type_of_idx_ok[OF assms] by simp
    qed
  qed
qed

lemma partition_ascending:
  assumes "ascending ts" "i < length ts" "ts ! i \<le> t" "i + 1 < length ts \<Longrightarrow> t < ts ! (i + 1)"
  shows "partition_point (\<lambda>x. x \<le> t) ts = i + 1"
proof (rule order.antisym)
  show "partition_point (\<lambda>x. x \<le> t) ts \<le> i + 1"
  proof (rule ccontr)
    assume "\<not> partition_point (\<lambda>x. x \<le> t) ts \<le> i + 1"
    then have "i + 1 < partition_point (\<lambda>x. x \<le> t) ts" by simp
    then show False using partition_point_below[of "i + 1" "\<lambda>x. x \<le> t" ts] assms(4) partition_point_le[of "\<lambda>x. x \<le> t" ts] by (meson less_le_trans not_le)
  qed
  show "i + 1 \<le> partition_point (\<lambda>x. x \<le> t) ts"
  proof (rule ccontr)
    let ?p = "partition_point (\<lambda>x. x \<le> t) ts"
    assume "\<not> i + 1 \<le> ?p"
    then have p: "?p \<le> i" by simp
    then have "\<not> ts ! ?p \<le> t" using partition_point_stop[of "\<lambda>x. x \<le> t" ts] assms(2) by simp
    moreover have "ts ! ?p \<le> ts ! i" using p assms(1,2) sorted_nth_mono[of ts ?p i] by (simp add: strict_sorted_imp_sorted)
    ultimately show False using assms(3) by simp
  qed
qed


definition example_file :: bytes where
  "example_file = [84, 90, 105, 102, 0] @ replicate 27 0 @ [0, 0, 0, 1, 0, 0, 0, 1, 0, 0, 0, 4] @ [0, 0, 0, 100] @ [0] @ [0, 0, 14, 16, 0, 0] @ [67, 69, 84, 0]"

lemma example_parsed:
  "parse_tzif example_file = Some \<lparr>transitions = [100], type_idx = [0], types = [\<lparr>utoff_secs = 3600, is_dst = False\<rparr>], abbrs = [[67, 69, 84]],
     first_type = \<lparr>utoff_secs = 3600, is_dst = False\<rparr>, first_abbr = [67, 69, 84], footer = None\<rparr>"
  by code_simp


section \<open>The instant of a local reading\<close>

text \<open>The instants, at most a day away from the reading, at which the local clock shows it.\<close>

definition readings :: "zone \<Rightarrow> int \<Rightarrow> int set" where
  "readings z l = {u. l - 86400 \<le> u \<and> u \<le> l + 86400 \<and> utc_offset z u = Some (l - u)}"

lemma local_to_utc_values:
  assumes l: "- (2 ^ 60) \<le> l" "l \<le> 2 ^ 60"
    and w: "\<And>u. l - 86400 \<le> u \<Longrightarrow> u \<le> l + 86400 \<Longrightarrow> type_at_utc z u = Some (if u < c then before else after)"
    and o1: "\<bar>utoff_secs before\<bar> \<le> 86400" "\<bar>utoff_secs after\<bar> \<le> 86400"
    and c: "l - 86400 < c" "c \<le> l + 86400"
  defines "vb \<equiv> l - utoff_secs before < c" and "va \<equiv> c \<le> l - utoff_secs after"
  shows "local_to_utc z l = Some (if vb \<and> va \<and> is_dst before \<and> \<not> is_dst after \<or> \<not> vb \<and> va then l - utoff_secs after else l - utoff_secs before)
      \<or> utoff_secs before = utoff_secs after \<and> local_to_utc z l = Some (l - utoff_secs before)"
    and "readings z l = {u. u = l - utoff_secs before \<and> vb \<or> u = l - utoff_secs after \<and> va}"
proof -
  have x: "wrap64 x = x" if "l - 86400 \<le> x" "x \<le> l + 86400" for x using that l by (intro wrap64_id) simp_all
  have off: "utc_offset z u = Some (if u < c then utoff_secs before else utoff_secs after)" if "l - 86400 \<le> u" "u \<le> l + 86400" for u
    using w[OF that] by (simp add: utc_offset_def)
  have r: "l - 86400 \<le> l - utoff_secs before" "l - utoff_secs before \<le> l + 86400" "l - 86400 \<le> l - utoff_secs after" "l - utoff_secs after \<le> l + 86400"
    using o1 by linarith+
  have s: "utc_offset z (wrap64 (l - 86400)) = Some (utoff_secs before)" "utc_offset z (wrap64 (l + 86400)) = Some (utoff_secs after)"
    "type_at_utc z (wrap64 (l - 86400)) = Some before" "type_at_utc z (wrap64 (l + 86400)) = Some after"
    using x[of "l - 86400"] x[of "l + 86400"] off[of "l - 86400"] off[of "l + 86400"] w[of "l - 86400"] w[of "l + 86400"] c by auto
  have v: "valid_offset z l \<lparr>utoff_secs = utoff_secs before, is_dst = d\<rparr> = Some vb" "valid_offset z l \<lparr>utoff_secs = utoff_secs after, is_dst = d\<rparr> = Some va"
    if "utoff_secs before \<noteq> utoff_secs after" for d
    using x[OF r(1,2)] x[OF r(3,4)] off[OF r(1,2)] off[OF r(3,4)] that by (auto simp: valid_offset_def vb_def va_def)
  show "local_to_utc z l = Some (if vb \<and> va \<and> is_dst before \<and> \<not> is_dst after \<or> \<not> vb \<and> va then l - utoff_secs after else l - utoff_secs before)
      \<or> utoff_secs before = utoff_secs after \<and> local_to_utc z l = Some (l - utoff_secs before)"
  proof (cases "utoff_secs before = utoff_secs after")
    case True
    then show ?thesis using x[OF r(1,2)] by (simp add: local_to_utc_def s)
  next
    case False
    then show ?thesis using v[OF False] x[OF r(1,2)] x[OF r(3,4)] by (simp add: local_to_utc_def s Let_def)
  qed
  show "readings z l = {u. u = l - utoff_secs before \<and> vb \<or> u = l - utoff_secs after \<and> va}"
    using off r by (auto simp: readings_def vb_def va_def split: if_splits)
qed



section \<open>The cache\<close>

definition cache_ok :: "(bytes \<Rightarrow> bytes option) \<Rightarrow> tzdb \<Rightarrow> bool" where
  "cache_ok files db \<longleftrightarrow> (\<forall>n z. db_cache db n = Some z \<longrightarrow> Option.bind (files n) parse_tzif = Some z)"

lemma db_zone_exact:
  assumes "cache_ok files db" "db_zone files db name = (r, db')"
  shows "r = Option.bind (canonical db name) (\<lambda>n. Option.bind (files n) parse_tzif) \<and> cache_ok files db' \<and> db_names db' = db_names db"
  using assms by (auto simp: db_zone_def cache_ok_def split: option.splits if_splits) metis

end
