(* ===== verification/Spec2Isabelle.thy ===== *)
theory Spec2Isabelle
  imports Prelude Rust_Collections Row_Header Snapshot Writer_Versions Sequence_Spec Persistent_Vec
    Row_Locator Posting_List BTree_Node BTree_Reads BTree_Remove BTree_Iter BTree_Iter_Rev
    BTree_Bulk Ordered_Map_Spec Persistent_BTree Lock_Table Mvcc_Table Table_Writeset
    Bignum_Limbs Bignum_Div Bignum Bignum_Text Codec_Spec Lzss Base64 Crc Sha256 Blake3
    Audit_Log Manifest Wire Wal Wal_Append Group_Commit Bloom Segment_Page Segment
    Segment_Read Segment_Envelope Envelope Parsort Users Users_Codec Scram Rust_Str
    Copy_Format Copy_Reader Cursor Decimal_Text Civil Date_Text Tz_Rule Tzif
begin

text \<open>
  SPG is a relational database engine written in Rust, with an in-memory multi-version store
  (crate \<open>spg-storage\<close>), a SQL engine above it (\<open>spg-engine\<close>), a server with a write-ahead log
  (\<open>spg-server\<close>), and small support crates for checksums, hashes, encodings, frames and audit
  records. The development models the storage and concurrency core, durability, the durable
  formats, authentication, and the parts of the engine whose logic stands on its own: sorting,
  cursors, the calendar with its time zones, and the formats of \<open>COPY\<close>. Paths below are under \<open>src/crates\<close>.

  \<^bold>\<open>Parts and how they interact.\<close>
  A table keeps its rows, their visibility headers and their stable row ids in three persistent
  vectors, and its indexes in persistent B-tree maps whose values are posting lists of row
  locators. Copies of a table share structure, so a transaction works on a private copy. A writer
  is given a version by the registry; it stamps the headers of the rows it inserts and deletes
  with it; a reader carries a snapshot of the versions it may see. Row locks order writers of one
  row; a transaction whose base has moved on extracts its write-set from its copy and replays it
  on the fresher one; vacuum drops rows no snapshot can see; a cursor resumes its scan of the row
  store behind the last row it has seen.

  A commit is durable once its records are in the log: connections queue, a leader appends the
  records of the whole queue with one synchronisation, and a failed append is cut off again and
  the engine's state restored. Recovery reads the records of the log up to the first torn or
  damaged one into the engine. Records are compressed and checksummed; a snapshot of the engine is
  one envelope of five sections; rows that leave memory go to cold segments, immutable files of
  sorted pages with a filter and an index, listed in the manifest. The user table is one of the
  sections of a snapshot; its stored keys are what the authentication exchange checks a client
  against. Administrative actions leave entries in a hash-chained audit log.

  \<^bold>\<open>Theories.\<close>
  \<^item> \<open>Prelude\<close>: machine integer types, byte encodings, lists and searches
    shared by all.
  \<^item> \<open>Rust_Collections\<close>: the standard ordered map and set.
  \<^item> \<open>Row_Header\<close>: \<open>spg-storage/src/row_header.rs\<close>: headers, row
    and relation ids, the global version counter and its recovery on load.
  \<^item> \<open>Snapshot\<close>: \<open>snapshot.rs\<close>, \<open>vacuum.rs\<close>: the
    visibility predicate, with and without a transaction status oracle; what is visible after a
    restart.
  \<^item> \<open>Writer_Versions\<close>: \<open>spg-engine/src/lib.rs\<close>,
    \<open>transaction.rs\<close>, \<open>spg_admin.rs\<close>: the registry of writer versions as
    a transition system; held snapshots are stable, the vacuum floor is safe for the snapshots it
    takes into account, and two counterexamples.
  \<^item> \<open>Sequence_Spec\<close>: the abstract sequence a vector implements.
  \<^item> \<open>Persistent_Vec\<close>: \<open>persistent.rs\<close>: the 32-way trie with a
    tail, path-copying and in-place writers, iterators and run cursors; it refines lists.
  \<^item> \<open>Row_Locator\<close>: \<open>row_locator.rs\<close>: locators and their nine-byte
    encoding.
  \<^item> \<open>Posting_List\<close>: \<open>posting.rs\<close>: blocked posting lists; they
    refine lists of locators.
  \<^item> \<open>BTree_Node\<close>: \<open>persistent_btree.rs\<close>: nodes, search, both
    insert workers, with their invariant.
  \<^item> \<open>BTree_Reads\<close>: the read operations against the sorted list of entries.
  \<^item> \<open>BTree_Remove\<close>: removal and its repair of underfull nodes.
  \<^item> \<open>BTree_Iter\<close>: forward iterators and ranges.
  \<^item> \<open>BTree_Iter_Rev\<close>: descending iterators and ranges.
  \<^item> \<open>BTree_Bulk\<close>: bulk construction from sorted entries.
  \<^item> \<open>Ordered_Map_Spec\<close>: the abstract ordered map.
  \<^item> \<open>Persistent_BTree\<close>: the public interface of the B-tree map; refinement,
    scans, editing in place, and the panic after a bulk build.
  \<^item> \<open>Lock_Table\<close>: \<open>spg-engine/src/locks.rs\<close>: row locks, wait-for
    edges, deadlock detection, statement walks.
  \<^item> \<open>Mvcc_Table\<close>: \<open>table.rs\<close>: the row store, its writers, scans,
    vacuum.
  \<^item> \<open>Table_Writeset\<close>: \<open>table.rs\<close>: write-sets, their extraction
    and replay.
  \<^item> \<open>Bignum_Limbs\<close>: \<open>bignum.rs\<close>: magnitudes as base 10^9 limb
    lists: comparison, sum, difference, shifts, product, and the 64-bit accumulator bound.
  \<^item> \<open>Bignum_Div\<close>: \<open>bignum.rs\<close>: short division and Knuth's long
    division, proved against quotient and remainder.
  \<^item> \<open>Bignum\<close>: \<open>bignum.rs\<close>: decimals with sign and scale: exact
    arithmetic, rounding, division, square root, the 128-bit bridge.
  \<^item> \<open>Bignum_Text\<close>: \<open>bignum.rs\<close>: decimal text and its round trip.
  \<^item> \<open>Codec_Spec\<close>: what a cursor-style reader of a binary format promises, and
    the counted loops over it.
  \<^item> \<open>Lzss\<close>: \<open>spg-crypto/src/lzss.rs\<close>: the LZSS codec of log
    records: round trip, size bound, torn streams.
  \<^item> \<open>Base64\<close>: \<open>base64.rs\<close>: the codec of the authentication
    exchange.
  \<^item> \<open>Crc\<close>: \<open>crc32.rs\<close>, \<open>crc32c.rs\<close>: table-driven
    checksums, their error detection, and the concurrent start-up of the tables.
  \<^item> \<open>Sha256\<close>: \<open>sha256.rs\<close>, \<open>hmac.rs\<close>,
    \<open>pbkdf2.rs\<close>: the hashing chain against its standards.
  \<^item> \<open>Blake3\<close>: \<open>spg-crypto/src/lib.rs\<close>: BLAKE3 and its tree.
  \<^item> \<open>Audit_Log\<close>: \<open>spg-audit/src/lib.rs\<close>: the hash-chained audit
    log and its file.
  \<^item> \<open>Manifest\<close>: \<open>spg-manifest/src/lib.rs\<close>: the manifest file, its
    round trip and the detection of damage.
  \<^item> \<open>Wire\<close>: \<open>spg-wire/src/lib.rs\<close>: frames, values and messages of
    the native protocol.
  \<^item> \<open>Wal\<close>: \<open>spg-server/src/wal.rs\<close>: log records, the statement
    encoders and recovery: what a cut or damaged log gives back.
  \<^item> \<open>Wal_Append\<close>: \<open>wal.rs\<close>, \<open>main.rs\<close>: appends to
    the log and to the audit file under every failure of the file system.
  \<^item> \<open>Group_Commit\<close>: \<open>wal.rs\<close>: the commit queue and its leader as
    a transition system; memory and log stay in step.
  \<^item> \<open>Bloom\<close>: \<open>spg-storage/src/bloom.rs\<close>: the filter of a cold
    segment: no false negative, round trip of its file form.
  \<^item> \<open>Segment_Page\<close>: \<open>spg-storage/src/segment.rs\<close>: the pages of a
    cold segment: layout, search, walk.
  \<^item> \<open>Segment\<close>: \<open>segment.rs\<close>: the segment writer with its loop
    invariant, its success and its errors.
  \<^item> \<open>Segment_Read\<close>: \<open>segment.rs\<close>: the reader: parsing a written
    file, lookup, scan, damage.
  \<^item> \<open>Segment_Envelope\<close>: \<open>segment.rs\<close>: compression envelope,
    sidecar of key ranges, owned segments.
  \<^item> \<open>Envelope\<close>: \<open>spg-engine/src/envelope.rs\<close>: the snapshot
    envelope: round trip, versions, damage.
  \<^item> \<open>Parsort\<close>: \<open>spg-engine/src/parsort.rs\<close>: the parallel sort
    against the serial one, and the lease of threads.
  \<^item> \<open>Users\<close>: \<open>spg-engine/src/users.rs\<close>: accounts, stored
    passwords, role memberships and their closures.
  \<^item> \<open>Users_Codec\<close>: \<open>users.rs\<close>: the stored user table in its six
    versions.
  \<^item> \<open>Scram\<close>: \<open>spg-server/src/scram.rs\<close>, \<open>pgwire.rs\<close>:
    the SCRAM-SHA-256 exchange with channel binding.
  \<^item> \<open>Rust_Str\<close>: operations of the standard library on strings, and pieces of
    valid UTF-8.
  \<^item> \<open>Copy_Format\<close>: \<open>spg-engine/src/copy.rs\<close>: the text and CSV
    formats of \<open>COPY\<close>.
  \<^item> \<open>Copy_Reader\<close>: \<open>copy.rs\<close>, \<open>copy_from.rs\<close>:
    options, encoder and reader of \<open>COPY\<close>: what is written is read back, and two rows
    that are not.
  \<^item> \<open>Cursor\<close>: \<open>spg-engine/src/cursor.rs\<close>,
    \<open>bytebudget.rs\<close>: server-side cursors: producing rows on demand answers like the
    whole result.
  \<^item> \<open>Decimal_Text\<close>: decimal numbers as text: printing, reading, and the value
    of a digit string.
  \<^item> \<open>Civil\<close>: \<open>spg-tzif/src/lib.rs\<close>,
    \<open>spg-engine/src/eval.rs\<close>, \<open>eval/format.rs\<close>: day numbers and dates;
    both conversions are the walk of the calendar.
  \<^item> \<open>Date_Text\<close>: \<open>eval/format.rs\<close>: dates as text: every form of a
    date literal; what is printed is read back, and the dates that are read wrongly.
  \<^item> \<open>Tz_Rule\<close>: \<open>spg-tzif/src/lib.rs\<close>: the rule line of a time
    zone file: its parser, and the offset it gives.
  \<^item> \<open>Tzif\<close>: \<open>spg-tzif/src/lib.rs\<close>: time zone files: the reader,
    the local time at an instant, the instant of a local reading.

  \<^bold>\<open>Conventions.\<close>
  A \<open>struct\<close> is a record, an \<open>enum\<close> a datatype, \<open>u8\<close>, \<open>u32\<close> and \<open>u64\<close> are words of that
  width, \<open>usize\<close> positions and lengths are natural numbers (subtractions that could go below zero
  are guarded in the code and the guard is in the model). A Rust panic and an \<open>Err\<close> are values
  (\<open>None\<close>, or \<open>Inl\<close> of an error datatype). In-place and path-copying variants of an operation are
  two definitions and are proved to agree. \<open>BTreeMap\<close> and \<open>BTreeSet\<close> of the standard library are
  ascending association lists (theory \<open>Rust_Collections\<close>).

  \<^bold>\<open>Interfaces.\<close>
  \<open>Sequence_Spec\<close> states what a vector promises, \<open>Ordered_Map_Spec\<close> what
  an ordered map promises; the persistent vector and the B-tree map are interpretations of them,
  and the client lemmas proved inside the locales give the refinement theorems.
  \<open>Codec_Spec\<close> states what a reader of a binary format promises (reading where a
  value was written gives the value and the offset after it) and, as a second locale, the same for
  rows of a fixed width; the readers of wire values, columns, manifest segments, audit entries,
  user records and role memberships are interpretations of it.

  \<^bold>\<open>Termination and bounds.\<close>
  Every loop of the model is a total function. The recursions that are not structural have a
  measure: the binary searches the width of the window, the B-tree level loop the number of nodes,
  the deadlock search the number of transactions not on the current path, the square root loops
  the current estimate (they are partial functions whose value is proved to exist), the readers
  the bytes not yet consumed, the hash tree the length of the range. No definition uses fuel that
  a theorem could run out of.

  \<^bold>\<open>Parameters.\<close>
  Code outside the repository, and parts of the repository that a component only calls, are
  arguments of the definitions: the SQL engine a log record is applied to (with its promises as
  the named hypothesis \<open>engine_laws\<close>), the SHA-1 and SHA-512 digests, the unstable sort of the
  standard library, the two floating point ceilings of the filter's dimensions, the schema check of
  an insert, the evaluation of a cursor's \<open>WHERE\<close> clause and projection, and random salts and
  nonces. Files and sockets are the bytes read and written, with every failure as an outcome.

  \<^bold>\<open>Not modelled.\<close>
  The SQL front end, query planning and execution, expression evaluation, system catalogs,
  collation, vector search on floating point numbers, the wire servers beyond authentication:
  they are either input and output or large bodies of code that rely on the parts above and
  would each be a development of its own. Of the row store, the indexes, the redo log and the byte
  and statistics counters are left out; of \<open>COPY\<close>, the rendering of values as text.
\<close>

end
